(* ===== verification/Prelude.thy ===== *)
theory Prelude
  imports Main "HOL-Library.Word" "HOL-Library.Sublist" "HOL-Library.Multiset"
begin

text \<open>
  Shared vocabulary of the development.

  Rust's \<^verbatim>\<open>Result<T>\<close> is \<^verbatim>\<open>error + 'a\<close>: \<^verbatim>\<open>Inl (Err m)\<close> is an
  \<^verbatim>\<open>Err\<close> value identified by the literal part \<^verbatim>\<open>m\<close> of its message (interpolated
  values and the context that \<^verbatim>\<open>map_err\<close> puts around a message are dropped), \<^verbatim>\<open>Inl (Panic m)\<close> is a panic of
  the running thread.  The operator \<^verbatim>\<open>?\<close> is \<^verbatim>\<open>rbind\<close>, and
  \<^verbatim>\<open>iter().map(f).collect::<Result<Vec<_>>>()\<close> is \<^verbatim>\<open>traverse f\<close>.

  \<^verbatim>\<open>usize\<close> and \<^verbatim>\<open>u64\<close> values are natural numbers; the operations
  whose behaviour at the width matters (\<^verbatim>\<open>checked_*\<close>, \<^verbatim>\<open>saturating_*\<close>)
  have their bound written out against \<^verbatim>\<open>usize_max\<close> (64-bit targets).
\<close>

named_theorems rust_simps \<open>unfolding rules for the Rust arithmetic and result operations\<close>
named_theorems inv_intros \<open>introduction rules for state invariants\<close>

section \<open>Results\<close>

datatype error = Err string | Panic string

type_synonym 'a result = "error + 'a"

fun rbind :: "'a result \<Rightarrow> ('a \<Rightarrow> 'b result) \<Rightarrow> 'b result" where
  "rbind (Inl e) f = Inl e"
| "rbind (Inr x) f = f x"

definition is_ok :: "'a result \<Rightarrow> bool" where
  "is_ok r = (case r of Inl e \<Rightarrow> False | Inr x \<Rightarrow> True)"

lemma is_ok_simps [simp]: "is_ok (Inr x)" "\<not> is_ok (Inl e)"
  by (simp_all add: is_ok_def)

lemma is_ok_iff: "is_ok r \<longleftrightarrow> (\<exists>x. r = Inr x)"
  by (cases r) auto

lemma rbind_eq_Inr_iff [simp]: "rbind r f = Inr y \<longleftrightarrow> (\<exists>x. r = Inr x \<and> f x = Inr y)"
  by (cases r) auto

lemma rbind_eq_Inl_iff: "rbind r f = Inl e \<longleftrightarrow> r = Inl e \<or> (\<exists>x. r = Inr x \<and> f x = Inl e)"
  by (cases r) auto

lemma rbind_cong [fundef_cong]:
  "r = r' \<Longrightarrow> (\<And>x. r' = Inr x \<Longrightarrow> f x = g x) \<Longrightarrow> rbind r f = rbind r' g"
  by (cases r') auto

lemma is_ok_rbind [simp]: "is_ok (rbind r f) \<longleftrightarrow> (\<exists>x. r = Inr x \<and> is_ok (f x))"
  by (cases r) auto

definition ensure :: "bool \<Rightarrow> error \<Rightarrow> unit result" where
  "ensure b e = (if b then Inr () else Inl e)"

lemma ensure_simps [simp]:
  "ensure b e = Inr u \<longleftrightarrow> b" "ensure b e = Inl e' \<longleftrightarrow> \<not> b \<and> e' = e"
  "ensure True e = Inr ()" "ensure False e = Inl e"
  by (auto simp: ensure_def)

definition ok_or :: "'a option \<Rightarrow> error \<Rightarrow> 'a result" where
  "ok_or x e = (case x of None \<Rightarrow> Inl e | Some v \<Rightarrow> Inr v)"

lemma ok_or_simps [simp]:
  "ok_or None e = Inl e" "ok_or (Some v) e = Inr v"
  "ok_or x e = Inr v \<longleftrightarrow> x = Some v" "ok_or x e = Inl e' \<longleftrightarrow> x = None \<and> e' = e"
  by (auto simp: ok_or_def split: option.splits)

fun traverse :: "('a \<Rightarrow> 'b result) \<Rightarrow> 'a list \<Rightarrow> 'b list result" where
  "traverse f [] = Inr []"
| "traverse f (x # xs) = rbind (f x) (\<lambda>y. rbind (traverse f xs) (\<lambda>ys. Inr (y # ys)))"

lemma traverse_Inr_iff:
  "traverse f xs = Inr ys \<longleftrightarrow> list_all2 (\<lambda>x y. f x = Inr y) xs ys"
  by (induction xs arbitrary: ys) (auto simp: list_all2_Cons1)

lemma traverse_length: "traverse f xs = Inr ys \<Longrightarrow> length ys = length xs"
  by (simp add: traverse_Inr_iff list_all2_lengthD)

lemma traverse_nth: "traverse f xs = Inr ys \<Longrightarrow> i < length xs \<Longrightarrow> f (xs ! i) = Inr (ys ! i)"
  unfolding traverse_Inr_iff by (drule (1) list_all2_nthD)

lemma traverse_all_ok: "(\<And>x. x \<in> set xs \<Longrightarrow> f x = Inr (g x)) \<Longrightarrow> traverse f xs = Inr (map g xs)"
  by (induction xs) auto

lemma is_ok_traverse: "is_ok (traverse f xs) \<longleftrightarrow> (\<forall>x\<in>set xs. is_ok (f x))"
proof (induction xs)
  case (Cons x xs)
  show ?case
  proof (cases "f x")
    case (Inr y)
    then show ?thesis using Cons by (cases "traverse f xs") simp_all
  qed simp
qed simp

lemma traverse_cong [fundef_cong]:
  assumes "xs = ys" "\<And>x. x \<in> set ys \<Longrightarrow> f x = g x"
  shows "traverse f xs = traverse g ys"
proof -
  have "traverse f ys = traverse g ys"
    using assms(2) by (induction ys) simp_all
  then show ?thesis using assms(1) by simp
qed

fun foldM :: "('s \<Rightarrow> 'a \<Rightarrow> 's result) \<Rightarrow> 's \<Rightarrow> 'a list \<Rightarrow> 's result" where
  "foldM f s [] = Inr s"
| "foldM f s (x # xs) = rbind (f s x) (\<lambda>s'. foldM f s' xs)"

lemma foldM_invariant:
  assumes "foldM f s xs = Inr s'" "P s"
    and "\<And>s x s'. P s \<Longrightarrow> x \<in> set xs \<Longrightarrow> f s x = Inr s' \<Longrightarrow> P s'"
  shows "P s'"
  using assms(1,2,3)
proof (induction xs arbitrary: s)
  case (Cons x xs)
  obtain t where t: "f s x = Inr t" "foldM f t xs = Inr s'" using Cons.prems(1) by auto
  have "P t" using Cons.prems(3)[OF Cons.prems(2) _ t(1)] by simp
  then show ?case using Cons.IH[OF t(2)] Cons.prems(3) by (meson list.set_intros(2))
qed simp

lemma foldM_append: "foldM f s (xs @ ys) = rbind (foldM f s xs) (\<lambda>s'. foldM f s' ys)"
proof (induction xs arbitrary: s)
  case (Cons x xs)
  show ?case by (cases "f s x") (simp_all add: Cons)
qed simp

section \<open>Machine arithmetic on usize, u32 and i64\<close>

definition usize_max :: nat where "usize_max = 2 ^ 64 - 1"
definition u32_max :: nat where "u32_max = 2 ^ 32 - 1"
definition i64_max :: nat where "i64_max = 2 ^ 63 - 1"

lemma max_values: "usize_max = 18446744073709551615" "u32_max = 4294967295"
  "i64_max = 9223372036854775807"
  by (simp_all add: usize_max_def u32_max_def i64_max_def)

definition checked_add :: "nat \<Rightarrow> nat \<Rightarrow> nat option" where
  "checked_add a b = (if a + b \<le> usize_max then Some (a + b) else None)"

definition checked_mul :: "nat \<Rightarrow> nat \<Rightarrow> nat option" where
  "checked_mul a b = (if a * b \<le> usize_max then Some (a * b) else None)"

definition checked_sub :: "nat \<Rightarrow> nat \<Rightarrow> nat option" where
  "checked_sub a b = (if b \<le> a then Some (a - b) else None)"

definition saturating_add :: "nat \<Rightarrow> nat \<Rightarrow> nat" where
  "saturating_add a b = min (a + b) usize_max"

definition saturating_mul :: "nat \<Rightarrow> nat \<Rightarrow> nat" where
  "saturating_mul a b = min (a * b) usize_max"

definition saturating_sub :: "nat \<Rightarrow> nat \<Rightarrow> nat" where
  "saturating_sub a b = a - b"

lemmas arith_defs [rust_simps] =
  checked_add_def checked_mul_def checked_sub_def
  saturating_add_def saturating_mul_def saturating_sub_def

text \<open>\<^verbatim>\<open>usize::div_ceil\<close>; a zero divisor panics, which callers write out.\<close>

definition div_ceil :: "nat \<Rightarrow> nat \<Rightarrow> nat" where
  "div_ceil a b = (if a mod b = 0 then a div b else a div b + 1)"

lemma div_ceil_le_iff: "0 < b \<Longrightarrow> div_ceil a b \<le> n \<longleftrightarrow> a \<le> n * b"
proof -
  assume b: "0 < b"
  have eq: "a = a div b * b + a mod b" by simp
  have lt: "a mod b < b" using b by simp
  show ?thesis
  proof (cases "a mod b = 0")
    case True
    then have "a = a div b * b" using eq by simp
    then show ?thesis using b True by (simp add: div_ceil_def) (metis mult_le_cancel2)
  next
    case False
    have "a div b + 1 \<le> n \<longleftrightarrow> a < n * b" using b
      by (simp add: less_mult_imp_div_less Suc_le_eq) (metis div_less_iff_less_mult)
    moreover have "a < n * b \<longleftrightarrow> a \<le> n * b"
      using False by (metis le_neq_implies_less less_imp_le mod_mult_self2_is_0)
    ultimately show ?thesis using False by (simp add: div_ceil_def)
  qed
qed

lemma div_ceil_upper: "0 < b \<Longrightarrow> a \<le> div_ceil a b * b"
  using div_ceil_le_iff[of b a "div_ceil a b"] by simp

lemma div_ceil_gt_iff: "0 < b \<Longrightarrow> n < div_ceil a b \<longleftrightarrow> n * b < a"
  using div_ceil_le_iff[of b a n] by linarith

lemma div_ceil_lt: "0 < b \<Longrightarrow> (div_ceil a b - 1) * b < a \<or> a = 0"
  using div_ceil_gt_iff[of b "div_ceil a b - 1" a] div_ceil_le_iff[of b a 0] by fastforce

lemma div_ceil_0 [simp]: "div_ceil 0 b = 0"
  by (simp add: div_ceil_def)

lemma div_ceil_mono: "0 < b \<Longrightarrow> a \<le> a' \<Longrightarrow> div_ceil a b \<le> div_ceil a' b"
  using div_ceil_le_iff div_ceil_upper order_trans by metis

lemma div_lt_div_ceil: "0 < b \<Longrightarrow> p < a \<Longrightarrow> p div b < div_ceil a b"
  by (simp add: div_ceil_gt_iff) (metis div_times_less_eq_dividend le_less_trans)

definition div_ceil_r :: "nat \<Rightarrow> nat \<Rightarrow> nat result" where
  "div_ceil_r a b = (if b = 0 then Inl (Panic ''attempt to divide by zero'') else Inr (div_ceil a b))"

lemma div_ceil_r_pos [simp]: "0 < b \<Longrightarrow> div_ceil_r a b = Inr (div_ceil a b)"
  by (simp add: div_ceil_r_def)

lemma div_ceil_r_0 [simp]: "div_ceil_r a 0 = Inl (Panic ''attempt to divide by zero'')"
  by (simp add: div_ceil_r_def)

section \<open>Lists and indices\<close>

definition get :: "'a list \<Rightarrow> nat \<Rightarrow> 'a option" where
  "get xs i = (if i < length xs then Some (xs ! i) else None)"

lemma get_Some_iff [simp]: "get xs i = Some x \<longleftrightarrow> i < length xs \<and> xs ! i = x"
  by (auto simp: get_def)

lemma get_None_iff [simp]: "get xs i = None \<longleftrightarrow> length xs \<le> i"
  by (auto simp: get_def)

text \<open>Indexing with \<^verbatim>\<open>v[i]\<close>: out of range panics.\<close>

definition index_r :: "'a list \<Rightarrow> nat \<Rightarrow> 'a result" where
  "index_r xs i = ok_or (get xs i) (Panic ''index out of bounds'')"

lemma index_r_Inr_iff [simp]: "index_r xs i = Inr x \<longleftrightarrow> i < length xs \<and> xs ! i = x"
  by (simp add: index_r_def)

lemma index_r_ok: "i < length xs \<Longrightarrow> index_r xs i = Inr (xs ! i)"
  by simp

lemma sum_list_map_le:
  "(\<And>x. x \<in> set xs \<Longrightarrow> f x \<le> (g x :: nat)) \<Longrightarrow> sum_list (map f xs) \<le> sum_list (map g xs)"
  by (induction xs) (auto simp: add_mono)

lemma block_index_inj:
  fixes b b' i j n :: nat
  assumes "i < n" "j < n"
  shows "b * n + i = b' * n + j \<longleftrightarrow> b = b' \<and> i = j"
proof
  assume eq: "b * n + i = b' * n + j"
  have "(b * n + i) div n = b" "(b' * n + j) div n = b'" using assms by auto
  then have "b = b'" using eq by simp
  then show "b = b' \<and> i = j" using eq by simp
qed simp

section \<open>Stateful code with early returns\<close>

text \<open>
  A method that takes \<^verbatim>\<open>&mut\<close> arguments and returns \<^verbatim>\<open>Result\<close> is a function from the
  state to the result and the state it leaves behind, on \<^verbatim>\<open>Err\<close> as well: an early
  return with \<^verbatim>\<open>?\<close> keeps what was changed before it.
\<close>

type_synonym ('s, 'a) prog = "'s \<Rightarrow> 'a result \<times> 's"

definition ret :: "'a \<Rightarrow> ('s, 'a) prog" where
  "ret x = (\<lambda>s. (Inr x, s))"

definition liftR :: "'a result \<Rightarrow> ('s, 'a) prog" where
  "liftR r = (\<lambda>s. (r, s))"

definition gets :: "('s \<Rightarrow> 'a) \<Rightarrow> ('s, 'a) prog" where
  "gets f = (\<lambda>s. (Inr (f s), s))"

definition getsR :: "('s \<Rightarrow> 'a result) \<Rightarrow> ('s, 'a) prog" where
  "getsR f = (\<lambda>s. (f s, s))"

definition modifyP :: "('s \<Rightarrow> 's) \<Rightarrow> ('s, unit) prog" where
  "modifyP f = (\<lambda>s. (Inr (), f s))"

definition modifyR :: "('s \<Rightarrow> 's result) \<Rightarrow> ('s, unit) prog" where
  "modifyR f = (\<lambda>s. case f s of Inl e \<Rightarrow> (Inl e, s) | Inr s' \<Rightarrow> (Inr (), s'))"

definition bindP :: "('s, 'a) prog \<Rightarrow> ('a \<Rightarrow> ('s, 'b) prog) \<Rightarrow> ('s, 'b) prog" where
  "bindP m f = (\<lambda>s. case m s of (Inl e, s') \<Rightarrow> (Inl e, s') | (Inr x, s') \<Rightarrow> f x s')"

fun foldP :: "('b \<Rightarrow> 'a \<Rightarrow> ('s, 'b) prog) \<Rightarrow> 'b \<Rightarrow> 'a list \<Rightarrow> ('s, 'b) prog" where
  "foldP f b [] = ret b"
| "foldP f b (x # xs) = bindP (f b x) (\<lambda>b'. foldP f b' xs)"

definition forP :: "'a list \<Rightarrow> ('a \<Rightarrow> ('s, unit) prog) \<Rightarrow> ('s, unit) prog" where
  "forP xs f = foldP (\<lambda>_. f) () xs"

lemmas prog_defs = ret_def liftR_def gets_def getsR_def modifyP_def modifyR_def bindP_def

lemma bindP_ok: "m s = (Inr x, s') \<Longrightarrow> bindP m f s = f x s'"
  by (simp add: bindP_def)

lemma bindP_err: "m s = (Inl e, s') \<Longrightarrow> bindP m f s = (Inl e, s')"
  by (simp add: bindP_def)

lemma bindP_gets: "bindP (gets g) f s = f (g s) s"
  by (simp add: bindP_def gets_def)

text \<open>\<^verbatim>\<open>triple P m Q E\<close>: from a state with \<open>P\<close>, an \<^verbatim>\<open>Ok\<close> return satisfies \<open>Q\<close>, an
  error return leaves a state with \<open>E\<close>.\<close>

definition triple ::
  "('s \<Rightarrow> bool) \<Rightarrow> ('s, 'a) prog \<Rightarrow> ('a \<Rightarrow> 's \<Rightarrow> bool) \<Rightarrow> ('s \<Rightarrow> bool) \<Rightarrow> bool" where
  "triple P m Q E \<longleftrightarrow> (\<forall>s. P s \<longrightarrow> (case m s of (Inl e, s') \<Rightarrow> E s' | (Inr x, s') \<Rightarrow> Q x s'))"

lemma triple_ok: "triple P m Q E \<Longrightarrow> P s \<Longrightarrow> m s = (Inr x, s') \<Longrightarrow> Q x s'"
  by (fastforce simp: triple_def)

lemma triple_err: "triple P m Q E \<Longrightarrow> P s \<Longrightarrow> m s = (Inl e, s') \<Longrightarrow> E s'"
  by (fastforce simp: triple_def)

lemma triple_bind:
  "triple P m R E \<Longrightarrow> (\<And>x. triple (R x) (f x) Q E) \<Longrightarrow> triple P (bindP m f) Q E"
  unfolding triple_def bindP_def by (fastforce split: prod.splits sum.splits)

lemma triple_ret: "(\<And>s. P s \<Longrightarrow> Q x s) \<Longrightarrow> triple P (ret x) Q E"
  by (simp add: triple_def ret_def)

lemma triple_liftR:
  "(\<And>s x. P s \<Longrightarrow> r = Inr x \<Longrightarrow> Q x s) \<Longrightarrow> (\<And>s. P s \<Longrightarrow> E s) \<Longrightarrow> triple P (liftR r) Q E"
  by (auto simp: triple_def liftR_def split: sum.splits)

lemma triple_gets: "(\<And>s. P s \<Longrightarrow> Q (f s) s) \<Longrightarrow> triple P (gets f) Q E"
  by (simp add: triple_def gets_def)

lemma triple_getsR:
  "(\<And>s x. P s \<Longrightarrow> f s = Inr x \<Longrightarrow> Q x s) \<Longrightarrow> (\<And>s. P s \<Longrightarrow> E s) \<Longrightarrow> triple P (getsR f) Q E"
  by (auto simp: triple_def getsR_def split: sum.splits)

lemma triple_modifyP: "(\<And>s. P s \<Longrightarrow> Q () (f s)) \<Longrightarrow> triple P (modifyP f) Q E"
  by (simp add: triple_def modifyP_def)

lemma triple_modifyR:
  "(\<And>s s'. P s \<Longrightarrow> f s = Inr s' \<Longrightarrow> Q () s') \<Longrightarrow> (\<And>s. P s \<Longrightarrow> E s) \<Longrightarrow> triple P (modifyR f) Q E"
  by (auto simp: triple_def modifyR_def split: sum.splits)

lemma triple_weaken:
  "triple P m Q E \<Longrightarrow> (\<And>s. P' s \<Longrightarrow> P s) \<Longrightarrow> (\<And>x s. Q x s \<Longrightarrow> Q' x s) \<Longrightarrow>
   (\<And>s. E s \<Longrightarrow> E' s) \<Longrightarrow> triple P' m Q' E'"
  unfolding triple_def by (fastforce split: prod.splits sum.splits)

lemma triple_if:
  "triple (\<lambda>s. P s \<and> b) m Q E \<Longrightarrow> triple (\<lambda>s. P s \<and> \<not> b) n Q E \<Longrightarrow> triple P (if b then m else n) Q E"
  by (simp add: triple_def)

text \<open>A loop whose invariant speaks about the part of the list already done.\<close>

lemma triple_foldP:
  assumes "\<And>done x rest b. xs = done @ x # rest \<Longrightarrow>
      triple (I done b) (f b x) (\<lambda>b'. I (done @ [x]) b') E"
  shows "triple (I [] b) (foldP f b xs) (\<lambda>b'. I xs b') E"
proof -
  have gen: "triple (I done b) (foldP f b rest) (\<lambda>b'. I xs b') E" if "xs = done @ rest" for "done" rest b
    using that
  proof (induction rest arbitrary: "done" b)
    case Nil
    then show ?case by (simp add: triple_ret)
  next
    case (Cons x rest)
    have "triple (I done b) (f b x) (\<lambda>b'. I (done @ [x]) b') E"
      by (rule assms) (use Cons.prems in simp)
    then show ?case using Cons by (auto intro: triple_bind)
  qed
  show ?thesis using gen[of "[]" xs b] by simp
qed

lemma triple_forP:
  assumes "\<And>done x rest. xs = done @ x # rest \<Longrightarrow> triple (I done) (f x) (\<lambda>_. I (done @ [x])) E"
  shows "triple (I []) (forP xs f) (\<lambda>_. I xs) E"
  unfolding forP_def
  using triple_foldP[of xs "\<lambda>done _. I done" "\<lambda>_. f" E "()"] assms by simp

lemmas triple_intros = triple_bind triple_ret triple_liftR triple_gets triple_getsR
  triple_modifyP triple_modifyR

text \<open>A program that keeps a property of the state whatever it returns.\<close>

definition keeps :: "('s \<Rightarrow> bool) \<Rightarrow> ('s, 'a) prog \<Rightarrow> bool" where
  "keeps P m \<longleftrightarrow> triple P m (\<lambda>_. P) P"

named_theorems keeps_intros \<open>rules for keeps\<close>

lemma keepsD: "keeps P m \<Longrightarrow> P s \<Longrightarrow> m s = (res, s') \<Longrightarrow> P s'"
  by (cases res) (auto simp: keeps_def triple_def)

lemma keepsI: "(\<And>s res s'. P s \<Longrightarrow> m s = (res, s') \<Longrightarrow> P s') \<Longrightarrow> keeps P m"
  by (auto simp: keeps_def triple_def split: prod.splits sum.splits)

lemma keeps_bind [keeps_intros]: "keeps P m \<Longrightarrow> (\<And>x. keeps P (f x)) \<Longrightarrow> keeps P (bindP m f)"
  unfolding keeps_def by (rule triple_bind)

lemma keeps_basic [keeps_intros]:
  "keeps P (ret x)" "keeps P (liftR r)" "keeps P (gets f)" "keeps P (getsR g)"
  by (auto simp: keeps_def triple_def prog_defs split: sum.splits)

lemma keeps_case_prod [keeps_intros]: "(\<And>a b. keeps P (f a b)) \<Longrightarrow> keeps P (case_prod f x)"
  by (cases x) simp

lemma keeps_if [keeps_intros]: "keeps P m \<Longrightarrow> keeps P n \<Longrightarrow> keeps P (if b then m else n)"
  by simp

lemma keeps_foldP [keeps_intros]: "(\<And>b x. x \<in> set xs \<Longrightarrow> keeps P (f b x)) \<Longrightarrow> keeps P (foldP f b xs)"
  by (induction xs arbitrary: b) (auto intro!: keeps_intros)

lemma keeps_forP [keeps_intros]: "(\<And>x. x \<in> set xs \<Longrightarrow> keeps P (f x)) \<Longrightarrow> keeps P (forP xs f)"
  unfolding forP_def by (rule keeps_foldP)

lemma keeps_modifyP: "(\<And>s. P s \<Longrightarrow> P (f s)) \<Longrightarrow> keeps P (modifyP f)"
  by (simp add: keeps_def triple_modifyP)

lemma keeps_modifyR: "(\<And>s s'. P s \<Longrightarrow> f s = Inr s' \<Longrightarrow> P s') \<Longrightarrow> keeps P (modifyR f)"
  by (simp add: keeps_def triple_modifyR)

text \<open>Successful runs, taken apart.\<close>

lemma bindP_Inr_iff:
  "bindP m f s = (Inr y, s') \<longleftrightarrow> (\<exists>x s1. m s = (Inr x, s1) \<and> f x s1 = (Inr y, s'))"
  by (auto simp: bindP_def split: prod.splits sum.splits)

lemma basic_Inr_iff:
  "ret x s = (Inr y, s') \<longleftrightarrow> y = x \<and> s' = s"
  "liftR r s = (Inr y, s') \<longleftrightarrow> r = Inr y \<and> s' = s"
  "gets f s = (Inr y, s') \<longleftrightarrow> y = f s \<and> s' = s"
  "getsR g s = (Inr y, s') \<longleftrightarrow> g s = Inr y \<and> s' = s"
  "modifyP h s = (Inr u, s') \<longleftrightarrow> s' = h s"
  by (auto simp: prog_defs)

end
