(* ===== verification/CudaGraphBuckets.thy ===== *)
theory CudaGraphBuckets
  imports Prelude
begin

text \<open>
  The shape buckets of \<^verbatim>\<open>vasr-paged-attn/src/cuda_graph.rs\<close>: a decode batch of
  \<^verbatim>\<open>n\<close> rows replays a graph captured for \<^verbatim>\<open>cuda_graph_batch_bucket n\<close> rows and a
  power-of-two number of block-table columns.  The graphs captured at start-up are those of
  \<^verbatim>\<open>cuda_graph_batch_buckets\<close>.  Its \<^verbatim>\<open>while\<close> loop is a
  \<^verbatim>\<open>partial_function\<close>; \<^verbatim>\<open>bucket_loop_eq\<close> shows that it returns.
\<close>

section \<open>Definitions\<close>

definition CUDA_GRAPH_CONTEXT_BUCKET_TOKENS :: nat where "CUDA_GRAPH_CONTEXT_BUCKET_TOKENS = 256"
definition CUDA_DECODE_GRAPH_MAX_BATCH :: nat where "CUDA_DECODE_GRAPH_MAX_BATCH = 256"
definition CUDA_DECODE_GRAPH_MAX_GRAPHS :: nat where "CUDA_DECODE_GRAPH_MAX_GRAPHS = 256"

definition cuda_graph_batch_bucket :: "nat \<Rightarrow> nat \<Rightarrow> nat option" where
  "cuda_graph_batch_bucket actual_batch max_batch =
     (if actual_batch = 0 \<or> max_batch = 0 \<or> max_batch < actual_batch then None
      else
        let bucket =
          (if actual_batch = 1 then 1
           else if actual_batch = 2 then 2
           else if actual_batch = 3 \<or> actual_batch = 4 then 4
           else if 5 \<le> actual_batch \<and> actual_batch \<le> 8 then 8
           else div_ceil actual_batch 16 * 16)
        in Some (min bucket max_batch))"

definition cuda_graph_prewarm_batch_limit :: "nat \<Rightarrow> nat" where
  "cuda_graph_prewarm_batch_limit max_batch = min max_batch CUDA_DECODE_GRAPH_MAX_BATCH"

partial_function (option) bucket_loop :: "nat \<Rightarrow> nat \<Rightarrow> nat list option" where
  "bucket_loop max_batch bucket =
     (if bucket \<le> max_batch
      then Option.bind (bucket_loop max_batch (saturating_add bucket 16)) (\<lambda>out. Some (bucket # out))
      else Some [])"

definition cuda_graph_batch_buckets :: "nat \<Rightarrow> nat list option" where
  "cuda_graph_batch_buckets max_batch0 =
     (let max_batch = cuda_graph_prewarm_batch_limit max_batch0
      in if max_batch = 0 then Some []
         else Option.bind (bucket_loop max_batch 16) (\<lambda>larger.
           let out = filter (\<lambda>b. b \<le> max_batch) [1, 2, 4, 8] @ larger
           in Some (if out = [] \<or> last out \<noteq> max_batch then out @ [max_batch] else out)))"

definition cuda_graph_block_bucket :: "nat \<Rightarrow> nat result" where
  "cuda_graph_block_bucket block_size =
     rbind (div_ceil_r CUDA_GRAPH_CONTEXT_BUCKET_TOKENS block_size) (\<lambda>n. Inr (max n 1))"

text \<open>\<^verbatim>\<open>usize::next_power_of_two\<close>.\<close>

fun next_power_of_two :: "nat \<Rightarrow> nat" where
  "next_power_of_two n = (if n \<le> 1 then 1 else 2 * next_power_of_two ((n + 1) div 2))"

declare next_power_of_two.simps [simp del]

definition bucket_block_table_cols :: "nat \<Rightarrow> nat \<Rightarrow> nat result" where
  "bucket_block_table_cols blocks block_size =
     rbind (cuda_graph_block_bucket block_size) (\<lambda>block_bucket.
       if blocks = 0 then Inr block_bucket
       else Inr (max (next_power_of_two blocks) block_bucket))"

section \<open>Powers of two\<close>

lemma next_power_of_two_ge: "n \<le> next_power_of_two n"
proof (induction n rule: next_power_of_two.induct)
  case (1 n)
  show ?case
  proof (cases "n \<le> 1")
    case False
    have "(n + 1) div 2 \<le> next_power_of_two ((n + 1) div 2)" using 1 False by simp
    then show ?thesis using False by (subst next_power_of_two.simps) simp
  qed (subst next_power_of_two.simps, simp)
qed

lemma next_power_of_two_lt: "0 < n \<Longrightarrow> next_power_of_two n < 2 * n"
proof (induction n rule: next_power_of_two.induct)
  case (1 n)
  show ?case
  proof (cases "n \<le> 1")
    case False
    define h where "h = (n + 1) div 2"
    have h: "0 < h" "2 * h \<le> n + 1" using False by (auto simp: h_def)
    have IH: "next_power_of_two h < 2 * h" using 1 False h by (simp add: h_def)
    have even_pow: "\<exists>k. next_power_of_two m = 2 ^ k" for m
      by (induction m rule: next_power_of_two.induct)
        (subst next_power_of_two.simps, metis (no_types) power_0 power_Suc)
    show ?thesis
    proof (cases "h = 1")
      case True
      then have "n = 2" using False by (auto simp: h_def)
      then show ?thesis by (simp add: next_power_of_two.simps)
    next
      case False
      obtain k where k: "next_power_of_two h = 2 ^ k" using even_pow by blast
      have "h \<le> 2 ^ k" using next_power_of_two_ge[of h] k by simp
      then have "k \<noteq> 0" using False h by (cases k) auto
      then have "even (next_power_of_two h)" using k by simp
      then have "next_power_of_two h + 1 < 2 * h" using IH by (metis Suc_eq_plus1 Suc_lessI even_Suc even_mult_iff even_numeral)
      moreover have "Suc n div 2 = h" by (simp add: h_def)
      ultimately show ?thesis using h \<open>\<not> n \<le> 1\<close>
        by (subst next_power_of_two.simps) simp
    qed
  qed (use 1 in \<open>subst next_power_of_two.simps, simp\<close>)
qed

lemma next_power_of_two_power: "\<exists>k. next_power_of_two m = 2 ^ k"
  by (induction m rule: next_power_of_two.induct)
    (subst next_power_of_two.simps, metis (no_types) power_0 power_Suc)

lemma bucket_block_table_cols_ge:
  assumes "bucket_block_table_cols blocks bs = Inr cols"
  shows "blocks \<le> cols" "1 \<le> cols" "256 \<le> cols * bs"
proof -
  have bs: "0 < bs" using assms by (cases bs) (auto simp: bucket_block_table_cols_def cuda_graph_block_bucket_def)
  have up: "256 \<le> max (div_ceil 256 bs) (Suc 0) * bs"
    using div_ceil_upper[OF bs, of 256] by (metis max.cobounded1 mult_le_mono1 order_trans)
  show "blocks \<le> cols" "1 \<le> cols"
    using assms bs next_power_of_two_ge[of blocks]
    by (auto simp: bucket_block_table_cols_def cuda_graph_block_bucket_def
        CUDA_GRAPH_CONTEXT_BUCKET_TOKENS_def split: if_splits)
  have "max (div_ceil 256 bs) (Suc 0) \<le> cols"
    using assms bs
    by (auto simp: bucket_block_table_cols_def cuda_graph_block_bucket_def
        CUDA_GRAPH_CONTEXT_BUCKET_TOKENS_def split: if_splits)
  then show "256 \<le> cols * bs" using up by (meson mult_le_mono1 order_trans)
qed

section \<open>The bucket loop returns, and covers every batch\<close>

lemma bucket_loop_eq:
  assumes "mx + 16 \<le> usize_max"
  shows "\<exists>out. bucket_loop mx b = Some out \<and>
    set out = {c. b \<le> c \<and> c \<le> mx \<and> 16 dvd (c - b)}"
proof (induction "mx + 1 - b" arbitrary: b rule: less_induct)
  case less
  show ?case
  proof (cases "b \<le> mx")
    case False
    then show ?thesis by (subst bucket_loop.simps) auto
  next
    case True
    have lt: "mx + 1 - (b + 16) < mx + 1 - b" using True by linarith
    have sat: "saturating_add b 16 = b + 16"
      using True assms by (simp add: saturating_add_def)
    obtain out where out: "bucket_loop mx (b + 16) = Some out"
      "set out = {c. b + 16 \<le> c \<and> c \<le> mx \<and> 16 dvd (c - (b + 16))}"
      using less[of "b + 16"] lt by blast
    have split: "16 dvd (c - b) \<longleftrightarrow> c = b \<or> b + 16 \<le> c \<and> 16 dvd (c - (b + 16))" if "b \<le> c" for c
    proof
      assume "16 dvd (c - b)"
      then obtain k where k: "c - b = 16 * k" by (elim dvdE)
      then show "c = b \<or> b + 16 \<le> c \<and> 16 dvd (c - (b + 16))"
        using that by (cases k) (auto intro: dvdI[where k = "k - 1"])
    next
      assume "c = b \<or> b + 16 \<le> c \<and> 16 dvd (c - (b + 16))"
      then show "16 dvd (c - b)"
      proof
        assume c: "b + 16 \<le> c \<and> 16 dvd (c - (b + 16))"
        then have "c - b = (c - (b + 16)) + 16" by simp
        then show ?thesis using c by (metis dvd_add dvd_refl)
      qed simp
    qed
    have "set (b # out) = {c. b \<le> c \<and> c \<le> mx \<and> 16 dvd (c - b)}"
      using out(2) True split by auto
    then show ?thesis using out(1) True sat by (subst bucket_loop.simps) auto
  qed
qed

lemma batch_bucket_values:
  "cuda_graph_batch_bucket n mx = Some b \<Longrightarrow>
    n \<le> b \<and> b \<le> mx \<and> (b = mx \<or> b \<in> {1,2,4,8} \<or> 16 \<le> b \<and> 16 dvd b)"
proof -
  assume a: "cuda_graph_batch_bucket n mx = Some b"
  have big: "n \<le> div_ceil n 16 * 16" by (rule div_ceil_upper) simp
  have sixteen: "16 \<le> div_ceil n 16 * 16" if "8 < n"
    using that div_ceil_gt_iff[of 16 0 n] by simp
  show ?thesis using a big sixteen
    by (auto simp: cuda_graph_batch_bucket_def Let_def min_def not_le split: if_splits)
qed

lemma batch_buckets_contains:
  assumes "cuda_graph_batch_bucket n (cuda_graph_prewarm_batch_limit mx) = Some b"
  shows "\<exists>bs. cuda_graph_batch_buckets mx = Some bs \<and> b \<in> set bs"
proof -
  define m where "m = cuda_graph_prewarm_batch_limit mx"
  have m256: "m \<le> 256"
    by (simp add: m_def cuda_graph_prewarm_batch_limit_def CUDA_DECODE_GRAPH_MAX_BATCH_def)
  have m0: "m \<noteq> 0" using assms by (auto simp: m_def cuda_graph_batch_bucket_def split: if_splits)
  obtain out where out: "bucket_loop m 16 = Some out"
    "set out = {c. 16 \<le> c \<and> c \<le> m \<and> 16 dvd (c - 16)}"
    using bucket_loop_eq[of m 16] m256 by (auto simp: max_values)
  have b: "b \<le> m" "b = m \<or> b \<in> {1,2,4,8} \<or> 16 \<le> b \<and> 16 dvd b"
    using batch_bucket_values[OF assms] by (auto simp: m_def)
  define o' where "o' = filter (\<lambda>b. b \<le> m) [1, 2, 4, 8] @ out"
  let ?r = "if o' = [] \<or> last o' \<noteq> m then o' @ [m] else o'"
  have "m \<in> set ?r"
  proof (cases "o' = [] \<or> last o' \<noteq> m")
    case False
    then show ?thesis using last_in_set[of o'] by simp
  qed simp
  moreover have "b \<in> set o'" if "b \<noteq> m"
  proof -
    from b(2) that consider "b \<in> {1,2,4,8}" | "16 \<le> b" "16 dvd b" by blast
    then show ?thesis
    proof cases
      case 1
      then show ?thesis using b(1) by (auto simp: o'_def)
    next
      case 2
      then have "b \<in> set out" using b(1) out(2) by (simp add: dvd_diff_nat)
      then show ?thesis by (simp add: o'_def)
    qed
  qed
  moreover have "set o' \<subseteq> set ?r" by auto
  ultimately have "b \<in> set ?r" by blast
  moreover have "cuda_graph_batch_buckets mx = Some ?r"
    unfolding cuda_graph_batch_buckets_def m_def[symmetric] Let_def o'_def using out(1) m0 by simp
  ultimately show ?thesis by blast
qed

section \<open>Properties\<close>

text \<open>C5: Every decode batch up to the prewarm limit has a bucket at least as large as the batch,
  at most 15 rows larger and within the limit, and the graphs captured at start-up include that
  bucket, so no batch size is left without a prewarmed graph.\<close>
theorem prewarmed_buckets_cover_batches:
  assumes "1 \<le> n" "n \<le> cuda_graph_prewarm_batch_limit mx"
  shows "\<exists>b bs. cuda_graph_batch_bucket n (cuda_graph_prewarm_batch_limit mx) = Some b \<and>
    n \<le> b \<and> b < n + 16 \<and> b \<le> cuda_graph_prewarm_batch_limit mx \<and>
    cuda_graph_batch_buckets mx = Some bs \<and> b \<in> set bs"
proof -
  have "\<exists>b. cuda_graph_batch_bucket n (cuda_graph_prewarm_batch_limit mx) = Some b"
    using assms by (simp add: cuda_graph_batch_bucket_def Let_def)
  then obtain b where b: "cuda_graph_batch_bucket n (cuda_graph_prewarm_batch_limit mx) = Some b" by blast
  have "div_ceil n 16 * 16 < n + 16" using div_ceil_lt[of 16 n] by auto
  then have "b < n + 16"
    using b assms(1) by (auto simp: cuda_graph_batch_bucket_def Let_def min_def not_le split: if_splits)
  then show ?thesis using b batch_bucket_values[OF b] batch_buckets_contains[OF b] by blast
qed

theorem prewarmed_buckets_cover_batches_witness:
  "\<exists>b bs. cuda_graph_batch_bucket 17 20 = Some b \<and> 17 \<le> b \<and> cuda_graph_batch_buckets 20 = Some bs \<and> b \<in> set bs"
proof -
  have "cuda_graph_prewarm_batch_limit 20 = 20"
    by (simp add: cuda_graph_prewarm_batch_limit_def CUDA_DECODE_GRAPH_MAX_BATCH_def)
  then show ?thesis using prewarmed_buckets_cover_batches[of 17 20] by auto
qed

end
