(* ===== verification/BlockManager.thy ===== *)
theory BlockManager
  imports Prelude
begin

text \<open>
  \<^verbatim>\<open>PagedBlockManager\<close> of \<^verbatim>\<open>vasr-paged-attn/src/paged_cache_runtime.rs\<close>: the
  allocator of the paged KV cache.  The free list is a FIFO queue of block ids, the
  \<^verbatim>\<open>HashMap<usize, RequestBlocks>\<close> is a finite map from request ids to the block ids a
  request owns, in table order.  Block 0 is never allocated: it is the target of the padded
  rows of a batch.

  The locale \<^verbatim>\<open>block_pool\<close> states what the batch engine and the scheduler rely on;
  it is interpreted on the model of the allocator at the end of the theory.  The invariant
  \<^verbatim>\<open>bm_inv N m\<close> says that the free list and the tables partition the ids
  \<^verbatim>\<open>1..N-1\<close>.
\<close>

section \<open>The interface the clients use\<close>

locale block_pool =
  fixes inv :: "'s \<Rightarrow> bool"
    and bsize :: "'s \<Rightarrow> nat"
    and avail :: "'s \<Rightarrow> nat"
    and table :: "'s \<Rightarrow> nat \<Rightarrow> nat list"
    and grow :: "'s \<Rightarrow> nat \<Rightarrow> nat \<Rightarrow> bool result \<times> 's"
    and release :: "'s \<Rightarrow> nat \<Rightarrow> 's"
  assumes bsize_pos: "inv s \<Longrightarrow> 0 < bsize s"
    and table_distinct: "inv s \<Longrightarrow> distinct (table s r)"
    and table_disjoint: "inv s \<Longrightarrow> r \<noteq> r' \<Longrightarrow> set (table s r) \<inter> set (table s r') = {}"
    and null_reserved: "inv s \<Longrightarrow> 0 \<notin> set (table s r)"
    and grow_total: "inv s \<Longrightarrow> \<exists>b s'. grow s r n = (Inr b, s')"
    and grow_inv: "inv s \<Longrightarrow> grow s r n = (Inr b, s') \<Longrightarrow> inv s'"
    and grow_bsize: "inv s \<Longrightarrow> grow s r n = (Inr b, s') \<Longrightarrow> bsize s' = bsize s"
    and grow_covers: "inv s \<Longrightarrow> grow s r n = (Inr True, s') \<Longrightarrow> n \<le> length (table s' r) * bsize s'"
    and grow_prefix: "inv s \<Longrightarrow> grow s r n = (Inr b, s') \<Longrightarrow> prefix (table s r) (table s' r)"
    and grow_other: "inv s \<Longrightarrow> grow s r n = (Inr b, s') \<Longrightarrow> r' \<noteq> r \<Longrightarrow> table s' r' = table s r'"
    and grow_avail: "inv s \<Longrightarrow> grow s r n = (Inr b, s') \<Longrightarrow>
        avail s' + length (table s' r) = avail s + length (table s r)"
    and grow_refused: "inv s \<Longrightarrow> grow s r n = (Inr False, s') \<Longrightarrow>
        s' = s \<and> avail s + length (table s r) < div_ceil n (bsize s)"
    and release_inv: "inv s \<Longrightarrow> inv (release s r)"
    and release_bsize: "inv s \<Longrightarrow> bsize (release s r) = bsize s"
    and release_table: "inv s \<Longrightarrow> table (release s r) r' = (if r' = r then [] else table s r')"
    and release_avail: "inv s \<Longrightarrow> avail (release s r) = avail s + length (table s r)"
begin

text \<open>The slot of position \<open>p\<close> of request \<open>r\<close>: where its keys and values live.\<close>

definition slot :: "'s \<Rightarrow> nat \<Rightarrow> nat \<Rightarrow> nat" where
  "slot s r p = table s r ! (p div bsize s) * bsize s + p mod bsize s"

definition covers :: "'s \<Rightarrow> nat \<Rightarrow> nat \<Rightarrow> bool" where
  "covers s r n \<longleftrightarrow> n \<le> length (table s r) * bsize s"

lemma covers_index: "inv s \<Longrightarrow> covers s r n \<Longrightarrow> p < n \<Longrightarrow> p div bsize s < length (table s r)"
  using bsize_pos by (auto simp: covers_def less_mult_imp_div_less)

lemma slot_not_null: "inv s \<Longrightarrow> covers s r n \<Longrightarrow> p < n \<Longrightarrow> bsize s \<le> slot s r p"
  using null_reserved[of s r] covers_index[of s r n p]
  by (cases "table s r ! (p div bsize s)") (auto simp: slot_def dest: nth_mem)

lemma slot_inj:
  assumes "inv s" "covers s r n" "p < n" "covers s r' n'" "p' < n'"
  shows "slot s r p = slot s r' p' \<longleftrightarrow> r = r' \<and> p = p'"
proof
  assume "slot s r p = slot s r' p'"
  then have blk: "table s r ! (p div bsize s) = table s r' ! (p' div bsize s)"
    and off: "p mod bsize s = p' mod bsize s"
    using bsize_pos[OF assms(1)] by (auto simp: slot_def block_index_inj)
  have mem: "table s r ! (p div bsize s) \<in> set (table s r)"
    "table s r' ! (p' div bsize s) \<in> set (table s r')"
    using covers_index[OF assms(1)] assms by auto
  have "r = r'"
  proof (rule ccontr)
    assume "r \<noteq> r'"
    then show False using table_disjoint[OF assms(1), of r r'] mem blk by auto
  qed
  moreover have "p div bsize s = p' div bsize s"
    using blk \<open>r = r'\<close> table_distinct[OF assms(1)] covers_index[OF assms(1)] assms
    by (metis nth_eq_iff_index_eq)
  then have "p = p'" using off by (metis div_mult_mod_eq)
  ultimately show "r = r' \<and> p = p'" by simp
qed simp

lemma grow_covers_iff: "inv s \<Longrightarrow> grow s r n = (Inr True, s') \<Longrightarrow> covers s' r n"
  by (simp add: covers_def grow_covers)

lemma grow_keeps_slot:
  assumes "inv s" "grow s r n = (Inr b, s')" "covers s r' k" "p < k"
  shows "covers s' r' k \<and> slot s' r' p = slot s r' p"
proof (cases "r' = r")
  case False
  then show ?thesis using assms grow_other grow_bsize by (simp add: covers_def slot_def)
next
  case True
  obtain ys where ys: "table s' r = table s r @ ys"
    using grow_prefix[OF assms(1,2)] by (auto simp: prefix_def)
  show ?thesis using True assms covers_index[OF assms(1,3,4)] ys grow_bsize[OF assms(1,2)]
    by (auto simp: covers_def slot_def nth_append algebra_simps)
qed

lemma grow_keeps_covers: "inv s \<Longrightarrow> grow s r n = (Inr b, s') \<Longrightarrow> covers s r' k \<Longrightarrow> covers s' r' k"
  using grow_keeps_slot[of s r n b s' r' k 0] by (cases k) (auto simp: covers_def)

lemma release_slots:
  "inv s \<Longrightarrow> r' \<noteq> r \<Longrightarrow> slot (release s r) r' p = slot s r' p \<and> covers (release s r) r' k = covers s r' k"
  by (simp add: slot_def covers_def release_table release_bsize)

lemma release_many:
  assumes "inv s"
  shows "inv (fold (\<lambda>r s. release s r) rs s) \<and> bsize (fold (\<lambda>r s. release s r) rs s) = bsize s \<and>
    (\<forall>r. table (fold (\<lambda>r s. release s r) rs s) r = (if r \<in> set rs then [] else table s r))"
  using assms
proof (induction rs arbitrary: s)
  case (Cons a rs)
  show ?case
    using Cons.IH[OF release_inv[OF Cons.prems, of a]] Cons.prems
    by (auto simp: release_table release_bsize)
qed simp

end

section \<open>The allocator\<close>

record block_manager =
  bm_block_size :: nat
  bm_free :: "nat list"
  bm_request_blocks :: "nat \<Rightarrow> nat list option"

definition new_block_manager :: "nat \<Rightarrow> nat \<Rightarrow> block_manager" where
  "new_block_manager num_blocks block_size =
     \<lparr>bm_block_size = block_size, bm_free = [1..<num_blocks], bm_request_blocks = Map.empty\<rparr>"

definition free_blocks :: "block_manager \<Rightarrow> nat" where
  "free_blocks m = length (bm_free m)"

definition blocks_for_request :: "block_manager \<Rightarrow> nat \<Rightarrow> nat" where
  "blocks_for_request m r = (case bm_request_blocks m r of None \<Rightarrow> 0 | Some ids \<Rightarrow> length ids)"

definition slots_available_for :: "block_manager \<Rightarrow> nat \<Rightarrow> nat \<Rightarrow> bool result" where
  "slots_available_for m r num_tokens =
     rbind (div_ceil_r num_tokens (bm_block_size m)) (\<lambda>required.
       let existing = blocks_for_request m r;
           needed = saturating_sub required existing
       in Inr (needed \<le> length (bm_free m)))"

definition total_allocated_blocks :: "block_manager \<Rightarrow> nat" where
  "total_allocated_blocks m = (\<Sum>r\<in>dom (bm_request_blocks m). blocks_for_request m r)"

definition allocatable_block_capacity :: "nat \<Rightarrow> nat" where
  "allocatable_block_capacity num_blocks = saturating_sub num_blocks 1"

text \<open>The loop of \<^verbatim>\<open>try_allocate_slots\<close>: pops \<open>needed\<close> blocks off the queue.\<close>

fun alloc_loop :: "nat \<Rightarrow> nat list \<Rightarrow> nat list \<Rightarrow> unit result \<times> nat list \<times> nat list" where
  "alloc_loop 0 fr ids = (Inr (), fr, ids)"
| "alloc_loop (Suc k) [] ids = (Inl (Err ''paged KV free list underflow''), [], ids)"
| "alloc_loop (Suc k) (b # fr) ids = alloc_loop k fr (ids @ [b])"

definition try_allocate_slots ::
  "block_manager \<Rightarrow> nat \<Rightarrow> nat \<Rightarrow> bool result \<times> block_manager" where
  "try_allocate_slots m r num_tokens =
     (case div_ceil_r num_tokens (bm_block_size m) of
        Inl e \<Rightarrow> (Inl e, m)
      | Inr required \<Rightarrow>
          let existing = blocks_for_request m r;
              needed = saturating_sub required existing
          in if needed = 0 then (Inr True, m)
             else if length (bm_free m) < needed then (Inr False, m)
             else let ids = (case bm_request_blocks m r of None \<Rightarrow> [] | Some ids \<Rightarrow> ids)
                  in (case alloc_loop needed (bm_free m) ids of
                        (res, fr, ids') \<Rightarrow>
                          (rbind res (\<lambda>_. Inr True),
                           m\<lparr>bm_free := fr, bm_request_blocks := (bm_request_blocks m)(r \<mapsto> ids')\<rparr>)))"

definition allocate_slots ::
  "block_manager \<Rightarrow> nat \<Rightarrow> nat \<Rightarrow> unit result \<times> block_manager" where
  "allocate_slots m r num_tokens =
     (case try_allocate_slots m r num_tokens of
        (Inl e, m') \<Rightarrow> (Inl e, m')
      | (Inr ok, m') \<Rightarrow> if ok then (Inr (), m') else (Inl (Err ''paged KV cache exhausted''), m'))"

definition trim_request_to_num_tokens ::
  "block_manager \<Rightarrow> nat \<Rightarrow> nat \<Rightarrow> block_manager result" where
  "trim_request_to_num_tokens m r num_tokens =
     rbind (div_ceil_r num_tokens (bm_block_size m)) (\<lambda>num_required.
       case bm_request_blocks m r of
         None \<Rightarrow> Inr m
       | Some ids \<Rightarrow>
           if length ids \<le> num_required then Inr m
           else let removed = rev (drop num_required ids)
                in Inr (m\<lparr>bm_request_blocks := (bm_request_blocks m)(r \<mapsto> take num_required ids),
                          bm_free := bm_free m @ filter (\<lambda>b. b \<noteq> 0) removed\<rparr>))"

definition block_ids :: "block_manager \<Rightarrow> nat \<Rightarrow> nat list result" where
  "block_ids m r = ok_or (bm_request_blocks m r) (Err ''paged KV request has no allocated blocks'')"

definition free_request :: "block_manager \<Rightarrow> nat \<Rightarrow> block_manager" where
  "free_request m r =
     (case bm_request_blocks m r of
        None \<Rightarrow> m
      | Some ids \<Rightarrow> m\<lparr>bm_request_blocks := (bm_request_blocks m)(r := None),
                      bm_free := bm_free m @ filter (\<lambda>b. b \<noteq> 0) (rev ids)\<rparr>)"

definition free_many :: "block_manager \<Rightarrow> nat list \<Rightarrow> block_manager" where
  "free_many m rs = fold (\<lambda>r m. free_request m r) rs m"

definition block_tables_for :: "block_manager \<Rightarrow> nat list \<Rightarrow> nat list list result" where
  "block_tables_for m rs = traverse (block_ids m) rs"

section \<open>The ownership invariant\<close>

definition blocks_of :: "block_manager \<Rightarrow> nat \<Rightarrow> nat list" where
  "blocks_of m r = (case bm_request_blocks m r of None \<Rightarrow> [] | Some ids \<Rightarrow> ids)"

definition bm_inv :: "nat \<Rightarrow> block_manager \<Rightarrow> bool" where
  "bm_inv N m \<longleftrightarrow> 0 < bm_block_size m \<and> finite (dom (bm_request_blocks m)) \<and>
     distinct (bm_free m) \<and>
     (\<forall>r. distinct (blocks_of m r) \<and> set (bm_free m) \<inter> set (blocks_of m r) = {}) \<and>
     (\<forall>r r'. r \<noteq> r' \<longrightarrow> set (blocks_of m r) \<inter> set (blocks_of m r') = {}) \<and>
     set (bm_free m) \<union> (\<Union>r. set (blocks_of m r)) = {1..<N}"

lemma blocks_for_request_eq: "blocks_for_request m r = length (blocks_of m r)"
  by (simp add: blocks_for_request_def blocks_of_def split: option.splits)

lemma bm_inv_pos: "bm_inv N m \<Longrightarrow> 0 < bm_block_size m"
  by (simp add: bm_inv_def)

lemma bm_inv_range: "bm_inv N m \<Longrightarrow> b \<in> set (blocks_of m r) \<Longrightarrow> 1 \<le> b \<and> b < N"
  unfolding bm_inv_def by (metis UN_I UNIV_I UnI2 atLeastLessThan_iff)

lemma bm_inv_free_range: "bm_inv N m \<Longrightarrow> b \<in> set (bm_free m) \<Longrightarrow> 1 \<le> b \<and> b < N"
  unfolding bm_inv_def by (metis UnI1 atLeastLessThan_iff)

lemma bm_inv_no_null: "bm_inv N m \<Longrightarrow> filter (\<lambda>b. b \<noteq> 0) (rev (blocks_of m r)) = rev (blocks_of m r)"
  using bm_inv_range[of N m 0 r] by (intro filter_True) (metis not_one_le_zero set_rev)

lemma bm_inv_move:
  assumes inv: "bm_inv N m"
    and m': "bm_block_size m' = bm_block_size m" "blocks_of m' = (blocks_of m)(r := ids)"
      "finite (dom (bm_request_blocks m'))"
    and same: "mset (bm_free m') + mset ids = mset (bm_free m) + mset (blocks_of m r)"
  shows "bm_inv N m'"
proof -
  have "distinct (bm_free m @ blocks_of m r)" using inv by (auto simp: bm_inv_def)
  moreover have ms: "mset (bm_free m' @ ids) = mset (bm_free m @ blocks_of m r)" using same by simp
  ultimately have d: "distinct (bm_free m' @ ids)" by (metis mset_eq_imp_distinct_iff)
  have s: "set (bm_free m') \<union> set ids = set (bm_free m) \<union> set (blocks_of m r)"
    using ms by (metis mset_eq_setD set_append)
  have U: "set (bm_free m') \<union> (\<Union>x. set (blocks_of m' x)) =
      (set (bm_free m) \<union> set (blocks_of m r)) \<union> (\<Union>x\<in>UNIV-{r}. set (blocks_of m x))"
    unfolding s[symmetric] m'(2) by (auto split: if_splits)
  have sep: "\<And>x. x \<noteq> r \<Longrightarrow> (set (bm_free m') \<union> set ids) \<inter> set (blocks_of m x) = {}"
    using inv unfolding s bm_inv_def by (metis Int_Un_distrib2 Un_empty)
  have all: "set (bm_free m') \<union> (\<Union>x. set (blocks_of m' x)) = {1..<N}"
    using inv U unfolding bm_inv_def by auto
  have "distinct (blocks_of m' x) \<and> set (bm_free m') \<inter> set (blocks_of m' x) = {}" for x
  proof (cases "x = r")
    case True
    then show ?thesis using d m'(2) by simp
  next
    case False
    then show ?thesis using inv sep[OF False] m'(2) by (auto simp: bm_inv_def)
  qed
  moreover have "set (blocks_of m' x) \<inter> set (blocks_of m' y) = {}" if "x \<noteq> y" for x y
  proof -
    consider "x = r" "y \<noteq> r" | "y = r" "x \<noteq> r" | "x \<noteq> r" "y \<noteq> r" using \<open>x \<noteq> y\<close> by blast
    then show ?thesis
    proof cases
      case 1
      then show ?thesis using sep[OF 1(2)] m'(2) by auto
    next
      case 2
      then show ?thesis using sep[OF 2(2)] m'(2) by auto
    next
      case 3
      then show ?thesis using inv that m'(2) by (simp add: bm_inv_def)
    qed
  qed
  ultimately show ?thesis using inv d all m' by (simp add: bm_inv_def)
qed

lemma new_block_manager_inv: "0 < bs \<Longrightarrow> bm_inv N (new_block_manager N bs)"
  by (auto simp: bm_inv_def new_block_manager_def blocks_of_def)

lemma alloc_loop_enough:
  "k \<le> length fr \<Longrightarrow> alloc_loop k fr ids = (Inr (), drop k fr, ids @ take k fr)"
proof (induction k fr ids rule: alloc_loop.induct)
  case (3 k b fr ids)
  then show ?case by simp
qed simp_all

definition blocks_needed :: "block_manager \<Rightarrow> nat \<Rightarrow> nat \<Rightarrow> nat" where
  "blocks_needed m r n = div_ceil n (bm_block_size m) - length (blocks_of m r)"

definition grown :: "block_manager \<Rightarrow> nat \<Rightarrow> nat \<Rightarrow> block_manager" where
  "grown m r k = m\<lparr>bm_free := drop k (bm_free m),
     bm_request_blocks := (bm_request_blocks m)(r \<mapsto> blocks_of m r @ take k (bm_free m))\<rparr>"

lemma grown_simps [simp]:
  "bm_block_size (grown m r k) = bm_block_size m"
  "bm_free (grown m r k) = drop k (bm_free m)"
  "blocks_of (grown m r k) = (blocks_of m)(r := blocks_of m r @ take k (bm_free m))"
  "dom (bm_request_blocks (grown m r k)) = insert r (dom (bm_request_blocks m))"
  by (auto simp: grown_def blocks_of_def fun_eq_iff)

lemma try_allocate_eq:
  assumes "0 < bm_block_size m"
  shows "try_allocate_slots m r n =
    (if blocks_needed m r n = 0 then (Inr True, m)
     else if length (bm_free m) < blocks_needed m r n then (Inr False, m)
     else (Inr True, grown m r (blocks_needed m r n)))"
  using assms
  by (simp add: try_allocate_slots_def blocks_needed_def blocks_for_request_eq saturating_sub_def
      alloc_loop_enough grown_def blocks_of_def Let_def)

lemma grown_inv [inv_intros]:
  assumes "bm_inv N m" shows "bm_inv N (grown m r k)"
proof (rule bm_inv_move[OF assms])
  have "mset (take k (bm_free m) @ drop k (bm_free m)) = mset (bm_free m)" by simp
  then show "mset (bm_free (grown m r k)) + mset (blocks_of m r @ take k (bm_free m)) =
    mset (bm_free m) + mset (blocks_of m r)"
    by (simp del: append_take_drop_id) (metis add.commute)
qed (use assms in \<open>simp_all add: bm_inv_def\<close>)

lemma try_allocate_inv [inv_intros]:
  "bm_inv N m \<Longrightarrow> bm_inv N (snd (try_allocate_slots m r n))"
  using grown_inv[of N m] by (simp add: try_allocate_eq bm_inv_pos)

lemma free_request_blocks_of:
  "blocks_of (free_request m r) = (blocks_of m)(r := [])"
  by (auto simp: free_request_def blocks_of_def fun_eq_iff split: option.splits)

lemma free_request_free:
  "bm_inv N m \<Longrightarrow> bm_free (free_request m r) = bm_free m @ rev (blocks_of m r)"
  using bm_inv_no_null[of N m r]
  by (auto simp: free_request_def blocks_of_def split: option.splits)

lemma free_request_size [simp]: "bm_block_size (free_request m r) = bm_block_size m"
  by (simp add: free_request_def split: option.splits)

lemma free_request_inv [inv_intros]:
  assumes "bm_inv N m" shows "bm_inv N (free_request m r)"
proof (rule bm_inv_move[OF assms _ free_request_blocks_of])
  show "finite (dom (bm_request_blocks (free_request m r)))"
    using assms by (auto simp: bm_inv_def free_request_def split: option.splits)
qed (simp_all add: free_request_free[OF assms])

lemma trim_blocks_of:
  assumes "bm_inv N m" "trim_request_to_num_tokens m r n = Inr m'"
  shows "blocks_of m' = (blocks_of m)(r := take (div_ceil n (bm_block_size m)) (blocks_of m r))"
    "bm_free m' = bm_free m @ rev (drop (div_ceil n (bm_block_size m)) (blocks_of m r))"
    "bm_block_size m' = bm_block_size m"
    "finite (dom (bm_request_blocks m'))"
proof -
  have nz: "\<And>k. filter (\<lambda>b. b \<noteq> 0) (rev (drop k (blocks_of m r))) = rev (drop k (blocks_of m r))"
    using bm_inv_range[OF assms(1)] by (intro filter_True) (metis in_set_dropD not_one_le_zero set_rev)
  have pos: "0 < bm_block_size m" and fin: "finite (dom (bm_request_blocks m))"
    using assms(1) by (simp_all add: bm_inv_def)
  show "blocks_of m' = (blocks_of m)(r := take (div_ceil n (bm_block_size m)) (blocks_of m r))"
    "bm_free m' = bm_free m @ rev (drop (div_ceil n (bm_block_size m)) (blocks_of m r))"
    "bm_block_size m' = bm_block_size m"
    "finite (dom (bm_request_blocks m'))"
    using assms(2) pos nz fin
    by (auto simp: trim_request_to_num_tokens_def blocks_of_def fun_eq_iff Let_def
        split: option.splits if_splits)
qed

lemma trim_total: "bm_inv N m \<Longrightarrow> \<exists>m'. trim_request_to_num_tokens m r n = Inr m'"
  by (auto simp: trim_request_to_num_tokens_def bm_inv_pos Let_def split: option.splits)

lemma trim_inv [inv_intros]:
  assumes "bm_inv N m" "trim_request_to_num_tokens m r n = Inr m'"
  shows "bm_inv N m'"
proof (rule bm_inv_move[OF assms(1) _ trim_blocks_of(1)[OF assms]])
  have "mset (take k xs) + mset (drop k xs) = mset xs" for k and xs :: "nat list"
    by (metis append_take_drop_id mset_append)
  then show "mset (bm_free m') + mset (take (div_ceil n (bm_block_size m)) (blocks_of m r)) =
    mset (bm_free m) + mset (blocks_of m r)"
    by (simp add: trim_blocks_of(2)[OF assms] add.commute add.left_commute)
qed (simp_all add: trim_blocks_of[OF assms])

section \<open>The allocator provides the interface\<close>

interpretation bm: block_pool
  "\<lambda>m. \<exists>N. bm_inv N m" bm_block_size free_blocks blocks_of try_allocate_slots free_request
proof unfold_locales
  fix s r n b s' r'
  assume inv: "\<exists>N. bm_inv N s"
  then obtain N where N: "bm_inv N s" by blast
  note pos = bm_inv_pos[OF N]
  show "0 < bm_block_size s" by (rule pos)
  show "distinct (blocks_of s r)" using N by (simp add: bm_inv_def)
  show "0 \<notin> set (blocks_of s r)" using bm_inv_range[OF N] by fastforce
  show "\<exists>b s'. try_allocate_slots s r n = (Inr b, s')" unfolding try_allocate_eq[OF pos] by (metis (full_types))
  show "\<exists>N. bm_inv N (free_request s r)" using free_request_inv[OF N] by blast
  show "bm_block_size (free_request s r) = bm_block_size s" by simp
  show "blocks_of (free_request s r) r' = (if r' = r then [] else blocks_of s r')"
    by (simp add: free_request_blocks_of)
  show "free_blocks (free_request s r) = free_blocks s + length (blocks_of s r)"
    by (simp add: free_blocks_def free_request_free[OF N])
  assume g: "try_allocate_slots s r n = (Inr b, s')"
  show "\<exists>N. bm_inv N s'" using try_allocate_inv[OF N, of r n] g by auto
  show "bm_block_size s' = bm_block_size s" "prefix (blocks_of s r) (blocks_of s' r)"
    "free_blocks s' + length (blocks_of s' r) = free_blocks s + length (blocks_of s r)"
    using g by (auto simp: try_allocate_eq[OF pos] free_blocks_def split: if_splits)
qed (auto simp: bm_inv_def try_allocate_eq blocks_needed_def free_blocks_def div_ceil_le_iff[symmetric]
      split: if_splits)

section \<open>Conservation\<close>

lemma total_allocated_card:
  assumes "bm_inv N m"
  shows "total_allocated_blocks m = card (\<Union>r. set (blocks_of m r))"
proof -
  let ?D = "dom (bm_request_blocks m)"
  have "card (\<Union>r\<in>?D. set (blocks_of m r)) = (\<Sum>r\<in>?D. card (set (blocks_of m r)))"
    using assms by (intro card_UN_disjoint) (auto simp: bm_inv_def)
  moreover have "r \<in> ?D" if "b \<in> set (blocks_of m r)" for b r
    using that by (cases "bm_request_blocks m r") (auto simp: blocks_of_def)
  then have "(\<Union>r\<in>?D. set (blocks_of m r)) = (\<Union>r. set (blocks_of m r))"
    by blast
  moreover have "card (set (blocks_of m r)) = blocks_for_request m r" for r
    using assms by (simp add: bm_inv_def blocks_for_request_eq distinct_card)
  ultimately show ?thesis by (simp add: total_allocated_blocks_def)
qed

lemma conservation:
  assumes "bm_inv N m"
  shows "free_blocks m + total_allocated_blocks m = allocatable_block_capacity N"
proof -
  have "card (set (bm_free m) \<union> (\<Union>r. set (blocks_of m r))) =
    card (set (bm_free m)) + card (\<Union>r. set (blocks_of m r))"
  proof (rule card_Un_disjoint)
    show "finite (\<Union>r. set (blocks_of m r))"
      using assms unfolding bm_inv_def by (metis finite_Un finite_atLeastLessThan)
  qed (use assms in \<open>auto simp: bm_inv_def\<close>)
  moreover have "set (bm_free m) \<union> (\<Union>r. set (blocks_of m r)) = {1..<N}"
    using assms by (simp add: bm_inv_def)
  ultimately show ?thesis using assms
    by (simp add: total_allocated_card free_blocks_def allocatable_block_capacity_def
        saturating_sub_def distinct_card bm_inv_def)
qed

section \<open>Properties\<close>

text \<open>A run of allocator calls; a call that fails leaves the state it returns.\<close>

datatype bm_op = OpAllocate nat nat | OpTrim nat nat | OpFree nat | OpFreeMany "nat list"

fun run_op :: "bm_op \<Rightarrow> block_manager \<Rightarrow> block_manager" where
  "run_op (OpAllocate r n) m = snd (allocate_slots m r n)"
| "run_op (OpTrim r n) m = (case trim_request_to_num_tokens m r n of Inl e \<Rightarrow> m | Inr m' \<Rightarrow> m')"
| "run_op (OpFree r) m = free_request m r"
| "run_op (OpFreeMany rs) m = free_many m rs"

lemma allocate_slots_snd: "snd (allocate_slots m r n) = snd (try_allocate_slots m r n)"
  by (auto simp: allocate_slots_def split: prod.splits sum.splits)

lemma free_many_inv [inv_intros]: "bm_inv N m \<Longrightarrow> bm_inv N (free_many m rs)"
  unfolding free_many_def by (induction rs arbitrary: m) (auto intro: free_request_inv)

lemma run_op_inv [inv_intros]: "bm_inv N m \<Longrightarrow> bm_inv N (run_op op m)"
  by (cases op) (auto simp: allocate_slots_snd intro: inv_intros split: sum.splits)

lemma run_ops_inv: "bm_inv N m \<Longrightarrow> bm_inv N (fold run_op ops m)"
  by (induction ops arbitrary: m) (auto intro: run_op_inv)

text \<open>C1: Whatever sequence of allocations, trims and frees is run on a new block manager, no
  block is owned by two requests, owned twice by one request, or free and owned at once; the
  reserved block 0 is never handed out nor put on the free list; and free plus allocated
  blocks are always \<^verbatim>\<open>num_blocks - 1\<close>.\<close>
theorem pool_partition:
  assumes "0 < bs"
  shows "let m = fold run_op ops (new_block_manager N bs) in
    distinct (bm_free m) \<and> 0 \<notin> set (bm_free m) \<and>
    (\<forall>r. distinct (blocks_of m r) \<and> 0 \<notin> set (blocks_of m r) \<and>
         set (bm_free m) \<inter> set (blocks_of m r) = {}) \<and>
    (\<forall>r r'. r \<noteq> r' \<longrightarrow> set (blocks_of m r) \<inter> set (blocks_of m r') = {}) \<and>
    free_blocks m + total_allocated_blocks m = allocatable_block_capacity N"
proof -
  have inv: "bm_inv N (fold run_op ops (new_block_manager N bs))"
    by (intro run_ops_inv new_block_manager_inv assms)
  have "0 \<notin> set (bm_free (fold run_op ops (new_block_manager N bs)))"
    using bm_inv_free_range[OF inv, of 0] by auto
  moreover have "0 \<notin> set (blocks_of (fold run_op ops (new_block_manager N bs)) r)" for r
    using bm_inv_range[OF inv, of 0 r] by auto
  ultimately show ?thesis using inv conservation[OF inv] by (simp add: Let_def bm_inv_def)
qed

theorem pool_partition_witness:
  "let m = fold run_op [OpAllocate 3 5, OpAllocate 4 2, OpTrim 3 2, OpFree 4] (new_block_manager 6 2) in
    bm_free m = [5, 3, 2, 4] \<and> blocks_of m 3 = [1] \<and>
    free_blocks m + total_allocated_blocks m = allocatable_block_capacity 6"
proof -
  let ?m = "fold run_op [OpAllocate 3 5, OpAllocate 4 2, OpTrim 3 2, OpFree 4] (new_block_manager 6 2)"
  have "bm_free ?m = [5, 3, 2, 4]" "blocks_of ?m 3 = [1]" by code_simp+
  then show ?thesis
    using pool_partition[of 2 "[OpAllocate 3 5, OpAllocate 4 2, OpTrim 3 2, OpFree 4]" 6]
    unfolding Let_def by simp
qed

text \<open>C2: \<^verbatim>\<open>try_allocate_slots\<close> is all or nothing.  It returns \<^verbatim>\<open>true\<close> exactly when
  \<^verbatim>\<open>slots_available_for\<close> says so; then the request's table is extended by the oldest free
  blocks, just enough to cover the tokens, and no other request changes.  Otherwise the pool
  is unchanged.\<close>
theorem try_allocate_all_or_nothing:
  assumes "bm_inv N m" "try_allocate_slots m r n = (res, m')"
  shows "\<exists>ok. res = Inr ok \<and> slots_available_for m r n = Inr ok \<and> bm_inv N m' \<and>
    (\<forall>r'. r' \<noteq> r \<longrightarrow> blocks_of m' r' = blocks_of m r') \<and>
    (if ok then blocks_of m' r = blocks_of m r @ take (blocks_needed m r n) (bm_free m) \<and>
                bm_free m' = drop (blocks_needed m r n) (bm_free m) \<and>
                length (blocks_of m' r) = max (length (blocks_of m r)) (div_ceil n (bm_block_size m)) \<and>
                n \<le> length (blocks_of m' r) * bm_block_size m'
     else m' = m)"
proof -
  note pos = bm_inv_pos[OF assms(1)]
  have inv': "bm_inv N m'" using try_allocate_inv[OF assms(1), of r n] assms(2) by simp
  have avail: "slots_available_for m r n = Inr (blocks_needed m r n \<le> length (bm_free m))"
    using pos by (simp add: slots_available_for_def blocks_needed_def blocks_for_request_eq saturating_sub_def)
  have cov: "div_ceil n (bm_block_size m) \<le> k \<Longrightarrow> n \<le> k * bm_block_size m" for k
    using div_ceil_le_iff[OF pos] by simp
  consider "blocks_needed m r n = 0" | "0 < blocks_needed m r n" "blocks_needed m r n \<le> length (bm_free m)"
    | "length (bm_free m) < blocks_needed m r n" by linarith
  then show ?thesis
  proof cases
    case 1
    then show ?thesis using assms(2) inv' avail cov[of "length (blocks_of m r)"]
      by (auto simp: try_allocate_eq[OF pos] blocks_needed_def)
  next
    case 2
    then have "res = Inr True" "m' = grown m r (blocks_needed m r n)"
      using assms(2) by (simp_all add: try_allocate_eq[OF pos])
    then show ?thesis using 2 inv' avail cov[of "div_ceil n (bm_block_size m)"]
      by (auto simp: blocks_needed_def)
  next
    case 3
    then show ?thesis using assms inv' avail by (auto simp: try_allocate_eq[OF pos])
  qed
qed

theorem try_allocate_all_or_nothing_witness:
  "(\<exists>ok. fst (try_allocate_slots (new_block_manager 4 2) 7 3) = Inr ok \<and>
      slots_available_for (new_block_manager 4 2) 7 3 = Inr ok) \<and>
   fst (try_allocate_slots (new_block_manager 4 2) 7 3) = Inr True"
proof -
  have inv: "bm_inv 4 (new_block_manager 4 2)" by (rule new_block_manager_inv) simp
  have "fst (try_allocate_slots (new_block_manager 4 2) 7 3) = Inr True" by code_simp
  then show ?thesis
    using try_allocate_all_or_nothing[OF inv prod.collapse[symmetric, of "try_allocate_slots (new_block_manager 4 2) 7 3"]]
    by metis
qed

text \<open>\<^verbatim>\<open>trim_request_to_num_tokens\<close> keeps the first blocks of the table, just enough for
  the tokens, puts the rest at the end of the free queue, last block first, and changes no
  other request: every position below \<open>n\<close> that was backed keeps its block.\<close>
theorem trim_keeps_prefix:
  assumes "bm_inv N m"
  shows "\<exists>m'. trim_request_to_num_tokens m r n = Inr m' \<and> bm_inv N m' \<and>
    blocks_of m' r = take (div_ceil n (bm_block_size m)) (blocks_of m r) \<and>
    bm_free m' = bm_free m @ rev (drop (div_ceil n (bm_block_size m)) (blocks_of m r)) \<and>
    (\<forall>r'. r' \<noteq> r \<longrightarrow> blocks_of m' r' = blocks_of m r') \<and>
    (\<forall>p. p < n \<and> p div bm_block_size m < length (blocks_of m r) \<longrightarrow>
         p div bm_block_size m < length (blocks_of m' r) \<and>
         blocks_of m' r ! (p div bm_block_size m) = blocks_of m r ! (p div bm_block_size m))"
proof -
  obtain m' where m': "trim_request_to_num_tokens m r n = Inr m'" using trim_total[OF assms] by blast
  show ?thesis
    using m' trim_blocks_of[OF assms m'] trim_inv[OF assms m']
      div_lt_div_ceil[OF bm_inv_pos[OF assms], of _ n]
    by (intro exI[of _ m']) simp
qed

theorem trim_keeps_prefix_witness:
  "\<exists>m'. trim_request_to_num_tokens (new_block_manager 4 2) 7 1 = Inr m' \<and> blocks_of m' 7 = []"
proof -
  have inv: "bm_inv 4 (new_block_manager 4 2)" by (rule new_block_manager_inv) simp
  have "blocks_of (new_block_manager 4 2) 7 = []" by (simp add: new_block_manager_def blocks_of_def)
  then show ?thesis using trim_keeps_prefix[OF inv, of 7 1] by auto
qed

end
