(* ===== verification/PagedKv.thy ===== *)
theory PagedKv
  imports CudaGraphBuckets BlockManager
begin

text \<open>
  \<^verbatim>\<open>vasr-paged-attn/src/paged_kv_cache.rs\<close> and \<^verbatim>\<open>flash.rs\<close>: the geometry of
  the paged KV cache and the metadata (slot mapping, block tables, context lengths,
  cumulative sequence lengths) that prefill and decode kernels read.

  A device tensor is kept as the call that makes it: \<^verbatim>\<open>FromVec data shape\<close> is
  \<^verbatim>\<open>Tensor::from_vec\<close> on host data, \<^verbatim>\<open>Narrow0\<close> is \<^verbatim>\<open>narrow(0, start, len)\<close>
  and \<^verbatim>\<open>FlattenAll\<close> is \<^verbatim>\<open>flatten_all\<close>; nothing of the tensor library is
  executed.  \<^verbatim>\<open>host\<close> is the row-major reading of such a term.  The K and V tensors
  are represented by their shapes.
\<close>

section \<open>Tensors as built by the host code\<close>

datatype 'a tensor =
    FromVec "'a list" "nat list"
  | Narrow0 "'a tensor" nat nat
  | FlattenAll "'a tensor"

fun shape :: "'a tensor \<Rightarrow> nat list" where
  "shape (FromVec d s) = s"
| "shape (Narrow0 t start len) = len # tl (shape t)"
| "shape (FlattenAll t) = [prod_list (shape t)]"

fun host :: "'a tensor \<Rightarrow> 'a list" where
  "host (FromVec d s) = d"
| "host (Narrow0 t start len) =
     (let stride = prod_list (tl (shape t))
      in take (len * stride) (drop (start * stride) (host t)))"
| "host (FlattenAll t) = host t"

fun tensor_ok :: "'a tensor \<Rightarrow> bool" where
  "tensor_ok (FromVec d s) = (length d = prod_list s)"
| "tensor_ok (Narrow0 t start len) =
     (tensor_ok t \<and> shape t \<noteq> [] \<and> start + len \<le> hd (shape t))"
| "tensor_ok (FlattenAll t) = tensor_ok t"

section \<open>flash.rs\<close>

record flash_k_meta =
  k_max :: nat
  k_cumulative_seqlens :: "nat tensor option"

record flash_params =
  max_q :: nat
  cumulative_seqlens_q :: "nat tensor option"
  logical_k :: flash_k_meta
  causal :: bool

definition u32_of :: "nat \<Rightarrow> nat option" where
  "u32_of n = (if n \<le> u32_max then Some n else None)"

definition new_prefill ::
  "nat option \<Rightarrow> nat tensor option \<Rightarrow> nat option \<Rightarrow> nat tensor option \<Rightarrow> bool \<Rightarrow> flash_params option" where
  "new_prefill mq cq mk ck is_causal =
     Option.bind mq (\<lambda>q0. Option.bind (u32_of q0) (\<lambda>q.
     Option.bind mk (\<lambda>k0. Option.bind (u32_of k0) (\<lambda>k.
       Some \<lparr>max_q = q, cumulative_seqlens_q = cq,
             logical_k = \<lparr>k_max = k, k_cumulative_seqlens = ck\<rparr>, causal = is_causal\<rparr>))))"

section \<open>The cache and its metadata\<close>

definition PAD_SLOT_ID :: int where "PAD_SLOT_ID = -1"

record paged_kv_cache =
  key_cache :: "nat list list"
  value_cache :: "nat list list"
  kv_dtype_bytes :: nat
  block_table_host :: "nat list"
  kv_block_size :: nat
  kv_num_blocks :: nat
  num_blocks_per_sequence :: nat
  kv_batch_size :: nat
  max_tokens_per_sequence :: nat
  max_tokens :: nat

record input_metadata =
  slot_mapping :: "int tensor"
  block_tables :: "nat tensor"
  context_lens :: "nat tensor"
  max_context_len :: nat
  token_attention_mask :: "nat tensor option"
  prefill_causal_only :: bool
  query_lens :: "nat list option"
  kv_lens :: "nat list option"
  prefill_flash_params :: "flash_params option"
  cu_seqlens_q :: "nat tensor option"
  cu_seqlens_kv :: "nat tensor option"
  max_query_len :: "nat option"
  max_kv_len :: "nat option"

definition flash_params_of :: "input_metadata \<Rightarrow> bool \<Rightarrow> flash_params option" where
  "flash_params_of md is_causal =
     (case prefill_flash_params md of
        Some p \<Rightarrow> Some p
      | None \<Rightarrow> new_prefill (max_query_len md) (cu_seqlens_q md) (max_kv_len md) (cu_seqlens_kv md) is_causal)"

definition u32_try :: "string \<Rightarrow> nat \<Rightarrow> nat result" where
  "u32_try msg n = ok_or (u32_of n) (Err msg)"

definition i64_try :: "string \<Rightarrow> nat \<Rightarrow> int result" where
  "i64_try msg n = (if n \<le> i64_max then Inr (int n) else Inl (Err msg))"

definition max_or_0 :: "nat list \<Rightarrow> nat" where
  "max_or_0 xs = foldr max xs 0"

fun cu_loop :: "nat \<Rightarrow> nat list \<Rightarrow> nat list result" where
  "cu_loop acc [] = Inr []"
| "cu_loop acc (len # lens) =
     rbind (u32_try ''sequence length overflows u32'' len) (\<lambda>len_u32.
     rbind (u32_try ''cumulative sequence length overflow'' (acc + len_u32)) (\<lambda>acc'.
     rbind (cu_loop acc' lens) (\<lambda>out. Inr (acc' # out))))"

definition cumulative_seqlens_from_lengths :: "nat list \<Rightarrow> nat tensor result" where
  "cumulative_seqlens_from_lengths lens =
     rbind (cu_loop 0 lens) (\<lambda>out. Inr (FromVec (0 # out) [length lens + 1]))"

text \<open>The part of the slot computation that all the metadata builders share.\<close>

definition slot_in_table :: "nat \<Rightarrow> nat \<Rightarrow> nat list \<Rightarrow> nat \<Rightarrow> int result" where
  "slot_in_table block_size num_blocks tbl position =
     (if block_size = 0 then Inl (Panic ''attempt to divide by zero'')
      else
        let block_idx = position div block_size; offset = position mod block_size
        in rbind (ok_or (get tbl block_idx) (Err ''missing block table entry'')) (\<lambda>block_id.
           if num_blocks \<le> block_id then Inl (Err ''block id exceeds paged cache capacity'')
           else rbind (ok_or (Option.bind (checked_mul block_id block_size) (\<lambda>base. checked_add base offset))
                        (Err ''paged slot mapping overflow''))
                  (i64_try ''paged slot overflows i64'')))"

definition slot_for_block_table_position ::
  "nat list list \<Rightarrow> nat \<Rightarrow> nat \<Rightarrow> nat \<Rightarrow> nat \<Rightarrow> int result" where
  "slot_for_block_table_position tables block_size num_blocks sq position =
     rbind (ok_or (get tables sq) (Err ''missing block table for sequence'')) (\<lambda>tbl.
       slot_in_table block_size num_blocks tbl position)"

definition seqlens_opt :: "nat list option \<Rightarrow> nat tensor option result" where
  "seqlens_opt lens =
     (case lens of None \<Rightarrow> Inr None
      | Some ls \<Rightarrow> rbind (cumulative_seqlens_from_lengths ls) (\<lambda>t. Inr (Some t)))"

definition build_varlen_metadata ::
  "nat list option \<Rightarrow> nat list option \<Rightarrow>
   (flash_params option \<times> nat tensor option \<times> nat tensor option \<times> nat option \<times> nat option) result" where
  "build_varlen_metadata qls kls =
     rbind (seqlens_opt qls) (\<lambda>cu_q.
     rbind (seqlens_opt kls) (\<lambda>cu_kv.
       let mq = map_option max_or_0 qls; mkv = map_option max_or_0 kls;
           fp = new_prefill mq cu_q mkv cu_kv (case qls of None \<Rightarrow> False | Some ls \<Rightarrow> \<exists>l\<in>set ls. 1 < l)
       in Inr (fp, cu_q, cu_kv, mq, mkv)))"

section \<open>Construction\<close>

definition new_inner ::
  "nat \<Rightarrow> nat \<Rightarrow> nat \<Rightarrow> nat \<Rightarrow> nat \<Rightarrow> nat \<Rightarrow> nat \<Rightarrow> nat \<Rightarrow> nat \<Rightarrow> paged_kv_cache result" where
  "new_inner num_layers num_kv_heads head_dim block_size num_blocks nbps batch mtps dtype_bytes =
     rbind (ensure (num_layers \<noteq> 0) (Err ''paged kv cache requires at least one layer'')) (\<lambda>_.
     rbind (ensure (num_kv_heads \<noteq> 0) (Err ''paged kv cache requires at least one kv head'')) (\<lambda>_.
     rbind (ensure (head_dim \<noteq> 0) (Err ''paged kv cache requires non-zero head_dim'')) (\<lambda>_.
     rbind (ensure (block_size \<noteq> 0) (Err ''paged kv cache requires non-zero block_size'')) (\<lambda>_.
     rbind (ensure (batch \<noteq> 0) (Err ''paged kv cache requires non-zero batch_size'')) (\<lambda>_.
     rbind (ensure (mtps \<noteq> 0) (Err ''paged kv cache requires non-zero max_tokens'')) (\<lambda>_.
     rbind (ensure (num_blocks \<noteq> 0) (Err ''paged kv cache requires non-zero num_blocks'')) (\<lambda>_.
     rbind (ensure (dtype_bytes \<noteq> 0 \<and> 16 mod dtype_bytes = 0) (Err ''unsupported paged kv cache dtype'')) (\<lambda>_.
     let key_pack = 16 div dtype_bytes in
     rbind (ensure (head_dim mod key_pack = 0) (Err ''head_dim must be divisible by key cache pack size'')) (\<lambda>_.
     rbind (ok_or (checked_mul num_blocks block_size) (Err ''paged kv cache token capacity overflow'')) (\<lambda>mt.
     rbind (traverse (u32_try ''block index overflows u32'') [0..<num_blocks]) (\<lambda>bth.
       let key_shape = [num_blocks, num_kv_heads, head_dim div key_pack, block_size, key_pack];
           value_shape = [num_blocks, num_kv_heads, head_dim, block_size]
       in Inr \<lparr>key_cache = replicate num_layers key_shape, value_cache = replicate num_layers value_shape,
               kv_dtype_bytes = dtype_bytes, block_table_host = bth, kv_block_size = block_size,
               kv_num_blocks = num_blocks, num_blocks_per_sequence = nbps, kv_batch_size = batch,
               max_tokens_per_sequence = mtps, max_tokens = mt\<rparr>)))))))))))"

definition new_batched ::
  "nat \<Rightarrow> nat \<Rightarrow> nat \<Rightarrow> nat \<Rightarrow> nat \<Rightarrow> nat \<Rightarrow> nat \<Rightarrow> paged_kv_cache result" where
  "new_batched num_layers num_kv_heads head_dim block_size batch mtps dtype_bytes =
     rbind (div_ceil_r mtps block_size) (\<lambda>nbps.
     rbind (ok_or (checked_mul batch nbps) (Err ''paged kv cache block count overflow'')) (\<lambda>num_blocks.
       new_inner num_layers num_kv_heads head_dim block_size num_blocks nbps batch mtps dtype_bytes))"

definition new_single :: "nat \<Rightarrow> nat \<Rightarrow> nat \<Rightarrow> nat \<Rightarrow> nat \<Rightarrow> nat \<Rightarrow> paged_kv_cache result" where
  "new_single num_layers num_kv_heads head_dim block_size mtps dtype_bytes =
     new_batched num_layers num_kv_heads head_dim block_size 1 mtps dtype_bytes"

definition new_pool :: "nat \<Rightarrow> nat \<Rightarrow> nat \<Rightarrow> nat \<Rightarrow> nat \<Rightarrow> nat \<Rightarrow> paged_kv_cache result" where
  "new_pool num_layers num_kv_heads head_dim block_size num_blocks dtype_bytes =
     rbind (ok_or (checked_mul num_blocks block_size) (Err ''paged kv cache token capacity overflow'')) (\<lambda>mt.
       new_inner num_layers num_kv_heads head_dim block_size num_blocks num_blocks 1 mt dtype_bytes)"

definition estimated_bytes :: "paged_kv_cache \<Rightarrow> nat" where
  "estimated_bytes c = sum_list (map (\<lambda>s. prod_list s * kv_dtype_bytes c) (key_cache c @ value_cache c))"

definition key_value_cache :: "paged_kv_cache \<Rightarrow> nat \<Rightarrow> (nat list \<times> nat list) result" where
  "key_value_cache c layer =
     rbind (ok_or (get (key_cache c) layer) (Err ''paged kv cache layer out of range'')) (\<lambda>k.
     rbind (ok_or (get (value_cache c) layer) (Err ''paged kv cache layer out of range'')) (\<lambda>v. Inr (k, v)))"

section \<open>Slots of a contiguous cache\<close>

definition slot_for_sequence_position :: "paged_kv_cache \<Rightarrow> nat \<Rightarrow> nat \<Rightarrow> int result" where
  "slot_for_sequence_position c sq position =
     rbind (ensure (sq < kv_batch_size c) (Err ''sequence exceeds paged kv cache batch'')) (\<lambda>_.
     rbind (ensure (position < max_tokens_per_sequence c) (Err ''position exceeds paged kv cache capacity'')) (\<lambda>_.
     rbind (ok_or (Option.bind (checked_mul sq (num_blocks_per_sequence c))
                     (\<lambda>blocks. checked_mul blocks (kv_block_size c)))
                  (Err ''slot sequence base overflow'')) (\<lambda>base.
     rbind (ok_or (checked_add base position) (Err ''slot position overflow'')) (\<lambda>slot.
       i64_try ''slot overflows i64'' slot))))"

definition slot_for_position :: "paged_kv_cache \<Rightarrow> nat \<Rightarrow> int result" where
  "slot_for_position c position = slot_for_sequence_position c 0 position"

definition slot_mapping_for_range :: "paged_kv_cache \<Rightarrow> nat \<Rightarrow> nat \<Rightarrow> int tensor result" where
  "slot_mapping_for_range c start len =
     rbind (ok_or (checked_add start len) (Err ''slot range overflow'')) (\<lambda>end'.
     rbind (ensure (end' \<le> max_tokens c) (Err ''slot range exceeds paged kv cache capacity'')) (\<lambda>_.
     rbind (traverse (slot_for_position c) [start..<end']) (\<lambda>slots. Inr (FromVec slots [len]))))"

definition block_tables_tensor :: "paged_kv_cache \<Rightarrow> nat tensor" where
  "block_tables_tensor c = FromVec (block_table_host c) [1, kv_num_blocks c]"

definition block_tables_tensor_for_batch :: "paged_kv_cache \<Rightarrow> nat \<Rightarrow> nat tensor result" where
  "block_tables_tensor_for_batch c batch =
     rbind (ensure (batch \<le> kv_batch_size c) (Err ''requested block table batch exceeds cache batch'')) (\<lambda>_.
     rbind (ok_or (checked_mul batch (num_blocks_per_sequence c)) (Err ''block table slice overflow'')) (\<lambda>len.
       if length (block_table_host c) < len then Inl (Panic ''range end index out of range for slice'')
       else Inr (FromVec (take len (block_table_host c)) [batch, num_blocks_per_sequence c])))"

definition context_lens_tensor :: "paged_kv_cache \<Rightarrow> nat \<Rightarrow> nat tensor result" where
  "context_lens_tensor c context_len =
     rbind (ensure (context_len \<le> max_tokens c) (Err ''context length exceeds paged kv cache capacity'')) (\<lambda>_.
     rbind (u32_try ''context length overflows u32'' context_len) (\<lambda>len. Inr (FromVec [len] [1])))"

definition input_metadata_for_range ::
  "paged_kv_cache \<Rightarrow> nat \<Rightarrow> nat \<Rightarrow> nat \<Rightarrow> input_metadata result" where
  "input_metadata_for_range c start len context_len =
     rbind (build_varlen_metadata (Some [len]) (Some [context_len])) (\<lambda>(fp, cq, ck, mq, mk).
     rbind (slot_mapping_for_range c start len) (\<lambda>sm.
     rbind (context_lens_tensor c context_len) (\<lambda>cl.
       Inr \<lparr>slot_mapping = sm, block_tables = block_tables_tensor c, context_lens = cl,
            max_context_len = context_len, token_attention_mask = None, prefill_causal_only = False,
            query_lens = Some [len], kv_lens = Some [context_len], prefill_flash_params = fp,
            cu_seqlens_q = cq, cu_seqlens_kv = ck, max_query_len = mq, max_kv_len = mk\<rparr>)))"

section \<open>Metadata of a batch\<close>

text \<open>The host block table: rows padded with block 0 to the width of the widest row.\<close>

definition pad_table_row :: "nat \<Rightarrow> nat list \<Rightarrow> nat list result" where
  "pad_table_row max_blocks tbl =
     rbind (traverse (u32_try ''block id overflows u32'') tbl) (\<lambda>ids.
       Inr (ids @ replicate (max_blocks - length tbl) 0))"

definition host_block_table :: "nat \<Rightarrow> nat list list \<Rightarrow> nat list result" where
  "host_block_table max_blocks tables =
     rbind (traverse (pad_table_row max_blocks) tables) (\<lambda>rows. Inr (concat rows))"

definition host_context_lens :: "nat list \<Rightarrow> nat list result" where
  "host_context_lens lens = traverse (u32_try ''context length overflows u32'') lens"

definition input_metadata_for_batch_ranges ::
  "paged_kv_cache \<Rightarrow> nat list \<Rightarrow> nat \<Rightarrow> nat list \<Rightarrow> input_metadata result" where
  "input_metadata_for_batch_ranges c starts len ctx =
     (let batch = length starts in
     rbind (ensure (batch \<noteq> 0) (Err ''paged metadata batch must be non-empty'')) (\<lambda>_.
     rbind (ensure (length ctx = batch) (Err ''context_lens batch mismatch'')) (\<lambda>_.
     rbind (ensure (batch \<le> kv_batch_size c) (Err ''metadata batch exceeds cache batch'')) (\<lambda>_.
     rbind (traverse (\<lambda>(sq, start).
              rbind (ok_or (checked_add start len) (Err ''slot range overflow'')) (\<lambda>end'.
              rbind (ensure (end' \<le> max_tokens_per_sequence c)
                      (Err ''slot range exceeds paged kv cache sequence capacity'')) (\<lambda>_.
                traverse (slot_for_sequence_position c sq) [start..<end'])))
            (enumerate 0 starts)) (\<lambda>slots.
     rbind (traverse (\<lambda>cl.
              rbind (ensure (cl \<le> max_tokens_per_sequence c)
                      (Err ''context length exceeds paged kv cache sequence capacity'')) (\<lambda>_.
                u32_try ''context length overflows u32'' cl)) ctx) (\<lambda>context_host.
     rbind (build_varlen_metadata (Some (replicate batch len)) (Some ctx)) (\<lambda>(fp, cq, ck, mq, mk).
     rbind (block_tables_tensor_for_batch c batch) (\<lambda>bt.
       Inr \<lparr>slot_mapping = FromVec (concat slots) [batch * len], block_tables = bt,
            context_lens = FromVec context_host [batch], max_context_len = max_or_0 ctx,
            token_attention_mask = None, prefill_causal_only = False,
            query_lens = Some (replicate batch len), kv_lens = Some ctx, prefill_flash_params = fp,
            cu_seqlens_q = cq, cu_seqlens_kv = ck, max_query_len = mq, max_kv_len = mk\<rparr>))))))))"

definition input_metadata_from_block_tables ::
  "paged_kv_cache \<Rightarrow> nat list list \<Rightarrow> nat list \<Rightarrow> nat \<Rightarrow> nat list \<Rightarrow> input_metadata result" where
  "input_metadata_from_block_tables c tables starts len ctx =
     (let batch = length tables in
     rbind (ensure (batch \<noteq> 0) (Err ''paged metadata batch must be non-empty'')) (\<lambda>_.
     rbind (ensure (length starts = batch \<and> length ctx = batch) (Err ''paged metadata batch mismatch'')) (\<lambda>_.
     let max_blocks = max_or_0 (map length tables) in
     rbind (ensure (max_blocks \<noteq> 0) (Err ''paged metadata requires at least one block per sequence'')) (\<lambda>_.
     rbind (traverse (\<lambda>(tbl, start).
              rbind (ok_or (checked_add start len) (Err ''slot range overflow'')) (\<lambda>end'.
                traverse (slot_in_table (kv_block_size c) (kv_num_blocks c) tbl) [start..<end']))
            (zip tables starts)) (\<lambda>slots.
     rbind (host_block_table max_blocks tables) (\<lambda>bth.
     rbind (host_context_lens ctx) (\<lambda>context_host.
     rbind (build_varlen_metadata (Some (replicate batch len)) (Some ctx)) (\<lambda>(fp, cq, ck, mq, mk).
       Inr \<lparr>slot_mapping = FromVec (concat slots) [batch * len],
            block_tables = FromVec bth [batch, max_blocks],
            context_lens = FromVec context_host [batch], max_context_len = max_or_0 ctx,
            token_attention_mask = None, prefill_causal_only = False,
            query_lens = Some (replicate batch len), kv_lens = Some ctx, prefill_flash_params = fp,
            cu_seqlens_q = cq, cu_seqlens_kv = ck, max_query_len = mq, max_kv_len = mk\<rparr>))))))))"

text \<open>One row of \<^verbatim>\<open>input_metadata_from_attention_masks\<close>: the slots and the context length.\<close>

fun mask_row_loop ::
  "nat \<Rightarrow> nat \<Rightarrow> nat list \<Rightarrow> nat \<Rightarrow> nat list \<Rightarrow> nat \<Rightarrow> (int list \<times> nat) result" where
  "mask_row_loop bs nb tbl position [] ctx = Inr ([], ctx)"
| "mask_row_loop bs nb tbl position (mk # row) ctx =
     (if mk = 0
      then rbind (mask_row_loop bs nb tbl (position + 1) row ctx) (\<lambda>(slots, n). Inr (PAD_SLOT_ID # slots, n))
      else
        rbind (slot_in_table bs nb tbl position) (\<lambda>slot.
        rbind (ok_or (checked_add ctx 1) (Err ''context length overflow'')) (\<lambda>ctx'.
        rbind (mask_row_loop bs nb tbl (position + 1) row ctx') (\<lambda>(slots, n). Inr (slot # slots, n)))))"

definition mask_row ::
  "paged_kv_cache \<Rightarrow> nat \<Rightarrow> nat list \<times> nat list \<Rightarrow> (int list \<times> nat) result" where
  "mask_row c seq_len = (\<lambda>(tbl, row).
     rbind (ensure (length row = seq_len) (Err ''attention_mask row len mismatch'')) (\<lambda>_.
     rbind (mask_row_loop (kv_block_size c) (kv_num_blocks c) tbl 0 row 0) (\<lambda>(slots, n).
     rbind (u32_try ''context length overflows u32'' n) (\<lambda>_. Inr (slots, n)))))"

definition input_metadata_from_attention_masks ::
  "paged_kv_cache \<Rightarrow> nat list list \<Rightarrow> nat list list \<Rightarrow> input_metadata result" where
  "input_metadata_from_attention_masks c tables masks =
     (let batch = length masks in
     rbind (ensure (batch \<noteq> 0) (Err ''paged metadata batch must be non-empty'')) (\<lambda>_.
     rbind (ensure (length tables = batch) (Err ''paged metadata batch mismatch'')) (\<lambda>_.
     rbind (ok_or (map_option length (get masks 0)) (Err ''missing first attention mask'')) (\<lambda>seq_len.
     rbind (ensure (seq_len \<noteq> 0) (Err ''attention mask rows must be non-empty'')) (\<lambda>_.
     let max_blocks = max_or_0 (map length tables) in
     rbind (ensure (max_blocks \<noteq> 0) (Err ''paged metadata requires at least one block per sequence'')) (\<lambda>_.
     rbind (traverse (mask_row c seq_len) (zip tables masks)) (\<lambda>rows.
     let lens = map snd rows in
     rbind (host_block_table max_blocks tables) (\<lambda>bth.
     rbind (build_varlen_metadata (Some lens) (Some lens)) (\<lambda>(fp, cq, ck, mq, mk).
       Inr \<lparr>slot_mapping = FromVec (concat (map fst rows)) [batch * seq_len],
            block_tables = FromVec bth [batch, max_blocks],
            context_lens = FromVec lens [batch], max_context_len = max_or_0 lens,
            token_attention_mask = Some (FromVec (concat masks) [batch, seq_len]),
            prefill_causal_only = (\<forall>l\<in>set lens. l = seq_len),
            query_lens = Some lens, kv_lens = Some lens, prefill_flash_params = fp,
            cu_seqlens_q = cq, cu_seqlens_kv = ck, max_query_len = mq, max_kv_len = mk\<rparr>)))))))))"

text \<open>The \<^verbatim>\<open>try_fold\<close> that counts the tokens of a packed prefill.\<close>

fun packed_total :: "nat \<Rightarrow> nat list \<Rightarrow> nat result" where
  "packed_total acc [] = Inr acc"
| "packed_total acc (len # lens) =
     (if len = 0 then Inl (Err ''packed prefill query length must be non-zero'')
      else rbind (ok_or (checked_add acc len) (Err ''packed prefill token count overflow''))
             (\<lambda>acc'. packed_total acc' lens))"

definition packed_row ::
  "paged_kv_cache \<Rightarrow> nat list list \<Rightarrow> nat \<times> nat \<times> nat list \<Rightarrow> int list result" where
  "packed_row c tables = (\<lambda>(sq, len, tbl).
     rbind (traverse (slot_for_block_table_position tables (kv_block_size c) (kv_num_blocks c) sq) [0..<len]) (\<lambda>slots.
     rbind (div_ceil_r len (kv_block_size c)) (\<lambda>needed_blocks.
     rbind (ensure (needed_blocks \<le> length tbl) (Err ''paged block table too short for packed prefill'')) (\<lambda>_.
       Inr slots))))"

definition input_metadata_from_query_lens ::
  "paged_kv_cache \<Rightarrow> nat list list \<Rightarrow> nat list \<Rightarrow> input_metadata result" where
  "input_metadata_from_query_lens c tables qls =
     (let batch = length qls in
     rbind (ensure (batch \<noteq> 0) (Err ''paged metadata batch must be non-empty'')) (\<lambda>_.
     rbind (ensure (length tables = batch) (Err ''paged metadata batch mismatch'')) (\<lambda>_.
     let max_blocks = max_or_0 (map length tables) in
     rbind (ensure (max_blocks \<noteq> 0) (Err ''paged metadata requires at least one block per sequence'')) (\<lambda>_.
     rbind (packed_total 0 qls) (\<lambda>total_tokens.
     rbind (traverse (packed_row c tables) (enumerate 0 (zip qls tables))) (\<lambda>slots.
     rbind (host_block_table max_blocks tables) (\<lambda>bth.
     rbind (host_context_lens qls) (\<lambda>context_host.
     rbind (build_varlen_metadata (Some qls) (Some qls)) (\<lambda>(fp, cq, ck, mq, mk).
       Inr \<lparr>slot_mapping = FromVec (concat slots) [total_tokens],
            block_tables = FromVec bth [batch, max_blocks],
            context_lens = FromVec context_host [batch], max_context_len = max_or_0 qls,
            token_attention_mask = None, prefill_causal_only = True,
            query_lens = Some qls, kv_lens = Some qls, prefill_flash_params = fp,
            cu_seqlens_q = cq, cu_seqlens_kv = ck, max_query_len = mq, max_kv_len = mk\<rparr>)))))))))"

section \<open>Decode metadata\<close>

definition decode_metadata ::
  "int tensor \<Rightarrow> nat tensor \<Rightarrow> nat tensor \<Rightarrow> nat \<Rightarrow> input_metadata" where
  "decode_metadata sm bt cl mcl =
     \<lparr>slot_mapping = sm, block_tables = bt, context_lens = cl, max_context_len = mcl,
      token_attention_mask = None, prefill_causal_only = False, query_lens = None, kv_lens = None,
      prefill_flash_params = None, cu_seqlens_q = None, cu_seqlens_kv = None,
      max_query_len = None, max_kv_len = None\<rparr>"

definition decode_metadata_for_steps ::
  "paged_kv_cache \<Rightarrow> nat \<Rightarrow> nat \<Rightarrow> input_metadata list result" where
  "decode_metadata_for_steps c prompt_len steps =
     rbind (ok_or (checked_add prompt_len steps) (Err ''decode metadata range overflow'')) (\<lambda>end'.
     rbind (ensure (end' \<le> max_tokens c) (Err ''decode metadata range exceeds paged kv cache capacity'')) (\<lambda>_.
     rbind (traverse (slot_for_position c) [prompt_len..<end']) (\<lambda>slots.
     rbind (traverse (u32_try ''context length overflows u32'') [prompt_len + 1..<prompt_len + steps + 1]) (\<lambda>contexts.
       let all_slots = FromVec slots [steps]; all_contexts = FromVec contexts [steps];
           bt = block_tables_tensor c
       in Inr (map (\<lambda>step. decode_metadata (Narrow0 all_slots step 1) bt (Narrow0 all_contexts step 1)
                             (prompt_len + step + 1)) [0..<steps])))))"

text \<open>One entry \<^verbatim>\<open>(step, seq)\<close> of the decode plan: the slot and the context length.\<close>

definition decode_entry ::
  "paged_kv_cache \<Rightarrow> nat list list \<Rightarrow> nat list \<Rightarrow> nat \<Rightarrow> nat \<Rightarrow> (int \<times> nat) result" where
  "decode_entry c tables prompt_lens step sq =
     rbind (index_r prompt_lens sq) (\<lambda>prompt_len.
     rbind (ok_or (checked_add prompt_len step) (Err ''batch decode slot position overflow'')) (\<lambda>position.
     rbind (ok_or (checked_add position 1) (Err ''batch decode context length overflow'')) (\<lambda>context_len.
     rbind (ensure (context_len \<le> max_tokens_per_sequence c)
             (Err ''batch decode context length exceeds paged kv cache sequence capacity'')) (\<lambda>_.
     rbind (slot_for_block_table_position tables (kv_block_size c) (kv_num_blocks c) sq position) (\<lambda>slot.
     rbind (u32_try ''context length overflows u32'' context_len) (\<lambda>_. Inr (slot, context_len)))))))"

definition decode_metadata_for_batch_steps ::
  "bool \<Rightarrow> paged_kv_cache \<Rightarrow> nat list list \<Rightarrow> nat list \<Rightarrow> nat \<Rightarrow> input_metadata list result" where
  "decode_metadata_for_batch_steps cuda_graph c tables prompt_lens steps =
     (let batch = length tables in
     rbind (ensure (batch \<noteq> 0) (Err ''paged batch decode metadata requires at least one sequence'')) (\<lambda>_.
     rbind (ensure (length prompt_lens = batch) (Err ''paged batch decode metadata mismatch'')) (\<lambda>_.
     let raw_max_blocks = max_or_0 (map length tables) in
     rbind (ensure (raw_max_blocks \<noteq> 0)
             (Err ''paged batch decode metadata requires at least one block per sequence'')) (\<lambda>_.
     rbind (if cuda_graph then bucket_block_table_cols raw_max_blocks (kv_block_size c)
            else Inr raw_max_blocks) (\<lambda>max_blocks.
     rbind (host_block_table max_blocks tables) (\<lambda>bth.
     rbind (traverse (\<lambda>step. traverse (decode_entry c tables prompt_lens step) [0..<batch]) [0..<steps]) (\<lambda>rows.
       let bt = FromVec bth [batch, max_blocks];
           all_slots = FromVec (concat (map (map fst) rows)) [steps, batch];
           all_contexts = FromVec (concat (map (map snd) rows)) [steps, batch]
       in Inr (map (\<lambda>step. decode_metadata (FlattenAll (Narrow0 all_slots step 1)) bt
                             (FlattenAll (Narrow0 all_contexts step 1))
                             (max_or_0 (map snd (rows ! step)))) [0..<steps]))))))))"

definition decode_metadata_for_batch_step ::
  "bool \<Rightarrow> paged_kv_cache \<Rightarrow> nat list list \<Rightarrow> nat list \<Rightarrow> nat \<Rightarrow> input_metadata result" where
  "decode_metadata_for_batch_step cuda_graph c tables prompt_lens step =
     rbind (decode_metadata_for_batch_steps cuda_graph c tables prompt_lens (step + 1)) (\<lambda>ms.
       ok_or (get ms step) (Err ''paged batch decode metadata missing step''))"

section \<open>Slots: bounds and injectivity\<close>

lemma max_values_le: "n \<le> i64_max \<Longrightarrow> n \<le> usize_max"
  by (simp add: max_values)

lemma slot_bound: "b < nb \<Longrightarrow> i < bs \<Longrightarrow> b * bs + i < nb * (bs::nat)"
proof -
  assume "b < nb" "i < bs"
  then have "b * bs + i < (b + 1) * bs" by simp
  also have "\<dots> \<le> nb * bs" using \<open>b < nb\<close> by (intro mult_le_mono1) simp
  finally show ?thesis .
qed

lemma slot_in_table_ok:
  assumes "0 < bs" "p div bs < length tbl" "tbl ! (p div bs) < nb" "nb * bs \<le> i64_max"
  shows "slot_in_table bs nb tbl p = Inr (int (tbl ! (p div bs) * bs + p mod bs))"
proof -
  have "tbl ! (p div bs) * bs + p mod bs < nb * bs" using assms by (intro slot_bound) auto
  then have "tbl ! (p div bs) * bs + p mod bs \<le> i64_max" using assms(4) by simp
  moreover from this have "tbl ! (p div bs) * bs + p mod bs \<le> usize_max" by (rule max_values_le)
  moreover from this have "tbl ! (p div bs) * bs \<le> usize_max" by simp
  ultimately show ?thesis using assms
    by (simp add: slot_in_table_def Let_def get_def checked_mul_def checked_add_def i64_try_def)
qed

lemma slot_in_table_Inr:
  assumes "slot_in_table bs nb tbl p = Inr s"
  shows "0 < bs \<and> p div bs < length tbl \<and> tbl ! (p div bs) < nb \<and>
    s = int (tbl ! (p div bs) * bs + p mod bs)"
  using assms
  by (auto simp: slot_in_table_def Let_def checked_mul_def checked_add_def i64_try_def
      split: if_splits option.splits)

text \<open>The slot of a position of a request, as the block manager's tables define it.\<close>

definition request_slot :: "block_manager \<Rightarrow> nat \<Rightarrow> nat \<Rightarrow> nat" where
  "request_slot m r p = blocks_of m r ! (p div bm_block_size m) * bm_block_size m + p mod bm_block_size m"

lemma request_slot_eq: "bm.slot m r p = request_slot m r p"
  by (simp add: bm.slot_def request_slot_def)

definition covered :: "block_manager \<Rightarrow> nat \<Rightarrow> nat \<Rightarrow> bool" where
  "covered m r n \<longleftrightarrow> n \<le> length (blocks_of m r) * bm_block_size m"

lemma covered_eq: "bm.covers m r n = covered m r n"
  by (simp add: bm.covers_def covered_def)

lemma covered_mono: "covered m r n \<Longrightarrow> n' \<le> n \<Longrightarrow> covered m r n'"
  by (simp add: covered_def)

lemma request_slot_inj:
  assumes "bm_inv N m" "covered m r n" "p < n" "covered m r' n'" "p' < n'"
  shows "request_slot m r p = request_slot m r' p' \<longleftrightarrow> r = r' \<and> p = p'"
  using bm.slot_inj[of m r n p r' n' p'] assms by (auto simp: request_slot_eq covered_eq)

lemma request_slot_range:
  assumes "bm_inv N m" "covered m r n" "p < n"
  shows "bm_block_size m \<le> request_slot m r p \<and> request_slot m r p < N * bm_block_size m"
proof
  show "bm_block_size m \<le> request_slot m r p"
    using bm.slot_not_null[of m r n p] assms by (auto simp: request_slot_eq covered_eq)
  have "p div bm_block_size m < length (blocks_of m r)"
    using bm.covers_index[of m r n p] assms by (auto simp: covered_eq)
  then have "blocks_of m r ! (p div bm_block_size m) < N"
    using bm_inv_range[OF assms(1)] nth_mem by blast
  then show "request_slot m r p < N * bm_block_size m"
    unfolding request_slot_def using bm_inv_pos[OF assms(1)] by (intro slot_bound) auto
qed

lemma slot_in_request_table:
  assumes "bm_inv N m" "covered m r n" "p < n" "N * bm_block_size m \<le> i64_max"
  shows "slot_in_table (bm_block_size m) N (blocks_of m r) p = Inr (int (request_slot m r p))"
proof -
  have i: "p div bm_block_size m < length (blocks_of m r)"
    using bm.covers_index[of m r n p] assms by (auto simp: covered_eq)
  then have "blocks_of m r ! (p div bm_block_size m) < N"
    using bm_inv_range[OF assms(1)] nth_mem by blast
  then show ?thesis using slot_in_table_ok[OF bm_inv_pos[OF assms(1)] i] assms(4)
    by (simp add: request_slot_def)
qed

lemma block_tables_for_Inr:
  "block_tables_for m rs = Inr tables \<Longrightarrow> tables = map (blocks_of m) rs"
  unfolding block_tables_for_def traverse_Inr_iff
  by (induction rs tables rule: list_all2_induct) (auto simp: block_ids_def blocks_of_def)

lemma covered_block_tables_for:
  assumes "\<And>r. r \<in> set rs \<Longrightarrow> covered m r (n r) \<and> 0 < n r"
  shows "block_tables_for m rs = Inr (map (blocks_of m) rs)"
  unfolding block_tables_for_def
proof (rule traverse_all_ok)
  fix r assume "r \<in> set rs"
  then have "blocks_of m r \<noteq> []" using assms by (fastforce simp: covered_def)
  then show "block_ids m r = Inr (blocks_of m r)"
    by (auto simp: block_ids_def blocks_of_def split: option.splits)
qed

section \<open>Host tables\<close>

lemma u32_try_ok [simp]: "n \<le> u32_max \<Longrightarrow> u32_try msg n = Inr n"
  by (simp add: u32_try_def u32_of_def)

lemma u32_try_Inr [simp]: "u32_try msg n = Inr k \<longleftrightarrow> n \<le> u32_max \<and> k = n"
  by (auto simp: u32_try_def u32_of_def)

lemma traverse_u32: "\<forall>n\<in>set ns. n \<le> u32_max \<Longrightarrow> traverse (u32_try msg) ns = Inr ns"
  using traverse_all_ok[of ns "u32_try msg" id] by simp

lemma max_or_0_ge: "x \<in> set xs \<Longrightarrow> x \<le> max_or_0 xs"
  by (induction xs) (auto simp: max_or_0_def)

lemma max_or_0_le: "(\<And>x. x \<in> set xs \<Longrightarrow> x \<le> k) \<Longrightarrow> max_or_0 xs \<le> k"
  by (induction xs) (auto simp: max_or_0_def)

lemma max_or_0_in: "xs \<noteq> [] \<Longrightarrow> max_or_0 xs \<in> set xs"
proof (induction xs)
  case (Cons x xs)
  then show ?case by (cases "xs = []") (auto simp: max_or_0_def max_def)
qed simp

definition padded_rows :: "nat \<Rightarrow> nat list list \<Rightarrow> nat list list" where
  "padded_rows w tables = map (\<lambda>t. t @ replicate (w - length t) 0) tables"

lemma host_block_table_ok:
  assumes "\<forall>t\<in>set tables. \<forall>b\<in>set t. b \<le> u32_max"
  shows "host_block_table w tables = Inr (concat (padded_rows w tables))"
proof -
  have "traverse (pad_table_row w) tables = Inr (padded_rows w tables)"
    unfolding padded_rows_def by (rule traverse_all_ok) (use assms in \<open>simp add: pad_table_row_def traverse_u32\<close>)
  then show ?thesis by (simp add: host_block_table_def)
qed

lemma padded_rows_length:
  "(\<And>t. t \<in> set tables \<Longrightarrow> length t \<le> w) \<Longrightarrow> length (concat (padded_rows w tables)) = length tables * w"
proof (induction tables)
  case (Cons t tables)
  then have "length t \<le> w" "length (concat (padded_rows w tables)) = length tables * w" by auto
  then show ?case by (simp add: padded_rows_def)
qed (simp add: padded_rows_def)

lemma cu_loop_ok:
  "acc + sum_list lens \<le> u32_max \<Longrightarrow>
   cu_loop acc lens = Inr (map (\<lambda>i. acc + sum_list (take (Suc i) lens)) [0..<length lens])"
proof (induction lens arbitrary: acc)
  case (Cons l lens)
  have "cu_loop (acc + l) lens =
      Inr (map (\<lambda>i. acc + l + sum_list (take (Suc i) lens)) [0..<length lens])"
    using Cons by (simp add: add.assoc)
  moreover have "[0..<length (l # lens)] = 0 # map Suc [0..<length lens]"
    by (simp add: upt_conv_Cons map_Suc_upt del: upt_Suc)
  ultimately show ?case using Cons.prems by (simp add: add.assoc comp_def del: upt_Suc)
qed simp

lemma build_varlen_ok:
  assumes "sum_list ql \<le> u32_max" "sum_list kl \<le> u32_max"
  shows "is_ok (build_varlen_metadata (Some ql) (Some kl))"
  using cu_loop_ok[of 0 ql] cu_loop_ok[of 0 kl] assms
  by (simp add: build_varlen_metadata_def seqlens_opt_def cumulative_seqlens_from_lengths_def Let_def
      del: upt_Suc)

lemma member_le_sum: "n \<in> set ns \<Longrightarrow> (n::nat) \<le> sum_list ns"
  by (rule member_le_sum_list) simp_all

section \<open>Packed prefill\<close>

lemma packed_total_ok:
  "\<forall>l\<in>set ls. 0 < l \<Longrightarrow> acc + sum_list ls \<le> usize_max \<Longrightarrow> packed_total acc ls = Inr (acc + sum_list ls)"
  by (induction ls arbitrary: acc) (auto simp: checked_add_def add.assoc)

lemma packed_total_zero: "0 \<in> set ls \<Longrightarrow> \<not> is_ok (packed_total acc ls)"
  by (induction ls arbitrary: acc) (auto split: if_splits)

definition pool_cache_for :: "nat \<Rightarrow> block_manager \<Rightarrow> paged_kv_cache \<Rightarrow> bool" where
  "pool_cache_for N m c \<longleftrightarrow> bm_inv N m \<and> kv_block_size c = bm_block_size m \<and> kv_num_blocks c = N \<and>
     max_tokens_per_sequence c = N * bm_block_size m \<and> N * bm_block_size m \<le> i64_max \<and> N \<le> u32_max"

lemma pool_tables_u32:
  assumes "pool_cache_for N m c" shows "\<forall>t\<in>set (map (blocks_of m) rs). \<forall>b\<in>set t. b \<le> u32_max"
  using assms bm_inv_range by (fastforce simp: pool_cache_for_def)

definition packed_slots :: "block_manager \<Rightarrow> nat list \<Rightarrow> nat list \<Rightarrow> int list" where
  "packed_slots m rs ql =
     concat (map (\<lambda>(r, l). map (\<lambda>p. int (request_slot m r p)) [0..<l]) (zip rs ql))"

lemma max_table_nonzero:
  assumes "rs \<noteq> []" "\<And>r. r \<in> set rs \<Longrightarrow> blocks_of m r \<noteq> []"
  shows "max_or_0 (map length (map (blocks_of m) rs)) \<noteq> 0"
proof -
  obtain r where "r \<in> set rs" using assms(1) by fastforce
  then have "length (blocks_of m r) \<le> max_or_0 (map length (map (blocks_of m) rs))"
    by (intro max_or_0_ge) auto
  then show ?thesis using assms(2)[OF \<open>r \<in> set rs\<close>] by (metis le_zero_eq length_0_conv)
qed

lemma packed_row_ok:
  assumes c: "pool_cache_for N m c" and i: "i < length rs" "length ql = length rs"
    and cov: "covered m (rs ! i) (ql ! i)"
  shows "packed_row c (map (blocks_of m) rs) (i, ql ! i, blocks_of m (rs ! i)) =
    Inr (map (\<lambda>p. int (request_slot m (rs ! i) p)) [0..<ql ! i])"
proof -
  have pos: "0 < bm_block_size m" using c bm_inv_pos by (auto simp: pool_cache_for_def)
  have "traverse (slot_for_block_table_position (map (blocks_of m) rs) (kv_block_size c) (kv_num_blocks c) i)
      [0..<ql ! i] = Inr (map (\<lambda>p. int (request_slot m (rs ! i) p)) [0..<ql ! i])"
  proof (rule traverse_all_ok)
    fix p assume "p \<in> set [0..<ql ! i]"
    then show "slot_for_block_table_position (map (blocks_of m) rs) (kv_block_size c) (kv_num_blocks c) i p
        = Inr (int (request_slot m (rs ! i) p))"
      using slot_in_request_table[of N m "rs ! i" "ql ! i" p] c i cov
      by (simp add: slot_for_block_table_position_def get_def pool_cache_for_def)
  qed
  moreover have "div_ceil (ql ! i) (bm_block_size m) \<le> length (blocks_of m (rs ! i))"
    using cov div_ceil_le_iff[OF pos] by (simp add: covered_def)
  ultimately show ?thesis using c pos
    by (simp add: packed_row_def pool_cache_for_def)
qed

lemma map_enumerate_zip:
  assumes "length ql = length rs"
  shows "map (\<lambda>(i, l, t). map (\<lambda>p. f (rs ! i) p) [0..<l]) (enumerate 0 (zip ql (map g rs))) =
    map (\<lambda>(r, l). map (\<lambda>p. f r p) [0..<l]) (zip rs ql)"
  using assms by (intro nth_equalityI) (auto simp: nth_enumerate_eq)

lemma packed_prefill_metadata:
  assumes c: "pool_cache_for N m c" and rs: "rs \<noteq> []" "length ql = length rs"
    and cov: "\<And>i. i < length rs \<Longrightarrow> covered m (rs ! i) (ql ! i) \<and> 0 < ql ! i"
    and small: "sum_list ql \<le> u32_max"
  obtains md where "input_metadata_from_query_lens c (map (blocks_of m) rs) ql = Inr md"
    "slot_mapping md = FromVec (packed_slots m rs ql) [sum_list ql]"
    "context_lens md = FromVec ql [length ql]" "max_context_len md = max_or_0 ql"
    "query_lens md = Some ql" "kv_lens md = Some ql"
    "block_tables md = FromVec (concat (padded_rows (max_or_0 (map length (map (blocks_of m) rs)))
        (map (blocks_of m) rs))) [length rs, max_or_0 (map length (map (blocks_of m) rs))]"
proof -
  have pos: "\<forall>l\<in>set ql. 0 < l" using cov rs by (auto simp: in_set_conv_nth)
  have ne: "blocks_of m r \<noteq> []" if "r \<in> set rs" for r
    using that cov by (fastforce simp: in_set_conv_nth covered_def)
  have "traverse (packed_row c (map (blocks_of m) rs)) (enumerate 0 (zip ql (map (blocks_of m) rs))) =
      Inr (map (\<lambda>(i, l, t). map (\<lambda>p. int (request_slot m (rs ! i) p)) [0..<l])
        (enumerate 0 (zip ql (map (blocks_of m) rs))))"
  proof (rule traverse_all_ok)
    fix x assume "x \<in> set (enumerate 0 (zip ql (map (blocks_of m) rs)))"
    then obtain i where "i < length rs" "x = (i, ql ! i, blocks_of m (rs ! i))"
      using rs by (auto simp: in_set_conv_nth nth_enumerate_eq)
    then show "packed_row c (map (blocks_of m) rs) x =
        Inr (case x of (i, l, t) \<Rightarrow> map (\<lambda>p. int (request_slot m (rs ! i) p)) [0..<l])"
      using packed_row_ok[OF c _ rs(2)] cov by simp
  qed
  then have rows: "\<exists>rows. traverse (packed_row c (map (blocks_of m) rs))
      (enumerate 0 (zip ql (map (blocks_of m) rs))) = Inr rows \<and> concat rows = packed_slots m rs ql"
    using map_enumerate_zip[OF rs(2), of "\<lambda>r p. int (request_slot m r p)" "blocks_of m"]
    unfolding packed_slots_def by simp
  have small': "\<forall>l\<in>set ql. l \<le> u32_max" using small member_le_sum order_trans by blast
  have tot: "packed_total 0 ql = Inr (sum_list ql)"
    using packed_total_ok[OF pos, of 0] small by (simp add: max_values)
  obtain fp cq ck mq mk where v: "build_varlen_metadata (Some ql) (Some ql) = Inr (fp, cq, ck, mq, mk)"
    using build_varlen_ok[OF small small] by (auto simp: is_ok_iff)
  have mx: "max_or_0 (map length (map (blocks_of m) rs)) \<noteq> 0"
    using max_table_nonzero[OF rs(1) ne] by simp
  show thesis
    using that rows rs tot v mx small' traverse_u32[of ql]
      host_block_table_ok[OF pool_tables_u32[OF c]]
    unfolding input_metadata_from_query_lens_def Let_def host_context_lens_def
    by auto
qed

lemma packed_slots_distinct:
  assumes inv: "bm_inv N m" and rs: "distinct rs" "length ql = length rs"
    and cov: "\<And>i. i < length rs \<Longrightarrow> covered m (rs ! i) (ql ! i)"
  shows "distinct (packed_slots m rs ql)"
  using rs cov
proof (induction rs arbitrary: ql)
  case (Cons r rs)
  obtain l ql' where ql: "ql = l # ql'" using Cons.prems(2) by (cases ql) auto
  have c0: "covered m r l" using Cons.prems(3)[of 0] ql by simp
  have ci: "covered m (rs ! i) (ql' ! i)" if "i < length rs" for i
    using Cons.prems(3)[of "Suc i"] that ql by simp
  have "distinct (packed_slots m rs ql')"
    using Cons.IH[of ql'] Cons.prems ci ql by simp
  moreover have "distinct (map (\<lambda>p. int (request_slot m r p)) [0..<l])"
    using request_slot_inj[OF inv c0 _ c0] by (auto simp: distinct_map inj_on_def)
  moreover have "x \<notin> set (packed_slots m rs ql')" if "p < l" "x = int (request_slot m r p)" for x p
  proof
    assume "x \<in> set (packed_slots m rs ql')"
    then obtain i q where i: "i < length rs" "i < length ql'" "q < ql' ! i"
      "x = int (request_slot m (rs ! i) q)"
      unfolding packed_slots_def by (auto simp: set_zip)
    then have "r = rs ! i" using that request_slot_inj[OF inv c0 _ ci] by simp
    then show False using i Cons.prems(1) by auto
  qed
  moreover have "packed_slots m (r # rs) ql = map (\<lambda>p. int (request_slot m r p)) [0..<l] @ packed_slots m rs ql'"
    by (simp add: packed_slots_def ql)
  ultimately show ?case by auto
qed (simp add: packed_slots_def)

lemma packed_slots_range:
  assumes inv: "bm_inv N m" "length ql = length rs"
    and cov: "\<And>i. i < length rs \<Longrightarrow> covered m (rs ! i) (ql ! i)"
    and x: "x \<in> set (packed_slots m rs ql)"
  shows "int (bm_block_size m) \<le> x \<and> x < int (N * bm_block_size m)"
proof -
  obtain i q where i: "i < length rs" "q < ql ! i" "x = int (request_slot m (rs ! i) q)"
    using x unfolding packed_slots_def by (auto simp: set_zip)
  then show ?thesis using request_slot_range[OF inv(1) cov[OF i(1)] i(2)]
    unfolding i(3) of_nat_le_iff of_nat_less_iff by simp
qed

lemma packed_slots_length:
  "length ql = length rs \<Longrightarrow> length (packed_slots m rs ql) = sum_list ql"
proof (induction rs arbitrary: ql)
  case (Cons r rs)
  then show ?case by (cases ql) (auto simp: packed_slots_def)
qed (simp add: packed_slots_def)

section \<open>Decode metadata of paged requests\<close>

lemma concat_row:
  "\<forall>r\<in>set rows. length r = n \<Longrightarrow> i < length rows \<Longrightarrow> take n (drop (i * n) (concat rows)) = rows ! i"
proof (induction rows arbitrary: i)
  case (Cons r rows)
  show ?case
  proof (cases i)
    case (Suc j)
    then show ?thesis using Cons by simp
  qed (use Cons in simp)
qed simp

lemma covered_le_capacity:
  assumes "bm_inv N m" "covered m r n" shows "n \<le> N * bm_block_size m"
proof -
  have "card (set (blocks_of m r)) \<le> card {1..<N}"
    using bm_inv_range[OF assms(1)] by (intro card_mono) auto
  then have "length (blocks_of m r) \<le> N"
    using assms(1) by (simp add: bm_inv_def distinct_card)
  then have "length (blocks_of m r) * bm_block_size m \<le> N * bm_block_size m" by (rule mult_le_mono1)
  then show ?thesis using assms(2) unfolding covered_def by linarith
qed

lemma decode_entry_ok:
  assumes c: "pool_cache_for N m c" and i: "i < length rs" "length pl = length rs"
    and cov: "covered m (rs ! i) (pl ! i + step + 1)" and u: "pl ! i + step + 1 \<le> u32_max"
  shows "decode_entry c (map (blocks_of m) rs) pl step i =
    Inr (int (request_slot m (rs ! i) (pl ! i + step)), pl ! i + step + 1)"
proof -
  have inv: "bm_inv N m" using c by (simp add: pool_cache_for_def)
  have cap: "pl ! i + step + 1 \<le> N * bm_block_size m" by (rule covered_le_capacity[OF inv cov])
  show ?thesis
    using slot_in_request_table[OF inv cov, of "pl ! i + step"] c i cap u
    by (simp add: decode_entry_def index_r_def get_def pool_cache_for_def checked_add_def
        slot_for_block_table_position_def max_values)
qed

definition decode_slots :: "block_manager \<Rightarrow> nat list \<Rightarrow> nat list \<Rightarrow> nat \<Rightarrow> int list" where
  "decode_slots m rs pl step =
     map (\<lambda>i. int (request_slot m (rs ! i) (pl ! i + step))) [0..<length rs]"

lemma decode_step_metadata:
  assumes c: "pool_cache_for N m c" and rs: "rs \<noteq> []" "length pl = length rs"
    and cov: "\<And>i. i < length rs \<Longrightarrow>
      covered m (rs ! i) (pl ! i + step + 1) \<and> pl ! i + step + 1 \<le> u32_max"
  obtains md where "decode_metadata_for_batch_step cg c (map (blocks_of m) rs) pl step = Inr md"
    "host (slot_mapping md) = decode_slots m rs pl step"
    "host (context_lens md) = map (\<lambda>l. l + step + 1) pl"
    "max_context_len md = max_or_0 (map (\<lambda>l. l + step + 1) pl)"
    "shape (slot_mapping md) = [length rs]"
proof -
  let ?T = "map (blocks_of m) rs"
  let ?f = "\<lambda>s i. (int (request_slot m (rs ! i) (pl ! i + s)), pl ! i + s + 1)"
  let ?rows = "map (\<lambda>s. map (?f s) [0..<length rs]) [0..<step + 1]"
  have pos: "0 < kv_block_size c" using c bm_inv_pos by (auto simp: pool_cache_for_def)
  have e: "decode_entry c ?T pl s i = Inr (?f s i)" if "s \<le> step" "i < length rs" for s i
    by (rule decode_entry_ok[OF c that(2) rs(2)])
      (use cov[OF that(2)] that(1) covered_mono[of m "rs ! i" "pl ! i + step + 1" "pl ! i + s + 1"] in auto)
  have rows: "traverse (\<lambda>s. traverse (decode_entry c ?T pl s) [0..<length rs]) [0..<step + 1] = Inr ?rows"
    by (rule traverse_all_ok, rule traverse_all_ok) (use e in auto)
  have ne: "blocks_of m r \<noteq> []" if "r \<in> set rs" for r
    using that cov by (fastforce simp: in_set_conv_nth covered_def)
  have mx: "max_or_0 (map length ?T) \<noteq> 0" using max_table_nonzero[OF rs(1) ne] by simp
  obtain w where w: "(if cg then bucket_block_table_cols (max_or_0 (map length ?T)) (kv_block_size c)
      else Inr (max_or_0 (map length ?T))) = Inr w"
    using pos mx by (cases cg) (auto simp: bucket_block_table_cols_def cuda_graph_block_bucket_def)
  have bth: "host_block_table w ?T = Inr (concat (padded_rows w ?T))"
    by (rule host_block_table_ok[OF pool_tables_u32[OF c]])
  let ?md = "\<lambda>s. decode_metadata (FlattenAll (Narrow0 (FromVec (concat (map (map fst) ?rows)) [step + 1, length ?T]) s 1))
     (FromVec (concat (padded_rows w ?T)) [length ?T, w])
     (FlattenAll (Narrow0 (FromVec (concat (map (map snd) ?rows)) [step + 1, length ?T]) s 1))
     (max_or_0 (map snd (?rows ! s)))"
  have run: "decode_metadata_for_batch_steps cg c ?T pl (step + 1) = Inr (map ?md [0..<step + 1])"
  proof -
    define T where "T = ?T"
    define rows where "rows = ?rows"
    have T: "length T = length rs" "T \<noteq> []" using rs(1) by (simp_all add: T_def)
    show ?thesis
      using rows bth w mx T rs
      unfolding T_def[symmetric] rows_def[symmetric] decode_metadata_for_batch_steps_def Let_def
      by (simp del: upt_Suc)
  qed
  have pick: "get (map f [0..<step + 1]) step = Some (f step)" for f :: "nat \<Rightarrow> input_metadata"
    by (simp del: upt_Suc)
  have md: "decode_metadata_for_batch_step cg c ?T pl step = Inr (?md step)"
    unfolding decode_metadata_for_batch_step_def run rbind.simps pick ok_or_simps ..
  have rowlen: "\<forall>r\<in>set (map (map g) ?rows). length r = length rs" for g :: "int \<times> nat \<Rightarrow> 'z"
    by auto
  have row: "take (length rs) (drop (step * length rs) (concat (map (map g) ?rows))) =
      map (g \<circ> ?f step) [0..<length rs]" for g :: "int \<times> nat \<Rightarrow> 'z"
    using concat_row[OF rowlen, of step g] by (simp del: upt_Suc)
  have ctx: "map (snd \<circ> ?f step) [0..<length rs] = map (\<lambda>l. l + step + 1) pl"
    using rs(2) by (intro nth_equalityI) auto
  have s3: "max_context_len (?md step) = max_or_0 (map (\<lambda>l. l + step + 1) pl)"
    using ctx by (simp add: decode_metadata_def comp_def del: upt_Suc)
  have s1: "host (slot_mapping (?md step)) = decode_slots m rs pl step"
    using row[of fst] by (simp add: decode_metadata_def Let_def decode_slots_def comp_def del: upt_Suc)
  have s2: "host (context_lens (?md step)) = map (\<lambda>l. l + step + 1) pl"
    using row[of snd] ctx by (simp add: decode_metadata_def Let_def comp_def del: upt_Suc)
  show thesis using that[OF md s1 s2 s3] by (simp add: decode_metadata_def)
qed

lemma decode_slots_distinct:
  assumes "bm_inv N m" "distinct rs" "\<And>i. i < length rs \<Longrightarrow> covered m (rs ! i) (pl ! i + step + 1)"
  shows "distinct (decode_slots m rs pl step)"
  using request_slot_inj[OF assms(1) assms(3) _ assms(3)] assms(2)
  by (auto simp: decode_slots_def distinct_map inj_on_def nth_eq_iff_index_eq)

section \<open>Attention-mask prefill\<close>

text \<open>A right-padded mask of \<open>n\<close> ones: the first \<open>n\<close> positions get the request's slots,
  the padding gets \<^verbatim>\<open>PAD_SLOT_ID\<close>.\<close>

lemma mask_row_loop_pad:
  "mask_row_loop bs nb tbl pos (replicate k 0) ctx = Inr (replicate k PAD_SLOT_ID, ctx)"
  by (induction k arbitrary: pos) simp_all

lemma mask_row_loop_ones:
  assumes "\<And>p. p < pos + n \<Longrightarrow> slot_in_table bs nb tbl p = Inr (f p)" "ctx + n \<le> usize_max"
  shows "mask_row_loop bs nb tbl pos (replicate n (Suc 0) @ replicate k 0) ctx =
    Inr (map f [pos..<pos + n] @ replicate k PAD_SLOT_ID, ctx + n)"
  using assms
proof (induction n arbitrary: pos ctx)
  case (Suc n)
  have "mask_row_loop bs nb tbl (pos + 1) (replicate n (Suc 0) @ replicate k 0) (ctx + 1) =
      Inr (map f [pos + 1..<pos + 1 + n] @ replicate k PAD_SLOT_ID, ctx + 1 + n)"
    using Suc.prems by (intro Suc.IH) auto
  moreover have "[pos..<pos + Suc n] = pos # [pos + 1..<pos + 1 + n]"
    by (simp add: upt_conv_Cons del: upt_Suc)
  ultimately show ?case using Suc.prems by (simp add: checked_add_def del: upt_Suc)
qed (simp add: mask_row_loop_pad)

lemma mask_row_right_padded:
  assumes c: "pool_cache_for N m c" and cov: "covered m r n" and n: "n \<le> L" "n \<le> u32_max"
  shows "mask_row c L (blocks_of m r, replicate n (Suc 0) @ replicate (L - n) 0) =
    Inr (map (\<lambda>p. int (request_slot m r p)) [0..<n] @ replicate (L - n) PAD_SLOT_ID, n)"
proof -
  have "slot_in_table (kv_block_size c) (kv_num_blocks c) (blocks_of m r) p = Inr (int (request_slot m r p))"
    if "p < n" for p
    using slot_in_request_table[of N m r n p] c cov that by (simp add: pool_cache_for_def)
  then have "mask_row_loop (kv_block_size c) (kv_num_blocks c) (blocks_of m r) 0
      (replicate n (Suc 0) @ replicate (L - n) 0) 0 =
    Inr (map (\<lambda>p. int (request_slot m r p)) [0..<n] @ replicate (L - n) PAD_SLOT_ID, n)"
    using mask_row_loop_ones[of 0 n "kv_block_size c" "kv_num_blocks c" "blocks_of m r"
        "\<lambda>p. int (request_slot m r p)" 0 "L - n"] n by (simp add: max_values)
  then show ?thesis using n by (simp add: mask_row_def)
qed

section \<open>The contiguous layout\<close>

text \<open>What \<^verbatim>\<open>new_batched\<close> establishes.\<close>

lemma new_inner_Inr:
  assumes "new_inner nl nh hdim bs nb nbps batch mtps db = Inr c"
  shows "0 < nl \<and> 0 < nh \<and> 0 < hdim \<and> 0 < bs \<and> 0 < batch \<and> 0 < mtps \<and> 0 < nb \<and>
    0 < db \<and> 16 mod db = 0 \<and> hdim mod (16 div db) = 0 \<and> nb * bs \<le> usize_max \<and> nb \<le> Suc u32_max \<and>
    block_table_host c = [0..<nb] \<and> kv_block_size c = bs \<and> kv_num_blocks c = nb \<and>
    num_blocks_per_sequence c = nbps \<and> kv_batch_size c = batch \<and> max_tokens_per_sequence c = mtps \<and>
    max_tokens c = nb * bs \<and> kv_dtype_bytes c = db \<and>
    key_cache c = replicate nl [nb, nh, hdim div (16 div db), bs, 16 div db] \<and>
    value_cache c = replicate nl [nb, nh, hdim, bs]"
proof -
  obtain bth where t: "traverse (u32_try ''block index overflows u32'') [0..<nb] = Inr bth"
    and rest: "block_table_host c = bth"
    and facts: "0 < nl \<and> 0 < nh \<and> 0 < hdim \<and> 0 < bs \<and> 0 < batch \<and> 0 < mtps \<and> 0 < nb \<and>
    0 < db \<and> 16 mod db = 0 \<and> hdim mod (16 div db) = 0 \<and> nb * bs \<le> usize_max \<and> kv_block_size c = bs \<and>
    kv_num_blocks c = nb \<and> num_blocks_per_sequence c = nbps \<and> kv_batch_size c = batch \<and>
    max_tokens_per_sequence c = mtps \<and> max_tokens c = nb * bs \<and> kv_dtype_bytes c = db \<and>
    key_cache c = replicate nl [nb, nh, hdim div (16 div db), bs, 16 div db] \<and>
    value_cache c = replicate nl [nb, nh, hdim, bs]"
    using assms by (auto simp: new_inner_def Let_def checked_mul_def split: if_splits)
  have len: "length bth = nb" using traverse_length[OF t] by simp
  have nth: "bth ! i = i \<and> i \<le> u32_max" if "i < nb" for i
    using traverse_nth[OF t, of i] that by simp
  then have "bth = [0..<nb]" using len by (intro nth_equalityI) auto
  moreover have "nb \<le> Suc u32_max" using nth[of "nb - 1"] facts by linarith
  ultimately show ?thesis using facts rest by simp
qed

lemma new_batched_Inr:
  assumes "new_batched nl nh hdim bs batch mtps db = Inr c"
  shows "0 < bs" "kv_block_size c = bs" "kv_batch_size c = batch" "max_tokens_per_sequence c = mtps"
    "num_blocks_per_sequence c = div_ceil mtps bs" "kv_num_blocks c = batch * div_ceil mtps bs"
    "block_table_host c = [0..<batch * div_ceil mtps bs]" "batch * div_ceil mtps bs * bs \<le> usize_max"
    "max_tokens c = batch * div_ceil mtps bs * bs"
proof -
  have bs: "0 < bs" using assms by (cases "bs = 0") (auto simp: new_batched_def)
  then have i: "new_inner nl nh hdim bs (batch * div_ceil mtps bs) (div_ceil mtps bs) batch mtps db = Inr c"
    using assms by (auto simp: new_batched_def checked_mul_def split: if_splits)
  show "0 < bs" "kv_block_size c = bs" "kv_batch_size c = batch" "max_tokens_per_sequence c = mtps"
    "num_blocks_per_sequence c = div_ceil mtps bs" "kv_num_blocks c = batch * div_ceil mtps bs"
    "block_table_host c = [0..<batch * div_ceil mtps bs]" "batch * div_ceil mtps bs * bs \<le> usize_max"
    "max_tokens c = batch * div_ceil mtps bs * bs"
    using new_inner_Inr[OF i] bs by auto
qed

lemma contiguous_slot:
  assumes c: "new_batched nl nh hdim bs batch mtps db = Inr c"
    and sq: "sq < batch" and p: "p < mtps" and small: "batch * div_ceil mtps bs * bs \<le> i64_max"
  shows "slot_for_sequence_position c sq p = Inr (int (sq * (div_ceil mtps bs * bs) + p))"
    "sq * (div_ceil mtps bs * bs) + p < max_tokens c"
proof -
  note f = new_batched_Inr[OF c]
  let ?w = "div_ceil mtps bs * bs"
  have pw: "p < ?w" using p div_ceil_upper[OF f(1), of mtps] by simp
  have lt: "sq * ?w + p < batch * ?w" using slot_bound[OF sq pw] .
  then show "sq * ?w + p < max_tokens c" using f(9) by (simp add: mult.assoc)
  have le: "sq * ?w + p \<le> i64_max" using lt small by (simp add: mult.assoc)
  have "sq * div_ceil mtps bs * 1 \<le> sq * div_ceil mtps bs * bs" using f(1) by (intro mult_le_mono2) simp
  then have "sq * div_ceil mtps bs \<le> sq * ?w + p" by (intro trans_le_add1) (simp only: mult.assoc mult_1_right)
  then have "sq * div_ceil mtps bs \<le> usize_max" using max_values_le[OF le] by simp
  then show "slot_for_sequence_position c sq p = Inr (int (sq * ?w + p))"
    using f sq p le max_values_le[OF le]
    by (simp add: slot_for_sequence_position_def checked_mul_def checked_add_def i64_try_def mult.assoc)
qed

text \<open>Row \<open>sq\<close> of the identity block table of a contiguous cache.\<close>

definition contiguous_table :: "paged_kv_cache \<Rightarrow> nat \<Rightarrow> nat list" where
  "contiguous_table c sq = take (num_blocks_per_sequence c)
     (drop (sq * num_blocks_per_sequence c) (block_table_host c))"

lemma contiguous_is_paged:
  assumes c: "new_batched nl nh hdim bs batch mtps db = Inr c"
    and sq: "sq < batch" and p: "p < mtps" and small: "batch * div_ceil mtps bs * bs \<le> i64_max"
  shows "slot_in_table (kv_block_size c) (kv_num_blocks c) (contiguous_table c sq) p =
    slot_for_sequence_position c sq p"
proof -
  note f = new_batched_Inr[OF c]
  let ?n = "div_ceil mtps bs"
  have pd: "p div bs < ?n" by (rule div_lt_div_ceil[OF f(1) p])
  have idx: "sq * ?n + p div bs < batch * ?n" using slot_bound[OF sq pd] .
  have row: "length (contiguous_table c sq) = ?n" "contiguous_table c sq ! (p div bs) = sq * ?n + p div bs"
    using f sq pd idx mult_le_mono1[of "Suc sq" batch ?n]
    by (auto simp: contiguous_table_def)
  have "slot_in_table bs (batch * ?n) (contiguous_table c sq) p =
      Inr (int (contiguous_table c sq ! (p div bs) * bs + p mod bs))"
    using f(1) pd row idx small by (intro slot_in_table_ok) auto
  also have "contiguous_table c sq ! (p div bs) * bs + p mod bs = sq * (?n * bs) + p"
    by (simp add: row algebra_simps)
  finally show ?thesis using contiguous_slot(1)[OF c sq p small] f by simp
qed

section \<open>Properties\<close>

text \<open>A pool of three blocks of two slots with five positions of request 7 allocated, and the
  cache that goes with it: the instance the witnesses use.\<close>

definition example_manager :: block_manager where
  "example_manager = snd (try_allocate_slots (new_block_manager 6 2) 7 5)"

definition example_cache :: paged_kv_cache where
  "example_cache = \<lparr>key_cache = [[6, 1, 2, 2, 4]], value_cache = [[6, 1, 8, 2]], kv_dtype_bytes = 4,
     block_table_host = [0..<6], kv_block_size = 2, kv_num_blocks = 6, num_blocks_per_sequence = 6,
     kv_batch_size = 1, max_tokens_per_sequence = 12, max_tokens = 12\<rparr>"

lemma example_pool: "pool_cache_for 6 example_manager example_cache"
proof -
  have "bm_inv 6 example_manager" unfolding example_manager_def
    by (intro try_allocate_inv new_block_manager_inv) simp
  moreover have "bm_block_size example_manager = 2" by code_simp
  ultimately show ?thesis by (simp add: pool_cache_for_def example_cache_def max_values)
qed

lemma example_covered: "covered example_manager 7 5"
  by code_simp

text \<open>C3: For requests whose tables come from the block manager and cover their prompts, the
  packed prefill metadata exists; its slot mapping lists every prompt position of every
  request, all slots are different, and none lies in the reserved block or outside the cache.\<close>
theorem packed_prefill_no_alias:
  assumes "pool_cache_for N m c" "rs \<noteq> []" "distinct rs" "length ql = length rs"
    and "\<And>i. i < length rs \<Longrightarrow> covered m (rs ! i) (ql ! i) \<and> 0 < ql ! i"
    and "sum_list ql \<le> u32_max"
  shows "\<exists>tables md. block_tables_for m rs = Inr tables \<and>
    input_metadata_from_query_lens c tables ql = Inr md \<and>
    host (slot_mapping md) = packed_slots m rs ql \<and> tensor_ok (slot_mapping md) \<and>
    distinct (host (slot_mapping md)) \<and> length (host (slot_mapping md)) = sum_list ql \<and>
    (\<forall>x\<in>set (host (slot_mapping md)).
       int (kv_block_size c) \<le> x \<and> x < int (kv_num_blocks c * kv_block_size c)) \<and>
    host (context_lens md) = ql \<and> tensor_ok (block_tables md)"
proof -
  have inv: "bm_inv N m" using assms(1) by (simp add: pool_cache_for_def)
  have t: "block_tables_for m rs = Inr (map (blocks_of m) rs)"
  proof (rule covered_block_tables_for[where n = "\<lambda>r. SOME n. covered m r n \<and> 0 < n"])
    fix r assume "r \<in> set rs"
    then obtain i where "i < length rs" "r = rs ! i" by (auto simp: in_set_conv_nth)
    then have "covered m r (ql ! i) \<and> 0 < ql ! i" using assms(5) by simp
    then show "covered m r (SOME n. covered m r n \<and> 0 < n) \<and> 0 < (SOME n. covered m r n \<and> 0 < n)"
      by (rule someI)
  qed
  obtain md where md: "input_metadata_from_query_lens c (map (blocks_of m) rs) ql = Inr md"
    "slot_mapping md = FromVec (packed_slots m rs ql) [sum_list ql]"
    "context_lens md = FromVec ql [length ql]"
    "block_tables md = FromVec (concat (padded_rows (max_or_0 (map length (map (blocks_of m) rs)))
        (map (blocks_of m) rs))) [length rs, max_or_0 (map length (map (blocks_of m) rs))]"
    using packed_prefill_metadata[OF assms(1,2,4,5,6)] by metis
  have "tensor_ok (block_tables md)" unfolding md(4)
    by (subst tensor_ok.simps, subst padded_rows_length, rule max_or_0_ge) auto
  moreover have "\<forall>x\<in>set (packed_slots m rs ql). int (kv_block_size c) \<le> x \<and>
      x < int (kv_num_blocks c * kv_block_size c)"
    using packed_slots_range[OF inv assms(4)] assms(1,5) by (simp add: pool_cache_for_def)
  ultimately show ?thesis
    using t md packed_slots_distinct[OF inv assms(3,4)] packed_slots_length[OF assms(4)] assms(5)
    by (intro exI[of _ "map (blocks_of m) rs"] exI[of _ md]) simp
qed

theorem packed_prefill_no_alias_witness:
  "\<exists>tables md. block_tables_for example_manager [7] = Inr tables \<and>
    input_metadata_from_query_lens example_cache tables [5] = Inr md \<and>
    host (slot_mapping md) = [2, 3, 4, 5, 6]"
proof -
  have "packed_slots example_manager [7] [5] = [2, 3, 4, 5, 6]" by code_simp
  then show ?thesis
    using packed_prefill_no_alias[OF example_pool, of "[7]" "[5]"] example_covered
    by (auto simp: max_values)
qed

text \<open>C4: The metadata of decode step \<open>step\<close> writes position \<^verbatim>\<open>prompt_len + step\<close> of each
  request and reads a context one longer; the slots of the rows are different, and different
  from the slot of every earlier position of every request, prompt and decoded alike.\<close>
theorem decode_step_fresh_slots:
  assumes "pool_cache_for N m c" "rs \<noteq> []" "distinct rs" "length pl = length rs"
    and "\<And>i. i < length rs \<Longrightarrow>
      covered m (rs ! i) (pl ! i + step + 1) \<and> pl ! i + step + 1 \<le> u32_max"
  shows "\<exists>md. decode_metadata_for_batch_step cg c (map (blocks_of m) rs) pl step = Inr md \<and>
    host (slot_mapping md) = decode_slots m rs pl step \<and> distinct (host (slot_mapping md)) \<and>
    host (context_lens md) = map (\<lambda>l. l + step + 1) pl \<and>
    (\<forall>i < length rs. \<forall>p < pl ! i + step.
       int (request_slot m (rs ! i) p) \<notin> set (host (slot_mapping md)))"
proof -
  have inv: "bm_inv N m" using assms(1) by (simp add: pool_cache_for_def)
  have cov: "\<And>i. i < length rs \<Longrightarrow> covered m (rs ! i) (pl ! i + step + 1)" using assms(5) by simp
  obtain md where md: "decode_metadata_for_batch_step cg c (map (blocks_of m) rs) pl step = Inr md"
    "host (slot_mapping md) = decode_slots m rs pl step"
    "host (context_lens md) = map (\<lambda>l. l + step + 1) pl"
    using decode_step_metadata[OF assms(1,2,4,5)] by metis
  have "int (request_slot m (rs ! i) p) \<notin> set (decode_slots m rs pl step)"
    if i: "i < length rs" "p < pl ! i + step" for i p
  proof
    assume "int (request_slot m (rs ! i) p) \<in> set (decode_slots m rs pl step)"
    then obtain j where j: "j < length rs"
      "request_slot m (rs ! i) p = request_slot m (rs ! j) (pl ! j + step)"
      by (auto simp: decode_slots_def)
    have "rs ! i = rs ! j \<and> p = pl ! j + step"
      using request_slot_inj[OF inv cov[OF i(1)] _ cov[OF j(1)], of p "pl ! j + step"] i j by simp
    then show False using i j assms(3) by (simp add: nth_eq_iff_index_eq)
  qed
  then show ?thesis using md decode_slots_distinct[OF inv assms(3) cov] by (intro exI[of _ md]) simp
qed

theorem decode_step_fresh_slots_witness:
  "\<exists>md. decode_metadata_for_batch_step False example_cache (map (blocks_of example_manager) [7]) [3] 1 = Inr md \<and>
    host (slot_mapping md) = [6]"
proof -
  have "decode_slots example_manager [7] [3] 1 = [6]" by code_simp
  then show ?thesis
    using decode_step_fresh_slots[OF example_pool, of "[7]" "[3]" 1 False] example_covered
    by (auto simp: max_values)
qed

text \<open>In a cache made by \<^verbatim>\<open>new_batched\<close> the contiguous slot of a sequence position is the
  slot its identity block table gives, lies inside the cache, and two different
  (sequence, position) pairs never share one.\<close>
theorem contiguous_layout_is_paged:
  assumes "new_batched nl nh hdim bs batch mtps db = Inr c" "batch * div_ceil mtps bs * bs \<le> i64_max"
    and "sq < batch" "p < mtps" "sq' < batch" "p' < mtps"
  shows "slot_for_sequence_position c sq p =
      slot_in_table (kv_block_size c) (kv_num_blocks c) (contiguous_table c sq) p \<and>
    (\<exists>s. slot_for_sequence_position c sq p = Inr s \<and> 0 \<le> s \<and> s < int (max_tokens c)) \<and>
    (slot_for_sequence_position c sq p = slot_for_sequence_position c sq' p' \<longleftrightarrow> sq = sq' \<and> p = p')"
proof -
  have w: "0 < bs" "mtps \<le> div_ceil mtps bs * bs"
    using new_batched_Inr(1)[OF assms(1)] div_ceil_upper by auto
  have "int (sq * (div_ceil mtps bs * bs) + p) = int (sq' * (div_ceil mtps bs * bs) + p') \<longleftrightarrow> sq = sq' \<and> p = p'"
    unfolding of_nat_eq_iff using w assms(4,6) by (intro block_index_inj) auto
  then have inj: "(slot_for_sequence_position c sq p = slot_for_sequence_position c sq' p') =
      (sq = sq' \<and> p = p')"
    using contiguous_slot(1)[OF assms(1) assms(3,4,2)] contiguous_slot(1)[OF assms(1) assms(5,6,2)]
    by simp
  have bnd: "int (sq * (div_ceil mtps bs * bs) + p) < int (max_tokens c)"
    using contiguous_slot(2)[OF assms(1) assms(3,4,2)] unfolding of_nat_less_iff .
  show ?thesis
    using contiguous_is_paged[OF assms(1) assms(3,4,2)] contiguous_slot(1)[OF assms(1) assms(3,4,2)] inj bnd
    by (intro conjI) (metis, metis of_nat_0_le_iff, metis)
qed

theorem contiguous_layout_is_paged_witness:
  "\<exists>c. new_batched 1 1 8 2 2 3 4 = Inr c \<and> slot_for_sequence_position c 1 2 = Inr 6 \<and>
    slot_for_sequence_position c 1 2 = slot_in_table (kv_block_size c) (kv_num_blocks c) (contiguous_table c 1) 2"
proof -
  obtain c where c: "new_batched 1 1 8 2 2 3 4 = Inr c"
    by (simp add: new_batched_def new_inner_def div_ceil_def checked_mul_def max_values
        Let_def traverse_u32[simplified max_values])
  have "slot_for_sequence_position c 1 2 = Inr 6"
    using contiguous_slot(1)[OF c, of 1 2] by (simp add: div_ceil_def max_values)
  then show ?thesis using c contiguous_layout_is_paged[OF c, of 1 2 1 2]
    by (simp add: div_ceil_def max_values)
qed

end
