(* ===== verification/CacheRuntime.thy ===== *)
theory CacheRuntime
  imports PagedKv
begin

text \<open>
  \<^verbatim>\<open>PagedCacheRuntime\<close> of \<^verbatim>\<open>paged_cache_runtime.rs\<close>: sizing of the pool,
  construction of cache and block manager together, statistics, and the registry of CUDA
  decode graphs with the padding of \<^verbatim>\<open>cuda_graph.rs\<close>.

  Parameters: the element size of a \<^verbatim>\<open>DType\<close>; \<^verbatim>\<open>gpu\<close>, the byte budget that the
  \<^verbatim>\<open>cuda\<close> build derives from \<^verbatim>\<open>nvidia-smi\<close> for a fraction (\<^verbatim>\<open>None\<close> in a build without
  the feature); for the graph registry the capture and replay calls and the choice of the
  first key of a \<^verbatim>\<open>HashMap\<close>.  A decode batch is kept as its rows.
\<close>

section \<open>Sizing\<close>

datatype 'f cache_memory = ContextSize nat | Blocks nat | GpuMemoryFraction 'f

record 'f cache_config =
  cfg_block_size :: nat
  cfg_memory :: "'f cache_memory"

definition bytes_per_paged_block :: "nat \<Rightarrow> nat \<Rightarrow> nat \<Rightarrow> nat \<Rightarrow> nat \<Rightarrow> nat result" where
  "bytes_per_paged_block num_layers num_kv_heads head_dim block_size dtype_bytes =
     rbind (ensure (\<not> (num_layers = 0 \<or> num_kv_heads = 0 \<or> head_dim = 0 \<or> block_size = 0))
             (Err ''paged block sizing requires non-zero layer/head/block parameters'')) (\<lambda>_.
     rbind (ensure (\<not> (dtype_bytes = 0 \<or> 16 mod dtype_bytes \<noteq> 0))
             (Err ''unsupported paged kv cache dtype'')) (\<lambda>_.
     rbind (ok_or (Option.bind (Option.bind (checked_mul num_kv_heads head_dim)
                     (\<lambda>v. checked_mul v block_size)) (\<lambda>v. checked_mul v 2))
                  (Err ''paged block element count overflow'')) (\<lambda>elems_per_layer.
     rbind (ok_or (checked_mul num_layers elems_per_layer)
                  (Err ''paged block element count overflow'')) (\<lambda>elems.
       ok_or (checked_mul elems dtype_bytes) (Err ''paged block byte count overflow'')))))"

definition blocks_for_byte_budget :: "nat \<Rightarrow> nat \<Rightarrow> nat result" where
  "blocks_for_byte_budget byte_budget bytes_per_block =
     rbind (ensure (bytes_per_block \<noteq> 0) (Err ''paged block byte size must be non-zero'')) (\<lambda>_.
       let usable_blocks = byte_budget div bytes_per_block;
           num_blocks = saturating_add usable_blocks 1
       in if num_blocks \<le> 1 then Inl (Err ''paged KV byte budget is too small for one block'')
          else Inr num_blocks)"

text \<open>The integer part of \<^verbatim>\<open>cuda_kv_byte_budget\<close>: \<open>target_mib\<close> is the rounded product of
  the total memory and the fraction.\<close>

definition kv_byte_budget :: "nat \<Rightarrow> nat \<Rightarrow> nat result" where
  "kv_byte_budget target_mib used_mib =
     (let budget_mib = saturating_sub target_mib used_mib
      in if budget_mib = 0 then Inl (Err ''GPU KV budget exhausted'')
         else ok_or (checked_mul budget_mib (1024 * 1024)) (Err ''GPU KV budget byte overflow''))"

definition resolve_num_blocks ::
  "('f \<Rightarrow> nat result) option \<Rightarrow> 'f cache_memory \<Rightarrow> nat \<Rightarrow> nat \<Rightarrow> nat \<Rightarrow> nat \<Rightarrow> nat \<Rightarrow> nat result" where
  "resolve_num_blocks gpu memory num_layers num_kv_heads head_dim block_size dtype_bytes =
     (case memory of
        ContextSize tokens \<Rightarrow> rbind (div_ceil_r tokens block_size) (\<lambda>n. Inr (n + 1))
      | Blocks blocks \<Rightarrow> Inr blocks
      | GpuMemoryFraction fraction \<Rightarrow>
          (case gpu of
             None \<Rightarrow> Inl (Err ''GpuMemoryFraction paged cache sizing requires the `cuda` feature'')
           | Some budget \<Rightarrow>
               rbind (budget fraction) (\<lambda>byte_budget.
               rbind (bytes_per_paged_block num_layers num_kv_heads head_dim block_size dtype_bytes)
                 (\<lambda>bytes_per_block. blocks_for_byte_budget byte_budget bytes_per_block))))"

record cache_stats =
  st_block_size :: nat
  st_num_blocks :: nat
  st_free_blocks :: nat
  st_max_context_tokens :: nat
  st_bytes :: nat

record graph_key =
  key_batch :: nat
  key_block_table_cols :: nat

record 'g decode_graph =
  captured_batch :: nat
  graph_block_table_cols :: nat
  graph_handle :: 'g

record 'g cache_runtime =
  rt_cache :: paged_kv_cache
  rt_manager :: block_manager
  rt_stats :: cache_stats
  cuda_graph_max_batch :: nat
  cuda_decode_graphs_disabled :: bool
  cuda_decode_graph_disabled_keys :: "graph_key set"
  cuda_decode_graphs :: "graph_key \<Rightarrow> 'g decode_graph option"

definition new_runtime ::
  "('f \<Rightarrow> nat result) option \<Rightarrow> nat \<Rightarrow> nat \<Rightarrow> nat \<Rightarrow> nat \<Rightarrow> 'f cache_config \<Rightarrow> 'g cache_runtime result" where
  "new_runtime gpu num_layers num_kv_heads head_dim dtype_bytes config =
     rbind (ensure (cfg_block_size config \<in> {8, 16, 32})
             (Err ''paged cache block size must be 8, 16, or 32'')) (\<lambda>_.
     rbind (resolve_num_blocks gpu (cfg_memory config) num_layers num_kv_heads head_dim
              (cfg_block_size config) dtype_bytes) (\<lambda>num_blocks.
     rbind (ensure (1 < num_blocks)
             (Err ''paged cache requires at least 2 blocks including null block'')) (\<lambda>_.
     rbind (new_pool num_layers num_kv_heads head_dim (cfg_block_size config) num_blocks dtype_bytes) (\<lambda>cache.
       let stats = \<lparr>st_block_size = cfg_block_size config, st_num_blocks = num_blocks,
                    st_free_blocks = num_blocks - 1,
                    st_max_context_tokens = (num_blocks - 1) * cfg_block_size config,
                    st_bytes = estimated_bytes cache\<rparr>
       in Inr \<lparr>rt_cache = cache, rt_manager = new_block_manager num_blocks (cfg_block_size config),
               rt_stats = stats, cuda_graph_max_batch = 0, cuda_decode_graphs_disabled = False,
               cuda_decode_graph_disabled_keys = {}, cuda_decode_graphs = Map.empty\<rparr>))))"

definition runtime_stats :: "'g cache_runtime \<Rightarrow> cache_stats" where
  "runtime_stats rt = (rt_stats rt)\<lparr>st_free_blocks := free_blocks (rt_manager rt)\<rparr>"

definition runtime_block_tables_for :: "'g cache_runtime \<Rightarrow> nat list \<Rightarrow> nat list list result" where
  "runtime_block_tables_for rt rs = block_tables_for (rt_manager rt) rs"

section \<open>Padding of decode batches\<close>

record decode_batch =
  db_ids :: "nat list"
  db_positions :: "int list list"
  db_slots :: "int list"
  db_context_lens :: "nat list"
  db_cols :: nat
  db_block_tables :: "nat list list"

definition pad_block_table_cols :: "nat list list \<Rightarrow> nat \<Rightarrow> nat \<Rightarrow> nat list list" where
  "pad_block_table_cols tables meta_cols cols =
     (if meta_cols = 0 then map (\<lambda>_. replicate cols 0) tables
      else map (\<lambda>row. row @ replicate (cols - meta_cols) (row ! (meta_cols - 1))) tables)"

definition pad_metadata_block_tables :: "decode_batch \<Rightarrow> nat \<Rightarrow> decode_batch result" where
  "pad_metadata_block_tables b cols =
     (if cols < db_cols b then Inl (Err ''cannot pad block tables from'')
      else if db_cols b = cols then Inr b
      else Inr (b\<lparr>db_block_tables := pad_block_table_cols (db_block_tables b) (db_cols b) cols,
                  db_cols := cols\<rparr>))"

definition pad_u32_vector_with_value :: "nat list \<Rightarrow> nat \<Rightarrow> nat \<Rightarrow> nat list result" where
  "pad_u32_vector_with_value v target_len value =
     (if target_len < length v then Inl (Err ''cannot pad vector from'')
      else if length v = target_len then Inr v
      else if value \<noteq> 1 then Inl (Err ''only u32 vector padding with value 1 is supported'')
      else Inr (v @ replicate (target_len - length v) 1))"

definition pad_zeros :: "nat \<Rightarrow> 'a::zero list \<Rightarrow> 'a list" where
  "pad_zeros n xs = xs @ replicate n 0"

definition pad_decode_batch_to_max :: "nat \<Rightarrow> decode_batch \<Rightarrow> nat \<Rightarrow> decode_batch result" where
  "pad_decode_batch_to_max max_batch b0 cols =
     (let actual_batch = length (db_ids b0) in
      if actual_batch = 0 \<or> max_batch < actual_batch
      then Inl (Err ''actual batch exceeds cuda graph max batch'')
      else rbind (pad_metadata_block_tables b0 cols) (\<lambda>b.
        if actual_batch = max_batch then Inr b
        else let k = max_batch - actual_batch in
          rbind (pad_u32_vector_with_value (db_context_lens b) max_batch 1) (\<lambda>ctx.
            Inr \<lparr>db_ids = pad_zeros k (db_ids b), db_positions = map (pad_zeros k) (db_positions b),
                 db_slots = pad_zeros k (db_slots b), db_context_lens = ctx, db_cols = db_cols b,
                 db_block_tables = db_block_tables b @ replicate k (replicate (db_cols b) 0)\<rparr>)))"

section \<open>The graph registry\<close>

definition cuda_decode_graphs_enabled :: "'g cache_runtime \<Rightarrow> bool" where
  "cuda_decode_graphs_enabled rt \<longleftrightarrow> \<not> cuda_decode_graphs_disabled rt \<and> 0 < cuda_graph_max_batch rt"

definition cuda_decode_graph_key :: "'g cache_runtime \<Rightarrow> nat \<Rightarrow> nat \<Rightarrow> decode_batch \<Rightarrow> graph_key result" where
  "cuda_decode_graph_key rt actual_batch q_len b =
     rbind (ensure (q_len = 1) (Err ''CUDA decode graph requires single-token decode steps'')) (\<lambda>_.
     let max_batch = cuda_graph_max_batch rt in
     rbind (ensure (max_batch \<noteq> 0) (Err ''CUDA decode graphs are not prewarmed'')) (\<lambda>_.
     rbind (ensure (\<not> (actual_batch = 0 \<or> max_batch < actual_batch))
             (Err ''CUDA decode actual batch must be in 1..=max_batch'')) (\<lambda>_.
     rbind (bucket_block_table_cols (db_cols b) (kv_block_size (rt_cache rt))) (\<lambda>graph_cols.
     rbind (ok_or (cuda_graph_batch_bucket actual_batch max_batch)
                  (Err ''CUDA decode graph has no batch bucket'')) (\<lambda>graph_batch.
       Inr \<lparr>key_batch = graph_batch, key_block_table_cols = graph_cols\<rparr>)))))"

definition cuda_decode_graph_enabled_for :: "'g cache_runtime \<Rightarrow> nat \<Rightarrow> decode_batch \<Rightarrow> bool result" where
  "cuda_decode_graph_enabled_for rt q_len b =
     (if \<not> cuda_decode_graphs_enabled rt then Inr False
      else rbind (cuda_decode_graph_key rt (length (db_ids b)) q_len b) (\<lambda>key.
        Inr (key \<notin> cuda_decode_graph_disabled_keys rt)))"

definition disable_cuda_decode_graph_for ::
  "'g cache_runtime \<Rightarrow> nat \<Rightarrow> decode_batch \<Rightarrow> 'g cache_runtime result" where
  "disable_cuda_decode_graph_for rt q_len b =
     rbind (cuda_decode_graph_key rt (length (db_ids b)) q_len b) (\<lambda>key.
       Inr (rt\<lparr>cuda_decode_graph_disabled_keys := insert key (cuda_decode_graph_disabled_keys rt)\<rparr>))"

definition insert_cuda_decode_graph ::
  "((graph_key \<Rightarrow> 'g decode_graph option) \<Rightarrow> graph_key) \<Rightarrow> 'g cache_runtime \<Rightarrow> graph_key \<Rightarrow>
   'g decode_graph \<Rightarrow> 'g cache_runtime" where
  "insert_cuda_decode_graph first_key rt key g =
     (let graphs = cuda_decode_graphs rt;
          graphs' = (if CUDA_DECODE_GRAPH_MAX_GRAPHS \<le> card (dom graphs) \<and> graphs key = None
                     then graphs(first_key graphs := None) else graphs)
      in rt\<lparr>cuda_decode_graphs := graphs'(key \<mapsto> g)\<rparr>)"

definition run_graph ::
  "('g \<Rightarrow> decode_batch \<Rightarrow> 'l list result) \<Rightarrow> nat \<Rightarrow> decode_batch \<Rightarrow> 'g decode_graph \<Rightarrow> 'l list result" where
  "run_graph replay graph_batch b g =
     rbind (ensure (captured_batch g = graph_batch) (Err ''CUDA decode graph batch mismatch'')) (\<lambda>_.
     rbind (pad_decode_batch_to_max graph_batch b (graph_block_table_cols g)) (\<lambda>padded.
     rbind (replay (graph_handle g) padded) (\<lambda>logits. Inr (take (length (db_ids b)) logits))))"

definition cuda_decode_graph ::
  "((graph_key \<Rightarrow> 'g decode_graph option) \<Rightarrow> graph_key) \<Rightarrow> (decode_batch \<Rightarrow> ('g \<times> 'l list) result) \<Rightarrow>
   ('g \<Rightarrow> decode_batch \<Rightarrow> 'l list result) \<Rightarrow> bool \<Rightarrow> 'g cache_runtime \<Rightarrow> nat \<Rightarrow> decode_batch \<Rightarrow>
   'l list result \<times> 'g cache_runtime" where
  "cuda_decode_graph first_key capture replay is_cuda rt q_len b =
     (if \<not> is_cuda then (Inl (Err ''CUDA decode graph requires a CUDA device''), rt)
      else if cuda_decode_graphs_disabled rt then (Inl (Err ''CUDA decode graphs are disabled''), rt)
      else (case cuda_decode_graph_key rt (length (db_ids b)) q_len b of
        Inl e \<Rightarrow> (Inl e, rt)
      | Inr key \<Rightarrow>
          if key \<in> cuda_decode_graph_disabled_keys rt
          then (Inl (Err ''CUDA decode graph disabled for key''), rt)
          else (case cuda_decode_graphs rt key of
            Some g \<Rightarrow> (run_graph replay (key_batch key) b g, rt)
          | None \<Rightarrow>
              (case pad_decode_batch_to_max (key_batch key) b (key_block_table_cols key) of
                 Inl e \<Rightarrow> (Inl e, rt)
               | Inr padded \<Rightarrow>
                   (case capture padded of
                      Inl e \<Rightarrow> (Inl e, rt)
                    | Inr (h, warmup_logits) \<Rightarrow>
                        let g = \<lparr>captured_batch = length (db_ids padded),
                                 graph_block_table_cols = db_cols padded, graph_handle = h\<rparr>
                        in (Inr (take (length (db_ids b)) warmup_logits),
                            insert_cuda_decode_graph first_key rt key g))))))"

text \<open>\<^verbatim>\<open>prewarm_cuda_decode_graphs\<close>: one graph per column bucket and batch bucket.\<close>

definition prewarm_step ::
  "((graph_key \<Rightarrow> 'g decode_graph option) \<Rightarrow> graph_key) \<Rightarrow> (nat \<Rightarrow> nat \<Rightarrow> 'g result) \<Rightarrow>
   'g cache_runtime \<times> nat \<Rightarrow> nat \<times> nat \<Rightarrow> ('g cache_runtime \<times> nat) result" where
  "prewarm_step first_key warm = (\<lambda>(rt, captured) (cols, batch).
     rbind (warm batch cols) (\<lambda>h.
       Inr (insert_cuda_decode_graph first_key rt \<lparr>key_batch = batch, key_block_table_cols = cols\<rparr>
              \<lparr>captured_batch = batch, graph_block_table_cols = cols, graph_handle = h\<rparr>,
            saturating_add captured 1)))"

definition prewarm_cuda_decode_graphs ::
  "((graph_key \<Rightarrow> 'g decode_graph option) \<Rightarrow> graph_key) \<Rightarrow> (nat \<Rightarrow> nat \<Rightarrow> 'g result) \<Rightarrow> bool \<Rightarrow>
   'g cache_runtime \<Rightarrow> nat \<Rightarrow> ('g cache_runtime \<times> nat) result" where
  "prewarm_cuda_decode_graphs first_key warm is_cuda rt max_batch =
     (if \<not> is_cuda \<or> max_batch = 0 then Inr (rt, 0)
      else rbind (cuda_graph_block_bucket (kv_block_size (rt_cache rt))) (\<lambda>base.
        let limit = cuda_graph_prewarm_batch_limit max_batch;
            rt0 = rt\<lparr>cuda_graph_max_batch := limit, cuda_decode_graphs_disabled := False,
                     cuda_decode_graph_disabled_keys := {}, cuda_decode_graphs := Map.empty\<rparr>
        in (case cuda_graph_batch_buckets limit of
              None \<Rightarrow> Inl (Panic ''bucket loop does not return'')
            | Some batches \<Rightarrow>
                foldM (prewarm_step first_key warm) (rt0, 0)
                  (List.product [base, base * 2] batches))))"

section \<open>A new runtime is consistent\<close>

lemma new_pool_Inr:
  assumes "new_pool nl nh hdim bs nb db = Inr c"
  shows "kv_block_size c = bs" "kv_num_blocks c = nb" "max_tokens_per_sequence c = nb * bs"
    "nb * bs \<le> usize_max" "nb \<le> Suc u32_max" "estimated_bytes c = nl * (2 * (nb * nh * hdim * bs * db))"
proof -
  have i: "new_inner nl nh hdim bs nb nb 1 (nb * bs) db = Inr c"
    using assms by (auto simp: new_pool_def checked_mul_def split: if_splits)
  note f = new_inner_Inr[OF i]
  have pack: "hdim div (16 div db) * (16 div db) = hdim"
    using f by (metis div_mult_mod_eq add.right_neutral)
  have "prod_list [nb, nh, hdim div (16 div db), bs, 16 div db] =
      nb * nh * bs * (hdim div (16 div db) * (16 div db))" by simp
  also have "\<dots> = nb * nh * hdim * bs" unfolding pack by (simp add: mult.assoc mult.commute mult.left_commute)
  finally have "prod_list [nb, nh, hdim div (16 div db), bs, 16 div db] = nb * nh * hdim * bs" .
  moreover have "prod_list [nb, nh, hdim, bs] = nb * nh * hdim * bs" by simp
  ultimately show "estimated_bytes c = nl * (2 * (nb * nh * hdim * bs * db))"
    using f by (simp add: estimated_bytes_def sum_list_replicate del: prod_list.Cons)
  show "kv_block_size c = bs" "kv_num_blocks c = nb" "max_tokens_per_sequence c = nb * bs"
    "nb * bs \<le> usize_max" "nb \<le> Suc u32_max" using f by auto
qed

lemma bytes_per_block_value:
  assumes "bytes_per_paged_block nl nh hdim bs db = Inr n"
  shows "n = nl * (nh * hdim * bs * 2) * db" "n \<le> usize_max" "0 < n"
  using assms by (auto simp: bytes_per_paged_block_def checked_mul_def split: if_splits)

lemma new_runtime_Inr:
  assumes "new_runtime gpu nl nh hdim db config = Inr rt"
  shows "\<exists>nb. bm_inv nb (rt_manager rt) \<and> 1 < nb \<and> kv_num_blocks (rt_cache rt) = nb \<and>
    kv_block_size (rt_cache rt) = cfg_block_size config \<and> cfg_block_size config \<in> {8, 16, 32} \<and>
    bm_block_size (rt_manager rt) = cfg_block_size config \<and>
    max_tokens_per_sequence (rt_cache rt) = nb * cfg_block_size config \<and>
    nb * cfg_block_size config \<le> usize_max \<and>
    rt_manager rt = new_block_manager nb (cfg_block_size config) \<and>
    st_num_blocks (rt_stats rt) = nb \<and> st_bytes (rt_stats rt) = estimated_bytes (rt_cache rt) \<and>
    st_max_context_tokens (rt_stats rt) = (nb - 1) * cfg_block_size config \<and>
    st_free_blocks (rt_stats rt) = nb - 1 \<and> estimated_bytes (rt_cache rt) = nl * (2 * (nb * nh * hdim * cfg_block_size config * db)) \<and>
    new_pool nl nh hdim (cfg_block_size config) nb db = Inr (rt_cache rt) \<and>
    resolve_num_blocks gpu (cfg_memory config) nl nh hdim (cfg_block_size config) db = Inr nb"
proof -
  obtain nb c where c: "new_pool nl nh hdim (cfg_block_size config) nb db = Inr c" and
    r: "resolve_num_blocks gpu (cfg_memory config) nl nh hdim (cfg_block_size config) db = Inr nb" and
    rt: "1 < nb" "cfg_block_size config \<in> {8, 16, 32}" "rt_cache rt = c"
      "rt_manager rt = new_block_manager nb (cfg_block_size config)" "st_num_blocks (rt_stats rt) = nb"
      "st_bytes (rt_stats rt) = estimated_bytes c" "st_free_blocks (rt_stats rt) = nb - 1"
      "st_max_context_tokens (rt_stats rt) = (nb - 1) * cfg_block_size config"
    using assms by (auto simp: new_runtime_def Let_def)
  have "0 < cfg_block_size config" using rt(2) by auto
  then have "bm_inv nb (rt_manager rt)" using rt(4) new_block_manager_inv by simp
  then show ?thesis using rt r c new_pool_Inr[OF c] by (auto simp: new_block_manager_def)
qed

section \<open>The graph registry: keys, capacity, padding\<close>

definition graphs_inv :: "'g cache_runtime \<Rightarrow> bool" where
  "graphs_inv rt \<longleftrightarrow> finite (dom (cuda_decode_graphs rt)) \<and>
     card (dom (cuda_decode_graphs rt)) \<le> CUDA_DECODE_GRAPH_MAX_GRAPHS \<and>
     (\<forall>key g. cuda_decode_graphs rt key = Some g \<longrightarrow>
        captured_batch g = key_batch key \<and> graph_block_table_cols g = key_block_table_cols key)"

definition picks_a_key :: "((graph_key \<Rightarrow> 'g decode_graph option) \<Rightarrow> graph_key) \<Rightarrow> bool" where
  "picks_a_key first_key \<longleftrightarrow> (\<forall>graphs. finite (dom graphs) \<and> dom graphs \<noteq> {} \<longrightarrow> first_key graphs \<in> dom graphs)"

lemma insert_graph_inv:
  assumes "picks_a_key fk" "graphs_inv rt" "captured_batch g = key_batch key"
    "graph_block_table_cols g = key_block_table_cols key"
  shows "graphs_inv (insert_cuda_decode_graph fk rt key g)"
proof -
  let ?G = "cuda_decode_graphs rt"
  have fin: "finite (dom ?G)" and card: "card (dom ?G) \<le> CUDA_DECODE_GRAPH_MAX_GRAPHS"
    using assms(2) by (simp_all add: graphs_inv_def)
  show ?thesis
  proof (cases "CUDA_DECODE_GRAPH_MAX_GRAPHS \<le> card (dom ?G) \<and> ?G key = None")
    case True
    then have full: "card (dom ?G) = CUDA_DECODE_GRAPH_MAX_GRAPHS" using card by simp
    then have "dom ?G \<noteq> {}" by (auto simp: CUDA_DECODE_GRAPH_MAX_GRAPHS_def)
    then have fk: "fk ?G \<in> dom ?G" using assms(1) fin by (auto simp: picks_a_key_def)
    have "card (insert key (dom ?G - {fk ?G})) \<le> CUDA_DECODE_GRAPH_MAX_GRAPHS"
      using fk fin full card_insert_le_m1[of CUDA_DECODE_GRAPH_MAX_GRAPHS "dom ?G - {fk ?G}" key]
      by (simp add: CUDA_DECODE_GRAPH_MAX_GRAPHS_def)
    then show ?thesis using True assms fin
      by (auto simp: graphs_inv_def insert_cuda_decode_graph_def Let_def split: if_splits)
  next
    case False
    have "card (insert key (dom ?G)) \<le> CUDA_DECODE_GRAPH_MAX_GRAPHS"
    proof (cases "?G key = None")
      case True
      then show ?thesis using False fin by (simp add: card_insert_if)
    next
      case False
      then have "insert key (dom ?G) = dom ?G" by auto
      then show ?thesis using card by simp
    qed
    then show ?thesis using False assms fin
      by (auto simp: graphs_inv_def insert_cuda_decode_graph_def Let_def split: if_splits)
  qed
qed

lemma pad_decode_batch_shape:
  assumes "pad_decode_batch_to_max mb b cols = Inr p"
  shows "length (db_ids p) = mb" "db_cols p = cols"
  using assms
  by (auto simp: pad_decode_batch_to_max_def pad_metadata_block_tables_def pad_zeros_def Let_def
      split: if_splits)

lemma cuda_decode_graph_inv:
  assumes "picks_a_key fk" "graphs_inv rt"
  shows "graphs_inv (snd (cuda_decode_graph fk cap rep is_cuda rt q b))"
  using assms
  by (auto simp: cuda_decode_graph_def Let_def split: sum.splits option.splits
      intro!: insert_graph_inv dest: pad_decode_batch_shape)

lemma prewarm_step_inv:
  "picks_a_key fk \<Longrightarrow> graphs_inv (fst s) \<Longrightarrow> prewarm_step fk warm s x = Inr s' \<Longrightarrow> graphs_inv (fst s')"
  by (auto simp: prewarm_step_def split: prod.splits intro!: insert_graph_inv)

lemma prewarm_inv:
  assumes "picks_a_key fk" "graphs_inv rt"
    and "prewarm_cuda_decode_graphs fk warm is_cuda rt mb = Inr (rt', n)"
  shows "graphs_inv rt'"
proof (cases "\<not> is_cuda \<or> mb = 0")
  case False
  obtain rt0 xs where run: "foldM (prewarm_step fk warm) (rt0, 0) xs = Inr (rt', n)"
    and e: "cuda_decode_graphs rt0 = Map.empty"
  proof -
    let ?rt0 = "rt\<lparr>cuda_graph_max_batch := cuda_graph_prewarm_batch_limit mb,
      cuda_decode_graphs_disabled := False, cuda_decode_graph_disabled_keys := {},
      cuda_decode_graphs := Map.empty\<rparr>"
    have "\<exists>xs. foldM (prewarm_step fk warm) (?rt0, 0) xs = Inr (rt', n)"
      using assms(3) False
      by (auto simp: prewarm_cuda_decode_graphs_def Let_def split: option.splits)
    then show thesis using that[of ?rt0] by auto
  qed
  have start: "graphs_inv (fst (rt0, 0::nat))" using e by (simp add: graphs_inv_def)
  have "graphs_inv (fst (rt', n))"
    using foldM_invariant[where P = "\<lambda>s. graphs_inv (fst s)", OF run start]
      prewarm_step_inv[OF assms(1)] by blast
  then show ?thesis by simp
qed (use assms in \<open>auto simp: prewarm_cuda_decode_graphs_def\<close>)

text \<open>A decode batch whose parts have one entry per row.\<close>

definition batch_ok :: "decode_batch \<Rightarrow> bool" where
  "batch_ok b \<longleftrightarrow> length (db_slots b) = length (db_ids b) \<and>
     length (db_context_lens b) = length (db_ids b) \<and> length (db_block_tables b) = length (db_ids b) \<and>
     (\<forall>row\<in>set (db_block_tables b). length row = db_cols b) \<and>
     (\<forall>ps\<in>set (db_positions b). length ps = length (db_ids b))"

lemma pad_decode_batch_ok:
  assumes b: "batch_ok b" "0 < length (db_ids b)" "length (db_ids b) \<le> mb" "db_cols b \<le> cols"
  obtains p where "pad_decode_batch_to_max mb b cols = Inr p" "batch_ok p"
    "take (length (db_ids b)) (db_slots p) = db_slots b"
    "take (length (db_ids b)) (db_ids p) = db_ids b"
    "take (length (db_ids b)) (db_context_lens p) = db_context_lens b"
    "\<And>i. length (db_ids b) \<le> i \<Longrightarrow> i < mb \<Longrightarrow> db_slots p ! i = 0 \<and> db_context_lens p ! i = 1 \<and>
        db_ids p ! i = 0 \<and> db_block_tables p ! i = replicate cols 0"
    "\<And>i. i < length (db_ids b) \<Longrightarrow> take (db_cols b) (db_block_tables p ! i) = db_block_tables b ! i"
proof -
  let ?n = "length (db_ids b)"
  define t where "t = (if db_cols b = cols then db_block_tables b
    else pad_block_table_cols (db_block_tables b) (db_cols b) cols)"
  have bt: "length (db_block_tables b ! i) = db_cols b" if "i < ?n" for i
    using b(1) that by (simp add: batch_ok_def)
  have t: "length t = ?n" "\<forall>row\<in>set t. length row = cols"
    using b(1,4) bt by (auto simp: t_def batch_ok_def pad_block_table_cols_def)
  have tk: "take (db_cols b) (t ! i) = db_block_tables b ! i" if "i < ?n" for i
  proof (cases "db_cols b = 0")
    case True
    then have "db_block_tables b ! i = []" using bt[OF that] by simp
    then show ?thesis using True by simp
  next
    case False
    then show ?thesis
      using bt[OF that] that b(1,4) by (simp add: t_def batch_ok_def pad_block_table_cols_def)
  qed
  define p where "p = (if ?n = mb then b\<lparr>db_block_tables := t, db_cols := cols\<rparr>
    else \<lparr>db_ids = pad_zeros (mb - ?n) (db_ids b), db_positions = map (pad_zeros (mb - ?n)) (db_positions b),
          db_slots = pad_zeros (mb - ?n) (db_slots b),
          db_context_lens = db_context_lens b @ replicate (mb - ?n) 1, db_cols = cols,
          db_block_tables = t @ replicate (mb - ?n) (replicate cols 0)\<rparr>)"
  have same: "b\<lparr>db_block_tables := db_block_tables b, db_cols := db_cols b\<rparr> = b" by simp
  have "pad_metadata_block_tables b cols = Inr (b\<lparr>db_block_tables := t, db_cols := cols\<rparr>)"
    using b(4) same by (auto simp: pad_metadata_block_tables_def t_def)
  then have run: "pad_decode_batch_to_max mb b cols = Inr p"
    using b by (auto simp: pad_decode_batch_to_max_def Let_def p_def pad_u32_vector_with_value_def batch_ok_def)
  have ok: "batch_ok p" using b(1,3) t(1,2) by (auto simp: batch_ok_def p_def pad_zeros_def)
  have last: "take (db_cols b) (db_block_tables p ! i) = db_block_tables b ! i" if "i < ?n" for i
    using t(1) tk[OF that] that by (simp add: p_def nth_append)
  show thesis
    by (rule that[OF run ok])
      (use b(1,3) t(1) last in \<open>auto simp: batch_ok_def p_def pad_zeros_def nth_append\<close>)
qed

section \<open>Properties\<close>

text \<open>C6: A runtime that is built has a pool and an allocator of the same geometry.  Sized with
  \<^verbatim>\<open>ContextSize t\<close>, one request of \<open>t\<close> tokens always fits the new pool.  Sized from a GPU
  budget, the allocatable blocks fit the budget but the whole pool, with the reserved block,
  is larger than the budget.\<close>
theorem runtime_sizing:
  assumes "new_runtime gpu nl nh hdim db config = Inr rt"
  shows "\<exists>nb. bm_inv nb (rt_manager rt) \<and> kv_num_blocks (rt_cache rt) = nb \<and>
    kv_block_size (rt_cache rt) = bm_block_size (rt_manager rt) \<and>
    max_tokens_per_sequence (rt_cache rt) = nb * bm_block_size (rt_manager rt) \<and>
    st_free_blocks (runtime_stats rt) = allocatable_block_capacity nb \<and>
    (\<forall>t r. cfg_memory config = ContextSize t \<longrightarrow> slots_available_for (rt_manager rt) r t = Inr True) \<and>
    (\<forall>f budget bytes. cfg_memory config = GpuMemoryFraction f \<and> (case gpu of None \<Rightarrow> False | Some g \<Rightarrow> g f = Inr budget) \<and>
        budget < usize_max \<and> bytes_per_paged_block nl nh hdim (cfg_block_size config) db = Inr bytes \<longrightarrow>
        allocatable_block_capacity nb * bytes \<le> budget \<and> budget < st_bytes (runtime_stats rt))"
proof -
  obtain nb where nb: "bm_inv nb (rt_manager rt)" "1 < nb" "kv_num_blocks (rt_cache rt) = nb"
    "kv_block_size (rt_cache rt) = cfg_block_size config" "cfg_block_size config \<in> {8, 16, 32}"
    "bm_block_size (rt_manager rt) = cfg_block_size config"
    "max_tokens_per_sequence (rt_cache rt) = nb * cfg_block_size config"
    "rt_manager rt = new_block_manager nb (cfg_block_size config)"
    "st_bytes (rt_stats rt) = nl * (2 * (nb * nh * hdim * cfg_block_size config * db))"
    "resolve_num_blocks gpu (cfg_memory config) nl nh hdim (cfg_block_size config) db = Inr nb"
    using new_runtime_Inr[OF assms] by metis
  have pos: "0 < cfg_block_size config" using nb(5) by auto
  have free: "st_free_blocks (runtime_stats rt) = allocatable_block_capacity nb"
    by (simp add: runtime_stats_def nb(8) free_blocks_def new_block_manager_def
        allocatable_block_capacity_def saturating_sub_def)
  have ctx: "slots_available_for (rt_manager rt) r t = Inr True" if "cfg_memory config = ContextSize t" for t r
  proof -
    have "nb = div_ceil t (cfg_block_size config) + 1"
      using nb(10) that pos by (auto simp: resolve_num_blocks_def)
    then show ?thesis using pos
      by (simp add: slots_available_for_def nb(8) new_block_manager_def blocks_for_request_def saturating_sub_def)
  qed
  have gpu: "allocatable_block_capacity nb * bytes \<le> budget \<and> budget < st_bytes (runtime_stats rt)"
    if g: "cfg_memory config = GpuMemoryFraction f" "case gpu of None \<Rightarrow> False | Some g \<Rightarrow> g f = Inr budget"
      "budget < usize_max" "bytes_per_paged_block nl nh hdim (cfg_block_size config) db = Inr bytes" for f budget bytes
  proof -
    note v = bytes_per_block_value[OF g(4)]
    have "budget div bytes + 1 \<le> usize_max" using div_le_dividend[of budget bytes] g(3) by linarith
    then have sat: "saturating_add (budget div bytes) 1 = budget div bytes + 1"
      unfolding saturating_add_def by (rule min_absorb1)
    have n: "nb = budget div bytes + 1"
      using nb(10) g sat v(3)
      by (auto simp: resolve_num_blocks_def blocks_for_byte_budget_def Let_def split: option.splits if_splits)
    have b: "st_bytes (runtime_stats rt) = nb * bytes"
      by (simp add: runtime_stats_def nb(9) v(1) algebra_simps)
    have "budget < (budget div bytes + 1) * bytes"
      using v(3) by (metis div_less_iff_less_mult less_add_one)
    then show ?thesis using n b
      by (simp add: allocatable_block_capacity_def saturating_sub_def)
  qed
  show ?thesis
  proof (intro exI[of _ nb] conjI allI impI)
    fix f budget bytes
    assume "cfg_memory config = GpuMemoryFraction f \<and>
        (case gpu of None \<Rightarrow> False | Some g \<Rightarrow> g f = Inr budget) \<and>
        budget < usize_max \<and> bytes_per_paged_block nl nh hdim (cfg_block_size config) db = Inr bytes"
    then show "allocatable_block_capacity nb * bytes \<le> budget" "budget < st_bytes (runtime_stats rt)"
      using gpu by blast+
  qed (use nb free ctx in simp_all)
qed

theorem runtime_sizing_witness:
  "\<exists>rt. new_runtime (None :: (unit \<Rightarrow> nat result) option) 1 1 8 4
      \<lparr>cfg_block_size = 16, cfg_memory = ContextSize 40\<rparr> = Inr (rt :: unit cache_runtime) \<and>
    (\<forall>r. slots_available_for (rt_manager rt) r 40 = Inr True)"
proof -
  let ?cfg = "\<lparr>cfg_block_size = 16, cfg_memory = ContextSize 40\<rparr> :: unit cache_config"
  have "is_ok (new_runtime (None :: (unit \<Rightarrow> nat result) option) 1 1 8 4 ?cfg :: unit cache_runtime result)"
    by (simp add: new_runtime_def resolve_num_blocks_def new_pool_def new_inner_def div_ceil_def
        checked_mul_def max_values Let_def traverse_u32[simplified max_values])
  then obtain rt :: "unit cache_runtime" where rt: "new_runtime None 1 1 8 4 ?cfg = Inr rt"
    by (auto simp: is_ok_iff)
  then show ?thesis using runtime_sizing[OF rt] by auto
qed



text \<open>The registry of decode graphs never holds more than 256 graphs, and each graph was
  captured for the batch and table width of its key, so a replay never meets a graph of
  another shape; start-up capture and on-demand capture both keep this.\<close>
theorem graph_registry_invariant:
  assumes "picks_a_key fk" "graphs_inv rt"
  shows "graphs_inv (snd (cuda_decode_graph fk cap rep is_cuda rt q b)) \<and>
    (\<forall>rt' n. prewarm_cuda_decode_graphs fk warm is_cuda rt mb = Inr (rt', n) \<longrightarrow> graphs_inv rt') \<and>
    (\<forall>key g. cuda_decode_graphs rt key = Some g \<longrightarrow>
       run_graph rep (key_batch key) b g =
       rbind (pad_decode_batch_to_max (key_batch key) b (key_block_table_cols key)) (\<lambda>padded.
       rbind (rep (graph_handle g) padded) (\<lambda>logits. Inr (take (length (db_ids b)) logits))))"
proof (intro conjI allI impI)
  show "graphs_inv (snd (cuda_decode_graph fk cap rep is_cuda rt q b))"
    by (rule cuda_decode_graph_inv[OF assms])
next
  fix rt' n assume "prewarm_cuda_decode_graphs fk warm is_cuda rt mb = Inr (rt', n)"
  then show "graphs_inv rt'" by (rule prewarm_inv[OF assms])
next
  fix key g assume "cuda_decode_graphs rt key = Some g"
  then have "captured_batch g = key_batch key \<and> graph_block_table_cols g = key_block_table_cols key"
    using assms(2) by (simp add: graphs_inv_def)
  then show "run_graph rep (key_batch key) b g =
       rbind (pad_decode_batch_to_max (key_batch key) b (key_block_table_cols key)) (\<lambda>padded.
       rbind (rep (graph_handle g) padded) (\<lambda>logits. Inr (take (length (db_ids b)) logits)))"
    by (simp add: run_graph_def)
qed

definition least_key :: "(graph_key \<Rightarrow> 'g decode_graph option) \<Rightarrow> graph_key" where
  "least_key graphs = (let b = Min (key_batch ` dom graphs)
     in \<lparr>key_batch = b, key_block_table_cols = Min (key_block_table_cols ` {k \<in> dom graphs. key_batch k = b})\<rparr>)"

lemma least_key_picks: "picks_a_key least_key"
  unfolding picks_a_key_def
proof (intro allI impI)
  fix graphs :: "graph_key \<Rightarrow> 'a decode_graph option"
  assume d: "finite (dom graphs) \<and> dom graphs \<noteq> {}"
  let ?b = "Min (key_batch ` dom graphs)"
  let ?K = "{k \<in> dom graphs. key_batch k = ?b}"
  have "?b \<in> key_batch ` dom graphs" using d by (intro Min_in) auto
  then have "?K \<noteq> {}" by auto
  then have "Min (key_block_table_cols ` ?K) \<in> key_block_table_cols ` ?K" using d by (intro Min_in) auto
  then obtain k where "k \<in> ?K" "Min (key_block_table_cols ` ?K) = key_block_table_cols k"
    by (elim imageE)
  then have k: "k \<in> dom graphs" "key_batch k = ?b"
    "key_block_table_cols k = Min (key_block_table_cols ` ?K)" by simp_all
  have "least_key graphs = k" 
    by (rule graph_key.equality) (simp_all add: least_key_def Let_def k(2,3))
  then show "least_key graphs \<in> dom graphs" using k(1) by simp
qed

theorem graph_registry_invariant_witness:
  "graphs_inv (snd (cuda_decode_graph least_key (\<lambda>p. Inr ((), db_ids p))
      (\<lambda>h p. Inr (db_ids p)) True
      \<lparr>rt_cache = example_cache, rt_manager = example_manager,
       rt_stats = \<lparr>st_block_size = 2, st_num_blocks = 6, st_free_blocks = 5,
         st_max_context_tokens = 10, st_bytes = 0\<rparr>,
       cuda_graph_max_batch = 4, cuda_decode_graphs_disabled = False,
       cuda_decode_graph_disabled_keys = {}, cuda_decode_graphs = Map.empty\<rparr> 1
      \<lparr>db_ids = [9], db_positions = [], db_slots = [6], db_context_lens = [5],
       db_cols = 3, db_block_tables = [[1, 2, 3]]\<rparr>))"
proof -
  have inv: "graphs_inv (\<lparr>rt_cache = example_cache, rt_manager = example_manager,
       rt_stats = \<lparr>st_block_size = 2, st_num_blocks = 6, st_free_blocks = 5,
         st_max_context_tokens = 10, st_bytes = 0\<rparr>,
       cuda_graph_max_batch = 4, cuda_decode_graphs_disabled = False,
       cuda_decode_graph_disabled_keys = {}, cuda_decode_graphs = Map.empty\<rparr> :: unit cache_runtime)"
    by (simp add: graphs_inv_def)
  show ?thesis using graph_registry_invariant[OF least_key_picks inv] by blast
qed

end
