(* ===== verification/PromptBatch.thy ===== *)
theory PromptBatch
  imports PagedKv
begin

text \<open>
  The batch helpers of \<^verbatim>\<open>vasr-models/src/model/generation.rs\<close>: recognising and
  producing right-padded prompt batches, prompt lengths, the rows of the logits that hold the
  last prompt token, position ids of a decode step, and the audio prefix that all rows of a
  batch share.  Token ids and mask entries (\<^verbatim>\<open>u32\<close>) are natural numbers; \<^verbatim>\<open>i64\<close>
  values are integers with their bound written out.
\<close>

section \<open>Definitions\<close>

definition first_position :: "('a \<Rightarrow> bool) \<Rightarrow> 'a list \<Rightarrow> nat option" where
  "first_position P xs =
     (let n = length (takeWhile (\<lambda>x. \<not> P x) xs) in if n < length xs then Some n else None)"

definition audio_start :: "nat \<Rightarrow> nat list \<Rightarrow> nat list \<Rightarrow> nat option" where
  "audio_start tok ids attn = first_position (\<lambda>(i, a). a \<noteq> 0 \<and> i = tok) (zip ids attn)"

definition shares_audio_prefix :: "nat \<Rightarrow> nat list \<Rightarrow> nat \<Rightarrow> nat list \<times> nat list \<Rightarrow> bool" where
  "shares_audio_prefix tok first p = (\<lambda>(ids, attn).
     (case audio_start tok ids attn of
        None \<Rightarrow> False
      | Some rp \<Rightarrow> \<not> (rp \<noteq> p \<or> length ids < p \<or> length attn < p \<or> take p ids \<noteq> take p first
                     \<or> (\<exists>a\<in>set (take p attn). a = 0))))"

definition common_audio_prefix_len :: "nat list list \<Rightarrow> nat list list \<Rightarrow> nat \<Rightarrow> nat" where
  "common_audio_prefix_len input_ids attention_mask audio_token_id =
     (if length input_ids \<le> 1 \<or> length input_ids \<noteq> length attention_mask then 0
      else let first = input_ids ! 0; first_attn = attention_mask ! 0 in
        (case audio_start audio_token_id first first_attn of
           None \<Rightarrow> 0
         | Some prefix_len \<Rightarrow>
             if prefix_len < 8 then 0
             else if \<not> (\<forall>row\<in>set (drop 1 (zip input_ids attention_mask)).
                           shares_audio_prefix audio_token_id first prefix_len row) then 0
             else if \<exists>a\<in>set (take prefix_len first_attn). a = 0 then 0
             else prefix_len))"

definition decode_slot_and_context_len :: "nat \<Rightarrow> nat \<Rightarrow> (nat \<times> nat) result" where
  "decode_slot_and_context_len prompt_len step =
     rbind (ok_or (checked_add prompt_len step) (Err ''decode slot position overflow'')) (\<lambda>slot_pos.
     rbind (ok_or (checked_add slot_pos 1) (Err ''decode context length overflow'')) (\<lambda>context_len.
       Inr (slot_pos, context_len)))"

definition count_audio_placeholders :: "nat list \<Rightarrow> nat \<Rightarrow> nat" where
  "count_audio_placeholders ids audio_token_id = length (filter (\<lambda>i. i = audio_token_id) ids)"

definition count_audio_placeholders_batch :: "nat list list \<Rightarrow> nat \<Rightarrow> nat result" where
  "count_audio_placeholders_batch input_ids audio_token_id =
     foldM (\<lambda>acc row. ok_or (checked_add acc (length (filter (\<lambda>i. i = audio_token_id) row)))
                        (Err ''audio placeholder count overflow at batch index'')) 0 input_ids"

definition valid_count :: "nat list \<Rightarrow> nat" where
  "valid_count mk = length (filter (\<lambda>v. v \<noteq> 0) mk)"

fun normalize_loop :: "(nat \<times> nat) list \<Rightarrow> nat list \<Rightarrow> nat list \<Rightarrow> nat \<Rightarrow> (nat list \<times> nat list \<times> nat) result" where
  "normalize_loop [] row_ids row_mask write_idx = Inr (row_ids, row_mask, write_idx)"
| "normalize_loop ((i, v) # rest) row_ids row_mask write_idx =
     (if v \<noteq> 0
      then if write_idx < length row_ids \<and> write_idx < length row_mask
           then normalize_loop rest (row_ids[write_idx := i]) (row_mask[write_idx := 1]) (write_idx + 1)
           else Inl (Panic ''index out of bounds'')
      else normalize_loop rest row_ids row_mask write_idx)"

definition pad_id_of :: "nat list \<Rightarrow> nat list \<Rightarrow> nat" where
  "pad_id_of ids mk =
     (case first_position (\<lambda>(i, v). v = 0) (zip ids mk) of None \<Rightarrow> ids ! 0 | Some k \<Rightarrow> ids ! k)"

definition normalize_row :: "nat \<Rightarrow> nat list \<times> nat list \<Rightarrow> (nat list \<times> nat list \<times> nat) result" where
  "normalize_row seq_len = (\<lambda>(ids, mk).
     rbind (ensure (length ids = seq_len \<and> length mk = seq_len) (Err ''batch row len mismatch'')) (\<lambda>_.
     let len = valid_count mk in
     rbind (ensure (\<not> (len = 0 \<or> seq_len < len)) (Err ''invalid prompt length at batch index'')) (\<lambda>_.
     let pad_id = pad_id_of ids mk in
     rbind (normalize_loop (zip ids mk) (replicate seq_len pad_id) (replicate seq_len 0) 0)
       (\<lambda>(row_ids, row_mask, write_idx).
     rbind (ensure (write_idx = len) (Err ''failed to normalize prompt row'')) (\<lambda>_.
       Inr (row_ids, row_mask, len))))))"

definition normalize_batch_for_paged_prefill ::
  "nat list list \<Rightarrow> nat list list \<Rightarrow> (nat list list \<times> nat list list \<times> nat list) result" where
  "normalize_batch_for_paged_prefill input_ids attention_mask =
     (let batch = length input_ids in
      if batch \<noteq> length attention_mask then Inl (Err ''input_ids/attention_mask batch mismatch'')
      else if batch = 0 then Inr ([], [], [])
      else rbind (traverse (normalize_row (length (input_ids ! 0))) (zip input_ids attention_mask)) (\<lambda>rows.
        Inr (map fst rows, map (fst \<circ> snd) rows, map (snd \<circ> snd) rows)))"

definition attention_masks_are_dense :: "nat list list \<Rightarrow> bool" where
  "attention_masks_are_dense masks \<longleftrightarrow> (\<forall>row\<in>set masks. \<forall>v\<in>set row. v \<noteq> 0)"

fun right_padded_loop :: "bool \<Rightarrow> nat list \<Rightarrow> bool" where
  "right_padded_loop seen_pad [] = True"
| "right_padded_loop seen_pad (v # rest) =
     (if v = 0 then right_padded_loop True rest
      else if seen_pad then False else right_padded_loop seen_pad rest)"

definition attention_mask_is_right_padded :: "nat list \<Rightarrow> bool" where
  "attention_mask_is_right_padded mk = right_padded_loop False mk"

definition attention_masks_are_right_padded :: "nat list list \<Rightarrow> bool" where
  "attention_masks_are_right_padded masks \<longleftrightarrow> (\<forall>row\<in>set masks. attention_mask_is_right_padded row)"

definition prompt_len_from_left_padded_mask :: "nat list \<Rightarrow> nat \<Rightarrow> int result" where
  "prompt_len_from_left_padded_mask mk seq_len =
     rbind (ensure (length mk = seq_len) (Err ''attention_mask length mismatch'')) (\<lambda>_.
     rbind (foldM (\<lambda>acc v. if v \<noteq> 0 then ok_or (checked_add acc 1) (Err ''attention_mask sum overflow'')
                           else Inr acc) 0 mk)
       (i64_try ''attention_mask length overflows i64''))"

definition prompt_lens_from_attention_masks :: "nat list list \<Rightarrow> nat \<Rightarrow> int list result" where
  "prompt_lens_from_attention_masks masks seq_len =
     traverse (\<lambda>row. prompt_len_from_left_padded_mask row seq_len) masks"

text \<open>The row indices \<^verbatim>\<open>gather_last_logits_for_prompt_lens\<close> selects from the flattened logits.\<close>

definition gather_index :: "nat \<Rightarrow> nat \<times> int \<Rightarrow> nat result" where
  "gather_index seq_len = (\<lambda>(i, len_i64).
     rbind (ensure (0 < len_i64) (Err ''prompt length must be > 0 at batch index'')) (\<lambda>_.
     let len = nat len_i64 in
     rbind (ensure (len \<le> seq_len) (Err ''prompt length exceeds seq_len at batch index'')) (\<lambda>_.
     rbind (ok_or (Option.bind (checked_mul i seq_len) (\<lambda>base. checked_add base (len - 1)))
                  (Err ''gather index overflow for batch index'')) (\<lambda>flat.
       u32_try ''gather index overflows u32 at batch index'' flat))))"

definition gather_last_logits_for_prompt_lens :: "nat \<Rightarrow> nat \<Rightarrow> 'l list \<Rightarrow> int list \<Rightarrow> 'l list result" where
  "gather_last_logits_for_prompt_lens batch seq_len flat_logits prompt_lens =
     rbind (ensure (length prompt_lens = batch) (Err ''prompt_lens batch mismatch'')) (\<lambda>_.
     rbind (traverse (gather_index seq_len) (enumerate 0 prompt_lens)) (\<lambda>gather_idx.
       traverse (\<lambda>k. ok_or (get flat_logits k) (Err ''index_select out of range'')) gather_idx))"

definition i64_ok :: "int \<Rightarrow> bool" where
  "i64_ok z \<longleftrightarrow> - int i64_max - 1 \<le> z \<and> z \<le> int i64_max"

text \<open>\<^verbatim>\<open>position_ids_for_step\<close>: one row of the three identical planes.\<close>

definition position_ids_for_step :: "int list \<Rightarrow> nat \<Rightarrow> int list result" where
  "position_ids_for_step prompt_lens step =
     rbind (ensure (prompt_lens \<noteq> []) (Err ''prompt_lens is empty'')) (\<lambda>_.
     rbind (i64_try ''step overflows i64'' step) (\<lambda>step_i64.
       traverse (\<lambda>base. let p = base + step_i64
                 in if i64_ok p then Inr p else Inl (Err ''position id overflow at batch index'')) prompt_lens))"

definition position_ids_for_decode_steps_batch :: "int list \<Rightarrow> nat \<Rightarrow> int list list result" where
  "position_ids_for_decode_steps_batch prompt_lens max_steps =
     traverse (position_ids_for_step prompt_lens) [0..<max_steps]"

definition position_ids_for_decode_steps :: "int \<Rightarrow> nat \<Rightarrow> int list list result" where
  "position_ids_for_decode_steps prompt_len max_steps =
     traverse (position_ids_for_step [prompt_len]) [0..<max_steps]"

section \<open>Right padding\<close>

lemma valid_count_le: "valid_count mk \<le> length mk"
  by (simp add: valid_count_def)

lemma right_padded_loop_True: "right_padded_loop True mk \<longleftrightarrow> (\<forall>v\<in>set mk. v = 0)"
  by (induction mk) auto

lemma right_padded_iff:
  "attention_mask_is_right_padded mk \<longleftrightarrow>
    (\<forall>i < length mk. mk ! i \<noteq> 0 \<longleftrightarrow> i < valid_count mk)"
proof (induction mk)
  case (Cons v mk)
  show ?case
  proof (cases "v = 0")
    case True
    have "attention_mask_is_right_padded (v # mk) \<longleftrightarrow> (\<forall>x\<in>set mk. x = 0)"
      using True by (simp add: attention_mask_is_right_padded_def right_padded_loop_True)
    also have "\<dots> \<longleftrightarrow> (\<forall>i < length (v # mk). (v # mk) ! i \<noteq> 0 \<longleftrightarrow> i < valid_count (v # mk))"
    proof
      assume z: "\<forall>x\<in>set mk. x = 0"
      then have "valid_count (v # mk) = 0" using True by (simp add: valid_count_def filter_empty_conv)
      then show "\<forall>i < length (v # mk). (v # mk) ! i \<noteq> 0 \<longleftrightarrow> i < valid_count (v # mk)"
        using z True by (auto simp: nth_Cons split: nat.splits)
    next
      assume a: "\<forall>i < length (v # mk). (v # mk) ! i \<noteq> 0 \<longleftrightarrow> i < valid_count (v # mk)"
      then have "valid_count (v # mk) = 0" using True by force
      then have "filter (\<lambda>v. v \<noteq> 0) mk = []" using True by (simp add: valid_count_def)
      then show "\<forall>x\<in>set mk. x = 0" by (simp add: filter_empty_conv)
    qed
    finally show ?thesis .
  next
    case False
    have "attention_mask_is_right_padded (v # mk) \<longleftrightarrow> attention_mask_is_right_padded mk"
      using False by (simp add: attention_mask_is_right_padded_def)
    also have "\<dots> \<longleftrightarrow> (\<forall>i < length (v # mk). (v # mk) ! i \<noteq> 0 \<longleftrightarrow> i < valid_count (v # mk))"
      using Cons.IH False by (auto simp: valid_count_def nth_Cons split: nat.splits)
    finally show ?thesis .
  qed
qed (simp add: attention_mask_is_right_padded_def)

definition valid_ids :: "nat list \<Rightarrow> nat list \<Rightarrow> nat list" where
  "valid_ids ids mk = map fst (filter (\<lambda>(i, v). v \<noteq> 0) (zip ids mk))"

lemma valid_ids_length: "length ids = length mk \<Longrightarrow> length (valid_ids ids mk) = valid_count mk"
  by (induction ids mk rule: list_induct2) (auto simp: valid_ids_def valid_count_def)

text \<open>A row in normal form: its valid ids, then padding.\<close>

lemma valid_count_padded [simp]: "valid_count (replicate n (Suc 0) @ replicate k 0) = n"
  by (simp add: valid_count_def)

lemma valid_ids_append:
  "length xs = length ms \<Longrightarrow> valid_ids (xs @ ys) (ms @ ns) = valid_ids xs ms @ valid_ids ys ns"
  by (simp add: valid_ids_def)

lemma valid_ids_padded: "valid_ids (xs @ ys) (replicate (length xs) (Suc 0) @ replicate k 0) = xs"
proof -
  have "valid_ids xs (replicate (length xs) (Suc 0)) = xs" by (induction xs) (auto simp: valid_ids_def)
  moreover have "valid_ids ys (replicate k 0) = []"
    unfolding valid_ids_def by (auto simp: filter_empty_conv set_zip)
  ultimately show ?thesis by (simp add: valid_ids_append)
qed

lemma pad_id_of_padded:
  assumes "0 < k"
  shows "pad_id_of (xs @ replicate k p) (replicate (length xs) (Suc 0) @ replicate k 0) = p"
proof -
  obtain k' where k: "k = Suc k'" using assms by (cases k) auto
  have "takeWhile (\<lambda>x. \<not> (case x of (i, v) \<Rightarrow> v = 0))
      (zip (xs @ replicate k p) (replicate (length xs) (Suc 0) @ replicate k 0)) =
    zip xs (replicate (length xs) (Suc 0))" by (induction xs) (auto simp: k)
  then show ?thesis by (simp add: pad_id_of_def first_position_def k nth_append)
qed

definition normal_ids :: "nat \<Rightarrow> nat list \<Rightarrow> nat list \<Rightarrow> nat list" where
  "normal_ids L ids mk = valid_ids ids mk @ replicate (L - valid_count mk) (pad_id_of ids mk)"

definition normal_mask :: "nat \<Rightarrow> nat list \<Rightarrow> nat list" where
  "normal_mask L mk = replicate (valid_count mk) (Suc 0) @ replicate (L - valid_count mk) 0"

lemma normal_row:
  assumes "length ids = L" "length mk = L"
  shows "length (normal_ids L ids mk) = L" "length (normal_mask L mk) = L"
    "valid_count (normal_mask L mk) = valid_count mk"
    "take (valid_count mk) (normal_ids L ids mk) = valid_ids ids mk"
    "normal_mask L (normal_mask L mk) = normal_mask L mk"
    "normal_ids L (normal_ids L ids mk) (normal_mask L mk) = normal_ids L ids mk"
proof -
  have n: "length (valid_ids ids mk) = valid_count mk" "valid_count mk \<le> L"
    using valid_ids_length[of ids mk] valid_count_le[of mk] assms by auto
  have v: "valid_ids (normal_ids L ids mk) (normal_mask L mk) = valid_ids ids mk"
    using valid_ids_padded[of "valid_ids ids mk"] n(1) by (simp add: normal_ids_def normal_mask_def)
  show "length (normal_ids L ids mk) = L" "length (normal_mask L mk) = L"
    "valid_count (normal_mask L mk) = valid_count mk"
    "take (valid_count mk) (normal_ids L ids mk) = valid_ids ids mk"
    "normal_mask L (normal_mask L mk) = normal_mask L mk"
    using n by (simp_all add: normal_ids_def normal_mask_def)
  have "pad_id_of (normal_ids L ids mk) (normal_mask L mk) = pad_id_of ids mk" if "0 < L - valid_count mk"
    using pad_id_of_padded[OF that, of "valid_ids ids mk"] n(1) by (simp add: normal_ids_def normal_mask_def)
  moreover have "normal_ids L (normal_ids L ids mk) (normal_mask L mk) =
      valid_ids ids mk @ replicate (L - valid_count mk) (pad_id_of (normal_ids L ids mk) (normal_mask L mk))"
    unfolding normal_ids_def[of L "normal_ids L ids mk"] v by (simp add: normal_mask_def)
  ultimately show "normal_ids L (normal_ids L ids mk) (normal_mask L mk) = normal_ids L ids mk"
    by (cases "L - valid_count mk") (simp_all add: normal_ids_def)
qed

lemma normalize_loop_append:
  assumes "length (filter (\<lambda>(i, v). v \<noteq> 0) xs) \<le> k"
  shows "normalize_loop xs (done @ replicate k pad) (replicate (length done) 1 @ replicate k 0) (length done) =
    Inr (done @ map fst (filter (\<lambda>(i, v). v \<noteq> 0) xs) @ replicate (k - length (filter (\<lambda>(i, v). v \<noteq> 0) xs)) pad,
         replicate (length done + length (filter (\<lambda>(i, v). v \<noteq> 0) xs)) 1 @
           replicate (k - length (filter (\<lambda>(i, v). v \<noteq> 0) xs)) 0,
         length done + length (filter (\<lambda>(i, v). v \<noteq> 0) xs))"
  using assms
proof (induction xs arbitrary: "done" k)
  case (Cons x xs)
  obtain i v where x: "x = (i, v)" by (cases x)
  show ?case
  proof (cases "v = 0")
    case False
    then obtain k' where k: "k = Suc k'" using Cons.prems x by (cases k) auto
    have upd: "(done @ replicate k pad)[length done := i] = (done @ [i]) @ replicate k' pad"
      "(replicate (length done) (1::nat) @ replicate k 0)[length done := 1] =
        replicate (length (done @ [i])) 1 @ replicate k' 0"
      by (simp_all add: k list_update_append replicate_append_same)
    have "length (filter (\<lambda>(i, v). v \<noteq> 0) xs) \<le> k'" using Cons.prems x False k by simp
    note IH = Cons.IH[OF this, of "done @ [i]"]
    show ?thesis using False IH unfolding x normalize_loop.simps upd by (simp add: k)
  qed (use Cons x in simp)
qed simp

lemma normalize_row_ok:
  assumes "length ids = L" "length mk = L" "0 < valid_count mk"
  shows "normalize_row L (ids, mk) = Inr (normal_ids L ids mk, normal_mask L mk, valid_count mk)"
proof -
  have n: "length (filter (\<lambda>(i, v). v \<noteq> 0) (zip ids mk)) = valid_count mk"
    using valid_ids_length[of ids mk] assms by (simp add: valid_ids_def)
  have le: "valid_count mk \<le> L" using valid_count_le[of mk] assms by simp
  have "normalize_loop (zip ids mk) (replicate L (pad_id_of ids mk)) (replicate L 0) 0 =
    Inr (normal_ids L ids mk, normal_mask L mk, valid_count mk)"
    using normalize_loop_append[of "zip ids mk" L "[]" "pad_id_of ids mk"] n le
    by (simp add: valid_ids_def normal_ids_def normal_mask_def)
  then show ?thesis using assms le by (simp add: normalize_row_def Let_def)
qed

lemma right_padded_ones: "attention_mask_is_right_padded (replicate n (Suc 0) @ replicate k 0)"
  unfolding attention_mask_is_right_padded_def
proof (induction n)
  case 0
  have "right_padded_loop b (replicate k 0)" for b by (induction k arbitrary: b) auto
  then show ?case by simp
qed simp

lemma normalize_row_Inr:
  assumes "normalize_row L (ids, mk) = Inr (i', m', n)"
  shows "length ids = L \<and> length mk = L \<and> 0 < valid_count mk"
  using assms by (auto simp: normalize_row_def Let_def)

lemma normalize_batch_ok:
  assumes "input_ids \<noteq> []" "length attention_mask = length input_ids"
    and "\<And>i. i < length input_ids \<Longrightarrow> length (input_ids ! i) = L \<and> length (attention_mask ! i) = L \<and>
      0 < valid_count (attention_mask ! i)"
  shows "normalize_batch_for_paged_prefill input_ids attention_mask =
    Inr (map (\<lambda>(ids, mk). normal_ids L ids mk) (zip input_ids attention_mask),
         map (normal_mask L) attention_mask, map valid_count attention_mask)"
proof -
  let ?g = "\<lambda>(ids, mk). (normal_ids L ids mk, normal_mask L mk, valid_count mk)"
  have L: "length (input_ids ! 0) = L" using assms(1,3) by simp
  have "traverse (normalize_row L) (zip input_ids attention_mask) = Inr (map ?g (zip input_ids attention_mask))"
  proof (rule traverse_all_ok)
    fix x assume "x \<in> set (zip input_ids attention_mask)"
    then obtain i where i: "i < length input_ids" "x = (input_ids ! i, attention_mask ! i)"
      using assms(2) by (auto simp: set_zip)
    show "normalize_row L x = Inr (?g x)"
      unfolding i(2) using assms(3)[OF i(1)] by (simp add: normalize_row_ok)
  qed
  moreover have "map (fst \<circ> snd) (map ?g (zip input_ids attention_mask)) = map (normal_mask L) attention_mask"
    "map (snd \<circ> snd) (map ?g (zip input_ids attention_mask)) = map valid_count attention_mask"
    "map fst (map ?g (zip input_ids attention_mask)) =
      map (\<lambda>(ids, mk). normal_ids L ids mk) (zip input_ids attention_mask)"
    using assms(2) by (auto intro!: nth_equalityI)
  ultimately show ?thesis using assms(1,2) L
    by (simp add: normalize_batch_for_paged_prefill_def Let_def)
qed

section \<open>Gathering and positions\<close>

lemma gather_index_ok:
  assumes "0 < n" "n \<le> L" "(i + 1) * L \<le> u32_max"
  shows "gather_index L (i, int n) = Inr (i * L + (n - 1))"
proof -
  have "i * L + (n - 1) \<le> u32_max" using assms by simp
  moreover from this have "i * L + (n - 1) \<le> usize_max" by (simp add: max_values)
  moreover from this have "i * L \<le> usize_max" by simp
  ultimately show ?thesis using assms
    by (simp add: gather_index_def checked_mul_def checked_add_def)
qed

lemma gather_index_range:
  assumes "gather_index L (i, z) = Inr k"
  shows "0 < z \<and> nat z \<le> L \<and> k = i * L + (nat z - 1)"
  using assms by (auto simp: gather_index_def Let_def checked_mul_def checked_add_def split: if_splits)

lemma position_ids_ok:
  assumes "pls \<noteq> []" "\<And>p. p \<in> set pls \<Longrightarrow> p + step \<le> i64_max" "step \<le> i64_max"
  shows "position_ids_for_step (map int pls) step = Inr (map (\<lambda>p. int (p + step)) pls)"
proof -
  have "traverse (\<lambda>base. if i64_ok (base + int step) then Inr (base + int step)
        else Inl (Err ''position id overflow at batch index'')) (map int pls) =
      Inr (map (\<lambda>base. base + int step) (map int pls))"
  proof (rule traverse_all_ok)
    fix x assume "x \<in> set (map int pls)"
    then obtain p where "p \<in> set pls" "x = int p" by auto
    then have "x + int step = int (p + step)" "p + step \<le> i64_max" using assms(2) by auto
    then have "i64_ok (x + int step)" by (simp only: i64_ok_def of_nat_le_iff) simp
    then show "(if i64_ok (x + int step) then Inr (x + int step)
        else Inl (Err ''position id overflow at batch index'')) = Inr (x + int step)" by simp
  qed
  then show ?thesis using assms(1,3) by (simp add: position_ids_for_step_def i64_try_def Let_def comp_def)
qed

section \<open>Properties\<close>

text \<open>C8: Normalising a batch moves the valid tokens of every row to the front, in order, pads on
  the right, and marks exactly them in the mask; the result is right-padded, has the valid
  counts as prompt lengths, and normalising it again changes nothing.\<close>
theorem normalize_is_right_padding:
  assumes "input_ids \<noteq> []" "length attention_mask = length input_ids"
    and "\<And>i. i < length input_ids \<Longrightarrow> length (input_ids ! i) = L \<and> length (attention_mask ! i) = L \<and>
      0 < valid_count (attention_mask ! i)"
  shows "\<exists>ids masks lens. normalize_batch_for_paged_prefill input_ids attention_mask = Inr (ids, masks, lens) \<and>
    lens = map valid_count attention_mask \<and> attention_masks_are_right_padded masks \<and>
    (\<forall>i < length input_ids. length (ids ! i) = L \<and> length (masks ! i) = L \<and>
       valid_count (masks ! i) = valid_count (attention_mask ! i) \<and>
       take (lens ! i) (ids ! i) = valid_ids (input_ids ! i) (attention_mask ! i)) \<and>
    normalize_batch_for_paged_prefill ids masks = Inr (ids, masks, lens)"
proof -
  let ?ids = "map (\<lambda>(ids, mk). normal_ids L ids mk) (zip input_ids attention_mask)"
  let ?masks = "map (normal_mask L) attention_mask"
  note run = normalize_batch_ok[OF assms]
  have row: "?ids ! i = normal_ids L (input_ids ! i) (attention_mask ! i)"
    "?masks ! i = normal_mask L (attention_mask ! i)" if "i < length input_ids" for i
    using that assms(2) by auto
  have nr: "length (input_ids ! i) = L" "length (attention_mask ! i) = L" if "i < length input_ids" for i
    using assms(3)[OF that] by auto
  have rp: "attention_masks_are_right_padded ?masks"
    using right_padded_ones by (auto simp: attention_masks_are_right_padded_def normal_mask_def)
  have len: "?ids \<noteq> []" "length ?masks = length ?ids" "length ?ids = length input_ids" using assms(1,2) by auto
  have ok: "length (?ids ! i) = L \<and> length (?masks ! i) = L \<and> 0 < valid_count (?masks ! i)" if "i < length ?ids" for i
  proof -
    have i: "i < length input_ids" using that len(3) by simp
    show ?thesis unfolding row[OF i] using normal_row(1,2,3)[OF nr[OF i]] assms(3)[OF i] by simp
  qed
  have "map (\<lambda>(ids, mk). normal_ids L ids mk) (zip ?ids ?masks) = ?ids"
  proof (rule nth_equalityI)
    fix i assume "i < length (map (\<lambda>(ids, mk). normal_ids L ids mk) (zip ?ids ?masks))"
    then have i: "i < length input_ids" by simp
    then have "map (\<lambda>(ids, mk). normal_ids L ids mk) (zip ?ids ?masks) ! i = normal_ids L (?ids ! i) (?masks ! i)"
      using len by simp
    then show "map (\<lambda>(ids, mk). normal_ids L ids mk) (zip ?ids ?masks) ! i = ?ids ! i"
      unfolding row[OF i] normal_row(6)[OF nr[OF i]] .
  qed (use assms(2) in simp)
  moreover have "map (normal_mask L) ?masks = ?masks" "map valid_count ?masks = map valid_count attention_mask"
    by (simp_all add: normal_mask_def)
  ultimately have again: "normalize_batch_for_paged_prefill ?ids ?masks = Inr (?ids, ?masks, map valid_count attention_mask)"
    using normalize_batch_ok[OF len(1,2) ok] by simp
  have "length (?ids ! i) = L \<and> length (?masks ! i) = L \<and> valid_count (?masks ! i) = valid_count (attention_mask ! i) \<and>
      take (map valid_count attention_mask ! i) (?ids ! i) = valid_ids (input_ids ! i) (attention_mask ! i)"
    if "i < length input_ids" for i
    unfolding row[OF that] using normal_row(1-4)[OF nr[OF that]] that assms(2) by simp
  then show ?thesis using run again rp by blast
qed

theorem normalize_is_right_padding_witness:
  "\<exists>ids masks lens. normalize_batch_for_paged_prefill [[9, 1, 2], [3, 4, 5]] [[0, 1, 1], [1, 1, 1]] = Inr (ids, masks, lens) \<and>
    lens = [2, 3] \<and> attention_masks_are_right_padded masks \<and> ids = [[1, 2, 9], [3, 4, 5]]"
proof -
  have e: "normalize_batch_for_paged_prefill [[9, 1, 2], [3, 4, 5]] [[0, 1, 1], [1, 1, 1]] =
    Inr ([[1, 2, 9], [3, 4, 5]], [[1, 1, 0], [1, 1, 1]], [2, 3])" by code_simp
  have rows: "length ([[9, 1, 2], [3, 4, 5]] ! i) = 3 \<and> length ([[0, 1, 1], [1, 1, 1]] ! i) = 3 \<and>
      0 < valid_count ([[0, 1, 1], [1, 1, 1]] ! i)"
    if "i < length [[9, 1, 2], [3, 4, 5::nat]]" for i
    using that by (auto simp: less_Suc_eq valid_count_def)
  show ?thesis
    using normalize_is_right_padding[of "[[9, 1, 2], [3, 4, 5]]" "[[0, 1, 1], [1, 1, 1]]", OF _ _ rows] e
    by simp
qed

end
