(* ===== verification/BatchEngine.thy ===== *)
theory BatchEngine
  imports CacheRuntime PromptBatch
begin

text \<open>
  \<^verbatim>\<open>vasr-models/src/model/paged_batch_engine.rs\<close>: prefill of a batch, one greedy decode
  step, the loop of \<^verbatim>\<open>paged_batch_run\<close>, and the decode step over independent slots that the
  continuous scheduler uses.

  The neural network is a parameter, the record \<^verbatim>\<open>engine\<close>: \<^verbatim>\<open>en_prefill\<close> and
  \<^verbatim>\<open>en_decode\<close> return the rows of the logits, \<^verbatim>\<open>en_argmax\<close> picks the token of a row.
  The state of a method is the runtime together with its own \<^verbatim>\<open>&mut\<close> argument; the
  vectors of \<^verbatim>\<open>PagedBatchState\<close> stay parallel lists.  The loop of \<^verbatim>\<open>paged_batch_run\<close>
  is a \<^verbatim>\<open>partial_function\<close> and \<^verbatim>\<open>run_loop_returns\<close> shows that it ends.
\<close>

section \<open>State\<close>

record batch_config =
  bc_max_new_tokens :: nat
  bc_eos_token_ids :: "nat list"
  bc_request_id_base :: nat

record batch_state =
  bs_batch :: nat
  bs_seq_len :: nat
  bs_prompt_lens :: "nat list"
  bs_prompt_lens_i64 :: "int list"
  bs_request_ids :: "nat list"
  bs_block_tables :: "nat list list"
  bs_next_ids :: "nat list"
  bs_generated :: "nat list list"
  bs_finished :: "bool list"
  bs_decode_step :: nat
  bs_max_new_tokens :: nat
  bs_eos_token_ids :: "nat list"

record decode_slot =
  ds_request_id :: nat
  ds_prompt_len :: nat
  ds_prompt_len_i64 :: int
  ds_block_table :: "nat list"
  ds_next_id :: nat
  ds_generated :: "nat list"
  ds_finished :: bool
  ds_decode_step :: nat

record ('g, 'l) engine =
  en_cuda_graph :: bool
  en_is_cuda :: bool
  en_packed_prefill :: bool
  en_audio_token :: nat
  en_first_key :: "(graph_key \<Rightarrow> 'g decode_graph option) \<Rightarrow> graph_key"
  en_capture :: "decode_batch \<Rightarrow> ('g \<times> 'l list) result"
  en_replay :: "'g \<Rightarrow> decode_batch \<Rightarrow> 'l list result"
  en_prefill :: "bool \<Rightarrow> nat list \<Rightarrow> nat \<Rightarrow> input_metadata \<Rightarrow> 'l list result"
  en_decode :: "nat list \<Rightarrow> int list \<Rightarrow> input_metadata \<Rightarrow> 'l list result"
  en_argmax :: "'l \<Rightarrow> nat result"

definition all_finished :: "batch_state \<Rightarrow> bool" where
  "all_finished st \<longleftrightarrow> (\<forall>d\<in>set (bs_finished st). d)"

definition active_indices :: "batch_state \<Rightarrow> nat list" where
  "active_indices st = filter (\<lambda>i. \<not> bs_finished st ! i) [0..<bs_batch st]"

definition from_prefill_state :: "batch_state \<Rightarrow> nat \<Rightarrow> decode_slot result" where
  "from_prefill_state st row =
     rbind (ok_or (get (bs_request_ids st) row) (Err ''missing request_id for row'')) (\<lambda>r.
     rbind (ok_or (get (bs_prompt_lens st) row) (Err ''missing prompt_len for row'')) (\<lambda>pl.
     rbind (ok_or (get (bs_prompt_lens_i64 st) row) (Err ''missing prompt_len_i64 for row'')) (\<lambda>pl64.
     rbind (ok_or (get (bs_block_tables st) row) (Err ''missing block table for row'')) (\<lambda>tbl.
     rbind (ok_or (get (bs_next_ids st) row) (Err ''missing next_id for row'')) (\<lambda>nid.
       Inr \<lparr>ds_request_id = r, ds_prompt_len = pl, ds_prompt_len_i64 = pl64, ds_block_table = tbl,
            ds_next_id = nid, ds_generated = [],
            ds_finished = (case get (bs_finished st) row of None \<Rightarrow> False | Some b \<Rightarrow> b),
            ds_decode_step = 0\<rparr>)))))"

section \<open>Calls on the runtime\<close>

definition on_rt :: "('r, 'a) prog \<Rightarrow> ('r \<times> 's, 'a) prog" where
  "on_rt p = (\<lambda>(rt, st). case p rt of (res, rt') \<Rightarrow> (res, (rt', st)))"

definition manager_op :: "(block_manager \<Rightarrow> 'a result \<times> block_manager) \<Rightarrow> ('g cache_runtime, 'a) prog" where
  "manager_op f = (\<lambda>rt. case f (rt_manager rt) of (res, m') \<Rightarrow> (res, rt\<lparr>rt_manager := m'\<rparr>))"

definition manager_trim :: "nat \<Rightarrow> nat \<Rightarrow> ('g cache_runtime, unit) prog" where
  "manager_trim r n = modifyR (\<lambda>rt.
     rbind (trim_request_to_num_tokens (rt_manager rt) r n) (\<lambda>m'. Inr (rt\<lparr>rt_manager := m'\<rparr>)))"

definition paged_batch_free_slots :: "nat list \<Rightarrow> 'g cache_runtime \<Rightarrow> 'g cache_runtime" where
  "paged_batch_free_slots rs rt = rt\<lparr>rt_manager := free_many (rt_manager rt) rs\<rparr>"

fun rows_of :: "nat \<Rightarrow> nat \<Rightarrow> 'a list \<Rightarrow> 'a list list" where
  "rows_of 0 cols xs = []"
| "rows_of (Suc n) cols xs = take cols xs # rows_of n cols (drop cols xs)"

definition decode_batch_of :: "nat list \<Rightarrow> int list \<Rightarrow> input_metadata \<Rightarrow> decode_batch" where
  "decode_batch_of ids pos md =
     (let cols = shape (block_tables md) ! 1 in
      \<lparr>db_ids = ids, db_positions = [pos, pos, pos], db_slots = host (slot_mapping md),
       db_context_lens = host (context_lens md), db_cols = cols,
       db_block_tables = rows_of (shape (block_tables md) ! 0) cols (host (block_tables md))\<rparr>)"

definition paged_batch_decode_forward ::
  "('g, 'l) engine \<Rightarrow> nat list \<Rightarrow> int list \<Rightarrow> input_metadata \<Rightarrow> ('g cache_runtime, 'l list) prog" where
  "paged_batch_decode_forward en ids pos md = (\<lambda>rt.
     let b = decode_batch_of ids pos md; eager = en_decode en ids pos md in
     if \<not> en_cuda_graph en then (eager, rt)
     else (case cuda_decode_graph_enabled_for rt 1 b of
        Inl e \<Rightarrow> (Inl e, rt)
      | Inr enabled \<Rightarrow>
          if \<not> enabled then (eager, rt)
          else (case cuda_decode_graph (en_first_key en) (en_capture en) (en_replay en) (en_is_cuda en) rt 1 b of
             (Inr logits, rt') \<Rightarrow> (Inr logits, rt')
           | (Inl e, rt') \<Rightarrow>
               (case disable_cuda_decode_graph_for rt' 1 b of
                  Inl e' \<Rightarrow> (eager, rt')
                | Inr rt'' \<Rightarrow> (eager, rt'')))))"

text \<open>\<^verbatim>\<open>generation.rs\<close>: one token per row of the logits.\<close>

definition argmax_token_ids_from_logits :: "('g, 'l) engine \<Rightarrow> 'l list \<Rightarrow> nat \<Rightarrow> nat list result" where
  "argmax_token_ids_from_logits en logits batch =
     (if batch = 1
      then rbind (ok_or (get logits 0) (Err ''index out of range'')) (\<lambda>row.
           rbind (en_argmax en row) (\<lambda>t. Inr [t]))
      else rbind (traverse (en_argmax en) logits) (\<lambda>next.
           if length next \<noteq> batch then Inl (Err ''internal error: batch argmax mismatch'') else Inr next))"

lemma argmax_length: "argmax_token_ids_from_logits en logits n = Inr ids \<Longrightarrow> length ids = n"
  by (auto simp: argmax_token_ids_from_logits_def split: if_splits)

section \<open>Prefill\<close>

fun packed_gather_loop :: "nat \<Rightarrow> nat \<Rightarrow> int list \<Rightarrow> (nat list \<times> nat) result" where
  "packed_gather_loop total_tokens offset [] = Inr ([], offset)"
| "packed_gather_loop total_tokens offset (len_i64 # lens) =
     rbind (ensure (0 < len_i64) (Err ''prompt length must be > 0 at batch index'')) (\<lambda>_.
     let len = nat len_i64 in
     rbind (ok_or (checked_add offset (len - 1)) (Err ''packed gather index overflow at batch index'')) (\<lambda>idx.
     rbind (ensure (idx < total_tokens) (Err ''packed prompt length exceeds logits'')) (\<lambda>_.
     rbind (u32_try ''packed gather index overflows u32 at batch index'' idx) (\<lambda>idx32.
     rbind (ok_or (checked_add offset len) (Err ''packed prompt offset overflow at batch index'')) (\<lambda>offset'.
     rbind (packed_gather_loop total_tokens offset' lens) (\<lambda>(idxs, final).
       Inr (idx32 # idxs, final)))))))"

definition gather_last_logits_for_packed_prompt_lens :: "'l list \<Rightarrow> int list \<Rightarrow> 'l list result" where
  "gather_last_logits_for_packed_prompt_lens logits prompt_lens =
     rbind (packed_gather_loop (length logits) 0 prompt_lens) (\<lambda>(idxs, offset).
     rbind (ensure (offset = length logits) (Err ''packed prompt total mismatch'')) (\<lambda>_.
       traverse (\<lambda>k. ok_or (get logits k) (Err ''index_select out of range'')) idxs))"

definition checked_rows :: "string \<Rightarrow> nat \<Rightarrow> nat list list \<Rightarrow> unit result" where
  "checked_rows msg seq_len rows = ensure (\<forall>row\<in>set rows. length row = seq_len) (Err msg)"

definition i64_lens :: "nat list option \<Rightarrow> int list result" where
  "i64_lens qls = rbind (ok_or qls (Err ''prefill metadata missing query_lens''))
     (traverse (i64_try ''query_len overflows i64''))"

text \<open>The rows that go into the forward pass: normalised unless the batch is right-padded.\<close>

definition prefill_rows ::
  "nat list list \<Rightarrow> nat list list \<Rightarrow> (nat list list \<times> nat list list \<times> nat list) result" where
  "prefill_rows input_ids attention_mask =
     (if attention_masks_are_right_padded attention_mask
      then Inr (input_ids, attention_mask, map valid_count attention_mask)
      else normalize_batch_for_paged_prefill input_ids attention_mask)"

definition audio_count :: "('g, 'l) engine \<Rightarrow> bool \<Rightarrow> nat list list \<Rightarrow> nat result" where
  "audio_count en has_audio rows =
     (if has_audio then count_audio_placeholders_batch rows (en_audio_token en) else Inr 0)"

definition packed_audio_offset :: "('g, 'l) engine \<Rightarrow> nat list list \<Rightarrow> nat list \<Rightarrow> nat" where
  "packed_audio_offset en id_rows lens =
     fold (\<lambda>(row, len) acc. saturating_add acc (count_audio_placeholders (take len row) (en_audio_token en)))
       (zip id_rows lens) 0"

definition packed_forward ::
  "('g, 'l) engine \<Rightarrow> bool \<Rightarrow> nat list list \<Rightarrow> nat list \<Rightarrow> nat list list \<Rightarrow> nat \<Rightarrow> paged_kv_cache \<Rightarrow>
   ('l list \<times> int list) result" where
  "packed_forward en has_audio id_rows lens tables audio_placeholders cache =
     rbind (ensure (\<not> (has_audio \<and> packed_audio_offset en id_rows lens \<noteq> audio_placeholders))
             (Err ''packed prefill audio token mismatch'')) (\<lambda>_.
     rbind (input_metadata_from_query_lens cache tables lens) (\<lambda>md.
     rbind (en_prefill en True (concat (map (\<lambda>(row, len). take len row) (zip id_rows lens)))
              audio_placeholders md) (\<lambda>logits.
     rbind (i64_lens (query_lens md)) (\<lambda>lens64. Inr (logits, lens64)))))"

definition masked_forward ::
  "('g, 'l) engine \<Rightarrow> nat list list \<Rightarrow> nat list list \<Rightarrow> nat list list \<Rightarrow> nat \<Rightarrow> paged_kv_cache \<Rightarrow>
   ('l list \<times> int list) result" where
  "masked_forward en id_rows mask_rows tables audio_placeholders cache =
     rbind (input_metadata_from_attention_masks cache tables mask_rows) (\<lambda>md.
     rbind (en_prefill en False (concat id_rows) audio_placeholders md) (\<lambda>logits.
     rbind (i64_lens (query_lens md)) (\<lambda>lens64. Inr (logits, lens64))))"

definition trim_finished :: "nat list \<Rightarrow> nat list \<Rightarrow> bool list \<Rightarrow> nat \<Rightarrow> ('g cache_runtime, unit) prog" where
  "trim_finished rs lens fin i =
     bindP (liftR (index_r fin i)) (\<lambda>d.
       if d then bindP (liftR (index_r lens i)) (\<lambda>n. manager_trim (rs ! i) n) else ret ())"

definition paged_batch_prefill ::
  "('g, 'l) engine \<Rightarrow> nat list list \<Rightarrow> nat list list \<Rightarrow> bool \<Rightarrow> batch_config \<Rightarrow>
   ('g cache_runtime, batch_state) prog" where
  "paged_batch_prefill en input_ids attention_mask has_audio config =
     (let batch = length input_ids in
     bindP (liftR (ensure (batch \<noteq> 0) (Err ''paged batch prefill requires at least one row''))) (\<lambda>_.
     bindP (liftR (ensure (bc_eos_token_ids config \<noteq> []) (Err ''eos_token_ids is empty''))) (\<lambda>_.
     let seq_len = length (input_ids ! 0) in
     bindP (liftR (ensure (seq_len \<noteq> 0) (Err ''input_ids rows are empty''))) (\<lambda>_.
     bindP (liftR (checked_rows ''paged batch input_ids length mismatch'' seq_len input_ids)) (\<lambda>_.
     bindP (liftR (checked_rows ''paged batch attention_mask length mismatch'' seq_len attention_mask)) (\<lambda>_.
     bindP (liftR (prefill_rows input_ids attention_mask)) (\<lambda>(id_rows, mask_rows, lens).
     bindP (liftR (ensure (batch \<le> length mask_rows) (Panic ''index out of bounds''))) (\<lambda>_.
     bindP (liftR (audio_count en has_audio id_rows)) (\<lambda>audio_placeholders.
     let rs = map (\<lambda>i. saturating_add (bc_request_id_base config) i) [0..<batch] in
     bindP (forP [0..<batch] (\<lambda>i. manager_op (\<lambda>m. allocate_slots m (rs ! i) (lens ! i)))) (\<lambda>_.
     bindP (getsR (\<lambda>rt. runtime_block_tables_for rt rs)) (\<lambda>tables.
     let packed = en_is_cuda en \<and> en_packed_prefill en in
     bindP (getsR (\<lambda>rt.
         if packed then packed_forward en has_audio id_rows lens tables audio_placeholders (rt_cache rt)
         else masked_forward en id_rows mask_rows tables audio_placeholders (rt_cache rt))) (\<lambda>(logits, lens64).
     bindP (liftR (if packed then gather_last_logits_for_packed_prompt_lens logits lens64
                   else gather_last_logits_for_prompt_lens batch seq_len logits lens64)) (\<lambda>last_logits.
     bindP (liftR (argmax_token_ids_from_logits en last_logits batch)) (\<lambda>next_ids.
     let fin = map (\<lambda>t. t \<in> set (bc_eos_token_ids config)) next_ids in
     bindP (forP [0..<batch] (trim_finished rs lens fin)) (\<lambda>_.
       ret \<lparr>bs_batch = batch, bs_seq_len = seq_len, bs_prompt_lens = lens, bs_prompt_lens_i64 = lens64,
            bs_request_ids = rs, bs_block_tables = tables, bs_next_ids = next_ids,
            bs_generated = replicate batch [], bs_finished = fin, bs_decode_step = 0,
            bs_max_new_tokens = bc_max_new_tokens config,
            bs_eos_token_ids = bc_eos_token_ids config\<rparr>)))))))))))))))"

definition paged_batch_prefill_row ::
  "('g, 'l) engine \<Rightarrow> nat list \<Rightarrow> nat list \<Rightarrow> bool \<Rightarrow> nat \<Rightarrow> nat \<Rightarrow> nat list \<Rightarrow>
   ('g cache_runtime, decode_slot) prog" where
  "paged_batch_prefill_row en ids mk has_audio r max_new eos =
     bindP (paged_batch_prefill en [ids] [mk] has_audio
              \<lparr>bc_max_new_tokens = max_new, bc_eos_token_ids = eos, bc_request_id_base = r\<rparr>)
       (\<lambda>st. liftR (from_prefill_state st 0))"

section \<open>One decode step of a batch\<close>

definition alloc_row :: "nat \<Rightarrow> nat \<Rightarrow> ('g cache_runtime \<times> batch_state, unit) prog" where
  "alloc_row step i =
     bindP (getsR (\<lambda>(rt, st). rbind (index_r (bs_prompt_lens st) i) (\<lambda>pl.
              ok_or (Option.bind (checked_add pl step) (\<lambda>n. checked_add n 1))
                (Err ''paged batch token count overflow'')))) (\<lambda>num_tokens.
     bindP (getsR (\<lambda>(rt, st). index_r (bs_request_ids st) i)) (\<lambda>r.
       on_rt (manager_op (\<lambda>m. allocate_slots m r num_tokens))))"

definition set_finished :: "nat \<Rightarrow> batch_state \<Rightarrow> batch_state" where
  "set_finished i st = st\<lparr>bs_finished := (bs_finished st)[i := True]\<rparr>"

definition push_token :: "nat \<Rightarrow> nat \<Rightarrow> batch_state \<Rightarrow> batch_state" where
  "push_token i tok st = st\<lparr>bs_generated := (bs_generated st)[i := bs_generated st ! i @ [tok]]\<rparr>"

definition emit_row :: "nat \<Rightarrow> ('g cache_runtime \<times> batch_state, unit) prog" where
  "emit_row i =
     bindP (getsR (\<lambda>(rt, st). ok_or (get (bs_next_ids st) i)
              (Err ''next token id missing for batch row''))) (\<lambda>tok.
     bindP (gets snd) (\<lambda>st.
       if tok \<in> set (bs_eos_token_ids st)
       then bindP (modifyP (\<lambda>(rt, st). (rt, set_finished i st))) (\<lambda>_.
              on_rt (manager_trim (bs_request_ids st ! i)
                       (bs_prompt_lens st ! i + length (bs_generated st ! i))))
       else modifyP (\<lambda>(rt, st). (rt, push_token i tok st))))"

definition bump_step :: "('g cache_runtime \<times> batch_state, bool) prog" where
  "bump_step =
     bindP (modifyP (\<lambda>(rt, st). (rt, st\<lparr>bs_decode_step := saturating_add (bs_decode_step st) 1\<rparr>)))
       (\<lambda>_. gets (\<lambda>(rt, st). \<not> all_finished st))"

definition last_token :: "batch_state \<Rightarrow> nat \<Rightarrow> nat result" where
  "last_token st i =
     ok_or (Option.bind (get (bs_generated st) i) (\<lambda>g. if g = [] then None else Some (last g)))
       (Err ''missing generated token for row'')"

definition set_next_id :: "nat list \<Rightarrow> nat \<times> nat \<Rightarrow> ('g cache_runtime \<times> batch_state, unit) prog" where
  "set_next_id next_active = (\<lambda>(slot, row).
     bindP (liftR (ok_or (get next_active slot) (Err ''missing argmax for active slot''))) (\<lambda>tok.
       modifyP (\<lambda>(rt, st). (rt, st\<lparr>bs_next_ids := (bs_next_ids st)[row := tok]\<rparr>))))"

definition forward_active ::
  "('g, 'l) engine \<Rightarrow> nat \<Rightarrow> nat list \<Rightarrow> ('g cache_runtime \<times> batch_state, bool) prog" where
  "forward_active en step active =
     bindP (getsR (\<lambda>(rt, st). traverse (last_token st) active)) (\<lambda>tokens_in.
     bindP (getsR (\<lambda>(rt, st). rbind (traverse (index_r (bs_prompt_lens_i64 st)) active)
              (\<lambda>pls. position_ids_for_step pls step))) (\<lambda>pos.
     bindP (getsR (\<lambda>(rt, st). traverse (\<lambda>i. ok_or (get (bs_block_tables st) i)
              (Err ''missing block table for row'')) active)) (\<lambda>tables.
     bindP (getsR (\<lambda>(rt, st). rbind (traverse (index_r (bs_prompt_lens st)) active)
              (\<lambda>pls. decode_metadata_for_batch_step (en_cuda_graph en) (rt_cache rt) tables pls step))) (\<lambda>md.
     bindP (on_rt (paged_batch_decode_forward en tokens_in pos md)) (\<lambda>logits.
     bindP (liftR (argmax_token_ids_from_logits en logits (length active))) (\<lambda>next_active.
     bindP (forP (enumerate 0 active) (set_next_id next_active)) (\<lambda>_.
       bump_step)))))))"

definition decode_rows ::
  "('g, 'l) engine \<Rightarrow> nat \<Rightarrow> nat list \<Rightarrow> ('g cache_runtime \<times> batch_state, bool) prog" where
  "decode_rows en step forward =
     bindP (forP forward (alloc_row step)) (\<lambda>_.
     bindP (getsR (\<lambda>(rt, st). runtime_block_tables_for rt (bs_request_ids st))) (\<lambda>tables.
     bindP (modifyP (\<lambda>(rt, st). (rt, st\<lparr>bs_block_tables := tables\<rparr>))) (\<lambda>_.
     bindP (forP forward emit_row) (\<lambda>_.
     bindP (gets (\<lambda>(rt, st). filter (\<lambda>i. \<not> bs_finished st ! i) forward)) (\<lambda>active.
       if active = [] then bump_step else forward_active en step active)))))"

definition paged_batch_decode_step ::
  "('g, 'l) engine \<Rightarrow> ('g cache_runtime \<times> batch_state, bool) prog" where
  "paged_batch_decode_step en =
     bindP (gets snd) (\<lambda>st.
     if all_finished st then ret False
     else if bs_max_new_tokens st \<le> bs_decode_step st then ret False
     else let step = bs_decode_step st; forward = active_indices st in
       if forward = [] then bump_step else decode_rows en step forward)"

section \<open>The whole run\<close>

partial_function (option) run_loop ::
  "('g, 'l) engine \<Rightarrow> 'g cache_runtime \<times> batch_state \<Rightarrow>
   (unit result \<times> 'g cache_runtime \<times> batch_state) option" where
  "run_loop en s =
     (if bs_decode_step (snd s) < bs_max_new_tokens (snd s) \<and> \<not> all_finished (snd s)
      then (case paged_batch_decode_step en s of
              (Inl e, s') \<Rightarrow> Some (Inl e, s')
            | (Inr continued, s') \<Rightarrow> if continued then run_loop en s' else Some (Inr (), s'))
      else Some (Inr (), s))"

definition paged_batch_run ::
  "('g, 'l) engine \<Rightarrow> nat list list \<Rightarrow> nat list list \<Rightarrow> bool \<Rightarrow> batch_config \<Rightarrow> 'g cache_runtime \<Rightarrow>
   (nat list list result \<times> 'g cache_runtime) option" where
  "paged_batch_run en input_ids attention_mask has_audio config rt =
     (let batch = length input_ids in
      if batch = 0 then Some (Inr [], rt)
      else if bc_max_new_tokens config = 0 then Some (Inr (replicate batch []), rt)
      else
        let rt0 = paged_batch_free_slots
                    (map (\<lambda>i. saturating_add (bc_request_id_base config) i) [0..<batch]) rt
        in (case paged_batch_prefill en input_ids attention_mask has_audio config rt0 of
              (Inl e, rt1) \<Rightarrow> Some (Inl e, rt1)
            | (Inr st, rt1) \<Rightarrow>
                (case run_loop en (rt1, st) of
                   None \<Rightarrow> None
                 | Some (Inl e, rt2, st2) \<Rightarrow> Some (Inl e, rt2)
                 | Some (Inr _, rt2, st2) \<Rightarrow>
                     Some (Inr (bs_generated st2), paged_batch_free_slots (bs_request_ids st2) rt2))))"

section \<open>Decode steps of independent slots\<close>

definition alloc_slot ::
  "nat list \<Rightarrow> nat \<Rightarrow> ('g cache_runtime \<times> decode_slot list, nat list) prog" where
  "alloc_slot decodable i =
     bindP (getsR (\<lambda>(rt, slots). rbind (index_r slots i) (\<lambda>s.
              rbind (ok_or (Option.bind (checked_add (ds_prompt_len s) (length (ds_generated s)))
                              (\<lambda>n. checked_add n 1)) (Err ''paged slot token count overflow'')) (\<lambda>n.
                Inr (ds_request_id s, n))))) (\<lambda>(r, num_tokens).
     bindP (on_rt (manager_op (\<lambda>m. try_allocate_slots m r num_tokens))) (\<lambda>alloc_ok.
       ret (if alloc_ok then decodable @ [i] else decodable)))"

definition upd_slot :: "nat \<Rightarrow> (decode_slot \<Rightarrow> decode_slot) \<Rightarrow> decode_slot list \<Rightarrow> decode_slot list" where
  "upd_slot i f slots = slots[i := f (slots ! i)]"

definition emit_slot ::
  "nat list \<Rightarrow> nat list \<Rightarrow> nat \<Rightarrow> ('g cache_runtime \<times> decode_slot list, nat list) prog" where
  "emit_slot eos active i =
     bindP (getsR (\<lambda>(rt, slots). index_r slots i)) (\<lambda>s.
       if ds_next_id s \<in> set eos
       then bindP (modifyP (\<lambda>(rt, slots). (rt, upd_slot i (\<lambda>s. s\<lparr>ds_finished := True\<rparr>) slots))) (\<lambda>_.
            bindP (on_rt (manager_trim (ds_request_id s) (ds_prompt_len s + length (ds_generated s)))) (\<lambda>_.
              ret active))
       else bindP (modifyP (\<lambda>(rt, slots).
                (rt, upd_slot i (\<lambda>s. s\<lparr>ds_generated := ds_generated s @ [ds_next_id s]\<rparr>) slots))) (\<lambda>_.
              ret (active @ [i])))"

definition skip_step :: "nat \<Rightarrow> decode_slot \<Rightarrow> decode_slot" where
  "skip_step step s =
     (if \<not> ds_finished s \<and> ds_decode_step s = step
      then s\<lparr>ds_decode_step := saturating_add (ds_decode_step s) 1\<rparr> else s)"

definition advance_slot ::
  "nat list \<Rightarrow> nat \<times> nat \<Rightarrow> ('g cache_runtime \<times> decode_slot list, unit) prog" where
  "advance_slot next_active = (\<lambda>(slot_idx, i).
     bindP (liftR (ok_or (get next_active slot_idx) (Err ''missing argmax for slot index''))) (\<lambda>tok.
       modifyP (\<lambda>(rt, slots). (rt, upd_slot i (\<lambda>s. s\<lparr>ds_next_id := tok,
         ds_decode_step := saturating_add (ds_decode_step s) 1\<rparr>) slots))))"

definition forward_slots ::
  "('g, 'l) engine \<Rightarrow> nat \<Rightarrow> nat list \<Rightarrow> ('g cache_runtime \<times> decode_slot list, unit) prog" where
  "forward_slots en step active =
     bindP (getsR (\<lambda>(rt, slots). traverse (\<lambda>i. ok_or (if ds_generated (slots ! i) = [] then None
              else Some (last (ds_generated (slots ! i)))) (Err ''missing generated token for slot'')) active)) (\<lambda>tokens_in.
     bindP (getsR (\<lambda>(rt, slots). position_ids_for_step (map (\<lambda>i. ds_prompt_len_i64 (slots ! i)) active) step)) (\<lambda>pos.
     bindP (getsR (\<lambda>(rt, slots). runtime_block_tables_for rt (map (\<lambda>i. ds_request_id (slots ! i)) active))) (\<lambda>tables.
     bindP (getsR (\<lambda>(rt, slots). decode_metadata_for_batch_step (en_cuda_graph en) (rt_cache rt) tables
              (map (\<lambda>i. ds_prompt_len (slots ! i)) active) step)) (\<lambda>md.
     bindP (on_rt (paged_batch_decode_forward en tokens_in pos md)) (\<lambda>logits.
     bindP (liftR (argmax_token_ids_from_logits en logits (length active))) (\<lambda>next_active.
       forP (enumerate 0 active) (advance_slot next_active)))))))"

definition paged_batch_decode_slots_at_step ::
  "('g, 'l) engine \<Rightarrow> nat \<Rightarrow> nat \<Rightarrow> nat list \<Rightarrow> ('g cache_runtime \<times> decode_slot list, unit) prog" where
  "paged_batch_decode_slots_at_step en step max_new_tokens eos =
     bindP (gets snd) (\<lambda>slots.
     if slots = [] then ret ()
     else if max_new_tokens \<le> step
     then modifyP (\<lambda>(rt, slots). (rt, map (\<lambda>s. s\<lparr>ds_finished := True\<rparr>) slots))
     else
       bindP (liftR (ensure (eos \<noteq> []) (Err ''eos_token_ids is empty''))) (\<lambda>_.
       let forward = filter (\<lambda>i. \<not> ds_finished (slots ! i) \<and> ds_decode_step (slots ! i) = step) [0..<length slots] in
       if forward = [] then ret ()
       else
         bindP (foldP alloc_slot [] forward) (\<lambda>decodable.
         if decodable = [] then ret ()
         else
           bindP (foldP (emit_slot eos) [] decodable) (\<lambda>active.
           if active = [] then modifyP (\<lambda>(rt, slots). (rt, map (skip_step step) slots))
           else forward_slots en step active))))"

section \<open>Frame lemmas: what a call does to the allocator\<close>

text \<open>\<^verbatim>\<open>frame N F ids rt\<close>: the pool is consistent and requests outside \<open>ids\<close> still own
  what \<open>F\<close> says.\<close>

definition frame :: "nat \<Rightarrow> (nat \<Rightarrow> nat list) \<Rightarrow> nat list \<Rightarrow> 'g cache_runtime \<Rightarrow> bool" where
  "frame N F ids rt \<longleftrightarrow> bm_inv N (rt_manager rt) \<and>
     (\<forall>r. r \<notin> set ids \<longrightarrow> blocks_of (rt_manager rt) r = F r)"

lemma triple_manager_op:
  assumes "\<And>rt x m'. P rt \<Longrightarrow> f (rt_manager rt) = (Inr x, m') \<Longrightarrow> Q x (rt\<lparr>rt_manager := m'\<rparr>)"
    and "\<And>rt e m'. P rt \<Longrightarrow> f (rt_manager rt) = (Inl e, m') \<Longrightarrow> E (rt\<lparr>rt_manager := m'\<rparr>)"
  shows "triple P (manager_op f) Q E"
  using assms unfolding triple_def manager_op_def by (auto split: prod.splits sum.splits)

lemma triple_manager_trim:
  assumes "\<And>rt m'. P rt \<Longrightarrow> trim_request_to_num_tokens (rt_manager rt) r n = Inr m' \<Longrightarrow> Q () (rt\<lparr>rt_manager := m'\<rparr>)"
    and "\<And>rt. P rt \<Longrightarrow> E rt"
  shows "triple P (manager_trim r n) Q E"
  unfolding manager_trim_def by (rule triple_modifyR) (use assms in auto)

lemma triple_on_rt:
  assumes "\<And>st. triple (\<lambda>rt. P (rt, st)) p (\<lambda>x rt. Q x (rt, st)) (\<lambda>rt. E (rt, st))"
  shows "triple P (on_rt p) Q E"
  using assms unfolding triple_def on_rt_def by (fastforce split: prod.splits sum.splits)

lemma trim_covered:
  assumes "bm_inv N m" "trim_request_to_num_tokens m r n = Inr m'" "covered m r n"
  shows "covered m' r n"
proof -
  have "div_ceil n (bm_block_size m) \<le> length (blocks_of m r)"
    using assms(3) div_ceil_le_iff[OF bm_inv_pos[OF assms(1)]] by (simp add: covered_def)
  then show ?thesis using trim_blocks_of[OF assms(1,2)] div_ceil_upper[OF bm_inv_pos[OF assms(1)], of n]
    by (simp add: covered_def min_def)
qed

lemma trim_other:
  assumes "bm_inv N m" "trim_request_to_num_tokens m r n = Inr m'" "r' \<noteq> r"
  shows "blocks_of m' r' = blocks_of m r'" "covered m' r' k = covered m r' k"
  using trim_blocks_of[OF assms(1,2)] assms(3) by (simp_all add: covered_def)

lemma allocate_Inr:
  assumes "bm_inv N m" "allocate_slots m r n = (Inr u, m')"
  shows "bm_inv N m'" "covered m' r n" "\<And>r'. r' \<noteq> r \<Longrightarrow> blocks_of m' r' = blocks_of m r'"
    "\<And>r' k. covered m r' k \<Longrightarrow> covered m' r' k"
proof -
  have t: "try_allocate_slots m r n = (Inr True, m')"
    using assms(2) by (auto simp: allocate_slots_def split: prod.splits sum.splits if_splits)
  have i: "\<exists>N. bm_inv N m" using assms(1) by blast
  show "bm_inv N m'" using try_allocate_inv[OF assms(1), of r n] t by simp
  show "covered m' r n" using bm.grow_covers_iff[OF i t] by (simp add: covered_eq)
  show "blocks_of m' r' = blocks_of m r'" if "r' \<noteq> r" for r' using bm.grow_other[OF i t that] .
  show "covered m' r' k" if "covered m r' k" for r' k
    using bm.grow_keeps_covers[OF i t, of r' k] that by (simp add: covered_eq)
qed

lemma allocate_Inl:
  assumes "bm_inv N m" "allocate_slots m r n = (Inl e, m')"
  shows "m' = m"
  using assms try_allocate_eq[OF bm_inv_pos[OF assms(1)], of r n]
  by (auto simp: allocate_slots_def split: prod.splits sum.splits if_splits)

lemma insert_graph_keeps [simp]:
  "rt_manager (insert_cuda_decode_graph fk rt key g) = rt_manager rt"
  "rt_cache (insert_cuda_decode_graph fk rt key g) = rt_cache rt"
  by (simp_all add: insert_cuda_decode_graph_def Let_def)

lemma cuda_decode_graph_keeps:
  assumes "cuda_decode_graph fk cap rep ic rt q b = (res, rt')"
  shows "rt_manager rt' = rt_manager rt \<and> rt_cache rt' = rt_cache rt"
  using assms by (auto simp: cuda_decode_graph_def Let_def split: if_splits sum.splits option.splits prod.splits)

lemma decode_forward_keeps:
  assumes "paged_batch_decode_forward en ids pos md rt = (res, rt')"
  shows "rt_manager rt' = rt_manager rt \<and> rt_cache rt' = rt_cache rt"
  using assms cuda_decode_graph_keeps
  by (fastforce simp: paged_batch_decode_forward_def disable_cuda_decode_graph_for_def Let_def
      split: if_splits sum.splits prod.splits)

lemma triple_decode_forward:
  assumes "\<And>rt rt' x. P rt \<Longrightarrow> rt_manager rt' = rt_manager rt \<Longrightarrow> rt_cache rt' = rt_cache rt \<Longrightarrow> Q x rt' \<and> E rt'"
  shows "triple P (paged_batch_decode_forward en ids pos md) Q E"
  unfolding triple_def
proof (intro allI impI)
  fix rt assume P: "P rt"
  obtain res rt' where r: "paged_batch_decode_forward en ids pos md rt = (res, rt')" by fastforce
  note k = decode_forward_keeps[OF r]
  show "case paged_batch_decode_forward en ids pos md rt of
      (Inl e, s') \<Rightarrow> E s' | (Inr x, s') \<Rightarrow> Q x s'"
    using assms[OF P] k unfolding r by (cases res) auto
qed

section \<open>The invariant of a running batch\<close>

definition row_ok :: "block_manager \<Rightarrow> batch_state \<Rightarrow> nat \<Rightarrow> nat \<Rightarrow> bool" where
  "row_ok m st i k \<longleftrightarrow> length (bs_generated st ! i) \<le> k \<and>
     (\<not> bs_finished st ! i \<longrightarrow> length (bs_generated st ! i) = k) \<and>
     covered m (bs_request_ids st ! i) (bs_prompt_lens st ! i + length (bs_generated st ! i)) \<and>
     (\<forall>t\<in>set (bs_generated st ! i). t \<notin> set (bs_eos_token_ids st))"

definition batch_wf :: "batch_state \<Rightarrow> bool" where
  "batch_wf st \<longleftrightarrow> (let B = bs_batch st in
     length (bs_prompt_lens st) = B \<and> length (bs_request_ids st) = B \<and>
     length (bs_next_ids st) = B \<and> length (bs_generated st) = B \<and> length (bs_finished st) = B \<and>
     distinct (bs_request_ids st))"

text \<open>The parts of the state that a decode step never changes.\<close>

definition same_batch :: "batch_state \<Rightarrow> batch_state \<Rightarrow> bool" where
  "same_batch st0 st \<longleftrightarrow> bs_batch st = bs_batch st0 \<and> bs_prompt_lens st = bs_prompt_lens st0 \<and>
     bs_request_ids st = bs_request_ids st0 \<and> bs_eos_token_ids st = bs_eos_token_ids st0 \<and>
     bs_max_new_tokens st = bs_max_new_tokens st0"

definition engine_at ::
  "nat \<Rightarrow> (nat \<Rightarrow> nat list) \<Rightarrow> batch_state \<Rightarrow> nat \<Rightarrow> nat \<Rightarrow> 'g cache_runtime \<times> batch_state \<Rightarrow> bool" where
  "engine_at N F st0 step k = (\<lambda>(rt, st). frame N F (bs_request_ids st0) rt \<and> same_batch st0 st \<and>
     batch_wf st \<and> bs_decode_step st = step \<and> (\<forall>i < bs_batch st0. row_ok (rt_manager rt) st i k))"

lemma row_ok_mono_finished:
  "row_ok m st i k \<Longrightarrow> bs_finished st ! i \<Longrightarrow> k \<le> k' \<Longrightarrow> row_ok m st i k'"
  by (auto simp: row_ok_def)

lemma row_ok_cong:
  "bs_generated st' ! i = bs_generated st ! i \<Longrightarrow> bs_finished st' ! i = bs_finished st ! i \<Longrightarrow>
   bs_request_ids st' = bs_request_ids st \<Longrightarrow> bs_prompt_lens st' = bs_prompt_lens st \<Longrightarrow>
   bs_eos_token_ids st' = bs_eos_token_ids st \<Longrightarrow>
   (\<And>n. covered m (bs_request_ids st ! i) n \<Longrightarrow> covered m' (bs_request_ids st ! i) n) \<Longrightarrow>
   row_ok m st i k \<Longrightarrow> row_ok m' st' i k"
  by (simp add: row_ok_def)

definition step_err :: "nat \<Rightarrow> (nat \<Rightarrow> nat list) \<Rightarrow> batch_state \<Rightarrow> 'g cache_runtime \<times> batch_state \<Rightarrow> bool" where
  "step_err N F st0 = (\<lambda>(rt, st). frame N F (bs_request_ids st0) rt)"

lemma engine_at_err: "engine_at N F st0 step k s \<Longrightarrow> step_err N F st0 s"
  by (auto simp: engine_at_def step_err_def)

text \<open>Loop invariant of the allocation loop.\<close>

definition allocated ::
  "nat \<Rightarrow> (nat \<Rightarrow> nat list) \<Rightarrow> batch_state \<Rightarrow> nat \<Rightarrow> nat list \<Rightarrow> 'g cache_runtime \<times> batch_state \<Rightarrow> bool" where
  "allocated N F st0 step dn = (\<lambda>(rt, st). engine_at N F st0 step step (rt, st) \<and> st = st0 \<and>
     (\<forall>i\<in>set dn. covered (rt_manager rt) (bs_request_ids st0 ! i) (bs_prompt_lens st0 ! i + step + 1)))"

lemma alloc_row_triple:
  assumes "i < bs_batch st0"
  shows "triple (allocated N F st0 step dn) (alloc_row step i) (\<lambda>_. allocated N F st0 step (dn @ [i])) (step_err N F st0)"
  unfolding triple_def
proof (intro allI impI)
  fix s :: "'g cache_runtime \<times> batch_state"
  assume a: "allocated N F st0 step dn s"
  obtain rt where s: "s = (rt, st0)" using a by (cases s) (auto simp: allocated_def)
  have inv: "bm_inv N (rt_manager rt)" and wf: "batch_wf st0"
    and fr: "\<And>r. r \<notin> set (bs_request_ids st0) \<Longrightarrow> blocks_of (rt_manager rt) r = F r"
    using a by (auto simp: s allocated_def engine_at_def frame_def)
  have rid: "bs_request_ids st0 ! i \<in> set (bs_request_ids st0)" using wf assms by (simp add: batch_wf_def Let_def)
  have err: "step_err N F st0 (rt, st0)" using a engine_at_err by (auto simp: s allocated_def)
  obtain res m' where al: "allocate_slots (rt_manager rt) (bs_request_ids st0 ! i) (bs_prompt_lens st0 ! i + step + 1) = (res, m')"
    by fastforce
  have good: "allocated N F st0 step (dn @ [i]) (rt\<lparr>rt_manager := m'\<rparr>, st0)" if "res = Inr u" for u
  proof -
    note A = allocate_Inr[OF inv al[unfolded that]]
    have "row_ok m' st0 j step" if "j < bs_batch st0" for j
      using a that A(4) by (auto simp: s allocated_def engine_at_def intro: row_ok_cong[of st0 j st0 "rt_manager rt"])
    moreover have "blocks_of m' r = F r" if "r \<notin> set (bs_request_ids st0)" for r
      using A(3)[of r] fr[OF that] rid that by auto
    ultimately show ?thesis using a A(1,2,4) wf
      by (auto simp: s allocated_def engine_at_def frame_def same_batch_def)
  qed
  have bad: "step_err N F st0 (rt\<lparr>rt_manager := m'\<rparr>, st0)" if "res = Inl e" for e
    using allocate_Inl[OF inv al[unfolded that]] err by (simp add: step_err_def frame_def)
  show "case alloc_row step i s of (Inl e, s') \<Rightarrow> step_err N F st0 s'
      | (Inr x, s') \<Rightarrow> allocated N F st0 step (dn @ [i]) s'"
    using wf assms err al good bad
    by (auto simp: alloc_row_def s bindP_def getsR_def on_rt_def manager_op_def index_r_def get_def batch_wf_def
        Let_def checked_add_def split: sum.splits prod.splits if_splits)
qed

text \<open>Loop invariant of the loop that consumes the pending tokens.\<close>

definition emitted ::
  "nat \<Rightarrow> (nat \<Rightarrow> nat list) \<Rightarrow> batch_state \<Rightarrow> nat \<Rightarrow> nat list \<Rightarrow> nat list \<Rightarrow> 'g cache_runtime \<times> batch_state \<Rightarrow> bool" where
  "emitted N F st0 step fwd dn = (\<lambda>(rt, st). frame N F (bs_request_ids st0) rt \<and> same_batch st0 st \<and>
     batch_wf st \<and> bs_decode_step st = step \<and>
     (\<forall>i < bs_batch st0.
        if i \<in> set fwd \<and> i \<notin> set dn
        then row_ok (rt_manager rt) st i step \<and> \<not> bs_finished st ! i \<and>
             covered (rt_manager rt) (bs_request_ids st0 ! i) (bs_prompt_lens st0 ! i + step + 1)
        else row_ok (rt_manager rt) st i (step + 1)))"

lemma emitted_err: "emitted N F st0 step fwd dn s \<Longrightarrow> step_err N F st0 s"
  by (auto simp: emitted_def step_err_def)

lemma emit_push:
  assumes a: "emitted N F st0 step fwd dn (rt, st)" and i: "i < bs_batch st0" "i \<in> set fwd" "i \<notin> set dn"
    and tok: "tok \<notin> set (bs_eos_token_ids st)"
  shows "emitted N F st0 step fwd (dn @ [i]) (rt, push_token i tok st)"
proof -
  have wf: "batch_wf st" and same: "same_batch st0 st" using a by (auto simp: emitted_def)
  have len: "i < length (bs_generated st)" using wf same i(1) by (simp add: batch_wf_def same_batch_def Let_def)
  have ri: "row_ok (rt_manager rt) st i step" "\<not> bs_finished st ! i"
    "covered (rt_manager rt) (bs_request_ids st0 ! i) (bs_prompt_lens st0 ! i + step + 1)"
    using a i by (auto simp: emitted_def)
  have "row_ok (rt_manager rt) (push_token i tok st) i (step + 1)"
    using ri len tok same by (auto simp: row_ok_def push_token_def same_batch_def)
  moreover have "row_ok (rt_manager rt) (push_token i tok st) j k = row_ok (rt_manager rt) st j k"
    "bs_finished (push_token i tok st) ! j = bs_finished st ! j" if "j \<noteq> i" for j k
    using that by (simp_all add: row_ok_def push_token_def)
  moreover have "same_batch st0 (push_token i tok st)" "batch_wf (push_token i tok st)"
    "bs_decode_step (push_token i tok st) = bs_decode_step st"
    using wf same by (simp_all add: push_token_def same_batch_def batch_wf_def Let_def)
  ultimately show ?thesis using a unfolding emitted_def prod.case
    by (metis Un_iff list.set_intros(1) set_append set_ConsD empty_iff list.set(1))
qed

lemma emit_finish:
  assumes a: "emitted N F st0 step fwd dn (rt, st)" and i: "i < bs_batch st0" "i \<in> set fwd" "i \<notin> set dn"
    and m': "trim_request_to_num_tokens (rt_manager rt) (bs_request_ids st ! i)
        (bs_prompt_lens st ! i + length (bs_generated st ! i)) = Inr m'"
  shows "emitted N F st0 step fwd (dn @ [i]) (rt\<lparr>rt_manager := m'\<rparr>, set_finished i st)"
proof -
  have wf: "batch_wf st" and same: "same_batch st0 st" and inv: "bm_inv N (rt_manager rt)"
    using a by (auto simp: emitted_def frame_def)
  have len: "i < length (bs_finished st)" "i < length (bs_request_ids st)"
    using wf same i(1) by (simp_all add: batch_wf_def same_batch_def Let_def)
  have ri: "row_ok (rt_manager rt) st i step" using a i by (auto simp: emitted_def)
  have "row_ok m' (set_finished i st) i (step + 1)"
    using ri len trim_covered[OF inv m'] by (auto simp: row_ok_def set_finished_def)
  moreover have "row_ok m' (set_finished i st) j k = row_ok (rt_manager rt) st j k"
    "bs_finished (set_finished i st) ! j = bs_finished st ! j"
    "covered m' (bs_request_ids st0 ! j) n = covered (rt_manager rt) (bs_request_ids st0 ! j) n"
    if "j \<noteq> i" "j < bs_batch st0" for j k n
  proof -
    have "bs_request_ids st ! j \<noteq> bs_request_ids st ! i"
      using that len(2) wf same by (simp add: batch_wf_def same_batch_def Let_def nth_eq_iff_index_eq)
    then show "row_ok m' (set_finished i st) j k = row_ok (rt_manager rt) st j k"
      "bs_finished (set_finished i st) ! j = bs_finished st ! j"
      "covered m' (bs_request_ids st0 ! j) n = covered (rt_manager rt) (bs_request_ids st0 ! j) n"
      using trim_other[OF inv m'] that same by (auto simp: row_ok_def set_finished_def same_batch_def)
  qed
  moreover have "frame N F (bs_request_ids st0) (rt\<lparr>rt_manager := m'\<rparr>)"
    using a trim_inv[OF inv m'] trim_other(1)[OF inv m'] len(2) same
    by (auto simp: emitted_def frame_def same_batch_def) (metis nth_mem)
  moreover have "same_batch st0 (set_finished i st)" "batch_wf (set_finished i st)"
    "bs_decode_step (set_finished i st) = bs_decode_step st" "rt_manager (rt\<lparr>rt_manager := m'\<rparr>) = m'"
    using wf same by (simp_all add: set_finished_def same_batch_def batch_wf_def Let_def)
  ultimately show ?thesis using a unfolding emitted_def prod.case
    by (metis Un_iff list.set_intros(1) set_append set_ConsD empty_iff list.set(1))
qed

lemma emit_row_triple:
  assumes i: "i < bs_batch st0" "i \<in> set fwd" "i \<notin> set dn"
  shows "triple (emitted N F st0 step fwd dn) (emit_row i) (\<lambda>_. emitted N F st0 step fwd (dn @ [i])) (step_err N F st0)"
  unfolding triple_def
proof (intro allI impI)
  fix s :: "'g cache_runtime \<times> batch_state"
  assume a: "emitted N F st0 step fwd dn s"
  obtain rt st where s: "s = (rt, st)" by fastforce
  note err = emitted_err[OF a]
  show "case emit_row i s of (Inl e, s') \<Rightarrow> step_err N F st0 s'
      | (Inr x, s') \<Rightarrow> emitted N F st0 step fwd (dn @ [i]) s'"
  proof (cases "i < length (bs_next_ids st)")
    case False
    then show ?thesis using err by (simp add: emit_row_def bindP_def getsR_def s get_def)
  next
    case True
    show ?thesis
    proof (cases "bs_next_ids st ! i \<in> set (bs_eos_token_ids st)")
      case False
      then show ?thesis using True emit_push[OF a[unfolded s] i False]
        by (simp add: emit_row_def bindP_def getsR_def gets_def modifyP_def s get_def)
    next
      case eos: True
      have err2: "step_err N F st0 (rt, set_finished i st)" using err by (simp add: s step_err_def)
      show ?thesis
        using True eos err2 emit_finish[OF a[unfolded s] i]
        by (cases "trim_request_to_num_tokens (rt_manager rt) (bs_request_ids st ! i)
              (bs_prompt_lens st ! i + length (bs_generated st ! i))")
          (simp_all add: emit_row_def bindP_def getsR_def gets_def modifyP_def modifyR_def on_rt_def
            manager_trim_def s get_def set_finished_def)
    qed
  qed
qed

section \<open>A decode step preserves the invariant\<close>

text \<open>What a step leaves: every row advanced by one position or finished.\<close>

definition stepped ::
  "nat \<Rightarrow> (nat \<Rightarrow> nat list) \<Rightarrow> batch_state \<Rightarrow> nat \<Rightarrow> bool \<Rightarrow> 'g cache_runtime \<times> batch_state \<Rightarrow> bool" where
  "stepped N F st0 step cont = (\<lambda>(rt, st). engine_at N F st0 (step + 1) (step + 1) (rt, st) \<and>
     (cont \<longleftrightarrow> \<not> all_finished st))"

lemma bump_step_triple:
  assumes "step < usize_max"
  shows "triple (engine_at N F st0 step (step + 1)) bump_step (stepped N F st0 step) (step_err N F st0)"
  using assms
  by (auto simp: triple_def bump_step_def bindP_def modifyP_def gets_def stepped_def engine_at_def
      same_batch_def batch_wf_def Let_def saturating_add_def row_ok_def)

lemma engine_at_keep:
  assumes "engine_at N F st0 step k (rt, st)" "rt_manager rt' = rt_manager rt"
    "bs_generated st' = bs_generated st" "bs_finished st' = bs_finished st" "same_batch st st'"
    "bs_decode_step st' = bs_decode_step st" "length (bs_next_ids st') = length (bs_next_ids st)"
  shows "engine_at N F st0 step k (rt', st')"
  using assms by (auto simp: engine_at_def frame_def same_batch_def batch_wf_def Let_def row_ok_def)

lemma forward_active_triple:
  fixes en :: "('g, 'l) engine"
  assumes "step < usize_max"
  shows "triple (engine_at N F st0 step (step + 1)) (forward_active en step active)
    (stepped N F st0 step) (step_err N F st0)"
proof -
  let ?I = "engine_at N F st0 step (step + 1) :: 'g cache_runtime \<times> batch_state \<Rightarrow> bool"
  have fwd: "triple ?I (on_rt (paged_batch_decode_forward en ids pos md)) (\<lambda>_. ?I) (step_err N F st0)" for ids pos md
  proof (rule triple_on_rt, rule triple_decode_forward)
    fix st and rt rt' :: "'g cache_runtime"
    assume I: "?I (rt, st)" and k: "rt_manager rt' = rt_manager rt" "rt_cache rt' = rt_cache rt"
    have "?I (rt', st)" by (rule engine_at_keep[OF I k(1)]) (simp_all add: same_batch_def)
    then show "?I (rt', st) \<and> step_err N F st0 (rt', st)" using engine_at_err by blast
  qed
  have "triple ?I (set_next_id nx x) (\<lambda>_. ?I) (step_err N F st0)" for nx x
  proof (cases x)
    case (Pair slot row)
    show ?thesis unfolding set_next_id_def Pair prod.case
    proof (intro triple_bind[where R = "\<lambda>_. ?I"] triple_liftR triple_modifyP)
      fix tok and s :: "'g cache_runtime \<times> batch_state"
      assume I: "?I s"
      obtain rt st where s: "s = (rt, st)" by fastforce
      have "?I (rt, st\<lparr>bs_next_ids := (bs_next_ids st)[row := tok]\<rparr>)"
        by (rule engine_at_keep[OF I[unfolded s]]) (simp_all add: same_batch_def)
      then show "?I (case s of (rt, st) \<Rightarrow> (rt, st\<lparr>bs_next_ids := (bs_next_ids st)[row := tok]\<rparr>))"
        by (simp add: s)
    qed (use engine_at_err in auto)
  qed
  then have loop: "triple ?I (forP xs (set_next_id nx)) (\<lambda>_. ?I) (step_err N F st0)" for xs nx
    using triple_forP[of xs "\<lambda>_. ?I"] by blast
  show ?thesis unfolding forward_active_def
    by (intro triple_bind[where R = "\<lambda>_. ?I"] triple_getsR triple_liftR fwd loop bump_step_triple[OF assms])
      (auto dest: engine_at_err)
qed

lemma active_indices_set: "batch_wf st \<Longrightarrow> set (active_indices st) = {i. i < bs_batch st \<and> \<not> bs_finished st ! i}"
  by (auto simp: active_indices_def)

lemma decode_rows_triple:
  fixes en :: "('g, 'l) engine"
  assumes lt: "step < usize_max" and fwd: "fwd = active_indices st0"
  shows "triple (\<lambda>s. engine_at N F st0 step step s \<and> snd s = st0) (decode_rows en step fwd)
    (stepped N F st0 step) (step_err N F st0)"
proof -
  let ?A = "allocated N F st0 step fwd :: 'g cache_runtime \<times> batch_state \<Rightarrow> bool"
  let ?E = "step_err N F st0 :: 'g cache_runtime \<times> batch_state \<Rightarrow> bool"
  have in_range: "i < bs_batch st0" if "i \<in> set fwd" for i
    using that by (simp add: fwd active_indices_def)
  have to_emit: "emitted N F st0 step fwd [] (rt, st0\<lparr>bs_block_tables := t\<rparr>)"
    if "?A (rt, st0)" for rt and t
    using that active_indices_set[of st0] row_ok_mono_finished[of "rt_manager rt" st0 _ step "step + 1"]
    by (auto simp: fwd allocated_def emitted_def engine_at_def same_batch_def batch_wf_def Let_def row_ok_def)
  have alloc: "triple (\<lambda>s. engine_at N F st0 step step s \<and> snd s = st0) (forP fwd (alloc_row step)) (\<lambda>_. ?A) ?E"
  proof (rule triple_weaken[OF triple_forP[of fwd "allocated N F st0 step"]])
    fix dn i rest assume "fwd = dn @ i # rest"
    then show "triple (allocated N F st0 step dn) (alloc_row step i) (\<lambda>_. allocated N F st0 step (dn @ [i])) ?E"
      by (intro alloc_row_triple in_range) simp
  qed (auto simp: allocated_def)
  have emit: "triple (emitted N F st0 step fwd []) (forP fwd emit_row)
      (\<lambda>_. emitted N F st0 step fwd fwd) ?E"
  proof (rule triple_forP)
    fix dn i rest assume split: "fwd = dn @ i # rest"
    have d: "distinct fwd" by (simp add: fwd active_indices_def)
    have "i \<notin> set dn" "i \<in> set fwd" using d unfolding split by auto
    then show "triple (emitted N F st0 step fwd dn) (emit_row i) (\<lambda>_. emitted N F st0 step fwd (dn @ [i])) ?E"
      by (intro emit_row_triple in_range)
  qed
  have last: "triple (engine_at N F st0 step (step + 1))
      (if active = [] then bump_step else forward_active en step active) (stepped N F st0 step) ?E" for active
    using bump_step_triple[OF lt] forward_active_triple[OF lt] by (cases "active = []") simp_all
  have filt: "triple (emitted N F st0 step fwd fwd)
      (bindP (gets (\<lambda>(rt, st). filter (\<lambda>i. \<not> bs_finished st ! i) fwd)) (\<lambda>active.
        if active = [] then bump_step else forward_active en step active)) (stepped N F st0 step) ?E"
    by (rule triple_bind[OF _ last], rule triple_gets) (auto simp: emitted_def engine_at_def)
  have store: "triple ?A (modifyP (\<lambda>(rt, st). (rt, st\<lparr>bs_block_tables := t\<rparr>)))
      (\<lambda>_. emitted N F st0 step fwd []) ?E" for t
    by (rule triple_modifyP) (use to_emit in \<open>auto simp: allocated_def\<close>)
  have err: "?E s" if "?A s" for s
    using that engine_at_err by (auto simp: allocated_def)
  have read: "triple ?A (getsR (\<lambda>(rt, st). runtime_block_tables_for rt (bs_request_ids st))) (\<lambda>_. ?A) ?E"
    by (rule triple_getsR) (simp_all add: err)
  show ?thesis unfolding decode_rows_def
    by (rule triple_bind[OF alloc triple_bind[OF read triple_bind[OF store triple_bind[OF emit filt]]]])
qed

lemma decode_step_cases:
  assumes "engine_at N F st0 step step (rt, st0)" "bs_decode_step st0 = step"
  shows "paged_batch_decode_step en (rt, st0) =
    (if all_finished st0 \<or> bs_max_new_tokens st0 \<le> step then (Inr False, (rt, st0))
     else decode_rows en step (active_indices st0) (rt, st0))"
proof -
  have wf: "batch_wf st0" using assms(1) by (simp add: engine_at_def)
  have "active_indices st0 \<noteq> []" if nf: "\<not> all_finished st0"
  proof -
    obtain d where d: "d \<in> set (bs_finished st0)" "\<not> d" using nf unfolding all_finished_def by blast
    obtain i where "i < length (bs_finished st0)" "bs_finished st0 ! i = d"
      using d(1) unfolding in_set_conv_nth by blast
    then have "i < length (bs_finished st0)" "\<not> bs_finished st0 ! i" using d(2) by simp_all
    then have "i \<in> set (active_indices st0)" using active_indices_set[OF wf] wf by (simp add: batch_wf_def Let_def)
    then show ?thesis by auto
  qed
  then show ?thesis using assms(2)
    by (auto simp: paged_batch_decode_step_def bindP_gets ret_def Let_def)
qed

text \<open>The outcome of one decode step from a state that satisfies the invariant.\<close>

lemma decode_step_outcome:
  assumes e: "engine_at N F st0 step step (rt, st0)" "bs_decode_step st0 = step"
    and mx: "bs_max_new_tokens st0 \<le> usize_max"
    and run: "paged_batch_decode_step en (rt, st0) = (res, (rt', st'))"
  shows "frame N F (bs_request_ids st0) rt' \<and>
    (\<forall>cont. res = Inr cont \<longrightarrow>
      engine_at N F st0 (bs_decode_step st') (bs_decode_step st') (rt', st') \<and>
      (\<not> all_finished st0 \<and> step < bs_max_new_tokens st0 \<longrightarrow>
        bs_decode_step st' = step + 1 \<and> (cont \<longleftrightarrow> \<not> all_finished st')))"
proof (cases "all_finished st0 \<or> bs_max_new_tokens st0 \<le> step")
  case True
  have "frame N F (bs_request_ids st0) rt" using e by (simp add: engine_at_def)
  then show ?thesis using True run e unfolding decode_step_cases[OF e] by auto
next
  case False
  then have r: "decode_rows en step (active_indices st0) (rt, st0) = (res, (rt', st'))"
    using run unfolding decode_step_cases[OF e] by simp
  have lt: "step < usize_max" using False mx by simp
  note t = decode_rows_triple[OF lt refl, of N F st0 en]
  have pre: "engine_at N F st0 step step (rt, st0) \<and> snd (rt, st0) = st0" using e by simp
  have ok: "stepped N F st0 step c (rt', st')" if "res = Inr c" for c
    using triple_ok[OF t pre r[unfolded that]] .
  have err: "step_err N F st0 (rt', st')" if "res = Inl x" for x
    using triple_err[OF t pre r[unfolded that]] .
  have "frame N F (bs_request_ids st0) rt'"
    using ok err by (cases res) (auto simp: stepped_def engine_at_def step_err_def)
  moreover have "engine_at N F st0 (bs_decode_step st') (bs_decode_step st') (rt', st') \<and>
      bs_decode_step st' = step + 1 \<and> (c \<longleftrightarrow> \<not> all_finished st')" if "res = Inr c" for c
    using ok[OF that] by (auto simp: stepped_def engine_at_def)
  ultimately show ?thesis by blast
qed

lemma engine_at_self: "engine_at N F st0 step k (rt, st) \<Longrightarrow> engine_at N F st step k (rt, st)"
  by (auto simp: engine_at_def same_batch_def)

lemma engine_at_base:
  "engine_at N F st step k (rt, st') \<Longrightarrow> same_batch st0 st \<Longrightarrow> engine_at N F st0 step k (rt, st')"
  by (auto simp: engine_at_def same_batch_def)

section \<open>The decode loop returns\<close>

lemma run_loop_returns:
  assumes "engine_at N F st (bs_decode_step st) (bs_decode_step st) (rt, st)"
    and "bs_max_new_tokens st \<le> usize_max" "bs_decode_step st \<le> bs_max_new_tokens st"
  shows "\<exists>res rt' st'. run_loop en (rt, st) = Some (res, rt', st') \<and>
    frame N F (bs_request_ids st) rt' \<and>
    (res = Inr () \<longrightarrow> engine_at N F st (bs_decode_step st') (bs_decode_step st') (rt', st') \<and>
       bs_decode_step st' \<le> bs_max_new_tokens st \<and>
       (all_finished st' \<or> bs_decode_step st' = bs_max_new_tokens st))"
  using assms
proof (induction "bs_max_new_tokens st - bs_decode_step st" arbitrary: rt st rule: less_induct)
  case less
  let ?k = "bs_decode_step st"
  note e = less.prems(1)
  have ids: "frame N F (bs_request_ids st) rt" using e by (simp add: engine_at_def)
  show ?case
  proof (cases "?k < bs_max_new_tokens st \<and> \<not> all_finished st")
    case False
    then have "run_loop en (rt, st) = Some (Inr (), rt, st)"
      by (subst run_loop.simps) auto
    then show ?thesis using False e ids less.prems(3) by (auto simp: not_less)
  next
    case True
    obtain res rt1 st1 where r: "paged_batch_decode_step en (rt, st) = (res, (rt1, st1))"
      by (cases "paged_batch_decode_step en (rt, st)") auto
    note out = decode_step_outcome[OF e refl less.prems(2) r]
    have unf: "run_loop en (rt, st) = (case (res, (rt1, st1)) of
        (Inl e, s') \<Rightarrow> Some (Inl e, s')
      | (Inr continued, s') \<Rightarrow> if continued then run_loop en s' else Some (Inr (), s'))"
      using True r by (subst run_loop.simps) simp
    show ?thesis
    proof (cases res)
      case (Inl x)
      then show ?thesis using unf out by auto
    next
      case (Inr cont)
      have e1: "engine_at N F st (bs_decode_step st1) (bs_decode_step st1) (rt1, st1)"
        and s1: "bs_decode_step st1 = ?k + 1" "cont \<longleftrightarrow> \<not> all_finished st1"
        using out Inr True by auto
      have same: "same_batch st st1" using e1 by (simp add: engine_at_def)
      then have st1: "bs_max_new_tokens st1 = bs_max_new_tokens st" "bs_request_ids st1 = bs_request_ids st"
        by (simp_all add: same_batch_def)
      show ?thesis
      proof (cases cont)
        case False
        have run: "run_loop en (rt, st) = Some (Inr (), rt1, st1)" using unf Inr False by simp
        have fr: "frame N F (bs_request_ids st) rt1" using out by blast
        have "bs_decode_step st1 \<le> bs_max_new_tokens st" "all_finished st1" using s1 True False by simp_all
        then show ?thesis
          by (intro exI[of _ "Inr ()"] exI[of _ rt1] exI[of _ st1] conjI run fr) (use e1 in blast)
      next
        case c: True
        have "bs_max_new_tokens st1 - bs_decode_step st1 < bs_max_new_tokens st - ?k"
          unfolding st1(1) s1(1) using conjunct1[OF True] by arith
        note IH = less.hyps[OF this engine_at_self[OF e1]]
        have "bs_max_new_tokens st1 \<le> usize_max" "bs_decode_step st1 \<le> bs_max_new_tokens st1"
          using True s1 st1 less.prems(2) by simp_all
        from IH[OF this] obtain res' rt2 st2 where
          "run_loop en (rt1, st1) = Some (res', rt2, st2)" "frame N F (bs_request_ids st1) rt2"
          "res' = Inr () \<longrightarrow> engine_at N F st1 (bs_decode_step st2) (bs_decode_step st2) (rt2, st2) \<and>
             bs_decode_step st2 \<le> bs_max_new_tokens st1 \<and>
             (all_finished st2 \<or> bs_decode_step st2 = bs_max_new_tokens st1)"
          by blast
        then have run: "run_loop en (rt, st) = Some (res', rt2, st2)"
          and fr: "frame N F (bs_request_ids st) rt2"
          and fin: "res' = Inr () \<longrightarrow> engine_at N F st1 (bs_decode_step st2) (bs_decode_step st2) (rt2, st2) \<and>
             bs_decode_step st2 \<le> bs_max_new_tokens st \<and>
             (all_finished st2 \<or> bs_decode_step st2 = bs_max_new_tokens st)"
          using unf Inr c st1 by simp_all
        show ?thesis
          by (intro exI[of _ res'] exI[of _ rt2] exI[of _ st2] conjI run fr)
            (use fin engine_at_base[OF _ same] in blast)
      qed
    qed
  qed
qed

section \<open>Prefill establishes the invariant\<close>

lemma packed_forward_len:
  "packed_forward en ha idr lens tables ap c = Inr x \<Longrightarrow> length tables = length lens"
  by (auto simp: packed_forward_def input_metadata_from_query_lens_def Let_def)

lemma masked_forward_len:
  "masked_forward en idr mr tables ap c = Inr x \<Longrightarrow> length tables = length mr"
  by (auto simp: masked_forward_def input_metadata_from_attention_masks_def Let_def)

lemma prefill_rows_len:
  assumes "prefill_rows ids masks = Inr (idr, mr, lens)"
  shows "length mr = length lens"
proof (cases "attention_masks_are_right_padded masks")
  case False
  then have "normalize_batch_for_paged_prefill ids masks = Inr (idr, mr, lens)"
    using assms by (simp add: prefill_rows_def)
  then show ?thesis by (auto simp: normalize_batch_for_paged_prefill_def Let_def split: if_splits)
qed (use assms in \<open>auto simp: prefill_rows_def\<close>)

lemma frame_alloc:
  assumes "frame N F ids rt" "r \<in> set ids" "allocate_slots (rt_manager rt) r n = (res, m')"
  shows "frame N F ids (rt\<lparr>rt_manager := m'\<rparr>)"
proof (cases res)
  case (Inl e)
  then show ?thesis using assms allocate_Inl[of N "rt_manager rt" r n e m'] by (simp add: frame_def)
next
  case (Inr u)
  have inv: "bm_inv N (rt_manager rt)" using assms(1) by (simp add: frame_def)
  note A = allocate_Inr[OF inv assms(3)[unfolded Inr]]
  have "blocks_of m' r' = F r'" if "r' \<notin> set ids" for r'
    using A(3)[of r'] assms(1,2) that by (auto simp: frame_def)
  then show ?thesis using A(1) by (simp add: frame_def)
qed

lemma frame_trim:
  assumes "frame N F ids rt" "r \<in> set ids" "trim_request_to_num_tokens (rt_manager rt) r n = Inr m'"
  shows "frame N F ids (rt\<lparr>rt_manager := m'\<rparr>)"
proof -
  have inv: "bm_inv N (rt_manager rt)" using assms(1) by (simp add: frame_def)
  have "blocks_of m' r' = F r'" if "r' \<notin> set ids" for r'
    using trim_other(1)[OF inv assms(3), of r'] assms(1,2) that by (auto simp: frame_def)
  then show ?thesis using trim_inv[OF inv assms(3)] by (simp add: frame_def)
qed

lemma keeps_frame_alloc:
  "r \<in> set ids \<Longrightarrow> keeps (frame N F ids) (manager_op (\<lambda>m. allocate_slots m r n))"
  by (rule keepsI) (auto simp: manager_op_def frame_alloc split: prod.splits)

lemma keeps_frame_trim: "r \<in> set ids \<Longrightarrow> keeps (frame N F ids) (manager_trim r n)"
  unfolding manager_trim_def by (rule keeps_modifyR) (auto simp: frame_trim)

lemma request_ids_nth:
  "i < batch \<Longrightarrow> map (saturating_add base) [0..<batch] ! i \<in> set (map (saturating_add base) [0..<batch])"
  by (rule nth_mem) simp

lemma prefill_keeps_frame:
  "keeps (frame N F (map (saturating_add (bc_request_id_base config)) [0..<length input_ids]))
     (paged_batch_prefill en input_ids attention_mask has_audio config)"
  unfolding paged_batch_prefill_def Let_def
  by (intro keeps_intros keeps_frame_alloc)
    (auto simp: trim_finished_def intro!: keeps_intros keeps_frame_trim)

definition all_covered :: "nat list \<Rightarrow> nat list \<Rightarrow> nat list \<Rightarrow> 'g cache_runtime \<Rightarrow> bool" where
  "all_covered rs lens is rt \<longleftrightarrow> (\<forall>i\<in>set is. covered (rt_manager rt) (rs ! i) (lens ! i))"

lemma alloc_all_covered:
  assumes "frame N F ids rt" "set rs \<subseteq> set ids"
    and "forP [0..<length rs] (\<lambda>i. manager_op (\<lambda>m. allocate_slots m (rs ! i) (lens ! i))) rt = (Inr u, rt')"
  shows "frame N F ids rt' \<and> all_covered rs lens [0..<length rs] rt'"
proof -
  let ?I = "\<lambda>dn rt. frame N F ids rt \<and> all_covered rs lens dn rt"
  have T: "triple (?I []) (forP [0..<length rs] (\<lambda>i. manager_op (\<lambda>m. allocate_slots m (rs ! i) (lens ! i))))
      (\<lambda>_. ?I [0..<length rs]) (\<lambda>_. True)"
  proof (rule triple_forP[where I = ?I], rule triple_manager_op)
    fix dn i rest rt x m'
    assume split: "[0..<length rs] = dn @ i # rest" and I: "?I dn rt"
      and al: "allocate_slots (rt_manager rt) (rs ! i) (lens ! i) = (Inr x, m')"
    have "i \<in> set [0..<length rs]" unfolding split by simp
    then have "rs ! i \<in> set ids" using assms(2) by (auto dest: nth_mem)
    moreover have "bm_inv N (rt_manager rt)" using I by (simp add: frame_def)
    ultimately show "?I (dn @ [i]) (rt\<lparr>rt_manager := m'\<rparr>)"
      using I frame_alloc[OF _ _ al] allocate_Inr(2,4)[OF _ al] by (auto simp: all_covered_def)
  qed simp
  show ?thesis by (rule triple_ok[OF T _ assms(3)]) (use assms(1) in \<open>simp add: all_covered_def\<close>)
qed

lemma trim_all_covered:
  assumes "frame N F ids rt \<and> all_covered rs lens [0..<length rs] rt" "set rs \<subseteq> set ids" "distinct rs"
    and "forP [0..<length rs] (trim_finished rs lens fin) rt = (Inr u, rt')"
  shows "frame N F ids rt' \<and> all_covered rs lens [0..<length rs] rt'"
proof -
  let ?I = "\<lambda>rt. frame N F ids rt \<and> all_covered rs lens [0..<length rs] rt"
  have "keeps ?I (trim_finished rs lens fin i)" if i: "i \<in> set [0..<length rs]" for i
    unfolding trim_finished_def
  proof (cases "i < length fin")
    case False
    then have "index_r fin i = Inl (Panic ''index out of bounds'')" by (simp add: index_r_def get_def)
    then show "keeps ?I (bindP (liftR (index_r fin i)) (\<lambda>d. if d
        then bindP (liftR (index_r lens i)) (\<lambda>n. manager_trim (rs ! i) n) else ret ()))"
      by (intro keepsI) (auto simp: bindP_def liftR_def)
  next
    case True
    have main: "keeps ?I (bindP (liftR (index_r lens i)) (\<lambda>n. manager_trim (rs ! i) n))"
    proof (rule keepsI)
      fix rt res rt'
      assume I: "?I rt" and r: "bindP (liftR (index_r lens i)) (\<lambda>n. manager_trim (rs ! i) n) rt = (res, rt')"
      have inv: "bm_inv N (rt_manager rt)" using I by (simp add: frame_def)
      have mem: "rs ! i \<in> set ids" using i assms(2) by (auto dest: nth_mem)
      show "?I rt'"
      proof (cases "rt' = rt")
        case False
        then obtain m' where m': "trim_request_to_num_tokens (rt_manager rt) (rs ! i) (lens ! i) = Inr m'"
          "rt' = rt\<lparr>rt_manager := m'\<rparr>"
          using r by (auto simp: bindP_def liftR_def manager_trim_def modifyR_def split: sum.splits prod.splits)
        have "covered m' (rs ! j) (lens ! j)" if "j < length rs" for j
          using I i that assms(3) trim_covered[OF inv m'(1)] trim_other(2)[OF inv m'(1), of "rs ! j"]
          by (cases "j = i") (auto simp: all_covered_def nth_eq_iff_index_eq)
        then show ?thesis using I frame_trim[OF _ mem m'(1)] m'(2) by (auto simp: all_covered_def)
      qed (use I in simp)
    qed
    show "keeps ?I (bindP (liftR (index_r fin i)) (\<lambda>d. if d
        then bindP (liftR (index_r lens i)) (\<lambda>n. manager_trim (rs ! i) n) else ret ()))"
      by (rule keeps_bind, rule keeps_basic, rule keeps_if, rule main, rule keeps_basic)
  qed
  then have K: "keeps ?I (forP [0..<length rs] (trim_finished rs lens fin))" by (rule keeps_forP)
  show ?thesis by (rule keepsD[OF K assms(1,4)])
qed

lemma prefill_establishes:
  assumes run: "paged_batch_prefill en input_ids attention_mask has_audio config rt = (Inr st, rt')"
    and rs: "rs = map (saturating_add (bc_request_id_base config)) [0..<length input_ids]" "distinct rs"
    and fr: "frame N F rs rt"
  shows "engine_at N F st 0 0 (rt', st) \<and> bs_request_ids st = rs \<and> bs_batch st = length input_ids \<and>
    bs_max_new_tokens st = bc_max_new_tokens config \<and> bs_eos_token_ids st = bc_eos_token_ids config \<and>
    bs_decode_step st = 0"
proof -
  have len: "length rs = length input_ids" by (simp add: rs)
  obtain idr mr lens ap rt1 tables logits lens64 ll nx where
    a: "prefill_rows input_ids attention_mask = Inr (idr, mr, lens)"
      "forP [0..<length rs] (\<lambda>i. manager_op (\<lambda>m. allocate_slots m (rs ! i) (lens ! i))) rt = (Inr (), rt1)"
      "runtime_block_tables_for rt1 rs = Inr tables"
      "(if en_is_cuda en \<and> en_packed_prefill en then packed_forward en has_audio idr lens tables ap (rt_cache rt1)
        else masked_forward en idr mr tables ap (rt_cache rt1)) = Inr (logits, lens64)"
      "argmax_token_ids_from_logits en ll (length input_ids) = Inr nx"
      "forP [0..<length rs] (trim_finished rs lens (map (\<lambda>t. t \<in> set (bc_eos_token_ids config)) nx)) rt1 = (Inr (), rt')"
    and st: "st = \<lparr>bs_batch = length input_ids, bs_seq_len = length (input_ids ! 0), bs_prompt_lens = lens,
        bs_prompt_lens_i64 = lens64, bs_request_ids = rs, bs_block_tables = tables, bs_next_ids = nx,
        bs_generated = replicate (length input_ids) [], bs_finished = map (\<lambda>t. t \<in> set (bc_eos_token_ids config)) nx,
        bs_decode_step = 0, bs_max_new_tokens = bc_max_new_tokens config,
        bs_eos_token_ids = bc_eos_token_ids config\<rparr>"
    using run unfolding paged_batch_prefill_def Let_def unfolding rs(1)[symmetric] unfolding len[symmetric]
    by (clarsimp simp: bindP_Inr_iff basic_Inr_iff)
  have "length tables = length rs"
    using a(3) traverse_length by (auto simp: runtime_block_tables_for_def block_tables_for_def)
  moreover have "length tables = length lens"
    using a(4) prefill_rows_len[OF a(1)]
    by (auto split: if_splits dest: packed_forward_len masked_forward_len)
  ultimately have lens: "length lens = length input_ids" using len by simp
  have c: "frame N F rs rt' \<and> all_covered rs lens [0..<length rs] rt'"
    using trim_all_covered[OF alloc_all_covered[OF fr _ a(2)] _ rs(2) a(6)] by simp
  show ?thesis using c lens len rs(2) argmax_length[OF a(5)]
    by (auto simp: st engine_at_def same_batch_def batch_wf_def Let_def row_ok_def all_covered_def)
qed

section \<open>Properties\<close>

lemma free_many_blocks:
  assumes "bm_inv N m"
  shows "blocks_of (free_many m rs) r = (if r \<in> set rs then [] else blocks_of m r)"
  using bm.release_many[of m rs] assms unfolding free_many_def by blast

lemma frame_free_many:
  assumes "bm_inv N (rt_manager rt)"
  shows "frame N (blocks_of (rt_manager rt)) rs (paged_batch_free_slots rs rt)"
  using assms by (auto simp: frame_def paged_batch_free_slots_def free_many_blocks intro: inv_intros)

lemma request_ids_distinct:
  assumes "base + n \<le> usize_max"
  shows "distinct (map (saturating_add base) [0..<n])"
proof -
  have "map (saturating_add base) [0..<n] = map (\<lambda>i. base + i) [0..<n]"
    using assms by (auto simp: saturating_add_def)
  then show ?thesis by (simp add: distinct_map inj_on_def)
qed

text \<open>C9: \<^verbatim>\<open>paged_batch_run\<close> always returns.  On success it yields one row per prompt, each of
  at most \<^verbatim>\<open>max_new_tokens\<close> tokens and free of end-of-sequence tokens, and the requests of the
  batch own no blocks any more.  On success and on error alike the allocator stays
  consistent and every other request keeps exactly the blocks it had.\<close>
theorem paged_batch_run_correct:
  assumes "bm_inv N (rt_manager rt)" "bc_request_id_base config + length input_ids \<le> usize_max"
    and "bc_max_new_tokens config \<le> usize_max"
  shows "\<exists>res rt'. paged_batch_run en input_ids attention_mask has_audio config rt = Some (res, rt') \<and>
    bm_inv N (rt_manager rt') \<and>
    (\<forall>r. r \<notin> set (map (saturating_add (bc_request_id_base config)) [0..<length input_ids]) \<longrightarrow>
       blocks_of (rt_manager rt') r = blocks_of (rt_manager rt) r) \<and>
    (\<forall>out. res = Inr out \<longrightarrow> length out = length input_ids \<and>
       (\<forall>row\<in>set out. length row \<le> bc_max_new_tokens config \<and>
          (\<forall>t\<in>set row. t \<notin> set (bc_eos_token_ids config))) \<and>
       (0 < bc_max_new_tokens config \<longrightarrow>
          (\<forall>r\<in>set (map (saturating_add (bc_request_id_base config)) [0..<length input_ids]).
             blocks_of (rt_manager rt') r = [])))"
proof -
  let ?rs = "map (saturating_add (bc_request_id_base config)) [0..<length input_ids]"
  let ?F = "blocks_of (rt_manager rt)"
  note distinct = request_ids_distinct[OF assms(2)]
  show ?thesis
  proof (cases "length input_ids = 0 \<or> bc_max_new_tokens config = 0")
    case True
    then show ?thesis using assms(1) by (auto simp: paged_batch_run_def Let_def)
  next
    case False
    define rt0 where "rt0 = paged_batch_free_slots ?rs rt"
    have f0: "frame N ?F ?rs rt0" unfolding rt0_def by (rule frame_free_many[OF assms(1)])
    obtain pre rt1 where pre: "paged_batch_prefill en input_ids attention_mask has_audio config rt0 = (pre, rt1)"
      by fastforce
    have f1: "frame N ?F ?rs rt1" by (rule keepsD[OF prefill_keeps_frame f0 pre])
    show ?thesis
    proof (cases pre)
      case (Inl e)
      have "paged_batch_run en input_ids attention_mask has_audio config rt = Some (Inl e, rt1)"
        using False pre Inl by (simp add: paged_batch_run_def Let_def rt0_def)
      then show ?thesis using f1 by (simp add: frame_def)
    next
      case (Inr st)
      note e = prefill_establishes[OF pre[unfolded Inr] refl distinct f0]
      obtain res rt2 st2 where loop: "run_loop en (rt1, st) = Some (res, rt2, st2)"
        and f2: "frame N ?F (bs_request_ids st) rt2"
        and ok: "res = Inr () \<longrightarrow> engine_at N ?F st (bs_decode_step st2) (bs_decode_step st2) (rt2, st2) \<and>
          bs_decode_step st2 \<le> bs_max_new_tokens st \<and>
          (all_finished st2 \<or> bs_decode_step st2 = bs_max_new_tokens st)"
        using run_loop_returns[of N ?F st rt1 en] e assms(3) by auto
      have ids: "bs_request_ids st = ?rs" using e by simp
      show ?thesis
      proof (cases res)
        case (Inl x)
        have "paged_batch_run en input_ids attention_mask has_audio config rt = Some (Inl x, rt2)"
          using False pre Inr loop Inl by (simp add: paged_batch_run_def Let_def rt0_def)
        then show ?thesis using f2 by (simp add: frame_def ids)
      next
        case (Inr u)
        have fin: "engine_at N ?F st (bs_decode_step st2) (bs_decode_step st2) (rt2, st2)"
          "bs_decode_step st2 \<le> bc_max_new_tokens config" using ok Inr e by auto
        have same: "bs_request_ids st2 = ?rs" "bs_eos_token_ids st2 = bc_eos_token_ids config"
          "length (bs_generated st2) = length input_ids" "bs_batch st = length input_ids"
          using fin(1) e by (auto simp: engine_at_def same_batch_def batch_wf_def Let_def)
        have rows: "length row \<le> bc_max_new_tokens config \<and> (\<forall>t\<in>set row. t \<notin> set (bc_eos_token_ids config))"
          if row: "row \<in> set (bs_generated st2)" for row
        proof -
          obtain i where i: "i < length (bs_generated st2)" "row = bs_generated st2 ! i"
            using row unfolding in_set_conv_nth by blast
          then have "row_ok (rt_manager rt2) st2 i (bs_decode_step st2)"
            using fin(1) same(3,4) by (simp add: engine_at_def)
          then show ?thesis using i(2) fin(2) same(2) by (auto simp: row_ok_def)
        qed
        have inv2: "bm_inv N (rt_manager rt2)" using f2 by (simp add: frame_def)
        have "paged_batch_run en input_ids attention_mask has_audio config rt =
            Some (Inr (bs_generated st2), paged_batch_free_slots (bs_request_ids st2) rt2)"
          using False pre \<open>pre = Inr st\<close> loop Inr by (simp add: paged_batch_run_def Let_def rt0_def)
        moreover have "bm_inv N (free_many (rt_manager rt2) ?rs)" by (rule free_many_inv[OF inv2])
        moreover have "blocks_of (free_many (rt_manager rt2) ?rs) r = (if r \<in> set ?rs then [] else ?F r)" for r
          using free_many_blocks[OF inv2] f2 by (simp add: frame_def ids)
        ultimately show ?thesis using rows same
          by (intro exI[of _ "Inr (bs_generated st2)"] exI[of _ "paged_batch_free_slots (bs_request_ids st2) rt2"])
            (simp add: paged_batch_free_slots_def)
      qed
    qed
  qed
qed

text \<open>An engine whose network answers token 7 until the context is five tokens long, then token 0.\<close>

definition example_runtime :: "unit cache_runtime" where
  "example_runtime = \<lparr>rt_cache = example_cache, rt_manager = new_block_manager 6 2,
     rt_stats = \<lparr>st_block_size = 2, st_num_blocks = 6, st_free_blocks = 5, st_max_context_tokens = 10, st_bytes = 0\<rparr>,
     cuda_graph_max_batch = 0, cuda_decode_graphs_disabled = False,
     cuda_decode_graph_disabled_keys = {}, cuda_decode_graphs = Map.empty\<rparr>"

definition example_engine :: "(unit, nat) engine" where
  "example_engine = \<lparr>en_cuda_graph = False, en_is_cuda = False, en_packed_prefill = False, en_audio_token = 99,
     en_first_key = least_key, en_capture = (\<lambda>b. Inl (Err ''no graphs'')), en_replay = (\<lambda>_ b. Inl (Err ''no graphs'')),
     en_prefill = (\<lambda>packed ids n md. Inr (map (\<lambda>_. 7) ids)),
     en_decode = (\<lambda>ids pos md. Inr (map (\<lambda>c. if c < 5 then 7 else 0) (host (context_lens md)))),
     en_argmax = (\<lambda>l. Inr l)\<rparr>"

theorem paged_batch_run_correct_witness:
  "\<exists>res rt'. paged_batch_run example_engine [[3, 4, 5]] [[1, 1, 1]] False
      \<lparr>bc_max_new_tokens = 8, bc_eos_token_ids = [0], bc_request_id_base = 0\<rparr> example_runtime = Some (res, rt') \<and>
    bm_inv 6 (rt_manager rt')"
proof -
  have "bm_inv 6 (rt_manager example_runtime)"
    by (simp add: example_runtime_def new_block_manager_inv)
  then show ?thesis
    using paged_batch_run_correct[of 6 example_runtime
        "\<lparr>bc_max_new_tokens = 8, bc_eos_token_ids = [0], bc_request_id_base = 0\<rparr>" "[[3, 4, 5]]"
        example_engine "[[1, 1, 1]]" False]
    by (simp add: max_values) blast
qed


end
