(* ===== verification/BatchScheduler.thy ===== *)
theory BatchScheduler
  imports BatchEngine
begin

text \<open>
  \<^verbatim>\<open>vasr-models/src/inference/batch_scheduler.rs\<close>: admission, padding of admit waves and
  the continuous-batching loop.  The closure of \<^verbatim>\<open>run_continuous_prepared\<close> is
  \<^verbatim>\<open>sched_loop\<close>, a \<^verbatim>\<open>partial_function\<close> over \<^verbatim>\<open>sched_iteration\<close>; the method
  frees what is still running whatever the closure returns.  A prepared row is its ids and
  its mask; audio features are a list of rows.
\<close>

section \<open>State\<close>

record scheduler_config =
  max_num_seqs :: nat
  continuous_batch :: bool

record prepared_row =
  pr_input_ids :: "nat list"
  pr_attention_mask :: "nat list"

record running_slot =
  rs_client_index :: nat
  rs_slot :: decode_slot

record sched =
  sc_next_request_id :: nat
  sc_waiting :: "nat list"
  sc_running :: "running_slot option list"
  sc_outputs :: "nat list list"

definition default_config :: "bool \<Rightarrow> scheduler_config" where
  "default_config env_continuous = \<lparr>max_num_seqs = 8, continuous_batch = env_continuous\<rparr>"

definition from_max_batch_size :: "bool \<Rightarrow> nat \<Rightarrow> scheduler_config" where
  "from_max_batch_size env_continuous max_batch_size =
     (if 0 < max_batch_size then (default_config env_continuous)\<lparr>max_num_seqs := max_batch_size\<rparr>
      else default_config env_continuous)"

section \<open>Helpers\<close>

definition free_all_running :: "running_slot option list \<Rightarrow> 'g cache_runtime \<Rightarrow> 'g cache_runtime" where
  "free_all_running running rt =
     fold (\<lambda>entry rt. case entry of None \<Rightarrow> rt
            | Some e \<Rightarrow> paged_batch_free_slots [ds_request_id (rs_slot e)] rt) running rt"

definition prepared_prompt_len :: "prepared_row \<Rightarrow> nat" where
  "prepared_prompt_len row = valid_count (pr_attention_mask row)"

definition running_kv_blocks :: "running_slot option list \<Rightarrow> block_manager \<Rightarrow> nat" where
  "running_kv_blocks running m =
     sum_list (map (\<lambda>e. blocks_for_request m (ds_request_id (rs_slot e))) (map the (filter (\<lambda>x. x \<noteq> None) running)))"

definition can_admit_with_projected_kv :: "block_manager \<Rightarrow> nat \<Rightarrow> nat \<Rightarrow> nat \<Rightarrow> nat \<Rightarrow> bool" where
  "can_admit_with_projected_kv m kv_block_capacity prompt_len projected_used_blocks projected_running =
     (let prompt_blocks = div_ceil prompt_len (bm_block_size m);
          decode_headroom = max projected_running 1
      in saturating_add (saturating_add projected_used_blocks prompt_blocks) decode_headroom \<le> kv_block_capacity)"

definition slot_done :: "running_slot option \<Rightarrow> bool" where
  "slot_done entry = (case entry of None \<Rightarrow> False | Some e \<Rightarrow> ds_finished (rs_slot e))"

definition free_finished_entry ::
  "running_slot option \<Rightarrow> nat list list \<times> 'g cache_runtime \<Rightarrow> nat list list \<times> 'g cache_runtime" where
  "free_finished_entry entry = (\<lambda>(outputs, rt).
     (case entry of None \<Rightarrow> (outputs, rt)
      | Some e \<Rightarrow> if ds_finished (rs_slot e)
          then (outputs[rs_client_index e := ds_generated (rs_slot e)],
                paged_batch_free_slots [ds_request_id (rs_slot e)] rt)
          else (outputs, rt)))"

definition free_finished_running :: "'g cache_runtime \<times> sched \<Rightarrow> 'g cache_runtime \<times> sched" where
  "free_finished_running = (\<lambda>(rt, sc).
     (case fold free_finished_entry (sc_running sc) (sc_outputs sc, rt) of
        (outputs, rt') \<Rightarrow>
          (rt', sc\<lparr>sc_outputs := outputs,
                   sc_running := map (\<lambda>e. if slot_done e then None else e) (sc_running sc)\<rparr>)))"

definition pad_wave_row :: "nat \<Rightarrow> nat \<Rightarrow> prepared_row \<Rightarrow> (nat list \<times> nat list) result" where
  "pad_wave_row pad_id max_prompt_len row =
     (let prompt_len = prepared_prompt_len row in
      if length (pr_input_ids row) < prompt_len \<or> length (pr_attention_mask row) < prompt_len
      then Inl (Err ''prepared effective prompt len exceeds row capacity'')
      else Inr (take prompt_len (pr_input_ids row) @ replicate (max_prompt_len - prompt_len) pad_id,
                take prompt_len (pr_attention_mask row) @ replicate (max_prompt_len - prompt_len) 0))"

definition pad_prepared_wave_for_prefill ::
  "prepared_row list \<Rightarrow> nat list \<Rightarrow> nat \<Rightarrow> (nat list list \<times> nat list list) result" where
  "pad_prepared_wave_for_prefill prepared wave_indices pad_id =
     rbind (ensure (wave_indices \<noteq> []) (Err ''pad_prepared_wave_for_prefill requires at least one row'')) (\<lambda>_.
     rbind (traverse (index_r prepared) wave_indices) (\<lambda>rows.
     let max_prompt_len = max_or_0 (map prepared_prompt_len rows) in
     rbind (ensure (max_prompt_len \<noteq> 0) (Err ''admit wave contains zero-length prompts'')) (\<lambda>_.
     rbind (traverse (pad_wave_row pad_id max_prompt_len) rows) (\<lambda>padded.
       Inr (map fst padded, map snd padded)))))"

definition narrow_rows :: "'f list \<Rightarrow> nat \<Rightarrow> nat \<Rightarrow> 'f list result" where
  "narrow_rows xs start len =
     (if start + len \<le> length xs then Inr (take len (drop start xs)) else Inl (Err ''narrow out of range''))"

definition concat_prepared_audio ::
  "'f list \<Rightarrow> nat list \<Rightarrow> nat list \<Rightarrow> nat list \<Rightarrow> 'f list result" where
  "concat_prepared_audio audio_features audio_offsets row_audio_lens client_indices =
     rbind (ensure (client_indices \<noteq> []) (Err ''concat_prepared_audio requires at least one row'')) (\<lambda>_.
     rbind (traverse (\<lambda>ci. rbind (index_r audio_offsets ci) (\<lambda>off. rbind (index_r row_audio_lens ci) (\<lambda>len.
              narrow_rows audio_features off len))) client_indices) (\<lambda>parts. Inr (concat parts)))"

fun insert_group :: "nat \<times> nat \<Rightarrow> (nat \<times> nat list) list \<Rightarrow> (nat \<times> nat list) list" where
  "insert_group (idx, step) [] = [(step, [idx])]"
| "insert_group (idx, step) ((s, is) # gs) =
     (if step = s then (s, is @ [idx]) # gs else (s, is) # insert_group (idx, step) gs)"

text \<open>Groups by step, sorted by step; within a group the slots keep their order.\<close>

definition group_running_by_decode_step :: "(nat \<times> nat) list \<Rightarrow> (nat \<times> nat list) list" where
  "group_running_by_decode_step active = sort_key fst (fold insert_group active [])"

section \<open>One pass of the loop\<close>

definition active_steps_of :: "running_slot option list \<Rightarrow> (nat \<times> nat) list" where
  "active_steps_of running =
     map (\<lambda>(i, e). (i, ds_decode_step (rs_slot (the e))))
       (filter (\<lambda>(i, e). e \<noteq> None \<and> \<not> ds_finished (rs_slot (the e))) (enumerate 0 running))"

definition store_slot :: "nat \<times> decode_slot \<Rightarrow> running_slot option list \<Rightarrow> running_slot option list" where
  "store_slot = (\<lambda>(i, s) running.
     (case running ! i of None \<Rightarrow> running | Some e \<Rightarrow> running[i := Some (e\<lparr>rs_slot := s\<rparr>)]))"

text \<open>One step group: the slots are cloned, stepped, and stored back when the step succeeds.\<close>

definition decode_group ::
  "('g, 'l) engine \<Rightarrow> nat \<Rightarrow> nat list \<Rightarrow> nat \<times> nat list \<Rightarrow> ('g cache_runtime \<times> sched, unit) prog" where
  "decode_group en max_new eos = (\<lambda>(step, idxs) (rt, sc).
     (case traverse (\<lambda>i. ok_or (map_option rs_slot (sc_running sc ! i)) (Err ''missing running slot'')) idxs of
        Inl e \<Rightarrow> (Inl e, (rt, sc))
      | Inr slots \<Rightarrow>
          (case paged_batch_decode_slots_at_step en step max_new eos (rt, slots) of
             (Inl e, (rt', slots')) \<Rightarrow> (Inl e, (rt', sc))
           | (Inr _, (rt', slots')) \<Rightarrow>
               (Inr (), (rt', sc\<lparr>sc_running := fold store_slot (zip idxs slots') (sc_running sc)\<rparr>)))))"

definition finish_at_limit :: "nat \<Rightarrow> running_slot option \<Rightarrow> running_slot option" where
  "finish_at_limit max_new = map_option (\<lambda>e.
     if \<not> ds_finished (rs_slot e) \<and> max_new \<le> ds_decode_step (rs_slot e)
     then e\<lparr>rs_slot := (rs_slot e)\<lparr>ds_finished := True\<rparr>\<rparr> else e)"

text \<open>The admission loop over the free slots: \<open>(client indices, slot indices)\<close> of the wave and the
  clients that stay in the queue.\<close>

fun admit_loop ::
  "block_manager \<Rightarrow> nat \<Rightarrow> nat \<Rightarrow> prepared_row list \<Rightarrow> running_slot option list \<Rightarrow> nat list \<Rightarrow>
   nat \<Rightarrow> nat \<Rightarrow> nat list \<Rightarrow> (nat \<times> nat) list \<times> nat list" where
  "admit_loop m cap max_slots prepared running [] used n waiting = ([], waiting)"
| "admit_loop m cap max_slots prepared running (slot_idx # rest) used n waiting =
     (if running ! slot_idx \<noteq> None then admit_loop m cap max_slots prepared running rest used n waiting
      else if max_slots \<le> n then ([], waiting)
      else (case waiting of
          [] \<Rightarrow> ([], [])
        | client_index # waiting' \<Rightarrow>
            let prompt_len = prepared_prompt_len (prepared ! client_index);
                next_running = saturating_add n 1
            in if \<not> can_admit_with_projected_kv m cap prompt_len used next_running
               then ([], client_index # waiting')
               else (case admit_loop m cap max_slots prepared running rest
                       (saturating_add used (div_ceil prompt_len (bm_block_size m))) next_running waiting' of
                       (wave, w) \<Rightarrow> ((client_index, slot_idx) # wave, w))))"

definition install_row ::
  "batch_state \<Rightarrow> nat \<times> nat \<times> nat \<Rightarrow> ('g cache_runtime \<times> sched, unit) prog" where
  "install_row st = (\<lambda>(wave_row, client_index, slot_idx).
     bindP (liftR (from_prefill_state st wave_row)) (\<lambda>s.
       modifyP (\<lambda>(rt, sc). (rt, sc\<lparr>sc_running :=
         (sc_running sc)[slot_idx := Some \<lparr>rs_client_index = client_index, rs_slot = s\<rparr>]\<rparr>))))"

record 'f sched_input =
  si_prepared :: "prepared_row list"
  si_audio :: "'f list"
  si_max_new_tokens :: nat
  si_eos :: "nat list"
  si_pad_id :: nat

definition row_audio_lens :: "('g, 'l) engine \<Rightarrow> prepared_row list \<Rightarrow> nat list" where
  "row_audio_lens en prepared = map (\<lambda>row. count_audio_placeholders (pr_input_ids row) (en_audio_token en)) prepared"

fun audio_offsets_from :: "nat \<Rightarrow> nat list \<Rightarrow> nat list \<times> nat" where
  "audio_offsets_from cursor [] = ([], cursor)"
| "audio_offsets_from cursor (len # lens) =
     (case audio_offsets_from (saturating_add cursor len) lens of (offs, final) \<Rightarrow> (cursor # offs, final))"

definition prefill_wave ::
  "('g, 'l) engine \<Rightarrow> 'f sched_input \<Rightarrow> (nat \<times> nat) list \<Rightarrow> ('g cache_runtime \<times> sched, unit) prog" where
  "prefill_wave en inp wave =
     bindP (gets (\<lambda>(rt, sc). sc_next_request_id sc)) (\<lambda>base.
     bindP (modifyP (\<lambda>(rt, sc). (rt, sc\<lparr>sc_next_request_id := saturating_add base (length wave)\<rparr>))) (\<lambda>_.
     bindP (liftR (pad_prepared_wave_for_prefill (si_prepared inp) (map fst wave) (si_pad_id inp))) (\<lambda>(ids, masks).
     let lens = row_audio_lens en (si_prepared inp) in
     bindP (liftR (concat_prepared_audio (si_audio inp) (fst (audio_offsets_from 0 lens)) lens (map fst wave))) (\<lambda>_.
     bindP (on_rt (paged_batch_prefill en ids masks True
              \<lparr>bc_max_new_tokens = si_max_new_tokens inp, bc_eos_token_ids = si_eos inp,
               bc_request_id_base = base\<rparr>)) (\<lambda>st.
       forP (enumerate 0 wave) (install_row st))))))"

text \<open>One iteration; the result says whether the loop is left with \<^verbatim>\<open>break\<close>.\<close>

definition sched_iteration ::
  "('g, 'l) engine \<Rightarrow> 'f sched_input \<Rightarrow> nat \<Rightarrow> nat \<Rightarrow> ('g cache_runtime \<times> sched, bool) prog" where
  "sched_iteration en inp cap max_slots =
     bindP (modifyP free_finished_running) (\<lambda>_.
     bindP (gets (\<lambda>(rt, sc). active_steps_of (sc_running sc))) (\<lambda>active_steps.
     bindP (forP (group_running_by_decode_step active_steps)
              (decode_group en (si_max_new_tokens inp) (si_eos inp))) (\<lambda>_.
     bindP (modifyP (\<lambda>(rt, sc). (rt, sc\<lparr>sc_running := map (finish_at_limit (si_max_new_tokens inp)) (sc_running sc)\<rparr>))) (\<lambda>_.
     bindP (modifyP free_finished_running) (\<lambda>_.
     bindP (gets (\<lambda>(rt, sc). admit_loop (rt_manager rt) cap max_slots (si_prepared inp) (sc_running sc) [0..<max_slots]
              (running_kv_blocks (sc_running sc) (rt_manager rt))
              (length (filter (\<lambda>e. e \<noteq> None) (sc_running sc))) (sc_waiting sc))) (\<lambda>(wave, waiting').
     bindP (modifyP (\<lambda>(rt, sc). (rt, sc\<lparr>sc_waiting := waiting'\<rparr>))) (\<lambda>_.
     bindP (if wave = [] then ret () else prefill_wave en inp wave) (\<lambda>_.
     bindP (gets (\<lambda>(rt, sc). \<exists>e\<in>set (sc_running sc). e \<noteq> None)) (\<lambda>has_running.
       if waiting' = [] \<and> \<not> has_running then ret True
       else if wave = [] \<and> active_steps = [] \<and> \<not> has_running \<and> waiting' \<noteq> []
       then liftR (Inl (Err ''paged KV cache exhausted''))
       else ret False)))))))))"

partial_function (option) sched_loop ::
  "('g, 'l) engine \<Rightarrow> 'f sched_input \<Rightarrow> nat \<Rightarrow> nat \<Rightarrow> 'g cache_runtime \<times> sched \<Rightarrow>
   (unit result \<times> 'g cache_runtime \<times> sched) option" where
  "sched_loop en inp cap max_slots s =
     (case sched_iteration en inp cap max_slots s of
        (Inl e, s') \<Rightarrow> Some (Inl e, s')
      | (Inr stop, s') \<Rightarrow> if stop then Some (Inr (), s') else sched_loop en inp cap max_slots s')"

definition run_continuous_prepared ::
  "('g, 'l) engine \<Rightarrow> scheduler_config \<Rightarrow> 'f sched_input \<Rightarrow> nat \<Rightarrow> 'g cache_runtime \<Rightarrow>
   (nat list list result \<times> 'g cache_runtime \<times> nat) option" where
  "run_continuous_prepared en config inp next_id rt =
     (let batch = length (si_prepared inp) in
      if batch = 0 then Some (Inr [], rt, next_id)
      else if si_max_new_tokens inp = 0 then Some (Inr (replicate batch []), rt, next_id)
      else
        let max_slots = min (max (max_num_seqs config) 1) batch;
            cursor = snd (audio_offsets_from 0 (row_audio_lens en (si_prepared inp)))
        in if cursor \<noteq> length (si_audio inp)
           then Some (Inl (Err ''continuous batch audio token mismatch''), rt, next_id)
           else
             let cap = allocatable_block_capacity (st_num_blocks (runtime_stats rt));
                 sc = \<lparr>sc_next_request_id = next_id, sc_waiting = [0..<batch],
                       sc_running = replicate max_slots None, sc_outputs = replicate batch []\<rparr>
             in (case sched_loop en inp cap max_slots (rt, sc) of
                   None \<Rightarrow> None
                 | Some (res, rt', sc') \<Rightarrow>
                     Some (rbind res (\<lambda>_. Inr (sc_outputs sc')),
                           free_all_running (sc_running sc') rt', sc_next_request_id sc')))"

definition run_micro_batch ::
  "('g, 'l) engine \<Rightarrow> scheduler_config \<Rightarrow> nat list list \<Rightarrow> nat list list \<Rightarrow> bool \<Rightarrow> nat \<Rightarrow> nat list \<Rightarrow> nat \<Rightarrow>
   'g cache_runtime \<Rightarrow> (nat list list result \<times> 'g cache_runtime \<times> nat) option" where
  "run_micro_batch en config input_ids masks has_audio max_new eos next_id rt =
     (let batch = length input_ids in
      if max_num_seqs config < batch
      then Some (Inl (Err ''micro-batch size exceeds scheduler max_num_seqs''), rt, next_id)
      else map_option (\<lambda>(res, rt'). (res, rt', saturating_add next_id (max batch 1)))
             (paged_batch_run en input_ids masks has_audio
                \<lparr>bc_max_new_tokens = max_new, bc_eos_token_ids = eos, bc_request_id_base = next_id\<rparr> rt))"

definition run_paged_micro_batch ::
  "('g, 'l) engine \<Rightarrow> bool \<Rightarrow> nat list list \<Rightarrow> nat list list \<Rightarrow> bool \<Rightarrow> nat \<Rightarrow> nat list \<Rightarrow> nat \<Rightarrow>
   'g cache_runtime \<Rightarrow> (nat list list result \<times> 'g cache_runtime) option" where
  "run_paged_micro_batch en env input_ids masks has_audio max_new eos max_batch_size rt =
     map_option (\<lambda>(res, rt', _). (res, rt'))
       (run_micro_batch en (from_max_batch_size env max_batch_size) input_ids masks has_audio max_new eos 0 rt)"

definition run_paged_prepared_batch ::
  "('g, 'l) engine \<Rightarrow> bool \<Rightarrow> 'f sched_input \<Rightarrow> nat \<Rightarrow> 'g cache_runtime \<Rightarrow>
   (nat list list result \<times> 'g cache_runtime) option" where
  "run_paged_prepared_batch en env inp max_batch_size rt =
     (let config = from_max_batch_size env max_batch_size in
      map_option (\<lambda>(res, rt', _). (res, rt'))
        (if continuous_batch config then run_continuous_prepared en config inp 0 rt
         else run_micro_batch en config (map pr_input_ids (si_prepared inp)) (map pr_attention_mask (si_prepared inp))
                True (si_max_new_tokens inp) (si_eos inp) 0 rt))"

section \<open>Grouping by decode step\<close>

lemma insert_group_keys:
  "map fst (insert_group (i, st) gs) = (if st \<in> set (map fst gs) then map fst gs else map fst gs @ [st])"
  by (induction gs) (auto simp del: set_map)

lemma insert_group_distinct: "distinct (map fst gs) \<Longrightarrow> distinct (map fst (insert_group x gs))"
  by (cases x) (simp add: insert_group_keys del: set_map)

lemma insert_group_content:
  assumes "\<forall>(t, is)\<in>set gs. is = map fst (filter (\<lambda>p. snd p = t) dn)"
    and "set (map fst gs) = snd ` set dn" "distinct (map fst gs)"
  shows "\<forall>(t, is)\<in>set (insert_group x gs). is = map fst (filter (\<lambda>p. snd p = t) (dn @ [x]))"
proof (cases x)
  case (Pair i s)
  have gen: "\<forall>(t, is)\<in>set (insert_group (i, s) hs).
      is = map fst (filter (\<lambda>p. snd p = t) dn) @ (if t = s then [i] else [])"
    if "\<forall>(t, is)\<in>set hs. is = map fst (filter (\<lambda>p. snd p = t) dn)" "distinct (map fst hs)"
      "s \<notin> set (map fst hs) \<Longrightarrow> filter (\<lambda>p. snd p = s) dn = []" for hs
    using that
  proof (induction hs)
    case (Cons h hs)
    obtain t js where h: "h = (t, js)" by fastforce
    show ?case
    proof (cases "s = t")
      case True
      then show ?thesis using Cons.prems h by (fastforce simp: image_iff)
    next
      case False
      then have "\<forall>(t, is)\<in>set (insert_group (i, s) hs).
          is = map fst (filter (\<lambda>p. snd p = t) dn) @ (if t = s then [i] else [])"
        using Cons h by (auto simp: image_iff)
      then show ?thesis using Cons.prems h False by simp
    qed
  qed simp
  have "filter (\<lambda>p. snd p = s) dn = []" if "s \<notin> set (map fst gs)"
    using that assms(2) by (fastforce simp: filter_empty_conv image_iff)
  then show ?thesis using gen[OF assms(1,3)] by (fastforce simp: Pair)
qed

lemma fold_insert_group:
  "distinct (map fst (fold insert_group active [])) \<and>
   set (map fst (fold insert_group active [])) = snd ` set active \<and>
   (\<forall>(t, is)\<in>set (fold insert_group active []). is = map fst (filter (\<lambda>p. snd p = t) active))"
proof (induction active rule: rev_induct)
  case (snoc x xs)
  obtain i s where x: "x = (i, s)" by fastforce
  show ?case
    using snoc insert_group_content[of "fold insert_group xs []" xs x]
    by (auto simp: x insert_group_keys insert_group_distinct simp del: set_map)
qed simp

lemma group_content:
  assumes "(t, is) \<in> set (group_running_by_decode_step active)"
  shows "is = map fst (filter (\<lambda>p. snd p = t) active)"
  using assms fold_insert_group[of active] by (auto simp: group_running_by_decode_step_def)

lemma group_keys:
  "sorted_wrt (<) (map fst (group_running_by_decode_step active))"
  "set (map fst (group_running_by_decode_step active)) = snd ` set active"
proof -
  let ?g = "fold insert_group active []"
  have "mset (map fst (sort_key fst ?g)) = mset (map fst ?g)" by simp
  then have "distinct (map fst (sort_key fst ?g))" using fold_insert_group by (metis mset_eq_imp_distinct_iff)
  then show "sorted_wrt (<) (map fst (group_running_by_decode_step active))"
    unfolding group_running_by_decode_step_def strict_sorted_iff by simp
  show "set (map fst (group_running_by_decode_step active)) = snd ` set active"
    using fold_insert_group by (simp add: group_running_by_decode_step_def)
qed

section \<open>Padding of an admit wave\<close>

lemma pad_wave_row_eq:
  "pad_wave_row pad n row =
    (if prepared_prompt_len row \<le> length (pr_input_ids row)
     then Inr (take (prepared_prompt_len row) (pr_input_ids row) @ replicate (n - prepared_prompt_len row) pad,
               take (prepared_prompt_len row) (pr_attention_mask row) @ replicate (n - prepared_prompt_len row) 0)
     else Inl (Err ''prepared effective prompt len exceeds row capacity''))"
  using valid_count_le[of "pr_attention_mask row"]
  by (auto simp: pad_wave_row_def prepared_prompt_len_def Let_def)

lemma pad_wave_row_mask:
  assumes "attention_mask_is_right_padded mk" "length (take (valid_count mk) mk) = valid_count mk"
  shows "valid_count (take (valid_count mk) mk @ replicate k 0) = valid_count mk"
    "attention_mask_is_right_padded (take (valid_count mk) mk @ replicate k 0)"
proof -
  let ?n = "valid_count mk"
  have le: "?n \<le> length mk" by (rule valid_count_le)
  have nz: "mk ! i \<noteq> 0 \<longleftrightarrow> i < ?n" if "i < length mk" for i
    using assms(1) that by (simp add: right_padded_iff)
  have "filter (\<lambda>v. v \<noteq> 0) (take ?n mk) = take ?n mk"
    using le nz by (auto simp: filter_id_conv in_set_conv_nth)
  then show c: "valid_count (take ?n mk @ replicate k 0) = ?n" using le by (simp add: valid_count_def)
  show "attention_mask_is_right_padded (take ?n mk @ replicate k 0)"
    using le nz by (auto simp: right_padded_iff c nth_append)
qed

section \<open>Admission\<close>

lemma saturating_chain_le:
  assumes "cap < usize_max"
  shows "saturating_add (saturating_add a b) c \<le> cap \<longleftrightarrow> a + b + c \<le> cap"
  using assms by (auto simp: saturating_add_def min_def)

lemma can_admit_iff:
  assumes "cap < usize_max" "0 < n"
  shows "can_admit_with_projected_kv m cap len used n \<longleftrightarrow> used + div_ceil len (bm_block_size m) + n \<le> cap"
  using assms by (simp add: can_admit_with_projected_kv_def saturating_chain_le)

definition wave_blocks :: "block_manager \<Rightarrow> prepared_row list \<Rightarrow> (nat \<times> nat) list \<Rightarrow> nat" where
  "wave_blocks m prepared wave =
     sum_list (map (\<lambda>(ci, _). div_ceil (prepared_prompt_len (prepared ! ci)) (bm_block_size m)) wave)"

section \<open>Properties\<close>

text \<open>C14: The admission loop takes clients from the front of the queue only and puts them into
  free slots in slot order, at most \<^verbatim>\<open>max_slots\<close> running at once.  A wave it admits
  leaves one block of headroom for every running sequence on top of the blocks in use and the
  blocks of its prompts, and it stops only when the queue is empty, no slot is left or the
  next prompt would break the headroom.\<close>
theorem admission_is_fifo_with_headroom:
  assumes "cap < usize_max" "max_slots \<le> usize_max" "n \<le> max_slots"
    and "admit_loop m cap max_slots prepared running idxs used n waiting = (wave, rest)"
  shows "map fst wave @ rest = waiting \<and>
    subseq (map snd wave) (filter (\<lambda>i. running ! i = None) idxs) \<and>
    n + length wave \<le> max_slots \<and>
    (wave \<noteq> [] \<longrightarrow> used + wave_blocks m prepared wave + (n + length wave) \<le> cap) \<and>
    (rest \<noteq> [] \<and> n + length wave < max_slots \<and> length wave < length (filter (\<lambda>i. running ! i = None) idxs) \<longrightarrow>
      cap < used + wave_blocks m prepared wave +
        div_ceil (prepared_prompt_len (prepared ! hd rest)) (bm_block_size m) + (n + length wave + 1))"
  using assms(3,4)
proof (induction idxs arbitrary: used n waiting wave rest)
  case Nil
  then show ?case by (auto simp: wave_blocks_def)
next
  case (Cons i idxs)
  consider (busy) "running ! i \<noteq> None" | (full) "running ! i = None" "max_slots \<le> n"
    | (idle) "running ! i = None" "n < max_slots" "waiting = []"
    | (more) c ws where "running ! i = None" "n < max_slots" "waiting = c # ws"
    by (metis list.exhaust not_le)
  then show ?case
  proof cases
    case busy
    then show ?thesis using Cons.IH[OF Cons.prems(1), of used waiting wave rest] Cons.prems(2) by auto
  next
    case full
    then show ?thesis using Cons.prems by (auto simp: wave_blocks_def)
  next
    case idle
    then show ?thesis using Cons.prems by (auto simp: wave_blocks_def)
  next
    case more
    let ?k = "div_ceil (prepared_prompt_len (prepared ! c)) (bm_block_size m)"
    have n1: "saturating_add n 1 = n + 1" using more(2) assms(2) by (simp add: saturating_add_def)
    note adm = can_admit_iff[OF assms(1), of "n + 1" m "prepared_prompt_len (prepared ! c)" used]
    show ?thesis
    proof (cases "used + ?k + (n + 1) \<le> cap")
      case False
      then show ?thesis using Cons.prems more n1 adm by (auto simp: wave_blocks_def Let_def)
    next
      case True
      have u: "saturating_add used ?k = used + ?k" using True assms(1) by (simp add: saturating_add_def)
      obtain wave' where w: "wave = (c, i) # wave'"
        "admit_loop m cap max_slots prepared running idxs (used + ?k) (n + 1) ws = (wave', rest)"
        using Cons.prems more n1 adm True u by (auto simp: Let_def split: prod.splits)
      show ?thesis using Cons.IH[OF _ w(2)] more w(1) True by (auto simp: wave_blocks_def)
    qed
  qed
qed

definition example_prepared :: "prepared_row list" where
  "example_prepared = [\<lparr>pr_input_ids = [5, 6, 7], pr_attention_mask = [1, 1, 1]\<rparr>,
     \<lparr>pr_input_ids = [8], pr_attention_mask = [1]\<rparr>, \<lparr>pr_input_ids = [9, 9], pr_attention_mask = [1, 1]\<rparr>]"

theorem admission_is_fifo_with_headroom_witness:
  "admit_loop (new_block_manager 6 2) 5 3 example_prepared [None, None, None] [0, 1, 2] 0 0 [0, 1, 2] = ([(0, 0), (1, 1)], [2]) \<and>
   0 + wave_blocks (new_block_manager 6 2) example_prepared [(0, 0), (1, 1)] + (0 + 2) \<le> 5"
proof -
  have run: "admit_loop (new_block_manager 6 2) 5 3 example_prepared [None, None, None] [0, 1, 2] 0 0 [0, 1, 2]
      = ([(0, 0), (1, 1)], [2])"
    by (simp add: example_prepared_def new_block_manager_def prepared_prompt_len_def valid_count_def
        can_admit_with_projected_kv_def div_ceil_def saturating_add_def max_values Let_def)
  show ?thesis
    using run admission_is_fifo_with_headroom[OF _ _ _ run] by (simp add: max_values)
qed

text \<open>The slots of one pass are decoded in groups by their decode step: one group per step
  in use, in increasing order of the step, and a group lists exactly the slots at its step in
  slot order.\<close>
theorem step_groups_partition:
  "sorted_wrt (<) (map fst (group_running_by_decode_step active)) \<and>
   set (map fst (group_running_by_decode_step active)) = snd ` set active \<and>
   (\<forall>(t, is)\<in>set (group_running_by_decode_step active). is = map fst (filter (\<lambda>p. snd p = t) active))"
proof (intro conjI group_keys)
  show "\<forall>(t, is)\<in>set (group_running_by_decode_step active). is = map fst (filter (\<lambda>p. snd p = t) active)"
    by clarify (rule group_content)
qed

theorem step_groups_partition_witness:
  "group_running_by_decode_step [(0, 2), (1, 2), (2, 0), (3, 1)] = [(0, [2]), (1, [3]), (2, [0, 1])] \<and>
   [0, 1] = map fst (filter (\<lambda>p. snd p = 2) [(0::nat, 2::nat), (1, 2), (2, 0), (3, 1)])"
proof -
  have run: "group_running_by_decode_step [(0, 2), (1, 2), (2, 0), (3, 1)] = [(0, [2]), (1, [3]), (2, [0, 1])]"
    by (simp add: group_running_by_decode_step_def)
  show ?thesis using run step_groups_partition[of "[(0, 2), (1, 2), (2, 0), (3, 1)]"] unfolding run by simp
qed

text \<open>C15: A padded admit wave keeps every prompt and is what the prefill expects: rows of one
  common length, each the valid prefix of its segment followed by padding, and the prefill
  takes it as it is, with the effective prompt lengths, without normalising it again.\<close>
theorem wave_padding_feeds_prefill:
  assumes "pad_prepared_wave_for_prefill prepared wave pad = Inr (ids, masks)"
    and "\<forall>row\<in>set prepared. attention_mask_is_right_padded (pr_attention_mask row)"
  shows "prefill_rows ids masks = Inr (ids, masks, map (\<lambda>i. prepared_prompt_len (prepared ! i)) wave) \<and>
    (\<exists>L. 0 < L \<and> L \<in> set (map (\<lambda>i. prepared_prompt_len (prepared ! i)) wave) \<and>
      (\<forall>k < length wave. let row = prepared ! (wave ! k); n = prepared_prompt_len row in
        n \<le> L \<and> ids ! k = take n (pr_input_ids row) @ replicate (L - n) pad \<and>
        length (ids ! k) = L \<and> length (masks ! k) = L \<and> valid_count (masks ! k) = n))"
proof -
  obtain rows padded where r: "wave \<noteq> []" "traverse (index_r prepared) wave = Inr rows"
    "max_or_0 (map prepared_prompt_len rows) \<noteq> 0"
    "traverse (pad_wave_row pad (max_or_0 (map prepared_prompt_len rows))) rows = Inr padded"
    "ids = map fst padded" "masks = map snd padded"
    using assms(1) by (auto simp: pad_prepared_wave_for_prefill_def Let_def)
  let ?L = "max_or_0 (map prepared_prompt_len rows)"
  have len: "length rows = length wave" "length padded = length wave"
    using traverse_length[OF r(2)] traverse_length[OF r(4)] by simp_all
  have row: "rows ! k = prepared ! (wave ! k) \<and> wave ! k < length prepared" if "k < length wave" for k
    using traverse_nth[OF r(2) that] by simp
  have eq: "rows = map (\<lambda>i. prepared ! i) wave" using len row by (intro nth_equalityI) simp_all
  have max: "prepared_prompt_len (rows ! k) \<le> ?L" if "k < length wave" for k
    using that len max_or_0_ge[of "prepared_prompt_len (rows ! k)" "map prepared_prompt_len rows"] by simp
  have at: "padded ! k = (take n (pr_input_ids (rows ! k)) @ replicate (?L - n) pad,
        take n (pr_attention_mask (rows ! k)) @ replicate (?L - n) 0) \<and> n \<le> length (pr_input_ids (rows ! k))"
    if "k < length wave" "n = prepared_prompt_len (rows ! k)" for k n
    using traverse_nth[OF r(4), of k] that len by (simp add: pad_wave_row_eq split: if_splits)
  have mk: "valid_count (masks ! k) = prepared_prompt_len (rows ! k) \<and> attention_mask_is_right_padded (masks ! k)"
    if k: "k < length wave" for k
  proof -
    have "attention_mask_is_right_padded (pr_attention_mask (rows ! k))" using row[OF k] assms(2) by simp
    then show ?thesis
      using at[OF k refl] pad_wave_row_mask valid_count_le[of "pr_attention_mask (rows ! k)"] k len
      by (simp add: r(6) prepared_prompt_len_def)
  qed
  have pad: "attention_masks_are_right_padded masks"
    unfolding attention_masks_are_right_padded_def using mk len by (metis in_set_conv_nth length_map r(6))
  have lens: "map valid_count masks = map prepared_prompt_len rows"
    using mk len by (intro nth_equalityI) (simp_all add: r(6))
  have "prefill_rows ids masks = Inr (ids, masks, map (\<lambda>i. prepared_prompt_len (prepared ! i)) wave)"
    using pad lens by (simp add: prefill_rows_def eq)
  moreover have "?L \<in> set (map (\<lambda>i. prepared_prompt_len (prepared ! i)) wave)"
    using r(1) max_or_0_in[of "map prepared_prompt_len rows"] by (auto simp: eq)
  moreover have "let row = prepared ! (wave ! k); n = prepared_prompt_len row in
        n \<le> ?L \<and> ids ! k = take n (pr_input_ids row) @ replicate (?L - n) pad \<and>
        length (ids ! k) = ?L \<and> length (masks ! k) = ?L \<and> valid_count (masks ! k) = n" if "k < length wave" for k
    using at[OF that refl] max[OF that] mk[OF that] row[OF that] that len
      valid_count_le[of "pr_attention_mask (rows ! k)"]
    by (simp add: r(5,6) Let_def prepared_prompt_len_def)
  ultimately show ?thesis using r(3) by (intro conjI exI[of _ ?L]) auto
qed

theorem wave_padding_feeds_prefill_witness:
  "prefill_rows [[5, 6, 7], [9, 9, 0]] [[1, 1, 1], [1, 1, 0]] = Inr ([[5, 6, 7], [9, 9, 0]], [[1, 1, 1], [1, 1, 0]], [3, 2])"
proof -
  have run: "pad_prepared_wave_for_prefill example_prepared [0, 2] 0 = Inr ([[5, 6, 7], [9, 9, 0]], [[1, 1, 1], [1, 1, 0]])"
    by code_simp
  have "\<forall>row\<in>set example_prepared. attention_mask_is_right_padded (pr_attention_mask row)" by code_simp
  from wave_padding_feeds_prefill[OF run this]
  show ?thesis by (simp add: example_prepared_def prepared_prompt_len_def valid_count_def)
qed

end
