(* ===== verification/SchedulerStep.thy ===== *)
theory SchedulerStep
  imports BatchScheduler
begin

text \<open>
  What one decode step of \<^verbatim>\<open>vasr-models/src/inference/batch_scheduler.rs\<close> does to the
  pool and to the slots.  \<^verbatim>\<open>held\<close> is the view of the pool from the requests that run: other
  requests own what they owned before, and, when the pool is large enough
  (\<^verbatim>\<open>lim = Some (K, bs)\<close>), every running request owns at most \<open>K\<close> blocks, so that
  every allocation succeeds.
\<close>

section \<open>The pool as the running requests see it\<close>

definition roomy :: "nat \<Rightarrow> nat set \<Rightarrow> block_manager \<Rightarrow> nat \<times> nat \<Rightarrow> bool" where
  "roomy N R m = (\<lambda>(K, bs). bm_block_size m = bs \<and> finite R \<and> card R * K \<le> N - 1 \<and>
     (\<forall>r. length (blocks_of m r) \<le> (if r \<in> R then K else 0)))"

definition held ::
  "nat \<Rightarrow> (nat \<Rightarrow> nat list) \<Rightarrow> (nat \<times> nat) option \<Rightarrow> nat set \<Rightarrow> 'g cache_runtime \<Rightarrow> bool" where
  "held N F lim R rt \<longleftrightarrow> bm_inv N (rt_manager rt) \<and> (\<forall>r. r \<notin> R \<longrightarrow> blocks_of (rt_manager rt) r = F r) \<and>
     (\<forall>l. lim = Some l \<longrightarrow> roomy N R (rt_manager rt) l)"

lemma held_inv: "held N F lim R rt \<Longrightarrow> bm_inv N (rt_manager rt)"
  by (simp add: held_def)

lemma held_cong: "held N F lim R rt \<Longrightarrow> rt_manager rt' = rt_manager rt \<Longrightarrow> held N F lim R rt'"
  by (simp add: held_def)

lemma held_update:
  assumes "held N F lim R rt" "r \<in> R" "bm_inv N m'" "bm_block_size m' = bm_block_size (rt_manager rt)"
    and "\<And>q. q \<noteq> r \<Longrightarrow> blocks_of m' q = blocks_of (rt_manager rt) q"
    and "\<And>K bs. lim = Some (K, bs) \<Longrightarrow> length (blocks_of m' r) \<le> max (length (blocks_of (rt_manager rt) r)) K"
  shows "held N F lim R (rt\<lparr>rt_manager := m'\<rparr>)"
proof -
  have "blocks_of m' q = F q" if "q \<notin> R" for q
    using that assms(1,2,5) by (metis held_def)
  moreover have "roomy N R m' l" if l: "lim = Some l" for l
  proof -
    obtain K bs where kb: "l = (K, bs)" by fastforce
    have old: "roomy N R (rt_manager rt) (K, bs)" using assms(1) l kb by (simp add: held_def)
    have "length (blocks_of m' q) \<le> (if q \<in> R then K else 0)" for q
    proof (cases "q = r")
      case True
      have "length (blocks_of (rt_manager rt) r) \<le> K" using old assms(2) by (auto simp: roomy_def split: if_splits)
      then show ?thesis using assms(6)[OF l[unfolded kb]] True assms(2) by simp
    qed (use old assms(5) in \<open>simp add: roomy_def\<close>)
    then show ?thesis using old assms(4) by (simp add: kb roomy_def)
  qed
  ultimately show ?thesis using assms(3) by (simp add: held_def)
qed

lemma total_allocated_bound:
  assumes "bm_inv N m" "roomy N R m (K, bs)" "r \<in> R"
  shows "total_allocated_blocks m \<le> length (blocks_of m r) + (card R - 1) * K"
proof -
  have fin: "finite R" and le: "\<And>q. length (blocks_of m q) \<le> (if q \<in> R then K else 0)"
    using assms(2) unfolding roomy_def by auto
  have "q \<in> R" if "b \<in> set (blocks_of m q)" for b q
    using le[of q] that by (auto split: if_splits)
  then have "(\<Union>q. set (blocks_of m q)) = (\<Union>q\<in>R. set (blocks_of m q))" by blast
  then have "total_allocated_blocks m \<le> (\<Sum>q\<in>R. card (set (blocks_of m q)))"
    unfolding total_allocated_card[OF assms(1)] using card_UN_le[OF fin, of "\<lambda>q. set (blocks_of m q)"] by simp
  also have "\<dots> = card (set (blocks_of m r)) + (\<Sum>q\<in>R - {r}. card (set (blocks_of m q)))"
    by (rule sum.remove[OF fin assms(3)])
  also have "\<dots> \<le> length (blocks_of m r) + (card R - 1) * K"
  proof (rule add_mono[OF card_length])
    have "card (set (blocks_of m q)) \<le> K" for q
      using le[of q] card_length[of "blocks_of m q"] by (auto split: if_splits)
    then have "(\<Sum>q\<in>R - {r}. card (set (blocks_of m q))) \<le> (\<Sum>q\<in>R - {r}. K)" by (rule sum_mono)
    then show "(\<Sum>q\<in>R - {r}. card (set (blocks_of m q))) \<le> (card R - 1) * K"
      using fin assms(3) by simp
  qed
  finally show ?thesis .
qed

lemma room_for_growth:
  assumes "bm_inv N m" "roomy N R m (K, bs)" "r \<in> R"
  shows "K \<le> free_blocks m + length (blocks_of m r)"
proof -
  have fin: "finite R" and card: "card R * K \<le> N - 1" using assms(2) by (auto simp: roomy_def)
  have "0 < card R" using fin assms(3) by (auto simp: card_gt_0_iff)
  then have "(card R - 1) * K + K = card R * K" by (cases "card R") simp_all
  then show ?thesis using card total_allocated_bound[OF assms] conservation[OF assms(1)]
    by (simp add: allocatable_block_capacity_def saturating_sub_def)
qed

lemma held_try_allocate:
  assumes "held N F lim R rt" "r \<in> R" "try_allocate_slots (rt_manager rt) r n = (res, m')"
    and "\<And>K bs. lim = Some (K, bs) \<Longrightarrow> div_ceil n bs \<le> K"
  shows "held N F lim R (rt\<lparr>rt_manager := m'\<rparr>) \<and> (lim \<noteq> None \<longrightarrow> res = Inr True)"
proof -
  let ?m = "rt_manager rt"
  note inv = held_inv[OF assms(1)] note pos = bm_inv_pos[OF inv]
  note eq = assms(3)[unfolded try_allocate_eq[OF pos]]
  have size: "K \<ge> div_ceil n (bm_block_size ?m) \<and> roomy N R ?m (K, bs)" if "lim = Some (K, bs)" for K bs
    using assms(1) assms(4)[OF that] that by (auto simp: held_def roomy_def)
  have "bm_inv N m'" using try_allocate_inv[OF inv, of r n] assms(3) by simp
  moreover have "blocks_of m' q = blocks_of ?m q" if "q \<noteq> r" for q using eq that by (auto split: if_splits)
  moreover have "bm_block_size m' = bm_block_size ?m" using eq by (auto split: if_splits)
  moreover have "length (blocks_of m' r) \<le> max (length (blocks_of ?m r)) (div_ceil n (bm_block_size ?m))"
    using eq by (auto simp: blocks_needed_def split: if_splits)
  then have "length (blocks_of m' r) \<le> max (length (blocks_of ?m r)) K" if "lim = Some (K, bs)" for K bs
    using size[OF that] by linarith
  moreover have "res = Inr True" if l: "lim = Some (K, bs)" for K bs
  proof -
    have "K \<le> length (bm_free ?m) + length (blocks_of ?m r)" "div_ceil n (bm_block_size ?m) \<le> K"
      using room_for_growth[OF inv _ assms(2), of K bs] size[OF l] by (simp_all add: free_blocks_def)
    then have "\<not> length (bm_free ?m) < blocks_needed ?m r n" unfolding blocks_needed_def by linarith
    then show ?thesis using eq by (auto split: if_splits)
  qed
  ultimately show ?thesis using held_update[OF assms(1,2), of m'] by auto
qed

lemma held_trim:
  assumes "held N F lim R rt" "r \<in> R" "trim_request_to_num_tokens (rt_manager rt) r n = Inr m'"
  shows "held N F lim R (rt\<lparr>rt_manager := m'\<rparr>)"
  using trim_blocks_of[OF held_inv[OF assms(1)] assms(3)] trim_inv[OF held_inv[OF assms(1)] assms(3)]
  by (intro held_update[OF assms(1,2)]) simp_all

lemma held_manager_trim:
  assumes "held N F lim R rt" "r \<in> R" "manager_trim r n rt = (res, rt')"
  shows "held N F lim R rt'"
proof (cases "trim_request_to_num_tokens (rt_manager rt) r n")
  case (Inl e)
  then show ?thesis using assms by (simp add: manager_trim_def modifyR_def)
next
  case (Inr m')
  then have "rt' = rt\<lparr>rt_manager := m'\<rparr>" using assms(3) by (simp add: manager_trim_def modifyR_def)
  then show ?thesis using held_trim[OF assms(1,2) Inr] by simp
qed

text \<open>Giving the blocks of a request back removes it from the running set.\<close>

lemma held_release:
  assumes "held N F lim R rt" "F r = []"
  shows "held N F lim (R - {r}) (paged_batch_free_slots [r] rt)"
proof -
  note inv = held_inv[OF assms(1)]
  have eq: "rt_manager (paged_batch_free_slots [r] rt) = free_request (rt_manager rt) r"
    by (simp add: paged_batch_free_slots_def free_many_def)
  have "roomy N (R - {r}) (free_request (rt_manager rt) r) l" if "lim = Some l" for l
  proof -
    obtain K bs where kb: "l = (K, bs)" by fastforce
    have old: "roomy N R (rt_manager rt) (K, bs)" using assms(1) that kb by (simp add: held_def)
    then have "card R * K \<le> N - 1" by (simp add: roomy_def)
    then have "card (R - {r}) * K \<le> N - 1"
      using mult_le_mono1[OF card_Diff1_le[of R r], of K] by linarith
    moreover have "length (blocks_of (free_request (rt_manager rt) r) q) \<le> (if q \<in> R - {r} then K else 0)" for q
    proof -
      have "length (blocks_of (rt_manager rt) q) \<le> (if q \<in> R then K else 0)"
        using old unfolding roomy_def by blast
      then show ?thesis by (cases "q = r") (simp_all add: free_request_blocks_of)
    qed
    ultimately show ?thesis using old by (simp add: kb roomy_def)
  qed
  moreover have "blocks_of (free_request (rt_manager rt) r) q = F q" if "q \<notin> R - {r}" for q
    using that assms by (cases "q = r") (simp_all add: free_request_blocks_of held_def)
  ultimately show ?thesis using free_request_inv[OF inv, of r] by (simp add: held_def eq)
qed

section \<open>One step of a group of slots\<close>

definition slot_ok :: "nat list \<Rightarrow> nat \<Rightarrow> nat \<Rightarrow> decode_slot \<Rightarrow> bool" where
  "slot_ok eos P max_new s \<longleftrightarrow> length (ds_generated s) \<le> ds_decode_step s \<and> ds_decode_step s \<le> max_new \<and>
     ds_prompt_len s \<le> P \<and> (\<forall>t\<in>set (ds_generated s). t \<notin> set eos)"

text \<open>The block bound of a sequence: prompt and answer together.\<close>

definition seq_limit :: "(nat \<times> nat) option \<Rightarrow> nat \<Rightarrow> nat \<Rightarrow> bool" where
  "seq_limit lim P max_new \<longleftrightarrow> (\<forall>K bs. lim = Some (K, bs) \<longrightarrow> 0 < bs \<and> K = div_ceil (P + max_new) bs)"

lemma alloc_slot_step:
  assumes "alloc_slot dec i (rt, slots) = (res, (rt', slots'))" "held N F lim R rt"
    and "i < length slots \<Longrightarrow> ds_request_id (slots ! i) \<in> R"
    and "\<And>K bs. lim = Some (K, bs) \<Longrightarrow> i < length slots \<Longrightarrow>
      div_ceil (ds_prompt_len (slots ! i) + length (ds_generated (slots ! i)) + 1) bs \<le> K"
  shows "slots' = slots \<and> held N F lim R rt' \<and>
    (\<forall>d. res = Inr d \<longrightarrow> (d = dec \<or> d = dec @ [i]) \<and> (lim \<noteq> None \<longrightarrow> d = dec @ [i]))"
proof (cases "i < length slots \<and> ds_prompt_len (slots ! i) + length (ds_generated (slots ! i)) + 1 \<le> usize_max")
  case False
  have "\<exists>e. alloc_slot dec i (rt, slots) = (Inl e, (rt, slots))"
  proof (cases "i < length slots")
    case True
    then have "Option.bind (checked_add (ds_prompt_len (slots ! i)) (length (ds_generated (slots ! i))))
        (\<lambda>n. checked_add n 1) = None"
      using False by (auto simp: checked_add_def)
    then show ?thesis using True by (simp add: alloc_slot_def bindP_def getsR_def index_r_ok)
  qed (simp add: alloc_slot_def bindP_def getsR_def index_r_def get_def)
  then show ?thesis using assms(1,2) by auto
next
  case True
  let ?s = "slots ! i" let ?n = "ds_prompt_len ?s + length (ds_generated ?s) + 1"
  obtain ok m' where t: "try_allocate_slots (rt_manager rt) (ds_request_id ?s) ?n = (ok, m')" by fastforce
  have h: "held N F lim R (rt\<lparr>rt_manager := m'\<rparr>)" "lim \<noteq> None \<longrightarrow> ok = Inr True"
    using held_try_allocate[OF assms(2) _ t] assms(3,4) True by auto
  have "alloc_slot dec i (rt, slots) =
      (rbind ok (\<lambda>b. Inr (if b then dec @ [i] else dec)), (rt\<lparr>rt_manager := m'\<rparr>, slots))"
    using True t by (cases ok)
      (simp_all add: alloc_slot_def bindP_def getsR_def on_rt_def manager_op_def ret_def checked_add_def index_r_ok)
  then show ?thesis using assms(1) h by (cases ok) auto
qed

lemma alloc_slots:
  assumes "foldP alloc_slot dec idxs (rt, slots) = (res, (rt', slots'))" "held N F lim R rt"
    and "\<forall>i\<in>set idxs. i < length slots \<longrightarrow> ds_request_id (slots ! i) \<in> R"
    and "\<forall>K bs. lim = Some (K, bs) \<longrightarrow> (\<forall>i\<in>set idxs. i < length slots \<longrightarrow>
      div_ceil (ds_prompt_len (slots ! i) + length (ds_generated (slots ! i)) + 1) bs \<le> K)"
  shows "slots' = slots \<and> held N F lim R rt' \<and>
    (\<forall>d. res = Inr d \<longrightarrow> (\<exists>ds. d = dec @ ds \<and> set ds \<subseteq> set idxs \<and> (distinct idxs \<longrightarrow> distinct ds) \<and>
       (lim \<noteq> None \<longrightarrow> ds = idxs)))"
  using assms
proof (induction idxs arbitrary: dec rt)
  case (Cons i idxs)
  obtain r1 rt1 slots1 where a: "alloc_slot dec i (rt, slots) = (r1, (rt1, slots1))" by (rule prod_cases3)
  note step = alloc_slot_step[OF a Cons.prems(2)]
  have s1: "slots1 = slots" "held N F lim R rt1"
    and d1: "\<And>d. r1 = Inr d \<Longrightarrow> (d = dec \<or> d = dec @ [i]) \<and> (lim \<noteq> None \<longrightarrow> d = dec @ [i])"
    using step Cons.prems(3,4) by auto
  show ?case
  proof (cases r1)
    case (Inl e)
    then have "res = Inl e" "rt' = rt1" "slots' = slots" using Cons.prems(1) a s1 by (simp_all add: bindP_def)
    then show ?thesis using s1 by simp
  next
    case (Inr d)
    have "foldP alloc_slot d idxs (rt1, slots) = (res, (rt', slots'))"
      using Cons.prems(1) a s1 Inr by (simp add: bindP_def)
    from Cons.IH[OF this s1(2)] Cons.prems(3,4)
    have ih: "slots' = slots" "held N F lim R rt'"
      "\<forall>d'. res = Inr d' \<longrightarrow> (\<exists>ds. d' = d @ ds \<and> set ds \<subseteq> set idxs \<and> (distinct idxs \<longrightarrow> distinct ds) \<and>
         (lim \<noteq> None \<longrightarrow> ds = idxs))" by simp_all
    have "\<exists>ds. d' = dec @ ds \<and> set ds \<subseteq> set (i # idxs) \<and> (distinct (i # idxs) \<longrightarrow> distinct ds) \<and>
         (lim \<noteq> None \<longrightarrow> ds = i # idxs)" if r: "res = Inr d'" for d'
    proof -
      obtain ds where ds: "d' = d @ ds" "set ds \<subseteq> set idxs" "distinct idxs \<longrightarrow> distinct ds" "lim \<noteq> None \<longrightarrow> ds = idxs"
        using ih(3) r by blast
      show ?thesis
      proof (cases "d = dec @ [i]")
        case True
        then show ?thesis using ds by (intro exI[of _ "i # ds"]) auto
      next
        case False
        then show ?thesis using ds d1[OF Inr] by (intro exI[of _ ds]) auto
      qed
    qed
    then show ?thesis using ih(1,2) by blast
  qed
qed (auto simp: ret_def)

definition emitted_slot :: "nat list \<Rightarrow> decode_slot \<Rightarrow> decode_slot" where
  "emitted_slot eos s = (if ds_next_id s \<in> set eos then s\<lparr>ds_finished := True\<rparr>
     else s\<lparr>ds_generated := ds_generated s @ [ds_next_id s]\<rparr>)"

lemma emit_slots:
  assumes "foldP (emit_slot eos) act idxs (rt, slots) = (res, (rt', slots'))" "held N F lim R rt"
    and "distinct idxs" "\<forall>i\<in>set idxs. i < length slots \<and> ds_request_id (slots ! i) \<in> R"
  shows "held N F lim R rt' \<and>
    (\<forall>d. res = Inr d \<longrightarrow> d = act @ filter (\<lambda>i. ds_next_id (slots ! i) \<notin> set eos) idxs \<and>
       length slots' = length slots \<and>
       (\<forall>i < length slots. slots' ! i = (if i \<in> set idxs then emitted_slot eos (slots ! i) else slots ! i)))"
  using assms
proof (induction idxs arbitrary: act rt slots)
  case (Cons i idxs)
  have i: "i < length slots" "ds_request_id (slots ! i) \<in> R" using Cons.prems(4) by auto
  let ?new = "slots[i := emitted_slot eos (slots ! i)]"
  have later: "?new ! j = slots ! j" if "j \<in> set idxs" for j using that Cons.prems(3)
    by (metis distinct.simps(2) nth_list_update_neq)
  then have pre: "\<forall>j\<in>set idxs. j < length ?new \<and> ds_request_id (?new ! j) \<in> R" using Cons.prems(4) by simp
  have filt: "filter (\<lambda>j. ds_next_id (?new ! j) \<notin> set eos) idxs = filter (\<lambda>j. ds_next_id (slots ! j) \<notin> set eos) idxs"
    using later by (intro filter_cong) simp_all
  have rest: ?case if r: "foldP (emit_slot eos) (act @ (if ds_next_id (slots ! i) \<in> set eos then [] else [i])) idxs (rt1, ?new)
      = (res, (rt', slots'))" and h: "held N F lim R rt1" for rt1
  proof -
    note ih = Cons.IH[OF r h _ pre]
    have d: "distinct idxs" "i \<notin> set idxs" using Cons.prems(3) by auto
    have "slots' ! j = (if j \<in> set (i # idxs) then emitted_slot eos (slots ! j) else slots ! j)"
      if "res = Inr acts" "j < length slots" for acts j
      using ih d that i(1) by (cases "j = i") auto
    then show ?thesis using ih d by (auto simp: filt)
  qed
  show ?case
  proof (cases "ds_next_id (slots ! i) \<in> set eos")
    case False
    then have "emit_slot eos act i (rt, slots) = (Inr (act @ [i]), (rt, ?new))"
      using i(1)
      by (simp add: emit_slot_def bindP_def getsR_def modifyP_def ret_def index_r_ok upd_slot_def emitted_slot_def)
    then have "foldP (emit_slot eos) (act @ [i]) idxs (rt, ?new) = (res, (rt', slots'))"
      using Cons.prems(1) by (simp add: bindP_def)
    then show ?thesis using rest[of rt] False Cons.prems(2) by simp
  next
    case True
    obtain tr rt1 where t: "manager_trim (ds_request_id (slots ! i))
        (ds_prompt_len (slots ! i) + length (ds_generated (slots ! i))) rt = (tr, rt1)" by fastforce
    have h1: "held N F lim R rt1" by (rule held_manager_trim[OF Cons.prems(2) i(2) t])
    have eq: "bindP (emit_slot eos act i) (\<lambda>b. foldP (emit_slot eos) b idxs) (rt, slots) =
        (case tr of Inl e \<Rightarrow> (Inl e, (rt1, ?new)) | Inr _ \<Rightarrow> foldP (emit_slot eos) act idxs (rt1, ?new))"
      using True i(1) t
      by (simp add: emit_slot_def bindP_def getsR_def modifyP_def ret_def on_rt_def index_r_ok upd_slot_def
          emitted_slot_def split: sum.split)
    show ?thesis
    proof (cases tr)
      case (Inl e)
      then have "res = Inl e" "rt' = rt1" using Cons.prems(1) eq by simp_all
      then show ?thesis using h1 by simp
    next
      case (Inr u)
      then show ?thesis using Cons.prems(1) eq rest[of rt1] h1 True by simp
    qed
  qed
qed (auto simp: ret_def)

lemma advance_slots:
  assumes "forP ps (advance_slot nxt) (rt, slots) = (Inr u, (rt', slots'))" "distinct (map snd ps)"
    and "\<forall>p\<in>set ps. snd p < length slots"
  shows "rt' = rt \<and> length slots' = length slots \<and>
    (\<forall>i < length slots. \<exists>tok. slots' ! i = (if i \<in> snd ` set ps
       then (slots ! i)\<lparr>ds_next_id := tok, ds_decode_step := saturating_add (ds_decode_step (slots ! i)) 1\<rparr>
       else slots ! i))"
  using assms
proof (induction ps arbitrary: slots)
  case (Cons p ps)
  obtain k i where p: "p = (k, i)" by fastforce
  obtain tok where tok: "get nxt k = Some tok" and
    rest: "forP ps (advance_slot nxt) (rt, slots[i := (slots ! i)\<lparr>ds_next_id := tok,
        ds_decode_step := saturating_add (ds_decode_step (slots ! i)) 1\<rparr>]) = (Inr u, (rt', slots'))"
    using Cons.prems(1) unfolding forP_def p
    by (auto simp: bindP_def advance_slot_def liftR_def modifyP_def upd_slot_def ok_or_def
        split: option.splits sum.splits)
  let ?new = "slots[i := (slots ! i)\<lparr>ds_next_id := tok, ds_decode_step := saturating_add (ds_decode_step (slots ! i)) 1\<rparr>]"
  have ih: "rt' = rt \<and> length slots' = length ?new \<and> (\<forall>j < length ?new. \<exists>tok. slots' ! j = (if j \<in> snd ` set ps
       then (?new ! j)\<lparr>ds_next_id := tok, ds_decode_step := saturating_add (ds_decode_step (?new ! j)) 1\<rparr>
       else ?new ! j))"
    by (rule Cons.IH[OF rest]) (use Cons.prems(2,3) in auto)
  have "i \<notin> snd ` set ps" "i < length slots" using Cons.prems(2,3) by (auto simp: p)
  then have at: "?new ! j = slots ! j" if "j \<noteq> i" for j using that by simp
  show ?case
  proof (intro conjI allI impI)
    fix j assume j: "j < length slots"
    show "\<exists>tok. slots' ! j = (if j \<in> snd ` set (p # ps)
       then (slots ! j)\<lparr>ds_next_id := tok, ds_decode_step := saturating_add (ds_decode_step (slots ! j)) 1\<rparr>
       else slots ! j)"
    proof (cases "j = i")
      case True
      have "slots' ! i = ?new ! i" using ih \<open>i \<notin> snd ` set ps\<close> \<open>i < length slots\<close> by auto
      then show ?thesis using \<open>i < length slots\<close> by (intro exI[of _ tok]) (simp add: True p)
    next
      case False
      have "\<exists>tok. slots' ! j = (if j \<in> snd ` set ps
          then (?new ! j)\<lparr>ds_next_id := tok, ds_decode_step := saturating_add (ds_decode_step (?new ! j)) 1\<rparr>
          else ?new ! j)"
        using ih j by simp
      then show ?thesis unfolding at[OF False] using False by (simp add: p)
    qed
  qed (use ih in simp_all)
qed (simp add: forP_def ret_def)

lemma bindP_liftR: "bindP (liftR r) f s = (case r of Inl e \<Rightarrow> (Inl e, s) | Inr x \<Rightarrow> f x s)"
  by (simp add: bindP_def liftR_def split: sum.split)

lemma on_rt_Inr_iff:
  "on_rt p (rt, st) = (Inr x, s') \<longleftrightarrow> (\<exists>rt'. p rt = (Inr x, rt') \<and> s' = (rt', st))"
  by (auto simp: on_rt_def split: prod.splits)

lemma forward_slots_spec:
  assumes "forward_slots en step active (rt, slots) = (res, (rt', slots'))" "held N F lim R rt"
    and "distinct active" "\<forall>i\<in>set active. i < length slots"
  shows "held N F lim R rt' \<and> (\<forall>u. res = Inr u \<longrightarrow> length slots' = length slots \<and>
    (\<forall>i < length slots. \<exists>tok. slots' ! i = (if i \<in> set active
       then (slots ! i)\<lparr>ds_next_id := tok, ds_decode_step := saturating_add (ds_decode_step (slots ! i)) 1\<rparr>
       else slots ! i)))"
proof -
  have adv: "keeps (\<lambda>s. held N F lim R (fst s)) (forP (enumerate 0 active) (advance_slot nxt))" for nxt
    unfolding advance_slot_def by (auto intro!: keeps_intros keeps_modifyP)
  have fwd: "keeps (\<lambda>s. held N F lim R (fst s)) (on_rt (paged_batch_decode_forward en toks pos md))" for toks pos md
    by (rule keepsI) (auto simp: on_rt_def split: prod.splits dest!: decode_forward_keeps intro: held_cong)
  have K: "keeps (\<lambda>s. held N F lim R (fst s)) (forward_slots en step active)"
    unfolding forward_slots_def by (intro keeps_intros adv fwd)
  have h: "held N F lim R rt'" using keepsD[OF K _ assms(1)] assms(2) by simp
  have "length slots' = length slots \<and> (\<forall>i < length slots. \<exists>tok. slots' ! i = (if i \<in> set active
       then (slots ! i)\<lparr>ds_next_id := tok, ds_decode_step := saturating_add (ds_decode_step (slots ! i)) 1\<rparr>
       else slots ! i))" if r: "res = Inr u" for u
  proof -
    obtain rt2 nxt where f: "forP (enumerate 0 active) (advance_slot nxt) (rt2, slots) = (Inr u, (rt', slots'))"
      using assms(1)[unfolded r] unfolding forward_slots_def
      by (auto simp: bindP_Inr_iff basic_Inr_iff on_rt_Inr_iff)
    have snds: "map snd (enumerate 0 active) = active" by simp
    then have img: "snd ` set (enumerate 0 active) = set active" by (metis list.set_map)
    have "\<forall>p\<in>set (enumerate 0 active). snd p < length slots" using assms(4) img by blast
    from advance_slots[OF f _ this] assms(3) show ?thesis unfolding snds img by blast
  qed
  then show ?thesis using h by blast
qed

text \<open>What a step does to one slot; in a pool that is large enough every slot at the step moves on.\<close>

definition slot_step ::
  "nat list \<Rightarrow> nat \<Rightarrow> nat \<Rightarrow> bool \<Rightarrow> nat \<Rightarrow> decode_slot \<Rightarrow> decode_slot \<Rightarrow> bool" where
  "slot_step eos P max_new moves step s s' \<longleftrightarrow> ds_request_id s' = ds_request_id s \<and>
     (slot_ok eos P max_new s \<longrightarrow> slot_ok eos P max_new s') \<and>
     (moves \<and> \<not> ds_finished s \<and> ds_decode_step s = step \<longrightarrow> ds_finished s' \<or> ds_decode_step s' = Suc step)"

lemma slot_step_moved:
  assumes "step < max_new" "max_new \<le> usize_max" "ds_decode_step s = step" "ds_next_id s \<notin> set eos"
  shows "slot_step eos P max_new moves step s ((emitted_slot eos s)\<lparr>ds_next_id := tok,
    ds_decode_step := saturating_add (ds_decode_step (emitted_slot eos s)) 1\<rparr>)"
  using assms by (simp add: slot_step_def slot_ok_def emitted_slot_def saturating_add_def)

lemma slot_step_ended:
  "ds_next_id s \<in> set eos \<Longrightarrow> slot_step eos P max_new moves step s (emitted_slot eos s)"
  by (simp add: slot_step_def slot_ok_def emitted_slot_def)

lemma slot_step_skip:
  "step < max_new \<Longrightarrow> max_new \<le> usize_max \<Longrightarrow> slot_step eos P max_new moves step s (skip_step step s)"
  by (simp add: slot_step_def slot_ok_def skip_step_def saturating_add_def)

text \<open>The last part of a step: the slots that emitted a token move on, the ones that ended stay,
  and when all ended the starved ones skip the step.\<close>

lemma decode_slots_last:
  assumes last: "(if act = [] then modifyP (\<lambda>(rt, slots). (rt, map (skip_step step) slots))
      else forward_slots en step act) (rt2, slots2) = (res, (rt', slots'))"
    and h2: "held N F lim R rt2" and act: "act = filter (\<lambda>i. ds_next_id (slots ! i) \<notin> set eos) d"
    and d: "distinct d" "\<forall>i\<in>set d. i < length slots \<and> ds_decode_step (slots ! i) = step"
      "\<And>i. lim \<noteq> None \<Longrightarrow> i < length slots \<Longrightarrow> \<not> ds_finished (slots ! i) \<Longrightarrow> ds_decode_step (slots ! i) = step \<Longrightarrow> i \<in> set d"
    and len: "length slots2 = length slots"
    and at: "\<And>i. i < length slots \<Longrightarrow> slots2 ! i = (if i \<in> set d then emitted_slot eos (slots ! i) else slots ! i)"
    and max: "step < max_new" "max_new \<le> usize_max"
  shows "held N F lim R rt' \<and> (\<forall>u. res = Inr u \<longrightarrow>
    list_all2 (slot_step eos P max_new (lim \<noteq> None) step) slots slots')"
proof (cases "act = []")
  case True
  have all: "ds_next_id (slots ! i) \<in> set eos" if "i \<in> set d" for i using True act that by (auto simp: filter_empty_conv)
  have "slot_step eos P max_new (lim \<noteq> None) step (slots ! i) (skip_step step (slots2 ! i))" if i: "i < length slots" for i
  proof (cases "i \<in> set d")
    case True
    then have "skip_step step (slots2 ! i) = emitted_slot eos (slots ! i)"
      using at[OF i] all[OF True] by (simp add: skip_step_def emitted_slot_def)
    then show ?thesis using slot_step_ended[OF all[OF True]] by simp
  next
    case False
    then show ?thesis using at[OF i] slot_step_skip[OF max] by simp
  qed
  then show ?thesis using last True h2 len by (auto simp: modifyP_def list_all2_conv_all_nth)
next
  case False
  have sub: "set act \<subseteq> set d" "distinct act" using act d(1) by auto
  have fw: "forward_slots en step act (rt2, slots2) = (res, (rt', slots'))" using last False by simp
  have in2: "\<forall>i\<in>set act. i < length slots2" using sub d(2) len by auto
  note F = forward_slots_spec[OF fw h2 sub(2) in2]
  have "slot_step eos P max_new (lim \<noteq> None) step (slots ! i) (slots' ! i)" if r: "res = Inr u" and i: "i < length slots" for u i
  proof -
    obtain tok where t: "slots' ! i = (if i \<in> set act
       then (slots2 ! i)\<lparr>ds_next_id := tok, ds_decode_step := saturating_add (ds_decode_step (slots2 ! i)) 1\<rparr>
       else slots2 ! i)"
      using F r i len by metis
    consider "i \<in> set act" | "i \<in> set d" "i \<notin> set act" | "i \<notin> set d" using sub by blast
    then show ?thesis
    proof cases
      case 1
      then have "ds_next_id (slots ! i) \<notin> set eos" "ds_decode_step (slots ! i) = step" "i \<in> set d"
        using act d(2) by auto
      then show ?thesis using t 1 at[OF i] slot_step_moved[OF max] by simp
    next
      case 2
      then have "ds_next_id (slots ! i) \<in> set eos" using act by auto
      then show ?thesis using t 2 at[OF i] slot_step_ended by simp
    next
      case 3
      then show ?thesis using t sub at[OF i] d(3)[OF _ i] by (auto simp: slot_step_def)
    qed
  qed
  then show ?thesis using F len by (auto simp: list_all2_conv_all_nth)
qed

lemma decode_slots_tail:
  assumes tail: "bindP (foldP alloc_slot [] fw) (\<lambda>dec. if dec = [] then ret ()
         else bindP (foldP (emit_slot eos) [] dec) (\<lambda>act.
           if act = [] then modifyP (\<lambda>(rt, slots). (rt, map (skip_step step) slots))
           else forward_slots en step act)) (rt, slots) = (res, (rt', slots'))"
    and held: "held N F lim R rt" and ids: "\<forall>i < length slots. ds_request_id (slots ! i) \<in> R"
    and fw: "distinct fw" "\<And>i. i \<in> set fw \<longleftrightarrow> i < length slots \<and> \<not> ds_finished (slots ! i) \<and> ds_decode_step (slots ! i) = step"
    and need: "\<forall>K bs. lim = Some (K, bs) \<longrightarrow> (\<forall>i\<in>set fw. i < length slots \<longrightarrow>
      div_ceil (ds_prompt_len (slots ! i) + length (ds_generated (slots ! i)) + 1) bs \<le> K)"
    and max: "step < max_new" "max_new \<le> usize_max"
  shows "held N F lim R rt' \<and> (\<forall>u. res = Inr u \<longrightarrow>
    list_all2 (slot_step eos P max_new (lim \<noteq> None) step) slots slots')"
proof -
  obtain ar rt1 slots1 where a: "foldP alloc_slot [] fw (rt, slots) = (ar, (rt1, slots1))" by (rule prod_cases3)
  have ids': "\<forall>i\<in>set fw. i < length slots \<longrightarrow> ds_request_id (slots ! i) \<in> R" using ids by blast
  have A: "slots1 = slots" "held N F lim R rt1"
    "\<And>d. ar = Inr d \<Longrightarrow> set d \<subseteq> set fw \<and> distinct d \<and> (lim \<noteq> None \<longrightarrow> d = fw)"
    using alloc_slots[OF a held ids' need] fw(1) by auto
  show ?thesis
  proof (cases ar)
    case (Inl e)
    then have "res = Inl e" "rt' = rt1" using tail a unfolding bindP_def[of "foldP alloc_slot [] fw"] by simp_all
    then show ?thesis using A(2) by simp
  next
    case (Inr d)
    have tl: "(if d = [] then ret () else bindP (foldP (emit_slot eos) [] d) (\<lambda>act.
           if act = [] then modifyP (\<lambda>(rt, slots). (rt, map (skip_step step) slots))
           else forward_slots en step act)) (rt1, slots) = (res, (rt', slots'))"
      using tail a Inr A(1) unfolding bindP_def[of "foldP alloc_slot [] fw"] by simp
    have d: "set d \<subseteq> set fw" "distinct d" "lim \<noteq> None \<Longrightarrow> d = fw" using A(3)[OF Inr] by auto
    have dall: "i \<in> set d" if "lim \<noteq> None" "i < length slots" "\<not> ds_finished (slots ! i)"
      "ds_decode_step (slots ! i) = step" for i
      using d(3)[OF that(1)] fw(2) that by simp
    show ?thesis
    proof (cases "d = []")
      case True
      then have r: "res = Inr ()" "rt' = rt1" "slots' = slots" using tl by (simp_all add: ret_def)
      have "slot_step eos P max_new (lim \<noteq> None) step (slots ! i) (slots ! i)" if "i < length slots" for i
        using dall[of i] that True by (auto simp: slot_step_def)
      then show ?thesis using A(2) r by (simp add: list_all2_conv_all_nth)
    next
      case False
      obtain er rt2 slots2 where e: "foldP (emit_slot eos) [] d (rt1, slots) = (er, (rt2, slots2))" by (rule prod_cases3)
      have din: "\<forall>i\<in>set d. i < length slots \<and> ds_request_id (slots ! i) \<in> R" using d(1) fw(2) ids by blast
      note E = emit_slots[OF e A(2) d(2) din]
      show ?thesis
      proof (cases er)
        case (Inl x)
        then have "res = Inl x" "rt' = rt2"
          using tl False e unfolding bindP_def[of "foldP (emit_slot eos) [] d"] by simp_all
        then show ?thesis using E by simp
      next
        case er: (Inr act)
        have act: "act = filter (\<lambda>i. ds_next_id (slots ! i) \<notin> set eos) d" and len: "length slots2 = length slots"
          and at: "\<And>i. i < length slots \<Longrightarrow> slots2 ! i = (if i \<in> set d then emitted_slot eos (slots ! i) else slots ! i)"
          and h2: "held N F lim R rt2" using E er by auto
        have last: "(if act = [] then modifyP (\<lambda>(rt, slots). (rt, map (skip_step step) slots))
            else forward_slots en step act) (rt2, slots2) = (res, (rt', slots'))"
          using tl False e er unfolding bindP_def[of "foldP (emit_slot eos) [] d"] by simp
        have din': "\<forall>i\<in>set d. i < length slots \<and> ds_decode_step (slots ! i) = step" using d(1) fw(2) by blast
        show ?thesis by (rule decode_slots_last[OF last h2 act d(2) din' dall len at max])
      qed
    qed
  qed
qed

lemma decode_slots_spec:
  assumes run: "paged_batch_decode_slots_at_step en step max_new eos (rt, slots) = (res, (rt', slots'))"
    and held: "held N F lim R rt" and ids: "\<forall>s\<in>set slots. ds_request_id s \<in> R"
    and ok: "\<forall>s\<in>set slots. slot_ok eos P max_new s" and lim: "seq_limit lim P max_new"
    and max: "max_new \<le> usize_max"
  shows "held N F lim R rt' \<and> (\<forall>u. res = Inr u \<longrightarrow>
    list_all2 (slot_step eos P max_new (lim \<noteq> None) step) slots slots')"
proof (cases "step < max_new")
  case False
  then have r: "res = Inr ()" "rt' = rt" "slots' = map (\<lambda>s. s\<lparr>ds_finished := True\<rparr>) slots"
    using run unfolding paged_batch_decode_slots_at_step_def bindP_gets
    by (auto simp: modifyP_def ret_def split: if_splits)
  then show ?thesis using held by (simp add: list_all2_conv_all_nth slot_step_def slot_ok_def)
next
  case small: True
  define fw where "fw = filter (\<lambda>i. \<not> ds_finished (slots ! i) \<and> ds_decode_step (slots ! i) = step) [0..<length slots]"
  have fw: "distinct fw" "\<And>i. i \<in> set fw \<longleftrightarrow> i < length slots \<and> \<not> ds_finished (slots ! i) \<and> ds_decode_step (slots ! i) = step"
    by (auto simp: fw_def)
  have eq: "(if slots = [] then (Inr (), (rt, slots))
       else if eos = [] then (Inl (Err ''eos_token_ids is empty''), (rt, slots))
       else if fw = [] then (Inr (), (rt, slots))
       else bindP (foldP alloc_slot [] fw) (\<lambda>dec. if dec = [] then ret ()
         else bindP (foldP (emit_slot eos) [] dec) (\<lambda>act.
           if act = [] then modifyP (\<lambda>(rt, slots). (rt, map (skip_step step) slots))
           else forward_slots en step act)) (rt, slots)) = (res, (rt', slots'))"
    using run small unfolding paged_batch_decode_slots_at_step_def bindP_gets
    by (simp add: bindP_liftR ensure_def ret_def Let_def fw_def split: if_splits)
  consider "slots = []" | "eos = []" "slots \<noteq> []" | "fw = []" "eos \<noteq> []" | "slots \<noteq> []" "eos \<noteq> []" "fw \<noteq> []" by blast
  then show ?thesis
  proof cases
    case 3
    then have r: "rt' = rt" "slots' = slots" using eq by (simp_all split: if_splits)
    have "slot_step eos P max_new (lim \<noteq> None) step (slots ! i) (slots ! i)" if "i < length slots" for i
      using fw(2)[of i] that 3 by (auto simp: slot_step_def)
    then show ?thesis using held r by (simp add: list_all2_conv_all_nth)
  next
    case 4
    have need: "\<forall>K bs. lim = Some (K, bs) \<longrightarrow> (\<forall>i\<in>set fw. i < length slots \<longrightarrow>
      div_ceil (ds_prompt_len (slots ! i) + length (ds_generated (slots ! i)) + 1) bs \<le> K)"
    proof (intro allI impI ballI)
      fix K bs i assume l: "lim = Some (K, bs)" and i: "i \<in> set fw" "i < length slots"
      have "slot_ok eos P max_new (slots ! i)" "ds_decode_step (slots ! i) = step"
        using i ok fw(2) by (simp_all add: nth_mem)
      then have "ds_prompt_len (slots ! i) + length (ds_generated (slots ! i)) + 1 \<le> P + max_new"
        using small by (simp add: slot_ok_def)
      then show "div_ceil (ds_prompt_len (slots ! i) + length (ds_generated (slots ! i)) + 1) bs \<le> K"
        using lim l div_ceil_mono by (simp add: seq_limit_def)
    qed
    have ids': "\<forall>i < length slots. ds_request_id (slots ! i) \<in> R" using ids by (simp add: nth_mem)
    show ?thesis by (rule decode_slots_tail[OF _ held ids' fw need small max]) (use eq 4 in simp)
  qed (use eq held in auto)
qed

section \<open>The groups of one pass\<close>

lemma store_slots:
  assumes "distinct is" "length ss = length is" "\<forall>i\<in>set is. i < length running \<and> running ! i \<noteq> None"
  shows "length (fold store_slot (zip is ss) running) = length running \<and>
    (\<forall>i < length running. i \<notin> set is \<longrightarrow> fold store_slot (zip is ss) running ! i = running ! i) \<and>
    (\<forall>k < length is. fold store_slot (zip is ss) running ! (is ! k) =
       Some (the (running ! (is ! k))\<lparr>rs_slot := ss ! k\<rparr>))"
  using assms
proof (induction "is" arbitrary: ss running)
  case (Cons i "is")
  obtain x xs where ss: "ss = x # xs" using Cons.prems(2) by (cases ss) auto
  let ?new = "running[i := Some (the (running ! i)\<lparr>rs_slot := x\<rparr>)]"
  have st: "store_slot (i, x) running = ?new"
    using Cons.prems(3) by (auto simp: store_slot_def split: option.splits)
  have i: "i < length running" "i \<notin> set is" using Cons.prems by auto
  have keep: "?new ! j = running ! j" if "j \<noteq> i" for j using that by simp
  have pre: "\<forall>j\<in>set is. j < length ?new \<and> ?new ! j \<noteq> None"
    using Cons.prems(3) i(2) keep by (metis length_list_update list.set_intros(2))
  have ih: "length (fold store_slot (zip is xs) ?new) = length ?new \<and>
    (\<forall>j < length ?new. j \<notin> set is \<longrightarrow> fold store_slot (zip is xs) ?new ! j = ?new ! j) \<and>
    (\<forall>k < length is. fold store_slot (zip is xs) ?new ! (is ! k) = Some (the (?new ! (is ! k))\<lparr>rs_slot := xs ! k\<rparr>))"
    by (rule Cons.IH) (use Cons.prems(1,2) ss pre in auto)
  have one: "fold store_slot (zip is xs) ?new ! i = Some (the (running ! i)\<lparr>rs_slot := x\<rparr>)" using ih i by simp
  have more: "fold store_slot (zip is xs) ?new ! (is ! k) = Some (the (running ! (is ! k))\<lparr>rs_slot := xs ! k\<rparr>)"
    if "k < length is" for k
  proof -
    have "is ! k \<noteq> i" using that i(2) by (metis nth_mem)
    then show ?thesis using ih that keep by simp
  qed
  show ?case unfolding ss zip_Cons_Cons fold_simps st
  proof (intro conjI allI impI)
    fix k assume "k < length (i # is)"
    then show "fold store_slot (zip is xs) ?new ! ((i # is) ! k) =
        Some (the (running ! ((i # is) ! k))\<lparr>rs_slot := (x # xs) ! k\<rparr>)"
      using one more by (cases k) auto
  qed (use ih keep in auto)
qed simp

definition entry_step ::
  "nat list \<Rightarrow> nat \<Rightarrow> nat \<Rightarrow> bool \<Rightarrow> running_slot option \<Rightarrow> running_slot option \<Rightarrow> bool" where
  "entry_step eos P max_new moves a b \<longleftrightarrow> (\<exists>e s. a = Some e \<and> b = Some (e\<lparr>rs_slot := s\<rparr>) \<and>
     slot_step eos P max_new moves (ds_decode_step (rs_slot e)) (rs_slot e) s)"

definition entries_ok :: "nat list \<Rightarrow> nat \<Rightarrow> nat \<Rightarrow> nat set \<Rightarrow> running_slot option list \<Rightarrow> bool" where
  "entries_ok eos P max_new R running \<longleftrightarrow>
     (\<forall>e. Some e \<in> set running \<longrightarrow> ds_request_id (rs_slot e) \<in> R \<and> slot_ok eos P max_new (rs_slot e))"

definition group_ok :: "running_slot option list \<Rightarrow> nat \<times> nat list \<Rightarrow> bool" where
  "group_ok running = (\<lambda>(step, is). (\<forall>i\<in>set is. i < length running \<and>
     (\<exists>e. running ! i = Some e \<and> ds_decode_step (rs_slot e) = step)))"

lemma decode_group_spec:
  assumes run: "decode_group en max_new eos (step, is) (rt, sc) = (res, (rt', sc'))"
    and held: "held N F lim R rt" and ent: "entries_ok eos P max_new R (sc_running sc)"
    and grp: "group_ok (sc_running sc) (step, is)" "distinct is"
    and lim: "seq_limit lim P max_new" "max_new \<le> usize_max"
  shows "held N F lim R rt' \<and> (\<exists>running'. sc' = sc\<lparr>sc_running := running'\<rparr> \<and>
    length running' = length (sc_running sc) \<and>
    (\<forall>i < length running'. (i \<notin> set is \<longrightarrow> running' ! i = sc_running sc ! i) \<and>
       (\<forall>u. res = Inr u \<longrightarrow> i \<in> set is \<longrightarrow> entry_step eos P max_new (lim \<noteq> None) (sc_running sc ! i) (running' ! i)) \<and>
       (\<forall>x. res = Inl x \<longrightarrow> running' ! i = sc_running sc ! i)))"
proof -
  let ?run = "sc_running sc" let ?slots = "map (\<lambda>i. rs_slot (the (?run ! i))) is"
  have grp': "\<And>i. i \<in> set is \<Longrightarrow> i < length ?run \<and> ?run ! i \<noteq> None \<and>
      ds_decode_step (rs_slot (the (?run ! i))) = step"
    using grp(1) by (auto simp: group_ok_def)
  have mem: "?run ! i = Some (the (?run ! i)) \<and> Some (the (?run ! i)) \<in> set ?run" if "i \<in> set is" for i
    using grp'[OF that] by (metis nth_mem option.collapse)
  have tr: "traverse (\<lambda>i. ok_or (map_option rs_slot (?run ! i)) (Err ''missing running slot'')) is = Inr ?slots"
    by (rule traverse_all_ok) (use mem in \<open>metis ok_or_simps(2) option.simps(9)\<close>)
  obtain r rt2 slots2 where d: "paged_batch_decode_slots_at_step en step max_new eos (rt, ?slots) = (r, (rt2, slots2))"
    by (rule prod_cases3)
  have ids: "\<forall>s\<in>set ?slots. ds_request_id s \<in> R" "\<forall>s\<in>set ?slots. slot_ok eos P max_new s"
    using mem ent by (auto simp: entries_ok_def)
  note spec = decode_slots_spec[OF d held ids lim]
  show ?thesis
  proof (cases r)
    case (Inl x)
    then have "res = Inl x" "rt' = rt2" "sc' = sc" using run tr d by (auto simp: decode_group_def)
    then show ?thesis using spec by (intro conjI exI[of _ ?run]) auto
  next
    case (Inr u)
    let ?new = "fold store_slot (zip is slots2) ?run"
    have r: "res = Inr ()" "rt' = rt2" "sc' = sc\<lparr>sc_running := ?new\<rparr>" using run tr d Inr by (auto simp: decode_group_def)
    have all: "list_all2 (slot_step eos P max_new (lim \<noteq> None) step) ?slots slots2" using spec Inr by simp
    have len: "length slots2 = length is" using list_all2_lengthD[OF all] by simp
    note st = store_slots[OF grp(2) len, of ?run]
    have st': "length ?new = length ?run" "\<And>i. i < length ?run \<Longrightarrow> i \<notin> set is \<Longrightarrow> ?new ! i = ?run ! i"
      "\<And>k. k < length is \<Longrightarrow> ?new ! (is ! k) = Some (the (?run ! (is ! k))\<lparr>rs_slot := slots2 ! k\<rparr>)"
      using st grp' by auto
    have "entry_step eos P max_new (lim \<noteq> None) (?run ! i) (?new ! i)" if i: "i \<in> set is" for i
    proof -
      obtain k where k: "k < length is" "i = is ! k" using i by (metis in_set_conv_nth)
      have "slot_step eos P max_new (lim \<noteq> None) step (rs_slot (the (?run ! i))) (slots2 ! k)"
        using list_all2_nthD[OF all, of k] k by simp
      then show ?thesis unfolding entry_step_def
        using st'(3)[OF k(1)] k(2) mem[OF i] grp'[OF i]
        by (intro exI[of _ "the (?run ! i)"] exI[of _ "slots2 ! k"]) simp
    qed
    then show ?thesis using spec r st'(1,2) by (intro conjI exI[of _ ?new]) auto
  qed
qed

lemma decode_groups_spec:
  assumes "forP gs (decode_group en max_new eos) (rt, sc) = (res, (rt', sc'))" "held N F lim R rt"
    and "entries_ok eos P max_new R (sc_running sc)"
    and "\<forall>g\<in>set gs. group_ok (sc_running sc) g" "distinct (concat (map snd gs))"
    and "seq_limit lim P max_new" "max_new \<le> usize_max"
  shows "held N F lim R rt' \<and> (\<exists>running'. sc' = sc\<lparr>sc_running := running'\<rparr> \<and>
    length running' = length (sc_running sc) \<and>
    entries_ok eos P max_new R running' \<and>
    (\<forall>u. res = Inr u \<longrightarrow> (\<forall>i < length running'.
       (i \<notin> set (concat (map snd gs)) \<longrightarrow> running' ! i = sc_running sc ! i) \<and>
       (i \<in> set (concat (map snd gs)) \<longrightarrow> entry_step eos P max_new (lim \<noteq> None) (sc_running sc ! i) (running' ! i)))))"
  using assms
proof (induction gs arbitrary: rt sc)
  case Nil
  then show ?case by (auto simp: forP_def ret_def intro!: exI[of _ "sc_running sc"])
next
  case (Cons g gs)
  obtain step "is" where g: "g = (step, is)" by fastforce
  obtain r1 rt1 sc1 where d: "decode_group en max_new eos (step, is) (rt, sc) = (r1, (rt1, sc1))" by (rule prod_cases3)
  have gok: "group_ok (sc_running sc) (step, is)" and dis: "distinct is"
    using Cons.prems(4,5) by (auto simp: g)
  note sp = decode_group_spec[OF d Cons.prems(2,3) gok dis Cons.prems(6,7)]
  obtain run1 where h1: "held N F lim R rt1" and sc1: "sc1 = sc\<lparr>sc_running := run1\<rparr>"
    and len1: "length run1 = length (sc_running sc)"
    and other: "\<And>i. i < length run1 \<Longrightarrow> i \<notin> set is \<Longrightarrow> run1 ! i = sc_running sc ! i"
    and step1: "\<And>i u. i < length run1 \<Longrightarrow> r1 = Inr u \<Longrightarrow> i \<in> set is \<Longrightarrow>
      entry_step eos P max_new (lim \<noteq> None) (sc_running sc ! i) (run1 ! i)"
    and err1: "\<And>i x. i < length run1 \<Longrightarrow> r1 = Inl x \<Longrightarrow> run1 ! i = sc_running sc ! i"
    using sp by blast
  have ent1: "entries_ok eos P max_new R run1"
    unfolding entries_ok_def
  proof (intro allI impI)
    fix e assume "Some e \<in> set run1"
    then obtain i where i: "i < length run1" "run1 ! i = Some e" by (metis in_set_conv_nth)
    have old: "ds_request_id (rs_slot e0) \<in> R \<and> slot_ok eos P max_new (rs_slot e0)" if "sc_running sc ! i = Some e0" for e0
      using Cons.prems(3) i(1) len1 that by (metis entries_ok_def nth_mem)
    show "ds_request_id (rs_slot e) \<in> R \<and> slot_ok eos P max_new (rs_slot e)"
    proof (cases "(\<exists>u. r1 = Inr u) \<and> i \<in> set is")
      case True
      then obtain e0 s where "sc_running sc ! i = Some e0" "e = e0\<lparr>rs_slot := s\<rparr>"
        "slot_step eos P max_new (lim \<noteq> None) (ds_decode_step (rs_slot e0)) (rs_slot e0) s"
        using step1[OF i(1)] i(2) unfolding entry_step_def by auto
      then show ?thesis using old by (simp add: slot_step_def)
    next
      case False
      then have "run1 ! i = sc_running sc ! i" using other[OF i(1)] err1[OF i(1)] by (cases r1) auto
      then show ?thesis using old i(2) by simp
    qed
  qed
  show ?case
  proof (cases r1)
    case (Inl x)
    then have "res = Inl x" "rt' = rt1" "sc' = sc1" using Cons.prems(1) d by (simp_all add: g forP_def bindP_def)
    then show ?thesis using h1 sc1 len1 ent1 by auto
  next
    case (Inr u)
    have rest: "forP gs (decode_group en max_new eos) (rt1, sc1) = (res, (rt', sc'))"
      using Cons.prems(1) d Inr by (simp add: g forP_def bindP_def)
    have keep: "run1 ! i = sc_running sc ! i" if "i \<in> set (concat (map snd gs))" "i < length run1" for i
      using that Cons.prems(5) other by (auto simp: g)
    have "group_ok (sc_running sc1) g'" if "g' \<in> set gs" for g'
    proof -
      obtain t js where g': "g' = (t, js)" by fastforce
      have old: "group_ok (sc_running sc) (t, js)" using Cons.prems(4) that g' by auto
      have "j \<in> set (concat (map snd gs))" if "j \<in> set js" for j using that \<open>g' \<in> set gs\<close> g' by force
      then show ?thesis using old keep len1 by (auto simp: g' group_ok_def sc1)
    qed
    from Cons.IH[OF rest h1 _ _ _ Cons.prems(6,7)] this ent1 Cons.prems(5)
    obtain run' where ih: "held N F lim R rt'" "sc' = sc1\<lparr>sc_running := run'\<rparr>" "length run' = length run1"
      "entries_ok eos P max_new R run'"
      "\<And>i u. res = Inr u \<Longrightarrow> i < length run' \<Longrightarrow> (i \<notin> set (concat (map snd gs)) \<longrightarrow> run' ! i = run1 ! i) \<and>
       (i \<in> set (concat (map snd gs)) \<longrightarrow> entry_step eos P max_new (lim \<noteq> None) (run1 ! i) (run' ! i))"
      by (auto simp: g sc1)
    have dj: "set is \<inter> set (concat (map snd gs)) = {}" using Cons.prems(5) by (auto simp: g)
    have "(i \<notin> set (concat (map snd (g # gs))) \<longrightarrow> run' ! i = sc_running sc ! i) \<and>
       (i \<in> set (concat (map snd (g # gs))) \<longrightarrow> entry_step eos P max_new (lim \<noteq> None) (sc_running sc ! i) (run' ! i))"
      if "res = Inr u'" "i < length run'" for u' i
      using ih(5)[OF that] ih(3) that(2) other[of i] step1[OF _ Inr, of i] keep[of i] dj by (auto simp: g)
    then show ?thesis using ih(1-4) len1 by (intro conjI exI[of _ run']) (simp_all add: sc1)
  qed
qed

end
