(* ===== verification/SchedulerInvariant.thy ===== *)
theory SchedulerInvariant
  imports SchedulerStep
begin

text \<open>
  The invariant of the continuous-batching loop (\<^verbatim>\<open>sched_mid\<close>, \<^verbatim>\<open>sched_inv\<close>), what an
  error leaves behind (\<^verbatim>\<open>sched_err\<close>), and that the release of finished slots and the
  prefill of an admitted wave keep it.
\<close>

section \<open>The invariant of the loop\<close>

definition run_ids :: "running_slot option list \<Rightarrow> nat set" where
  "run_ids running = {ds_request_id (rs_slot e) | e. Some e \<in> set running}"

definition done_ids :: "running_slot option list \<Rightarrow> nat set" where
  "done_ids running = {ds_request_id (rs_slot e) | e. Some e \<in> set running \<and> ds_finished (rs_slot e)}"

lemma run_idsE: "r \<in> run_ids running \<Longrightarrow> (\<And>e. Some e \<in> set running \<Longrightarrow> r = ds_request_id (rs_slot e) \<Longrightarrow> P) \<Longrightarrow> P"
  unfolding run_ids_def by blast

lemma run_idsI: "Some e \<in> set running \<Longrightarrow> ds_request_id (rs_slot e) \<in> run_ids running"
  unfolding run_ids_def by blast

lemma done_ids_iff: "r \<in> done_ids running \<longleftrightarrow> (\<exists>e. Some e \<in> set running \<and> ds_finished (rs_slot e) \<and> r = ds_request_id (rs_slot e))"
  unfolding done_ids_def by blast

lemma done_ids_simps:
  "done_ids [] = {}" "done_ids (None # es) = done_ids es"
  "done_ids (Some e # es) = (if ds_finished (rs_slot e) then insert (ds_request_id (rs_slot e)) (done_ids es) else done_ids es)"
  unfolding done_ids_def by auto

definition ids_distinct :: "running_slot option list \<Rightarrow> bool" where
  "ids_distinct running \<longleftrightarrow> (\<forall>i j e e'. i < length running \<longrightarrow> j < length running \<longrightarrow>
     running ! i = Some e \<longrightarrow> running ! j = Some e' \<longrightarrow>
     ds_request_id (rs_slot e) = ds_request_id (rs_slot e') \<longrightarrow> i = j)"

lemma ids_distinctD:
  "ids_distinct running \<Longrightarrow> running ! i = Some e \<Longrightarrow> running ! j = Some e' \<Longrightarrow> i < length running \<Longrightarrow>
   j < length running \<Longrightarrow> ds_request_id (rs_slot e) = ds_request_id (rs_slot e') \<Longrightarrow> i = j"
  unfolding ids_distinct_def by blast

definition row_done :: "nat list \<Rightarrow> nat \<Rightarrow> nat list \<Rightarrow> bool" where
  "row_done eos max_new row \<longleftrightarrow> length row \<le> max_new \<and> (\<forall>t\<in>set row. t \<notin> set eos)"

record sched_bounds =
  sb_N :: nat
  sb_F :: "nat \<Rightarrow> nat list"
  sb_lim :: "(nat \<times> nat) option"
  sb_base :: nat
  sb_batch :: nat
  sb_slots :: nat
  sb_P :: nat
  sb_eos :: "nat list"
  sb_max :: nat

text \<open>Requests of this call never owned a block before it, and in a roomy pool every slot has
  room for a whole sequence.\<close>

definition bounds_ok :: "sched_bounds \<Rightarrow> bool" where
  "bounds_ok b \<longleftrightarrow> seq_limit (sb_lim b) (sb_P b) (sb_max b) \<and> sb_max b \<le> usize_max \<and>
     sb_base b + sb_batch b \<le> usize_max \<and>
     (\<forall>r. sb_base b \<le> r \<and> r < sb_base b + sb_batch b \<longrightarrow> sb_F b r = []) \<and>
     (\<forall>K bs. sb_lim b = Some (K, bs) \<longrightarrow> sb_slots b * K \<le> sb_N b - 1)"

definition entries_wf :: "sched_bounds \<Rightarrow> nat \<Rightarrow> running_slot option list \<Rightarrow> bool" where
  "entries_wf b nxt running \<longleftrightarrow> length running = sb_slots b \<and> ids_distinct running \<and>
     (\<forall>e. Some e \<in> set running \<longrightarrow> rs_client_index e < sb_batch b \<and>
        sb_base b \<le> ds_request_id (rs_slot e) \<and> ds_request_id (rs_slot e) < nxt \<and>
        slot_ok (sb_eos b) (sb_P b) (sb_max b) (rs_slot e))"

text \<open>\<open>k\<close> clients are taken off the queue and not yet prefilled.\<close>

definition sched_mid :: "sched_bounds \<Rightarrow> nat \<Rightarrow> 'g cache_runtime \<times> sched \<Rightarrow> bool" where
  "sched_mid b k = (\<lambda>(rt, sc). held (sb_N b) (sb_F b) (sb_lim b) (run_ids (sc_running sc)) rt \<and>
     entries_wf b (sc_next_request_id sc) (sc_running sc) \<and>
     length (sc_outputs sc) = sb_batch b \<and> (\<forall>row\<in>set (sc_outputs sc). row_done (sb_eos b) (sb_max b) row) \<and>
     sb_base b \<le> sc_next_request_id sc \<and>
     sc_next_request_id sc + length (sc_waiting sc) + k = sb_base b + sb_batch b \<and>
     (\<forall>c\<in>set (sc_waiting sc). c < sb_batch b))"

abbreviation sched_inv :: "sched_bounds \<Rightarrow> 'g cache_runtime \<times> sched \<Rightarrow> bool" where
  "sched_inv b \<equiv> sched_mid b 0"

text \<open>What an error leaves behind: the requests of this call may still own blocks.\<close>

definition sched_err :: "sched_bounds \<Rightarrow> 'g cache_runtime \<times> sched \<Rightarrow> bool" where
  "sched_err b = (\<lambda>(rt, sc). held (sb_N b) (sb_F b) None {sb_base b..<sb_base b + sb_batch b} rt \<and>
     run_ids (sc_running sc) \<subseteq> {sb_base b..<sb_base b + sb_batch b})"

lemma held_weaken: "held N F lim R rt \<Longrightarrow> R \<subseteq> R' \<Longrightarrow> held N F None R' rt"
  by (auto simp: held_def)

lemma run_ids_range:
  assumes "entries_wf b nxt running" "nxt \<le> sb_base b + sb_batch b"
  shows "run_ids running \<subseteq> {sb_base b..<sb_base b + sb_batch b}"
  using assms by (fastforce simp: entries_wf_def run_ids_def)

lemma sched_mid_err: "sched_mid b k s \<Longrightarrow> sched_err b s"
proof (cases s)
  case (Pair rt sc)
  assume "sched_mid b k s"
  then have i: "held (sb_N b) (sb_F b) (sb_lim b) (run_ids (sc_running sc)) rt"
    "entries_wf b (sc_next_request_id sc) (sc_running sc)"
    "sc_next_request_id sc \<le> sb_base b + sb_batch b"
    by (auto simp: sched_mid_def Pair)
  show ?thesis using run_ids_range[OF i(2,3)] held_weaken[OF i(1)] by (simp add: sched_err_def Pair)
qed

text \<open>Weight of a slot: an upper bound of the iterations it can still take.\<close>

definition slot_weight :: "nat \<Rightarrow> running_slot option \<Rightarrow> nat" where
  "slot_weight max_new a = (case a of None \<Rightarrow> 0 | Some e \<Rightarrow> Suc max_new - ds_decode_step (rs_slot e))"

definition sched_weight :: "nat \<Rightarrow> sched \<Rightarrow> nat" where
  "sched_weight max_new sc = length (sc_waiting sc) * (max_new + 2) + sum_list (map (slot_weight max_new) (sc_running sc))"

section \<open>Releasing finished slots\<close>

lemma free_finished_fold:
  assumes "fold free_finished_entry es (outs, rt) = (outs', rt')"
    and "held (sb_N b) (sb_F b) (sb_lim b) R rt" "bounds_ok b"
    and "\<forall>e. Some e \<in> set es \<longrightarrow> rs_client_index e < sb_batch b \<and>
        sb_base b \<le> ds_request_id (rs_slot e) \<and> ds_request_id (rs_slot e) < sb_base b + sb_batch b \<and>
        slot_ok (sb_eos b) (sb_P b) (sb_max b) (rs_slot e)"
    and "\<forall>row\<in>set outs. row_done (sb_eos b) (sb_max b) row"
  shows "held (sb_N b) (sb_F b) (sb_lim b)
(R - done_ids es) rt' \<and>
    length outs' = length outs \<and> (\<forall>row\<in>set outs'. row_done (sb_eos b) (sb_max b) row)"
  using assms
proof (induction es arbitrary: outs rt R)
  case (Cons a es)
  consider (skip) "free_finished_entry a (outs, rt) = (outs, rt)"
      "\<forall>e. a = Some e \<longrightarrow> \<not> ds_finished (rs_slot e)"
    | (free) e where "a = Some e" "ds_finished (rs_slot e)"
      "free_finished_entry a (outs, rt) = (outs[rs_client_index e := ds_generated (rs_slot e)],
         paged_batch_free_slots [ds_request_id (rs_slot e)] rt)"
    by (cases a) (auto simp: free_finished_entry_def split: if_splits)
  then show ?case
  proof cases
    case skip
    have "done_ids (a # es) = done_ids es"
      using skip(2) by (cases a) (simp_all add: done_ids_simps)
    then show ?thesis using Cons.IH[OF _ Cons.prems(2,3) _ Cons.prems(5)] Cons.prems(1,4) skip(1) by simp
  next
    case free
    let ?r = "ds_request_id (rs_slot e)"
    have e: "slot_ok (sb_eos b) (sb_P b) (sb_max b) (rs_slot e)" "sb_F b ?r = []"
      using Cons.prems(3,4) free(1) by (auto simp: bounds_ok_def)
    have h: "held (sb_N b) (sb_F b) (sb_lim b) (R - {?r}) (paged_batch_free_slots [?r] rt)"
      by (rule held_release[OF Cons.prems(2) e(2)])
    have rows: "\<forall>row\<in>set (outs[rs_client_index e := ds_generated (rs_slot e)]). row_done (sb_eos b) (sb_max b) row"
      using Cons.prems(5) e(1) set_update_subset_insert[of outs "rs_client_index e" "ds_generated (rs_slot e)"]
      by (auto simp: row_done_def slot_ok_def)
    have d: "R - done_ids (a # es) = R - {?r} - done_ids es" using free(1,2) by (auto simp: done_ids_simps)
    have run: "fold free_finished_entry es (outs[rs_client_index e := ds_generated (rs_slot e)],
         paged_batch_free_slots [?r] rt) = (outs', rt')" using Cons.prems(1) free(3) by simp
    show ?thesis
      unfolding d using Cons.IH[OF run h Cons.prems(3) _ rows] Cons.prems(4) by simp
  qed
qed (simp add: done_ids_simps)

lemma unfinished_iff:
  "Some e \<in> set (map (\<lambda>e. if slot_done e then None else e) running) \<longleftrightarrow>
    Some e \<in> set running \<and> \<not> ds_finished (rs_slot e)"
proof
  assume "Some e \<in> set (map (\<lambda>e. if slot_done e then None else e) running)"
  then obtain a where a: "a \<in> set running" "(if slot_done a then None else a) = Some e" by auto
  then show "Some e \<in> set running \<and> \<not> ds_finished (rs_slot e)"
    by (cases a) (auto simp: slot_done_def split: if_splits)
next
  assume a: "Some e \<in> set running \<and> \<not> ds_finished (rs_slot e)"
  then have "(if slot_done (Some e) then None else Some e) = Some e" by (simp add: slot_done_def)
  then show "Some e \<in> set (map (\<lambda>e. if slot_done e then None else e) running)"
    using a unfolding set_map by (intro image_eqI[of _ _ "Some e"]) simp_all
qed

lemma run_ids_unfinished:
  assumes "ids_distinct running"
  shows "run_ids (map (\<lambda>e. if slot_done e then None else e) running) = run_ids running - done_ids running"
proof (intro equalityI subsetI)
  fix r assume "r \<in> run_ids (map (\<lambda>e. if slot_done e then None else e) running)"
  then obtain e where e: "Some e \<in> set running" "\<not> ds_finished (rs_slot e)" "r = ds_request_id (rs_slot e)"
    by (auto elim!: run_idsE simp: unfinished_iff simp del: set_map)
  have "r \<notin> done_ids running"
  proof
    assume "r \<in> done_ids running"
    then obtain e' where e': "Some e' \<in> set running" "ds_finished (rs_slot e')" "r = ds_request_id (rs_slot e')"
      by (auto simp: done_ids_iff)
    obtain i j where ij: "i < length running" "running ! i = Some e" "j < length running" "running ! j = Some e'"
      using e(1) e'(1) by (metis in_set_conv_nth)
    have "i = j" using assms ij e(3) e'(3) unfolding ids_distinct_def by blast
    then show False using ij e(2) e'(2) by simp
  qed
  then show "r \<in> run_ids running - done_ids running" using e by (simp add: run_idsI)
next
  fix r assume r: "r \<in> run_ids running - done_ids running"
  then obtain e where e: "Some e \<in> set running" "r = ds_request_id (rs_slot e)" by (blast elim: run_idsE)
  then have "\<not> ds_finished (rs_slot e)" using r by (auto simp: done_ids_iff)
  then show "r \<in> run_ids (map (\<lambda>e. if slot_done e then None else e) running)"
    using e by (simp add: run_idsI unfinished_iff del: set_map)
qed

lemma free_finished_keeps:
  assumes "sched_inv b (rt, sc)" "bounds_ok b"
  obtains rt' outs where "free_finished_running (rt, sc) = (rt', sc\<lparr>sc_outputs := outs,
      sc_running := map (\<lambda>e. if slot_done e then None else e) (sc_running sc)\<rparr>)"
    "sched_inv b (free_finished_running (rt, sc))"
proof -
  obtain outs rt' where f: "fold free_finished_entry (sc_running sc) (sc_outputs sc, rt) = (outs, rt')" by fastforce
  let ?run = "map (\<lambda>e. if slot_done e then None else e) (sc_running sc)"
  have i: "held (sb_N b) (sb_F b) (sb_lim b) (run_ids (sc_running sc)) rt"
    "entries_wf b (sc_next_request_id sc) (sc_running sc)"
    "sc_next_request_id sc \<le> sb_base b + sb_batch b"
    "\<forall>row\<in>set (sc_outputs sc). row_done (sb_eos b) (sb_max b) row"
    using assms(1) by (auto simp: sched_mid_def)
  have ents: "\<forall>e. Some e \<in> set (sc_running sc) \<longrightarrow> rs_client_index e < sb_batch b \<and>
        sb_base b \<le> ds_request_id (rs_slot e) \<and> ds_request_id (rs_slot e) < sb_base b + sb_batch b \<and>
        slot_ok (sb_eos b) (sb_P b) (sb_max b) (rs_slot e)"
    using i(2,3) unfolding entries_wf_def by (meson order_less_le_trans)
  note F = free_finished_fold[OF f i(1) assms(2) ents i(4)]
  have dist: "ids_distinct (sc_running sc)" using i(2) by (simp add: entries_wf_def)
  have dist': "ids_distinct ?run"
    using dist by (auto simp: ids_distinct_def split: if_splits)
  have "entries_wf b (sc_next_request_id sc) ?run"
    using i(2) dist' by (auto simp: entries_wf_def split: if_splits)
  then have "sched_inv b (rt', sc\<lparr>sc_outputs := outs, sc_running := ?run\<rparr>)"
    using assms(1) F by (simp add: sched_mid_def run_ids_unfinished[OF dist])
  moreover have "free_finished_running (rt, sc) = (rt', sc\<lparr>sc_outputs := outs, sc_running := ?run\<rparr>)"
    using f by (simp add: free_finished_running_def)
  ultimately show thesis using that[of rt' outs] by simp
qed

section \<open>Prefill of a wave\<close>

lemma held_extend:
  assumes "held N F lim R rt" "\<forall>r\<in>X. F r = []" "finite X" "X \<inter> R = {}"
    and "\<And>K bs. lim = Some (K, bs) \<Longrightarrow> card (R \<union> X) * K \<le> N - 1"
  shows "held N F lim (R \<union> X) rt"
proof -
  have "roomy N (R \<union> X) (rt_manager rt) l" if "lim = Some l" for l
  proof -
    obtain K bs where kb: "l = (K, bs)" by fastforce
    have old: "roomy N R (rt_manager rt) (K, bs)" using assms(1) that kb by (simp add: held_def)
    have "length (blocks_of (rt_manager rt) q) \<le> (if q \<in> R \<union> X then K else 0)" for q
      using old unfolding roomy_def by (cases "q \<in> R") (auto split: if_splits)
    then show ?thesis using old assms(3) assms(5)[of K bs] that kb by (simp add: roomy_def)
  qed
  then show ?thesis using assms(1) by (simp add: held_def)
qed

lemma held_allocate:
  assumes "held N F lim R rt" "r \<in> R" "\<And>K bs. lim = Some (K, bs) \<Longrightarrow> div_ceil n bs \<le> K"
    and "manager_op (\<lambda>m. allocate_slots m r n) rt = (res, rt')"
  shows "held N F lim R rt'"
proof -
  obtain ok m' where t: "try_allocate_slots (rt_manager rt) r n = (ok, m')" by fastforce
  have "rt' = rt\<lparr>rt_manager := m'\<rparr>"
    using assms(4) t allocate_slots_snd[of "rt_manager rt" r n] by (auto simp: manager_op_def split: prod.splits)
  then show ?thesis using held_try_allocate[OF assms(1,2) t assms(3)] by simp
qed

lemma prefill_rows_bound:
  assumes "prefill_rows ids masks = Inr (idr, mr, lens)"
    and "checked_rows s1 L ids = Inr u" "checked_rows s2 L masks = Inr v"
  shows "\<forall>n\<in>set lens. n \<le> L"
proof -
  have len: "length mk = L" if "mk \<in> set masks" for mk
    using assms(3) that by (auto simp: checked_rows_def split: if_splits)
  show ?thesis
  proof (cases "attention_masks_are_right_padded masks")
    case True
    then show ?thesis using assms(1) len valid_count_le by (fastforce simp: prefill_rows_def)
  next
    case False
    then have nb: "normalize_batch_for_paged_prefill ids masks = Inr (idr, mr, lens)"
      using assms(1) by (simp add: prefill_rows_def)
    show ?thesis
    proof (cases "ids = []")
      case True
      then show ?thesis using nb by (auto simp: normalize_batch_for_paged_prefill_def split: if_splits)
    next
      case False
      obtain rows where rows: "traverse (normalize_row (length (ids ! 0))) (zip ids masks) = Inr rows"
        "lens = map (snd \<circ> snd) rows"
        using nb False by (auto simp: normalize_batch_for_paged_prefill_def Let_def split: if_splits)
      have L0: "length (ids ! 0) = L" using assms(2) False by (auto simp: checked_rows_def split: if_splits)
      have "snd (snd row) \<le> L" if "row \<in> set rows" for row
      proof -
        obtain i where i: "i < length rows" "rows ! i = row" using \<open>row \<in> set rows\<close> by (metis in_set_conv_nth)
        then have "normalize_row L (zip ids masks ! i) = Inr row"
          using traverse_nth[OF rows(1), of i] traverse_length[OF rows(1)] L0 by simp
        then show ?thesis by (cases "zip ids masks ! i") (auto simp: normalize_row_def Let_def)
      qed
      then show ?thesis using rows(2) by auto
    qed
  qed
qed

text \<open>A successful prefill: the new requests run, their prompts within the bound.\<close>

lemma prefill_ok:
  assumes run: "paged_batch_prefill en ids masks ha config rt = (Inr st, rt')"
    and rs: "rs = map (saturating_add (bc_request_id_base config)) [0..<length ids]"
    and held: "held N F lim R rt" "set rs \<subseteq> R"
    and lim: "seq_limit lim P max_new" and P: "length (ids ! 0) \<le> P"
  shows "held N F lim R rt' \<and> bs_request_ids st = rs \<and> (\<forall>n\<in>set (bs_prompt_lens st). n \<le> P)"
proof -
  have len: "length rs = length ids" by (simp add: rs)
  obtain idr mr lens ap rt1 tables logits lens64 ll nx where
    a: "checked_rows ''paged batch input_ids length mismatch'' (length (ids ! 0)) ids = Inr ()"
      "checked_rows ''paged batch attention_mask length mismatch'' (length (ids ! 0)) masks = Inr ()"
      "prefill_rows ids masks = Inr (idr, mr, lens)" "length ids \<le> length mr"
      "forP [0..<length rs] (\<lambda>i. manager_op (\<lambda>m. allocate_slots m (rs ! i) (lens ! i))) rt = (Inr (), rt1)"
      "forP [0..<length rs] (trim_finished rs lens (map (\<lambda>t. t \<in> set (bc_eos_token_ids config)) nx)) rt1 = (Inr (), rt')"
    and st: "bs_request_ids st = rs" "bs_prompt_lens st = lens"
    using run unfolding paged_batch_prefill_def Let_def unfolding rs[symmetric] unfolding len[symmetric]
    by (clarsimp simp: bindP_Inr_iff basic_Inr_iff)
  have bound: "\<forall>n\<in>set lens. n \<le> P" using prefill_rows_bound[OF a(3,1,2)] P by auto
  have need: "div_ceil (lens ! i) bs \<le> K" if "lim = Some (K, bs)" "i < length rs" for K bs i
  proof -
    have "lens ! i \<le> P" using bound that(2) a(4) len prefill_rows_len[OF a(3)] by simp
    then have "lens ! i \<le> P + max_new" by simp
    then show ?thesis using lim that(1) div_ceil_mono by (simp add: seq_limit_def)
  qed
  have "keeps (held N F lim R) (forP [0..<length rs] (\<lambda>i. manager_op (\<lambda>m. allocate_slots m (rs ! i) (lens ! i))))"
  proof (rule keeps_forP, rule keepsI)
    fix i res s s'
    assume i: "i \<in> set [0..<length rs]" and h: "held N F lim R s"
      and r: "manager_op (\<lambda>m. allocate_slots m (rs ! i) (lens ! i)) s = (res, s')"
    show "held N F lim R s'"
      by (rule held_allocate[OF h _ _ r]) (use i held(2) need in \<open>auto dest: nth_mem\<close>)
  qed
  from keepsD[OF this held(1) a(5)] have h1: "held N F lim R rt1" .
  have "keeps (held N F lim R) (forP [0..<length rs] (trim_finished rs lens fin))" for fin
  proof (rule keeps_forP)
    fix i assume "i \<in> set [0..<length rs]"
    then have "rs ! i \<in> R" using held(2) by (auto dest: nth_mem)
    then have "keeps (held N F lim R) (manager_trim (rs ! i) n)" for n
      by (intro keepsI) (rule held_manager_trim)
    then show "keeps (held N F lim R) (trim_finished rs lens fin i)"
      unfolding trim_finished_def by (intro keeps_intros)
  qed
  from keepsD[OF this h1 a(6)] show ?thesis using st bound by simp
qed

lemma from_prefill_slot:
  assumes "from_prefill_state st k = Inr s"
  shows "k < length (bs_request_ids st) \<and> ds_request_id s = bs_request_ids st ! k \<and>
    ds_prompt_len s \<in> set (bs_prompt_lens st) \<and> ds_generated s = [] \<and> ds_decode_step s = 0"
  using assms by (auto simp: from_prefill_state_def)

lemma pad_wave_shape:
  assumes "pad_prepared_wave_for_prefill prepared wave pad = Inr (ids, masks)"
    and "\<forall>row\<in>set prepared. prepared_prompt_len row \<le> P"
  shows "length ids = length wave \<and> length (ids ! 0) \<le> P"
proof -
  obtain rows padded where r: "wave \<noteq> []" "traverse (index_r prepared) wave = Inr rows"
    "max_or_0 (map prepared_prompt_len rows) \<noteq> 0"
    "traverse (pad_wave_row pad (max_or_0 (map prepared_prompt_len rows))) rows = Inr padded"
    "ids = map fst padded"
    using assms(1) by (auto simp: pad_prepared_wave_for_prefill_def Let_def)
  let ?L = "max_or_0 (map prepared_prompt_len rows)"
  have len: "length rows = length wave" "length padded = length wave"
    using traverse_length[OF r(2)] traverse_length[OF r(4)] by simp_all
  have "set rows \<subseteq> set prepared"
  proof
    fix x assume "x \<in> set rows"
    then obtain k where "k < length rows" "rows ! k = x" by (metis in_set_conv_nth)
    then show "x \<in> set prepared" using traverse_nth[OF r(2), of k] len by (metis index_r_Inr_iff nth_mem)
  qed
  moreover obtain row where "row \<in> set rows" "?L = prepared_prompt_len row" using max_or_0_in[of "map prepared_prompt_len rows"] r(1) len(1) by fastforce
  ultimately have "?L \<le> P" using assms(2) by auto
  moreover have "length (fst (padded ! 0)) = ?L"
    using traverse_nth[OF r(4), of 0] len r(1) max_or_0_ge[of "prepared_prompt_len (rows ! 0)" "map prepared_prompt_len rows"]
    by (cases "padded ! 0") (auto simp: pad_wave_row_eq split: if_splits)
  ultimately show ?thesis using len r(1,5) by simp
qed

lemma install_rows:
  assumes "forP ps (install_row st) (rt, sc) = (res, (rt', sc'))" "distinct (map (\<lambda>(k, c, i). i) ps)"
    and "\<forall>(k, c, i)\<in>set ps. i < length (sc_running sc)"
  shows "rt' = rt \<and> (\<exists>running'. sc' = sc\<lparr>sc_running := running'\<rparr> \<and> length running' = length (sc_running sc) \<and>
      run_ids running' \<subseteq> run_ids (sc_running sc) \<union> set (bs_request_ids st) \<and>
      (\<forall>u. res = Inr u \<longrightarrow> (\<forall>i < length running'. i \<notin> (\<lambda>(k, c, i). i) ` set ps \<longrightarrow> running' ! i = sc_running sc ! i) \<and>
         (\<forall>(k, c, i)\<in>set ps. \<exists>s. from_prefill_state st k = Inr s \<and>
            running' ! i = Some \<lparr>rs_client_index = c, rs_slot = s\<rparr>)))"
  using assms
proof (induction ps arbitrary: sc)
  case Nil
  then show ?case by (auto simp: forP_def ret_def intro!: exI[of _ "sc_running sc"])
next
  case (Cons p ps)
  obtain k c i where p: "p = (k, c, i)" by (rule prod_cases3)
  show ?case
  proof (cases "from_prefill_state st k")
    case (Inl e)
    then have "res = Inl e" "rt' = rt" "sc' = sc"
      using Cons.prems(1) by (simp_all add: p forP_def bindP_def install_row_def liftR_def)
    then show ?thesis by (auto intro!: exI[of _ "sc_running sc"])
  next
    case (Inr s)
    let ?new = "(sc_running sc)[i := Some \<lparr>rs_client_index = c, rs_slot = s\<rparr>]"
    let ?sc = "sc\<lparr>sc_running := ?new\<rparr>"
    have rest: "forP ps (install_row st) (rt, ?sc) = (res, (rt', sc'))"
      using Cons.prems(1) Inr by (simp add: p forP_def bindP_def install_row_def liftR_def modifyP_def)
    have pre: "\<forall>(k, c, i)\<in>set ps. i < length (sc_running ?sc)" using Cons.prems(3) by simp
    have dis: "distinct (map (\<lambda>(k, c, i). i) ps)" "i \<notin> (\<lambda>(k, c, i). i) ` set ps"
      using Cons.prems(2) by (auto simp: p)
    obtain run' where ih: "rt' = rt" "sc' = ?sc\<lparr>sc_running := run'\<rparr>" "length run' = length ?new"
      "run_ids run' \<subseteq> run_ids ?new \<union> set (bs_request_ids st)"
      "\<And>u. res = Inr u \<Longrightarrow> (\<forall>j < length run'. j \<notin> (\<lambda>(k, c, i). i) ` set ps \<longrightarrow> run' ! j = ?new ! j) \<and>
         (\<forall>(k, c, i)\<in>set ps. \<exists>s. from_prefill_state st k = Inr s \<and>
            run' ! i = Some \<lparr>rs_client_index = c, rs_slot = s\<rparr>)"
      using Cons.IH[OF rest dis(1) pre] by auto
    have i: "i < length (sc_running sc)" using Cons.prems(3) by (simp add: p)
    have "run_ids ?new \<subseteq> insert (ds_request_id s) (run_ids (sc_running sc))"
    proof
      fix r assume "r \<in> run_ids ?new"
      then obtain e where e: "Some e \<in> set ?new" "r = ds_request_id (rs_slot e)" by (rule run_idsE)
      then have "e = \<lparr>rs_client_index = c, rs_slot = s\<rparr> \<or> Some e \<in> set (sc_running sc)"
        using set_update_subset_insert[of "sc_running sc" i] by blast
      then show "r \<in> insert (ds_request_id s) (run_ids (sc_running sc))"
        using e(2) run_idsI by (metis insert_iff running_slot.select_convs(2))
    qed
    moreover have "ds_request_id s \<in> set (bs_request_ids st)" using from_prefill_slot[OF Inr] by auto
    ultimately have ids: "run_ids run' \<subseteq> run_ids (sc_running sc) \<union> set (bs_request_ids st)" using ih(4) by blast
    have "(\<forall>j < length run'. j \<notin> (\<lambda>(k, c, i). i) ` set (p # ps) \<longrightarrow> run' ! j = sc_running sc ! j) \<and>
         (\<forall>(k, c, i)\<in>set (p # ps). \<exists>s. from_prefill_state st k = Inr s \<and>
            run' ! i = Some \<lparr>rs_client_index = c, rs_slot = s\<rparr>)" if r: "res = Inr u" for u
    proof (intro conjI)
      show "\<forall>j < length run'. j \<notin> (\<lambda>(k, c, i). i) ` set (p # ps) \<longrightarrow> run' ! j = sc_running sc ! j"
        using ih(5)[OF r] by (simp add: p)
      have "run' ! i = ?new ! i" using ih(3) ih(5)[OF r] dis(2) i by simp
      then show "\<forall>(k, c, i)\<in>set (p # ps). \<exists>s. from_prefill_state st k = Inr s \<and>
            run' ! i = Some \<lparr>rs_client_index = c, rs_slot = s\<rparr>"
        using ih(5)[OF r] Inr i by (simp add: p)
    qed
    then show ?thesis using ih(1-3) ids by (intro conjI exI[of _ run']) simp_all
  qed
qed

lemma running_card:
  assumes "distinct is" "\<forall>i\<in>set is. i < length running \<and> running ! i = None"
  shows "finite (run_ids running)" "card (run_ids running) + length is \<le> length running"
proof -
  let ?A = "{i. i < length running \<and> running ! i \<noteq> None}"
  have "run_ids running \<subseteq> (\<lambda>i. ds_request_id (rs_slot (the (running ! i)))) ` ?A"
  proof
    fix r assume "r \<in> run_ids running"
    then obtain e where "Some e \<in> set running" "r = ds_request_id (rs_slot e)" by (rule run_idsE)
    then obtain i where "i < length running" "running ! i = Some e" by (metis in_set_conv_nth)
    then show "r \<in> (\<lambda>i. ds_request_id (rs_slot (the (running ! i)))) ` ?A"
      using \<open>r = _\<close> by (intro image_eqI[of _ _ i]) simp_all
  qed
  moreover have fin: "finite ?A" by simp
  ultimately show "finite (run_ids running)" by (meson finite_imageI finite_subset)
  have "card (run_ids running) \<le> card ?A"
    using \<open>run_ids running \<subseteq> _\<close> fin by (meson card_image_le card_mono finite_imageI le_trans)
  moreover have "card ?A + card (set is) = card (?A \<union> set is)"
    using assms(2) by (intro card_Un_disjoint[symmetric]) auto
  moreover have "card (?A \<union> set is) \<le> card {..<length running}"
    using assms(2) by (intro card_mono) auto
  ultimately show "card (run_ids running) + length is \<le> length running"
    using distinct_card[OF assms(1)] by simp
qed

lemma installed_wave:
  fixes sc :: sched and wave :: "(nat \<times> nat) list"
  defines "base \<equiv> sc_next_request_id sc"
  defines "sc1 \<equiv> sc\<lparr>sc_next_request_id := saturating_add base (length wave)\<rparr>"
  assumes ok: "forP (enumerate 0 wave) (install_row st) (rt1, sc1) = (res, (rt', sc'))"
    and pre: "paged_batch_prefill en ids masks True cfg rt = (Inr st, rt1)"
    and rs: "rs = map (saturating_add (bc_request_id_base cfg)) [0..<length ids]"
      "\<And>k. k < length wave \<Longrightarrow> rs ! k = base + k" "set rs = {base..<base + length wave}"
    and shape: "length ids = length wave" "length (ids ! 0) \<le> sb_P b"
    and mid: "sched_mid b (length wave) (rt, sc)" and b: "bounds_ok b"
    and wave: "distinct (map snd wave)"
      "\<forall>(c, i)\<in>set wave. c < sb_batch b \<and> i < sb_slots b \<and> sc_running sc ! i = None"
  shows "(\<forall>e. res = Inl e \<longrightarrow> sched_err b (rt', sc')) \<and>
    (\<forall>u. res = Inr u \<longrightarrow> sched_inv b (rt', sc') \<and> sc_waiting sc' = sc_waiting sc \<and>
      (\<forall>i < sb_slots b. sc_running sc' ! i = sc_running sc ! i \<or>
         i \<in> snd ` set wave \<and> (\<exists>e. sc_running sc' ! i = Some e \<and> ds_decode_step (rs_slot e) = 0)))"
proof -
  let ?run = "sc_running sc" let ?R = "run_ids ?run \<union> set rs"
  have m: "held (sb_N b) (sb_F b) (sb_lim b) (run_ids ?run) rt" "entries_wf b base ?run"
    "sb_base b \<le> base" "base + length (sc_waiting sc) + length wave = sb_base b + sb_batch b"
    using mid by (auto simp: sched_mid_def base_def)
  have nxt: "saturating_add base (length wave) = base + length wave"
    using m(4) b by (simp add: saturating_add_def bounds_ok_def)
  have len: "length ?run = sb_slots b" using m(2) by (simp add: entries_wf_def)
  have old_ids: "r < base" if "r \<in> run_ids ?run" for r using that m(2) by (auto simp: entries_wf_def elim!: run_idsE)
  have slots: "\<forall>i\<in>set (map snd wave). i < length ?run \<and> ?run ! i = None" using wave(2) len by auto
  note card = running_card[OF wave(1) slots]
  have h0: "held (sb_N b) (sb_F b) (sb_lim b) ?R rt"
  proof (rule held_extend[OF m(1)])
    show "\<forall>r\<in>set rs. sb_F b r = []" using b rs(3) m(3,4) by (auto simp: bounds_ok_def)
    show "set rs \<inter> run_ids ?run = {}" using old_ids rs(3) by fastforce
    fix K bs assume l: "sb_lim b = Some (K, bs)"
    have "card ?R \<le> card (run_ids ?run) + card (set rs)" by (rule card_Un_le)
    then have "card ?R \<le> sb_slots b" using card(2) rs(3) len by simp
    then have "card ?R * K \<le> sb_slots b * K" by (rule mult_le_mono1)
    then show "card ?R * K \<le> sb_N b - 1" using b l by (meson bounds_ok_def le_trans)
  qed simp
  have lim: "seq_limit (sb_lim b) (sb_P b) (sb_max b)" using b by (simp add: bounds_ok_def)
  have P: "held (sb_N b) (sb_F b) (sb_lim b) ?R rt1" "bs_request_ids st = rs" "\<forall>n\<in>set (bs_prompt_lens st). n \<le> sb_P b"
    using prefill_ok[OF pre rs(1) h0 _ lim shape(2)] by auto
  have snds: "map (\<lambda>(k, c, i). i) (enumerate 0 wave) = map snd wave"
    by (intro nth_equalityI) (simp_all add: nth_enumerate_eq split: prod.split)
  then have img: "(\<lambda>(k, c, i). i) ` set (enumerate 0 wave) = snd ` set wave" by (metis list.set_map)
  have inr: "\<forall>(k, c, i)\<in>set (enumerate 0 wave). i < length (sc_running sc1)"
  proof (intro ballI, clarify)
    fix k c i assume "(k, c, i) \<in> set (enumerate 0 wave)"
    then have "i \<in> set (map snd wave)" using img by force
    then show "i < length (sc_running sc1)" using slots by (auto simp: sc1_def)
  qed
  obtain run' where I: "rt' = rt1" "sc' = sc1\<lparr>sc_running := run'\<rparr>" "length run' = sb_slots b"
    "run_ids run' \<subseteq> ?R"
    "\<And>u. res = Inr u \<Longrightarrow> (\<forall>i < length run'. i \<notin> snd ` set wave \<longrightarrow> run' ! i = ?run ! i) \<and>
       (\<forall>(k, c, i)\<in>set (enumerate 0 wave). \<exists>s. from_prefill_state st k = Inr s \<and>
            run' ! i = Some \<lparr>rs_client_index = c, rs_slot = s\<rparr>)"
    using install_rows[OF ok _ inr] wave(1) P(2) len unfolding snds img by (auto simp: sc1_def)
  have Rr: "?R \<subseteq> {sb_base b..<sb_base b + sb_batch b}"
    using rs(3) run_ids_range[OF m(2)] m(3,4) by auto
  have err: "sched_err b (rt', sc')"
    using held_weaken[OF P(1) Rr] I(1,2,4) Rr by (auto simp: sched_err_def)
  show ?thesis
  proof (intro conjI allI impI err)
    fix u assume r: "res = Inr u"
    have new: "\<exists>s. run' ! i = Some \<lparr>rs_client_index = c, rs_slot = s\<rparr> \<and> ds_request_id s = base + k \<and>
        ds_prompt_len s \<le> sb_P b \<and> ds_generated s = [] \<and> ds_decode_step s = 0"
      if k: "k < length wave" "wave ! k = (c, i)" for k c i
    proof -
      have "(k, c, i) \<in> set (enumerate 0 wave)" using k by (simp add: in_set_enumerate_eq)
      then obtain s where s: "from_prefill_state st k = Inr s" "run' ! i = Some \<lparr>rs_client_index = c, rs_slot = s\<rparr>"
        using I(5)[OF r] by fastforce
      then show ?thesis using from_prefill_slot[OF s(1)] rs(2)[OF k(1)] P(2,3) by auto
    qed
    have at: "(\<exists>k c s. k < length wave \<and> wave ! k = (c, i) \<and> c < sb_batch b \<and>
          run' ! i = Some \<lparr>rs_client_index = c, rs_slot = s\<rparr> \<and> ds_request_id s = base + k \<and>
          ds_prompt_len s \<le> sb_P b \<and> ds_generated s = [] \<and> ds_decode_step s = 0) \<or>
        (i \<notin> snd ` set wave \<and> run' ! i = ?run ! i)" if i: "i < length run'" for i
    proof (cases "i \<in> snd ` set wave")
      case True
      then obtain c where "(c, i) \<in> set wave" by auto
      then obtain k where k: "k < length wave" "wave ! k = (c, i)" by (metis in_set_conv_nth)
      moreover have "c < sb_batch b" using wave(2) \<open>(c, i) \<in> set wave\<close> by auto
      ultimately show ?thesis using new[OF k] by blast
    qed (use I(5)[OF r] i in auto)
    show "\<And>i. i < sb_slots b \<Longrightarrow> sc_running sc' ! i = sc_running sc ! i \<or>
         i \<in> snd ` set wave \<and> (\<exists>e. sc_running sc' ! i = Some e \<and> ds_decode_step (rs_slot e) = 0)"
    proof -
      fix i assume "i < sb_slots b"
      then have il: "i < length run'" using I(3) by simp
      consider k c s where "k < length wave" "wave ! k = (c, i)"
          "run' ! i = Some \<lparr>rs_client_index = c, rs_slot = s\<rparr>" "ds_decode_step s = 0"
        | "run' ! i = ?run ! i" using at[OF il] by blast
      then show "sc_running sc' ! i = sc_running sc ! i \<or>
         i \<in> snd ` set wave \<and> (\<exists>e. sc_running sc' ! i = Some e \<and> ds_decode_step (rs_slot e) = 0)"
      proof cases
        case 1
        then have "i \<in> snd ` set wave" by (metis image_eqI nth_mem snd_conv)
        then show ?thesis using 1 by (simp add: I(2))
      qed (simp add: I(2))
    qed
    have dist0: "ids_distinct ?run" using m(2) by (simp add: entries_wf_def)
    have entry: "(\<exists>k c. k < length wave \<and> wave ! k = (c, i) \<and> ds_request_id (rs_slot e) = base + k) \<or>
        (run' ! i = ?run ! i \<and> ds_request_id (rs_slot e) < base \<and> Some e \<in> set ?run)"
      if i: "i < length run'" "run' ! i = Some e" for i e
    proof -
      consider k c s where "k < length wave" "wave ! k = (c, i)"
          "run' ! i = Some \<lparr>rs_client_index = c, rs_slot = s\<rparr>" "ds_request_id s = base + k"
        | "run' ! i = ?run ! i" using at[OF i(1)] by blast
      then show ?thesis
      proof cases
        case 1
        then show ?thesis using i(2) by auto
      next
        case 2
        then have "Some e \<in> set ?run" using i I(3) len by (metis nth_mem)
        then show ?thesis using 2 old_ids run_idsI by blast
      qed
    qed
    have "ids_distinct run'"
      unfolding ids_distinct_def
    proof (intro allI impI)
      fix i j e e'
      assume i: "i < length run'" "run' ! i = Some e" and j: "j < length run'" "run' ! j = Some e'"
        and eq: "ds_request_id (rs_slot e) = ds_request_id (rs_slot e')"
      show "i = j"
        using entry[OF i]
      proof (elim disjE exE conjE)
        fix k c assume k: "k < length wave" "wave ! k = (c, i)" "ds_request_id (rs_slot e) = base + k"
        then obtain k' c' where "wave ! k' = (c', j)" "ds_request_id (rs_slot e') = base + k'"
          using entry[OF j] eq by auto
        then show "i = j" using k eq by simp
      next
        assume o: "run' ! i = ?run ! i" "ds_request_id (rs_slot e) < base"
        then have "run' ! j = ?run ! j" using entry[OF j] eq by auto
        then show "i = j" using dist0 o(1) i j eq I(3) len unfolding ids_distinct_def by metis
      qed
    qed
    moreover have "rs_client_index e < sb_batch b \<and> sb_base b \<le> ds_request_id (rs_slot e) \<and>
        ds_request_id (rs_slot e) < base + length wave \<and> slot_ok (sb_eos b) (sb_P b) (sb_max b) (rs_slot e)"
      if e: "Some e \<in> set run'" for e
    proof -
      obtain i where i: "i < length run'" "run' ! i = Some e" using e by (metis in_set_conv_nth)
      from at[OF i(1)] show ?thesis
      proof (elim disjE exE conjE)
        fix k c s assume "k < length wave" "c < sb_batch b" "run' ! i = Some \<lparr>rs_client_index = c, rs_slot = s\<rparr>"
          "ds_request_id s = base + k" "ds_prompt_len s \<le> sb_P b" "ds_generated s = []" "ds_decode_step s = 0"
        then show ?thesis using i(2) m(3) by (auto simp: slot_ok_def)
      next
        assume "run' ! i = ?run ! i"
        then have "Some e \<in> set ?run" using i I(3) len by (metis nth_mem)
        then show ?thesis using m(2) by (auto simp: entries_wf_def)
      qed
    qed
    ultimately have wf: "entries_wf b (base + length wave) run'" using I(3) by (simp add: entries_wf_def)
    have ids: "run_ids run' = ?R"
    proof (intro equalityI I(4) subsetI)
      fix q assume "q \<in> ?R"
      then show "q \<in> run_ids run'"
      proof
        assume "q \<in> run_ids ?run"
        then obtain e where e: "Some e \<in> set ?run" "q = ds_request_id (rs_slot e)" by (rule run_idsE)
        then obtain i where i: "i < length ?run" "?run ! i = Some e" by (metis in_set_conv_nth)
        then have "i \<notin> snd ` set wave" using slots by auto
        then have "run' ! i = Some e" using I(5)[OF r] i I(3) len by simp
        then show ?thesis using e(2) i(1) I(3) len run_idsI by (metis nth_mem)
      next
        assume "q \<in> set rs"
        then obtain k where k: "k < length wave" "q = base + k" using rs(3) by (auto dest: le_Suc_ex)
        obtain c i where ci: "wave ! k = (c, i)" by fastforce
        obtain s where s: "run' ! i = Some \<lparr>rs_client_index = c, rs_slot = s\<rparr>" "ds_request_id s = base + k"
          using new[OF k(1) ci] by blast
        have "i < length run'" using slots ci k(1) I(3) len by (metis image_eqI list.set_map nth_mem snd_conv)
        then have "Some \<lparr>rs_client_index = c, rs_slot = s\<rparr> \<in> set run'" using s(1) by (metis nth_mem)
        then show ?thesis using run_idsI s(2) k(2) by fastforce
      qed
    qed
    show "sc_waiting sc' = sc_waiting sc" by (simp add: I(2) sc1_def)
    have out: "length (sc_outputs sc) = sb_batch b" "\<forall>row\<in>set (sc_outputs sc). row_done (sb_eos b) (sb_max b) row"
      "\<forall>c\<in>set (sc_waiting sc). c < sb_batch b" using mid by (auto simp: sched_mid_def)
    show "sched_inv b (rt', sc')"
      using P(1) wf out m(3,4) by (simp add: sched_mid_def I(1,2) sc1_def ids nxt)
  qed
qed

lemma prefill_wave_spec:
  assumes run: "prefill_wave en inp wave (rt, sc) = (res, (rt', sc'))"
    and mid: "sched_mid b (length wave) (rt, sc)" and b: "bounds_ok b"
    and wave: "distinct (map snd wave)"
      "\<forall>(c, i)\<in>set wave. c < sb_batch b \<and> i < sb_slots b \<and> sc_running sc ! i = None"
    and prompts: "\<forall>row\<in>set (si_prepared inp). prepared_prompt_len row \<le> sb_P b"
  shows "(\<forall>e. res = Inl e \<longrightarrow> sched_err b (rt', sc')) \<and>
    (\<forall>u. res = Inr u \<longrightarrow> sched_inv b (rt', sc') \<and> sc_waiting sc' = sc_waiting sc \<and>
      (\<forall>i < sb_slots b. sc_running sc' ! i = sc_running sc ! i \<or>
         i \<in> snd ` set wave \<and> (\<exists>e. sc_running sc' ! i = Some e \<and> ds_decode_step (rs_slot e) = 0)))"
proof -
  let ?base = "sc_next_request_id sc" let ?run = "sc_running sc"
  let ?sc1 = "sc\<lparr>sc_next_request_id := saturating_add ?base (length wave)\<rparr>"
  have m: "held (sb_N b) (sb_F b) (sb_lim b) (run_ids ?run) rt" "entries_wf b ?base ?run"
    "sb_base b \<le> ?base" "?base + length (sc_waiting sc) + length wave = sb_base b + sb_batch b"
    using mid by (auto simp: sched_mid_def)
  have nxt: "saturating_add ?base (length wave) = ?base + length wave"
    using m(4) b by (simp add: saturating_add_def bounds_ok_def)
  have err0: "sched_err b (rt, ?sc1)"
    using sched_mid_err[OF mid] by (simp add: sched_err_def)
  define rs where "rs = map (saturating_add ?base) [0..<length wave]"
  have rs_nth: "rs ! k = ?base + k" if "k < length wave" for k
    using that m(4) b by (simp add: rs_def saturating_add_def bounds_ok_def)
  have rs_range: "set rs = {?base..<?base + length wave}"
  proof -
    have "rs = map (\<lambda>k. ?base + k) [0..<length wave]" using rs_nth by (intro nth_equalityI) (simp_all add: rs_def)
    then show ?thesis by (auto simp: image_iff intro: exI[of _ "_ - ?base"])
  qed
  let ?lens = "row_audio_lens en (si_prepared inp)"
  let ?cfg = "\<lparr>bc_max_new_tokens = si_max_new_tokens inp, bc_eos_token_ids = si_eos inp, bc_request_id_base = ?base\<rparr>"
  let ?audio = "concat_prepared_audio (si_audio inp) (fst (audio_offsets_from 0 ?lens)) ?lens (map fst wave)"
  have unf: "prefill_wave en inp wave (rt, sc) =
      (case pad_prepared_wave_for_prefill (si_prepared inp) (map fst wave) (si_pad_id inp) of
         Inl e \<Rightarrow> (Inl e, (rt, ?sc1))
       | Inr (ids, masks) \<Rightarrow> (case ?audio of Inl e \<Rightarrow> (Inl e, (rt, ?sc1))
           | Inr _ \<Rightarrow> (case paged_batch_prefill en ids masks True ?cfg rt of
               (Inl e, rt1) \<Rightarrow> (Inl e, (rt1, ?sc1))
             | (Inr st, rt1) \<Rightarrow> forP (enumerate 0 wave) (install_row st) (rt1, ?sc1))))"
    unfolding prefill_wave_def bindP_gets Let_def
    by (simp add: bindP_def liftR_def modifyP_def on_rt_def split: sum.split prod.split)
  show ?thesis
  proof (cases "(\<exists>ids masks. pad_prepared_wave_for_prefill (si_prepared inp) (map fst wave) (si_pad_id inp) = Inr (ids, masks))
      \<and> is_ok ?audio")
    case False
    then have "\<exists>e. prefill_wave en inp wave (rt, sc) = (Inl e, (rt, ?sc1))"
      unfolding unf by (auto simp: is_ok_def split: sum.splits prod.splits)
    then show ?thesis using run err0 by auto
  next
    case True
    then obtain ids masks where pad: "pad_prepared_wave_for_prefill (si_prepared inp) (map fst wave) (si_pad_id inp) = Inr (ids, masks)"
      by blast
    obtain pr rt1 where pre: "paged_batch_prefill en ids masks True ?cfg rt = (pr, rt1)" by fastforce
    have shape: "length ids = length wave" "length (ids ! 0) \<le> sb_P b"
      using pad_wave_shape[OF pad prompts] by simp_all
    have rs': "rs = map (saturating_add (bc_request_id_base ?cfg)) [0..<length ids]" by (simp add: rs_def shape)
    have run': "(case pr of Inl e \<Rightarrow> (Inl e, (rt1, ?sc1)) | Inr st \<Rightarrow> forP (enumerate 0 wave) (install_row st) (rt1, ?sc1))
        = (res, (rt', sc'))"
      using run True unfolding unf pad by (auto simp: pre is_ok_def split: sum.splits)
    show ?thesis
    proof (cases pr)
      case (Inl e)
      then have r: "res = Inl e" "rt' = rt1" "sc' = ?sc1" using run' by simp_all
      have "frame (sb_N b) (blocks_of (rt_manager rt)) rs rt" using m(1) by (simp add: frame_def held_def)
      from keepsD[OF prefill_keeps_frame this[unfolded rs'] pre]
      have fr: "frame (sb_N b) (blocks_of (rt_manager rt)) rs rt1" by (simp add: rs')
      have sub: "set rs \<union> run_ids ?run \<subseteq> {sb_base b..<sb_base b + sb_batch b}"
        using rs_range run_ids_range[OF m(2)] m(3,4) by auto
      have "blocks_of (rt_manager rt1) r = sb_F b r" if "r \<notin> {sb_base b..<sb_base b + sb_batch b}" for r
      proof -
        have "r \<notin> set rs" "r \<notin> run_ids ?run" using that sub by blast+
        then show ?thesis using fr m(1) by (simp add: held_def frame_def)
      qed
      then have "held (sb_N b) (sb_F b) None {sb_base b..<sb_base b + sb_batch b} rt1"
        using fr by (simp add: held_def frame_def)
      then show ?thesis using err0 r by (simp add: sched_err_def)
    next
      case (Inr st)
      have ok: "forP (enumerate 0 wave) (install_row st) (rt1, ?sc1) = (res, (rt', sc'))" using run' Inr by simp
      show ?thesis
        by (rule installed_wave[OF ok pre[unfolded Inr] rs' rs_nth rs_range shape mid b wave])
    qed
  qed
qed

end
