(* ===== verification/SchedulerLoop.thy ===== *)
theory SchedulerLoop
  imports SchedulerInvariant
begin

text \<open>
  Correctness of the loop of \<^verbatim>\<open>run_continuous_prepared\<close>: one iteration keeps the invariant
  and, in a pool with room for every slot, lowers \<^verbatim>\<open>sched_weight\<close>; hence what the call
  returns, when it returns, and a state from which it never does.
\<close>

section \<open>One iteration\<close>

lemma admit_loop_order:
  "admit_loop m cap ms prepared running idxs used n waiting = (wave, rest) \<Longrightarrow>
   map fst wave @ rest = waiting \<and> subseq (map snd wave) (filter (\<lambda>i. running ! i = None) idxs)"
proof (induction idxs arbitrary: used n waiting wave rest)
  case (Cons i idxs)
  have skip: "subseq [] ys" for ys :: "nat list" by simp
  show ?case
  proof (cases "running ! i = None \<and> \<not> ms \<le> n \<and> waiting \<noteq> []")
    case False
    then show ?thesis
      using Cons.prems Cons.IH[of used n waiting wave rest] by (auto split: if_splits list.splits)
  next
    case True
    then obtain c ws where w: "waiting = c # ws" by (cases waiting) auto
    then show ?thesis
      using Cons.prems True Cons.IH by (fastforce simp: Let_def split: if_splits prod.splits)
  qed
qed simp

lemma active_indices_iff:
  "(i, st) \<in> set (active_steps_of running) \<longleftrightarrow>
    i < length running \<and> (\<exists>e. running ! i = Some e \<and> \<not> ds_finished (rs_slot e) \<and> st = ds_decode_step (rs_slot e))"
  unfolding active_steps_of_def
  by (auto simp: in_set_enumerate_eq image_iff split: prod.splits)

lemma active_distinct: "distinct (map fst (active_steps_of running))"
proof -
  have "map fst (active_steps_of running) =
      map fst (filter (\<lambda>(i, e). e \<noteq> None \<and> \<not> ds_finished (rs_slot (the e))) (enumerate 0 running))"
    by (simp add: active_steps_of_def case_prod_unfold)
  moreover have "distinct (map fst (filter P (enumerate 0 running)))" for P
    by (intro distinct_map_filter) (simp add: map_fst_enumerate)
  ultimately show ?thesis by simp
qed

lemma active_groups:
  fixes running :: "running_slot option list"
  defines "gs \<equiv> group_running_by_decode_step (active_steps_of running)"
  shows "\<forall>g\<in>set gs. group_ok running g" "distinct (concat (map snd gs))"
    "set (concat (map snd gs)) = {i. i < length running \<and> (\<exists>e. running ! i = Some e \<and> \<not> ds_finished (rs_slot e))}"
proof -
  let ?a = "active_steps_of running"
  have content: "is = map fst (filter (\<lambda>p. snd p = t) ?a)" if "(t, is) \<in> set gs" for t "is"
    using group_content that by (simp add: gs_def)
  have mem: "(i, t) \<in> set ?a" if "(t, is) \<in> set gs" "i \<in> set is" for t "is" i
    using content[OF that(1)] that(2) by auto
  show "\<forall>g\<in>set gs. group_ok running g"
    using mem by (fastforce simp: group_ok_def active_indices_iff)
  have inj: "t = t'" if "(i, t) \<in> set ?a" "(i, t') \<in> set ?a" for i t t'
    using that by (auto simp: active_indices_iff)
  have keys: "distinct (map fst gs)" using group_keys(1)[of ?a] by (simp add: gs_def strict_sorted_iff)
  show "distinct (concat (map snd gs))"
  proof (rule distinct_concat)
    have ne: "is \<noteq> []" if "(t, is) \<in> set gs" for t "is"
    proof -
      have "t \<in> snd ` set ?a" using group_keys(2)[of ?a] that by (force simp: gs_def)
      then show ?thesis using content[OF that] by (auto simp: filter_empty_conv)
    qed
    have "inj_on snd (set gs)"
    proof (rule inj_onI)
      fix x y assume xy: "x \<in> set gs" "y \<in> set gs" "snd x = snd y"
      obtain t t' "is" where p: "x = (t, is)" "y = (t', is)" using xy(3) by (cases x, cases y) auto
      obtain i where "i \<in> set is" using ne[of t "is"] xy(1) p by (cases "is") auto
      then show "x = y" using mem[of t "is" i] mem[of t' "is" i] xy p inj by auto
    qed
    then show "distinct (map snd gs)" using keys by (simp add: distinct_map)
  next
    fix ys assume "ys \<in> set (map snd gs)"
    then obtain t where "(t, ys) \<in> set gs" by auto
    then show "distinct ys" using content active_distinct[of running] by (metis distinct_map_filter)
  next
    fix ys zs assume a: "ys \<in> set (map snd gs)" "zs \<in> set (map snd gs)" "ys \<noteq> zs"
    then obtain t t' where t: "(t, ys) \<in> set gs" "(t', zs) \<in> set gs" by auto
    then have "t \<noteq> t'" using content a(3) by auto
    then show "set ys \<inter> set zs = {}" using mem[OF t(1)] mem[OF t(2)] inj by blast
  qed
  show "set (concat (map snd gs)) = {i. i < length running \<and> (\<exists>e. running ! i = Some e \<and> \<not> ds_finished (rs_slot e))}"
  proof (intro equalityI subsetI)
    fix i assume "i \<in> set (concat (map snd gs))"
    then obtain t "is" where "(t, is) \<in> set gs" "i \<in> set is" by auto
    from mem[OF this] show "i \<in> {i. i < length running \<and> (\<exists>e. running ! i = Some e \<and> \<not> ds_finished (rs_slot e))}"
      by (auto simp: active_indices_iff)
  next
    fix i assume "i \<in> {i. i < length running \<and> (\<exists>e. running ! i = Some e \<and> \<not> ds_finished (rs_slot e))}"
    then obtain t where t: "(i, t) \<in> set ?a" by (auto simp: active_indices_iff)
    then have "t \<in> set (map fst gs)" using group_keys(2)[of ?a] by (force simp: gs_def simp del: set_map)
    then obtain "is" where g: "(t, is) \<in> set gs" by auto
    then have "i \<in> set is" using content[OF g] t by (auto intro!: image_eqI[of _ _ "(i, t)"])
    then show "i \<in> set (concat (map snd gs))" using g by force
  qed
qed

lemma entry_step_facts:
  assumes "entry_step eos P max_new moves a b"
  obtains e s where "a = Some e" "b = Some (e\<lparr>rs_slot := s\<rparr>)" "ds_request_id s = ds_request_id (rs_slot e)"
    "slot_ok eos P max_new (rs_slot e) \<longrightarrow> slot_ok eos P max_new s"
    "moves \<longrightarrow> \<not> ds_finished (rs_slot e) \<longrightarrow> ds_finished s \<or> ds_decode_step s = Suc (ds_decode_step (rs_slot e))"
  using assms unfolding entry_step_def slot_step_def by blast

lemma entries_replaced:
  assumes "entries_wf b nxt run" "length run' = length run"
    and "\<And>i. i < length run \<Longrightarrow> run' ! i = run ! i \<or>
      (\<exists>e s. run ! i = Some e \<and> run' ! i = Some (e\<lparr>rs_slot := s\<rparr>) \<and> ds_request_id s = ds_request_id (rs_slot e) \<and>
         (slot_ok (sb_eos b) (sb_P b) (sb_max b) (rs_slot e) \<longrightarrow> slot_ok (sb_eos b) (sb_P b) (sb_max b) s))"
  shows "entries_wf b nxt run'" "run_ids run' = run_ids run"
proof -
  have old_of: "\<exists>e0. run ! i = Some e0 \<and> rs_client_index e = rs_client_index e0 \<and>
      ds_request_id (rs_slot e) = ds_request_id (rs_slot e0) \<and>
      (slot_ok (sb_eos b) (sb_P b) (sb_max b) (rs_slot e0) \<longrightarrow> slot_ok (sb_eos b) (sb_P b) (sb_max b) (rs_slot e))"
    if i: "i < length run" "run' ! i = Some e" for i e
  proof -
    consider "run ! i = Some e" | e0 s where "run ! i = Some e0" "run' ! i = Some (e0\<lparr>rs_slot := s\<rparr>)"
        "ds_request_id s = ds_request_id (rs_slot e0)"
        "slot_ok (sb_eos b) (sb_P b) (sb_max b) (rs_slot e0) \<longrightarrow> slot_ok (sb_eos b) (sb_P b) (sb_max b) s"
      using assms(3)[OF i(1)] i(2) by force
    then show ?thesis by cases (use i(2) in auto)
  qed
  have old: "rs_client_index e < sb_batch b \<and> sb_base b \<le> ds_request_id (rs_slot e) \<and> ds_request_id (rs_slot e) < nxt \<and>
      slot_ok (sb_eos b) (sb_P b) (sb_max b) (rs_slot e)" if "i < length run" "run ! i = Some e" for i e
    using assms(1) that by (metis entries_wf_def nth_mem)
  have "ids_distinct run'"
    unfolding ids_distinct_def
  proof (intro allI impI)
    fix i j e e' assume i: "i < length run'" "run' ! i = Some e" and j: "j < length run'" "run' ! j = Some e'"
      and eq: "ds_request_id (rs_slot e) = ds_request_id (rs_slot e')"
    obtain e0 where e0: "run ! i = Some e0" "ds_request_id (rs_slot e) = ds_request_id (rs_slot e0)"
      using old_of[of i e] i assms(2) by auto
    obtain e1 where e1: "run ! j = Some e1" "ds_request_id (rs_slot e') = ds_request_id (rs_slot e1)"
      using old_of[of j e'] j assms(2) by auto
    have "ids_distinct run" using assms(1) by (simp add: entries_wf_def)
    then show "i = j" by (rule ids_distinctD[OF _ e0(1) e1(1)]) (use e0 e1 eq i(1) j(1) assms(2) in simp_all)
  qed
  moreover have "rs_client_index e < sb_batch b \<and> sb_base b \<le> ds_request_id (rs_slot e) \<and>
      ds_request_id (rs_slot e) < nxt \<and> slot_ok (sb_eos b) (sb_P b) (sb_max b) (rs_slot e)"
    if e: "Some e \<in> set run'" for e
  proof -
    obtain i where i: "i < length run" "run' ! i = Some e" using e assms(2) by (metis in_set_conv_nth)
    then show ?thesis using old_of[OF i] old[OF i(1)] by auto
  qed
  ultimately show "entries_wf b nxt run'" using assms(1,2) by (simp add: entries_wf_def)
  show "run_ids run' = run_ids run"
  proof (intro equalityI subsetI)
    fix r assume "r \<in> run_ids run'"
    then obtain e where e: "Some e \<in> set run'" "r = ds_request_id (rs_slot e)" by (rule run_idsE)
    then obtain i where i: "i < length run" "run' ! i = Some e" using assms(2) by (metis in_set_conv_nth)
    then obtain e0 where "run ! i = Some e0" "r = ds_request_id (rs_slot e0)" using old_of[OF i] e(2) by auto
    then show "r \<in> run_ids run" using i(1) run_idsI by (metis nth_mem)
  next
    fix r assume "r \<in> run_ids run"
    then obtain e where e: "Some e \<in> set run" "r = ds_request_id (rs_slot e)" by (rule run_idsE)
    then obtain i where i: "i < length run" "run ! i = Some e" by (metis in_set_conv_nth)
    then obtain e' where "run' ! i = Some e'" "ds_request_id (rs_slot e') = r"
      using assms(3)[OF i(1)] e(2) by auto
    then show "r \<in> run_ids run'" using i(1) assms(2) run_idsI by (metis nth_mem)
  qed
qed

lemma finish_at_limit_cases:
  "finish_at_limit m a = a \<or> (\<exists>e. a = Some e \<and> finish_at_limit m a = Some (e\<lparr>rs_slot := (rs_slot e)\<lparr>ds_finished := True\<rparr>\<rparr>))"
  by (cases a) (auto simp: finish_at_limit_def)

definition step_phase :: "('g, 'l) engine \<Rightarrow> 'f sched_input \<Rightarrow> ('g cache_runtime \<times> sched, (nat \<times> nat) list) prog" where
  "step_phase en inp =
     bindP (modifyP free_finished_running) (\<lambda>_.
     bindP (gets (\<lambda>(rt, sc). active_steps_of (sc_running sc))) (\<lambda>active_steps.
     bindP (forP (group_running_by_decode_step active_steps)
              (decode_group en (si_max_new_tokens inp) (si_eos inp))) (\<lambda>_.
     bindP (modifyP (\<lambda>(rt, sc). (rt, sc\<lparr>sc_running := map (finish_at_limit (si_max_new_tokens inp)) (sc_running sc)\<rparr>))) (\<lambda>_.
     bindP (modifyP free_finished_running) (\<lambda>_. ret active_steps)))))"

lemma step_phase_spec:
  assumes run: "step_phase en inp (rt, sc) = (res, (rt', sc'))" and inv: "sched_inv b (rt, sc)" and b: "bounds_ok b"
    and par: "si_max_new_tokens inp = sb_max b" "si_eos inp = sb_eos b"
  shows "(\<forall>e. res = Inl e \<longrightarrow> sched_err b (rt', sc')) \<and>
    (\<forall>act. res = Inr act \<longrightarrow> sched_inv b (rt', sc') \<and> sc_waiting sc' = sc_waiting sc \<and>
      (act = [] \<longrightarrow> (\<forall>i < sb_slots b. sc_running sc' ! i = None)) \<and>
      (sb_lim b \<noteq> None \<longrightarrow> (\<forall>i < sb_slots b. slot_weight (sb_max b) (sc_running sc' ! i) \<le> slot_weight (sb_max b) (sc_running sc ! i)) \<and>
        (act \<noteq> [] \<longrightarrow> (\<exists>i < sb_slots b. slot_weight (sb_max b) (sc_running sc' ! i) < slot_weight (sb_max b) (sc_running sc ! i)))))"
proof -
  let ?drop = "map (\<lambda>e. if slot_done e then None else e)" let ?lim = "finish_at_limit (sb_max b)"
  obtain rt1 outs1 where f1: "free_finished_running (rt, sc) =
      (rt1, sc\<lparr>sc_outputs := outs1, sc_running := ?drop (sc_running sc)\<rparr>)"
    and inv1: "sched_inv b (free_finished_running (rt, sc))"
    by (rule free_finished_keeps[OF inv b])
  define run1 where "run1 = ?drop (sc_running sc)"
  define sc1 where "sc1 = sc\<lparr>sc_outputs := outs1, sc_running := run1\<rparr>"
  have f1': "free_finished_running (rt, sc) = (rt1, sc1)" using f1 by (simp add: sc1_def run1_def)
  define gs where "gs = group_running_by_decode_step (active_steps_of run1)"
  obtain r rt2 sc2 where d: "forP gs (decode_group en (sb_max b) (sb_eos b)) (rt1, sc1) = (r, (rt2, sc2))"
    by (rule prod_cases3)
  have eq: "(res, (rt', sc')) = (case r of Inl e \<Rightarrow> (Inl e, (rt2, sc2)) | Inr _ \<Rightarrow>
      (Inr (active_steps_of run1), free_finished_running (rt2, sc2\<lparr>sc_running := map ?lim (sc_running sc2)\<rparr>)))"
    using run f1' d unfolding step_phase_def par
    by (simp add: bindP_def modifyP_def gets_def ret_def gs_def sc1_def split: sum.splits)
  have i1: "held (sb_N b) (sb_F b) (sb_lim b) (run_ids run1) rt1" "entries_wf b (sc_next_request_id sc) run1"
    "sc_next_request_id sc \<le> sb_base b + sb_batch b"
    using inv1 by (auto simp: f1' sched_mid_def sc1_def)
  have len1: "length run1 = sb_slots b" using i1(2) by (simp add: entries_wf_def)
  have bl: "seq_limit (sb_lim b) (sb_P b) (sb_max b)" "sb_max b \<le> usize_max" using b by (auto simp: bounds_ok_def)
  have run1_sc1: "sc_running sc1 = run1" by (simp add: sc1_def)
  have ent1: "entries_ok (sb_eos b) (sb_P b) (sb_max b) (run_ids run1) (sc_running sc1)"
    using i1(2) run_idsI by (auto simp: run1_sc1 entries_wf_def entries_ok_def)
  note G = active_groups[of run1, folded gs_def]
  obtain run2 where D: "held (sb_N b) (sb_F b) (sb_lim b) (run_ids run1) rt2" "sc2 = sc1\<lparr>sc_running := run2\<rparr>"
    "length run2 = length run1" "entries_ok (sb_eos b) (sb_P b) (sb_max b) (run_ids run1) run2"
    "\<And>u i. r = Inr u \<Longrightarrow> i < length run2 \<Longrightarrow> (i \<notin> set (concat (map snd gs)) \<longrightarrow> run2 ! i = run1 ! i) \<and>
       (i \<in> set (concat (map snd gs)) \<longrightarrow>
          entry_step (sb_eos b) (sb_P b) (sb_max b) (sb_lim b \<noteq> None) (run1 ! i) (run2 ! i))"
    using decode_groups_spec[OF d i1(1) ent1 _ G(2) bl] G(1) unfolding run1_sc1 by blast
  show ?thesis
  proof (cases r)
    case (Inl e)
    have "run_ids run2 \<subseteq> run_ids run1" using D(4) by (auto simp: entries_ok_def elim: run_idsE)
    then have "sched_err b (rt2, sc2)"
      using held_weaken[OF D(1)] run_ids_range[OF i1(2,3)] D(2) by (auto simp: sched_err_def)
    then show ?thesis using eq Inl by simp
  next
    case (Inr u)
    have act_iff: "i \<in> set (concat (map snd gs)) \<longleftrightarrow> i < length run1 \<and> run1 ! i \<noteq> None" for i
    proof -
      have "\<not> ds_finished (rs_slot e)" if "run1 ! i = Some e" "i < length run1" for e
        using that unfinished_iff[of e "sc_running sc"] nth_mem[of i run1] by (simp add: run1_def)
      then show ?thesis unfolding G(3) by auto
    qed
    have step: "run2 ! i = run1 ! i \<and> run1 ! i = None \<or>
        (\<exists>e s. run1 ! i = Some e \<and> run2 ! i = Some (e\<lparr>rs_slot := s\<rparr>) \<and> ds_request_id s = ds_request_id (rs_slot e) \<and>
          (slot_ok (sb_eos b) (sb_P b) (sb_max b) (rs_slot e) \<longrightarrow> slot_ok (sb_eos b) (sb_P b) (sb_max b) s) \<and>
          (sb_lim b \<noteq> None \<longrightarrow> ds_finished s \<or> ds_decode_step s = Suc (ds_decode_step (rs_slot e))))"
      if i: "i < length run1" for i
    proof (cases "run1 ! i")
      case None
      then show ?thesis using D(5)[OF Inr, of i] i D(3) act_iff[of i] by simp
    next
      case (Some e)
      have "entry_step (sb_eos b) (sb_P b) (sb_max b) (sb_lim b \<noteq> None) (run1 ! i) (run2 ! i)"
        using D(5)[OF Inr, of i] i D(3) act_iff[of i] Some by simp
      moreover have "\<not> ds_finished (rs_slot e)"
        using Some i unfinished_iff[of e "sc_running sc"] nth_mem[of i run1] by (simp add: run1_def)
      ultimately show ?thesis using Some by (auto elim!: entry_step_facts)
    qed
    let ?run3 = "map ?lim run2"
    have step3: "?run3 ! i = run1 ! i \<and> run1 ! i = None \<or>
        (\<exists>e s. run1 ! i = Some e \<and> ?run3 ! i = Some (e\<lparr>rs_slot := s\<rparr>) \<and> ds_request_id s = ds_request_id (rs_slot e) \<and>
          (slot_ok (sb_eos b) (sb_P b) (sb_max b) (rs_slot e) \<longrightarrow> slot_ok (sb_eos b) (sb_P b) (sb_max b) s) \<and>
          (sb_lim b \<noteq> None \<longrightarrow> ds_finished s \<or> ds_decode_step s = Suc (ds_decode_step (rs_slot e))))"
      if i: "i < length run1" for i
      using step[OF i]
    proof (elim disjE exE conjE)
      assume "run2 ! i = run1 ! i" "run1 ! i = None"
      then show ?thesis using i D(3) by (simp add: finish_at_limit_def)
    next
      fix e s assume a: "run1 ! i = Some e" "run2 ! i = Some (e\<lparr>rs_slot := s\<rparr>)" "ds_request_id s = ds_request_id (rs_slot e)"
        "slot_ok (sb_eos b) (sb_P b) (sb_max b) (rs_slot e) \<longrightarrow> slot_ok (sb_eos b) (sb_P b) (sb_max b) s"
        "sb_lim b \<noteq> None \<longrightarrow> ds_finished s \<or> ds_decode_step s = Suc (ds_decode_step (rs_slot e))"
      have "\<exists>s'. ?run3 ! i = Some (e\<lparr>rs_slot := s'\<rparr>) \<and> (s' = s \<or> s' = s\<lparr>ds_finished := True\<rparr>)"
        using a(2) i D(3) by (auto simp: finish_at_limit_def)
      then show ?thesis using a by (auto simp: slot_ok_def)
    qed
    have E: "entries_wf b (sc_next_request_id sc) ?run3" "run_ids ?run3 = run_ids run1"
      by (rule entries_replaced[OF i1(2)]; use D(3) step3 in force)+
    have inv3: "sched_inv b (rt2, sc2\<lparr>sc_running := ?run3\<rparr>)"
      using inv1 D(1) E by (simp add: f1' sched_mid_def sc1_def D(2))
    obtain rt4 outs4 where f4: "free_finished_running (rt2, sc2\<lparr>sc_running := ?run3\<rparr>) =
        (rt4, sc2\<lparr>sc_running := ?run3\<rparr>\<lparr>sc_outputs := outs4, sc_running := ?drop (sc_running (sc2\<lparr>sc_running := ?run3\<rparr>))\<rparr>)"
      and inv4: "sched_inv b (free_finished_running (rt2, sc2\<lparr>sc_running := ?run3\<rparr>))"
      by (rule free_finished_keeps[OF inv3 b])
    have r: "res = Inr (active_steps_of run1)" "(rt', sc') = free_finished_running (rt2, sc2\<lparr>sc_running := ?run3\<rparr>)"
      using eq Inr D(2) by simp_all
    have sc': "sc_running sc' = ?drop ?run3" "sc_waiting sc' = sc_waiting sc"
      using r(2) f4 D(2) by (simp_all add: sc1_def)
    have none: "sc_running sc' ! i = None" if "i < sb_slots b" "run1 ! i = None" for i
      using step3[of i] that len1 D(3) by (simp add: sc' slot_done_def)
    have w1: "slot_weight (sb_max b) (run1 ! i) \<le> slot_weight (sb_max b) (sc_running sc ! i)" if "i < sb_slots b" for i
      using that len1 by (auto simp: run1_def slot_weight_def)
    have less: "slot_weight (sb_max b) (sc_running sc' ! i) < slot_weight (sb_max b) (run1 ! i)"
      if i: "i < sb_slots b" and l: "sb_lim b \<noteq> None" and some: "run1 ! i = Some e" for i e
    proof -
      have "slot_ok (sb_eos b) (sb_P b) (sb_max b) (rs_slot e)"
        using i1(2) some i len1 by (metis entries_wf_def nth_mem)
      then have "ds_decode_step (rs_slot e) \<le> sb_max b" by (simp add: slot_ok_def)
      then show ?thesis using step3[of i] some l i len1 D(3) by (auto simp: sc' slot_done_def slot_weight_def)
    qed
    have le: "slot_weight (sb_max b) (sc_running sc' ! i) \<le> slot_weight (sb_max b) (sc_running sc ! i)"
      if "i < sb_slots b" "sb_lim b \<noteq> None" for i
      using less[OF that] none[OF that(1)] w1[OF that(1)] by (cases "run1 ! i") (auto simp: slot_weight_def intro: less_imp_le order.strict_trans2)
    have some: "\<exists>i < sb_slots b. run1 ! i \<noteq> None" if ne: "active_steps_of run1 \<noteq> []"
    proof -
      obtain p ps where "active_steps_of run1 = p # ps" using ne by (cases "active_steps_of run1") auto
      then have "(fst p, snd p) \<in> set (active_steps_of run1)" by simp
      then show ?thesis using len1 unfolding active_indices_iff by auto
    qed
    have "\<exists>i < sb_slots b. slot_weight (sb_max b) (sc_running sc' ! i) < slot_weight (sb_max b) (sc_running sc ! i)"
      if ne: "active_steps_of run1 \<noteq> []" and l: "sb_lim b \<noteq> None"
    proof -
      obtain i e where i: "i < sb_slots b" "run1 ! i = Some e" using some[OF ne] by auto
      show ?thesis using less[OF i(1) l i(2)] w1[OF i(1)] i(1) by (meson order.strict_trans2)
    qed
    moreover have "sc_running sc' ! i = None" if "active_steps_of run1 = []" "i < sb_slots b" for i
    proof -
      have "run1 ! i = None"
      proof (rule ccontr)
        assume "run1 ! i \<noteq> None"
        then have "i \<in> set (concat (map snd gs))" using act_iff that(2) len1 by simp
        then show False using that(1) by (simp add: gs_def group_running_by_decode_step_def)
      qed
      then show ?thesis by (rule none[OF that(2)])
    qed
    ultimately show ?thesis using r inv4 sc'(2) le by auto
  qed
qed

definition admit_phase ::
  "('g, 'l) engine \<Rightarrow> 'f sched_input \<Rightarrow> nat \<Rightarrow> nat \<Rightarrow> (nat \<times> nat) list \<Rightarrow> ('g cache_runtime \<times> sched, bool) prog" where
  "admit_phase en inp cap max_slots active_steps =
     bindP (gets (\<lambda>(rt, sc). admit_loop (rt_manager rt) cap max_slots (si_prepared inp) (sc_running sc) [0..<max_slots]
              (running_kv_blocks (sc_running sc) (rt_manager rt))
              (length (filter (\<lambda>e. e \<noteq> None) (sc_running sc))) (sc_waiting sc))) (\<lambda>(wave, waiting').
     bindP (modifyP (\<lambda>(rt, sc). (rt, sc\<lparr>sc_waiting := waiting'\<rparr>))) (\<lambda>_.
     bindP (if wave = [] then ret () else prefill_wave en inp wave) (\<lambda>_.
     bindP (gets (\<lambda>(rt, sc). \<exists>e\<in>set (sc_running sc). e \<noteq> None)) (\<lambda>has_running.
       if waiting' = [] \<and> \<not> has_running then ret True
       else if wave = [] \<and> active_steps = [] \<and> \<not> has_running \<and> waiting' \<noteq> []
       then liftR (Inl (Err ''paged KV cache exhausted''))
       else ret False))))"

lemma bindP_assoc: "bindP (bindP m f) g = bindP m (\<lambda>x. bindP (f x) g)"
  by (rule ext) (simp add: bindP_def split: prod.split sum.split)

lemma bindP_ret: "bindP (ret x) f = f x"
  by (rule ext) (simp add: bindP_def ret_def)

lemma sched_iteration_phases:
  "sched_iteration en inp cap ms = bindP (step_phase en inp) (admit_phase en inp cap ms)"
  unfolding sched_iteration_def step_phase_def admit_phase_def bindP_assoc bindP_ret by (rule refl)

lemma sum_list_places: "sum_list (map f xs) = (\<Sum>i<length xs. f (xs ! i))" for f :: "'a \<Rightarrow> nat"
  by (simp add: sum_list_sum_nth atLeast0LessThan)

lemma admitted_weight:
  assumes "length run' = length run" "set is \<subseteq> {..<length run}" "distinct is"
    and "\<And>i. i < length run \<Longrightarrow> run' ! i = run ! i \<or> i \<in> set is \<and> (\<exists>e. run' ! i = Some e \<and> ds_decode_step (rs_slot e) = 0)"
  shows "sum_list (map (slot_weight m) run') \<le> sum_list (map (slot_weight m) run) + length is * Suc m"
proof -
  have "(\<Sum>i<length run. slot_weight m (run' ! i)) \<le>
      (\<Sum>i<length run. slot_weight m (run ! i) + (if i \<in> set is then Suc m else 0))"
    using assms(4) by (intro sum_mono) (fastforce simp: slot_weight_def)
  also have "\<dots> = (\<Sum>i<length run. slot_weight m (run ! i)) + (\<Sum>i<length run. if i \<in> set is then Suc m else 0)"
    by (simp add: sum.distrib)
  also have "(\<Sum>i<length run. if i \<in> set is then Suc m else 0) = (\<Sum>i\<in>{..<length run} \<inter> set is. Suc m)"
    by (subst sum.inter_restrict) simp_all
  also have "{..<length run} \<inter> set is = set is" using assms(2) by blast
  finally show ?thesis using assms(1,3) by (simp add: sum_list_places distinct_card)
qed

lemma subseq_facts: "subseq xs ys \<Longrightarrow> set xs \<subseteq> set ys \<and> (distinct ys \<longrightarrow> distinct xs)"
proof (induction rule: list_emb.induct)
  case (list_emb_Cons2 x y xs ys)
  then show ?case by auto
qed auto

lemma admit_phase_spec:
  assumes run: "admit_phase en inp cap ms act (rt, sc) = (res, (rt', sc'))" and inv: "sched_inv b (rt, sc)"
    and b: "bounds_ok b" and ms: "ms = sb_slots b"
    and prompts: "\<forall>row\<in>set (si_prepared inp). prepared_prompt_len row \<le> sb_P b"
  shows "(\<forall>e. res = Inl e \<longrightarrow> sched_err b (rt', sc')) \<and>
    (\<forall>stop. res = Inr stop \<longrightarrow> sched_inv b (rt', sc') \<and>
      (stop \<longrightarrow> sc_waiting sc' = [] \<and> (\<forall>e\<in>set (sc_running sc'). e = None)) \<and>
      (\<not> stop \<longrightarrow> sched_weight (sb_max b) sc' \<le> sched_weight (sb_max b) sc \<and>
         (sched_weight (sb_max b) sc' < sched_weight (sb_max b) sc \<or> act \<noteq> [] \<or> (\<exists>i < sb_slots b. sc_running sc ! i \<noteq> None))))"
proof -
  obtain wave rest where adm: "admit_loop (rt_manager rt) cap ms (si_prepared inp) (sc_running sc) [0..<ms]
              (running_kv_blocks (sc_running sc) (rt_manager rt))
              (length (filter (\<lambda>e. e \<noteq> None) (sc_running sc))) (sc_waiting sc) = (wave, rest)" by fastforce
  have ord: "map fst wave @ rest = sc_waiting sc"
    "subseq (map snd wave) (filter (\<lambda>i. sc_running sc ! i = None) [0..<ms])"
    using admit_loop_order[OF adm] by auto
  have dist: "distinct (map snd wave)" using subseq_facts[OF ord(2)] by simp
  have slots: "i < sb_slots b \<and> sc_running sc ! i = None" if "i \<in> set (map snd wave)" for i
    using subseq_facts[OF ord(2)] that ms by auto
  have clients: "\<forall>c\<in>set (sc_waiting sc). c < sb_batch b" and len: "length (sc_running sc) = sb_slots b"
    using inv by (auto simp: sched_mid_def entries_wf_def)
  have wave_ok: "\<forall>(c, i)\<in>set wave. c < sb_batch b \<and> i < sb_slots b \<and> sc_running sc ! i = None"
  proof (clarify)
    fix c i assume w: "(c, i) \<in> set wave"
    then have "c \<in> set (map fst wave)" "i \<in> set (map snd wave)" by force+
    then show "c < sb_batch b \<and> i < sb_slots b \<and> sc_running sc ! i = None"
      using slots clients ord(1) by (metis UnCI set_append)
  qed
  let ?sc1 = "sc\<lparr>sc_waiting := rest\<rparr>"
  have wlen: "length (sc_waiting sc) = length wave + length rest" using ord(1) by (metis length_append length_map)
  have rest_in: "set rest \<subseteq> set (sc_waiting sc)" using ord(1) by (metis set_append sup_ge2)
  have mid: "sched_mid b (length wave) (rt, ?sc1)"
    using inv wlen clients rest_in by (auto simp: sched_mid_def)
  define pre where "pre = (if wave = [] then ret () else prefill_wave en inp wave)"
  obtain pr rt2 sc2 where p: "pre (rt, ?sc1) = (pr, (rt2, sc2))" by (rule prod_cases3)
  let ?has = "\<exists>e\<in>set (sc_running sc2). e \<noteq> None"
  have eq: "(res, (rt', sc')) = (case pr of Inl e \<Rightarrow> (Inl e, (rt2, sc2))
      | Inr _ \<Rightarrow> (if rest = [] \<and> \<not> ?has then (Inr True, (rt2, sc2))
         else if wave = [] \<and> act = [] \<and> \<not> ?has \<and> rest \<noteq> [] then (Inl (Err ''paged KV cache exhausted''), (rt2, sc2))
         else (Inr False, (rt2, sc2))))"
    using run unfolding admit_phase_def bindP_gets prod.case adm pre_def[symmetric]
    by (simp add: bindP_def gets_def modifyP_def liftR_def p ret_def split: sum.splits if_splits) auto
  have spec: "(\<forall>e. pr = Inl e \<longrightarrow> sched_err b (rt2, sc2)) \<and>
    (\<forall>u. pr = Inr u \<longrightarrow> sched_inv b (rt2, sc2) \<and> sc_waiting sc2 = rest \<and>
      (\<forall>i < sb_slots b. sc_running sc2 ! i = sc_running sc ! i \<or>
         i \<in> snd ` set wave \<and> (\<exists>e. sc_running sc2 ! i = Some e \<and> ds_decode_step (rs_slot e) = 0)))"
  proof (cases "wave = []")
    case True
    then have "pr = Inr ()" "rt2 = rt" "sc2 = ?sc1" using p by (simp_all add: pre_def ret_def)
    then show ?thesis using mid True by simp
  next
    case False
    then have "prefill_wave en inp wave (rt, ?sc1) = (pr, (rt2, sc2))" using p by (simp add: pre_def)
    from prefill_wave_spec[OF this mid b dist _ prompts] wave_ok show ?thesis by simp
  qed
  show ?thesis
  proof (cases pr)
    case (Inl e)
    then show ?thesis using eq spec by simp
  next
    case (Inr u)
    have i2: "sched_inv b (rt2, sc2)" "sc_waiting sc2 = rest" and at: "\<And>i. i < sb_slots b \<Longrightarrow>
        sc_running sc2 ! i = sc_running sc ! i \<or>
         i \<in> snd ` set wave \<and> (\<exists>e. sc_running sc2 ! i = Some e \<and> ds_decode_step (rs_slot e) = 0)"
      using spec Inr by auto
    have len2: "length (sc_running sc2) = sb_slots b" using i2(1) by (auto simp: sched_mid_def entries_wf_def)
    have "sum_list (map (slot_weight (sb_max b)) (sc_running sc2)) \<le>
        sum_list (map (slot_weight (sb_max b)) (sc_running sc)) + length (map snd wave) * Suc (sb_max b)"
      by (rule admitted_weight) (use at slots len len2 dist in auto)
    then have w: "sched_weight (sb_max b) sc2 + length wave \<le> sched_weight (sb_max b) sc"
      using wlen by (simp add: sched_weight_def i2(2) algebra_simps)
    have same: "sc_running sc2 = sc_running sc" if "wave = []"
      using at that len len2 by (intro nth_equalityI) auto
    have "\<exists>i < sb_slots b. sc_running sc ! i \<noteq> None" if "wave = []" "?has"
      using that(2) len unfolding same[OF that(1)] by (metis in_set_conv_nth)
    moreover have "(res, (rt', sc')) = (if rest = [] \<and> \<not> ?has then (Inr True, (rt2, sc2))
         else if wave = [] \<and> act = [] \<and> \<not> ?has \<and> rest \<noteq> [] then (Inl (Err ''paged KV cache exhausted''), (rt2, sc2))
         else (Inr False, (rt2, sc2)))" using eq Inr by simp
    then have "rt' = rt2 \<and> sc' = sc2 \<and> (res = Inr True \<and> rest = [] \<and> \<not> ?has \<or> (\<exists>e. res = Inl e) \<or>
        res = Inr False \<and> (wave = [] \<longrightarrow> act \<noteq> [] \<or> ?has))"
      by (simp split: if_splits) blast+
    moreover have "sched_weight (sb_max b) sc2 < sched_weight (sb_max b) sc" if "wave \<noteq> []"
      using w that by (cases wave) simp_all
    ultimately show ?thesis
      using i2 w sched_mid_err[OF i2(1)] by (elim conjE disjE exE) auto
  qed
qed

lemma sched_iteration_spec:
  assumes run: "sched_iteration en inp cap ms (rt, sc) = (res, (rt', sc'))" and inv: "sched_inv b (rt, sc)"
    and b: "bounds_ok b" and ms: "ms = sb_slots b"
    and par: "si_max_new_tokens inp = sb_max b" "si_eos inp = sb_eos b"
    and prompts: "\<forall>row\<in>set (si_prepared inp). prepared_prompt_len row \<le> sb_P b"
  shows "(\<forall>e. res = Inl e \<longrightarrow> sched_err b (rt', sc')) \<and>
    (\<forall>stop. res = Inr stop \<longrightarrow> sched_inv b (rt', sc') \<and>
      (stop \<longrightarrow> sc_waiting sc' = [] \<and> (\<forall>e\<in>set (sc_running sc'). e = None)) \<and>
      (\<not> stop \<and> sb_lim b \<noteq> None \<longrightarrow> sched_weight (sb_max b) sc' < sched_weight (sb_max b) sc))"
proof -
  obtain r rt1 sc1 where s: "step_phase en inp (rt, sc) = (r, (rt1, sc1))" by (rule prod_cases3)
  note S = step_phase_spec[OF s inv b par]
  show ?thesis
  proof (cases r)
    case (Inl e)
    then have "res = Inl e" "rt' = rt1" "sc' = sc1"
      using run s by (simp_all add: sched_iteration_phases bindP_def)
    then show ?thesis using S Inl by simp
  next
    case (Inr act)
    have i1: "sched_inv b (rt1, sc1)" and wait: "sc_waiting sc1 = sc_waiting sc"
      and idle: "act = [] \<Longrightarrow> \<forall>i < sb_slots b. sc_running sc1 ! i = None"
      and le: "sb_lim b \<noteq> None \<Longrightarrow> i < sb_slots b \<Longrightarrow>
        slot_weight (sb_max b) (sc_running sc1 ! i) \<le> slot_weight (sb_max b) (sc_running sc ! i)"
      and lt: "sb_lim b \<noteq> None \<Longrightarrow> act \<noteq> [] \<Longrightarrow> \<exists>i < sb_slots b.
        slot_weight (sb_max b) (sc_running sc1 ! i) < slot_weight (sb_max b) (sc_running sc ! i)" for i
      using S Inr by auto
    have a: "admit_phase en inp cap ms act (rt1, sc1) = (res, (rt', sc'))"
      using run s Inr by (simp add: sched_iteration_phases bindP_def)
    have len: "length (sc_running sc) = sb_slots b" "length (sc_running sc1) = sb_slots b"
      using inv i1 by (auto simp: sched_mid_def entries_wf_def)
    have w: "sched_weight (sb_max b) sc1 \<le> sched_weight (sb_max b) sc" if "sb_lim b \<noteq> None"
      using le[OF that] by (auto simp: sched_weight_def wait sum_list_places len intro!: sum_mono)
    have w': "sched_weight (sb_max b) sc1 < sched_weight (sb_max b) sc" if l: "sb_lim b \<noteq> None" and ne: "act \<noteq> []"
    proof -
      obtain i where "i < sb_slots b" "slot_weight (sb_max b) (sc_running sc1 ! i) < slot_weight (sb_max b) (sc_running sc ! i)"
        using lt[OF l ne] by blast
      then have "sum (\<lambda>i. slot_weight (sb_max b) (sc_running sc1 ! i)) {..<sb_slots b} <
          sum (\<lambda>i. slot_weight (sb_max b) (sc_running sc ! i)) {..<sb_slots b}"
        using le[OF l] by (intro sum_strict_mono_ex1) auto
      then show ?thesis by (simp add: sched_weight_def wait sum_list_places len)
    qed
    note A = admit_phase_spec[OF a i1 b ms prompts]
    show ?thesis
    proof (intro conjI allI impI)
      fix stop assume r: "res = Inr stop" and c: "\<not> stop \<and> sb_lim b \<noteq> None"
      have A': "sched_weight (sb_max b) sc' \<le> sched_weight (sb_max b) sc1"
        "sched_weight (sb_max b) sc' < sched_weight (sb_max b) sc1 \<or> act \<noteq> [] \<or> (\<exists>i < sb_slots b. sc_running sc1 ! i \<noteq> None)"
        using A r c by auto
      show "sched_weight (sb_max b) sc' < sched_weight (sb_max b) sc"
      proof (cases "act = []")
        case True
        then show ?thesis using A' idle w c by auto
      next
        case False
        then show ?thesis using A'(1) w' c by fastforce
      qed
    qed (use A in blast)+
  qed
qed

section \<open>The loop\<close>

definition loop_post :: "sched_bounds \<Rightarrow> unit result \<times> 'g cache_runtime \<times> sched \<Rightarrow> bool" where
  "loop_post b = (\<lambda>(res, s'). (\<forall>e. res = Inl e \<longrightarrow> sched_err b s') \<and>
    (\<forall>u. res = Inr u \<longrightarrow> sched_inv b s' \<and> sc_waiting (snd s') = [] \<and> (\<forall>e\<in>set (sc_running (snd s')). e = None)))"

definition sched_pre ::
  "sched_bounds \<Rightarrow> 'f sched_input \<Rightarrow> nat \<Rightarrow> 'g cache_runtime \<times> sched \<Rightarrow> bool" where
  "sched_pre b inp ms s \<longleftrightarrow> sched_inv b s \<and> ms = sb_slots b \<and> si_max_new_tokens inp = sb_max b \<and>
     si_eos inp = sb_eos b \<and> (\<forall>row\<in>set (si_prepared inp). prepared_prompt_len row \<le> sb_P b)"

lemma sched_loop_post:
  assumes "sched_loop en inp cap ms s = Some r" "bounds_ok b" "sched_pre b inp ms s"
  shows "loop_post b r"
proof -
  have "sched_pre b inp ms s \<longrightarrow> loop_post b r"
  proof (rule sched_loop.raw_induct[where P = "\<lambda>en inp cap ms s r. sched_pre b inp ms s \<longrightarrow> loop_post b r", OF _ assms(1)])
    fix loop :: "('a, 'b) engine \<Rightarrow> 'c sched_input \<Rightarrow> nat \<Rightarrow> nat \<Rightarrow> 'a cache_runtime \<times> sched \<Rightarrow>
       (unit result \<times> 'a cache_runtime \<times> sched) option" and en inp cap ms s r
    assume ih: "\<And>en inp cap ms s r. loop en inp cap ms s = Some r \<Longrightarrow> sched_pre b inp ms s \<longrightarrow> loop_post b r"
      and body: "(case sched_iteration en inp cap ms s of
          (Inl e, s') \<Rightarrow> Some (Inl e, s')
        | (Inr stop, s') \<Rightarrow> if stop then Some (Inr (), s') else loop en inp cap ms s') = Some r"
    show "sched_pre b inp ms s \<longrightarrow> loop_post b r"
    proof
      assume pre: "sched_pre b inp ms s"
      obtain rt sc where s: "s = (rt, sc)" by (cases s)
      obtain it rt1 sc1 where it: "sched_iteration en inp cap ms (rt, sc) = (it, (rt1, sc1))" by (rule prod_cases3)
      have q: "sched_inv b (rt, sc)" "ms = sb_slots b" "si_max_new_tokens inp = sb_max b" "si_eos inp = sb_eos b"
        "\<forall>row\<in>set (si_prepared inp). prepared_prompt_len row \<le> sb_P b"
        using pre by (auto simp: sched_pre_def s)
      note S = sched_iteration_spec[OF it q(1) assms(2) q(2-5)]
      show "loop_post b r"
      proof (cases it)
        case (Inl e)
        then have "r = (Inl e, (rt1, sc1))" using body it by (simp add: s)
        then show ?thesis using S Inl by (simp add: loop_post_def)
      next
        case (Inr stop)
        show ?thesis
        proof (cases stop)
          case True
          then have "r = (Inr (), (rt1, sc1))" using body it Inr by (simp add: s)
          then show ?thesis using S Inr True by (auto simp: loop_post_def)
        next
          case False
          then have "loop en inp cap ms (rt1, sc1) = Some r" using body it Inr by (simp add: s)
          moreover have "sched_pre b inp ms (rt1, sc1)" using S Inr q by (auto simp: sched_pre_def)
          ultimately show ?thesis using ih by blast
        qed
      qed
    qed
  qed
  then show ?thesis using assms(3) by blast
qed

lemma sched_loop_returns:
  assumes "sched_inv b (rt, sc)" "sb_lim b \<noteq> None"
    and par: "bounds_ok b" "ms = sb_slots b" "si_max_new_tokens inp = sb_max b" "si_eos inp = sb_eos b"
      "\<forall>row\<in>set (si_prepared inp). prepared_prompt_len row \<le> sb_P b"
  shows "\<exists>r. sched_loop en inp cap ms (rt, sc) = Some r"
  using assms(1)
proof (induction "sched_weight (sb_max b) sc" arbitrary: rt sc rule: less_induct)
  case less
  obtain it rt1 sc1 where it: "sched_iteration en inp cap ms (rt, sc) = (it, (rt1, sc1))" by (rule prod_cases3)
  note S = sched_iteration_spec[OF it less.prems par]
  show ?case
  proof (cases it)
    case (Inl e)
    then show ?thesis using it by (subst sched_loop.simps) simp
  next
    case (Inr stop)
    show ?thesis
    proof (cases stop)
      case True
      then show ?thesis using it Inr by (subst sched_loop.simps) simp
    next
      case False
      then have "sched_inv b (rt1, sc1)" "sched_weight (sb_max b) sc1 < sched_weight (sb_max b) sc"
        using S Inr assms(2) by auto
      from less.hyps[OF this(2,1)] obtain r where "sched_loop en inp cap ms (rt1, sc1) = Some r" by blast
      then have "sched_loop en inp cap ms (rt, sc) = Some r" using it Inr False by (subst sched_loop.simps) simp
      then show ?thesis by blast
    qed
  qed
qed

lemma free_all_running_eq:
  "rt_manager (free_all_running running rt) =
     free_many (rt_manager rt) (map (\<lambda>e. ds_request_id (rs_slot (the e))) (filter (\<lambda>e. e \<noteq> None) running))"
  unfolding free_all_running_def
proof (induction running arbitrary: rt)
  case (Cons a running)
  show ?case
    by (cases a) (simp_all add: Cons free_many_def paged_batch_free_slots_def)
qed (simp add: free_many_def)

lemma free_all_running_none: "\<forall>e\<in>set running. e = None \<Longrightarrow> free_all_running running rt = rt"
  unfolding free_all_running_def by (induction running) auto

lemma free_all_running_err:
  assumes "sched_err b (rt, sc)"
  shows "bm_inv (sb_N b) (rt_manager (free_all_running (sc_running sc) rt)) \<and>
    (\<forall>r. r \<notin> {sb_base b..<sb_base b + sb_batch b} \<longrightarrow>
       blocks_of (rt_manager (free_all_running (sc_running sc) rt)) r = sb_F b r)"
proof -
  have inv: "bm_inv (sb_N b) (rt_manager rt)" using assms by (simp add: sched_err_def held_def)
  let ?ids = "map (\<lambda>e. ds_request_id (rs_slot (the e))) (filter (\<lambda>e. e \<noteq> None) (sc_running sc))"
  have ids: "set ?ids \<subseteq> {sb_base b..<sb_base b + sb_batch b}"
  proof
    fix r assume "r \<in> set ?ids"
    then have "r \<in> run_ids (sc_running sc)" using run_idsI by fastforce
    then show "r \<in> {sb_base b..<sb_base b + sb_batch b}" using assms by (auto simp: sched_err_def)
  qed
  have "blocks_of (free_many (rt_manager rt) ?ids) r = sb_F b r" if "r \<notin> {sb_base b..<sb_base b + sb_batch b}" for r
  proof -
    have "r \<notin> set ?ids" using ids that by blast
    then show ?thesis using assms that free_many_blocks[OF inv, of ?ids r] by (simp add: sched_err_def held_def del: set_map)
  qed
  then show ?thesis using free_many_inv[OF inv] unfolding free_all_running_eq by blast
qed

section \<open>Starvation\<close>

text \<open>A slot whose next token needs more blocks than the pool has left.\<close>

definition starving :: "block_manager \<Rightarrow> nat \<Rightarrow> decode_slot \<Rightarrow> bool" where
  "starving m max_new s \<longleftrightarrow> \<not> ds_finished s \<and> ds_decode_step s < max_new \<and>
     ds_prompt_len s + length (ds_generated s) + 1 \<le> usize_max \<and>
     free_blocks m < blocks_needed m (ds_request_id s) (ds_prompt_len s + length (ds_generated s) + 1)"

lemma starving_alloc:
  assumes "starving (rt_manager rt) max_new (slots ! i)" "i < length slots" "bm_inv N (rt_manager rt)"
  shows "alloc_slot dec i (rt, slots) = (Inr dec, (rt, slots))"
proof -
  have "try_allocate_slots (rt_manager rt) (ds_request_id (slots ! i))
      (ds_prompt_len (slots ! i) + length (ds_generated (slots ! i)) + 1) = (Inr False, rt_manager rt)"
    using assms(1) by (simp add: starving_def try_allocate_eq[OF bm_inv_pos[OF assms(3)]] free_blocks_def)
  then show ?thesis
    using assms(1,2) by (simp add: alloc_slot_def bindP_def getsR_def on_rt_def manager_op_def ret_def
        checked_add_def index_r_ok starving_def)
qed

lemma starving_decode:
  assumes "\<forall>s\<in>set slots. starving (rt_manager rt) max_new s \<and> ds_decode_step s = step"
    and "bm_inv N (rt_manager rt)" "eos \<noteq> []"
  shows "paged_batch_decode_slots_at_step en step max_new eos (rt, slots) = (Inr (), (rt, slots))"
proof (cases "slots = []")
  case True
  then show ?thesis by (simp add: paged_batch_decode_slots_at_step_def bindP_gets ret_def)
next
  case False
  have at: "starving (rt_manager rt) max_new (slots ! i) \<and> ds_decode_step (slots ! i) = step"
    if "i < length slots" for i using assms(1) that by simp
  have all: "foldP alloc_slot [] idxs (rt, slots) = (Inr [], (rt, slots))"
    if "\<forall>i\<in>set idxs. i < length slots" for idxs
    using that
  proof (induction idxs)
    case (Cons i idxs)
    then show ?case using starving_alloc[OF _ _ assms(2), of max_new slots i "[]"] at by (simp add: bindP_def)
  qed (simp add: ret_def)
  have "step < max_new" using at[of 0] False by (auto simp: starving_def)
  moreover have "\<not> ds_finished (slots ! i)" if "i < length slots" for i using at[OF that] by (simp add: starving_def)
  then have "filter (\<lambda>i. \<not> ds_finished (slots ! i) \<and> ds_decode_step (slots ! i) = step) [0..<length slots] = [0..<length slots]"
    using at by (intro filter_True) simp
  moreover have "foldP alloc_slot [] [0..<length slots] (rt, slots) = (Inr [], (rt, slots))"
    by (rule all) simp
  ultimately show ?thesis
    unfolding paged_batch_decode_slots_at_step_def bindP_gets bindP_def[of "foldP f b xs" for f b xs]
    using False assms(3) by (simp add: bindP_liftR ensure_def ret_def Let_def)
qed

lemma store_same:
  "\<forall>i\<in>set is. i < length running \<and> running ! i \<noteq> None \<Longrightarrow>
   fold store_slot (zip is (map (\<lambda>i. rs_slot (the (running ! i))) is)) running = running"
proof (induction "is")
  case (Cons i "is")
  then obtain e where "running ! i = Some e" "i < length running" by auto
  then have "store_slot (i, rs_slot (the (running ! i))) running = running"
    by (simp add: store_slot_def) (metis list_update_id running_slot.surjective running_slot.update_convs(2) old.unit.exhaust)
  then show ?case using Cons by simp
qed simp

lemma starving_groups:
  assumes "\<forall>e. Some e \<in> set (sc_running sc) \<longrightarrow> starving (rt_manager rt) max_new (rs_slot e)"
    and "bm_inv N (rt_manager rt)" "eos \<noteq> []" "\<forall>g\<in>set gs. group_ok (sc_running sc) g"
  shows "forP gs (decode_group en max_new eos) (rt, sc) = (Inr (), (rt, sc))"
  using assms(4)
proof (induction gs)
  case (Cons g gs)
  obtain step "is" where g: "g = (step, is)" by fastforce
  let ?run = "sc_running sc" let ?slots = "map (\<lambda>i. rs_slot (the (?run ! i))) is"
  have mem: "i < length ?run \<and> (\<exists>e. ?run ! i = Some e \<and> Some e \<in> set ?run \<and> ds_decode_step (rs_slot e) = step)"
    if "i \<in> set is" for i using Cons.prems that by (fastforce simp: g group_ok_def dest: nth_mem)
  have "traverse (\<lambda>i. ok_or (map_option rs_slot (?run ! i)) (Err ''missing running slot'')) is = Inr ?slots"
    by (rule traverse_all_ok) (use mem in fastforce)
  moreover have "\<forall>s\<in>set ?slots. starving (rt_manager rt) max_new s \<and> ds_decode_step s = step"
    using mem assms(1) by fastforce
  from starving_decode[OF this assms(2,3)]
  have "paged_batch_decode_slots_at_step en step max_new eos (rt, ?slots) = (Inr (), (rt, ?slots))" .
  moreover have "fold store_slot (zip is ?slots) ?run = ?run" by (rule store_same) (use mem in fastforce)
  ultimately have "decode_group en max_new eos g (rt, sc) = (Inr (), (rt, sc))" by (simp add: g decode_group_def)
  then show ?case using Cons by (simp add: forP_def bindP_def)
qed (simp add: forP_def ret_def)

lemma nothing_finished:
  assumes "\<forall>e. Some e \<in> set (sc_running sc) \<longrightarrow> \<not> ds_finished (rs_slot e)"
  shows "free_finished_running (rt, sc) = (rt, sc)"
proof -
  have "fold free_finished_entry es (outs, rt) = (outs, rt)"
    if "\<forall>e. Some e \<in> set es \<longrightarrow> \<not> ds_finished (rs_slot e)" for es outs
    using that
  proof (induction es)
    case (Cons a es)
    then show ?case by (cases a) (simp_all add: free_finished_entry_def)
  qed simp
  moreover have "map (\<lambda>e. if slot_done e then None else e) (sc_running sc) = sc_running sc"
    using assms by (intro map_idI) (auto simp: slot_done_def split: option.splits)
  ultimately show ?thesis using assms by (simp add: free_finished_running_def)
qed

lemma admit_nobody: "admit_loop m cap ms prepared running idxs used n [] = ([], [])"
  by (induction idxs) auto

lemma stuck_iteration:
  assumes "\<forall>e. Some e \<in> set (sc_running sc) \<longrightarrow> starving (rt_manager rt) (si_max_new_tokens inp) (rs_slot e)"
    and "bm_inv N (rt_manager rt)" "si_eos inp \<noteq> []" "sc_waiting sc = []" "Some e \<in> set (sc_running sc)"
  shows "sched_iteration en inp cap ms (rt, sc) = (Inr False, (rt, sc))"
proof -
  have free: "free_finished_running (rt, sc) = (rt, sc)"
    by (rule nothing_finished) (use assms(1) in \<open>auto simp: starving_def\<close>)
  have "map (finish_at_limit (si_max_new_tokens inp)) (sc_running sc) = sc_running sc"
  proof (rule map_idI)
    fix x assume x: "x \<in> set (sc_running sc)"
    show "finish_at_limit (si_max_new_tokens inp) x = x"
    proof (cases x)
      case (Some e)
      then have "starving (rt_manager rt) (si_max_new_tokens inp) (rs_slot e)" using assms(1) x by blast
      then show ?thesis by (simp add: Some finish_at_limit_def starving_def)
    qed (simp add: finish_at_limit_def)
  qed
  then have lim: "sc\<lparr>sc_running := map (finish_at_limit (si_max_new_tokens inp)) (sc_running sc)\<rparr> = sc" by simp
  have groups: "forP (group_running_by_decode_step (active_steps_of (sc_running sc)))
      (decode_group en (si_max_new_tokens inp) (si_eos inp)) (rt, sc) = (Inr (), (rt, sc))"
    by (rule starving_groups[OF assms(1-3) active_groups(1)])
  have step: "step_phase en inp (rt, sc) = (Inr (active_steps_of (sc_running sc)), (rt, sc))"
    by (simp add: step_phase_def bindP_def modifyP_def gets_def ret_def free groups lim)
  have "sc\<lparr>sc_waiting := []\<rparr> = sc" using assms(4) by simp
  moreover have "\<exists>e\<in>set (sc_running sc). e \<noteq> None" using assms(5) by blast
  ultimately have "admit_phase en inp cap ms act (rt, sc) = (Inr False, (rt, sc))" for act
    unfolding admit_phase_def bindP_gets
    by (simp add: assms(4) admit_nobody bindP_def modifyP_def ret_def gets_def)
  then show ?thesis using step by (simp add: sched_iteration_phases bindP_def)
qed

lemma stuck_loop:
  assumes "sched_iteration en inp cap ms s = (Inr False, s)"
  shows "sched_loop en inp cap ms s = None"
proof (rule ccontr)
  assume "sched_loop en inp cap ms s \<noteq> None"
  then obtain r where r: "sched_loop en inp cap ms s = Some r" by blast
  have "(en, inp, cap, ms, s) \<noteq> (en, inp, cap, ms, s)"
  proof (rule sched_loop.raw_induct[where P = "\<lambda>en' inp' cap' ms' s' r. (en', inp', cap', ms', s') \<noteq> (en, inp, cap, ms, s)",
          OF _ r])
    fix loop :: "('a, 'b) engine \<Rightarrow> 'c sched_input \<Rightarrow> nat \<Rightarrow> nat \<Rightarrow> 'a cache_runtime \<times> sched \<Rightarrow>
       (unit result \<times> 'a cache_runtime \<times> sched) option" and en' inp' cap' ms' s' r'
    assume ih: "\<And>en' inp' cap' ms' s' r. loop en' inp' cap' ms' s' = Some r \<Longrightarrow>
        (en', inp', cap', ms', s') \<noteq> (en, inp, cap, ms, s)"
      and body: "(case sched_iteration en' inp' cap' ms' s' of
          (Inl e, s') \<Rightarrow> Some (Inl e, s')
        | (Inr stop, s') \<Rightarrow> if stop then Some (Inr (), s') else loop en' inp' cap' ms' s') = Some r'"
    show "(en', inp', cap', ms', s') \<noteq> (en, inp, cap, ms, s)"
    proof
      assume eq: "(en', inp', cap', ms', s') = (en, inp, cap, ms, s)"
      then have "loop en inp cap ms s = Some r'" using body assms by simp
      from ih[OF this] show False by simp
    qed
  qed
  then show False by simp
qed

section \<open>Properties\<close>

definition input_bounds ::
  "nat \<Rightarrow> (nat \<Rightarrow> nat list) \<Rightarrow> (nat \<times> nat) option \<Rightarrow> nat \<Rightarrow> nat \<Rightarrow> scheduler_config \<Rightarrow> 'f sched_input \<Rightarrow> sched_bounds" where
  "input_bounds N F lim base P config inp = \<lparr>sb_N = N, sb_F = F, sb_lim = lim, sb_base = base,
     sb_batch = length (si_prepared inp), sb_slots = min (max (max_num_seqs config) 1) (length (si_prepared inp)),
     sb_P = P, sb_eos = si_eos inp, sb_max = si_max_new_tokens inp\<rparr>"

lemma input_bounds_sel [simp]:
  "sb_N (input_bounds N F lim base P config inp) = N" "sb_F (input_bounds N F lim base P config inp) = F"
  "sb_lim (input_bounds N F lim base P config inp) = lim" "sb_base (input_bounds N F lim base P config inp) = base"
  "sb_batch (input_bounds N F lim base P config inp) = length (si_prepared inp)"
  "sb_slots (input_bounds N F lim base P config inp) = min (max (max_num_seqs config) 1) (length (si_prepared inp))"
  "sb_P (input_bounds N F lim base P config inp) = P" "sb_eos (input_bounds N F lim base P config inp) = si_eos inp"
  "sb_max (input_bounds N F lim base P config inp) = si_max_new_tokens inp"
  by (simp_all add: input_bounds_def)

text \<open>What the call returns, from what the loop returns.\<close>

lemma run_continuous_post:
  assumes b_def: "b = input_bounds N (blocks_of (rt_manager rt)) lim next_id P config inp"
    and run: "run_continuous_prepared en config inp next_id rt = Some (res, rt', nid)"
    and inv: "bm_inv N (rt_manager rt)" and b: "bounds_ok b"
    and room: "\<And>l. lim = Some l \<Longrightarrow> roomy N {} (rt_manager rt) l"
    and P: "\<forall>row\<in>set (si_prepared inp). prepared_prompt_len row \<le> P"
  shows "bm_inv N (rt_manager rt') \<and>
    (\<forall>r. r \<notin> {next_id..<next_id + length (si_prepared inp)} \<longrightarrow>
       blocks_of (rt_manager rt') r = blocks_of (rt_manager rt) r) \<and>
    (\<forall>out. res = Inr out \<longrightarrow> length out = length (si_prepared inp) \<and>
       (\<forall>row\<in>set out. length row \<le> si_max_new_tokens inp \<and> (\<forall>t\<in>set row. t \<notin> set (si_eos inp))) \<and>
       blocks_of (rt_manager rt') = blocks_of (rt_manager rt))"
proof -
  let ?batch = "length (si_prepared inp)" let ?ms = "sb_slots b"
  let ?lens = "row_audio_lens en (si_prepared inp)"
  have sel: "sb_N b = N" "sb_F b = blocks_of (rt_manager rt)" "sb_lim b = lim" "sb_base b = next_id"
    "sb_batch b = ?batch" "sb_P b = P" "sb_eos b = si_eos inp" "sb_max b = si_max_new_tokens inp"
    by (simp_all add: b_def input_bounds_def)
  consider (early) "rt' = rt" "\<forall>out. res = Inr out \<longrightarrow> length out = ?batch \<and> (\<forall>row\<in>set out. length row = 0 \<and> set row = {})"
    | (loop) "?batch \<noteq> 0" "si_max_new_tokens inp \<noteq> 0" "snd (audio_offsets_from 0 ?lens) = length (si_audio inp)"
    using run by (fastforce simp: run_continuous_prepared_def Let_def split: if_splits)
  then show ?thesis
  proof cases
    case early
    have "length row \<le> si_max_new_tokens inp \<and> (\<forall>t\<in>set row. t \<notin> set (si_eos inp))"
      if "res = Inr out" "row \<in> set out" for out row
    proof -
      have "length row = 0" using early(2) that by blast
      then show ?thesis by simp
    qed
    then have "\<forall>out. res = Inr out \<longrightarrow> (\<forall>row\<in>set out. length row \<le> si_max_new_tokens inp \<and> (\<forall>t\<in>set row. t \<notin> set (si_eos inp)))"
      by blast
    then show ?thesis using inv early(1) early(2) by (intro conjI allI impI) blast+
  next
    case loop
    define sc where "sc = \<lparr>sc_next_request_id = next_id, sc_waiting = [0..<?batch],
       sc_running = replicate ?ms None, sc_outputs = replicate ?batch []\<rparr>"
    let ?cap = "allocatable_block_capacity (st_num_blocks (runtime_stats rt))"
    obtain lr rt1 sc1 where l: "sched_loop en inp ?cap ?ms (rt, sc) = Some (lr, (rt1, sc1))"
      and r: "res = rbind lr (\<lambda>_. Inr (sc_outputs sc1))" "rt' = free_all_running (sc_running sc1) rt1"
      using run loop unfolding run_continuous_prepared_def Let_def
      by (auto simp: sc_def b_def input_bounds_def split: option.splits)
    have none: "run_ids (replicate ?ms None) = {}" by (auto simp: run_ids_def)
    have "entries_wf b next_id (replicate ?ms None)" by (auto simp: entries_wf_def ids_distinct_def)
    then have i0: "sched_inv b (rt, sc)"
      using inv room by (auto simp: sched_mid_def sc_def sel none held_def row_done_def)
    have pre: "sched_pre b inp ?ms (rt, sc)" using i0 P by (simp add: sched_pre_def sel)
    note post = sched_loop_post[OF l b pre, unfolded loop_post_def prod.case]
    have err: "sched_err b (rt1, sc1)"
      using post sched_mid_err[of b 0 "(rt1, sc1)"] by (cases lr) auto
    note F = free_all_running_err[OF err, folded r(2)]
    show ?thesis
    proof (intro conjI allI impI)
      fix out assume "res = Inr out"
      then obtain u where lr: "lr = Inr u" "out = sc_outputs sc1" using r(1) by auto
      have i1: "sched_inv b (rt1, sc1)" "\<forall>e\<in>set (sc_running sc1). e = None" using post lr by auto
      then show "length out = ?batch" by (simp add: sched_mid_def lr sel)
      show "\<forall>row\<in>set out. length row \<le> si_max_new_tokens inp \<and> (\<forall>t\<in>set row. t \<notin> set (si_eos inp))"
        using i1(1) by (simp add: sched_mid_def lr sel row_done_def)
      have "run_ids (sc_running sc1) = {}" using i1(2) by (auto simp: run_ids_def)
      then show "blocks_of (rt_manager rt') = blocks_of (rt_manager rt)"
        using i1(1) by (simp add: sched_mid_def held_def r(2) free_all_running_none[OF i1(2)] sel fun_eq_iff)
    qed (use F in \<open>simp_all add: sel\<close>)
  qed
qed

lemma continuous_returns:
  assumes "bm_inv N (rt_manager rt)" "\<forall>r. blocks_of (rt_manager rt) r = []"
    and "si_max_new_tokens inp \<le> usize_max" "next_id + length (si_prepared inp) \<le> usize_max"
    and "\<forall>row\<in>set (si_prepared inp). prepared_prompt_len row \<le> P"
    and "min (max (max_num_seqs config) 1) (length (si_prepared inp)) *
      div_ceil (P + si_max_new_tokens inp) (bm_block_size (rt_manager rt)) \<le> N - 1"
  shows "\<exists>res rt' nid. run_continuous_prepared en config inp next_id rt = Some (res, rt', nid) \<and>
    (\<forall>r. r \<notin> {next_id..<next_id + length (si_prepared inp)} \<longrightarrow> blocks_of (rt_manager rt') r = [])"
proof -
  let ?bs = "bm_block_size (rt_manager rt)" let ?K = "div_ceil (P + si_max_new_tokens inp) ?bs"
  let ?b = "input_bounds N (blocks_of (rt_manager rt)) (Some (?K, ?bs)) next_id P config inp"
  let ?batch = "length (si_prepared inp)"
  have b: "bounds_ok ?b"
    using assms(2-4,6) bm_inv_pos[OF assms(1)] by (simp add: bounds_ok_def seq_limit_def)
  have room: "roomy N {} (rt_manager rt) (?K, ?bs)" using assms(2) by (simp add: roomy_def)
  let ?sc = "\<lparr>sc_next_request_id = next_id, sc_waiting = [0..<?batch],
       sc_running = replicate (sb_slots ?b) None, sc_outputs = replicate ?batch []\<rparr>"
  have none: "run_ids (replicate (sb_slots ?b) None) = {}" by (auto simp: run_ids_def)
  have "entries_wf ?b next_id (replicate (sb_slots ?b) None)" by (auto simp: entries_wf_def ids_distinct_def)
  then have "sched_inv ?b (rt, ?sc)"
    using assms(1) room by (simp add: sched_mid_def none held_def row_done_def del: input_bounds_sel(6))
  from sched_loop_returns[OF this _ b refl, of inp en "allocatable_block_capacity (st_num_blocks (runtime_stats rt))"]
  obtain lr rt1 sc1 where "sched_loop en inp (allocatable_block_capacity (st_num_blocks (runtime_stats rt)))
      (sb_slots ?b) (rt, ?sc) = Some (lr, (rt1, sc1))"
    using assms(5) by auto
  then have "\<exists>res rt' nid. run_continuous_prepared en config inp next_id rt = Some (res, rt', nid)"
    by (simp add: run_continuous_prepared_def Let_def)
  then obtain res rt' nid where run: "run_continuous_prepared en config inp next_id rt = Some (res, rt', nid)" by blast
  have "\<forall>r. r \<notin> {next_id..<next_id + ?batch} \<longrightarrow> blocks_of (rt_manager rt') r = blocks_of (rt_manager rt) r"
    using run_continuous_post[OF refl run assms(1) b _ assms(5)] room by simp
  then have "\<forall>r. r \<notin> {next_id..<next_id + ?batch} \<longrightarrow> blocks_of (rt_manager rt') r = []" using assms(2) by simp
  then show ?thesis using run by (intro exI conjI)
qed

text \<open>C11: Whenever continuous batching returns, and its request ids were free before, the
  allocator is consistent and no request outside its id range has lost or gained a block.  On
  success there is one output per segment, in order, of at most \<^verbatim>\<open>max_new_tokens\<close> tokens and
  free of end tokens, and every block is back where it was before the call.\<close>
theorem continuous_batch_frame:
  assumes "bm_inv N (rt_manager rt)" "si_max_new_tokens inp \<le> usize_max"
    and "next_id + length (si_prepared inp) \<le> usize_max"
    and "\<forall>r\<in>{next_id..<next_id + length (si_prepared inp)}. blocks_of (rt_manager rt) r = []"
    and "run_continuous_prepared en config inp next_id rt = Some (res, rt', nid)"
  shows "bm_inv N (rt_manager rt') \<and>
    (\<forall>r. r \<notin> {next_id..<next_id + length (si_prepared inp)} \<longrightarrow>
       blocks_of (rt_manager rt') r = blocks_of (rt_manager rt) r) \<and>
    (\<forall>out. res = Inr out \<longrightarrow> length out = length (si_prepared inp) \<and>
       (\<forall>row\<in>set out. length row \<le> si_max_new_tokens inp \<and> (\<forall>t\<in>set row. t \<notin> set (si_eos inp))) \<and>
       blocks_of (rt_manager rt') = blocks_of (rt_manager rt))"
proof -
  let ?P = "max_or_0 (map prepared_prompt_len (si_prepared inp))"
  have "\<forall>row\<in>set (si_prepared inp). prepared_prompt_len row \<le> ?P" by (simp add: max_or_0_ge)
  moreover have "bounds_ok (input_bounds N (blocks_of (rt_manager rt)) None next_id ?P config inp)"
    using assms(2-4) by (simp add: bounds_ok_def seq_limit_def)
  ultimately show ?thesis
    by (intro run_continuous_post[OF refl assms(5,1), where lim = None and P = ?P]) simp_all
qed

definition example_input :: "unit sched_input" where
  "example_input = \<lparr>si_prepared = [\<lparr>pr_input_ids = [3, 4, 5], pr_attention_mask = [1, 1, 1]\<rparr>],
     si_audio = [], si_max_new_tokens = 4, si_eos = [0], si_pad_id = 9\<rparr>"

lemma example_room:
  "bm_inv 6 (rt_manager example_runtime)" "\<forall>r. blocks_of (rt_manager example_runtime) r = []"
  "si_max_new_tokens example_input \<le> usize_max" "0 + length (si_prepared example_input) \<le> usize_max"
  "\<forall>row\<in>set (si_prepared example_input). prepared_prompt_len row \<le> 3"
  "min (max (max_num_seqs (default_config True)) 1) (length (si_prepared example_input)) *
      div_ceil (3 + si_max_new_tokens example_input) (bm_block_size (rt_manager example_runtime)) \<le> 6 - 1"
  by (simp_all add: example_runtime_def example_input_def new_block_manager_inv max_values prepared_prompt_len_def
      valid_count_def default_config_def div_ceil_def) (simp_all add: new_block_manager_def blocks_of_def)

theorem continuous_batch_frame_witness:
  "\<exists>res rt' nid. run_continuous_prepared example_engine (default_config True) example_input 0 example_runtime =
      Some (res, rt', nid) \<and> bm_inv 6 (rt_manager rt')"
proof -
  obtain res rt' nid where run: "run_continuous_prepared example_engine (default_config True) example_input 0 example_runtime =
      Some (res, rt', nid)" using continuous_returns[OF example_room] by blast
  have "\<forall>r\<in>{0..<0 + length (si_prepared example_input)}. blocks_of (rt_manager example_runtime) r = []"
    using example_room(2) by simp
  from continuous_batch_frame[OF example_room(1,3,4) this run] run show ?thesis by blast
qed

text \<open>C12: Continuous batching terminates when the pool is large enough for its slots: on a pool
  with no other request and room for a longest prompt plus \<^verbatim>\<open>max_new_tokens\<close> in every slot,
  the call returns, whatever the network answers.\<close>
theorem continuous_batch_returns:
  assumes "bm_inv N (rt_manager rt)" "\<forall>r. blocks_of (rt_manager rt) r = []"
    and "si_max_new_tokens inp \<le> usize_max" "next_id + length (si_prepared inp) \<le> usize_max"
    and "\<forall>row\<in>set (si_prepared inp). prepared_prompt_len row \<le> P"
    and "min (max (max_num_seqs config) 1) (length (si_prepared inp)) *
      div_ceil (P + si_max_new_tokens inp) (bm_block_size (rt_manager rt)) \<le> N - 1"
  shows "\<exists>res rt' nid. run_continuous_prepared en config inp next_id rt = Some (res, rt', nid) \<and>
    (\<forall>r. r \<notin> {next_id..<next_id + length (si_prepared inp)} \<longrightarrow> blocks_of (rt_manager rt') r = [])"
  by (rule continuous_returns[OF assms])

theorem continuous_batch_returns_witness:
  "\<exists>res rt' nid. run_continuous_prepared example_engine (default_config True) example_input 0 example_runtime =
      Some (res, rt', nid)"
  using continuous_batch_returns[OF example_room, of example_engine] by blast

text \<open>C13: Continuous batching can wait for ever: when every running slot needs a block more than
  the pool has left and nobody waits, a pass of the loop changes nothing, so the loop never
  returns and never reports that the cache is exhausted.\<close>
theorem starved_batch_never_returns:
  assumes "bm_inv N (rt_manager rt)" "si_eos inp \<noteq> []" "sc_waiting sc = []" "Some e \<in> set (sc_running sc)"
    and "\<forall>e. Some e \<in> set (sc_running sc) \<longrightarrow> starving (rt_manager rt) (si_max_new_tokens inp) (rs_slot e)"
  shows "sched_loop en inp cap max_slots (rt, sc) = None"
  by (intro stuck_loop stuck_iteration[OF assms(5,1-4)])

definition starved_entry :: running_slot where
  "starved_entry = \<lparr>rs_client_index = 0, rs_slot = \<lparr>ds_request_id = 0, ds_prompt_len = 1, ds_prompt_len_i64 = 1,
     ds_block_table = [1], ds_next_id = 7, ds_generated = [7], ds_finished = False, ds_decode_step = 1\<rparr>\<rparr>"

definition full_manager :: block_manager where
  "full_manager = \<lparr>bm_block_size = 1, bm_free = [], bm_request_blocks = [0 \<mapsto> [1, 2]]\<rparr>"

theorem starved_batch_never_returns_witness:
  "sched_loop example_engine example_input 2 1 (example_runtime\<lparr>rt_manager := full_manager\<rparr>,
      \<lparr>sc_next_request_id = 1, sc_waiting = [], sc_running = [Some starved_entry], sc_outputs = [[]]\<rparr>) = None"
proof (rule starved_batch_never_returns[where N = 3 and e = starved_entry])
  have "full_manager = snd (try_allocate_slots (new_block_manager 3 1) 0 2)"
    by (simp add: full_manager_def try_allocate_slots_def new_block_manager_def blocks_for_request_def saturating_sub_def
        div_ceil_def div_ceil_r_def upt_conv_Cons numeral_2_eq_2)
  then have "bm_inv 3 full_manager" using try_allocate_inv[OF new_block_manager_inv, of 1 3 0 2] by (metis zero_less_one)
  then show "bm_inv 3 (rt_manager (example_runtime\<lparr>rt_manager := full_manager\<rparr>))" by simp
qed (simp_all add: full_manager_def starving_def starved_entry_def example_input_def max_values free_blocks_def
      blocks_needed_def blocks_of_def div_ceil_def)

end
