(* ===== verification/Float32.thy ===== *)
theory Float32
  imports Prelude
begin

text \<open>The \<^verbatim>\<open>f32\<close> and \<^verbatim>\<open>i32\<close> arithmetic of the audio components. The results of
  single-precision operations are not needed for any property of the development, so they are
  the fields of a record of operations: every theorem holds for every choice of them, IEEE
  arithmetic included; a literal is written as a fraction. An \<^verbatim>\<open>i32\<close> is an \<^typ>\<open>int\<close>: the counters of the audio
  components are frame and sample counts of one recording, and \<^verbatim>\<open>i32\<close> addition panics in a
  debug build beyond the range. Division truncates towards zero, as in Rust.\<close>

record 'f f32_ops =
  f_lit :: "int \<Rightarrow> int \<Rightarrow> 'f"
  f_int :: "int \<Rightarrow> 'f"
  f_add :: "'f \<Rightarrow> 'f \<Rightarrow> 'f"
  f_sub :: "'f \<Rightarrow> 'f \<Rightarrow> 'f"
  f_mul :: "'f \<Rightarrow> 'f \<Rightarrow> 'f"
  f_div :: "'f \<Rightarrow> 'f \<Rightarrow> 'f"
  f_max :: "'f \<Rightarrow> 'f \<Rightarrow> 'f"
  f_min :: "'f \<Rightarrow> 'f \<Rightarrow> 'f"
  f_abs :: "'f \<Rightarrow> 'f"
  f_is_finite :: "'f \<Rightarrow> bool"
  f_lt :: "'f \<Rightarrow> 'f \<Rightarrow> bool"
  f_le :: "'f \<Rightarrow> 'f \<Rightarrow> bool"
  f_ln :: "'f \<Rightarrow> 'f"
  f_exp :: "'f \<Rightarrow> 'f"
  f_log10 :: "'f \<Rightarrow> 'f"
  f_round :: "'f \<Rightarrow> 'f"
  f_to_int :: "'f \<Rightarrow> int"

text \<open>The cast of an \<^verbatim>\<open>f32\<close> to \<^verbatim>\<open>usize\<close> truncates and saturates.\<close>

definition f_to_usize :: "'f f32_ops \<Rightarrow> 'f \<Rightarrow> nat" where
  "f_to_usize F x = min (nat (f_to_int F x)) (2 ^ 64 - 1)"

definition f_sum :: "'f f32_ops \<Rightarrow> 'f list \<Rightarrow> 'f" where
  "f_sum F xs = fold (\<lambda>x acc. f_add F acc x) xs (f_lit F 0 1)"

definition idiv :: "int \<Rightarrow> int \<Rightarrow> int" where
  "idiv a b = (if 0 \<le> a then a div b else - ((- a) div b))"

lemma idiv_nonneg [simp]: "0 \<le> a \<Longrightarrow> idiv a b = a div b"
  by (simp add: idiv_def)

lemma idiv_nonneg_result: "0 \<le> a \<Longrightarrow> 0 < b \<Longrightarrow> 0 \<le> idiv a b"
  by (simp add: pos_imp_zdiv_nonneg_iff)

lemma idiv_neg_le: "a < 0 \<Longrightarrow> 0 < b \<Longrightarrow> idiv a b \<le> 0"
  by (simp add: idiv_def pos_imp_zdiv_nonneg_iff)

lemma idiv_le_count:
  assumes "0 < b" and "0 \<le> c" and "a \<le> c * b"
  shows "idiv a b \<le> c"
proof (cases "0 \<le> a")
  case True
  have "a div b \<le> (c * b) div b" by (rule zdiv_mono1[OF assms(3,1)])
  with True assms(1) show ?thesis by simp
next
  case False
  with idiv_neg_le[of a b] assms show ?thesis by linarith
qed

text \<open>The cast of an \<^verbatim>\<open>i32\<close> to \<^verbatim>\<open>usize\<close> sign-extends: a negative number becomes a huge one.\<close>

definition as_usize :: "int \<Rightarrow> nat" where
  "as_usize x = nat (x mod 2 ^ 64)"

lemma as_usize_nonneg: "0 \<le> x \<Longrightarrow> x < 2 ^ 64 \<Longrightarrow> as_usize x = nat x"
  by (simp add: as_usize_def)

text \<open>Reading a vector at an \<^verbatim>\<open>i32\<close> cast to \<^verbatim>\<open>usize\<close>: a negative index becomes a huge one.\<close>

definition get_i32 :: "'a list \<Rightarrow> int \<Rightarrow> 'a option" where
  "get_i32 xs t = (if t < 0 then None else get xs (nat t))"

lemma upto_snoc: "a \<le> b \<Longrightarrow> [a..b] = [a..b - 1] @ [b]" for a b :: int
  by (rule upto_rec2)

lemma upto_minus_empty [simp]: "b \<le> a \<Longrightarrow> [a..b - 1] = []" for a b :: int
  by simp

end
