(* ===== verification/E2eVad.thy ===== *)
theory E2eVad
  imports Float32
begin

text \<open>The end-point detector of \<^verbatim>\<open>vasr-runtime/src/models/e2e_vad.rs\<close>: the window detector
  (a ring buffer with hysteresis), the segment state machine over frames, and the offline and
  chunked entry points. The scores of the network and the samples are inputs; the comparisons
  on them use the operations of an \<^verbatim>\<open>f32\<close> record. The model is exact while frame and sample
  counts stay within \<^verbatim>\<open>i32\<close>.\<close>

section \<open>Data\<close>

datatype vad_state_machine = StartPointNotDetected | InSpeechSegment | EndPointDetected

datatype frame_state = Sil | Speech

datatype audio_change_state =
  Speech2Speech | Speech2Sil | Sil2Sil | Sil2Speech | NoBegin | Invalid

record 'f e2e_config =
  ec_sample_rate :: int
  detect_mode :: int
  max_end_silence_time :: int
  max_start_silence_time :: int
  do_start_point_detection :: bool
  do_end_point_detection :: bool
  window_size_ms :: int
  sil_to_speech_time_thres :: int
  speech_to_sil_time_thres :: int
  speech_2_noise_ratio :: 'f
  do_extend :: bool
  lookback_time_start_point :: int
  lookahead_time_end_point :: int
  max_single_segment_time :: int
  snr_thres :: 'f
  noise_frame_num_used_for_snr :: int
  decibel_thres :: 'f
  cfg_speech_noise_thres :: 'f
  fe_prior_thres :: 'f
  silence_pdf_num :: nat
  sil_pdf_ids :: "nat list"
  frame_in_ms :: int
  frame_length_ms :: int

definition e2e_default_config :: "'f f32_ops \<Rightarrow> 'f e2e_config" where
  "e2e_default_config F = \<lparr>
     ec_sample_rate = 16000, detect_mode = 1, max_end_silence_time = 800,
     max_start_silence_time = 3000, do_start_point_detection = True,
     do_end_point_detection = True, window_size_ms = 200, sil_to_speech_time_thres = 150,
     speech_to_sil_time_thres = 150, speech_2_noise_ratio = f_lit F 1 1, do_extend = True,
     lookback_time_start_point = 200, lookahead_time_end_point = 100,
     max_single_segment_time = 60000, snr_thres = f_lit F (-100) 1,
     noise_frame_num_used_for_snr = 100, decibel_thres = f_lit F (-100) 1,
     cfg_speech_noise_thres = f_lit F 6 10, fe_prior_thres = f_lit F 1 10000,
     silence_pdf_num = 1, sil_pdf_ids = [0], frame_in_ms = 10, frame_length_ms = 25\<rparr>"

record segment_buf =
  start_ms :: int
  end_ms :: int
  contain_seg_start_point :: bool
  contain_seg_end_point :: bool

record window_detector =
  win_size_frame :: int
  win_sum :: int
  win_state :: "int list"
  cur_win_pos :: nat
  pre_frame_state :: frame_state
  sil_to_speech_frmcnt_thres :: int
  speech_to_sil_frmcnt_thres :: int

section \<open>The window detector\<close>

definition window_new :: "int \<Rightarrow> int \<Rightarrow> int \<Rightarrow> int \<Rightarrow> window_detector result" where
  "window_new window_ms sil_to_speech_time speech_to_sil_time frame_size_ms =
     (if frame_size_ms = 0 then Inl (Panic ''attempt to divide by zero'')
      else if idiv window_ms frame_size_ms < 0 then Inl (Panic ''capacity overflow'')
      else Inr \<lparr>win_size_frame = idiv window_ms frame_size_ms,
                win_sum = 0,
                win_state = replicate (nat (idiv window_ms frame_size_ms)) 0,
                cur_win_pos = 0,
                pre_frame_state = Sil,
                sil_to_speech_frmcnt_thres = idiv sil_to_speech_time frame_size_ms,
                speech_to_sil_frmcnt_thres = idiv speech_to_sil_time frame_size_ms\<rparr>)"

definition window_reset :: "window_detector \<Rightarrow> window_detector" where
  "window_reset w = w\<lparr>cur_win_pos := 0, win_sum := 0,
     win_state := replicate (length (win_state w)) 0, pre_frame_state := Sil\<rparr>"

definition frame_bit :: "frame_state \<Rightarrow> int" where
  "frame_bit s = (case s of Speech \<Rightarrow> 1 | Sil \<Rightarrow> 0)"

definition window_push :: "frame_state \<Rightarrow> window_detector \<Rightarrow> window_detector result" where
  "window_push s w =
     rbind (index_r (win_state w) (cur_win_pos w)) (\<lambda>old.
     Inr (w\<lparr>win_sum := win_sum w - old + frame_bit s,
            win_state := (win_state w)[cur_win_pos w := frame_bit s],
            cur_win_pos := (cur_win_pos w + 1) mod nat (win_size_frame w)\<rparr>))"

definition window_detect_one_frame ::
  "frame_state \<Rightarrow> window_detector \<Rightarrow> (audio_change_state \<times> window_detector) result" where
  "window_detect_one_frame s w0 =
     rbind (window_push s w0) (\<lambda>w.
       if pre_frame_state w = Sil \<and> sil_to_speech_frmcnt_thres w \<le> win_sum w
       then Inr (Sil2Speech, w\<lparr>pre_frame_state := Speech\<rparr>)
       else if pre_frame_state w = Speech \<and> win_sum w \<le> speech_to_sil_frmcnt_thres w
       then Inr (Speech2Sil, w\<lparr>pre_frame_state := Sil\<rparr>)
       else if pre_frame_state w = Sil then Inr (Sil2Sil, w)
       else Inr (Speech2Speech, w))"

section \<open>The detector state\<close>

record 'f e2e_vad =
  opts :: "'f e2e_config"
  windows_detector :: window_detector
  data_buf_start_frame :: int
  frm_cnt :: int
  latest_confirmed_speech_frame :: int
  lastest_confirmed_silence_frame :: int
  continous_silence_frame_count :: int
  state_machine :: vad_state_machine
  confirmed_start_frame :: int
  confirmed_end_frame :: int
  number_end_time_detected :: int
  sil_frame :: int
  noise_average_decibel :: 'f
  pre_end_silence_detected :: bool
  output_data_buf :: "segment_buf list"
  output_data_buf_offset :: nat
  max_end_sil_frame_cnt_thresh :: int
  speech_noise_thres :: 'f
  nn_eval_block_size :: int
  idx_pre_chunk :: int
  max_time_out :: bool
  decibel :: "'f list"
  data_buf_size :: int
  data_buf_all_size :: int

definition reset_detection :: "'f e2e_vad \<Rightarrow> 'f e2e_vad" where
  "reset_detection m = m\<lparr>
     continous_silence_frame_count := 0,
     latest_confirmed_speech_frame := 0,
     lastest_confirmed_silence_frame := -1,
     confirmed_start_frame := -1,
     confirmed_end_frame := -1,
     state_machine := StartPointNotDetected,
     windows_detector := window_reset (windows_detector m),
     sil_frame := 0\<rparr>"

definition all_reset_detection :: "'f f32_ops \<Rightarrow> 'f e2e_vad \<Rightarrow> 'f e2e_vad" where
  "all_reset_detection F m = reset_detection (m\<lparr>
     data_buf_start_frame := 0,
     frm_cnt := 0,
     output_data_buf := [],
     output_data_buf_offset := 0,
     idx_pre_chunk := 0,
     max_time_out := False,
     decibel := [],
     data_buf_size := 0,
     data_buf_all_size := 0,
     number_end_time_detected := 0,
     noise_average_decibel := f_lit F (-100) 1,
     pre_end_silence_detected := False,
     max_end_sil_frame_cnt_thresh :=
       max_end_silence_time (opts m) - speech_to_sil_time_thres (opts m)\<rparr>)"

definition e2e_new :: "'f f32_ops \<Rightarrow> 'f e2e_config \<Rightarrow> 'f e2e_vad result" where
  "e2e_new F cfg =
     rbind (window_new (window_size_ms cfg) (sil_to_speech_time_thres cfg)
              (speech_to_sil_time_thres cfg) (frame_in_ms cfg)) (\<lambda>w.
     Inr (reset_detection \<lparr>
       opts = cfg,
       windows_detector = w,
       data_buf_start_frame = 0,
       frm_cnt = 0,
       latest_confirmed_speech_frame = 0,
       lastest_confirmed_silence_frame = -1,
       continous_silence_frame_count = 0,
       state_machine = StartPointNotDetected,
       confirmed_start_frame = -1,
       confirmed_end_frame = -1,
       number_end_time_detected = 0,
       sil_frame = 0,
       noise_average_decibel = f_lit F (-100) 1,
       pre_end_silence_detected = False,
       output_data_buf = [],
       output_data_buf_offset = 0,
       max_end_sil_frame_cnt_thresh = max_end_silence_time cfg - speech_to_sil_time_thres cfg,
       speech_noise_thres = cfg_speech_noise_thres cfg,
       nn_eval_block_size = 0,
       idx_pre_chunk = 0,
       max_time_out = False,
       decibel = [],
       data_buf_size = 0,
       data_buf_all_size = 0\<rparr>))"

definition set_speech_noise_thres :: "'f \<Rightarrow> 'f e2e_vad \<Rightarrow> 'f e2e_vad" where
  "set_speech_noise_thres threshold m =
     m\<lparr>speech_noise_thres := threshold,
        opts := (opts m)\<lparr>cfg_speech_noise_thres := threshold\<rparr>\<rparr>"

section \<open>Decibels and scores\<close>

definition frame_shift_len :: "'f e2e_config \<Rightarrow> int" where
  "frame_shift_len c = idiv (frame_in_ms c * ec_sample_rate c) 1000"

definition frame_sample_len :: "'f e2e_config \<Rightarrow> int" where
  "frame_sample_len c = idiv (frame_length_ms c * ec_sample_rate c) 1000"

text \<open>The loop over the frames of a waveform: it stops when the offset passes the last one, panics
  when a frame does not fit, and with a zero shift it pushes until the memory is exhausted.\<close>

function decibel_loop ::
  "'f f32_ops \<Rightarrow> 'f list \<Rightarrow> nat \<Rightarrow> nat \<Rightarrow> nat \<Rightarrow> nat \<Rightarrow> 'f list \<Rightarrow> 'f list result" where
  "decibel_loop F waveform len shift max_offset offset acc =
     (if offset \<le> max_offset then
        (if length waveform < offset + len then Inl (Panic ''slice index out of range'')
         else if shift = 0 then Inl (Panic ''memory exhausted'')
         else
           let energy = f_sum F (map (\<lambda>s. f_mul F s s) (take len (drop offset waveform)))
           in decibel_loop F waveform len shift max_offset (offset + shift)
                (acc @ [f_mul F (f_lit F 10 1) (f_log10 F (f_add F energy (f_lit F 1 1000000)))]))
      else Inr acc)"
  by pat_completeness auto
termination
  by (relation "measure (\<lambda>(F, waveform, len, shift, max_offset, offset, acc). max_offset + 1 - offset)")
    auto

declare decibel_loop.simps [simp del]

definition compute_decibel :: "'f f32_ops \<Rightarrow> 'f list \<Rightarrow> 'f e2e_vad \<Rightarrow> 'f e2e_vad result" where
  "compute_decibel F waveform m =
     (let len = frame_sample_len (opts m);
          shift = frame_shift_len (opts m);
          n = int (length waveform);
          m1 = (if data_buf_all_size m = 0 then m\<lparr>data_buf_all_size := n, data_buf_size := n\<rparr>
                else m\<lparr>data_buf_all_size := data_buf_all_size m + n\<rparr>);
          max_offset = saturating_sub (length waveform) (as_usize len)
      in rbind (decibel_loop F waveform (as_usize len) (as_usize shift) max_offset 0 (decibel m1))
           (\<lambda>ds. Inr (m1\<lparr>decibel := ds\<rparr>)))"

definition compute_scores :: "'f list list \<Rightarrow> 'f e2e_vad \<Rightarrow> 'f e2e_vad" where
  "compute_scores scores m =
     m\<lparr>nn_eval_block_size := int (length scores), frm_cnt := frm_cnt m + int (length scores)\<rparr>"

section \<open>Buffers and segments\<close>

function pop_data_buf_till_frame :: "int \<Rightarrow> 'f e2e_vad \<Rightarrow> 'f e2e_vad" where
  "pop_data_buf_till_frame frame_idx m =
     (if data_buf_start_frame m < frame_idx then
        (if frame_shift_len (opts m) \<le> data_buf_size m then
           pop_data_buf_till_frame frame_idx
             (m\<lparr>data_buf_start_frame := data_buf_start_frame m + 1,
                data_buf_size := data_buf_all_size m
                                 - (data_buf_start_frame m + 1) * frame_shift_len (opts m)\<rparr>)
         else m)
      else m)"
  by pat_completeness auto
termination
  by (relation "measure (\<lambda>(frame_idx, m). nat (frame_idx - data_buf_start_frame m))") auto

declare pop_data_buf_till_frame.simps [simp del]

text \<open>The number of samples that is popped is computed by the code but only the frame counter is
  moved; the computation has no effect and is left out.\<close>

definition pop_data_to_output_buf ::
  "int \<Rightarrow> int \<Rightarrow> bool \<Rightarrow> bool \<Rightarrow> bool \<Rightarrow> 'f e2e_vad \<Rightarrow> 'f e2e_vad" where
  "pop_data_to_output_buf start_frm cnt first_frm_is_start_point last_frm_is_end_point
     end_point_is_sent_end m0 =
     (let m = pop_data_buf_till_frame start_frm m0;
          ms = frame_in_ms (opts m);
          buf = (if output_data_buf m = [] \<or> first_frm_is_start_point
                 then output_data_buf m @
                   [\<lparr>start_ms = start_frm * ms, end_ms = start_frm * ms,
                     contain_seg_start_point = False, contain_seg_end_point = False\<rparr>]
                 else output_data_buf m);
          cur = last buf;
          cur1 = cur\<lparr>end_ms := (start_frm + cnt) * ms\<rparr>;
          cur2 = (if first_frm_is_start_point then cur1\<lparr>contain_seg_start_point := True\<rparr> else cur1);
          cur3 = (if last_frm_is_end_point then cur2\<lparr>contain_seg_end_point := True\<rparr> else cur2)
      in m\<lparr>data_buf_start_frame := data_buf_start_frame m + cnt,
            output_data_buf := butlast buf @ [cur3]\<rparr>)"

definition on_silence_detected :: "int \<Rightarrow> 'f e2e_vad \<Rightarrow> 'f e2e_vad" where
  "on_silence_detected valid_frame m0 =
     (let m = m0\<lparr>lastest_confirmed_silence_frame := valid_frame\<rparr>
      in if state_machine m = StartPointNotDetected
         then pop_data_buf_till_frame valid_frame m else m)"

definition on_voice_detected :: "int \<Rightarrow> 'f e2e_vad \<Rightarrow> 'f e2e_vad" where
  "on_voice_detected valid_frame m =
     pop_data_to_output_buf valid_frame 1 False False False
       (m\<lparr>latest_confirmed_speech_frame := valid_frame\<rparr>)"

definition on_voice_start :: "int \<Rightarrow> bool \<Rightarrow> 'f e2e_vad \<Rightarrow> 'f e2e_vad" where
  "on_voice_start start_frame fake_result m0 =
     (let m = m0\<lparr>confirmed_start_frame := start_frame\<rparr>
      in if \<not> fake_result \<and> state_machine m = StartPointNotDetected
         then pop_data_to_output_buf (confirmed_start_frame m) 1 True False False m else m)"

definition voice_detected_range :: "int \<Rightarrow> int \<Rightarrow> 'f e2e_vad \<Rightarrow> 'f e2e_vad" where
  "voice_detected_range a b m = fold on_voice_detected [a..b - 1] m"

definition on_voice_end :: "int \<Rightarrow> bool \<Rightarrow> bool \<Rightarrow> 'f e2e_vad \<Rightarrow> 'f e2e_vad" where
  "on_voice_end end_frame fake_result is_last_frame m0 =
     (let m = (voice_detected_range (latest_confirmed_speech_frame m0 + 1) end_frame m0)
                \<lparr>confirmed_end_frame := end_frame\<rparr>;
          m1 = (if \<not> fake_result
                then pop_data_to_output_buf (confirmed_end_frame m) 1 False True is_last_frame
                       (m\<lparr>sil_frame := 0\<rparr>)
                else m)
      in m1\<lparr>number_end_time_detected := number_end_time_detected m1 + 1\<rparr>)"

definition maybe_on_voice_end_if_last_frame :: "bool \<Rightarrow> int \<Rightarrow> 'f e2e_vad \<Rightarrow> 'f e2e_vad" where
  "maybe_on_voice_end_if_last_frame is_final_frame cur_frm_idx m =
     (if is_final_frame
      then (on_voice_end cur_frm_idx False True m)\<lparr>state_machine := EndPointDetected\<rparr> else m)"

definition latency_frm_num_at_start_point :: "'f e2e_vad \<Rightarrow> int" where
  "latency_frm_num_at_start_point m =
     win_size_frame (windows_detector m)
       + (if do_extend (opts m)
          then idiv (lookback_time_start_point (opts m)) (frame_in_ms (opts m)) else 0)"

section \<open>Frames\<close>

definition get_frame_state ::
  "'f f32_ops \<Rightarrow> int \<Rightarrow> 'f list list \<Rightarrow> 'f e2e_vad \<Rightarrow> frame_state \<times> 'f e2e_vad" where
  "get_frame_state F t scores m =
     (let c = opts m;
          cur_decibel = (case get_i32 (decibel m) t of None \<Rightarrow> f_lit F (-100) 1 | Some d \<Rightarrow> d);
          cur_snr = f_sub F cur_decibel (noise_average_decibel m)
      in if f_lt F cur_decibel (decibel_thres c) then (Sil, m)
         else if silence_pdf_num c = 0 then (Sil, m)
         else (case get_i32 scores (t - idx_pre_chunk m) of None \<Rightarrow> (Sil, m)
          | Some frame_scores \<Rightarrow>
            let sil_sum = f_sum F (List.map_filter (get frame_scores) (sil_pdf_ids c));
                sum_score = f_sub F (f_lit F 1 1) sil_sum;
                floor_prob = f_lit F 1 10000000000;
                noise_prob = f_mul F (f_ln F (f_max F sil_sum floor_prob)) (speech_2_noise_ratio c);
                speech_prob = f_ln F (f_max F sum_score floor_prob)
            in if f_le F (f_add F (f_exp F noise_prob) (speech_noise_thres m)) (f_exp F speech_prob)
               then (if f_le F (snr_thres c) cur_snr \<and> f_le F (decibel_thres c) cur_decibel
                     then Speech else Sil, m)
               else (Sil, m\<lparr>noise_average_decibel :=
                       if f_lt F (noise_average_decibel m) (f_lit F (-999) 10) then cur_decibel
                       else f_div F (f_add F cur_decibel
                                (f_mul F (noise_average_decibel m)
                                   (f_int F (noise_frame_num_used_for_snr c - 1))))
                              (f_int F (noise_frame_num_used_for_snr c))\<rparr>)))"

definition segment_too_long :: "int \<Rightarrow> 'f e2e_vad \<Rightarrow> bool" where
  "segment_too_long cur m \<longleftrightarrow>
     idiv (max_single_segment_time (opts m)) (frame_in_ms (opts m))
       < cur - confirmed_start_frame m + 1"

definition end_segment_at :: "int \<Rightarrow> 'f e2e_vad \<Rightarrow> 'f e2e_vad" where
  "end_segment_at frame m = (on_voice_end frame False False m)\<lparr>state_machine := EndPointDetected\<rparr>"

definition voice_or_final :: "int \<Rightarrow> bool \<Rightarrow> 'f e2e_vad \<Rightarrow> 'f e2e_vad" where
  "voice_or_final cur is_final m =
     (if \<not> is_final then on_voice_detected cur m
      else maybe_on_voice_end_if_last_frame is_final cur m)"

definition on_sil2speech :: "int \<Rightarrow> bool \<Rightarrow> 'f e2e_vad \<Rightarrow> 'f e2e_vad" where
  "on_sil2speech cur is_final m0 =
     (let m = m0\<lparr>continous_silence_frame_count := 0, pre_end_silence_detected := False\<rparr>
      in if state_machine m = StartPointNotDetected then
           let start_frame = max (data_buf_start_frame m) (cur - latency_frm_num_at_start_point m);
               m1 = (on_voice_start start_frame False m)\<lparr>state_machine := InSpeechSegment\<rparr>
           in voice_detected_range (start_frame + 1) (cur + 1) m1
         else if state_machine m = InSpeechSegment then
           let m1 = voice_detected_range (latest_confirmed_speech_frame m + 1) cur m
           in if segment_too_long cur m1 then end_segment_at cur m1
              else voice_or_final cur is_final m1
         else m)"

definition on_speech2sil :: "int \<Rightarrow> bool \<Rightarrow> 'f e2e_vad \<Rightarrow> 'f e2e_vad" where
  "on_speech2sil cur is_final m0 =
     (let m = m0\<lparr>continous_silence_frame_count := 0\<rparr>
      in if state_machine m = InSpeechSegment then
           if segment_too_long cur m then end_segment_at cur m else voice_or_final cur is_final m
         else m)"

definition on_speech2speech :: "int \<Rightarrow> bool \<Rightarrow> 'f e2e_vad \<Rightarrow> 'f e2e_vad" where
  "on_speech2speech cur is_final m0 =
     (let m = m0\<lparr>continous_silence_frame_count := 0\<rparr>
      in if state_machine m = InSpeechSegment then
           if segment_too_long cur m then end_segment_at cur (m\<lparr>max_time_out := True\<rparr>)
           else voice_or_final cur is_final m
         else m)"

definition end_lookback_frames :: "'f e2e_vad \<Rightarrow> int" where
  "end_lookback_frames m =
     (let ms = frame_in_ms (opts m); look = idiv (max_end_sil_frame_cnt_thresh m) ms
      in if do_extend (opts m)
         then max (look - idiv (lookahead_time_end_point (opts m)) ms - 1) 0 else look)"

definition on_sil2sil :: "int \<Rightarrow> bool \<Rightarrow> 'f e2e_vad \<Rightarrow> 'f e2e_vad" where
  "on_sil2sil cur is_final m0 =
     (let m = m0\<lparr>continous_silence_frame_count := continous_silence_frame_count m0 + 1\<rparr>;
          ms = frame_in_ms (opts m);
          silence = continous_silence_frame_count m
      in if state_machine m = StartPointNotDetected then
           if (detect_mode (opts m) = 0 \<and> max_start_silence_time (opts m) < silence * ms)
              \<or> (is_final \<and> number_end_time_detected m = 0) then
             let m1 = fold on_silence_detected [lastest_confirmed_silence_frame m + 1..cur - 1] m
             in (on_voice_end 0 True False (on_voice_start 0 True m1))
                  \<lparr>state_machine := EndPointDetected\<rparr>
           else if latency_frm_num_at_start_point m \<le> cur then
             on_silence_detected (cur - latency_frm_num_at_start_point m) m
           else m
         else if state_machine m = InSpeechSegment then
           if max_end_sil_frame_cnt_thresh m \<le> silence * ms then
             end_segment_at (cur - end_lookback_frames m) m
           else if segment_too_long cur m then end_segment_at cur m
           else if do_extend (opts m) \<and> \<not> is_final then
             (if silence \<le> idiv (lookahead_time_end_point (opts m)) ms
              then on_voice_detected cur m else m)
           else maybe_on_voice_end_if_last_frame is_final cur m
         else m)"

definition effective_frame_state :: "'f f32_ops \<Rightarrow> 'f e2e_config \<Rightarrow> frame_state \<Rightarrow> frame_state" where
  "effective_frame_state F c s =
     (if s = Speech \<and> f_lt F (fe_prior_thres c) (f_lit F 1 1) then Speech else Sil)"

definition on_state_change ::
  "audio_change_state \<Rightarrow> int \<Rightarrow> bool \<Rightarrow> 'f e2e_vad \<Rightarrow> 'f e2e_vad" where
  "on_state_change change cur is_final m =
     (case change of
        Sil2Speech \<Rightarrow> on_sil2speech cur is_final m
      | Speech2Sil \<Rightarrow> on_speech2sil cur is_final m
      | Speech2Speech \<Rightarrow> on_speech2speech cur is_final m
      | Sil2Sil \<Rightarrow> on_sil2sil cur is_final m
      | Invalid \<Rightarrow> m
      | NoBegin \<Rightarrow> m)"

definition detect_one_frame ::
  "'f f32_ops \<Rightarrow> frame_state \<Rightarrow> int \<Rightarrow> bool \<Rightarrow> 'f e2e_vad \<Rightarrow> 'f e2e_vad result" where
  "detect_one_frame F s cur is_final m0 =
     rbind (window_detect_one_frame (effective_frame_state F (opts m0) s) (windows_detector m0))
       (\<lambda>(change, w).
        let m = on_state_change change cur is_final (m0\<lparr>windows_detector := w\<rparr>)
        in Inr (if state_machine m = EndPointDetected \<and> detect_mode (opts m) = 1
                then reset_detection m else m))"

definition detect_block_frame ::
  "'f f32_ops \<Rightarrow> 'f list list \<Rightarrow> bool \<Rightarrow> 'f e2e_vad \<Rightarrow> nat \<Rightarrow> 'f e2e_vad result" where
  "detect_block_frame F scores is_final m i =
     (let frame_idx = frm_cnt m - 1 - int i;
          (s, m1) = get_frame_state F frame_idx scores m
      in detect_one_frame F s frame_idx (is_final \<and> i = 0) m1)"

definition detect_common_frames ::
  "'f f32_ops \<Rightarrow> 'f list list \<Rightarrow> 'f e2e_vad \<Rightarrow> 'f e2e_vad result" where
  "detect_common_frames F scores m =
     (if state_machine m = EndPointDetected then Inr m
      else rbind (foldM (detect_block_frame F scores False) m (rev [0..<length scores])) (\<lambda>m1.
           Inr (m1\<lparr>idx_pre_chunk := idx_pre_chunk m1 + int (length scores)\<rparr>)))"

definition detect_last_frames ::
  "'f f32_ops \<Rightarrow> 'f list list \<Rightarrow> 'f e2e_vad \<Rightarrow> 'f e2e_vad result" where
  "detect_last_frames F scores m =
     (if state_machine m = EndPointDetected then Inr m
      else foldM (detect_block_frame F scores True) m (rev [0..<length scores]))"

section \<open>Entry points\<close>

definition segment_complete :: "segment_buf \<Rightarrow> bool" where
  "segment_complete seg \<longleftrightarrow> contain_seg_start_point seg \<and> contain_seg_end_point seg"

definition segment_times :: "segment_buf \<Rightarrow> nat \<times> nat" where
  "segment_times seg = (nat (max (start_ms seg) 0), nat (max (end_ms seg) 0))"

definition take_segments :: "'f e2e_vad \<Rightarrow> (nat \<times> nat) list \<times> 'f e2e_vad" where
  "take_segments m =
     (let done = filter segment_complete (drop (output_data_buf_offset m) (output_data_buf m))
      in (map segment_times done,
          m\<lparr>output_data_buf_offset := output_data_buf_offset m + length done\<rparr>))"

definition detect_offline ::
  "'f f32_ops \<Rightarrow> 'f list list \<Rightarrow> 'f list \<Rightarrow> int \<Rightarrow> 'f e2e_vad \<Rightarrow>
   ((nat \<times> nat) list \<times> 'f e2e_vad) result" where
  "detect_offline F scores waveform max_end_silence_ms m0 =
     (let m1 = all_reset_detection F m0;
          m2 = m1\<lparr>max_end_sil_frame_cnt_thresh :=
                    max_end_silence_ms - speech_to_sil_time_thres (opts m1)\<rparr>
      in rbind (compute_decibel F waveform m2) (\<lambda>m3.
         rbind (detect_last_frames F scores (compute_scores scores m3)) (\<lambda>m4.
         case take_segments m4 of (segs, m5) \<Rightarrow> Inr (segs, all_reset_detection F m5))))"

definition detect_chunk ::
  "'f f32_ops \<Rightarrow> 'f list list \<Rightarrow> 'f list \<Rightarrow> bool \<Rightarrow> int \<Rightarrow> 'f e2e_vad \<Rightarrow>
   ((nat \<times> nat) list \<times> 'f e2e_vad) result" where
  "detect_chunk F scores waveform is_final max_end_silence_ms m1 =
     (let m2 = m1\<lparr>max_end_sil_frame_cnt_thresh :=
                    max_end_silence_ms - speech_to_sil_time_thres (opts m1)\<rparr>
      in rbind (compute_decibel F waveform m2) (\<lambda>m3.
         let m4 = compute_scores scores m3
         in rbind (if is_final then detect_last_frames F scores m4
                   else detect_common_frames F scores m4) (\<lambda>m5.
         case take_segments m5 of (segs, m6) \<Rightarrow>
           Inr (segs, if is_final then all_reset_detection F m6 else m6))))"

definition finalize_streaming ::
  "'f f32_ops \<Rightarrow> int \<Rightarrow> 'f e2e_vad \<Rightarrow> (nat \<times> nat) list \<times> 'f e2e_vad" where
  "finalize_streaming F max_end_silence_ms m0 =
     (let m1 = m0\<lparr>max_end_sil_frame_cnt_thresh :=
                    max_end_silence_ms - speech_to_sil_time_thres (opts m0)\<rparr>;
          m2 = (if state_machine m1 = InSpeechSegment \<and> 0 < frm_cnt m1
                then maybe_on_voice_end_if_last_frame True (frm_cnt m1 - 1) m1 else m1)
      in case take_segments m2 of (segs, m3) \<Rightarrow> (segs, all_reset_detection F m3))"

section \<open>The window detector counts the recent speech frames\<close>

text \<open>The reference: the number of speech frames among the last \<^term>\<open>n\<close>, and a two-threshold
  switch on it.\<close>

definition speech_in_window :: "nat \<Rightarrow> frame_state list \<Rightarrow> int" where
  "speech_in_window n fs = sum_list (map frame_bit (drop (length fs - n) fs))"

definition hysteresis ::
  "int \<Rightarrow> int \<Rightarrow> frame_state \<Rightarrow> int \<Rightarrow> audio_change_state \<times> frame_state" where
  "hysteresis up down pre k =
     (if pre = Sil then (if up \<le> k then (Sil2Speech, Speech) else (Sil2Sil, Sil))
      else (if k \<le> down then (Speech2Sil, Sil) else (Speech2Speech, Speech)))"

fun window_changes ::
  "nat \<Rightarrow> int \<Rightarrow> int \<Rightarrow> frame_state \<Rightarrow> frame_state list \<Rightarrow> frame_state list \<Rightarrow> audio_change_state list"
where
  "window_changes n up down pre past [] = []"
| "window_changes n up down pre past (f # fs) =
     (case hysteresis up down pre (speech_in_window n (past @ [f])) of
        (c, pre') \<Rightarrow> c # window_changes n up down pre' (past @ [f]) fs)"

fun window_run ::
  "window_detector \<Rightarrow> frame_state list \<Rightarrow> (audio_change_state list \<times> window_detector) result" where
  "window_run w [] = Inr ([], w)"
| "window_run w (f # fs) =
     rbind (window_detect_one_frame f w) (\<lambda>(c, w').
     rbind (window_run w' fs) (\<lambda>(cs, w''). Inr (c # cs, w'')))"

text \<open>The ring buffer read from its cursor is the history of the last frames, oldest first.\<close>

definition window_history :: "window_detector \<Rightarrow> int list" where
  "window_history w = drop (cur_win_pos w) (win_state w) @ take (cur_win_pos w) (win_state w)"

definition window_wf :: "window_detector \<Rightarrow> bool" where
  "window_wf w \<longleftrightarrow>
     0 < win_size_frame w \<and> length (win_state w) = nat (win_size_frame w) \<and>
     cur_win_pos w < length (win_state w) \<and> win_sum w = sum_list (win_state w) \<and>
     set (win_state w) \<subseteq> {0, 1}"

lemma frame_bit_range [simp]: "frame_bit s \<in> {0, 1}" "0 \<le> frame_bit s" "frame_bit s \<le> 1"
  by (auto simp: frame_bit_def split: frame_state.splits)

lemma ring_push:
  assumes "p < length ws"
  shows "drop ((p + 1) mod length ws) (ws[p := b]) @ take ((p + 1) mod length ws) (ws[p := b])
       = tl (drop p ws @ take p ws) @ [b]"
proof -
  from assms obtain xs a ys where ws: "ws = xs @ a # ys" and p: "length xs = p"
    by (metis id_take_nth_drop length_take min.absorb4)
  show ?thesis by (cases "ys = []") (auto simp: ws p[symmetric])
qed

lemma sum_list_update_int:
  "p < length xs \<Longrightarrow> sum_list (xs[p := b]) = sum_list xs - xs ! p + b" for xs :: "int list"
  by (induction xs arbitrary: p) (auto split: nat.splits simp: nth_Cons)

lemma window_push_wf:
  assumes wf: "window_wf w" and push: "window_push s w = Inr w'"
  shows "window_wf w'" and "window_history w' = tl (window_history w) @ [frame_bit s]"
    and "win_size_frame w' = win_size_frame w" "pre_frame_state w' = pre_frame_state w"
    and "sil_to_speech_frmcnt_thres w' = sil_to_speech_frmcnt_thres w"
    and "speech_to_sil_frmcnt_thres w' = speech_to_sil_frmcnt_thres w"
    and "win_sum w' \<le> win_sum w + 1"
proof -
  let ?p = "cur_win_pos w" and ?ws = "win_state w"
  have p: "?p < length ?ws" using wf by (simp add: window_wf_def)
  have w': "w' = w\<lparr>win_sum := win_sum w - ?ws ! ?p + frame_bit s,
                   win_state := ?ws[?p := frame_bit s],
                   cur_win_pos := (?p + 1) mod nat (win_size_frame w)\<rparr>"
    using push p by (auto simp: window_push_def index_r_def get_def)
  have size: "nat (win_size_frame w) = length ?ws" using wf by (simp add: window_wf_def)
  have old: "?ws ! ?p \<in> {0, 1}" using wf p nth_mem unfolding window_wf_def by blast
  have bits: "set (?ws[?p := frame_bit s]) \<subseteq> {0, 1}"
    using wf set_update_subset_insert[of ?ws ?p "frame_bit s"] frame_bit_range(1)[of s]
    unfolding window_wf_def by blast
  have pos: "Suc ?p mod length ?ws < length ?ws" by (rule mod_less_divisor) (use p in linarith)
  show "window_wf w'"
    using wf p size bits pos by (auto simp add: w' window_wf_def sum_list_update_int)
  show "window_history w' = tl (window_history w) @ [frame_bit s]"
    using ring_push[OF p, of "frame_bit s"] by (simp add: w' window_history_def size)
  show "win_size_frame w' = win_size_frame w" "pre_frame_state w' = pre_frame_state w"
    "sil_to_speech_frmcnt_thres w' = sil_to_speech_frmcnt_thres w"
    "speech_to_sil_frmcnt_thres w' = speech_to_sil_frmcnt_thres w"
    by (simp_all add: w')
  show "win_sum w' \<le> win_sum w + 1" using old by (cases s) (auto simp: w' frame_bit_def)
qed

lemma window_push_total:
  "window_wf w \<Longrightarrow> \<exists>w'. window_push s w = Inr w'"
  by (auto simp: window_push_def index_r_def get_def window_wf_def)

lemma window_history_sum: "sum_list (window_history w) = sum_list (win_state w)"
  unfolding window_history_def
  by (metis add.commute append_take_drop_id sum_list_append)

lemma window_detect_spec:
  assumes wf: "window_wf w"
  obtains c w' pre' where "window_detect_one_frame s w = Inr (c, w')" "window_wf w'"
    "window_history w' = tl (window_history w) @ [frame_bit s]"
    "win_size_frame w' = win_size_frame w"
    "sil_to_speech_frmcnt_thres w' = sil_to_speech_frmcnt_thres w"
    "speech_to_sil_frmcnt_thres w' = speech_to_sil_frmcnt_thres w"
    "win_sum w' \<le> win_sum w + 1"
    "hysteresis (sil_to_speech_frmcnt_thres w) (speech_to_sil_frmcnt_thres w) (pre_frame_state w)
       (win_sum w') = (c, pre_frame_state w')"
proof -
  obtain w1 where push: "window_push s w = Inr w1" using window_push_total[OF wf] by blast
  note p = window_push_wf[OF wf push]
  obtain c pre where h: "hysteresis (sil_to_speech_frmcnt_thres w) (speech_to_sil_frmcnt_thres w)
       (pre_frame_state w) (win_sum w1) = (c, pre)" by fastforce
  have det: "window_detect_one_frame s w = Inr (c, w1\<lparr>pre_frame_state := pre\<rparr>)"
    using h p(3-6) push
    by (cases "pre_frame_state w")
       (auto simp: window_detect_one_frame_def hysteresis_def split: if_splits)
  show thesis
    by (rule that[OF det])
       (use p h in \<open>auto simp: window_wf_def window_history_def\<close>)
qed


lemma window_run_history:
  assumes "window_wf w"
    and "window_history w = map frame_bit (drop (length past - nat (win_size_frame w)) past)
           \<or> (\<exists>k. length past + k = nat (win_size_frame w) \<and>
                  window_history w = replicate k 0 @ map frame_bit past)"
  shows "\<exists>w'. window_run w fs = Inr (window_changes (nat (win_size_frame w))
           (sil_to_speech_frmcnt_thres w) (speech_to_sil_frmcnt_thres w) (pre_frame_state w) past fs, w')"
  using assms
proof (induction fs arbitrary: w past)
  case Nil
  then show ?case by simp
next
  case (Cons f fs)
  let ?n = "nat (win_size_frame w)"
  obtain c w' where det: "window_detect_one_frame f w = Inr (c, w')" and wf': "window_wf w'"
    and hist: "window_history w' = tl (window_history w) @ [frame_bit f]"
    and eqs: "win_size_frame w' = win_size_frame w"
      "sil_to_speech_frmcnt_thres w' = sil_to_speech_frmcnt_thres w"
      "speech_to_sil_frmcnt_thres w' = speech_to_sil_frmcnt_thres w"
    and hy: "hysteresis (sil_to_speech_frmcnt_thres w) (speech_to_sil_frmcnt_thres w)
       (pre_frame_state w) (win_sum w') = (c, pre_frame_state w')"
    by (rule window_detect_spec[OF Cons.prems(1)])
  have n: "0 < ?n" using Cons.prems(1) by (simp add: window_wf_def)
  have hist': "window_history w' = map frame_bit (drop (length (past @ [f]) - ?n) (past @ [f]))
      \<or> (\<exists>k. length (past @ [f]) + k = ?n \<and>
             window_history w' = replicate k 0 @ map frame_bit (past @ [f]))"
    using Cons.prems(2) 
  proof
    assume h: "window_history w = map frame_bit (drop (length past - ?n) past)"
    have len: "length (window_history w) = ?n"
      using Cons.prems(1) by (simp add: window_history_def window_wf_def)
    then have "?n \<le> length past" using h n by simp
    then have "drop (length (past @ [f]) - ?n) (past @ [f]) = tl (drop (length past - ?n) past) @ [f]"
      using n by (simp add: Suc_diff_le tl_drop drop_Suc)
    then show ?thesis using hist h by (simp add: map_tl)
  next
    assume "\<exists>k. length past + k = ?n \<and> window_history w = replicate k 0 @ map frame_bit past"
    then obtain k where k: "length past + k = ?n"
      and h: "window_history w = replicate k 0 @ map frame_bit past" by blast
    show ?thesis
    proof (cases k)
      case 0
      then have "drop (length (past @ [f]) - ?n) (past @ [f]) = tl past @ [f]"
        using k n by (cases past) (auto simp: drop_Suc)
      then show ?thesis using hist h 0 by (simp add: map_tl)
    next
      case (Suc j)
      then have "length (past @ [f]) + j = ?n" using k by simp
      moreover have "window_history w' = replicate j 0 @ map frame_bit (past @ [f])"
        using hist h Suc by simp
      ultimately show ?thesis by blast
    qed
  qed
  have "win_sum w' = sum_list (window_history w')"
    using wf' by (simp add: window_history_sum window_wf_def)
  also have "\<dots> = speech_in_window ?n (past @ [f])"
    using hist' by (auto simp: speech_in_window_def sum_list_replicate)
  finally have sum: "win_sum w' = speech_in_window ?n (past @ [f])" .
  from Cons.IH[of w' "past @ [f]"] wf' hist' eqs
  obtain w'' where "window_run w' fs = Inr (window_changes ?n
      (sil_to_speech_frmcnt_thres w) (speech_to_sil_frmcnt_thres w) (pre_frame_state w')
      (past @ [f]) fs, w'')" by auto
  then show ?case using det hy sum by auto
qed

text \<open>C16: A window detector of a positive size, run over any frames, reports exactly what a
  two-threshold switch on the number of speech frames among the last window of frames would
  report, although it keeps only a ring buffer and a running sum.\<close>

theorem window_detector_counts_recent_speech:
  assumes new: "window_new window_ms up_ms down_ms frame_ms = Inr w"
    and size: "0 < idiv window_ms frame_ms"
  shows "\<exists>w'. window_run w fs = Inr (window_changes (nat (idiv window_ms frame_ms))
           (idiv up_ms frame_ms) (idiv down_ms frame_ms) Sil [] fs, w')"
proof -
  have w: "w = \<lparr>win_size_frame = idiv window_ms frame_ms, win_sum = 0,
      win_state = replicate (nat (idiv window_ms frame_ms)) 0, cur_win_pos = 0,
      pre_frame_state = Sil, sil_to_speech_frmcnt_thres = idiv up_ms frame_ms,
      speech_to_sil_frmcnt_thres = idiv down_ms frame_ms\<rparr>"
    using new by (auto simp: window_new_def split: if_splits)
  have "window_wf w" using size by (auto simp: w window_wf_def sum_list_replicate)
  moreover have "window_history w = replicate (nat (idiv window_ms frame_ms)) 0"
    by (simp add: w window_history_def)
  ultimately show ?thesis
    using window_run_history[of w "[]" fs] by (simp add: w)
qed

lemma window_detector_counts_recent_speech_witness:
  "\<exists>w w'. window_new 30 20 10 10 = Inr w \<and>
     window_run w [Speech, Sil, Speech, Sil, Sil, Sil] =
       Inr ([Sil2Sil, Sil2Sil, Sil2Speech, Speech2Sil, Sil2Sil, Sil2Sil], w')"
proof -
  obtain w where w: "window_new 30 20 10 10 = Inr w" by (simp add: window_new_def idiv_def)
  have "window_changes (nat (idiv 30 10)) (idiv 20 10) (idiv 10 10) Sil []
          [Speech, Sil, Speech, Sil, Sil, Sil]
      = [Sil2Sil, Sil2Sil, Sil2Speech, Speech2Sil, Sil2Sil, Sil2Sil]"
    by code_simp
  then show ?thesis
    using window_detector_counts_recent_speech[OF w, of "[Speech, Sil, Speech, Sil, Sil, Sil]"] w
    by (auto simp: idiv_def)
qed

end
