(* ===== verification/E2eVadSegments.thy ===== *)
theory E2eVadSegments
  imports E2eVad
begin

text \<open>The segments of the end-point detector of \<^verbatim>\<open>e2e_vad.rs\<close>: an invariant of the state machine
  under every frame, and the order of the segments that the chunked entry point reports.\<close>

section \<open>Chains of segments\<close>

fun seg_chain :: "int \<Rightarrow> segment_buf list \<Rightarrow> bool" where
  "seg_chain lo [] \<longleftrightarrow> True"
| "seg_chain lo (s # ss) \<longleftrightarrow> lo \<le> start_ms s \<and> start_ms s < end_ms s \<and> seg_chain (end_ms s) ss"

definition chain_end :: "int \<Rightarrow> segment_buf list \<Rightarrow> int" where
  "chain_end lo ss = (if ss = [] then lo else end_ms (last ss))"

lemma chain_end_simps [simp]:
  "chain_end lo [] = lo"
  "chain_end lo (s # ss) = chain_end (end_ms s) ss"
  "chain_end lo (ss @ [s]) = end_ms s"
  by (simp_all add: chain_end_def)

lemma seg_chain_append [simp]:
  "seg_chain lo (xs @ ys) \<longleftrightarrow> seg_chain lo xs \<and> seg_chain (chain_end lo xs) ys"
  by (induction xs arbitrary: lo) auto

lemma chain_end_append [simp]: "chain_end lo (xs @ ys) = chain_end (chain_end lo xs) ys"
  by (induction xs arbitrary: lo) auto

lemma seg_chain_end_ge: "seg_chain lo xs \<Longrightarrow> lo \<le> chain_end lo xs"
  by (induction xs arbitrary: lo) force+

section \<open>Buffer operations\<close>

definition vad_cfg_ok :: "'f e2e_config \<Rightarrow> bool" where
  "vad_cfg_ok c \<longleftrightarrow> detect_mode c = 1 \<and> do_extend c \<and> 0 < frame_in_ms c \<and> 0 < frame_shift_len c \<and>
     frame_shift_len c \<le> frame_sample_len c \<and> frame_sample_len c < 2 ^ 64 \<and>
     0 \<le> lookback_time_start_point c \<and> 0 \<le> lookahead_time_end_point c"

abbreviation shift_of :: "'f e2e_vad \<Rightarrow> int" where
  "shift_of m \<equiv> frame_shift_len (opts m)"

lemma pop_till_spec:
  assumes "0 < shift_of m" "shift_of m \<le> data_buf_size m" "(n + 1) * shift_of m \<le> data_buf_all_size m"
  shows "\<exists>sz. shift_of m \<le> sz \<and> pop_data_buf_till_frame n m =
           m\<lparr>data_buf_start_frame := max (data_buf_start_frame m) n, data_buf_size := sz\<rparr>"
  using assms
proof (induction n m rule: pop_data_buf_till_frame.induct)
  case (1 n m)
  show ?case
  proof (cases "data_buf_start_frame m < n")
    case True
    let ?m = "m\<lparr>data_buf_start_frame := data_buf_start_frame m + 1,
                data_buf_size := data_buf_all_size m
                                 - (data_buf_start_frame m + 1) * shift_of m\<rparr>"
    have "(data_buf_start_frame m + 1) * shift_of m \<le> n * shift_of m"
      using True 1(2) by (intro mult_right_mono) auto
    then have "shift_of m \<le> data_buf_all_size m - (data_buf_start_frame m + 1) * shift_of m"
      using 1(4) by (simp add: algebra_simps)
    with 1 True obtain sz where "shift_of m \<le> sz" and
      "pop_data_buf_till_frame n ?m =
         ?m\<lparr>data_buf_start_frame := max (data_buf_start_frame m + 1) n, data_buf_size := sz\<rparr>"
      by force
    then show ?thesis using True 1(3)
      by (subst pop_data_buf_till_frame.simps) (auto simp: max_def intro!: exI[of _ sz])
  next
    case False
    then show ?thesis using 1(3)
      by (subst pop_data_buf_till_frame.simps)
         (auto simp: max_def intro!: exI[of _ "data_buf_size m"])
  qed
qed

definition mark_segment :: "int \<Rightarrow> bool \<Rightarrow> segment_buf list \<Rightarrow> segment_buf list" where
  "mark_segment end_time ends buf = butlast buf @
     [(last buf)\<lparr>end_ms := end_time,
       contain_seg_end_point := ends \<or> contain_seg_end_point (last buf)\<rparr>]"

lemma mark_segment_snoc [simp]:
  "mark_segment e ends (xs @ [s]) =
     xs @ [s\<lparr>end_ms := e, contain_seg_end_point := ends \<or> contain_seg_end_point s\<rparr>]"
  by (simp add: mark_segment_def)

lemma pop_output_spec:
  assumes "0 < shift_of m" "shift_of m \<le> data_buf_size m" "(v + 1) * shift_of m \<le> data_buf_all_size m"
    and "output_data_buf m \<noteq> []"
  shows "\<exists>sz. shift_of m \<le> sz \<and> pop_data_to_output_buf v 1 False ends e m =
           m\<lparr>data_buf_start_frame := max (data_buf_start_frame m) v + 1, data_buf_size := sz,
              output_data_buf := mark_segment ((v + 1) * frame_in_ms (opts m)) ends (output_data_buf m)\<rparr>"
proof -
  obtain sz where "shift_of m \<le> sz" and "pop_data_buf_till_frame v m =
       m\<lparr>data_buf_start_frame := max (data_buf_start_frame m) v, data_buf_size := sz\<rparr>"
    using pop_till_spec[OF assms(1-3)] by blast
  then show ?thesis
    by (intro exI[of _ sz])
       (use assms(4) in \<open>auto simp: pop_data_to_output_buf_def mark_segment_def Let_def\<close>)
qed

text \<open>The state after the open segment has been extended up to frame \<^term>\<open>b\<close> (exclusive).\<close>

definition extend_to :: "int \<Rightarrow> int \<Rightarrow> 'f e2e_vad \<Rightarrow> 'f e2e_vad" where
  "extend_to b sz m = m\<lparr>latest_confirmed_speech_frame := b - 1, data_buf_start_frame := b,
     data_buf_size := sz,
     output_data_buf := mark_segment (b * frame_in_ms (opts m)) False (output_data_buf m)\<rparr>"

lemma on_voice_detected_spec:
  assumes "0 < shift_of m" "shift_of m \<le> data_buf_size m" "(v + 1) * shift_of m \<le> data_buf_all_size m"
    and "output_data_buf m \<noteq> []" "data_buf_start_frame m \<le> v"
  shows "\<exists>sz. shift_of m \<le> sz \<and> on_voice_detected v m = extend_to (v + 1) sz m"
  using pop_output_spec[of "m\<lparr>latest_confirmed_speech_frame := v\<rparr>" v False False] assms
  by (auto simp: on_voice_detected_def extend_to_def max_def)

lemma mark_segment_twice [simp]:
  "mark_segment e ends (mark_segment e' ends' buf) = mark_segment e (ends \<or> ends') buf"
  by (simp add: mark_segment_def disj_assoc)

lemma extend_to_twice [simp]: "extend_to b sz (extend_to b' sz' m) = extend_to b sz m"
  by (simp add: extend_to_def)

lemma extend_to_simps [simp]:
  "opts (extend_to b sz m) = opts m" "windows_detector (extend_to b sz m) = windows_detector m"
  "frm_cnt (extend_to b sz m) = frm_cnt m" "state_machine (extend_to b sz m) = state_machine m"
  "data_buf_all_size (extend_to b sz m) = data_buf_all_size m"
  "output_data_buf_offset (extend_to b sz m) = output_data_buf_offset m"
  "idx_pre_chunk (extend_to b sz m) = idx_pre_chunk m"
  "confirmed_start_frame (extend_to b sz m) = confirmed_start_frame m"
  "continous_silence_frame_count (extend_to b sz m) = continous_silence_frame_count m"
  "latest_confirmed_speech_frame (extend_to b sz m) = b - 1"
  "data_buf_start_frame (extend_to b sz m) = b" "data_buf_size (extend_to b sz m) = sz"
  "output_data_buf (extend_to b sz m)
     = mark_segment (b * frame_in_ms (opts m)) False (output_data_buf m)"
  by (simp_all add: extend_to_def)

lemma mark_segment_nonempty [simp]: "mark_segment e ends buf \<noteq> []"
  by (simp add: mark_segment_def)

lemma voice_detected_range_spec:
  assumes "a < b" "0 < shift_of m" "shift_of m \<le> data_buf_size m"
    and "b * shift_of m \<le> data_buf_all_size m"
    and "output_data_buf m \<noteq> []" "data_buf_start_frame m \<le> a"
  shows "\<exists>sz. shift_of m \<le> sz \<and> voice_detected_range a b m = extend_to b sz m"
  using assms
proof (induction "nat (b - a)" arbitrary: b)
  case 0
  then show ?case by simp
next
  case (Suc k)
  have split: "[a..b - 1] = [a..b - 1 - 1] @ [b - 1]" using Suc.prems(1) by (simp add: upto_rec2)
  have cov: "(b - 1) * shift_of m \<le> data_buf_all_size m" "b * shift_of m \<le> data_buf_all_size m"
    using Suc.prems by (auto simp: algebra_simps)
  show ?case
  proof (cases "a < b - 1")
    case True
    have "k = nat (b - 1 - a)" using Suc.hyps(2) by linarith
    from Suc.hyps(1)[OF this True Suc.prems(2,3) cov(1) Suc.prems(5,6)]
    obtain sz where "shift_of m \<le> sz" and r: "voice_detected_range a (b - 1) m = extend_to (b - 1) sz m"
      by blast
    then show ?thesis
      using on_voice_detected_spec[of "extend_to (b - 1) sz m" "b - 1"] Suc.prems cov
      by (auto simp: voice_detected_range_def split)
  next
    case False
    then have b: "b = a + 1" using Suc.prems(1) by simp
    show ?thesis
      using on_voice_detected_spec[of m a] Suc.prems cov
      by (simp add: voice_detected_range_def b)
  qed
qed

section \<open>Open and closed segments\<close>

definition all_complete :: "segment_buf list \<Rightarrow> bool" where
  "all_complete ss \<longleftrightarrow> (\<forall>s \<in> set ss. segment_complete s)"

definition closed_segs :: "'f e2e_vad \<Rightarrow> bool" where
  "closed_segs m \<longleftrightarrow> all_complete (output_data_buf m) \<and> seg_chain 0 (output_data_buf m) \<and>
     chain_end 0 (output_data_buf m) \<le> data_buf_start_frame m * frame_in_ms (opts m)"

definition open_segs :: "'f e2e_vad \<Rightarrow> bool" where
  "open_segs m \<longleftrightarrow> (\<exists>ss cur. output_data_buf m = ss @ [cur] \<and> all_complete ss \<and>
     seg_chain 0 (ss @ [cur]) \<and> contain_seg_start_point cur \<and> \<not> contain_seg_end_point cur \<and>
     start_ms cur = confirmed_start_frame m * frame_in_ms (opts m) \<and>
     end_ms cur = data_buf_start_frame m * frame_in_ms (opts m)) \<and>
     0 \<le> confirmed_start_frame m \<and>
     confirmed_start_frame m \<le> latest_confirmed_speech_frame m \<and>
     data_buf_start_frame m = latest_confirmed_speech_frame m + 1"

definition buf_ok :: "int \<Rightarrow> 'f e2e_vad \<Rightarrow> bool" where
  "buf_ok t m \<longleftrightarrow> 0 < shift_of m \<and> 0 < frame_in_ms (opts m) \<and> shift_of m \<le> data_buf_size m \<and>
     t * shift_of m \<le> data_buf_all_size m"

text \<open>The parts of the state that the segment operations leave alone; completed segments stay.\<close>

definition done_of :: "segment_buf list \<Rightarrow> segment_buf list" where
  "done_of ss = filter segment_complete ss"

definition same_setting :: "'f e2e_vad \<Rightarrow> 'f e2e_vad \<Rightarrow> bool" where
  "same_setting m m' \<longleftrightarrow> opts m' = opts m \<and> windows_detector m' = windows_detector m \<and>
     frm_cnt m' = frm_cnt m \<and> data_buf_all_size m' = data_buf_all_size m \<and>
     output_data_buf_offset m' = output_data_buf_offset m \<and> idx_pre_chunk m' = idx_pre_chunk m \<and>
     (\<exists>rest. done_of (output_data_buf m') = done_of (output_data_buf m) @ rest)"

lemma same_setting_trans: "same_setting a b \<Longrightarrow> same_setting b c \<Longrightarrow> same_setting a c"
  by (auto simp: same_setting_def)

lemma all_complete_filter: "all_complete ss \<Longrightarrow> filter segment_complete ss = ss"
  by (simp add: all_complete_def)

lemma open_segs_done: "open_segs m \<Longrightarrow> done_of (output_data_buf m) = butlast (output_data_buf m)"
  by (auto simp: open_segs_def done_of_def all_complete_filter segment_complete_def)

lemma closed_segs_done: "closed_segs m \<Longrightarrow> done_of (output_data_buf m) = output_data_buf m"
  by (auto simp: closed_segs_def done_of_def all_complete_filter)

lemma done_of_append [simp]: "done_of (xs @ ys) = done_of xs @ done_of ys"
  by (simp add: done_of_def)

lemma done_of_single [simp]: "done_of [s] = (if segment_complete s then [s] else [])"
  by (simp add: done_of_def)

lemma open_segs_mark_done:
  "open_segs m \<Longrightarrow> \<exists>rest. done_of (mark_segment e ends (output_data_buf m)) = done_of (output_data_buf m) @ rest"
  by (auto simp: open_segs_def segment_complete_def)

lemma buf_ok_mono: "buf_ok t m \<Longrightarrow> u \<le> t \<Longrightarrow> buf_ok u m"
  unfolding buf_ok_def by (meson less_imp_le mult_right_mono order_trans)

lemma open_segs_nonempty: "open_segs m \<Longrightarrow> output_data_buf m \<noteq> []"
  by (auto simp: open_segs_def)

lemma open_segs_extend:
  assumes "open_segs m" "0 < frame_in_ms (opts m)" "data_buf_start_frame m \<le> b"
  shows "open_segs (extend_to b sz m)"
proof -
  obtain ss cur where o: "output_data_buf m = ss @ [cur]" "all_complete ss" "seg_chain 0 (ss @ [cur])"
    "contain_seg_start_point cur" "\<not> contain_seg_end_point cur"
    "start_ms cur = confirmed_start_frame m * frame_in_ms (opts m)"
    using assms(1) by (auto simp: open_segs_def)
  have "confirmed_start_frame m < b" using assms(1,3) by (auto simp: open_segs_def)
  then have "confirmed_start_frame m * frame_in_ms (opts m) < b * frame_in_ms (opts m)"
    using assms(2) by simp
  then show ?thesis using o assms(1,3) by (auto simp: open_segs_def)
qed

text \<open>Extending the open segment over the frames up to \<^term>\<open>b\<close> is \<^const>\<open>extend_to\<close>.\<close>

lemma range_extends:
  assumes "open_segs m" "buf_ok b m" "latest_confirmed_speech_frame m + 1 \<le> b"
  shows "\<exists>sz. shift_of m \<le> sz \<and>
           voice_detected_range (latest_confirmed_speech_frame m + 1) b m = extend_to b sz m"
proof (cases "latest_confirmed_speech_frame m + 1 = b")
  case True
  have "extend_to b (data_buf_size m) m = m"
  proof -
    obtain ss cur where "output_data_buf m = ss @ [cur]" "\<not> contain_seg_end_point cur"
      "end_ms cur = data_buf_start_frame m * frame_in_ms (opts m)"
      using assms(1) by (auto simp: open_segs_def)
    then have "mark_segment (b * frame_in_ms (opts m)) False (output_data_buf m) = output_data_buf m"
      using True assms(1) by (simp add: open_segs_def)
    then show ?thesis using True assms(1) by (simp add: extend_to_def open_segs_def)
  qed
  then show ?thesis using True assms(2)
    by (intro exI[of _ "data_buf_size m"]) (simp add: voice_detected_range_def buf_ok_def)
next
  case False
  then show ?thesis using assms open_segs_nonempty[OF assms(1)]
    by (intro voice_detected_range_spec) (auto simp: buf_ok_def open_segs_def)
qed

lemma on_voice_end_gen:
  assumes op: "open_segs m" and buf: "buf_ok (max (latest_confirmed_speech_frame m) e + 1) m"
    and e: "confirmed_start_frame m \<le> e"
  shows "closed_segs (on_voice_end e False is_last m)"
    and "same_setting m (on_voice_end e False is_last m)"
    and "data_buf_start_frame (on_voice_end e False is_last m)
           \<le> max (latest_confirmed_speech_frame m + 1) e + 1"
    and "shift_of m \<le> data_buf_size (on_voice_end e False is_last m)"
    and "chain_end 0 (output_data_buf (on_voice_end e False is_last m)) = (e + 1) * frame_in_ms (opts m)"
proof -
  define b where "b = max (latest_confirmed_speech_frame m + 1) e"
  have b: "latest_confirmed_speech_frame m + 1 \<le> b" "e \<le> b"
    "b \<le> max (latest_confirmed_speech_frame m) e + 1" by (auto simp: b_def)
  have range: "voice_detected_range (latest_confirmed_speech_frame m + 1) e m
      = voice_detected_range (latest_confirmed_speech_frame m + 1) b m"
    by (simp add: b_def max_def voice_detected_range_def)
  have "buf_ok b m" using buf_ok_mono[OF buf b(3)] .
  from range_extends[OF op this b(1)] obtain sz where sz: "shift_of m \<le> sz"
    and r: "voice_detected_range (latest_confirmed_speech_frame m + 1) e m = extend_to b sz m"
    by (auto simp: range)
  let ?m = "(extend_to b sz m)\<lparr>confirmed_end_frame := e, sil_frame := 0\<rparr>"
  have cov: "(e + 1) * shift_of m \<le> data_buf_all_size m"
    using buf_ok_mono[OF buf, of "e + 1"] by (simp add: buf_ok_def)
  obtain sz' where sz': "shift_of m \<le> sz'"
    and p: "pop_data_to_output_buf e 1 False True is_last ?m = ?m\<lparr>
      data_buf_start_frame := max b e + 1, data_buf_size := sz',
      output_data_buf := mark_segment ((e + 1) * frame_in_ms (opts m)) True (output_data_buf ?m)\<rparr>"
    using pop_output_spec[of ?m e True is_last] buf sz cov by (auto simp: buf_ok_def)
  have ov: "on_voice_end e False is_last m = ?m\<lparr>
      data_buf_start_frame := b + 1, data_buf_size := sz',
      output_data_buf := mark_segment ((e + 1) * frame_in_ms (opts m)) True (output_data_buf m),
      number_end_time_detected := number_end_time_detected m + 1\<rparr>"
    using p b by (simp add: on_voice_end_def r Let_def extend_to_def max_def)
  obtain ss cur' where o: "output_data_buf m = ss @ [cur']" "all_complete ss" "seg_chain 0 (ss @ [cur'])"
    "contain_seg_start_point cur'" "start_ms cur' = confirmed_start_frame m * frame_in_ms (opts m)"
    using op by (auto simp: open_segs_def)
  have ms: "0 < frame_in_ms (opts m)" using buf by (simp add: buf_ok_def)
  have "confirmed_start_frame m * frame_in_ms (opts m) < (e + 1) * frame_in_ms (opts m)"
    "(e + 1) * frame_in_ms (opts m) \<le> (b + 1) * frame_in_ms (opts m)"
    using e b ms by simp_all
  then show "closed_segs (on_voice_end e False is_last m)"
    using o by (auto simp: ov closed_segs_def all_complete_def segment_complete_def)
  show "same_setting m (on_voice_end e False is_last m)"
    using open_segs_mark_done[OF op] by (simp add: ov same_setting_def)
  show "data_buf_start_frame (on_voice_end e False is_last m)
       \<le> max (latest_confirmed_speech_frame m + 1) e + 1"
    "shift_of m \<le> data_buf_size (on_voice_end e False is_last m)"
    "chain_end 0 (output_data_buf (on_voice_end e False is_last m)) = (e + 1) * frame_in_ms (opts m)"
    using sz' by (simp_all add: ov b_def o)
qed

lemma on_voice_end_spec:
  assumes op: "open_segs m" and buf: "buf_ok (cur + 1) m"
    and e: "confirmed_start_frame m \<le> e" "e \<le> cur" and l: "latest_confirmed_speech_frame m < cur"
  shows "closed_segs (on_voice_end e False is_last m)"
    and "same_setting m (on_voice_end e False is_last m)"
    and "data_buf_start_frame (on_voice_end e False is_last m) \<le> cur + 1"
    and "shift_of m \<le> data_buf_size (on_voice_end e False is_last m)"
proof -
  have "buf_ok (max (latest_confirmed_speech_frame m) e + 1) m"
    using buf_ok_mono[OF buf] e l by simp
  from on_voice_end_gen[OF op this e(1), of is_last] e l
  show "closed_segs (on_voice_end e False is_last m)"
    "same_setting m (on_voice_end e False is_last m)"
    "data_buf_start_frame (on_voice_end e False is_last m) \<le> cur + 1"
    "shift_of m \<le> data_buf_size (on_voice_end e False is_last m)" by auto
qed

section \<open>One frame\<close>

text \<open>What holds of the segments when the frames before \<^term>\<open>k\<close> have been processed.\<close>

definition frame_inv :: "int \<Rightarrow> 'f e2e_vad \<Rightarrow> bool" where
  "frame_inv k m \<longleftrightarrow> shift_of m \<le> data_buf_size m \<and> 0 \<le> data_buf_start_frame m \<and>
     (case state_machine m of
        InSpeechSegment \<Rightarrow> open_segs m \<and> latest_confirmed_speech_frame m < k \<and>
          0 \<le> continous_silence_frame_count m \<and>
          confirmed_start_frame m + continous_silence_frame_count m < k
      | StartPointNotDetected \<Rightarrow> closed_segs m \<and> 0 \<le> latest_confirmed_speech_frame m \<and>
          data_buf_start_frame m + win_sum (windows_detector m) \<le> k
      | EndPointDetected \<Rightarrow> closed_segs m \<and> data_buf_start_frame m \<le> k)"

definition frame_step :: "int \<Rightarrow> 'f e2e_vad \<Rightarrow> 'f e2e_vad \<Rightarrow> bool" where
  "frame_step cur m m' \<longleftrightarrow> frame_inv (cur + 1) m' \<and> same_setting m m'"

lemma closed_segs_start_nonneg: "closed_segs m \<Longrightarrow> 0 < frame_in_ms (opts m) \<Longrightarrow> 0 \<le> data_buf_start_frame m"
  using seg_chain_end_ge[of 0 "output_data_buf m"]
  by (auto simp: closed_segs_def zero_le_mult_iff dest: order_trans)

lemma closed_segs_cong:
  "output_data_buf m' = output_data_buf m \<Longrightarrow> opts m' = opts m \<Longrightarrow>
   data_buf_start_frame m \<le> data_buf_start_frame m' \<Longrightarrow> 0 < frame_in_ms (opts m) \<Longrightarrow>
   closed_segs m \<Longrightarrow> closed_segs m'"
  by (auto simp: closed_segs_def intro: order_trans mult_right_mono)

lemma segs_other_fields [simp]:
  "open_segs (m\<lparr>continous_silence_frame_count := n\<rparr>) = open_segs m"
  "open_segs (m\<lparr>pre_end_silence_detected := p\<rparr>) = open_segs m"
  "open_segs (m\<lparr>max_time_out := p\<rparr>) = open_segs m"
  "open_segs (m\<lparr>state_machine := st\<rparr>) = open_segs m"
  "open_segs (m\<lparr>windows_detector := w\<rparr>) = open_segs m"
  "closed_segs (m\<lparr>continous_silence_frame_count := n\<rparr>) = closed_segs m"
  "closed_segs (m\<lparr>pre_end_silence_detected := p\<rparr>) = closed_segs m"
  "closed_segs (m\<lparr>state_machine := st\<rparr>) = closed_segs m"
  "closed_segs (m\<lparr>windows_detector := w\<rparr>) = closed_segs m"
  "open_segs (m\<lparr>data_buf_size := sz\<rparr>) = open_segs m"
  "open_segs (m\<lparr>data_buf_all_size := a\<rparr>) = open_segs m"
  "open_segs (m\<lparr>noise_average_decibel := x\<rparr>) = open_segs m"
  "open_segs (m\<lparr>decibel := ds\<rparr>) = open_segs m"
  "open_segs (m\<lparr>max_end_sil_frame_cnt_thresh := h\<rparr>) = open_segs m"
  "open_segs (m\<lparr>nn_eval_block_size := b\<rparr>) = open_segs m"
  "open_segs (m\<lparr>frm_cnt := c\<rparr>) = open_segs m"
  "open_segs (m\<lparr>idx_pre_chunk := i\<rparr>) = open_segs m"
  "open_segs (m\<lparr>output_data_buf_offset := off\<rparr>) = open_segs m"
  "closed_segs (m\<lparr>data_buf_size := sz\<rparr>) = closed_segs m"
  "closed_segs (m\<lparr>data_buf_all_size := a\<rparr>) = closed_segs m"
  "closed_segs (m\<lparr>noise_average_decibel := x\<rparr>) = closed_segs m"
  "closed_segs (m\<lparr>decibel := ds\<rparr>) = closed_segs m"
  "closed_segs (m\<lparr>max_end_sil_frame_cnt_thresh := h\<rparr>) = closed_segs m"
  "closed_segs (m\<lparr>nn_eval_block_size := b\<rparr>) = closed_segs m"
  "closed_segs (m\<lparr>frm_cnt := c\<rparr>) = closed_segs m"
  "closed_segs (m\<lparr>idx_pre_chunk := i\<rparr>) = closed_segs m"
  "closed_segs (m\<lparr>output_data_buf_offset := off\<rparr>) = closed_segs m"
  by (simp_all add: open_segs_def closed_segs_def)

text \<open>A segment is open and frame \<^term>\<open>cur\<close> comes next.\<close>

definition in_speech :: "int \<Rightarrow> 'f e2e_vad \<Rightarrow> bool" where
  "in_speech cur m \<longleftrightarrow> state_machine m = InSpeechSegment \<and> open_segs m \<and> buf_ok (cur + 1) m \<and>
     latest_confirmed_speech_frame m < cur \<and> 0 \<le> continous_silence_frame_count m \<and>
     confirmed_start_frame m + continous_silence_frame_count m \<le> cur"

lemma in_speech_start: "in_speech cur m \<Longrightarrow> confirmed_start_frame m \<le> cur"
  by (simp add: in_speech_def)

lemma end_segment_step:
  assumes "in_speech cur m" "confirmed_start_frame m \<le> e" "e \<le> cur"
  shows "frame_step cur m ((on_voice_end e False is_last m)\<lparr>state_machine := EndPointDetected\<rparr>)"
proof -
  note v = on_voice_end_spec[of m cur e is_last]
  have pre: "open_segs m" "buf_ok (cur + 1) m" "latest_confirmed_speech_frame m < cur"
    and ms: "0 < frame_in_ms (opts m)"
    using assms(1) by (auto simp: in_speech_def buf_ok_def)
  note v = v[OF pre(1,2) assms(2,3) pre(3)]
  have o: "opts (on_voice_end e False is_last m) = opts m" using v(2) by (simp add: same_setting_def)
  have c: "closed_segs ((on_voice_end e False is_last m)\<lparr>state_machine := EndPointDetected\<rparr>)"
    using v(1) by (simp add: closed_segs_def)
  then show ?thesis
    using v(2-4) closed_segs_start_nonneg[OF c] ms o by (auto simp: frame_step_def frame_inv_def same_setting_def)
qed

lemma voice_detected_step:
  assumes "in_speech cur m"
    and "confirmed_start_frame m + continous_silence_frame_count m \<le> cur"
  shows "frame_step cur m (on_voice_detected cur m)"
proof -
  have cov: "(cur + 1) * shift_of m \<le> data_buf_all_size m" "data_buf_start_frame m \<le> cur"
    "output_data_buf m \<noteq> []" "0 < frame_in_ms (opts m)"
    using assms(1) open_segs_nonempty[of m] by (auto simp: in_speech_def buf_ok_def open_segs_def)
  obtain sz where sz: "shift_of m \<le> sz" and d: "on_voice_detected cur m = extend_to (cur + 1) sz m"
    using on_voice_detected_spec[of m cur] assms(1) cov by (auto simp: in_speech_def buf_ok_def)
  have "open_segs (extend_to (cur + 1) sz m)"
    using open_segs_extend[of m "cur + 1" sz] assms(1) cov by (simp add: in_speech_def)
  moreover have "0 \<le> cur" using assms(1) by (auto simp: in_speech_def open_segs_def)
  ultimately show ?thesis using sz assms
    by (simp add: frame_step_def frame_inv_def same_setting_def d in_speech_def open_segs_mark_done)
qed

lemma voice_or_final_step:
  assumes "in_speech cur m"
  shows "frame_step cur m (voice_or_final cur fin m)"
  using voice_detected_step[OF assms] end_segment_step[OF assms in_speech_start[OF assms], of True] assms
  by (auto simp: voice_or_final_def maybe_on_voice_end_if_last_frame_def in_speech_def)

lemma end_segment_at_step:
  assumes "in_speech cur m" "confirmed_start_frame m \<le> e" "e \<le> cur"
  shows "frame_step cur m (end_segment_at e m)"
  using end_segment_step[OF assms] by (simp add: end_segment_at_def)

lemma in_speech_reset:
  assumes "in_speech cur m" "0 \<le> n" "confirmed_start_frame m + n \<le> cur"
  shows "in_speech cur (m\<lparr>continous_silence_frame_count := n\<rparr>)"
  using assms by (auto simp: in_speech_def buf_ok_def)

lemma frame_step_cong:
  "same_setting m1 m2 \<Longrightarrow> frame_step cur m2 m' \<Longrightarrow> frame_step cur m1 m'"
  by (auto simp: frame_step_def same_setting_def)

lemma on_speech2sil_step:
  assumes "in_speech cur m"
  shows "frame_step cur m (on_speech2sil cur fin m)"
proof -
  let ?m = "m\<lparr>continous_silence_frame_count := 0\<rparr>"
  have i: "in_speech cur ?m" using assms by (intro in_speech_reset) (auto simp: in_speech_def)
  have "frame_step cur ?m (on_speech2sil cur fin m)"
    using i end_segment_at_step[OF i in_speech_start[OF i]] voice_or_final_step[OF i, of fin]
    by (auto simp: on_speech2sil_def Let_def in_speech_def)
  then show ?thesis by (rule frame_step_cong[rotated]) (simp add: same_setting_def)
qed

lemma on_speech2speech_step:
  assumes "in_speech cur m"
  shows "frame_step cur m (on_speech2speech cur fin m)"
proof -
  let ?m = "m\<lparr>continous_silence_frame_count := 0\<rparr>"
  have i: "in_speech cur ?m" using assms by (intro in_speech_reset) (auto simp: in_speech_def)
  have j: "in_speech cur (?m\<lparr>max_time_out := True\<rparr>)"
    using i by (auto simp: in_speech_def buf_ok_def)
  have "frame_step cur ?m (on_speech2speech cur fin m)"
    using i frame_step_cong[OF _ end_segment_at_step[OF j in_speech_start[OF j]], of ?m]
      voice_or_final_step[OF i, of fin]
    by (auto simp: on_speech2speech_def Let_def in_speech_def same_setting_def)
  then show ?thesis by (rule frame_step_cong[rotated]) (simp add: same_setting_def)
qed

lemma on_sil2speech_open_step:
  assumes "in_speech cur m"
  shows "frame_step cur m (on_sil2speech cur fin m)"
proof -
  let ?m = "m\<lparr>continous_silence_frame_count := 0, pre_end_silence_detected := False\<rparr>"
  have i: "in_speech cur ?m"
    using in_speech_reset[OF assms, of 0] assms
    by (auto simp: in_speech_def buf_ok_def)
  have "buf_ok cur ?m" using i buf_ok_mono[of "cur + 1" ?m cur] by (simp add: in_speech_def)
  moreover have "open_segs ?m" "latest_confirmed_speech_frame ?m + 1 \<le> cur"
    "data_buf_start_frame ?m \<le> cur" "0 < frame_in_ms (opts ?m)"
    using i by (auto simp: in_speech_def open_segs_def buf_ok_def)
  ultimately obtain sz where sz: "shift_of m \<le> sz"
    and r: "voice_detected_range (latest_confirmed_speech_frame ?m + 1) cur ?m = extend_to cur sz ?m"
    and op: "open_segs (extend_to cur sz ?m)"
    using range_extends[of ?m cur] open_segs_extend[of ?m cur] by auto
  have j: "in_speech cur (extend_to cur sz ?m)"
    using i op sz by (auto simp: in_speech_def buf_ok_def)
  have "frame_step cur (extend_to cur sz ?m) (on_sil2speech cur fin m)"
    using i r end_segment_at_step[OF j in_speech_start[OF j]] voice_or_final_step[OF j, of fin]
    by (auto simp: on_sil2speech_def Let_def in_speech_def)
  then show ?thesis
    by (rule frame_step_cong[rotated]) (use i open_segs_mark_done[of m] in
      \<open>simp add: same_setting_def in_speech_def\<close>)
qed

lemma latency_updates [simp]:
  "latency_frm_num_at_start_point (m\<lparr>continous_silence_frame_count := n\<rparr>) = latency_frm_num_at_start_point m"
  "latency_frm_num_at_start_point (m\<lparr>pre_end_silence_detected := p\<rparr>) = latency_frm_num_at_start_point m"
  by (simp_all add: latency_frm_num_at_start_point_def)

lemma on_sil2speech_start_step:
  assumes st: "state_machine m = StartPointNotDetected" and cl: "closed_segs m"
    and buf: "buf_ok (cur + 1) m" and dbs: "0 \<le> data_buf_start_frame m" "data_buf_start_frame m < cur"
    and lat: "0 < latency_frm_num_at_start_point m"
  shows "frame_step cur m (on_sil2speech cur fin m)"
proof -
  define sf where "sf = max (data_buf_start_frame m) (cur - latency_frm_num_at_start_point m)"
  let ?ms = "frame_in_ms (opts m)"
  let ?m = "m\<lparr>continous_silence_frame_count := 0, pre_end_silence_detected := False,
             confirmed_start_frame := sf\<rparr>"
  let ?seg = "\<lparr>start_ms = sf * ?ms, end_ms = (sf + 1) * ?ms, contain_seg_start_point = True,
               contain_seg_end_point = False\<rparr>"
  have sf: "0 \<le> sf" "data_buf_start_frame m \<le> sf" "sf < cur" using dbs lat by (auto simp: sf_def)
  have ms: "0 < ?ms" using buf by (simp add: buf_ok_def)
  have "(sf + 1) * shift_of m \<le> data_buf_all_size m"
    using buf_ok_mono[OF buf, of "sf + 1"] sf by (simp add: buf_ok_def)
  then obtain sz where sz: "shift_of m \<le> sz" and p: "pop_data_buf_till_frame sf ?m =
      ?m\<lparr>data_buf_start_frame := sf, data_buf_size := sz\<rparr>"
    using pop_till_spec[of ?m sf] buf sf by (auto simp: buf_ok_def)
  let ?m1 = "?m\<lparr>data_buf_start_frame := sf + 1, data_buf_size := sz,
      output_data_buf := output_data_buf m @ [?seg], state_machine := InSpeechSegment\<rparr>"
  have start: "(on_voice_start sf False (m\<lparr>continous_silence_frame_count := 0,
       pre_end_silence_detected := False\<rparr>))\<lparr>state_machine := InSpeechSegment\<rparr> = ?m1"
    using st p by (simp add: on_voice_start_def pop_data_to_output_buf_def Let_def)
  obtain sz' where sz': "shift_of m \<le> sz'"
    and r: "voice_detected_range (sf + 1) (cur + 1) ?m1 = extend_to (cur + 1) sz' ?m1"
    using voice_detected_range_spec[of "sf + 1" "cur + 1" ?m1] sf buf sz by (auto simp: buf_ok_def)
  have res: "on_sil2speech cur fin m = extend_to (cur + 1) sz' ?m1"
  proof -
    have "on_sil2speech cur fin m = voice_detected_range (sf + 1) (cur + 1)
        ((on_voice_start sf False (m\<lparr>continous_silence_frame_count := 0,
           pre_end_silence_detected := False\<rparr>))\<lparr>state_machine := InSpeechSegment\<rparr>)"
      using st by (simp add: on_sil2speech_def Let_def sf_def latency_updates)
    then show ?thesis unfolding start r .
  qed
  have "chain_end 0 (output_data_buf m) \<le> data_buf_start_frame m * ?ms"
    using cl by (simp add: closed_segs_def)
  also have "\<dots> \<le> sf * ?ms" using sf ms by (intro mult_right_mono) auto
  finally have "chain_end 0 (output_data_buf m) \<le> sf * ?ms" .
  moreover have "sf * ?ms < (cur + 1) * ?ms" using sf ms by simp
  ultimately have "open_segs (extend_to (cur + 1) sz' ?m1)"
    using cl sf by (simp add: open_segs_def closed_segs_def)
  then show ?thesis using sf sz'
    by (simp add: res frame_step_def frame_inv_def same_setting_def segment_complete_def)
qed

lemma end_lookback_le:
  assumes "do_extend (opts m)" "0 < frame_in_ms (opts m)" "0 \<le> lookahead_time_end_point (opts m)"
    and "0 \<le> n" "max_end_sil_frame_cnt_thresh m \<le> n * frame_in_ms (opts m)"
  shows "0 \<le> end_lookback_frames m" "end_lookback_frames m \<le> n"
  using idiv_le_count[OF assms(2,4,5)] assms
    idiv_nonneg_result[of "lookahead_time_end_point (opts m)" "frame_in_ms (opts m)"]
  by (auto simp: end_lookback_frames_def Let_def)

lemma on_sil2sil_open_step:
  assumes i: "in_speech cur m" and c: "vad_cfg_ok (opts m)"
    and s: "confirmed_start_frame m + continous_silence_frame_count m < cur"
  shows "frame_step cur m (on_sil2sil cur fin m)"
proof -
  let ?n = "continous_silence_frame_count m + 1"
  let ?m = "m\<lparr>continous_silence_frame_count := ?n\<rparr>"
  have j: "in_speech cur ?m" using i s by (intro in_speech_reset) (auto simp: in_speech_def)
  have cfg: "do_extend (opts m)" "0 < frame_in_ms (opts m)" "0 \<le> lookahead_time_end_point (opts m)"
    and n: "0 \<le> ?n"
    using c i by (auto simp: vad_cfg_ok_def in_speech_def)
  have late: "frame_step cur ?m (end_segment_at (cur - end_lookback_frames ?m) ?m)"
    if "max_end_sil_frame_cnt_thresh m \<le> ?n * frame_in_ms (opts m)"
    using end_lookback_le[of ?m ?n] that cfg n s by (intro end_segment_at_step[OF j]) auto
  have keep: "frame_step cur ?m ?m"
    using j s by (auto simp: frame_step_def frame_inv_def in_speech_def same_setting_def buf_ok_def
        open_segs_def)
  have "frame_step cur ?m (on_sil2sil cur fin m)"
    using j cfg late keep end_segment_at_step[OF j in_speech_start[OF j]]
      voice_detected_step[OF j] voice_or_final_step[OF j, of True]
    by (auto simp: on_sil2sil_def Let_def in_speech_def voice_or_final_def)
  then show ?thesis by (rule frame_step_cong[rotated]) (simp add: same_setting_def)
qed

lemma on_silence_detected_spec:
  assumes "buf_ok (v + 1) m" "state_machine m = StartPointNotDetected"
  shows "\<exists>sz. shift_of m \<le> sz \<and> on_silence_detected v m = m\<lparr>lastest_confirmed_silence_frame := v,
           data_buf_start_frame := max (data_buf_start_frame m) v, data_buf_size := sz\<rparr>"
  using pop_till_spec[of "m\<lparr>lastest_confirmed_silence_frame := v\<rparr>" v] assms
  by (auto simp: on_silence_detected_def buf_ok_def)

text \<open>No segment is open and the data is not popped beyond frame \<^term>\<open>k\<close>.\<close>

definition quiet :: "int \<Rightarrow> int \<Rightarrow> 'f e2e_vad \<Rightarrow> bool" where
  "quiet cur k m \<longleftrightarrow> state_machine m = StartPointNotDetected \<and> closed_segs m \<and>
     buf_ok (cur + 1) m \<and> 0 \<le> data_buf_start_frame m \<and> data_buf_start_frame m \<le> k \<and>
     0 \<le> latest_confirmed_speech_frame m"

lemma on_silence_detected_quiet:
  assumes q: "quiet cur k m" and v: "v \<le> cur" "v \<le> k"
  shows "quiet cur k (on_silence_detected v m) \<and> same_setting m (on_silence_detected v m)"
proof -
  have "buf_ok (v + 1) m" using q v buf_ok_mono[of "cur + 1" m "v + 1"] by (simp add: quiet_def)
  then obtain sz where sz: "shift_of m \<le> sz" and d: "on_silence_detected v m =
      m\<lparr>lastest_confirmed_silence_frame := v,
         data_buf_start_frame := max (data_buf_start_frame m) v, data_buf_size := sz\<rparr>"
    using on_silence_detected_spec[of v m] q by (auto simp: quiet_def)
  have "closed_segs (on_silence_detected v m)"
    by (rule closed_segs_cong[of "on_silence_detected v m" m])
       (use q in \<open>simp_all add: d quiet_def buf_ok_def\<close>)
  moreover have "buf_ok (cur + 1) (on_silence_detected v m)"
    using q sz by (simp add: d quiet_def buf_ok_def)
  ultimately show ?thesis using q v by (auto simp: quiet_def d same_setting_def)
qed

lemma fold_silence_quiet:
  "quiet cur k m \<Longrightarrow> \<forall>v \<in> set vs. v \<le> cur \<and> v \<le> k \<Longrightarrow>
   quiet cur k (fold on_silence_detected vs m) \<and> same_setting m (fold on_silence_detected vs m)"
proof (induction vs arbitrary: m)
  case Nil
  then show ?case by (simp add: same_setting_def)
next
  case (Cons v vs)
  from on_silence_detected_quiet[OF Cons.prems(1), of v] Cons.prems(2)
  have "quiet cur k (on_silence_detected v m)" "same_setting m (on_silence_detected v m)" by auto
  moreover from Cons.IH[OF calculation(1)] Cons.prems(2)
  have "quiet cur k (fold on_silence_detected vs (on_silence_detected v m))"
    "same_setting (on_silence_detected v m) (fold on_silence_detected vs (on_silence_detected v m))"
    by auto
  ultimately show ?case by (auto intro: same_setting_trans)
qed

lemma fake_end_step:
  assumes "quiet cur (cur + 1) m"
  shows "frame_step cur m ((on_voice_end 0 True False (on_voice_start 0 True m))
           \<lparr>state_machine := EndPointDetected\<rparr>)"
proof -
  have "on_voice_end 0 True False (on_voice_start 0 True m)
      = m\<lparr>confirmed_start_frame := 0, confirmed_end_frame := 0,
           number_end_time_detected := number_end_time_detected m + 1\<rparr>"
    using assms by (simp add: on_voice_end_def on_voice_start_def voice_detected_range_def quiet_def)
  then show ?thesis using assms
    by (auto simp: frame_step_def frame_inv_def quiet_def same_setting_def buf_ok_def closed_segs_def)
qed

lemma on_sil2sil_start_step:
  assumes st: "quiet cur cur m" and c: "detect_mode (opts m) = 1"
    and sum: "data_buf_start_frame m + win_sum (windows_detector m) \<le> cur + 1"
    and lat: "win_sum (windows_detector m) \<le> latency_frm_num_at_start_point m" "0 \<le> latency_frm_num_at_start_point m"
  shows "frame_step cur m (on_sil2sil cur fin m)"
proof -
  let ?n = "continous_silence_frame_count m + 1"
  let ?m = "m\<lparr>continous_silence_frame_count := ?n\<rparr>"
  let ?k = "cur - latency_frm_num_at_start_point m"
  have q: "quiet cur cur ?m" using st by (simp add: quiet_def buf_ok_def)
  let ?vs = "[lastest_confirmed_silence_frame m + 1..cur - 1]"
  have f: "quiet cur cur (fold on_silence_detected ?vs ?m)"
    and fs: "same_setting ?m (fold on_silence_detected ?vs ?m)"
    using fold_silence_quiet[OF q, of ?vs] by auto
  have "quiet cur (cur + 1) (fold on_silence_detected ?vs ?m)" using f by (auto simp: quiet_def)
  from frame_step_cong[OF fs fake_end_step[OF this]]
  have fake: "frame_step cur ?m ((on_voice_end 0 True False (on_voice_start 0 True
      (fold on_silence_detected ?vs ?m)))\<lparr>state_machine := EndPointDetected\<rparr>)" .
  have late: "frame_step cur ?m (on_silence_detected ?k ?m)"
  proof -
    have "quiet cur (max (data_buf_start_frame m) ?k) ?m" using q by (auto simp: quiet_def)
    from on_silence_detected_quiet[OF this, of ?k] lat(2)
    show ?thesis using sum lat
      by (auto simp: frame_step_def frame_inv_def quiet_def same_setting_def buf_ok_def)
  qed
  have keep: "frame_step cur ?m ?m"
    using q sum by (auto simp: frame_step_def frame_inv_def quiet_def same_setting_def buf_ok_def)
  have "frame_step cur ?m (on_sil2sil cur fin m)"
    using st c fake late keep by (auto simp: on_sil2sil_def Let_def quiet_def)
  then show ?thesis by (rule frame_step_cong[rotated]) (simp add: same_setting_def)
qed

section \<open>Every frame keeps the invariant\<close>

definition vad_inv :: "int \<Rightarrow> 'f e2e_vad \<Rightarrow> bool" where
  "vad_inv k m \<longleftrightarrow> vad_cfg_ok (opts m) \<and> window_wf (windows_detector m) \<and>
     2 \<le> sil_to_speech_frmcnt_thres (windows_detector m) \<and>
     state_machine m \<noteq> EndPointDetected \<and> frame_inv k m"

lemma window_sum_bounds: "window_wf w \<Longrightarrow> 0 \<le> win_sum w \<and> win_sum w \<le> win_size_frame w"
proof -
  have "set xs \<subseteq> {0, 1} \<Longrightarrow> 0 \<le> sum_list xs \<and> sum_list xs \<le> int (length xs)" for xs :: "int list"
    by (induction xs) auto
  from this[of "win_state w"] show "window_wf w \<Longrightarrow> ?thesis" by (auto simp: window_wf_def)
qed

lemma window_reset_wf: "window_wf w \<Longrightarrow> window_wf (window_reset w)"
  by (auto simp: window_wf_def window_reset_def sum_list_replicate)

text \<open>What a frame leaves alone, the window detector aside.\<close>

definition same_feed :: "'f e2e_vad \<Rightarrow> 'f e2e_vad \<Rightarrow> bool" where
  "same_feed m m' \<longleftrightarrow> opts m' = opts m \<and> frm_cnt m' = frm_cnt m \<and>
     data_buf_all_size m' = data_buf_all_size m \<and>
     output_data_buf_offset m' = output_data_buf_offset m \<and> idx_pre_chunk m' = idx_pre_chunk m \<and>
     (\<exists>rest. done_of (output_data_buf m') = done_of (output_data_buf m) @ rest)"

lemma same_feed_refl [simp]: "same_feed m m"
  by (simp add: same_feed_def)

lemma same_feed_trans: "same_feed a b \<Longrightarrow> same_feed b c \<Longrightarrow> same_feed a c"
  by (auto simp: same_feed_def)

lemma detect_one_frame_inv:
  assumes inv: "vad_inv cur m" and cov: "(cur + 1) * shift_of m \<le> data_buf_all_size m"
  shows "\<exists>m'. detect_one_frame F s cur fin m = Inr m' \<and> vad_inv (cur + 1) m' \<and>
    same_feed m m'"
proof -
  let ?w = "windows_detector m"
  have wf: "window_wf ?w" and cfg: "vad_cfg_ok (opts m)" using inv by (auto simp: vad_inv_def)
  obtain c w where det: "window_detect_one_frame (effective_frame_state F (opts m) s) ?w = Inr (c, w)"
    and w: "window_wf w" "win_size_frame w = win_size_frame ?w"
      "sil_to_speech_frmcnt_thres w = sil_to_speech_frmcnt_thres ?w" "win_sum w \<le> win_sum ?w + 1"
    and hy: "hysteresis (sil_to_speech_frmcnt_thres ?w) (speech_to_sil_frmcnt_thres ?w)
       (pre_frame_state ?w) (win_sum w) = (c, pre_frame_state w)"
    by (rule window_detect_spec[OF wf])
  let ?m = "m\<lparr>windows_detector := w\<rparr>"
  let ?r = "on_state_change c cur fin ?m"
  have change: "c = Sil2Speech \<Longrightarrow> 2 \<le> win_sum w" "c \<noteq> Invalid" "c \<noteq> NoBegin"
    using hy inv by (auto simp: hysteresis_def vad_inv_def split: if_splits)
  have buf: "buf_ok (cur + 1) ?m"
    using inv cov by (auto simp: buf_ok_def vad_inv_def frame_inv_def vad_cfg_ok_def)
  have lb: "0 \<le> idiv (lookback_time_start_point (opts m)) (frame_in_ms (opts m))"
    using cfg by (intro idiv_nonneg_result) (auto simp: vad_cfg_ok_def)
  have lat: "0 < latency_frm_num_at_start_point ?m" "win_sum w \<le> latency_frm_num_at_start_point ?m"
    using lb w(1) window_sum_bounds[OF w(1)]
    by (auto simp: latency_frm_num_at_start_point_def window_wf_def)
  have step: "frame_step cur ?m ?r"
  proof (cases "state_machine m")
    case StartPointNotDetected
    then have i: "closed_segs ?m" "0 \<le> data_buf_start_frame m" "0 \<le> latest_confirmed_speech_frame m"
      "data_buf_start_frame m + win_sum ?w \<le> cur"
      using inv by (auto simp: vad_inv_def frame_inv_def)
    have q: "quiet cur cur ?m"
      using i buf StartPointNotDetected window_sum_bounds[OF wf] by (simp add: quiet_def)
    have idle: "frame_step cur ?m (?m\<lparr>continous_silence_frame_count := 0\<rparr>)"
      using q i w(4) by (auto simp: frame_step_def frame_inv_def quiet_def same_setting_def buf_ok_def)
    have "data_buf_start_frame m < cur" if "c = Sil2Speech" using change(1)[OF that] w(4) i(4) by simp
    then show ?thesis
      using on_sil2speech_start_step[of ?m cur fin] on_sil2sil_start_step[OF q, of fin]
        StartPointNotDetected i buf lat w(4) cfg change idle
      by (auto simp: on_state_change_def on_speech2sil_def on_speech2speech_def vad_cfg_ok_def
          split: audio_change_state.splits)
  next
    case InSpeechSegment
    then have i: "in_speech cur ?m"
      and s: "confirmed_start_frame ?m + continous_silence_frame_count ?m < cur"
      using inv buf by (auto simp: vad_inv_def frame_inv_def in_speech_def)
    show ?thesis
      using on_sil2speech_open_step[OF i] on_speech2sil_step[OF i] on_speech2speech_step[OF i]
        on_sil2sil_open_step[OF i _ s] cfg change
      by (auto simp: on_state_change_def split: audio_change_state.splits)
  next
    case EndPointDetected
    then show ?thesis using inv by (simp add: vad_inv_def)
  qed
  have keep: "opts ?r = opts m" "windows_detector ?r = w" "frm_cnt ?r = frm_cnt m"
    "data_buf_all_size ?r = data_buf_all_size m"
    "output_data_buf_offset ?r = output_data_buf_offset m" "idx_pre_chunk ?r = idx_pre_chunk m"
    and feed: "same_feed m ?r"
    using step by (auto simp: frame_step_def same_setting_def same_feed_def)
  let ?r' = "if state_machine ?r = EndPointDetected \<and> detect_mode (opts ?r) = 1
             then reset_detection ?r else ?r"
  have res: "detect_one_frame F s cur fin m = Inr ?r'"
    by (simp add: detect_one_frame_def det Let_def)
  have "vad_inv (cur + 1) ?r'"
  proof (cases "state_machine ?r = EndPointDetected")
    case True
    then have "closed_segs ?r" "data_buf_start_frame ?r \<le> cur + 1" "0 \<le> data_buf_start_frame ?r"
      "shift_of m \<le> data_buf_size ?r"
      using step keep by (auto simp: frame_step_def frame_inv_def)
    then show ?thesis using True keep cfg w inv window_reset_wf[OF w(1)]
      by (auto simp: vad_inv_def frame_inv_def reset_detection_def closed_segs_def vad_cfg_ok_def
          window_reset_def)
  next
    case False
    then show ?thesis using step keep cfg w inv by (auto simp: vad_inv_def frame_step_def)
  qed
  moreover have "same_feed m ?r'" using feed by (simp add: same_feed_def reset_detection_def)
  ultimately show ?thesis using res by blast
qed

section \<open>Blocks of frames\<close>

lemma get_frame_state_noise:
  "\<exists>x. snd (get_frame_state F t scores m) = m\<lparr>noise_average_decibel := x\<rparr>"
proof -
  define P where "P m' \<longleftrightarrow> (\<exists>x. m' = m\<lparr>noise_average_decibel := x\<rparr>)" for m'
  have same: "P m" unfolding P_def by (rule exI[of _ "noise_average_decibel m"]) simp
  have new: "P (m\<lparr>noise_average_decibel := y\<rparr>)" for y unfolding P_def by blast
  have "P (snd (get_frame_state F t scores m))" unfolding get_frame_state_def Let_def
    by (auto simp: same new split: option.split)
  then show ?thesis by (simp add: P_def)
qed

lemma vad_inv_noise [simp]: "vad_inv k (m\<lparr>noise_average_decibel := x\<rparr>) = vad_inv k m"
  by (simp add: vad_inv_def frame_inv_def split: vad_state_machine.splits)

lemma detect_block_frame_inv:
  assumes inv: "vad_inv (frm_cnt m - 1 - int i) m"
    and cov: "frm_cnt m * shift_of m \<le> data_buf_all_size m"
  shows "\<exists>m'. detect_block_frame F scores fin m i = Inr m' \<and> vad_inv (frm_cnt m - int i) m' \<and> same_feed m m'"
proof -
  let ?t = "frm_cnt m - 1 - int i"
  obtain s x where g: "get_frame_state F ?t scores m = (s, m\<lparr>noise_average_decibel := x\<rparr>)"
    using get_frame_state_noise[of F ?t scores m] by (metis prod.collapse)
  let ?m = "m\<lparr>noise_average_decibel := x\<rparr>"
  have "0 < shift_of m" using inv by (simp add: vad_inv_def vad_cfg_ok_def)
  then have "(?t + 1) * shift_of m \<le> frm_cnt m * shift_of m" by (intro mult_right_mono) auto
  then have "(?t + 1) * shift_of ?m \<le> data_buf_all_size ?m" using cov by simp
  from detect_one_frame_inv[OF _ this, of F s "fin \<and> i = 0"] inv
  obtain m' where "detect_one_frame F s ?t (fin \<and> i = 0) ?m = Inr m'" "vad_inv (?t + 1) m'"
    "same_feed ?m m'" by auto
  then show ?thesis using g by (auto simp: detect_block_frame_def same_feed_def)
qed

lemma detect_block_inv:
  assumes "vad_inv (frm_cnt m - int n) m" "frm_cnt m * shift_of m \<le> data_buf_all_size m"
  shows "\<exists>m'. foldM (detect_block_frame F scores fin) m (rev [0..<n]) = Inr m' \<and>
           vad_inv (frm_cnt m) m' \<and> same_feed m m'"
  using assms
proof (induction n arbitrary: m)
  case 0
  then show ?case by simp
next
  case (Suc n)
  have "vad_inv (frm_cnt m - 1 - int n) m" using Suc.prems(1) by (simp add: algebra_simps)
  from detect_block_frame_inv[OF this Suc.prems(2)]
  obtain m1 where d: "detect_block_frame F scores fin m n = Inr m1"
    and m1: "vad_inv (frm_cnt m - int n) m1" "same_feed m m1" by blast
  have "vad_inv (frm_cnt m1 - int n) m1" "frm_cnt m1 * shift_of m1 \<le> data_buf_all_size m1"
    using m1 Suc.prems(2) by (auto simp: same_feed_def)
  from Suc.IH[OF this] obtain m' where
    "foldM (detect_block_frame F scores fin) m1 (rev [0..<n]) = Inr m'" "vad_inv (frm_cnt m1) m'"
    "same_feed m1 m'" by blast
  then show ?case using d m1 same_feed_trans[OF m1(2)] by (auto simp: same_feed_def)
qed

section \<open>Calls\<close>

text \<open>Between two calls: everything fed so far has been processed, the samples cover the frames, and
  exactly the completed segments have been reported.\<close>

definition vad_ready :: "'f e2e_vad \<Rightarrow> bool" where
  "vad_ready m \<longleftrightarrow>
     vad_inv (frm_cnt m) (if data_buf_all_size m = 0 then m\<lparr>data_buf_size := shift_of m\<rparr> else m) \<and>
     0 \<le> frm_cnt m \<and> frm_cnt m * shift_of m \<le> data_buf_all_size m \<and>
     output_data_buf_offset m = length (done_of (output_data_buf m))"

definition reported_until :: "'f e2e_vad \<Rightarrow> nat" where
  "reported_until m = nat (chain_end 0 (done_of (output_data_buf m)))"

fun times_chain :: "nat \<Rightarrow> (nat \<times> nat) list \<Rightarrow> bool" where
  "times_chain lo [] \<longleftrightarrow> True"
| "times_chain lo ((s, e) # ts) \<longleftrightarrow> lo \<le> s \<and> s < e \<and> times_chain e ts"

definition times_end :: "nat \<Rightarrow> (nat \<times> nat) list \<Rightarrow> nat" where
  "times_end lo ts = (if ts = [] then lo else snd (last ts))"

lemma times_end_simps [simp]:
  "times_end lo [] = lo" "times_end lo (t # ts) = times_end (snd t) ts"
  by (auto simp: times_end_def)

lemma times_chain_append [simp]:
  "times_chain lo (xs @ ys) \<longleftrightarrow> times_chain lo xs \<and> times_chain (times_end lo xs) ys"
  by (induction lo xs rule: times_chain.induct) auto

lemma times_end_append [simp]: "times_end lo (xs @ ys) = times_end (times_end lo xs) ys"
  by (induction xs arbitrary: lo) auto

lemma times_of_chain:
  "seg_chain lo ss \<Longrightarrow> 0 \<le> lo \<Longrightarrow>
   times_chain (nat lo) (map segment_times ss) \<and>
   times_end (nat lo) (map segment_times ss) = nat (chain_end lo ss)"
proof (induction ss arbitrary: lo)
  case (Cons s ss)
  then have "0 \<le> start_ms s" "0 \<le> end_ms s" by auto
  with Cons show ?case by (auto simp: segment_times_def max_def)
qed simp

lemma times_chain_le_end: "times_chain lo ts \<Longrightarrow> lo \<le> times_end lo ts"
  by (induction lo ts rule: times_chain.induct) auto

lemma times_chain_bounds:
  "times_chain lo ts \<Longrightarrow> (s, e) \<in> set ts \<Longrightarrow> lo \<le> s \<and> s < e \<and> e \<le> times_end lo ts"
  by (induction lo ts rule: times_chain.induct) (force dest: times_chain_le_end)+

lemma decibel_loop_total:
  "0 < shift \<Longrightarrow> max_offset + len \<le> length waveform \<Longrightarrow>
   \<exists>ds. decibel_loop F waveform len shift max_offset offset acc = Inr ds"
proof (induction F waveform len shift max_offset offset acc rule: decibel_loop.induct)
  case (1 F waveform len shift max_offset offset acc)
  then show ?case by (subst decibel_loop.simps) (auto simp: Let_def)
qed

lemma compute_decibel_spec:
  assumes cfg: "vad_cfg_ok (opts m)" and len: "frame_sample_len (opts m) \<le> int (length waveform)"
  shows "\<exists>ds. compute_decibel F waveform m = Inr (m\<lparr>decibel := ds,
      data_buf_all_size := data_buf_all_size m + int (length waveform),
      data_buf_size := if data_buf_all_size m = 0 then int (length waveform) else data_buf_size m\<rparr>)"
proof -
  have u: "as_usize (frame_sample_len (opts m)) = nat (frame_sample_len (opts m))"
    "0 < as_usize (shift_of m)"
    using cfg by (auto simp: vad_cfg_ok_def as_usize_nonneg)
  have "saturating_sub (length waveform) (as_usize (frame_sample_len (opts m)))
      + as_usize (frame_sample_len (opts m)) \<le> length waveform"
    using len u(1) by (auto simp: saturating_sub_def)
  from decibel_loop_total[OF u(2) this, of F 0 "decibel m"] obtain ds where
    "decibel_loop F waveform (as_usize (frame_sample_len (opts m))) (as_usize (shift_of m))
       (saturating_sub (length waveform) (as_usize (frame_sample_len (opts m)))) 0 (decibel m) = Inr ds"
    by blast
  then show ?thesis by (intro exI[of _ ds]) (simp add: compute_decibel_def Let_def)
qed

lemma vad_inv_inputs [simp]:
  "vad_inv k (m\<lparr>decibel := ds\<rparr>) = vad_inv k m"
  "vad_inv k (m\<lparr>max_end_sil_frame_cnt_thresh := h\<rparr>) = vad_inv k m"
  "vad_inv k (m\<lparr>nn_eval_block_size := b\<rparr>) = vad_inv k m"
  "vad_inv k (m\<lparr>frm_cnt := c\<rparr>) = vad_inv k m"
  "vad_inv k (m\<lparr>data_buf_all_size := a\<rparr>) = vad_inv k m"
  "vad_inv k (m\<lparr>idx_pre_chunk := i\<rparr>) = vad_inv k m"
  "vad_inv k (m\<lparr>output_data_buf_offset := off\<rparr>) = vad_inv k m"
  by (simp_all add: vad_inv_def frame_inv_def split: vad_state_machine.splits)

lemma vad_inv_size:
  "vad_inv k (m\<lparr>data_buf_size := sz\<rparr>) \<Longrightarrow> shift_of m \<le> sz' \<Longrightarrow> vad_inv k (m\<lparr>data_buf_size := sz'\<rparr>)"
  by (simp add: vad_inv_def frame_inv_def split: vad_state_machine.splits)

lemma vad_inv_done:
  assumes "vad_inv k m"
  obtains tail where "output_data_buf m = done_of (output_data_buf m) @ tail" "done_of tail = []"
    "seg_chain 0 (done_of (output_data_buf m))"
    "chain_end 0 (done_of (output_data_buf m)) \<le> k * frame_in_ms (opts m)"
proof (cases "state_machine m")
  case StartPointNotDetected
  then have c: "closed_segs m" "data_buf_start_frame m + win_sum (windows_detector m) \<le> k"
    and ms: "0 < frame_in_ms (opts m)" and w: "0 \<le> win_sum (windows_detector m)"
    using assms window_sum_bounds[of "windows_detector m"]
    by (auto simp: vad_inv_def frame_inv_def vad_cfg_ok_def)
  have "data_buf_start_frame m * frame_in_ms (opts m) \<le> k * frame_in_ms (opts m)"
    using c(2) w ms by (intro mult_right_mono) auto
  then show thesis using c(1) closed_segs_done[OF c(1)]
    by (intro that[of "[]"]) (auto simp: closed_segs_def done_of_def)
next
  case InSpeechSegment
  then have o: "open_segs m" and l: "latest_confirmed_speech_frame m < k"
    and ms: "0 < frame_in_ms (opts m)"
    using assms by (auto simp: vad_inv_def frame_inv_def vad_cfg_ok_def)
  obtain ss cur where b: "output_data_buf m = ss @ [cur]" "all_complete ss" "seg_chain 0 (ss @ [cur])"
    "\<not> contain_seg_end_point cur" "end_ms cur = data_buf_start_frame m * frame_in_ms (opts m)"
    using o by (auto simp: open_segs_def)
  have "data_buf_start_frame m * frame_in_ms (opts m) \<le> k * frame_in_ms (opts m)"
    using o l ms by (intro mult_right_mono) (auto simp: open_segs_def)
  then show thesis using b
    by (intro that[of "[cur]"]) (auto simp: done_of_def all_complete_filter segment_complete_def)
next
  case EndPointDetected
  then show thesis using assms by (simp add: vad_inv_def)
qed

lemma take_segments_gen:
  assumes t: "output_data_buf m = done_of (output_data_buf m) @ tail" "done_of tail = []"
    and off: "output_data_buf_offset m = length old"
    and ext: "done_of (output_data_buf m) = old @ rest"
  shows "take_segments m = (map segment_times rest,
           m\<lparr>output_data_buf_offset := length (done_of (output_data_buf m))\<rparr>)"
proof -
  have "set rest \<subseteq> set (done_of (output_data_buf m))" using ext by simp
  then have "done_of rest = rest" by (auto simp: done_of_def intro!: filter_True)
  moreover have "drop (length old) (output_data_buf m) = rest @ tail"
    using t(1) ext by (metis append_assoc append_eq_conv_conj)
  ultimately have "filter segment_complete (drop (output_data_buf_offset m) (output_data_buf m)) = rest"
    using t(2) off by (simp add: done_of_def)
  then show ?thesis using off ext by (simp add: take_segments_def Let_def)
qed

lemma take_segments_spec:
  assumes "vad_inv k m" "output_data_buf_offset m = length old"
    and "done_of (output_data_buf m) = old @ rest"
  shows "take_segments m = (map segment_times rest,
           m\<lparr>output_data_buf_offset := length (done_of (output_data_buf m))\<rparr>)"
  by (rule vad_inv_done[OF assms(1)]) (rule take_segments_gen[OF _ _ assms(2,3)])

lemma all_reset_ready:
  assumes "vad_cfg_ok (opts m)" "window_wf (windows_detector m)"
    "2 \<le> sil_to_speech_frmcnt_thres (windows_detector m)"
  shows "vad_ready (all_reset_detection F m)" "opts (all_reset_detection F m) = opts m"
    "frm_cnt (all_reset_detection F m) = 0" "reported_until (all_reset_detection F m) = 0"
    "data_buf_all_size (all_reset_detection F m) = 0"
  using assms window_reset_wf[of "windows_detector m"]
  by (auto simp: vad_ready_def all_reset_detection_def reset_detection_def vad_inv_def frame_inv_def
      closed_segs_def all_complete_def done_of_def reported_until_def window_reset_def)

lemma fed_inv:
  assumes rdy: "vad_ready m" and len: "frame_sample_len (opts m) \<le> int (length waveform)"
    and cov: "int (length scores) * shift_of m \<le> int (length waveform)"
  obtains m' where "compute_decibel F waveform (m\<lparr>max_end_sil_frame_cnt_thresh := h\<rparr>) = Inr m'"
    "vad_inv (frm_cnt m) (compute_scores scores m')"
    "opts m' = opts m" "frm_cnt m' = frm_cnt m" "output_data_buf m' = output_data_buf m"
    "output_data_buf_offset m' = output_data_buf_offset m"
    "frm_cnt (compute_scores scores m') * shift_of m \<le> data_buf_all_size m'"
    "0 < data_buf_all_size m'" "idx_pre_chunk m' = idx_pre_chunk m"
proof -
  let ?m0 = "m\<lparr>max_end_sil_frame_cnt_thresh := h\<rparr>"
  have inv: "vad_inv (frm_cnt m) (if data_buf_all_size m = 0 then m\<lparr>data_buf_size := shift_of m\<rparr> else m)"
    and pos: "0 \<le> frm_cnt m" "frm_cnt m * shift_of m \<le> data_buf_all_size m"
    using rdy by (auto simp: vad_ready_def)
  have cfg: "vad_cfg_ok (opts m)" using inv by (auto simp: vad_inv_def split: if_splits)
  then have c: "0 < shift_of m" "shift_of m \<le> int (length waveform)"
    using len by (auto simp: vad_cfg_ok_def)
  have all: "0 \<le> data_buf_all_size m" using pos c(1) by (meson order_trans mult_nonneg_nonneg less_imp_le)
  have "vad_cfg_ok (opts ?m0)" "frame_sample_len (opts ?m0) \<le> int (length waveform)"
    using cfg len by simp_all
  from compute_decibel_spec[OF this, of F]
  obtain ds where d: "compute_decibel F waveform ?m0 = Inr (?m0\<lparr>decibel := ds,
      data_buf_all_size := data_buf_all_size ?m0 + int (length waveform),
      data_buf_size := if data_buf_all_size ?m0 = 0 then int (length waveform)
                       else data_buf_size ?m0\<rparr>)"
    by blast
  have i: "vad_inv (frm_cnt m) (m\<lparr>data_buf_size :=
      if data_buf_all_size m = 0 then int (length waveform) else data_buf_size m\<rparr>)"
    using inv vad_inv_size[of "frm_cnt m" "shift_of m" m "int (length waveform)"] c by auto
  show thesis
    by (rule that[OF d]) (use i pos all c cov in
      \<open>auto simp: compute_scores_def vad_inv_def frame_inv_def algebra_simps
         split: vad_state_machine.splits\<close>)
qed

end
