(* ===== verification/E2eVadCalls.thy ===== *)
theory E2eVadCalls
  imports E2eVadSegments
begin

text \<open>The entry points of \<^verbatim>\<open>e2e_vad.rs\<close>: every call returns, and over any sequence of calls the
  reported segments are non-empty, in order, disjoint and within the frames that were fed.\<close>

lemma reported_chain:
  assumes inv: "vad_inv k m'" and feed: "done_of (output_data_buf m') = old @ rest"
    and k: "0 \<le> k"
  shows "times_chain (nat (chain_end 0 old)) (map segment_times rest)"
    and "times_end (nat (chain_end 0 old)) (map segment_times rest) = reported_until m'"
    and "reported_until m' \<le> nat (k * frame_in_ms (opts m'))"
proof -
  have c: "seg_chain 0 (old @ rest)" "chain_end 0 (old @ rest) \<le> k * frame_in_ms (opts m')"
    using vad_inv_done[OF inv] feed by metis+
  then have "seg_chain (chain_end 0 old) rest" "0 \<le> chain_end 0 old"
    using seg_chain_end_ge[of 0 old] by auto
  from times_of_chain[OF this] feed c(2)
  show "times_chain (nat (chain_end 0 old)) (map segment_times rest)"
    "times_end (nat (chain_end 0 old)) (map segment_times rest) = reported_until m'"
    "reported_until m' \<le> nat (k * frame_in_ms (opts m'))"
    by (auto simp: reported_until_def nat_mono)
qed

lemma vad_inv_offset_ready:
  assumes "vad_inv (frm_cnt m) m" "0 \<le> frm_cnt m" "frm_cnt m * shift_of m \<le> data_buf_all_size m"
    "0 < data_buf_all_size m"
  shows "vad_ready (m\<lparr>output_data_buf_offset := length (done_of (output_data_buf m))\<rparr>)"
  using assms by (simp add: vad_ready_def)

lemma detect_chunk_spec:
  assumes rdy: "vad_ready m" and len: "frame_sample_len (opts m) \<le> int (length waveform)"
    and cov: "int (length scores) * shift_of m \<le> int (length waveform)"
  obtains segs m' where "detect_chunk F scores waveform fin sil m = Inr (segs, m')"
    "vad_ready m'" "opts m' = opts m" "times_chain (reported_until m) segs"
    "times_end (reported_until m) segs
       \<le> nat ((frm_cnt m + int (length scores)) * frame_in_ms (opts m))"
    "\<not> fin \<Longrightarrow> reported_until m' = times_end (reported_until m) segs"
    "\<not> fin \<Longrightarrow> frm_cnt m' = frm_cnt m + int (length scores)"
    "fin \<Longrightarrow> reported_until m' = 0" "fin \<Longrightarrow> frm_cnt m' = 0"
proof -
  let ?n = "length scores"
  obtain m3 where m3: "compute_decibel F waveform
       (m\<lparr>max_end_sil_frame_cnt_thresh := sil - speech_to_sil_time_thres (opts m)\<rparr>) = Inr m3"
    "vad_inv (frm_cnt m) (compute_scores scores m3)"
    "opts m3 = opts m" "frm_cnt m3 = frm_cnt m" "output_data_buf m3 = output_data_buf m"
    "output_data_buf_offset m3 = output_data_buf_offset m"
    "frm_cnt (compute_scores scores m3) * shift_of m \<le> data_buf_all_size m3"
    "0 < data_buf_all_size m3"
    by (rule fed_inv[OF rdy len cov])
  let ?m4 = "compute_scores scores m3"
  have m4: "opts ?m4 = opts m" "frm_cnt ?m4 = frm_cnt m + int ?n" "data_buf_all_size ?m4 = data_buf_all_size m3"
    "output_data_buf ?m4 = output_data_buf m" "output_data_buf_offset ?m4 = output_data_buf_offset m"
    using m3 by (simp_all add: compute_scores_def)
  have st: "state_machine ?m4 \<noteq> EndPointDetected" using m3(2) by (simp add: vad_inv_def)
  have "vad_inv (frm_cnt ?m4 - int ?n) ?m4" using m3(2) m4(2) by simp
  moreover have "frm_cnt ?m4 * shift_of ?m4 \<le> data_buf_all_size ?m4" using m3(7) m4 by simp
  ultimately have block: "\<exists>m5. foldM (detect_block_frame F scores f) ?m4 (rev [0..<?n]) = Inr m5 \<and>
      vad_inv (frm_cnt ?m4) m5 \<and> same_feed ?m4 m5" for f
    by (rule detect_block_inv)
  obtain m5 where d: "(if fin then detect_last_frames F scores ?m4
                       else detect_common_frames F scores ?m4) = Inr m5"
    and i5: "vad_inv (frm_cnt ?m4) m5"
    and f5: "opts m5 = opts m" "frm_cnt m5 = frm_cnt ?m4" "data_buf_all_size m5 = data_buf_all_size m3"
      "output_data_buf_offset m5 = output_data_buf_offset m"
      "\<exists>rest. done_of (output_data_buf m5) = done_of (output_data_buf m) @ rest"
  proof (cases fin)
    case True
    then show ?thesis using block[of True] st m4
      by (auto simp: detect_last_frames_def same_feed_def intro: that)
  next
    case False
    from block[of False] obtain m5 where "foldM (detect_block_frame F scores False) ?m4 (rev [0..<?n]) = Inr m5"
      "vad_inv (frm_cnt ?m4) m5" "same_feed ?m4 m5" by blast
    with False st m4 show ?thesis
      by (intro that[of "m5\<lparr>idx_pre_chunk := idx_pre_chunk m5 + int ?n\<rparr>"])
         (auto simp: detect_common_frames_def same_feed_def)
  qed
  obtain rest where rest: "done_of (output_data_buf m5) = done_of (output_data_buf m) @ rest"
    using f5(5) by blast
  have off: "output_data_buf_offset m5 = length (done_of (output_data_buf m))" and pos: "0 \<le> frm_cnt ?m4"
    using rdy f5(4) m4(2) by (simp_all add: vad_ready_def)
  note ts = take_segments_spec[OF i5 off rest]
  let ?m6 = "m5\<lparr>output_data_buf_offset := length (done_of (output_data_buf m5))\<rparr>"
  note rep = reported_chain[OF i5 rest pos, folded reported_until_def[of m]]
  have rdy6: "vad_ready ?m6" using i5 pos m3(7,8) f5 m4 by (intro vad_inv_offset_ready) simp_all
  have i6: "vad_inv (frm_cnt ?m4) ?m6" using i5 by simp
  have res: "detect_chunk F scores waveform fin sil m
      = Inr (map segment_times rest, if fin then all_reset_detection F ?m6 else ?m6)"
    using m3(1) d by (simp add: detect_chunk_def Let_def ts)
  show thesis
    by (rule that[OF res])
       (use rep rdy6 all_reset_ready[of ?m6 F] i6[unfolded vad_inv_def] f5 m4 in \<open>auto simp: reported_until_def\<close>)
qed

text \<open>The offline entry point is a final chunk on a reset detector.\<close>

lemma detect_offline_is_final_chunk:
  "detect_offline F scores waveform sil m = detect_chunk F scores waveform True sil (all_reset_detection F m)"
  by (simp add: detect_offline_def detect_chunk_def Let_def)

lemma e2e_new_ready:
  assumes cfg: "vad_cfg_ok c" "0 < idiv (window_size_ms c) (frame_in_ms c)"
    "2 \<le> idiv (sil_to_speech_time_thres c) (frame_in_ms c)"
  obtains m where "e2e_new F c = Inr m" "vad_ready m" "opts m = c" "frm_cnt m = 0"
    "reported_until m = 0"
proof -
  have "frame_in_ms c \<noteq> 0" using cfg by (simp add: vad_cfg_ok_def)
  then show thesis using cfg
    by (intro that)
      (auto simp: e2e_new_def window_new_def reset_detection_def window_reset_def vad_ready_def
        vad_inv_def window_wf_def frame_inv_def closed_segs_def all_complete_def done_of_def
        reported_until_def sum_list_replicate)
qed

lemma finalize_streaming_spec:
  assumes rdy: "vad_ready m"
  obtains segs m' where "finalize_streaming F sil m = (segs, m')" "vad_ready m'" "opts m' = opts m"
    "frm_cnt m' = 0" "reported_until m' = 0" "times_chain (reported_until m) segs"
    "times_end (reported_until m) segs \<le> nat (frm_cnt m * frame_in_ms (opts m))"
proof -
  define m1 where "m1 = m\<lparr>max_end_sil_frame_cnt_thresh := sil - speech_to_sil_time_thres (opts m)\<rparr>"
  define m2 where "m2 = (if state_machine m1 = InSpeechSegment \<and> 0 < frm_cnt m1
    then maybe_on_voice_end_if_last_frame True (frm_cnt m1 - 1) m1 else m1)"
  have size: "vad_inv k (m1\<lparr>data_buf_size := x\<rparr>) = vad_inv k (m\<lparr>data_buf_size := x\<rparr>)" for k x
    by (simp add: m1_def vad_inv_def frame_inv_def split: vad_state_machine.split)
  have m1: "data_buf_all_size m1 = data_buf_all_size m" "opts m1 = opts m" "frm_cnt m1 = frm_cnt m"
    by (simp_all add: m1_def)
  have inv: "vad_inv (frm_cnt m) (if data_buf_all_size m1 = 0 then m1\<lparr>data_buf_size := shift_of m1\<rparr> else m1)"
  proof (cases "data_buf_all_size m = 0")
    case True
    then show ?thesis using rdy by (simp add: vad_ready_def m1 size)
  next
    case False
    then show ?thesis using rdy by (simp add: vad_ready_def m1_def)
  qed
  have pos: "0 \<le> frm_cnt m" and cov: "frm_cnt m * shift_of m \<le> data_buf_all_size m"
    and off: "output_data_buf_offset m = length (done_of (output_data_buf m))"
    using rdy by (simp_all add: vad_ready_def)
  have base: "vad_cfg_ok (opts m1)" "window_wf (windows_detector m1)"
    "2 \<le> sil_to_speech_frmcnt_thres (windows_detector m1)"
    using inv by (auto simp: vad_inv_def split: if_splits)
  have ms: "0 < frame_in_ms (opts m)" "0 < shift_of m" using base(1) by (auto simp: vad_cfg_ok_def m1_def)
  obtain tail where tail: "output_data_buf m1 = done_of (output_data_buf m1) @ tail" "done_of tail = []"
    "seg_chain 0 (done_of (output_data_buf m1))"
    "chain_end 0 (done_of (output_data_buf m1)) \<le> frm_cnt m * frame_in_ms (opts m)"
  proof -
    have o: "output_data_buf (if data_buf_all_size m1 = 0 then m1\<lparr>data_buf_size := shift_of m1\<rparr> else m1)
        = output_data_buf m1"
      "opts (if data_buf_all_size m1 = 0 then m1\<lparr>data_buf_size := shift_of m1\<rparr> else m1) = opts m"
      by (simp_all add: m1)
    show thesis by (rule vad_inv_done[OF inv, unfolded o]) (rule that)
  qed
  have "\<exists>tail rest. output_data_buf m2 = done_of (output_data_buf m2) @ tail \<and> done_of tail = [] \<and>
      done_of (output_data_buf m2) = done_of (output_data_buf m) @ rest \<and>
      seg_chain 0 (done_of (output_data_buf m2)) \<and>
      chain_end 0 (done_of (output_data_buf m2)) \<le> frm_cnt m * frame_in_ms (opts m) \<and>
      opts m2 = opts m \<and> windows_detector m2 = windows_detector m \<and>
      output_data_buf_offset m2 = output_data_buf_offset m"
  proof (cases "state_machine m1 = InSpeechSegment \<and> 0 < frm_cnt m1")
    case False
    then have "m2 = m1" by (auto simp: m2_def)
    moreover have "done_of (output_data_buf m1) = done_of (output_data_buf m) @ []"
      "windows_detector m1 = windows_detector m"
      "output_data_buf_offset m1 = output_data_buf_offset m" by (simp_all add: m1_def)
    ultimately show ?thesis using tail m1(2) by blast
  next
    case True
    then have "0 < frm_cnt m" by (simp add: m1_def)
    then have "0 < frm_cnt m * shift_of m" using ms(2) by simp
    with cov have all: "data_buf_all_size m1 \<noteq> 0" by (simp add: m1_def)
    with inv True have o: "open_segs m1" "latest_confirmed_speech_frame m1 < frm_cnt m1"
      "shift_of m1 \<le> data_buf_size m1" "confirmed_start_frame m1 \<le> frm_cnt m1 - 1"
      by (auto simp: vad_inv_def frame_inv_def m1_def)
    let ?e = "frm_cnt m1 - 1" and ?r = "on_voice_end (frm_cnt m1 - 1) False True m1"
    have "buf_ok (max (latest_confirmed_speech_frame m1) ?e + 1) m1"
      using o ms cov by (simp add: buf_ok_def m1_def max_def)
    note v = on_voice_end_gen[OF o(1) this o(4), of True]
    have m2: "m2 = ?r\<lparr>state_machine := EndPointDetected\<rparr>"
      using True by (simp add: m2_def maybe_on_voice_end_if_last_frame_def)
    have "done_of (output_data_buf m2) = output_data_buf m2"
      using v(1) closed_segs_done[of ?r] by (simp add: m2)
    moreover have "output_data_buf m2 = done_of (output_data_buf m2) @ []" "done_of [] = []"
      using calculation by (simp_all add: done_of_def)
    moreover have "seg_chain 0 (output_data_buf m2)"
      "chain_end 0 (output_data_buf m2) \<le> frm_cnt m * frame_in_ms (opts m)"
      "opts m2 = opts m" "windows_detector m2 = windows_detector m"
      "output_data_buf_offset m2 = output_data_buf_offset m"
      "\<exists>rest. done_of (output_data_buf m2) = done_of (output_data_buf m) @ rest"
      using v(1,2,5) by (simp_all add: m2 closed_segs_def same_setting_def m1_def)
    ultimately show ?thesis by metis
  qed
  then obtain tail2 rest where m2: "output_data_buf m2 = done_of (output_data_buf m2) @ tail2"
    "done_of tail2 = []" "done_of (output_data_buf m2) = done_of (output_data_buf m) @ rest"
    "seg_chain 0 (done_of (output_data_buf m2))"
    "chain_end 0 (done_of (output_data_buf m2)) \<le> frm_cnt m * frame_in_ms (opts m)"
    "opts m2 = opts m" "windows_detector m2 = windows_detector m"
    "output_data_buf_offset m2 = output_data_buf_offset m" by blast
  let ?m3 = "m2\<lparr>output_data_buf_offset := length (done_of (output_data_buf m2))\<rparr>"
  have ts: "take_segments m2 = (map segment_times rest, ?m3)"
    using m2(8) off by (intro take_segments_gen[OF m2(1,2) _ m2(3)]) simp
  have res: "finalize_streaming F sil m = (map segment_times rest, all_reset_detection F ?m3)"
    unfolding finalize_streaming_def Let_def m1_def[symmetric] m2_def[symmetric] ts by simp
  have chain: "seg_chain (chain_end 0 (done_of (output_data_buf m))) rest"
    "0 \<le> chain_end 0 (done_of (output_data_buf m))"
    "chain_end (chain_end 0 (done_of (output_data_buf m))) rest \<le> frm_cnt m * frame_in_ms (opts m)"
    using m2(3-5) seg_chain_end_ge[of 0 "done_of (output_data_buf m)"] by auto
  note rep = times_of_chain[OF chain(1,2), folded reported_until_def[of m]]
  show thesis
    by (rule that[OF res])
      (use rep chain(3) base m2(6,7) all_reset_ready[of ?m3 F] in \<open>auto simp: m1_def nat_mono\<close>)
qed

end
