(* ===== verification/Chunking.thy ===== *)
theory Chunking
  imports Prelude
begin

text \<open>Splitting a stream into chunks of a fixed size. Two components buffer an input of any
  granularity and hand on full chunks: the PCM byte stream and the streaming VAD session. The
  locale states what they promise, and its lemmas say that the chunks depend on the data only, not
  on how the data was cut when it was fed.\<close>

fun chunks_of :: "nat \<Rightarrow> 'a list \<Rightarrow> 'a list list" where
  "chunks_of k xs = (if k = 0 \<or> length xs < k then [] else take k xs # chunks_of k (drop k xs))"

declare chunks_of.simps [simp del]

definition rest_of :: "nat \<Rightarrow> 'a list \<Rightarrow> 'a list" where
  "rest_of k xs = drop (length xs div k * k) xs"

lemma chunks_of_short [simp]: "length xs < k \<Longrightarrow> chunks_of k xs = []"
  by (simp add: chunks_of.simps)

lemma chunks_of_Nil [simp]: "chunks_of k [] = []"
  by (subst chunks_of.simps) auto

lemma chunks_of_step: "0 < k \<Longrightarrow> k \<le> length xs \<Longrightarrow> chunks_of k xs = take k xs # chunks_of k (drop k xs)"
  by (simp add: chunks_of.simps)

lemma chunks_of_length: "c \<in> set (chunks_of k xs) \<Longrightarrow> length c = k"
proof (induction k xs rule: chunks_of.induct)
  case (1 k xs)
  then show ?case
    by (cases "k = 0 \<or> length xs < k") (use 1(2) in \<open>auto simp: chunks_of.simps[of k xs]\<close>)
qed

lemma chunks_of_concat:
  "\<forall>c \<in> set cs. length c = k \<Longrightarrow> length p < k \<Longrightarrow> chunks_of k (concat cs @ p) = cs"
proof (induction cs)
  case (Cons c cs)
  then have "0 < k" by auto
  with Cons show ?case by (simp add: chunks_of_step)
qed simp

lemma length_concat_const: "\<forall>c \<in> set cs. length c = k \<Longrightarrow> length (concat cs) = length cs * k"
  by (induction cs) auto

lemma rest_of_concat:
  assumes "\<forall>c \<in> set cs. length c = k" "length p < k"
  shows "rest_of k (concat cs @ p) = p"
  using length_concat_const[OF assms(1)] assms(2) by (simp add: rest_of_def)

lemma chunks_of_rest: "0 < k \<Longrightarrow> concat (chunks_of k xs) @ rest_of k xs = xs"
proof (induction k xs rule: chunks_of.induct)
  case (1 k xs)
  show ?case
  proof (cases "length xs < k")
    case True
    then show ?thesis by (simp add: rest_of_def)
  next
    case False
    then have "rest_of k xs = rest_of k (drop k xs)"
      using 1(2) by (simp add: rest_of_def le_div_geq add.commute)
    then show ?thesis using 1 False by (simp add: chunks_of_step)
  qed
qed

lemma rest_of_less: "0 < k \<Longrightarrow> length (rest_of k xs) < k"
  by (simp add: rest_of_def minus_div_mult_eq_mod)

lemma chunks_of_count: "0 < k \<Longrightarrow> length (chunks_of k xs) = length xs div k"
proof (induction k xs rule: chunks_of.induct)
  case (1 k xs)
  then show ?case by (cases "length xs < k") (simp_all add: chunks_of_step le_div_geq)
qed

lemma chunks_of_full:
  assumes "0 < k"
  shows "chunks_of k (take (length xs div k * k) xs) = chunks_of k xs"
proof -
  let ?cs = "chunks_of k xs"
  have lens: "\<forall>c \<in> set ?cs. length c = k" using chunks_of_length by blast
  have "length (concat ?cs) = length xs div k * k"
    using length_concat_const[OF lens] chunks_of_count[OF assms, of xs] by simp
  then have "take (length xs div k * k) (concat ?cs @ rest_of k xs) = concat ?cs" by simp
  then have "take (length xs div k * k) xs = concat ?cs" using chunks_of_rest[OF assms, of xs] by simp
  then show ?thesis using chunks_of_concat[OF lens, of "[]"] assms by simp
qed

lemma chunks_of_append:
  "0 < k \<Longrightarrow> chunks_of k (xs @ ys) = chunks_of k xs @ chunks_of k (rest_of k xs @ ys)"
proof (induction k xs rule: chunks_of.induct)
  case (1 k xs)
  show ?case
  proof (cases "length xs < k")
    case True
    then show ?thesis by (simp add: rest_of_def)
  next
    case False
    then have "rest_of k (drop k xs) = rest_of k xs"
      using 1(2) by (simp add: rest_of_def le_div_geq add.commute)
    then show ?thesis using 1 False by (simp add: chunks_of_step)
  qed
qed

lemma rest_of_append: "0 < k \<Longrightarrow> rest_of k (rest_of k xs @ ys) = rest_of k (xs @ ys)"
proof -
  assume k: "0 < k"
  have "xs @ ys = concat (chunks_of k xs @ chunks_of k (rest_of k xs @ ys)) @ rest_of k (rest_of k xs @ ys)"
    using chunks_of_rest[OF k, of xs] chunks_of_rest[OF k, of "rest_of k xs @ ys"]
    by (metis append.assoc concat_append)
  then show ?thesis
    using rest_of_concat[of "chunks_of k xs @ chunks_of k (rest_of k xs @ ys)" k
        "rest_of k (rest_of k xs @ ys)"] chunks_of_length rest_of_less[OF k]
    by (metis UnE set_append)
qed

lemma rest_of_step: "0 < k \<Longrightarrow> length c = k \<Longrightarrow> rest_of k (c @ xs) = rest_of k xs"
  using rest_of_append[of k c xs] by (simp add: rest_of_def[of k c])

section \<open>The contract of a chunker\<close>

text \<open>The state keeps what is pending; \<^verbatim>\<open>handle\<close> processes one full chunk and does not look at
  what is pending; \<^verbatim>\<open>feed\<close> takes an input of any length. The law says what a feed does when no
  chunk fails.\<close>

fun handle_all :: "('a \<Rightarrow> 's \<Rightarrow> ('e + 'c list) \<times> 's) \<Rightarrow> 'a list \<Rightarrow> 's \<Rightarrow> ('e + 'c list) \<times> 's" where
  "handle_all h [] s = (Inr [], s)"
| "handle_all h (c # cs) s =
     (case h c s of
        (Inl e, s1) \<Rightarrow> (Inl e, s1)
      | (Inr xs, s1) \<Rightarrow>
          (case handle_all h cs s1 of (Inl e, s2) \<Rightarrow> (Inl e, s2) | (Inr ys, s2) \<Rightarrow> (Inr (xs @ ys), s2)))"

lemma handle_all_append:
  "handle_all h (cs @ ds) s =
     (case handle_all h cs s of
        (Inl e, s1) \<Rightarrow> (Inl e, s1)
      | (Inr xs, s1) \<Rightarrow>
          (case handle_all h ds s1 of (Inl e, s2) \<Rightarrow> (Inl e, s2) | (Inr ys, s2) \<Rightarrow> (Inr (xs @ ys), s2)))"
  by (induction cs arbitrary: s) (auto split: sum.splits prod.splits)

lemma handle_all_appendE:
  assumes "handle_all h (cs @ ds) s = (Inr zs, s2)"
  obtains xs s1 ys where "handle_all h cs s = (Inr xs, s1)" "handle_all h ds s1 = (Inr ys, s2)"
    "zs = xs @ ys"
  using assms by (auto simp: handle_all_append split: sum.splits prod.splits)

locale fixed_chunker =
  fixes size_of :: "'s \<Rightarrow> nat"
    and pending :: "'s \<Rightarrow> 'a list"
    and set_pending :: "'a list \<Rightarrow> 's \<Rightarrow> 's"
    and handle :: "'a list \<Rightarrow> 's \<Rightarrow> ('e + 'c list) \<times> 's"
    and feed :: "'a list \<Rightarrow> 's \<Rightarrow> ('e + 'c list) \<times> 's"
    and good :: "'s \<Rightarrow> bool"
  assumes size_pos: "good s \<Longrightarrow> 0 < size_of s"
    and size_set: "size_of (set_pending p s) = size_of s"
    and good_set: "good s \<Longrightarrow> length p < size_of s \<Longrightarrow> good (set_pending p s)"
    and pending_set: "pending (set_pending p s) = p"
    and set_set: "set_pending p (set_pending q s) = set_pending p s"
    and handle_set: "handle c (set_pending p s) = (case handle c s of (r, s') \<Rightarrow> (r, set_pending p s'))"
    and handle_good: "good s \<Longrightarrow> length c = size_of s \<Longrightarrow> handle c s = (Inr cs, s') \<Longrightarrow>
          good s' \<and> size_of s' = size_of s"
    and feed_law: "good s \<Longrightarrow> handle_all handle (chunks_of (size_of s) (pending s @ xs)) s = (Inr cs, s') \<Longrightarrow>
          feed xs s = (Inr cs, set_pending (rest_of (size_of s) (pending s @ xs)) s')"
begin

lemma handle_all_set:
  "handle_all handle cs (set_pending p s) = (case handle_all handle cs s of (r, s') \<Rightarrow> (r, set_pending p s'))"
  by (induction cs arbitrary: s) (auto simp: handle_set split: sum.splits prod.splits)

lemma handle_all_good:
  "good s \<Longrightarrow> \<forall>c \<in> set cs. length c = size_of s \<Longrightarrow> handle_all handle cs s = (Inr xs, s') \<Longrightarrow>
   good s' \<and> size_of s' = size_of s"
proof (induction cs arbitrary: s xs)
  case (Cons c cs)
  then obtain ys s1 zs where "handle c s = (Inr ys, s1)" "handle_all handle cs s1 = (Inr zs, s')"
    by (auto split: sum.splits prod.splits)
  moreover have "good s1" "size_of s1 = size_of s"
    using handle_good[OF Cons.prems(1) _ calculation(1)] Cons.prems(2) by auto
  ultimately show ?case using Cons.IH[of s1 zs] Cons.prems(2) by simp
qed simp

text \<open>Feeding in pieces is feeding at once, when the chunks of the whole input are processed
  without an error.\<close>

lemma feed_pieces:
  assumes "good s" "handle_all handle (chunks_of (size_of s) (pending s @ concat (xs # xss))) s = (Inr cs, s')"
  shows "handle_all feed (xs # xss) s
       = (Inr cs, set_pending (rest_of (size_of s) (pending s @ concat (xs # xss))) s')"
  using assms
proof (induction xss arbitrary: xs s cs s')
  case Nil
  then show ?case using feed_law[of s xs cs s'] by simp
next
  case (Cons ys xss)
  let ?k = "size_of s" and ?p = "pending s @ xs"
  let ?more = "concat (ys # xss)"
  note k = size_pos[OF Cons.prems(1)]
  have split: "chunks_of ?k (pending s @ concat (xs # ys # xss))
      = chunks_of ?k ?p @ chunks_of ?k (rest_of ?k ?p @ ?more)"
    using chunks_of_append[OF k, of ?p ?more] by simp
  obtain as s1 bs where a: "handle_all handle (chunks_of ?k ?p) s = (Inr as, s1)"
    and b: "handle_all handle (chunks_of ?k (rest_of ?k ?p @ ?more)) s1 = (Inr bs, s')"
    and cs: "cs = as @ bs"
    using Cons.prems(2) unfolding split by (rule handle_all_appendE)
  let ?s = "set_pending (rest_of ?k ?p) s1"
  have g: "good s1" "size_of s1 = ?k"
    using handle_all_good[OF Cons.prems(1) _ a] chunks_of_length by auto
  have s: "good ?s" "size_of ?s = ?k" "pending ?s = rest_of ?k ?p"
    using g good_set[OF g(1), of "rest_of ?k ?p"] rest_of_less[OF k, of ?p]
    by (simp_all add: size_set pending_set)
  have "handle_all handle (chunks_of (size_of ?s) (pending ?s @ ?more)) ?s
      = (Inr bs, set_pending (rest_of ?k ?p) s')"
    using b s by (simp add: handle_all_set)
  from Cons.IH[OF s(1) this] s
  have "handle_all feed (ys # xss) ?s = (Inr bs, set_pending (rest_of ?k (?p @ ?more)) s')"
    using rest_of_append[OF k, of ?p ?more] by (simp add: set_set)
  then show ?case using feed_law[OF Cons.prems(1) a] cs by (simp del: handle_all.simps(2) add: handle_all.simps(2)[of feed xs])
qed

lemma feed_split_invariant:
  assumes "good s" "concat xss = xs" "xss \<noteq> []"
    and "handle_all handle (chunks_of (size_of s) (pending s @ xs)) s = (Inr cs, s')"
  shows "handle_all feed xss s = feed xs s"
proof -
  obtain y ys where "xss = y # ys" using assms(3) by (cases xss) auto
  then show ?thesis
    using feed_pieces[of s y ys cs s'] feed_law[OF assms(1,4)] assms by simp
qed

end

end
