(* ===== verification/AudioData.thy ===== *)
theory AudioData
  imports Float32 Chunking "HOL-Library.Word"
begin

text \<open>The audio data of \<^verbatim>\<open>vasr-data/src\<close>: time ranges (\<^verbatim>\<open>time.rs\<close>), waveforms
  (\<^verbatim>\<open>waveform.rs\<close>), and the byte stream that turns PCM bytes into chunks (\<^verbatim>\<open>stream.rs\<close>).
  Identifiers generated from random UUIDs are left out.\<close>

section \<open>Time\<close>

record time_range =
  tr_start :: nat
  tr_end :: nat

definition time_range_new :: "nat \<Rightarrow> nat \<Rightarrow> time_range" where
  "time_range_new s e = \<lparr>tr_start = s, tr_end = e\<rparr>"

definition range_duration :: "time_range \<Rightarrow> nat" where
  "range_duration r = saturating_sub (tr_end r) (tr_start r)"

definition range_overlaps :: "time_range \<Rightarrow> time_range \<Rightarrow> bool" where
  "range_overlaps a b \<longleftrightarrow> tr_start a < tr_end b \<and> tr_start b < tr_end a"

definition range_contains :: "time_range \<Rightarrow> nat \<Rightarrow> bool" where
  "range_contains r p \<longleftrightarrow> tr_start r \<le> p \<and> p < tr_end r"

text \<open>Two ranges overlap exactly when they share a point, for ranges that are not empty.\<close>

lemma range_overlaps_iff_common_point:
  "tr_start a < tr_end a \<Longrightarrow> tr_start b < tr_end b \<Longrightarrow>
   range_overlaps a b \<longleftrightarrow> (\<exists>p. range_contains a p \<and> range_contains b p)"
  by (auto simp: range_overlaps_def range_contains_def
      intro!: exI[of _ "max (tr_start a) (tr_start b)"])

section \<open>Waveforms\<close>

datatype waveform_error =
  InvalidSampleRate | OddPcmByteLength | InvalidChannelCount | InvalidChunkSize
| ChannelIndexOutOfRange | IncompleteFrame nat nat

type_synonym 'a wf_result = "waveform_error + 'a"

fun wbind :: "'a wf_result \<Rightarrow> ('a \<Rightarrow> 'b wf_result) \<Rightarrow> 'b wf_result" where
  "wbind (Inl e) f = Inl e"
| "wbind (Inr x) f = f x"

record 'f waveform =
  wf_samples :: "'f list"
  wf_sample_rate :: nat
  wf_channels :: nat

definition new_with_channels :: "'f list \<Rightarrow> nat \<Rightarrow> nat \<Rightarrow> 'f waveform" where
  "new_with_channels samples rate channels =
     \<lparr>wf_samples = samples, wf_sample_rate = rate, wf_channels = channels\<rparr>"

definition waveform_new :: "'f list \<Rightarrow> nat \<Rightarrow> 'f waveform" where
  "waveform_new samples rate = new_with_channels samples rate 1"

definition try_new_with_channels :: "'f list \<Rightarrow> nat \<Rightarrow> nat \<Rightarrow> 'f waveform wf_result" where
  "try_new_with_channels samples rate channels =
     (if channels = 0 then Inl InvalidChannelCount
      else if \<not> channels dvd length samples then Inl (IncompleteFrame (length samples) channels)
      else Inr (new_with_channels samples rate channels))"

definition frame_count :: "'f waveform \<Rightarrow> nat" where
  "frame_count w = (if wf_channels w = 0 then 0 else length (wf_samples w) div wf_channels w)"

definition sample_of_i16 :: "'f f32_ops \<Rightarrow> 16 word \<Rightarrow> 'f" where
  "sample_of_i16 F s = f_div F (f_int F (sint s)) (f_lit F 32768 1)"

definition from_i16_pcm_with_channels :: "'f f32_ops \<Rightarrow> 16 word list \<Rightarrow> nat \<Rightarrow> nat \<Rightarrow> 'f waveform" where
  "from_i16_pcm_with_channels F samples rate channels =
     new_with_channels (map (sample_of_i16 F) samples) rate channels"

definition from_i16_pcm :: "'f f32_ops \<Rightarrow> 16 word list \<Rightarrow> nat \<Rightarrow> 'f waveform" where
  "from_i16_pcm F samples rate = from_i16_pcm_with_channels F samples rate 1"

definition i16_from_le_bytes :: "8 word \<Rightarrow> 8 word \<Rightarrow> 16 word" where
  "i16_from_le_bytes lo hi = word_cat hi lo"

fun le_pairs :: "8 word list \<Rightarrow> 16 word list" where
  "le_pairs (lo # hi # bs) = i16_from_le_bytes lo hi # le_pairs bs"
| "le_pairs bs = []"

definition from_i16_pcm_bytes_with_channels ::
  "'f f32_ops \<Rightarrow> 8 word list \<Rightarrow> nat \<Rightarrow> nat \<Rightarrow> 'f waveform wf_result" where
  "from_i16_pcm_bytes_with_channels F bytes rate channels =
     (if odd (length bytes) then Inl OddPcmByteLength
      else if channels = 0 then Inl InvalidChannelCount
      else try_new_with_channels (map (sample_of_i16 F) (le_pairs bytes)) rate channels)"

definition append_waveform :: "'f waveform \<Rightarrow> 'f waveform \<Rightarrow> 'f waveform wf_result" where
  "append_waveform w other =
     (if wf_sample_rate w = 0 \<or> wf_sample_rate other = 0 \<or> wf_sample_rate w \<noteq> wf_sample_rate other
      then Inl InvalidSampleRate
      else if wf_channels w = 0 \<or> wf_channels other = 0 \<or> wf_channels w \<noteq> wf_channels other
      then Inl InvalidChannelCount
      else Inr (w\<lparr>wf_samples := wf_samples w @ wf_samples other\<rparr>))"

text \<open>The slice panics when its start lies after its end.\<close>

definition slice_ms :: "'f waveform \<Rightarrow> nat \<Rightarrow> nat \<Rightarrow> 'f waveform result" where
  "slice_ms w start_ms end_ms =
     (if end_ms \<le> start_ms \<or> wf_sample_rate w = 0 \<or> wf_channels w = 0
      then Inr (new_with_channels [] (wf_sample_rate w) (wf_channels w))
      else
        let channels = wf_channels w;
            total = length (wf_samples w);
            start_frame = saturating_mul start_ms (wf_sample_rate w) div 1000;
            end_frame = min (div_ceil (saturating_mul end_ms (wf_sample_rate w)) 1000) (frame_count w);
            s = min (saturating_mul start_frame channels) total;
            e = min (saturating_mul end_frame channels) total
        in if e < min s total then Inl (Panic ''slice index starts after its end'')
           else Inr (new_with_channels (take (e - min s total) (drop (min s total) (wf_samples w)))
                       (wf_sample_rate w) channels))"

definition channel :: "'f waveform \<Rightarrow> nat \<Rightarrow> 'f waveform wf_result" where
  "channel w index =
     (if wf_channels w = 0 then Inl InvalidChannelCount
      else if wf_channels w \<le> index then Inl ChannelIndexOutOfRange
      else if wf_channels w = 1 then Inr w
      else Inr (new_with_channels (map (\<lambda>frame. frame ! index) (chunks_of (wf_channels w) (wf_samples w)))
                  (wf_sample_rate w) 1))"

definition to_mono :: "'f f32_ops \<Rightarrow> 'f waveform \<Rightarrow> 'f waveform wf_result" where
  "to_mono F w =
     (if wf_channels w = 0 then Inl InvalidChannelCount
      else if wf_channels w = 1 then Inr w
      else Inr (new_with_channels
             (map (\<lambda>frame. f_div F (f_sum F frame) (f_int F (int (wf_channels w))))
                (chunks_of (wf_channels w) (wf_samples w)))
             (wf_sample_rate w) 1))"

definition clamp_f :: "'f f32_ops \<Rightarrow> 'f \<Rightarrow> 'f \<Rightarrow> 'f \<Rightarrow> 'f" where
  "clamp_f F x lo hi = (if f_lt F x lo then lo else if f_lt F hi x then hi else x)"

definition to_i16_pcm :: "'f f32_ops \<Rightarrow> 'f waveform \<Rightarrow> 16 word list" where
  "to_i16_pcm F w = map (\<lambda>x.
     let scaled = f_mul F (clamp_f F x (f_lit F (-1) 1) (f_lit F 1 1)) (f_lit F 32768 1)
     in of_int (f_to_int F (clamp_f F (f_round F scaled) (f_int F (-32768)) (f_int F 32767))))
     (wf_samples w)"

section \<open>The PCM byte stream\<close>

record 'f audio_chunk =
  ac_waveform :: "'f waveform"
  ac_is_start :: bool
  ac_is_last :: bool
  ac_range :: time_range

record audio_stream =
  as_sample_rate :: nat
  as_num_channels :: nat
  as_chunk_size_ms :: nat
  as_buffer :: "8 word list"
  as_emitted_samples :: nat

definition stream_new :: "nat \<Rightarrow> nat \<Rightarrow> nat \<Rightarrow> audio_stream" where
  "stream_new rate channels chunk_ms = \<lparr>as_sample_rate = rate, as_num_channels = channels,
     as_chunk_size_ms = chunk_ms, as_buffer = [], as_emitted_samples = 0\<rparr>"

definition stream_validate :: "audio_stream \<Rightarrow> unit wf_result" where
  "stream_validate s =
     (if as_sample_rate s = 0 then Inl InvalidSampleRate
      else if as_num_channels s = 0 then Inl InvalidChannelCount
      else if as_chunk_size_ms s = 0 then Inl InvalidChunkSize
      else Inr ())"

definition frame_bytes :: "audio_stream \<Rightarrow> nat" where
  "frame_bytes s = as_sample_rate s * as_chunk_size_ms s div 1000 * as_num_channels s * 2"

definition sample_to_ms :: "nat \<Rightarrow> nat \<Rightarrow> nat" where
  "sample_to_ms sample rate = saturating_mul sample 1000 div rate"

definition chunk_from_bytes ::
  "'f f32_ops \<Rightarrow> 8 word list \<Rightarrow> bool \<Rightarrow> audio_stream \<Rightarrow> ('f audio_chunk \<times> audio_stream) wf_result" where
  "chunk_from_bytes F bytes is_last s =
     wbind (from_i16_pcm_bytes_with_channels F bytes (as_sample_rate s) (as_num_channels s mod 65536))
       (\<lambda>w. let samples = length (wf_samples w) div as_num_channels s;
                start_sample = as_emitted_samples s;
                s' = s\<lparr>as_emitted_samples := start_sample + samples\<rparr>
            in Inr (\<lparr>ac_waveform = w, ac_is_start = (start_sample = 0), ac_is_last = is_last,
                     ac_range = time_range_new (sample_to_ms start_sample (as_sample_rate s))
                                  (sample_to_ms (as_emitted_samples s') (as_sample_rate s))\<rparr>, s'))"

text \<open>The push loop: with a frame size of zero it never ends, which is the value None.\<close>

partial_function (option) push_loop ::
  "'f f32_ops \<Rightarrow> 'f audio_chunk list \<Rightarrow> audio_stream \<Rightarrow>
   ('f audio_chunk list wf_result \<times> audio_stream) option" where
  "push_loop F chunks s =
     (let n = frame_bytes s in
      if n \<le> length (as_buffer s) then
        (case chunk_from_bytes F (take n (as_buffer s)) False
                (s\<lparr>as_buffer := drop n (as_buffer s)\<rparr>) of
           Inl e \<Rightarrow> Some (Inl e, s\<lparr>as_buffer := drop n (as_buffer s)\<rparr>)
         | Inr (c, s') \<Rightarrow> push_loop F (chunks @ [c]) s')
      else Some (Inr chunks, s))"

definition stream_push ::
  "'f f32_ops \<Rightarrow> 8 word list \<Rightarrow> audio_stream \<Rightarrow> ('f audio_chunk list wf_result \<times> audio_stream) option" where
  "stream_push F bytes s =
     (case stream_validate s of Inl e \<Rightarrow> Some (Inl e, s)
      | Inr _ \<Rightarrow> push_loop F [] (s\<lparr>as_buffer := as_buffer s @ bytes\<rparr>))"

definition stream_flush ::
  "'f f32_ops \<Rightarrow> audio_stream \<Rightarrow> 'f audio_chunk list wf_result \<times> audio_stream" where
  "stream_flush F s =
     (case stream_validate s of Inl e \<Rightarrow> (Inl e, s)
      | Inr _ \<Rightarrow>
          if as_buffer s = [] then (Inr [], s)
          else
            let complete_len = length (as_buffer s) - length (as_buffer s) mod 2;
                chunk_bytes = take complete_len (as_buffer s);
                s0 = s\<lparr>as_buffer := []\<rparr>
            in if chunk_bytes = [] then (Inr [], s0)
               else (case chunk_from_bytes F chunk_bytes True s0 of
                       Inl e \<Rightarrow> (Inl e, s0) | Inr (c, s') \<Rightarrow> (Inr [c], s')))"

section \<open>Slices\<close>

definition waveform_wf :: "'f waveform \<Rightarrow> bool" where
  "waveform_wf w \<longleftrightarrow> 0 < wf_channels w \<and> wf_channels w dvd length (wf_samples w)"

lemma try_new_wf: "try_new_with_channels xs r c = Inr w \<Longrightarrow> waveform_wf w"
  by (auto simp: try_new_with_channels_def new_with_channels_def waveform_wf_def split: if_splits)

text \<open>The frames a slice takes: from the frame at the start time to the one at the end time, rounded
  up, both capped at the end of the recording.\<close>

definition slice_first :: "'f waveform \<Rightarrow> nat \<Rightarrow> nat" where
  "slice_first w ms = min (ms * wf_sample_rate w div 1000) (frame_count w)"

definition slice_last :: "'f waveform \<Rightarrow> nat \<Rightarrow> nat" where
  "slice_last w ms = min (div_ceil (ms * wf_sample_rate w) 1000) (frame_count w)"

lemma slice_first_le_last: "s \<le> e \<Longrightarrow> slice_first w s \<le> slice_last w e"
proof -
  assume "s \<le> e"
  then have "s * wf_sample_rate w div 1000 \<le> e * wf_sample_rate w div 1000"
    by (intro div_le_mono) simp
  also have "\<dots> \<le> div_ceil (e * wf_sample_rate w) 1000" by (simp add: div_ceil_def)
  finally show ?thesis by (simp add: slice_first_def slice_last_def min.coboundedI1)
qed

lemma slice_ms_frames:
  assumes wf: "waveform_wf w" and rate: "0 < wf_sample_rate w" and ms: "s < e"
    and fits: "e * wf_sample_rate w \<le> usize_max" "length (wf_samples w) \<le> usize_max"
  shows "slice_ms w s e = Inr (new_with_channels
      (take ((slice_last w e - slice_first w s) * wf_channels w)
         (drop (slice_first w s * wf_channels w) (wf_samples w)))
      (wf_sample_rate w) (wf_channels w))"
proof -
  let ?r = "wf_sample_rate w" and ?c = "wf_channels w" and ?n = "length (wf_samples w)"
  have n: "?n = frame_count w * ?c" and c: "0 < ?c" using wf by (auto simp: waveform_wf_def frame_count_def)
  have "s * ?r \<le> e * ?r" using ms by simp
  then have "s * ?r \<le> usize_max" using fits(1) by (rule order_trans)
  then have sat: "saturating_mul s ?r = s * ?r" "saturating_mul e ?r = e * ?r"
    using fits(1) by (auto simp: saturating_mul_def)
  have s': "min (saturating_mul (s * ?r div 1000) ?c) ?n = slice_first w s * ?c"
  proof (cases "s * ?r div 1000 \<le> frame_count w")
    case True
    then have "s * ?r div 1000 * ?c \<le> ?n" using n by simp
    then show ?thesis using True fits(2) by (simp add: saturating_mul_def slice_first_def)
  next
    case False
    then have "?n \<le> s * ?r div 1000 * ?c" using n by simp
    then show ?thesis using False fits(2) n by (simp add: saturating_mul_def slice_first_def)
  qed
  have "slice_last w e * ?c \<le> ?n" using n by (simp add: slice_last_def)
  then have e': "min (saturating_mul (min (div_ceil (e * ?r) 1000) (frame_count w)) ?c) ?n = slice_last w e * ?c"
    using fits(2) by (simp add: saturating_mul_def slice_last_def)
  have le: "slice_first w s * ?c \<le> slice_last w e * ?c"
    using slice_first_le_last[of s e w] ms by (intro mult_le_mono1) simp
  have "min (slice_first w s * ?c) ?n = slice_first w s * ?c" using n by (simp add: slice_first_def)
  then show ?thesis using ms rate c le
    unfolding slice_ms_def Let_def sat s' e' by (simp add: diff_mult_distrib)
qed

text \<open>Slicing a well-formed waveform between two times never panics. The slice is well-formed,
  keeps rate and channels, consists of consecutive samples of the waveform, and contains every frame
  whose time lies between the two.\<close>

theorem slice_is_the_interval:
  assumes wf: "waveform_wf w" and rate: "0 < wf_sample_rate w" and ms: "s < e"
    and fits: "e * wf_sample_rate w \<le> usize_max" "length (wf_samples w) \<le> usize_max"
  shows "\<exists>v first. slice_ms w s e = Inr v \<and> waveform_wf v \<and>
    wf_sample_rate v = wf_sample_rate w \<and> wf_channels v = wf_channels w \<and>
    wf_samples v = take (frame_count v * wf_channels w) (drop (first * wf_channels w) (wf_samples w)) \<and>
    first + frame_count v \<le> frame_count w \<and>
    (\<forall>f < frame_count w. s * wf_sample_rate w \<le> f * 1000 \<and> f * 1000 < e * wf_sample_rate w \<longrightarrow>
       first \<le> f \<and> f < first + frame_count v)"
proof -
  let ?c = "wf_channels w" and ?f = "slice_first w s" and ?l = "slice_last w e"
  let ?v = "new_with_channels (take ((?l - ?f) * ?c) (drop (?f * ?c) (wf_samples w))) (wf_sample_rate w) ?c"
  have n: "length (wf_samples w) = frame_count w * ?c" and c: "0 < ?c"
    using wf by (auto simp: waveform_wf_def frame_count_def)
  have fl: "?f \<le> ?l" "?l \<le> frame_count w"
    using slice_first_le_last[of s e w] ms by (auto simp: slice_last_def)
  have "(?l - ?f) * ?c \<le> length (wf_samples w) - ?f * ?c"
    using fl n by (simp add: diff_mult_distrib diff_le_mono)
  then have len: "length (wf_samples ?v) = (?l - ?f) * ?c" by (simp add: new_with_channels_def)
  then have fc: "frame_count ?v = ?l - ?f" using c by (simp add: frame_count_def new_with_channels_def)
  have "first \<le> f \<and> f < first + (?l - ?f)" if "first = ?f" and "f < frame_count w"
    "s * wf_sample_rate w \<le> f * 1000" "f * 1000 < e * wf_sample_rate w" for f first
  proof -
    have "s * wf_sample_rate w div 1000 \<le> f * 1000 div 1000" by (rule div_le_mono[OF that(3)])
    moreover have "f < div_ceil (e * wf_sample_rate w) 1000"
      using that(4) div_ceil_le_iff[of 1000 "e * wf_sample_rate w" f] by (simp add: not_le[symmetric])
    ultimately show ?thesis using that fl by (simp add: slice_first_def slice_last_def)
  qed
  then show ?thesis
    using slice_ms_frames[OF assms] len c fc fl
    by (intro exI[of _ ?v] exI[of _ ?f]) (auto simp: waveform_wf_def new_with_channels_def)
qed

definition example_recording :: "int waveform" where
  "example_recording = waveform_new [1, 2, 3, 4, 5, 6, 7, 8] 2000"

lemma slice_is_the_interval_witness:
  "\<exists>v first. slice_ms example_recording 1 3 = Inr v \<and> first + frame_count v \<le> 8 \<and>
     (\<forall>f < 8. 2000 \<le> f * 1000 \<and> f * 1000 < 6000 \<longrightarrow> first \<le> f \<and> f < first + frame_count v)"
proof -
  have w: "waveform_wf example_recording" "wf_sample_rate example_recording = 2000"
    "frame_count example_recording = 8" "length (wf_samples example_recording) = 8"
    by (simp_all add: example_recording_def waveform_new_def new_with_channels_def waveform_wf_def
        frame_count_def)
  have "(0::nat) < 2000" "(1::nat) < 3" "3 * 2000 \<le> usize_max" "8 \<le> usize_max"
    by (simp_all add: max_values)
  with slice_is_the_interval[OF w(1), of 1 3, unfolded w] show ?thesis by auto
qed

section \<open>Channels\<close>

text \<open>The samples of one waveform, taken from one list per channel in turn.\<close>

definition interleave :: "'a list list \<Rightarrow> nat \<Rightarrow> 'a list" where
  "interleave cs n = concat (map (\<lambda>i. map (\<lambda>c. c ! i) cs) [0..<n])"

lemma chunks_nth:
  assumes "0 < k" "i < length (chunks_of k xs)" "j < k"
  shows "chunks_of k xs ! i ! j = xs ! (i * k + j)"
  using assms
proof (induction k xs arbitrary: i rule: chunks_of.induct)
  case (1 k xs)
  then have big: "\<not> (k = 0 \<or> length xs < k)" by (auto simp: chunks_of.simps[of k xs] split: if_splits)
  then show ?case using 1
    by (cases i) (simp_all add: chunks_of_step add.assoc)
qed

text \<open>Every channel of a well-formed waveform can be extracted, and interleaving the extracted
  channels gives back its samples.\<close>

theorem channels_interleave_to_samples:
  assumes wf: "waveform_wf w"
  shows "\<exists>cs. (\<forall>i < wf_channels w. \<exists>v. channel w i = Inr v \<and> wf_channels v = 1 \<and>
             wf_sample_rate v = wf_sample_rate w \<and> cs ! i = wf_samples v \<and>
             length (wf_samples v) = frame_count w) \<and>
    length cs = wf_channels w \<and> interleave cs (frame_count w) = wf_samples w"
proof -
  let ?c = "wf_channels w" and ?xs = "wf_samples w"
  have c: "0 < ?c" and dvd: "?c dvd length ?xs" using wf by (auto simp: waveform_wf_def)
  define pick where "pick i = map (\<lambda>frame. frame ! i) (chunks_of ?c ?xs)" for i
  have fc: "length (chunks_of ?c ?xs) = frame_count w"
    using c chunks_of_count[OF c, of ?xs] by (simp add: frame_count_def)
  have one: "pick 0 = ?xs" if "?c = 1"
    using fc that chunks_nth[of 1 _ ?xs 0] dvd
    by (intro nth_equalityI) (auto simp: pick_def frame_count_def)
  have ch: "\<exists>v. channel w i = Inr v \<and> wf_channels v = 1 \<and> wf_sample_rate v = wf_sample_rate w \<and>
      pick i = wf_samples v \<and> length (wf_samples v) = frame_count w" if "i < ?c" for i
    using that c one fc
    by (cases "?c = 1") (auto simp: channel_def pick_def new_with_channels_def frame_count_def)
  have frames: "map (\<lambda>i. map (\<lambda>ch. ch ! i) (map pick [0..<?c])) [0..<frame_count w] = chunks_of ?c ?xs"
    using chunks_of_length[of _ ?c ?xs] fc
    by (intro nth_equalityI) (auto simp: pick_def intro!: nth_equalityI)
  have "rest_of ?c ?xs = []" using dvd by (simp add: rest_of_def)
  then have "concat (chunks_of ?c ?xs) = ?xs" using chunks_of_rest[OF c, of ?xs] by simp
  then have "interleave (map pick [0..<?c]) (frame_count w) = ?xs"
    by (simp add: interleave_def frames del: map_map)
  then show ?thesis using ch by (intro exI[of _ "map pick [0..<?c]"]) auto
qed

lemma channels_interleave_to_samples_witness:
  "\<exists>cs. length cs = 2 \<and> interleave cs 2 = [1, 10, 2, 20::int]"
proof -
  let ?w = "new_with_channels [1, 10, 2, 20::int] 8000 2"
  have w: "waveform_wf ?w" "wf_channels ?w = 2" "frame_count ?w = 2" "wf_samples ?w = [1, 10, 2, 20]"
    by (simp_all add: waveform_wf_def new_with_channels_def frame_count_def)
  show ?thesis using channels_interleave_to_samples[OF w(1), unfolded w] by blast
qed

end
