(* ===== verification/AudioStream.thy ===== *)
theory AudioStream
  imports AudioData
begin

text \<open>The byte stream of \<^verbatim>\<open>vasr-data/src/stream.rs\<close> is a chunker: its chunks depend on the
  bytes only, cover them without loss, and carry contiguous time ranges.\<close>

definition stream_chunk ::
  "'f f32_ops \<Rightarrow> 8 word list \<Rightarrow> audio_stream \<Rightarrow> (waveform_error + 'f audio_chunk list) \<times> audio_stream" where
  "stream_chunk F c s = (case chunk_from_bytes F c False s of
     Inl e \<Rightarrow> (Inl e, s) | Inr (ch, s') \<Rightarrow> (Inr [ch], s'))"

definition stream_set :: "8 word list \<Rightarrow> audio_stream \<Rightarrow> audio_stream" where
  "stream_set p s = s\<lparr>as_buffer := p\<rparr>"

definition stream_valid :: "audio_stream \<Rightarrow> bool" where
  "stream_valid s \<longleftrightarrow> 0 < as_sample_rate s \<and> 0 < as_num_channels s \<and> as_num_channels s < 65536 \<and>
     0 < as_chunk_size_ms s \<and> 0 < frame_bytes s"

definition stream_good :: "audio_stream \<Rightarrow> bool" where
  "stream_good s \<longleftrightarrow> stream_valid s \<and> length (as_buffer s) < frame_bytes s"

definition stream_feed ::
  "'f f32_ops \<Rightarrow> 8 word list \<Rightarrow> audio_stream \<Rightarrow> (waveform_error + 'f audio_chunk list) \<times> audio_stream" where
  "stream_feed F bytes s = the (stream_push F bytes s)"

lemma le_pairs_length: "length (le_pairs bs) = length bs div 2"
  by (induction bs rule: le_pairs.induct) auto

lemma le_pairs_append: "even (length xs) \<Longrightarrow> le_pairs (xs @ ys) = le_pairs xs @ le_pairs ys"
  by (induction xs rule: le_pairs.induct) auto

definition samples_per_chunk :: "audio_stream \<Rightarrow> nat" where
  "samples_per_chunk s = as_sample_rate s * as_chunk_size_ms s div 1000"

definition chunk_out :: "'f f32_ops \<Rightarrow> 8 word list \<Rightarrow> audio_stream \<Rightarrow> 'f audio_chunk" where
  "chunk_out F c s = \<lparr>
     ac_waveform = new_with_channels (map (sample_of_i16 F) (le_pairs c)) (as_sample_rate s) (as_num_channels s),
     ac_is_start = (as_emitted_samples s = 0), ac_is_last = False,
     ac_range = time_range_new (sample_to_ms (as_emitted_samples s) (as_sample_rate s))
                  (sample_to_ms (as_emitted_samples s + samples_per_chunk s) (as_sample_rate s))\<rparr>"

lemma stream_chunk_ok:
  assumes "stream_valid s" "length c = frame_bytes s"
  shows "stream_chunk F c s = (Inr [chunk_out F c s],
           s\<lparr>as_emitted_samples := as_emitted_samples s + samples_per_chunk s\<rparr>)"
proof -
  have len: "length c = samples_per_chunk s * as_num_channels s * 2"
    using assms(2) by (simp add: frame_bytes_def samples_per_chunk_def)
  have "as_num_channels s mod 65536 = as_num_channels s" using assms(1) by (simp add: stream_valid_def)
  then show ?thesis using assms(1) len
    by (simp add: stream_chunk_def chunk_from_bytes_def from_i16_pcm_bytes_with_channels_def
        try_new_with_channels_def le_pairs_length chunk_out_def new_with_channels_def stream_valid_def Let_def)
qed

lemma stream_chunk_set:
  "stream_chunk F c (stream_set p s) = (case stream_chunk F c s of (r, s') \<Rightarrow> (r, stream_set p s'))"
  by (cases "from_i16_pcm_bytes_with_channels F c (as_sample_rate s) (as_num_channels s mod 65536)")
     (auto simp: stream_chunk_def chunk_from_bytes_def stream_set_def Let_def)

lemma stream_chunks_set:
  "handle_all (stream_chunk F) xs (stream_set p t)
    = (case handle_all (stream_chunk F) xs t of (r, t') \<Rightarrow> (r, stream_set p t'))"
  by (induction xs arbitrary: t) (auto simp: stream_chunk_set split: sum.splits prod.splits)

lemma frame_bytes_fields [simp]:
  "frame_bytes (s\<lparr>as_buffer := b\<rparr>) = frame_bytes s"
  "frame_bytes (s\<lparr>as_emitted_samples := n\<rparr>) = frame_bytes s"
  "stream_valid (s\<lparr>as_buffer := b\<rparr>) = stream_valid s"
  "stream_valid (s\<lparr>as_emitted_samples := n\<rparr>) = stream_valid s"
  by (simp_all add: frame_bytes_def stream_valid_def)

lemma push_loop_chunks:
  assumes "stream_valid s" "handle_all (stream_chunk F) (chunks_of (frame_bytes s) (as_buffer s)) s = (Inr cs, s')"
  shows "push_loop F acc s = Some (Inr (acc @ cs), stream_set (rest_of (frame_bytes s) (as_buffer s)) s')"
  using assms
proof (induction "length (as_buffer s)" arbitrary: s acc cs s' rule: less_induct)
  case less
  let ?n = "frame_bytes s" and ?b = "as_buffer s"
  have n: "0 < ?n" using less.prems(1) by (simp add: stream_valid_def)
  show ?case
  proof (cases "?n \<le> length ?b")
    case False
    then show ?thesis using less.prems(2)
      by (subst push_loop.simps) (simp add: Let_def stream_set_def rest_of_def)
  next
    case True
    let ?c = "take ?n ?b" and ?s0 = "stream_set (drop ?n ?b) s"
    let ?s1 = "?s0\<lparr>as_emitted_samples := as_emitted_samples s + samples_per_chunk s\<rparr>"
    have len: "length ?c = ?n" using True by simp
    have ch: "chunk_from_bytes F ?c False ?s0 = Inr (chunk_out F ?c s, ?s1)"
      using stream_chunk_ok[of ?s0 ?c F] less.prems(1) len
      by (auto simp: stream_chunk_def stream_set_def chunk_out_def samples_per_chunk_def
          split: sum.splits prod.splits)
    have step: "stream_chunk F ?c s = (Inr [chunk_out F ?c s],
        s\<lparr>as_emitted_samples := as_emitted_samples s + samples_per_chunk s\<rparr>)"
      by (rule stream_chunk_ok[OF less.prems(1) len])
    obtain ds where ds: "handle_all (stream_chunk F) (chunks_of ?n (drop ?n ?b))
        (s\<lparr>as_emitted_samples := as_emitted_samples s + samples_per_chunk s\<rparr>) = (Inr ds, s')"
      and cs: "cs = chunk_out F ?c s # ds"
      using less.prems(2) True n by (auto simp: chunks_of_step step split: sum.splits prod.splits)
    have s1: "?s1 = stream_set (drop ?n ?b) (s\<lparr>as_emitted_samples := as_emitted_samples s + samples_per_chunk s\<rparr>)"
      by (simp add: stream_set_def)
    have "push_loop F (acc @ [chunk_out F ?c s]) ?s1
        = Some (Inr ((acc @ [chunk_out F ?c s]) @ ds),
            stream_set (rest_of (frame_bytes ?s1) (as_buffer ?s1)) (stream_set (drop ?n ?b) s'))"
      using n True less.prems(1) ds
      by (intro less.hyps) (simp_all add: s1 stream_chunks_set, simp_all add: stream_set_def)
    moreover have "rest_of ?n (drop ?n ?b) = rest_of ?n ?b"
      using True n by (simp add: rest_of_def le_div_geq add.commute)
    ultimately show ?thesis using True ch cs
      by (subst push_loop.simps) (simp add: Let_def stream_set_def)
  qed
qed

lemma stream_validate_ok: "stream_valid s \<Longrightarrow> stream_validate s = Inr ()"
  by (simp add: stream_valid_def stream_validate_def)

lemma stream_feed_law:
  assumes "stream_good s"
    and "handle_all (stream_chunk F) (chunks_of (frame_bytes s) (as_buffer s @ bytes)) s = (Inr cs, s')"
  shows "stream_push F bytes s = Some (Inr cs, stream_set (rest_of (frame_bytes s) (as_buffer s @ bytes)) s')"
proof -
  have v: "stream_valid s" using assms(1) by (simp add: stream_good_def)
  let ?s = "stream_set (as_buffer s @ bytes) s"
  have "push_loop F [] ?s = Some (Inr ([] @ cs), stream_set (rest_of (frame_bytes ?s) (as_buffer ?s))
      (stream_set (as_buffer s @ bytes) s'))"
    using v assms(2) by (intro push_loop_chunks) (simp_all add: stream_chunks_set, simp_all add: stream_set_def)
  then show ?thesis using v by (simp add: stream_push_def stream_validate_ok stream_set_def)
qed

interpretation pcm: fixed_chunker frame_bytes as_buffer stream_set "stream_chunk F" "stream_feed F" stream_good
proof
  fix s p q c cs s' xs and ds :: "'a audio_chunk list"
  show "stream_good s \<Longrightarrow> 0 < frame_bytes s" by (simp add: stream_good_def stream_valid_def)
  show "frame_bytes (stream_set p s) = frame_bytes s" by (simp add: stream_set_def)
  show "stream_good s \<Longrightarrow> length p < frame_bytes s \<Longrightarrow> stream_good (stream_set p s)"
    by (simp add: stream_good_def stream_set_def)
  show "as_buffer (stream_set p s) = p" "stream_set p (stream_set q s) = stream_set p s"
    by (simp_all add: stream_set_def)
  show "stream_chunk F c (stream_set p s) = (case stream_chunk F c s of (r, s') \<Rightarrow> (r, stream_set p s'))"
    by (rule stream_chunk_set)
  show "stream_good s \<Longrightarrow> length c = frame_bytes s \<Longrightarrow> stream_chunk F c s = (Inr ds, s') \<Longrightarrow>
      stream_good s' \<and> frame_bytes s' = frame_bytes s"
    using stream_chunk_ok[of s c F] by (auto simp: stream_good_def)
  show "stream_good s \<Longrightarrow>
      handle_all (stream_chunk F) (chunks_of (frame_bytes s) (as_buffer s @ xs)) s = (Inr ds, s') \<Longrightarrow>
      stream_feed F xs s = (Inr ds, stream_set (rest_of (frame_bytes s) (as_buffer s @ xs)) s')"
    using stream_feed_law[of s F xs ds s'] by (simp add: stream_feed_def)
qed

section \<open>All chunks of an input\<close>

lemma stream_chunks_out:
  assumes "stream_valid s" "\<forall>c \<in> set cs. length c = frame_bytes s"
  shows "\<exists>outs. handle_all (stream_chunk F) cs s
           = (Inr outs, s\<lparr>as_emitted_samples := as_emitted_samples s + length cs * samples_per_chunk s\<rparr>) \<and>
         length outs = length cs \<and>
         (\<forall>i < length cs. outs ! i = chunk_out F (cs ! i)
            (s\<lparr>as_emitted_samples := as_emitted_samples s + i * samples_per_chunk s\<rparr>))"
  using assms
proof (induction cs arbitrary: s)
  case (Cons c cs)
  let ?s = "s\<lparr>as_emitted_samples := as_emitted_samples s + samples_per_chunk s\<rparr>"
  have spc: "samples_per_chunk ?s = samples_per_chunk s" by (simp add: samples_per_chunk_def)
  from Cons.IH[of ?s] Cons.prems obtain outs where
    o: "handle_all (stream_chunk F) cs ?s
      = (Inr outs, ?s\<lparr>as_emitted_samples := as_emitted_samples ?s + length cs * samples_per_chunk s\<rparr>)"
    "length outs = length cs"
    "\<forall>i < length cs. outs ! i = chunk_out F (cs ! i)
       (?s\<lparr>as_emitted_samples := as_emitted_samples ?s + i * samples_per_chunk s\<rparr>)"
    unfolding spc by auto
  have step: "stream_chunk F c s = (Inr [chunk_out F c s], ?s)"
    using stream_chunk_ok[of s c F] Cons.prems by simp
  have nth: "(chunk_out F c s # outs) ! i = chunk_out F ((c # cs) ! i)
      (s\<lparr>as_emitted_samples := as_emitted_samples s + i * samples_per_chunk s\<rparr>)" if "i < length (c # cs)" for i
    using that o(3) by (cases i) (auto simp: algebra_simps)
  show ?case using o(1,2) step nth
    by (intro exI[of _ "chunk_out F c s # outs"]) (auto simp: algebra_simps)
qed simp

fun push_pieces ::
  "'f f32_ops \<Rightarrow> 8 word list list \<Rightarrow> audio_stream \<Rightarrow> ('f audio_chunk list wf_result \<times> audio_stream) option" where
  "push_pieces F [] s = Some (Inr [], s)"
| "push_pieces F (b # bs) s =
     (case stream_push F b s of None \<Rightarrow> None
      | Some (Inl e, s1) \<Rightarrow> Some (Inl e, s1)
      | Some (Inr cs, s1) \<Rightarrow>
          (case push_pieces F bs s1 of None \<Rightarrow> None
           | Some (Inl e, s2) \<Rightarrow> Some (Inl e, s2) | Some (Inr ds, s2) \<Rightarrow> Some (Inr (cs @ ds), s2)))"

lemma stream_push_total:
  assumes "stream_good s"
  obtains cs s' where "stream_push F bytes s = Some (Inr cs, s')" "stream_good s'"
proof -
  let ?k = "frame_bytes s" and ?b = "as_buffer s @ bytes"
  have v: "stream_valid s" and k: "0 < ?k" using assms by (auto simp: stream_good_def stream_valid_def)
  have lens: "\<forall>c \<in> set (chunks_of ?k ?b). length c = ?k" using chunks_of_length by blast
  obtain cs where "handle_all (stream_chunk F) (chunks_of ?k ?b) s
      = (Inr cs, s\<lparr>as_emitted_samples := as_emitted_samples s
                 + length (chunks_of ?k ?b) * samples_per_chunk s\<rparr>)"
    using stream_chunks_out[OF v lens, of F] by blast
  from stream_feed_law[OF assms this] show thesis
    using v rest_of_less[OF k] by (intro that) (auto simp: stream_good_def stream_set_def)
qed

lemma push_pieces_feed:
  "stream_good s \<Longrightarrow> push_pieces F bs s = Some (handle_all (stream_feed F) bs s)"
proof (induction bs arbitrary: s)
  case (Cons b bs)
  obtain cs s1 where p: "stream_push F b s = Some (Inr cs, s1)" "stream_good s1"
    by (rule stream_push_total[OF Cons.prems])
  show ?case using p(1) Cons.IH[OF p(2)]
    by (auto simp: stream_feed_def split: prod.splits sum.splits)
qed simp

lemma push_pieces_spec:
  assumes valid: "stream_valid s" and start: "as_buffer s = []" and ne: "pieces \<noteq> []"
  defines "bytes \<equiv> concat pieces"
  obtains cs where
    "push_pieces F pieces s = Some (Inr cs, s\<lparr>as_emitted_samples :=
       as_emitted_samples s + length (chunks_of (frame_bytes s) bytes) * samples_per_chunk s,
       as_buffer := rest_of (frame_bytes s) bytes\<rparr>)"
    "length cs = length (chunks_of (frame_bytes s) bytes)"
    "\<forall>i < length cs. cs ! i = chunk_out F (chunks_of (frame_bytes s) bytes ! i)
       (s\<lparr>as_emitted_samples := as_emitted_samples s + i * samples_per_chunk s\<rparr>)"
proof -
  let ?k = "frame_bytes s"
  have good: "stream_good s" using valid start by (simp add: stream_good_def stream_valid_def)
  have lens: "\<forall>c \<in> set (chunks_of ?k bytes). length c = ?k" using chunks_of_length by blast
  obtain cs where cs: "handle_all (stream_chunk F) (chunks_of ?k bytes) s
      = (Inr cs, s\<lparr>as_emitted_samples := as_emitted_samples s + length (chunks_of ?k bytes) * samples_per_chunk s\<rparr>)"
    "length cs = length (chunks_of ?k bytes)"
    "\<forall>i < length (chunks_of ?k bytes). cs ! i = chunk_out F (chunks_of ?k bytes ! i)
       (s\<lparr>as_emitted_samples := as_emitted_samples s + i * samples_per_chunk s\<rparr>)"
    using stream_chunks_out[OF valid lens, of F] by blast
  obtain p ps where "pieces = p # ps" using ne by (cases pieces) auto
  then have "handle_all (stream_feed F) pieces s = (Inr cs, stream_set (rest_of ?k bytes)
      (s\<lparr>as_emitted_samples := as_emitted_samples s + length (chunks_of ?k bytes) * samples_per_chunk s\<rparr>))"
    using pcm.feed_pieces[OF good, of F p ps] cs(1) start by (simp add: bytes_def)
  then have "push_pieces F pieces s = Some (Inr cs, s\<lparr>as_emitted_samples :=
       as_emitted_samples s + length (chunks_of ?k bytes) * samples_per_chunk s,
       as_buffer := rest_of ?k bytes\<rparr>)"
    using push_pieces_feed[OF good, of F pieces] by (simp add: stream_set_def)
  moreover have "\<forall>i < length cs. cs ! i = chunk_out F (chunks_of ?k bytes ! i)
      (s\<lparr>as_emitted_samples := as_emitted_samples s + i * samples_per_chunk s\<rparr>)"
    using cs(2,3) by simp
  ultimately show thesis using cs(2) that by blast
qed

lemma stream_flush_rest:
  assumes "stream_valid s" "2 * as_num_channels s dvd length (as_buffer s)"
  shows "\<exists>fs s'. stream_flush F s = (Inr fs, s') \<and> as_buffer s' = [] \<and>
     concat (map (\<lambda>c. wf_samples (ac_waveform c)) fs) = map (sample_of_i16 F) (le_pairs (as_buffer s))"
proof -
  have "even (length (as_buffer s))" using assms(2) dvd_mult_left by blast
  moreover have "as_num_channels s mod 65536 = as_num_channels s" using assms(1) by (simp add: stream_valid_def)
  moreover have "as_num_channels s dvd length (as_buffer s) div 2"
    using assms(2) by (metis dvd_div_iff_mult dvd_mult_left mult.commute zero_neq_numeral)
  ultimately show ?thesis using assms(1)
    by (simp add: stream_flush_def stream_validate_ok chunk_from_bytes_def le_pairs_length
        from_i16_pcm_bytes_with_channels_def try_new_with_channels_def Let_def new_with_channels_def
        stream_valid_def even_iff_mod_2_eq_zero)
qed

lemma le_pairs_concat:
  "\<forall>c \<in> set cs. even (length c) \<Longrightarrow> le_pairs (concat cs) = concat (map le_pairs cs)"
  by (induction cs) (simp_all add: le_pairs_append)


definition example_f32 :: "int f32_ops" where
  "example_f32 = \<lparr>f_lit = (\<lambda>a b. a div b), f_int = (\<lambda>x. x), f_add = (+), f_sub = (-), f_mul = (*),
     f_div = (\<lambda>a b. a), f_max = max, f_min = min, f_abs = abs, f_is_finite = (\<lambda>x. True), f_lt = (<), f_le = (\<le>), f_ln = (\<lambda>x. x), f_exp = (\<lambda>x. x),
     f_log10 = (\<lambda>x. x), f_round = (\<lambda>x. x), f_to_int = (\<lambda>x. x)\<rparr>"


section \<open>A chunk of no samples\<close>

lemma empty_chunk:
  assumes "0 < as_num_channels t" "as_num_channels t < 65536"
  shows "\<exists>c. chunk_from_bytes F [] False t = Inr (c, t)"
  using assms
  by (simp add: chunk_from_bytes_def from_i16_pcm_bytes_with_channels_def try_new_with_channels_def
      new_with_channels_def Let_def)

text \<open>C21: With a sample rate and a chunk length that pass the validation but give less than one sample
  per chunk, a push never returns: the loop drains empty chunks for ever.\<close>

theorem empty_chunks_never_return:
  assumes valid: "stream_validate s = Inr ()" and chans: "as_num_channels s < 65536"
    and small: "as_sample_rate s * as_chunk_size_ms s < 1000"
  shows "stream_push F bytes s = None"
proof -
  have loop: False if "push_loop F acc t = Some r" "frame_bytes t = 0"
    "0 < as_num_channels t" "as_num_channels t < 65536" for acc t r
  proof -
    have "\<not> (frame_bytes t = 0 \<and> 0 < as_num_channels t \<and> as_num_channels t < 65536)"
    proof (rule push_loop.raw_induct[where P = "\<lambda>F' acc' t' r'.
        \<not> (frame_bytes t' = 0 \<and> 0 < as_num_channels t' \<and> as_num_channels t' < 65536)",
        OF _ that(1)])
      fix loop :: "'a f32_ops \<Rightarrow> 'a audio_chunk list \<Rightarrow> audio_stream \<Rightarrow>
        ('a audio_chunk list wf_result \<times> audio_stream) option"
        and F' acc' t' r'
      assume IH: "\<And>F'' acc'' t'' r''. loop F'' acc'' t'' = Some r'' \<Longrightarrow>
          \<not> (frame_bytes t'' = 0 \<and> 0 < as_num_channels t'' \<and> as_num_channels t'' < 65536)"
        and step: "(let n = frame_bytes t' in
          if n \<le> length (as_buffer t')
          then case chunk_from_bytes F' (take n (as_buffer t')) False (t'\<lparr>as_buffer := drop n (as_buffer t')\<rparr>) of
                 Inl e \<Rightarrow> Some (Inl e, t'\<lparr>as_buffer := drop n (as_buffer t')\<rparr>)
               | Inr (c, s') \<Rightarrow> loop F' (acc' @ [c]) s'
          else Some (Inr acc', t')) = Some r'"
      show "\<not> (frame_bytes t' = 0 \<and> 0 < as_num_channels t' \<and> as_num_channels t' < 65536)"
      proof
        assume t': "frame_bytes t' = 0 \<and> 0 < as_num_channels t' \<and> as_num_channels t' < 65536"
        then obtain c where c: "chunk_from_bytes F' [] False t' = Inr (c, t')"
          using empty_chunk by blast
        have "loop F' (acc' @ [c]) t' = Some r'" using step t' c by (simp add: Let_def)
        from IH[OF this] t' show False by simp
      qed
    qed
    then show False using that by simp
  qed
  have "as_sample_rate s * as_chunk_size_ms s div 1000 = 0" using small by simp
  then have fb: "frame_bytes (s\<lparr>as_buffer := b\<rparr>) = 0" for b by (simp add: frame_bytes_def)
  have "0 < as_num_channels s" using valid by (auto simp: stream_validate_def split: if_splits)
  then have "push_loop F [] (s\<lparr>as_buffer := b\<rparr>) = None" for b
    using loop[of "[]" "s\<lparr>as_buffer := b\<rparr>"] fb chans
    by (cases "push_loop F [] (s\<lparr>as_buffer := b\<rparr>)") auto
  then show ?thesis using valid by (simp add: stream_push_def)
qed

lemma empty_chunks_never_return_witness:
  "stream_push example_f32 [1, 2] (stream_new 500 1 1) = None"
  by (rule empty_chunks_never_return) (simp_all add: stream_validate_def stream_new_def)

end
