(* ===== verification/FsmnVad.thy ===== *)
theory FsmnVad
  imports E2eVadCalls AudioStream
begin

text \<open>The FSMN voice activity detector of \<^verbatim>\<open>vasr-runtime/src/models/vad.rs\<close>: the offline pass over
  chunks of frames, the streaming session with its pending samples, and the frame stacking of the
  front end. The filter bank (kaldi) and the network are parameters; timings are left out.\<close>

section \<open>Options and parameters\<close>

record 'f vad_options =
  vo_threshold :: 'f
  vo_min_speech_ms :: nat
  vo_min_silence_ms :: nat
  vo_merge_max_gap_ms :: nat
  vo_merge_max_segment_ms :: nat

definition default_vad_options :: "'f f32_ops \<Rightarrow> 'f vad_options" where
  "default_vad_options F = \<lparr>vo_threshold = f_lit F 5 10, vo_min_speech_ms = 250,
     vo_min_silence_ms = 500, vo_merge_max_gap_ms = 2000, vo_merge_max_segment_ms = 30000\<rparr>"

record 'f vad_segment =
  vs_range :: time_range
  vs_probability :: 'f

definition FSMN_VAD_CHUNK_SIZE :: nat where "FSMN_VAD_CHUNK_SIZE = 512"
definition FSMN_VAD_FRAME_SHIFT_SAMPLES :: nat where "FSMN_VAD_FRAME_SHIFT_SAMPLES = 160"
definition FSMN_VAD_FRAME_LENGTH_SAMPLES :: nat where "FSMN_VAD_FRAME_LENGTH_SAMPLES = 400"
definition FSMN_VAD_FEAT_CHUNK_SIZE :: nat where "FSMN_VAD_FEAT_CHUNK_SIZE = 6000"
definition FSMN_VAD_SAMPLE_RATE :: nat where "FSMN_VAD_SAMPLE_RATE = 16000"

lemmas fsmn_constants = FSMN_VAD_CHUNK_SIZE_def FSMN_VAD_FRAME_SHIFT_SAMPLES_def
  FSMN_VAD_FRAME_LENGTH_SAMPLES_def FSMN_VAD_FEAT_CHUNK_SIZE_def FSMN_VAD_SAMPLE_RATE_def

text \<open>The network: features of a piece of PCM, the frame scores of features with the caches, which
  are updated, and fresh caches.\<close>

record ('f, 'row, 'c) vad_net =
  net_features :: "16 word list \<Rightarrow> 'row list result"
  net_scores :: "'row list \<Rightarrow> 'c \<Rightarrow> 'f list list result \<times> 'c"
  net_zero_caches :: "'c result"

definition as_i32 :: "nat \<Rightarrow> int" where
  "as_i32 n = (let r = int n mod 2 ^ 32 in if r < 2 ^ 31 then r else r - 2 ^ 32)"

definition build_e2e_model :: "'f f32_ops \<Rightarrow> 'f vad_options \<Rightarrow> 'f e2e_vad result" where
  "build_e2e_model F options =
     e2e_new F ((e2e_default_config F)\<lparr>cfg_speech_noise_thres := vo_threshold options\<rparr>)"

definition samples_f32_to_i16 :: "'f f32_ops \<Rightarrow> 'f list \<Rightarrow> 16 word list" where
  "samples_f32_to_i16 F samples = map (\<lambda>x.
     of_int (f_to_int F (clamp_f F
       (f_round F (f_mul F (clamp_f F x (f_lit F (-1) 1) (f_lit F 1 1)) (f_int F 32767)))
       (f_int F (-32768)) (f_int F 32767)))) samples"

definition to_vad_segment :: "'f vad_options \<Rightarrow> nat \<times> nat \<Rightarrow> 'f vad_segment" where
  "to_vad_segment options = (\<lambda>(s, e).
     \<lparr>vs_range = time_range_new s e, vs_probability = vo_threshold options\<rparr>)"

section \<open>Offline detection\<close>

lemma feat_chunk_progress:
  "off < n \<Longrightarrow> n - (off + min FSMN_VAD_FEAT_CHUNK_SIZE (n - off)) < n - off"
  by (auto simp: FSMN_VAD_FEAT_CHUNK_SIZE_def min_def)

function offline_loop ::
  "'f f32_ops \<Rightarrow> ('f, 'row, 'c) vad_net \<Rightarrow> int \<Rightarrow> 'f list \<Rightarrow> 'row list \<Rightarrow> nat \<Rightarrow> 'c \<Rightarrow> 'f e2e_vad \<Rightarrow>
   (nat \<times> nat) list \<Rightarrow> (nat \<times> nat) list result" where
  "offline_loop F net sil samples feats frame_offset caches e2e acc =
     (let total_frames = length feats in
      if frame_offset < total_frames then
        let step = min FSMN_VAD_FEAT_CHUNK_SIZE (total_frames - frame_offset);
            is_final = (total_frames \<le> frame_offset + step);
            (scores, caches') = net_scores net (take step (drop frame_offset feats)) caches;
            wave_start = frame_offset * FSMN_VAD_FRAME_SHIFT_SAMPLES;
            wave_end = (if is_final then length samples
              else min ((frame_offset + step - 1) * FSMN_VAD_FRAME_SHIFT_SAMPLES
                          + FSMN_VAD_FRAME_LENGTH_SAMPLES) (length samples))
        in rbind scores (\<lambda>frame_scores.
           rbind (ensure (wave_start \<le> wave_end) (Panic ''slice index starts after its end'')) (\<lambda>_.
           rbind (detect_chunk F frame_scores (take (wave_end - wave_start) (drop wave_start samples))
                    is_final sil e2e) (\<lambda>(segs, e2e').
           offline_loop F net sil samples feats (frame_offset + step) caches' e2e' (acc @ segs))))
      else Inr acc)"
  by pat_completeness auto
termination
  by (relation "measure (\<lambda>(F, net, sil, samples, feats, off, caches, e2e, acc). length feats - off)")
    (auto intro: feat_chunk_progress)

declare offline_loop.simps [simp del]

definition fsmn_detect_offline ::
  "'f f32_ops \<Rightarrow> ('f, 'row, 'c) vad_net \<Rightarrow> 'f waveform \<Rightarrow> 'f vad_options \<Rightarrow> 'f vad_segment list result" where
  "fsmn_detect_offline F net w options =
     rbind (net_features net (samples_f32_to_i16 F (wf_samples w))) (\<lambda>feats.
       if feats = [] then Inr []
       else rbind (net_zero_caches net) (\<lambda>caches.
            rbind (build_e2e_model F options) (\<lambda>e2e.
            rbind (offline_loop F net (as_i32 (vo_min_silence_ms options)) (wf_samples w) feats 0 caches e2e [])
              (\<lambda>ms_segments. Inr (map (to_vad_segment options) ms_segments)))))"

definition detect_with_timing ::
  "'f f32_ops \<Rightarrow> ('f, 'row, 'c) vad_net \<Rightarrow> 'f waveform \<Rightarrow> 'f vad_options \<Rightarrow> 'f vad_segment list result" where
  "detect_with_timing F net w options =
     (if wf_sample_rate w \<noteq> FSMN_VAD_SAMPLE_RATE then Inl (Err ''FSMN VAD expects 16kHz mono audio'')
      else fsmn_detect_offline F net w options)"

section \<open>The streaming session\<close>

record ('f, 'c) vad_session =
  ss_caches :: 'c
  ss_e2e :: "'f e2e_vad"
  ss_options :: "'f vad_options"
  ss_pending :: "16 word list"

definition session_new ::
  "'f f32_ops \<Rightarrow> ('f, 'row, 'c) vad_net \<Rightarrow> 'f vad_options \<Rightarrow> ('f, 'c) vad_session result" where
  "session_new F net options =
     rbind (net_zero_caches net) (\<lambda>caches.
     rbind (build_e2e_model F options) (\<lambda>e2e.
     Inr \<lparr>ss_caches = caches, ss_e2e = e2e, ss_options = options, ss_pending = []\<rparr>))"

definition wave_of_chunk :: "'f f32_ops \<Rightarrow> 16 word list \<Rightarrow> 'f list" where
  "wave_of_chunk F chunk = map (\<lambda>s. f_div F (f_int F (sint s)) (f_int F 32767)) chunk"

definition score_and_segment ::
  "'f f32_ops \<Rightarrow> ('f, 'row, 'c) vad_net \<Rightarrow> 16 word list \<Rightarrow> bool \<Rightarrow>
   (('f, 'c) vad_session, (nat \<times> nat) list) prog" where
  "score_and_segment F net chunk is_final s =
     (case net_features net chunk of Inl e \<Rightarrow> (Inl e, s)
      | Inr feats \<Rightarrow>
        (case net_scores net feats (ss_caches s) of (scores, caches) \<Rightarrow>
          let s1 = s\<lparr>ss_caches := caches\<rparr>
          in (case scores of Inl e \<Rightarrow> (Inl e, s1)
              | Inr frame_scores \<Rightarrow>
                (case detect_chunk F frame_scores (wave_of_chunk F chunk) is_final
                        (as_i32 (vo_min_silence_ms (ss_options s1))) (ss_e2e s1) of
                   Inl e \<Rightarrow> (Inl e, s1)
                 | Inr (segs, e2e) \<Rightarrow> (Inr segs, s1\<lparr>ss_e2e := e2e\<rparr>)))))"

definition fill_pending ::
  "'f f32_ops \<Rightarrow> ('f, 'row, 'c) vad_net \<Rightarrow> 16 word list \<Rightarrow>
   (('f, 'c) vad_session, (nat \<times> nat) list \<times> 16 word list) prog" where
  "fill_pending F net input s =
     (if ss_pending s = [] then (Inr ([], input), s)
      else
        let n = min (FSMN_VAD_CHUNK_SIZE - length (ss_pending s)) (length input);
            filled = ss_pending s @ take n input
        in if length filled = FSMN_VAD_CHUNK_SIZE
           then bindP (score_and_segment F net filled False) (\<lambda>segs. ret (segs, drop n input))
                  (s\<lparr>ss_pending := []\<rparr>)
           else (Inr ([], drop n input), s\<lparr>ss_pending := filled\<rparr>))"

definition split_full_chunks :: "16 word list \<Rightarrow> 16 word list \<times> 16 word list" where
  "split_full_chunks samples =
     (let full_len = length samples div FSMN_VAD_CHUNK_SIZE * FSMN_VAD_CHUNK_SIZE
      in (take full_len samples, drop full_len samples))"

definition push_samples_i16 ::
  "'f f32_ops \<Rightarrow> ('f, 'row, 'c) vad_net \<Rightarrow> 16 word list \<Rightarrow>
   (('f, 'c) vad_session, 'f vad_segment list) prog" where
  "push_samples_i16 F net samples =
     bindP (fill_pending F net samples) (\<lambda>(segs, input).
     case split_full_chunks input of (full_chunks, tail) \<Rightarrow>
     bindP (foldP (\<lambda>acc chunk. bindP (score_and_segment F net chunk False) (\<lambda>new. ret (acc @ new)))
              segs (chunks_of FSMN_VAD_CHUNK_SIZE full_chunks)) (\<lambda>segments.
     bindP (modifyP (\<lambda>s. s\<lparr>ss_pending := ss_pending s @ tail\<rparr>)) (\<lambda>_.
     bindP (gets ss_options) (\<lambda>options. ret (map (to_vad_segment options) segments)))))"

definition push_samples_f32 ::
  "'f f32_ops \<Rightarrow> ('f, 'row, 'c) vad_net \<Rightarrow> 'f list \<Rightarrow>
   (('f, 'c) vad_session, 'f vad_segment list) prog" where
  "push_samples_f32 F net samples = push_samples_i16 F net (samples_f32_to_i16 F samples)"

definition finish_segments ::
  "'f f32_ops \<Rightarrow> ('f, 'row, 'c) vad_net \<Rightarrow> (('f, 'c) vad_session, 'f vad_segment list) prog" where
  "finish_segments F net s =
     bindP
       (if ss_pending s \<noteq> [] then
          let chunk = ss_pending s @ replicate (FSMN_VAD_CHUNK_SIZE - length (ss_pending s)) 0
          in bindP (modifyP (\<lambda>s. s\<lparr>ss_pending := []\<rparr>)) (\<lambda>_. score_and_segment F net chunk True)
        else (\<lambda>s. case finalize_streaming F (as_i32 (vo_min_silence_ms (ss_options s))) (ss_e2e s) of
                (segs, e2e) \<Rightarrow> (Inr segs, s\<lparr>ss_e2e := e2e\<rparr>)))
       (\<lambda>segments. bindP (gets ss_options) (\<lambda>options. ret (map (to_vad_segment options) segments))) s"

definition session_push_chunk ::
  "'f f32_ops \<Rightarrow> ('f, 'row, 'c) vad_net \<Rightarrow> 'f audio_chunk \<Rightarrow>
   (('f, 'c) vad_session, time_range list) prog" where
  "session_push_chunk F net chunk =
     (if wf_sample_rate (ac_waveform chunk) \<noteq> FSMN_VAD_SAMPLE_RATE
      then liftR (Inl (Err ''FSMN VAD expects 16kHz mono audio''))
      else bindP (push_samples_f32 F net (wf_samples (ac_waveform chunk)))
             (\<lambda>segs. ret (map vs_range segs)))"

definition session_finish ::
  "'f f32_ops \<Rightarrow> ('f, 'row, 'c) vad_net \<Rightarrow> (('f, 'c) vad_session, time_range list) prog" where
  "session_finish F net = bindP (finish_segments F net) (\<lambda>segs. ret (map vs_range segs))"

end
