(* ===== verification/FsmnVadSegments.thy ===== *)
theory FsmnVadSegments
  imports FsmnVad
begin

text \<open>What the FSMN detector reports: the offline segments, the independence of a streaming session
  from the way its samples are cut, and the time scale of the session.\<close>

section \<open>The front end and the default configuration\<close>

text \<open>The filter bank drops incomplete frames at the edges: frames of 400 samples every 160.\<close>

definition snip_frames :: "nat \<Rightarrow> nat" where
  "snip_frames n = (if n < FSMN_VAD_FRAME_LENGTH_SAMPLES then 0
     else (n - FSMN_VAD_FRAME_LENGTH_SAMPLES) div FSMN_VAD_FRAME_SHIFT_SAMPLES + 1)"

definition net_frames :: "('f, 'row, 'c) vad_net \<Rightarrow> bool" where
  "net_frames net \<longleftrightarrow>
     (\<forall>pcm feats. net_features net pcm = Inr feats \<longrightarrow> length feats = snip_frames (length pcm)) \<and>
     (\<forall>feats c scores c'. net_scores net feats c = (Inr scores, c') \<longrightarrow> length scores = length feats)"

definition vad_default_opts :: "'f e2e_config \<Rightarrow> bool" where
  "vad_default_opts c \<longleftrightarrow> vad_cfg_ok c \<and> frame_shift_len c = 160 \<and> frame_sample_len c = 400 \<and>
     frame_in_ms c = 10"

lemma build_e2e_ready:
  obtains m where "build_e2e_model F options = Inr m" "vad_ready m" "vad_default_opts (opts m)"
    "frm_cnt m = 0" "reported_until m = 0"
proof -
  let ?c = "(e2e_default_config F)\<lparr>cfg_speech_noise_thres := vo_threshold options\<rparr>"
  have c: "vad_default_opts ?c"
    by (simp add: vad_default_opts_def vad_cfg_ok_def e2e_default_config_def frame_shift_len_def
        frame_sample_len_def)
  have "0 < idiv (window_size_ms ?c) (frame_in_ms ?c)" "2 \<le> idiv (sil_to_speech_time_thres ?c) (frame_in_ms ?c)"
    by (simp_all add: e2e_default_config_def)
  from e2e_new_ready[OF _ this, of F] c obtain m where
    "e2e_new F ?c = Inr m" "vad_ready m" "opts m = ?c" "frm_cnt m = 0" "reported_until m = 0"
    unfolding vad_default_opts_def by blast
  with c show thesis by (intro that) (simp_all add: build_e2e_model_def)
qed

section \<open>Offline\<close>

definition offline_post :: "('f, 'row, 'c) vad_net \<Rightarrow> nat \<Rightarrow> (nat \<times> nat) list result \<Rightarrow> bool" where
  "offline_post net frames r \<longleftrightarrow>
     (case r of Inl e \<Rightarrow> \<exists>fs c. fst (net_scores net fs c) = Inl e
      | Inr segs \<Rightarrow> times_chain 0 segs \<and> times_end 0 segs \<le> frames * 10)"

lemma wave_covers_frames:
  fixes step off n len e :: nat
  assumes "1 \<le> step" "off + step \<le> n" "(n - 1) * 160 + 400 \<le> len"
    and "e = (if n \<le> off + step then len else min ((off + step - 1) * 160 + 400) len)"
  shows "off * 160 \<le> e" "(step - 1) * 160 + 400 \<le> e - off * 160" "e \<le> len"
proof -
  obtain j where j: "step = Suc j" using assms(1) by (cases step) auto
  obtain k where "n = off + step + k" using assms(2) le_Suc_ex by blast
  then have "(off + j + k) * 160 + 400 \<le> len" and "e = len \<or> e = min ((off + j) * 160 + 400) len"
    using assms(3,4) j by auto
  then show "off * 160 \<le> e" "(step - 1) * 160 + 400 \<le> e - off * 160" "e \<le> len"
    by (auto simp: j)
qed

lemma offline_loop_post:
  assumes net: "net_frames net" and len: "snip_frames (length samples) = length feats"
    and off: "off \<le> length feats" and rdy: "vad_ready e2e" and opt: "vad_default_opts (opts e2e)"
    and st: "off < length feats \<Longrightarrow> frm_cnt e2e = int off \<and> reported_until e2e = times_end 0 acc"
    and acc: "times_chain 0 acc" "times_end 0 acc \<le> length feats * 10"
  shows "offline_post net (length feats) (offline_loop F net sil samples feats off caches e2e acc)"
  using off rdy opt st acc
proof (induction "length feats - off" arbitrary: off caches e2e acc rule: less_induct)
  case less
  let ?n = "length feats"
  show ?case
  proof (cases "off < ?n")
    case False
    then show ?thesis using less.prems by (subst offline_loop.simps) (simp add: offline_post_def)
  next
    case True
    let ?step = "min FSMN_VAD_FEAT_CHUNK_SIZE (?n - off)"
    let ?final = "?n \<le> off + ?step"
    let ?start = "off * FSMN_VAD_FRAME_SHIFT_SAMPLES"
    let ?stop = "if ?final then length samples
      else min ((off + ?step - 1) * FSMN_VAD_FRAME_SHIFT_SAMPLES + FSMN_VAD_FRAME_LENGTH_SAMPLES) (length samples)"
    define E where "E = (?stop)"
    let ?wave = "take (E - ?start) (drop ?start samples)"
    obtain scores caches' where sc: "net_scores net (take ?step (drop off feats)) caches = (scores, caches')"
      by fastforce
    show ?thesis
    proof (cases scores)
      case (Inl e)
      then have "fst (net_scores net (take ?step (drop off feats)) caches) = Inl e" using sc by simp
      then have "\<exists>fs c. fst (net_scores net fs c) = Inl e" by blast
      then show ?thesis using True Inl sc
        by (subst offline_loop.simps) (auto simp: offline_post_def Let_def)
    next
      case (Inr frame_scores)
      have step: "1 \<le> ?step" "off + ?step \<le> ?n" using True by (auto simp: FSMN_VAD_FEAT_CHUNK_SIZE_def)
      have "length frame_scores = length (take ?step (drop off feats))"
        using net sc Inr unfolding net_frames_def by blast
      then have nsc: "length frame_scores = ?step" using step(2) by simp
      have cover: "(?n - 1) * 160 + 400 \<le> length samples"
        using len True by (auto simp: snip_frames_def fsmn_constants split: if_splits)
      have "E = (if ?n \<le> off + ?step then length samples
          else min ((off + ?step - 1) * 160 + 400) (length samples))"
        unfolding E_def FSMN_VAD_FRAME_SHIFT_SAMPLES_def FSMN_VAD_FRAME_LENGTH_SAMPLES_def by (rule refl)
      note E = wave_covers_frames[OF step cover this]
      have wlen: "(?step - 1) * 160 + 400 \<le> length ?wave" and se: "?start \<le> E"
        using E by (simp_all add: FSMN_VAD_FRAME_SHIFT_SAMPLES_def)
      have wave: "frame_sample_len (opts e2e) \<le> int (length ?wave)"
        "int (length frame_scores) * shift_of e2e \<le> int (length ?wave)"
      proof -
        have "k * 160 \<le> (k - 1) * 160 + 400" for k :: nat by (cases k) auto
        then have "length frame_scores * 160 \<le> length ?wave" using wlen unfolding nsc by (rule order_trans)
        then have "int (length frame_scores) * 160 \<le> int (length ?wave)" by linarith
        then show "int (length frame_scores) * shift_of e2e \<le> int (length ?wave)"
          using less.prems(3) by (simp only: vad_default_opts_def)
        show "frame_sample_len (opts e2e) \<le> int (length ?wave)"
          using wlen less.prems(3) unfolding vad_default_opts_def by linarith
      qed
      have st: "frm_cnt e2e = int off" "reported_until e2e = times_end 0 acc"
        using less.prems(4) True by auto
      obtain segs e2e' where d: "detect_chunk F frame_scores ?wave ?final sil e2e = Inr (segs, e2e')"
        "vad_ready e2e'" "opts e2e' = opts e2e" "times_chain (reported_until e2e) segs"
        "times_end (reported_until e2e) segs \<le> nat ((frm_cnt e2e + int (length frame_scores)) * frame_in_ms (opts e2e))"
        "\<not> ?final \<Longrightarrow> reported_until e2e' = times_end (reported_until e2e) segs"
        "\<not> ?final \<Longrightarrow> frm_cnt e2e' = frm_cnt e2e + int (length frame_scores)"
        using detect_chunk_spec[OF less.prems(2) wave, of F ?final sil] by blast
      have "nat ((frm_cnt e2e + int (length frame_scores)) * frame_in_ms (opts e2e)) = (off + ?step) * 10"
        using st nsc less.prems(3) by (simp add: vad_default_opts_def nat_mult_distrib nat_add_distrib)
      then have ends: "times_end (times_end 0 acc) segs \<le> ?n * 10" using d(5) st step(2) by simp
      have nxt: "frm_cnt e2e' = int (off + ?step) \<and> reported_until e2e' = times_end 0 (acc @ segs)"
        if "off + ?step < ?n"
      proof -
        have nf: "\<not> ?final" using that by linarith
        show ?thesis using d(6)[OF nf] d(7)[OF nf] unfolding st nsc by simp
      qed
      have chain: "times_chain 0 (acc @ segs)" "times_end 0 (acc @ segs) \<le> ?n * 10"
        using d(4) less.prems(5) st ends by simp_all
      have smaller: "?n - (off + ?step) < ?n - off" using step True by linarith
      have opt': "vad_default_opts (opts e2e')" using d(3) less.prems(3) by simp
      have "offline_post net ?n (offline_loop F net sil samples feats (off + ?step) caches' e2e' (acc @ segs))"
        by (rule less.hyps[OF smaller step(2) d(2) opt' nxt chain])
      then show ?thesis using True sc Inr se d(1)
        by (subst offline_loop.simps) (simp add: Let_def ensure_def flip: E_def)
    qed
  qed
qed


definition example_net :: "(int, unit, unit) vad_net" where
  "example_net = \<lparr>net_features = (\<lambda>pcm. Inr (replicate (snip_frames (length pcm)) ())),
     net_scores = (\<lambda>feats c. (Inr (map (\<lambda>_. [0]) feats), c)), net_zero_caches = Inr ()\<rparr>"

lemma example_net_frames: "net_frames example_net"
  by (auto simp: net_frames_def example_net_def)


section \<open>The session is a chunker\<close>

definition session_good :: "('f, 'c) vad_session \<Rightarrow> bool" where
  "session_good s \<longleftrightarrow> length (ss_pending s) < FSMN_VAD_CHUNK_SIZE"

definition session_set :: "16 word list \<Rightarrow> ('f, 'c) vad_session \<Rightarrow> ('f, 'c) vad_session" where
  "session_set p s = s\<lparr>ss_pending := p\<rparr>"

text \<open>One full chunk: it is scored, and its segments reported.\<close>

definition session_chunk ::
  "'f f32_ops \<Rightarrow> ('f, 'row, 'c) vad_net \<Rightarrow> 16 word list \<Rightarrow> ('f, 'c) vad_session \<Rightarrow>
   (error + 'f vad_segment list) \<times> ('f, 'c) vad_session" where
  "session_chunk F net c s = bindP (score_and_segment F net c False)
     (\<lambda>segs. ret (map (to_vad_segment (ss_options s)) segs)) s"

lemma score_set:
  "score_and_segment F net c fin (session_set p s)
     = (case score_and_segment F net c fin s of (r, s') \<Rightarrow> (r, session_set p s'))"
  by (simp add: score_and_segment_def session_set_def Let_def split: sum.split prod.split)

lemma score_options:
  "score_and_segment F net c fin s = (r, s') \<Longrightarrow> ss_options s' = ss_options s \<and> ss_pending s' = ss_pending s"
  by (auto simp: score_and_segment_def Let_def split: sum.splits prod.splits)

lemma session_chunk_set:
  "session_chunk F net c (session_set p s) = (case session_chunk F net c s of (r, s') \<Rightarrow> (r, session_set p s'))"
proof -
  have "ss_options (session_set p s) = ss_options s" by (simp add: session_set_def)
  then show ?thesis
    by (auto simp: session_chunk_def bindP_def ret_def score_set split: sum.splits prod.splits)
qed

lemma session_chunk_same:
  "session_chunk F net c s = (r, s') \<Longrightarrow> ss_options s' = ss_options s \<and> ss_pending s' = ss_pending s"
  using score_options[of F net c False s]
  by (fastforce simp: session_chunk_def bindP_def ret_def split: sum.splits prod.splits)

text \<open>The chunk loop of a push is the handling of all chunks.\<close>

definition chunk_step ::
  "'f f32_ops \<Rightarrow> ('f, 'row, 'c) vad_net \<Rightarrow> (nat \<times> nat) list \<Rightarrow> 16 word list \<Rightarrow>
   (('f, 'c) vad_session, (nat \<times> nat) list) prog" where
  "chunk_step F net acc c = bindP (score_and_segment F net c False) (\<lambda>new. ret (acc @ new))"

lemma chunk_fold_handles:
  assumes "handle_all (session_chunk F net) cs s = (Inr outs, s')"
  shows "\<exists>ts. foldP (chunk_step F net) acc cs s = (Inr (acc @ ts), s') \<and>
           outs = map (to_vad_segment (ss_options s)) ts \<and> ss_options s' = ss_options s \<and>
           ss_pending s' = ss_pending s"
  using assms
proof (induction cs arbitrary: s acc outs)
  case Nil
  then show ?case by (simp add: ret_def)
next
  case (Cons c cs)
  from Cons.prems obtain o1 s1 o2 where h: "session_chunk F net c s = (Inr o1, s1)"
    "handle_all (session_chunk F net) cs s1 = (Inr o2, s')" "outs = o1 @ o2"
    by (auto split: sum.splits prod.splits)
  from h(1) obtain t1 where t1: "score_and_segment F net c False s = (Inr t1, s1)"
    "o1 = map (to_vad_segment (ss_options s)) t1"
    by (auto simp: session_chunk_def bindP_def ret_def split: sum.splits prod.splits)
  from Cons.IH[OF h(2), of "acc @ t1"] obtain ts where
    "foldP (chunk_step F net) (acc @ t1) cs s1 = (Inr ((acc @ t1) @ ts), s')"
    "o2 = map (to_vad_segment (ss_options s1)) ts" "ss_options s' = ss_options s1"
    "ss_pending s' = ss_pending s1" by blast
  moreover have "chunk_step F net acc c s = (Inr (acc @ t1), s1)"
    using t1(1) by (simp add: chunk_step_def bindP_def ret_def)
  ultimately show ?case using t1 h(3) score_options[OF t1(1)]
    by (intro exI[of _ "t1 @ ts"]) (simp add: bindP_def)
qed

lemma foldP_append:
  "foldP f b (xs @ ys) s = (case foldP f b xs s of (Inl e, s1) \<Rightarrow> (Inl e, s1) | (Inr b1, s1) \<Rightarrow> foldP f b1 ys s1)"
  by (induction xs arbitrary: b s) (auto simp: bindP_def ret_def split: sum.splits prod.splits)

lemma push_unfold:
  "push_samples_i16 F net samples = bindP (fill_pending F net samples) (\<lambda>(segs, input).
     bindP (foldP (chunk_step F net) segs (chunks_of FSMN_VAD_CHUNK_SIZE input)) (\<lambda>segments.
     bindP (modifyP (\<lambda>s. s\<lparr>ss_pending := ss_pending s @ rest_of FSMN_VAD_CHUNK_SIZE input\<rparr>)) (\<lambda>_.
     bindP (gets ss_options) (\<lambda>options. ret (map (to_vad_segment options) segments)))))"
  unfolding push_samples_i16_def chunk_step_def split_full_chunks_def Let_def
  by (simp add: chunks_of_full rest_of_def FSMN_VAD_CHUNK_SIZE_def)

lemma session_chunks_set:
  "handle_all (session_chunk F net) cs (session_set p s)
     = (case handle_all (session_chunk F net) cs s of (r, s') \<Rightarrow> (r, session_set p s'))"
  by (induction cs arbitrary: s) (auto simp: session_chunk_set split: sum.splits prod.splits)

lemma push_after_fill:
  assumes fill: "fill_pending F net samples s = (Inr (ts, input), s0)"
    and chunks: "handle_all (session_chunk F net) (chunks_of FSMN_VAD_CHUNK_SIZE input) s0 = (Inr outs, s')"
  shows "push_samples_i16 F net samples s = (Inr (map (to_vad_segment (ss_options s0)) ts @ outs),
           session_set (ss_pending s0 @ rest_of FSMN_VAD_CHUNK_SIZE input) s')"
proof -
  from chunk_fold_handles[OF chunks, of ts] obtain us where
    "foldP (chunk_step F net) ts (chunks_of FSMN_VAD_CHUNK_SIZE input) s0 = (Inr (ts @ us), s')"
    "outs = map (to_vad_segment (ss_options s0)) us" "ss_options s' = ss_options s0"
    "ss_pending s' = ss_pending s0" by blast
  then show ?thesis using fill
    by (simp add: push_unfold modifyP_def gets_def ret_def bindP_def session_set_def)
qed

lemma session_feed_law:
  assumes good: "session_good s"
    and chunks: "handle_all (session_chunk F net) (chunks_of FSMN_VAD_CHUNK_SIZE (ss_pending s @ xs)) s
      = (Inr cs, s')"
  shows "push_samples_i16 F net xs s
      = (Inr cs, session_set (rest_of FSMN_VAD_CHUNK_SIZE (ss_pending s @ xs)) s')"
proof -
  let ?K = FSMN_VAD_CHUNK_SIZE and ?p = "ss_pending s"
  let ?n = "min (?K - length ?p) (length xs)"
  have K: "0 < ?K" by (simp add: FSMN_VAD_CHUNK_SIZE_def)
  consider (empty) "?p = []" | (short) "?p \<noteq> []" "length ?p + length xs < ?K"
    | (full) "?p \<noteq> []" "?K \<le> length ?p + length xs" by linarith
  then show ?thesis
  proof cases
    case empty
    then have "fill_pending F net xs s = (Inr ([], xs), s)" by (simp add: fill_pending_def)
    from push_after_fill[OF this] chunks empty show ?thesis by simp
  next
    case short
    then have fill: "fill_pending F net xs s = (Inr ([], []), session_set (?p @ xs) s)"
      by (simp add: fill_pending_def Let_def session_set_def)
    have "cs = []" "s' = s" using chunks short by simp_all
    then show ?thesis using push_after_fill[OF fill, of "[]"] short
      by (simp add: session_set_def rest_of_def)
  next
    case full
    let ?c = "?p @ take ?n xs" and ?xs = "drop ?n xs"
    have len: "length ?c = ?K" using full(2) good by (simp add: session_good_def)
    have split: "?p @ xs = ?c @ ?xs" by simp
    have ch: "chunks_of ?K (?p @ xs) = ?c # chunks_of ?K ?xs"
      unfolding split using len K by (subst chunks_of_step) simp_all
    have rest: "rest_of ?K (?p @ xs) = rest_of ?K ?xs"
      using rest_of_step[OF K len, of ?xs] by simp
    from chunks obtain o1 s1 o2 where h: "session_chunk F net ?c s = (Inr o1, s1)"
      "handle_all (session_chunk F net) (chunks_of ?K ?xs) s1 = (Inr o2, s')" "cs = o1 @ o2"
      unfolding ch by (auto split: sum.splits prod.splits)
    then obtain t1 where t1: "score_and_segment F net ?c False s = (Inr t1, s1)"
      "o1 = map (to_vad_segment (ss_options s)) t1"
      by (auto simp: session_chunk_def bindP_def ret_def split: sum.splits prod.splits)
    have "fill_pending F net xs s = bindP (score_and_segment F net ?c False) (\<lambda>segs. ret (segs, ?xs)) (session_set [] s)"
      using full(1) len by (simp add: fill_pending_def Let_def session_set_def)
    also have "\<dots> = (Inr (t1, ?xs), session_set [] s1)"
      using t1(1) by (simp add: bindP_def ret_def score_set)
    finally have fill: "fill_pending F net xs s = (Inr (t1, ?xs), session_set [] s1)" .
    have "ss_options (session_set [] s1) = ss_options s" "ss_pending (session_set [] s1) = []"
      using score_options[OF t1(1)] by (simp_all add: session_set_def)
    then show ?thesis
      using push_after_fill[OF fill, of o2 "session_set [] s'"] h t1(2)
      by (simp add: session_chunks_set rest) (simp add: session_set_def)
  qed
qed

interpretation session: fixed_chunker "\<lambda>_. FSMN_VAD_CHUNK_SIZE" ss_pending session_set
  "session_chunk (F :: 'f f32_ops) (net :: ('f, 'row, 'c) vad_net)" "push_samples_i16 F net" session_good
proof
  fix s s' :: "('f, 'c) vad_session" and p q c xs cs
  show "0 < FSMN_VAD_CHUNK_SIZE" by (simp add: FSMN_VAD_CHUNK_SIZE_def)
  show "FSMN_VAD_CHUNK_SIZE = FSMN_VAD_CHUNK_SIZE" by (rule refl)
  show "length p < FSMN_VAD_CHUNK_SIZE \<Longrightarrow> session_good (session_set p s)"
    by (simp add: session_good_def session_set_def)
  show "ss_pending (session_set p s) = p" "session_set p (session_set q s) = session_set p s"
    by (simp_all add: session_set_def)
  show "session_chunk F net c (session_set p s) = (case session_chunk F net c s of (r, s') \<Rightarrow> (r, session_set p s'))"
    by (rule session_chunk_set)
  show "session_good s \<Longrightarrow> session_chunk F net c s = (Inr cs, s') \<Longrightarrow>
      session_good s' \<and> FSMN_VAD_CHUNK_SIZE = FSMN_VAD_CHUNK_SIZE"
    using session_chunk_same[of F net c s] by (auto simp: session_good_def)
  show "session_good s \<Longrightarrow>
      handle_all (session_chunk F net) (chunks_of FSMN_VAD_CHUNK_SIZE (ss_pending s @ xs)) s = (Inr cs, s') \<Longrightarrow>
      push_samples_i16 F net xs s = (Inr cs, session_set (rest_of FSMN_VAD_CHUNK_SIZE (ss_pending s @ xs)) s')"
    by (rule session_feed_law)
qed

section \<open>What a session reports\<close>

definition net_total :: "('f, 'row, 'c) vad_net \<Rightarrow> bool" where
  "net_total net \<longleftrightarrow> net_frames net \<and> (\<forall>pcm. \<exists>feats. net_features net pcm = Inr feats) \<and>
     (\<forall>feats c. \<exists>scores c'. net_scores net feats c = (Inr scores, c')) \<and> (\<exists>c. net_zero_caches net = Inr c)"

definition session_ready :: "('f, 'c) vad_session \<Rightarrow> bool" where
  "session_ready s \<longleftrightarrow> session_good s \<and> vad_ready (ss_e2e s) \<and> vad_default_opts (opts (ss_e2e s))"

definition seg_times :: "'f vad_segment \<Rightarrow> nat \<times> nat" where
  "seg_times seg = (tr_start (vs_range seg), tr_end (vs_range seg))"

lemma seg_times_of [simp]: "map seg_times (map (to_vad_segment options) ts) = ts"
  by (induction ts) (auto simp: seg_times_def to_vad_segment_def time_range_new_def)

lemma score_chunk_spec:
  assumes net: "net_total net" and rdy: "session_ready s" and c: "length c = FSMN_VAD_CHUNK_SIZE"
  obtains ts s' where "score_and_segment F net c fin s = (Inr ts, s')" "session_ready s'"
    "ss_pending s' = ss_pending s" "ss_options s' = ss_options s"
    "times_chain (reported_until (ss_e2e s)) ts"
    "times_end (reported_until (ss_e2e s)) ts \<le> nat (frm_cnt (ss_e2e s) + 1) * 10"
    "\<not> fin \<Longrightarrow> reported_until (ss_e2e s') = times_end (reported_until (ss_e2e s)) ts"
    "\<not> fin \<Longrightarrow> frm_cnt (ss_e2e s') = frm_cnt (ss_e2e s) + 1"
proof -
  let ?m = "ss_e2e s"
  obtain feats where f: "net_features net c = Inr feats" using net unfolding net_total_def by blast
  obtain scores c' where sc: "net_scores net feats (ss_caches s) = (Inr scores, c')"
    using net by (meson net_total_def)
  have "length feats = snip_frames (length c)" "length scores = length feats"
    using net f sc unfolding net_total_def net_frames_def by blast+
  then have one: "length scores = 1" by (simp add: c snip_frames_def fsmn_constants)
  have wave: "length (wave_of_chunk F c) = 512" by (simp add: wave_of_chunk_def c FSMN_VAD_CHUNK_SIZE_def)
  have m: "vad_ready ?m" "vad_default_opts (opts ?m)" using rdy by (auto simp: session_ready_def)
  then have o: "frame_sample_len (opts ?m) \<le> int (length (wave_of_chunk F c))"
    "int (length scores) * shift_of ?m \<le> int (length (wave_of_chunk F c))"
    using one wave by (simp_all add: vad_default_opts_def)
  obtain ts m' where d: "detect_chunk F scores (wave_of_chunk F c) fin (as_i32 (vo_min_silence_ms (ss_options s))) ?m
        = Inr (ts, m')"
    "vad_ready m'" "opts m' = opts ?m" "times_chain (reported_until ?m) ts"
    "times_end (reported_until ?m) ts \<le> nat ((frm_cnt ?m + int (length scores)) * frame_in_ms (opts ?m))"
    "\<not> fin \<Longrightarrow> reported_until m' = times_end (reported_until ?m) ts"
    "\<not> fin \<Longrightarrow> frm_cnt m' = frm_cnt ?m + int (length scores)"
    using detect_chunk_spec[OF m(1) o, of F fin "as_i32 (vo_min_silence_ms (ss_options s))"] by blast
  let ?s' = "s\<lparr>ss_caches := c', ss_e2e := m'\<rparr>"
  have res: "score_and_segment F net c fin s = (Inr ts, ?s')"
    using f sc d(1) by (simp add: score_and_segment_def Let_def)
  have "0 \<le> frm_cnt ?m" using m(1) by (simp add: vad_ready_def)
  then have "nat ((frm_cnt ?m + int (length scores)) * frame_in_ms (opts ?m)) = nat (frm_cnt ?m + 1) * 10"
    using one m(2) by (simp add: vad_default_opts_def nat_mult_distrib)
  then show thesis using d one m rdy
    by (intro that[OF res]) (auto simp: session_ready_def session_good_def)
qed

lemma session_chunks_spec:
  assumes "net_total net" "session_ready s" "\<forall>c \<in> set cs. length c = FSMN_VAD_CHUNK_SIZE"
  shows "\<exists>outs s'. handle_all (session_chunk F net) cs s = (Inr outs, s') \<and> session_ready s' \<and>
    ss_pending s' = ss_pending s \<and> ss_options s' = ss_options s \<and>
    times_chain (reported_until (ss_e2e s)) (map seg_times outs) \<and>
    reported_until (ss_e2e s') = times_end (reported_until (ss_e2e s)) (map seg_times outs) \<and>
    frm_cnt (ss_e2e s') = frm_cnt (ss_e2e s) + int (length cs) \<and>
    (reported_until (ss_e2e s) \<le> nat (frm_cnt (ss_e2e s)) * 10 \<longrightarrow>
     reported_until (ss_e2e s') \<le> nat (frm_cnt (ss_e2e s')) * 10)"
  using assms(2,3)
proof (induction cs arbitrary: s)
  case (Cons c cs)
  from Cons.prems(2) have c: "length c = FSMN_VAD_CHUNK_SIZE" by simp
  obtain ts s1 where sc: "score_and_segment F net c False s = (Inr ts, s1)" "session_ready s1"
    "ss_pending s1 = ss_pending s" "ss_options s1 = ss_options s"
    "times_chain (reported_until (ss_e2e s)) ts"
    "times_end (reported_until (ss_e2e s)) ts \<le> nat (frm_cnt (ss_e2e s) + 1) * 10"
    "reported_until (ss_e2e s1) = times_end (reported_until (ss_e2e s)) ts"
    "frm_cnt (ss_e2e s1) = frm_cnt (ss_e2e s) + 1"
    using score_chunk_spec[OF assms(1) Cons.prems(1) c, of F False] by metis
  have ch: "session_chunk F net c s = (Inr (map (to_vad_segment (ss_options s)) ts), s1)"
    using sc(1) by (simp add: session_chunk_def bindP_def ret_def)
  from Cons.IH[OF sc(2)] Cons.prems(2) obtain outs s' where o:
    "handle_all (session_chunk F net) cs s1 = (Inr outs, s')" "session_ready s'"
    "ss_pending s' = ss_pending s1" "ss_options s' = ss_options s1"
    "times_chain (reported_until (ss_e2e s1)) (map seg_times outs)"
    "reported_until (ss_e2e s') = times_end (reported_until (ss_e2e s1)) (map seg_times outs)"
    "frm_cnt (ss_e2e s') = frm_cnt (ss_e2e s1) + int (length cs)"
    "reported_until (ss_e2e s1) \<le> nat (frm_cnt (ss_e2e s1)) * 10 \<longrightarrow>
     reported_until (ss_e2e s') \<le> nat (frm_cnt (ss_e2e s')) * 10" by auto
  let ?outs = "map (to_vad_segment (ss_options s)) ts @ outs"
  have times: "map seg_times ?outs = ts @ map seg_times outs"
    unfolding map_append seg_times_of by (rule refl)
  have "handle_all (session_chunk F net) (c # cs) s = (Inr ?outs, s')" using ch o(1) by simp
  moreover have "reported_until (ss_e2e s1) \<le> nat (frm_cnt (ss_e2e s1)) * 10" using sc(6-8) by simp
  ultimately show ?case using sc o
    by (intro exI[of _ ?outs] exI[of _ s'] conjI) (simp_all only: times, simp_all)
qed simp

lemma session_push_total:
  assumes net: "net_total net" and rdy: "session_ready s"
  shows "\<exists>segs s'. push_samples_i16 F net input s = (Inr segs, s') \<and> session_ready s' \<and>
    handle_all (session_chunk F net) (chunks_of FSMN_VAD_CHUNK_SIZE (ss_pending s @ input)) s
      = (Inr segs, session_set (ss_pending s) s') \<and>
    ss_pending s' = rest_of FSMN_VAD_CHUNK_SIZE (ss_pending s @ input) \<and>
    times_chain (reported_until (ss_e2e s)) (map seg_times segs) \<and>
    reported_until (ss_e2e s') = times_end (reported_until (ss_e2e s)) (map seg_times segs) \<and>
    frm_cnt (ss_e2e s') = frm_cnt (ss_e2e s)
      + int (length (ss_pending s @ input) div FSMN_VAD_CHUNK_SIZE) \<and>
    (reported_until (ss_e2e s) \<le> nat (frm_cnt (ss_e2e s)) * 10 \<longrightarrow>
     reported_until (ss_e2e s') \<le> nat (frm_cnt (ss_e2e s')) * 10)"
proof -
  let ?K = FSMN_VAD_CHUNK_SIZE
  let ?cs = "chunks_of ?K (ss_pending s @ input)" and ?r = "rest_of ?K (ss_pending s @ input)"
  have K: "0 < ?K" by (simp add: FSMN_VAD_CHUNK_SIZE_def)
  have "\<forall>c \<in> set ?cs. length c = ?K" using chunks_of_length by blast
  from session_chunks_spec[OF net rdy this, of F] obtain outs s1 where o:
    "handle_all (session_chunk F net) ?cs s = (Inr outs, s1)" "session_ready s1"
    "ss_pending s1 = ss_pending s" "ss_options s1 = ss_options s"
    "times_chain (reported_until (ss_e2e s)) (map seg_times outs)"
    "reported_until (ss_e2e s1) = times_end (reported_until (ss_e2e s)) (map seg_times outs)"
    "frm_cnt (ss_e2e s1) = frm_cnt (ss_e2e s) + int (length ?cs)"
    "reported_until (ss_e2e s) \<le> nat (frm_cnt (ss_e2e s)) * 10 \<longrightarrow>
     reported_until (ss_e2e s1) \<le> nat (frm_cnt (ss_e2e s1)) * 10" by blast
  have good: "session_good s" using rdy by (simp add: session_ready_def)
  note push = session_feed_law[OF good o(1)]
  have "session_ready (session_set ?r s1)"
    using o(2) rest_of_less[OF K] by (simp add: session_ready_def session_good_def session_set_def)
  moreover have "session_set (ss_pending s) (session_set ?r s1) = s1"
    using o(3) by (simp add: session_set_def)
  moreover have "length ?cs = length (ss_pending s @ input) div ?K" by (rule chunks_of_count[OF K])
  ultimately show ?thesis using o push
    by (intro exI[of _ outs] exI[of _ "session_set ?r s1"]) (simp add: session_set_def)
qed

text \<open>C18: A streaming session does not depend on how its samples are cut: pushing them in any pieces
  succeeds, and reports the same segments in the same order and leaves the same state as pushing
  them at once.\<close>

theorem session_pieces_invariant:
  assumes net: "net_total net" and rdy: "session_ready s" and ne: "pieces \<noteq> []"
  shows "\<exists>segs s'. handle_all (push_samples_i16 F net) pieces s = (Inr segs, s') \<and>
           push_samples_i16 F net (concat pieces) s = (Inr segs, s') \<and> session_ready s'"
proof -
  have good: "session_good s" using rdy by (simp add: session_ready_def)
  obtain segs s' where p: "push_samples_i16 F net (concat pieces) s = (Inr segs, s')" "session_ready s'"
    "handle_all (session_chunk F net) (chunks_of FSMN_VAD_CHUNK_SIZE (ss_pending s @ concat pieces)) s
      = (Inr segs, session_set (ss_pending s) s')"
    using session_push_total[OF net rdy, of F "concat pieces"] by blast
  from session.feed_split_invariant[OF good refl ne p(3)] p(1,2) show ?thesis by auto
qed

lemma ceil_512: "(n + 511) div 512 = n div 512 + 1" if "n mod 512 \<noteq> 0" for n :: nat
proof -
  define q r where "q = n div 512" and "r = n mod 512"
  have n: "n = 512 * q + r" unfolding q_def r_def by (rule mult_div_mod_eq[symmetric])
  have "0 < r" "r < 512" using that by (simp_all add: r_def)
  then have "(n + 511) div 512 = q + 1" unfolding n by (intro div_nat_eqI) auto
  then show ?thesis by (simp add: q_def)
qed

lemma scale_ms: "e \<le> q * 10 \<Longrightarrow> q * 512 \<le> n \<Longrightarrow> 512 * e \<le> 10 * n" for e q n :: nat
  by linarith

lemma session_new_ready:
  assumes "net_total net"
  obtains s where "session_new F net options = Inr s" "session_ready s" "ss_pending s = []"
    "frm_cnt (ss_e2e s) = 0" "reported_until (ss_e2e s) = 0"
proof -
  obtain c where c: "net_zero_caches net = Inr c" using assms unfolding net_total_def by blast
  obtain m where m: "build_e2e_model F options = Inr m" "vad_ready m" "vad_default_opts (opts m)"
    "frm_cnt m = 0" "reported_until m = 0" by (rule build_e2e_ready)
  show thesis using c m
    by (intro that) (auto simp: session_new_def session_ready_def session_good_def FSMN_VAD_CHUNK_SIZE_def)
qed

lemma example_net_total: "net_total example_net"
  using example_net_frames by (auto simp: net_total_def example_net_def)

lemma session_pieces_invariant_witness:
  "\<exists>s segs s'. session_new example_f32 example_net (default_vad_options example_f32) = Inr s \<and>
     handle_all (push_samples_i16 example_f32 example_net) [replicate 300 1, replicate 800 2] s = (Inr segs, s') \<and>
     push_samples_i16 example_f32 example_net (replicate 300 1 @ replicate 800 2) s = (Inr segs, s')"
proof -
  obtain s where s: "session_new example_f32 example_net (default_vad_options example_f32) = Inr s"
    "session_ready s" by (rule session_new_ready[OF example_net_total])
  have c: "concat [replicate 300 1, replicate 800 2] = replicate 300 1 @ replicate 800 (2 :: 16 word)" by simp
  from session_pieces_invariant[OF example_net_total s(2), of "[replicate 300 1, replicate 800 2]" example_f32]
  show ?thesis using s(1) unfolding c by blast
qed

text \<open>C19: The times a streaming session reports are in order, but they count ten milliseconds for each
  chunk of 512 samples, which last 32 milliseconds: over any pieces and the final flush of N samples
  no time exceeds 10 * ceil (N / 512) milliseconds, less than a third of the duration.\<close>

theorem session_times_are_compressed:
  assumes net: "net_total net" and new: "session_new F net options = Inr s0"
    and push: "push_samples_i16 F net samples s0 = (Inr segs, s1)"
    and fin: "finish_segments F net s1 = (Inr last_segs, s2)"
  shows "times_chain 0 (map seg_times (segs @ last_segs)) \<and>
    (\<forall>seg \<in> set (segs @ last_segs). 512 * tr_end (vs_range seg) \<le> 10 * (length samples + 511))"
proof -
  obtain s where "session_new F net options = Inr s" and rdy: "session_ready s" "ss_pending s = []"
    "frm_cnt (ss_e2e s) = 0" "reported_until (ss_e2e s) = 0" by (rule session_new_ready[OF net])
  then have s: "s = s0" using new by simp
  let ?K = FSMN_VAD_CHUNK_SIZE and ?N = "length samples"
  have p: "session_ready s1" "times_chain 0 (map seg_times segs)"
    "reported_until (ss_e2e s1) = times_end 0 (map seg_times segs)"
    "frm_cnt (ss_e2e s1) = int (?N div ?K)" "ss_pending s1 = rest_of ?K samples"
    "reported_until (ss_e2e s1) \<le> nat (frm_cnt (ss_e2e s1)) * 10"
    using session_push_total[OF net rdy(1), of F samples] push rdy(2-4) unfolding s by auto
  let ?m = "ss_e2e s1"
  obtain ts where ts: "last_segs = map (to_vad_segment (ss_options s2)) ts" "times_chain (reported_until ?m) ts"
    "times_end (reported_until ?m) ts \<le> ((?N + 511) div 512) * 10"
  proof (cases "ss_pending s1 = []")
    case True
    then have "rest_of ?K samples = []" using p(5) by simp
    then have "?N div 512 \<le> (?N + 511) div 512" by (simp add: div_le_mono)
    moreover have v: "vad_ready ?m" "vad_default_opts (opts ?m)" using p(1) by (auto simp: session_ready_def)
    moreover obtain ts m' where f: "finalize_streaming F (as_i32 (vo_min_silence_ms (ss_options s1))) ?m = (ts, m')"
      "times_chain (reported_until ?m) ts"
      "times_end (reported_until ?m) ts \<le> nat (frm_cnt ?m * frame_in_ms (opts ?m))"
      by (rule finalize_streaming_spec[OF v(1)])
    moreover have "nat (frm_cnt ?m * frame_in_ms (opts ?m)) = ?N div 512 * 10"
      using v(2) p(4) by (simp add: vad_default_opts_def FSMN_VAD_CHUNK_SIZE_def nat_mult_distrib)
    ultimately show thesis using fin True
      by (intro that[of ts]) (auto simp: finish_segments_def bindP_def gets_def ret_def)
  next
    case False
    let ?chunk = "ss_pending s1 @ replicate (?K - length (ss_pending s1)) 0"
    have good: "length (ss_pending s1) < ?K" using p(1) by (simp add: session_ready_def session_good_def)
    then have len: "length ?chunk = ?K" by simp
    have "session_ready (session_set [] s1)"
      using p(1) by (simp add: session_ready_def session_good_def session_set_def FSMN_VAD_CHUNK_SIZE_def)
    moreover have "ss_e2e (session_set [] s1) = ?m" "ss_options (session_set [] s1) = ss_options s1"
      by (simp_all add: session_set_def)
    ultimately obtain ts s' where
      sc: "score_and_segment F net ?chunk True (session_set [] s1) = (Inr ts, s')"
      "ss_options s' = ss_options s1" "times_chain (reported_until ?m) ts"
      "times_end (reported_until ?m) ts \<le> nat (frm_cnt ?m + 1) * 10"
      using score_chunk_spec[OF net _ len, of "session_set [] s1" F True] by metis
    have "\<not> ?N \<le> ?N div 512 * 512" using False p(5) by (auto simp: rest_of_def FSMN_VAD_CHUNK_SIZE_def)
    then have "?N mod 512 \<noteq> 0" by (metis div_mod_decomp add.right_neutral order_refl)
    then have "?N div 512 + 1 = (?N + 511) div 512" by (rule ceil_512[symmetric])
    then have "nat (frm_cnt ?m + 1) = (?N + 511) div 512"
      using p(4) by (simp add: FSMN_VAD_CHUNK_SIZE_def nat_add_distrib)
    then show thesis using sc fin False
      by (intro that[of ts]) (auto simp: finish_segments_def bindP_def gets_def ret_def modifyP_def
          session_set_def)
  qed
  have times: "map seg_times (segs @ last_segs) = map seg_times segs @ ts"
    unfolding map_append ts(1) seg_times_of by (rule refl)
  have chain: "times_chain 0 (map seg_times (segs @ last_segs))"
    "times_end 0 (map seg_times (segs @ last_segs)) \<le> ((?N + 511) div 512) * 10"
    unfolding times using p(2,3) ts(2,3) by simp_all
  have "512 * tr_end (vs_range seg) \<le> 10 * (?N + 511)" if "seg \<in> set (segs @ last_segs)" for seg
  proof -
    have "(tr_start (vs_range seg), tr_end (vs_range seg)) \<in> set (map seg_times (segs @ last_segs))"
      using that by (force simp: seg_times_def)
    then have "tr_end (vs_range seg) \<le> ((?N + 511) div 512) * 10"
      using times_chain_bounds[OF chain(1)] chain(2) by fastforce
    moreover have "(?N + 511) div 512 * 512 \<le> ?N + 511" by (rule div_times_less_eq_dividend)
    ultimately show ?thesis by (rule scale_ms)
  qed
  with chain(1) show ?thesis by blast
qed

text \<open>A session over four seconds: no reported time reaches the second and a half.\<close>

lemma session_times_are_compressed_witness:
  "\<exists>s0 segs s1 last_segs s2.
     session_new example_f32 example_net (default_vad_options example_f32) = Inr s0 \<and>
     push_samples_i16 example_f32 example_net (replicate 64000 0) s0 = (Inr segs, s1) \<and>
     finish_segments example_f32 example_net s1 = (Inr last_segs, s2) \<and>
     (\<forall>seg \<in> set (segs @ last_segs). 512 * tr_end (vs_range seg) \<le> 10 * (64000 + 511))"
proof -
  obtain s0 where s0: "session_new example_f32 example_net (default_vad_options example_f32) = Inr s0"
    "session_ready s0" "ss_pending s0 = []" by (rule session_new_ready[OF example_net_total])
  obtain segs s1 where p: "push_samples_i16 example_f32 example_net (replicate 64000 0) s0 = (Inr segs, s1)"
    "ss_pending s1 = rest_of FSMN_VAD_CHUNK_SIZE (ss_pending s0 @ replicate 64000 0)"
    using session_push_total[OF example_net_total s0(2), of example_f32 "replicate 64000 0"] by blast
  have "ss_pending s1 = []" using p(2) s0(3) by (simp add: rest_of_def FSMN_VAD_CHUNK_SIZE_def)
  then obtain last_segs s2 where f: "finish_segments example_f32 example_net s1 = (Inr last_segs, s2)"
    by (cases "finalize_streaming example_f32 (as_i32 (vo_min_silence_ms (ss_options s1))) (ss_e2e s1)")
       (auto simp: finish_segments_def bindP_def gets_def ret_def)
  from session_times_are_compressed[OF example_net_total s0(1) p(1) f] s0(1) p(1) f show ?thesis
    unfolding length_replicate by blast
qed

section \<open>Frame stacking\<close>

text \<open>The low frame rate stacking of the front end: rows are padded at the left with the first row,
  and a window that runs over the end is filled with the last one.\<close>

definition apply_lfr :: "nat \<Rightarrow> nat \<Rightarrow> 'a list \<Rightarrow> 'a list list" where
  "apply_lfr lfr_m lfr_n fbank =
     (if fbank = [] then []
      else
        let t = length fbank;
            t_lfr = div_ceil t lfr_n;
            left = (lfr_m - 1) div 2;
            padded = replicate left (hd fbank) @ fbank
        in map (\<lambda>i. let start = i * lfr_n; stop = min (start + lfr_m) (t + left)
                    in take (stop - start) (drop start padded)
                       @ replicate (start + lfr_m - stop) (last padded))
             [0..<t_lfr])"

text \<open>Stacking with a window of m rows every n rows gives ceil (t / n) windows, and row j of window i
  is the row i * n + j - (m - 1) / 2 of the input, clamped to its first and last row.\<close>

theorem lfr_is_clamped_context:
  assumes "0 < lfr_n" "0 < lfr_m"
  shows "length (apply_lfr lfr_m lfr_n fbank) = div_ceil (length fbank) lfr_n \<and>
    (\<forall>i < div_ceil (length fbank) lfr_n. length (apply_lfr lfr_m lfr_n fbank ! i) = lfr_m \<and>
       (\<forall>j < lfr_m. apply_lfr lfr_m lfr_n fbank ! i ! j
          = fbank ! min (i * lfr_n + j - (lfr_m - 1) div 2) (length fbank - 1)))"
proof (cases "fbank = []")
  case True
  then show ?thesis by (simp add: apply_lfr_def)
next
  case False
  let ?t = "length fbank"
  define left where "left = (lfr_m - 1) div 2"
  define padded where "padded = replicate left (hd fbank) @ fbank"
  have plen: "length padded = ?t + left" by (simp add: padded_def)
  have nth: "padded ! k = fbank ! min (k - left) (?t - 1)" if "k < ?t + left" for k
    using that False by (auto simp: padded_def nth_append hd_conv_nth min_def)
  have last: "last padded = fbank ! (?t - 1)" using False last_conv_nth[of fbank] by (simp add: padded_def)
  have row: "length (take (stop - start) (drop start padded) @ replicate (start + lfr_m - stop) (last padded)) = lfr_m \<and>
      (\<forall>j < lfr_m. (take (stop - start) (drop start padded) @ replicate (start + lfr_m - stop) (last padded)) ! j
         = fbank ! min (start + j - left) (?t - 1))"
    if start: "start \<le> ?t + left" and stop: "stop = min (start + lfr_m) (?t + left)" for start stop
  proof -
    have le: "start \<le> stop" "stop \<le> start + lfr_m" "stop \<le> ?t + left" using start stop by simp_all
    have len: "length (take (stop - start) (drop start padded)) = stop - start"
      using le by (simp add: plen)
    have "(take (stop - start) (drop start padded) @ replicate (start + lfr_m - stop) (last padded)) ! j
        = fbank ! min (start + j - left) (?t - 1)" if j: "j < lfr_m" for j
    proof (cases "j < stop - start")
      case True
      then have "start + j < ?t + left" using le by simp
      with True len show ?thesis using nth[of "start + j"] start by (simp add: nth_append plen)
    next
      case out: False
      then have "?t - 1 \<le> start + j - left" using stop j le by (cases "start + lfr_m \<le> ?t + left") auto
      moreover have "j - (stop - start) < start + lfr_m - stop" using out j le by linarith
      ultimately show ?thesis using out last by (simp add: nth_append len min.absorb2 del: length_take)
    qed
    then show ?thesis using len le by simp
  qed
  have start: "i * lfr_n \<le> ?t + left" if "i < div_ceil ?t lfr_n" for i
    using that div_ceil_le_iff[OF assms(1), of ?t i] by (simp add: not_le[symmetric])
  define window where "window i = take (min (i * lfr_n + lfr_m) (?t + left) - i * lfr_n) (drop (i * lfr_n) padded)
      @ replicate (i * lfr_n + lfr_m - min (i * lfr_n + lfr_m) (?t + left)) (last padded)" for i
  have lfr: "apply_lfr lfr_m lfr_n fbank = map window [0..<div_ceil ?t lfr_n]"
    using False by (simp add: apply_lfr_def Let_def padded_def left_def window_def)
  have "length (window i) = lfr_m \<and> (\<forall>j < lfr_m. window i ! j = fbank ! min (i * lfr_n + j - left) (?t - 1))"
    if "i < div_ceil ?t lfr_n" for i
    unfolding window_def by (rule row[OF start[OF that] refl])
  then show ?thesis unfolding left_def[symmetric] by (simp add: lfr)
qed

lemma lfr_is_clamped_context_witness:
  "apply_lfr 5 1 [10, 20, 30::int] = [[10, 10, 10, 20, 30], [10, 10, 20, 30, 30], [10, 20, 30, 30, 30]] \<and>
   apply_lfr 5 1 [10, 20, 30::int] ! 2 ! 4 = [10, 20, 30] ! min (2 * 1 + 4 - (5 - 1) div 2) (length [10, 20, 30::int] - 1)"
proof
  show "apply_lfr 5 1 [10, 20, 30::int] = [[10, 10, 10, 20, 30], [10, 10, 20, 30, 30], [10, 20, 30, 30, 30]]"
    by code_simp
  have "(2::nat) < div_ceil (length [10, 20, 30::int]) 1" "(4::nat) < 5" by (simp_all add: div_ceil_def)
  with lfr_is_clamped_context[of 1 5 "[10, 20, 30::int]"]
  show "apply_lfr 5 1 [10, 20, 30::int] ! 2 ! 4
      = [10, 20, 30] ! min (2 * 1 + 4 - (5 - 1) div 2) (length [10, 20, 30::int] - 1)" by simp
qed

end
