(* ===== verification/RustText.thy ===== *)
theory RustText
  imports Prelude
begin

text \<open>
  Text as the code handles it: a \<^verbatim>\<open>char\<close> is its code point, a \<^verbatim>\<open>String\<close> the list of its
  characters, a literal is embedded by \<^verbatim>\<open>lit\<close>.  The operations of \<^verbatim>\<open>str\<close> that the source
  uses are defined here; byte offsets never appear, the places that compute with them say why
  characters are enough.  The Unicode general category comes from a crate and is a parameter of its users; the
  enumeration names the categories the source distinguishes.
\<close>

type_synonym rchar = nat
type_synonym rstring = "rchar list"

definition lit :: "string \<Rightarrow> rstring" where
  "lit s = map of_char s"

datatype general_category =
    UppercaseLetter | LowercaseLetter | TitlecaseLetter | ModifierLetter | OtherLetter
  | DecimalNumber | LetterNumber | OtherNumber
  | ConnectorPunctuation | DashPunctuation | OpenPunctuation | ClosePunctuation
  | InitialPunctuation | FinalPunctuation | OtherPunctuation | OtherCategory

text \<open>The White\_Space property of Unicode.\<close>

definition is_whitespace :: "rchar \<Rightarrow> bool" where
  "is_whitespace ch \<longleftrightarrow>
    9 \<le> ch \<and> ch \<le> 13 \<or> ch = 32 \<or> ch = 0x85 \<or> ch = 0xA0 \<or> ch = 0x1680 \<or>
    0x2000 \<le> ch \<and> ch \<le> 0x200A \<or> ch = 0x2028 \<or> ch = 0x2029 \<or> ch = 0x202F \<or> ch = 0x205F \<or> ch = 0x3000"

definition ascii_lower :: "rchar \<Rightarrow> rchar" where
  "ascii_lower ch = (if 65 \<le> ch \<and> ch \<le> 90 then ch + 32 else ch)"

definition ascii_upper :: "rchar \<Rightarrow> rchar" where
  "ascii_upper ch = (if 97 \<le> ch \<and> ch \<le> 122 then ch - 32 else ch)"

definition eq_ignore_ascii_case :: "rstring \<Rightarrow> rstring \<Rightarrow> bool" where
  "eq_ignore_ascii_case s t \<longleftrightarrow> map ascii_lower s = map ascii_lower t"

definition is_ascii_digit :: "rchar \<Rightarrow> bool" where
  "is_ascii_digit ch \<longleftrightarrow> 48 \<le> ch \<and> ch \<le> 57"

definition trim_start :: "rstring \<Rightarrow> rstring" where
  "trim_start s = dropWhile is_whitespace s"

definition trim :: "rstring \<Rightarrow> rstring" where
  "trim s = rev (dropWhile is_whitespace (rev (trim_start s)))"

function split_whitespace :: "rstring \<Rightarrow> rstring list" where
  "split_whitespace s =
    (let t = dropWhile is_whitespace s
     in if t = [] then []
        else takeWhile (\<lambda>c. \<not> is_whitespace c) t # split_whitespace (dropWhile (\<lambda>c. \<not> is_whitespace c) t))"
  by pat_completeness auto
termination
proof (relation "measure length")
  fix s t :: rstring
  assume t: "t = dropWhile is_whitespace s" "t \<noteq> []"
  then have "\<not> is_whitespace (hd t)" using hd_dropWhile by metis
  then have "length (dropWhile (\<lambda>c. \<not> is_whitespace c) t) < length t"
    using t(2) by (cases t) (simp_all add: length_dropWhile_le le_imp_less_Suc)
  also have "length t \<le> length s" by (simp add: t length_dropWhile_le)
  finally show "(dropWhile (\<lambda>c. \<not> is_whitespace c) t, s) \<in> measure length" by simp
qed simp

declare split_whitespace.simps [simp del]

fun split_lines :: "rstring \<Rightarrow> rstring \<Rightarrow> rstring list" where
  "split_lines cur [] = (if cur = [] then [] else [cur])"
| "split_lines cur (c # cs) =
    (if c = 10
     then (if cur \<noteq> [] \<and> last cur = 13 then butlast cur else cur) # split_lines [] cs
     else split_lines (cur @ [c]) cs)"

definition str_lines :: "rstring \<Rightarrow> rstring list" where
  "str_lines s = split_lines [] s"

fun intersperse_concat :: "rstring \<Rightarrow> rstring list \<Rightarrow> rstring" where
  "intersperse_concat sep [] = []"
| "intersperse_concat sep [x] = x"
| "intersperse_concat sep (x # y # zs) = x @ sep @ intersperse_concat sep (y # zs)"

definition slice :: "nat \<Rightarrow> nat \<Rightarrow> 'a list \<Rightarrow> 'a list" where
  "slice a b xs = take (b - a) (drop a xs)"

lemma take_slice: "a \<le> b \<Longrightarrow> take a xs @ slice a b xs = take b xs"
  by (simp add: slice_def take_add[symmetric])

lemma slice_rest: "a \<le> length xs \<Longrightarrow> slice a (length xs) xs = drop a xs"
  by (simp add: slice_def)

lemma filter_split_whitespace:
  assumes "\<And>c. is_whitespace c \<Longrightarrow> \<not> P c"
  shows "concat (map (filter P) (split_whitespace s)) = filter P s"
proof (induction s rule: split_whitespace.induct)
  case (1 s)
  define t where "t = dropWhile is_whitespace s"
  define w where "w = takeWhile (\<lambda>c. \<not> is_whitespace c) t"
  define r where "r = dropWhile (\<lambda>c. \<not> is_whitespace c) t"
  have none: "filter P (takeWhile is_whitespace s) = []"
    using assms by (auto simp: filter_empty_conv dest: set_takeWhileD)
  have "filter P s = filter P (takeWhile is_whitespace s) @ filter P t"
    unfolding t_def by (metis filter_append takeWhile_dropWhile_id)
  with none have s: "filter P s = filter P t" by simp
  show ?case
  proof (cases "t = []")
    case True
    then show ?thesis using s by (subst split_whitespace.simps) (simp add: t_def[symmetric])
  next
    case False
    have "filter P t = filter P w @ filter P r"
      unfolding w_def r_def by (metis filter_append takeWhile_dropWhile_id)
    then show ?thesis
      using s False 1[OF t_def] by (subst split_whitespace.simps) (simp add: t_def[symmetric] w_def r_def)
  qed
qed

lemma concat_filter_nonempty: "concat (filter (\<lambda>w. w \<noteq> []) ws) = concat ws"
  by (induction ws) auto

end
