(* ===== verification/Cer.thy ===== *)
theory Cer
  imports RustText Float32
begin

text \<open>
  Character error rate (\<^verbatim>\<open>vasr-data/src/cer.rs\<close>).

  \<^verbatim>\<open>levenshtein_ops\<close> fills the usual table row by row and walks back from its last cell, counting
  substitutions, deletions and insertions.  A \<^verbatim>\<open>char\<close> is its code point; the Unicode general category
  comes from a crate and is the parameter \<^verbatim>\<open>category\<close>.

  The specification is the inductive relation \<^verbatim>\<open>edits\<close>: \<^verbatim>\<open>edits r h s d i\<close> says that \<^verbatim>\<open>h\<close> is
  obtained from \<^verbatim>\<open>r\<close> by a script of \<^verbatim>\<open>s\<close> substitutions, \<^verbatim>\<open>d\<close> deletions and \<^verbatim>\<open>i\<close> insertions.  The reported
  counts are those of a script, and no script has fewer edits.
\<close>

section \<open>Statistics and normalisation\<close>

record cer_stats =
  substitutions :: nat
  deletions :: nat
  insertions :: nat
  reference_chars :: nat

definition cer_edits :: "cer_stats \<Rightarrow> nat" where
  "cer_edits st = substitutions st + deletions st + insertions st"

definition cer :: "'f f32_ops \<Rightarrow> cer_stats \<Rightarrow> 'f" where
  "cer F st =
    (if reference_chars st = 0
     then if cer_edits st = 0 then f_int F 0 else f_int F 1
     else f_div F (f_int F (int (cer_edits st))) (f_int F (int (reference_chars st))))"

definition is_punctuation :: "(rchar \<Rightarrow> general_category) \<Rightarrow> rchar \<Rightarrow> bool" where
  "is_punctuation category ch \<longleftrightarrow>
    (case category ch of
       ConnectorPunctuation \<Rightarrow> True | DashPunctuation \<Rightarrow> True | OpenPunctuation \<Rightarrow> True
     | ClosePunctuation \<Rightarrow> True | InitialPunctuation \<Rightarrow> True | FinalPunctuation \<Rightarrow> True
     | OtherPunctuation \<Rightarrow> True | _ \<Rightarrow> False)"

definition normalize_for_cer :: "(rchar \<Rightarrow> general_category) \<Rightarrow> rchar list \<Rightarrow> bool \<Rightarrow> rchar list" where
  "normalize_for_cer category txt remove_spaces =
    filter (\<lambda>ch. if is_punctuation category ch then False else \<not> remove_spaces \<or> \<not> is_whitespace ch) txt"

section \<open>The table and the walk back\<close>

definition cell :: "nat list list \<Rightarrow> nat \<Rightarrow> nat \<Rightarrow> nat" where
  "cell dp i j = dp ! i ! j"

definition set_cell :: "nat list list \<Rightarrow> nat \<Rightarrow> nat \<Rightarrow> nat \<Rightarrow> nat list list" where
  "set_cell dp i j v = dp[i := (dp ! i)[j := v]]"

definition init_dp :: "nat \<Rightarrow> nat \<Rightarrow> nat list list" where
  "init_dp n m =
    (let dp = replicate (n + 1) (replicate (m + 1) 0);
         dp = foldl (\<lambda>dp i. set_cell dp i 0 i) dp [1..<n + 1]
     in foldl (\<lambda>dp j. set_cell dp 0 j j) dp [1..<m + 1])"

definition dp_step :: "'c list \<Rightarrow> 'c list \<Rightarrow> nat \<Rightarrow> nat list list \<Rightarrow> nat \<Rightarrow> nat list list" where
  "dp_step reference hypothesis i dp j =
    (let cost = if reference ! (i - 1) \<noteq> hypothesis ! (j - 1) then 1 else 0
     in set_cell dp i j
          (min (min (cell dp (i - 1) j + 1) (cell dp i (j - 1) + 1)) (cell dp (i - 1) (j - 1) + cost)))"

definition fill_dp :: "'c list \<Rightarrow> 'c list \<Rightarrow> nat list list" where
  "fill_dp reference hypothesis =
    (let n = length reference; m = length hypothesis
     in foldl (\<lambda>dp i. foldl (dp_step reference hypothesis i) dp [1..<m + 1])
          (init_dp n m) [1..<n + 1])"

function backtrace ::
  "nat list list \<Rightarrow> 'c list \<Rightarrow> 'c list \<Rightarrow> nat \<Rightarrow> nat \<Rightarrow> nat \<times> nat \<times> nat \<Rightarrow> (nat \<times> nat \<times> nat) result"
where
  "backtrace dp reference hypothesis i j (s, d, ins) =
    (if i > 0 \<or> j > 0 then
       if i > 0 \<and> j > 0 \<and> reference ! (i - 1) = hypothesis ! (j - 1)
       then backtrace dp reference hypothesis (i - 1) (j - 1) (s, d, ins)
       else if i > 0 \<and> j > 0 \<and> cell dp i j = cell dp (i - 1) (j - 1) + 1
       then backtrace dp reference hypothesis (i - 1) (j - 1) (s + 1, d, ins)
       else if i > 0 \<and> cell dp i j = cell dp (i - 1) j + 1
       then backtrace dp reference hypothesis (i - 1) j (s, d + 1, ins)
       else if j = 0 then Inl (Panic ''attempt to subtract with overflow'')
       else backtrace dp reference hypothesis i (j - 1) (s, d, ins + 1)
     else Inr (s, d, ins))"
  by pat_completeness auto
termination
  by (relation "measure (\<lambda>(dp, r, h, i, j, acc). i + j)") auto

definition levenshtein_ops :: "'c list \<Rightarrow> 'c list \<Rightarrow> (nat \<times> nat \<times> nat) result" where
  "levenshtein_ops reference hypothesis =
    (let n = length reference; m = length hypothesis
     in if n = 0 then Inr (0, 0, m)
        else if m = 0 then Inr (0, n, 0)
        else backtrace (fill_dp reference hypothesis) reference hypothesis n m (0, 0, 0))"

definition compute_cer :: "rchar list \<Rightarrow> rchar list \<Rightarrow> cer_stats result" where
  "compute_cer reference hypothesis =
    rbind (levenshtein_ops reference hypothesis) (\<lambda>(s, d, i).
      Inr \<lparr>substitutions = s, deletions = d, insertions = i, reference_chars = length reference\<rparr>)"

section \<open>Edit scripts and the distance\<close>

inductive edits :: "'c list \<Rightarrow> 'c list \<Rightarrow> nat \<Rightarrow> nat \<Rightarrow> nat \<Rightarrow> bool" where
  edits_done: "edits [] [] 0 0 0"
| edits_keep: "edits r h s d i \<Longrightarrow> edits (x # r) (x # h) s d i"
| edits_subst: "edits r h s d i \<Longrightarrow> edits (x # r) (y # h) (Suc s) d i"
| edits_del: "edits r h s d i \<Longrightarrow> edits (x # r) h s (Suc d) i"
| edits_ins: "edits r h s d i \<Longrightarrow> edits r (y # h) s d (Suc i)"

lemmas edits_intros = edits_done edits_keep edits_subst edits_del edits_ins

inductive_cases edits_NilE: "edits [] h s d i"
inductive_cases edits_ConsE: "edits (x # r) h s d i"

lemma edits_append:
  assumes "edits r h s d i" "edits r' h' s' d' i'"
  shows "edits (r @ r') (h @ h') (s + s') (d + d') (i + i')"
  using assms(1) by induction (auto intro: edits_intros assms(2))

lemma edits_rev: "edits r h s d i \<Longrightarrow> edits (rev r) (rev h) s d i"
proof (induction rule: edits.induct)
  case (edits_keep r h s d i x)
  have "edits [x] [x] 0 0 0" by (intro edits_intros)
  from edits_append[OF edits_keep.IH this] show ?case by simp
next
  case (edits_subst r h s d i x y)
  have "edits [x] [y] (Suc 0) 0 0" by (intro edits_intros)
  from edits_append[OF edits_subst.IH this] show ?case by simp
next
  case (edits_del r h s d i x)
  have "edits [x] [] 0 (Suc 0) 0" by (intro edits_intros)
  from edits_append[OF edits_del.IH this] show ?case by simp
next
  case (edits_ins r h s d i y)
  have "edits [] [y] 0 0 (Suc 0)" by (intro edits_intros)
  from edits_append[OF edits_ins.IH this] show ?case by simp
qed (simp add: edits_intros)

lemma edits_only_dels: "edits r [] 0 (length r) 0"
  by (induction r) (auto intro: edits_intros)

lemma edits_only_ins: "edits [] h 0 0 (length h)"
  by (induction h) (auto intro: edits_intros)

text \<open>The distance, by recursion on the two texts.\<close>

fun lev :: "'c list \<Rightarrow> 'c list \<Rightarrow> nat" where
  "lev [] h = length h"
| "lev (x # r) [] = Suc (length r)"
| "lev (x # r) (y # h) =
    min (min (lev r (y # h) + 1) (lev (x # r) h + 1)) (lev r h + (if x \<noteq> y then 1 else 0))"

lemma lev_Nil2 [simp]: "lev r [] = length r"
  by (cases r) auto

lemma lev_del: "lev (x # r) h \<le> Suc (lev r h)"
  by (cases h) auto

lemma lev_ins: "lev r (y # h) \<le> Suc (lev r h)"
  by (cases r) auto

lemma lev_near_del: "lev r h \<le> Suc (lev (x # r) h)"
proof (induction h)
  case (Cons y h)
  have "lev r (y # h) \<le> Suc (lev r h)" by (rule lev_ins)
  moreover have "lev r (y # h) \<le> Suc (Suc (lev (x # r) h))"
    using lev_ins[of r y h] Cons.IH by simp
  ultimately show ?case by (simp add: min_le_iff_disj)
qed simp

lemma lev_near_ins: "lev r h \<le> Suc (lev r (y # h))"
proof (induction r)
  case (Cons x r)
  have "lev (x # r) h \<le> Suc (lev r h)" by (rule lev_del)
  moreover have "lev (x # r) h \<le> Suc (Suc (lev r (y # h)))"
    using lev_del[of x r h] Cons.IH by simp
  ultimately show ?case by (simp add: min_le_iff_disj)
qed simp

lemma lev_keep [simp]: "lev (x # r) (x # h) = lev r h"
  using lev_near_ins[of r h x] lev_near_del[of r h x] by simp

lemma lev_least: "edits r h s d i \<Longrightarrow> lev r h \<le> s + d + i"
proof (induction rule: edits.induct)
  case (edits_subst r h s d i x y)
  then show ?case by auto
next
  case (edits_del r h s d i x)
  then show ?case using lev_del[of x r h] by simp
next
  case (edits_ins r h s d i y)
  then show ?case using lev_ins[of r y h] by simp
qed simp_all

section \<open>The table holds the distances of the prefixes\<close>

definition prefix_lev :: "'c list \<Rightarrow> 'c list \<Rightarrow> nat \<Rightarrow> nat \<Rightarrow> nat" where
  "prefix_lev r h i j = lev (rev (take i r)) (rev (take j h))"

lemma rev_take_pred: "0 < i \<Longrightarrow> i \<le> length xs \<Longrightarrow> rev (take i xs) = xs ! (i - 1) # rev (take (i - 1) xs)"
  by (cases i) (simp_all add: take_Suc_conv_app_nth)

lemma prefix_lev_border [simp]:
  "j \<le> length h \<Longrightarrow> prefix_lev r h 0 j = j" "i \<le> length r \<Longrightarrow> prefix_lev r h i 0 = i"
  by (simp_all add: prefix_lev_def)

lemma prefix_lev_step:
  assumes "0 < i" "i \<le> length r" "0 < j" "j \<le> length h"
  shows "prefix_lev r h i j =
    min (min (prefix_lev r h (i - 1) j + 1) (prefix_lev r h i (j - 1) + 1))
      (prefix_lev r h (i - 1) (j - 1) + (if r ! (i - 1) \<noteq> h ! (j - 1) then 1 else 0))"
  using assms by (simp add: prefix_lev_def rev_take_pred)

lemma prefix_lev_keep:
  assumes "0 < i" "i \<le> length r" "0 < j" "j \<le> length h" "r ! (i - 1) = h ! (j - 1)"
  shows "prefix_lev r h i j = prefix_lev r h (i - 1) (j - 1)"
  using assms by (simp add: prefix_lev_def rev_take_pred del: lev.simps)

definition dims :: "nat \<Rightarrow> nat \<Rightarrow> nat list list \<Rightarrow> bool" where
  "dims n m dp \<longleftrightarrow> length dp = n + 1 \<and> (\<forall>i\<le>n. length (dp ! i) = m + 1)"

lemma dims_set_cell: "dims n m dp \<Longrightarrow> dims n m (set_cell dp i j v)"
  unfolding dims_def set_cell_def by (cases "i \<le> n") (auto simp: nth_list_update)

lemma cell_set_cell:
  "dims n m dp \<Longrightarrow> i \<le> n \<Longrightarrow> j \<le> m \<Longrightarrow> i' \<le> n \<Longrightarrow>
   cell (set_cell dp i j v) i' j' = (if i' = i \<and> j' = j then v else cell dp i' j')"
  by (auto simp: dims_def set_cell_def cell_def nth_list_update)

lemma foldl_upt_invariant:
  assumes "a \<le> b" "P a s" and "\<And>i s. a \<le> i \<Longrightarrow> i < b \<Longrightarrow> P i s \<Longrightarrow> P (Suc i) (f s i)"
  shows "P b (foldl f s [a..<b])"
  using assms
proof (induction b)
  case (Suc b)
  then show ?case by (cases "a = Suc b") simp_all
qed simp

lemma init_dp_borders:
  "dims n m (init_dp n m)" "i \<le> n \<Longrightarrow> cell (init_dp n m) i 0 = i" "j \<le> m \<Longrightarrow> cell (init_dp n m) 0 j = j"
proof -
  define z where "z = replicate (n + 1) (replicate (m + 1) (0::nat))"
  define z1 where "z1 = foldl (\<lambda>dp i. set_cell dp i 0 i) z [1..<n + 1]"
  have z: "dims n m z" and zc: "\<And>i j. i \<le> n \<Longrightarrow> j \<le> m \<Longrightarrow> cell z i j = 0"
    by (simp_all add: z_def dims_def cell_def del: replicate_Suc)
  let ?P = "\<lambda>k dp. dims n m dp \<and> (\<forall>i\<le>n. i < k \<longrightarrow> cell dp i 0 = i)"
  let ?Q = "\<lambda>k dp. dims n m dp \<and> (\<forall>i\<le>n. cell dp i 0 = i) \<and> (\<forall>j\<le>m. j < k \<longrightarrow> cell dp 0 j = j)"
  have z1: "?P (n + 1) z1"
    unfolding z1_def
  proof (rule foldl_upt_invariant[where P = ?P])
    show "?P 1 z" using z zc by auto
    show "?P (Suc k) (set_cell dp k 0 k)" if "k < n + 1" "?P k dp" for k dp
      using that by (simp add: dims_set_cell cell_set_cell[of n m])
  qed simp
  have "?Q (m + 1) (init_dp n m)"
    unfolding init_dp_def Let_def z_def[symmetric] z1_def[symmetric]
  proof (rule foldl_upt_invariant[where P = ?Q])
    show "?Q 1 z1" using z1 by auto
    show "?Q (Suc k) (set_cell dp 0 k k)" if "1 \<le> k" "k < m + 1" "?Q k dp" for k dp
      using that by (simp add: dims_set_cell cell_set_cell[of n m])
  qed simp
  then show "dims n m (init_dp n m)" "i \<le> n \<Longrightarrow> cell (init_dp n m) i 0 = i"
    "j \<le> m \<Longrightarrow> cell (init_dp n m) 0 j = j" by auto
qed

text \<open>The cells before \<^verbatim>\<open>(i, j)\<close> in row order, and the borders, hold the distance of their prefixes.\<close>

definition filled :: "'c list \<Rightarrow> 'c list \<Rightarrow> nat \<Rightarrow> nat \<Rightarrow> nat list list \<Rightarrow> bool" where
  "filled r h i j dp \<longleftrightarrow> dims (length r) (length h) dp \<and>
    (\<forall>a\<le>length r. \<forall>b\<le>length h. a = 0 \<or> b = 0 \<or> a < i \<or> a = i \<and> b < j \<longrightarrow> cell dp a b = prefix_lev r h a b)"

lemma dp_step_filled:
  assumes "filled r h i j dp" "1 \<le> i" "i \<le> length r" "1 \<le> j" "j \<le> length h"
  shows "filled r h i (Suc j) (dp_step r h i dp j)"
proof -
  have d: "dims (length r) (length h) dp" using assms(1) by (simp add: filled_def)
  have c: "cell dp (i - 1) j = prefix_lev r h (i - 1) j" "cell dp i (j - 1) = prefix_lev r h i (j - 1)"
    "cell dp (i - 1) (j - 1) = prefix_lev r h (i - 1) (j - 1)"
    using assms unfolding filled_def by auto
  have v: "dp_step r h i dp j = set_cell dp i j (prefix_lev r h i j)"
    unfolding dp_step_def Let_def c
    by (rule arg_cong[where f = "set_cell dp i j"], rule prefix_lev_step[symmetric]) (use assms in auto)
  have cs: "cell (set_cell dp i j w) a b = (if a = i \<and> b = j then w else cell dp a b)"
    if "a \<le> length r" for a b w
    using cell_set_cell[OF d assms(3,5) that] .
  show ?thesis
    unfolding v filled_def
  proof (intro conjI allI impI)
    fix a b assume ab: "a \<le> length r" "b \<le> length h"
      "a = 0 \<or> b = 0 \<or> a < i \<or> a = i \<and> b < Suc j"
    show "cell (set_cell dp i j (prefix_lev r h i j)) a b = prefix_lev r h a b"
    proof (cases "a = i \<and> b = j")
      case False
      then have "a = 0 \<or> b = 0 \<or> a < i \<or> a = i \<and> b < j" using ab(3) by auto
      then have "cell dp a b = prefix_lev r h a b" using ab(1,2) assms(1) unfolding filled_def by blast
      then show ?thesis using False ab(1) by (simp only: cs if_False)
    qed (use cs[OF ab(1)] in simp)
  qed (rule dims_set_cell[OF d])
qed

lemma dp_row_filled:
  assumes "filled r h i 1 dp" "1 \<le> i" "i \<le> length r"
  shows "filled r h (Suc i) 1 (foldl (dp_step r h i) dp [1..<length h + 1])"
proof -
  have "filled r h i (length h + 1) (foldl (dp_step r h i) dp [1..<length h + 1])"
  proof (rule foldl_upt_invariant[where P = "filled r h i"])
    show "filled r h i 1 dp" by (rule assms(1))
    show "filled r h i (Suc j) (dp_step r h i s j)"
      if "1 \<le> j" "j < length h + 1" "filled r h i j s" for j s
      by (rule dp_step_filled) (use that assms in simp_all)
  qed simp
  then show ?thesis unfolding filled_def by (metis less_Suc_eq less_Suc_eq_le Suc_eq_plus1 less_one)
qed

lemma fill_dp_filled: "filled r h (length r + 1) 1 (fill_dp r h)"
  unfolding fill_dp_def Let_def
proof (rule foldl_upt_invariant[where P = "\<lambda>i dp. filled r h i 1 dp"])
  show "filled r h 1 1 (init_dp (length r) (length h))"
    by (auto simp: filled_def init_dp_borders less_Suc_eq)
  show "filled r h (Suc i) 1 (foldl (dp_step r h i) dp [1..<length h + 1])"
    if "1 \<le> i" "i < length r + 1" "filled r h i 1 dp" for i dp
    by (rule dp_row_filled) (use that in simp_all)
qed simp

lemma fill_dp_cell:
  "i \<le> length r \<Longrightarrow> j \<le> length h \<Longrightarrow> cell (fill_dp r h) i j = prefix_lev r h i j"
  using fill_dp_filled[of r h] by (auto simp: filled_def)

section \<open>The walk back\<close>

declare backtrace.simps [simp del]

lemma min3_third: "x = min (min (a + 1) (b + 1)) (k + 1) \<Longrightarrow> x \<noteq> k + 1 \<Longrightarrow> x \<noteq> a + 1 \<Longrightarrow> x = b + 1" for x :: nat
  by linarith

lemma backtrace_correct:
  assumes "\<And>a b. a \<le> length r \<Longrightarrow> b \<le> length h \<Longrightarrow> cell dp a b = prefix_lev r h a b"
    and "i \<le> length r" "j \<le> length h"
  shows "\<exists>S D I. backtrace dp r h i j (s, d, ins) = Inr (s + S, d + D, ins + I) \<and>
    edits (rev (take i r)) (rev (take j h)) S D I \<and> S + D + I = prefix_lev r h i j"
  using assms(2,3)
proof (induction "i + j" arbitrary: i j s d ins rule: less_induct)
  case less
  let ?R = "rev (take i r)" and ?H = "rev (take j h)"
  have R: "0 < i \<Longrightarrow> ?R = r ! (i - 1) # rev (take (i - 1) r)"
    and H: "0 < j \<Longrightarrow> ?H = h ! (j - 1) # rev (take (j - 1) h)"
    using less.prems by (simp_all add: rev_take_pred)
  have step: "0 < i \<Longrightarrow> 0 < j \<Longrightarrow> prefix_lev r h i j =
    min (min (prefix_lev r h (i - 1) j + 1) (prefix_lev r h i (j - 1) + 1))
      (prefix_lev r h (i - 1) (j - 1) + (if r ! (i - 1) \<noteq> h ! (j - 1) then 1 else 0))"
    using prefix_lev_step less.prems by blast
  have c: "a \<le> i \<Longrightarrow> b \<le> j \<Longrightarrow> cell dp a b = prefix_lev r h a b" for a b
    using assms(1) less.prems by simp
  consider (stop) "i = 0" "j = 0"
    | (keep) "0 < i" "0 < j" "r ! (i - 1) = h ! (j - 1)"
    | (subst) "0 < i" "0 < j" "r ! (i - 1) \<noteq> h ! (j - 1)" "cell dp i j = cell dp (i - 1) (j - 1) + 1"
    | (del) "0 < i" "0 < j \<longrightarrow> r ! (i - 1) \<noteq> h ! (j - 1) \<and> cell dp i j \<noteq> cell dp (i - 1) (j - 1) + 1"
        "cell dp i j = cell dp (i - 1) j + 1"
    | (ins) "0 < i \<or> 0 < j" "0 < i \<and> 0 < j \<longrightarrow> r ! (i - 1) \<noteq> h ! (j - 1) \<and> cell dp i j \<noteq> cell dp (i - 1) (j - 1) + 1"
        "0 < i \<longrightarrow> cell dp i j \<noteq> cell dp (i - 1) j + 1"
    by blast
  then show ?case
  proof cases
    case stop
    then show ?thesis by (simp add: backtrace.simps edits_done)
  next
    case keep
    then obtain S D I where ih: "backtrace dp r h (i - 1) (j - 1) (s, d, ins) = Inr (s + S, d + D, ins + I)"
      "edits (rev (take (i - 1) r)) (rev (take (j - 1) h)) S D I" "S + D + I = prefix_lev r h (i - 1) (j - 1)"
      using less.hyps[of "i - 1" "j - 1" s d ins] less.prems by force
    have "edits ?R ?H S D I" unfolding R[OF keep(1)] H[OF keep(2)] keep(3) by (rule edits_keep[OF ih(2)])
    moreover have "backtrace dp r h i j (s, d, ins) = Inr (s + S, d + D, ins + I)"
      using ih(1) keep by (subst backtrace.simps) simp
    ultimately show ?thesis using ih(3) prefix_lev_keep[of i r j h] keep less.prems by auto
  next
    case subst
    then obtain S D I where ih: "backtrace dp r h (i - 1) (j - 1) (s + 1, d, ins) = Inr (s + 1 + S, d + D, ins + I)"
      "edits (rev (take (i - 1) r)) (rev (take (j - 1) h)) S D I" "S + D + I = prefix_lev r h (i - 1) (j - 1)"
      using less.hyps[of "i - 1" "j - 1" "s + 1" d ins] less.prems by force
    have "edits ?R ?H (Suc S) D I" unfolding R[OF subst(1)] H[OF subst(2)] by (rule edits_subst[OF ih(2)])
    moreover have "backtrace dp r h i j (s, d, ins) = Inr (s + Suc S, d + D, ins + I)"
      using ih(1) subst by (subst backtrace.simps) simp
    moreover have "Suc S + D + I = prefix_lev r h i j" using ih(3) subst(4) by (simp add: c)
    ultimately show ?thesis by blast
  next
    case del
    then obtain S D I where ih: "backtrace dp r h (i - 1) j (s, d + 1, ins) = Inr (s + S, d + 1 + D, ins + I)"
      "edits (rev (take (i - 1) r)) ?H S D I" "S + D + I = prefix_lev r h (i - 1) j"
      using less.hyps[of "i - 1" j s "d + 1" ins] less.prems by force
    have "edits ?R ?H S (Suc D) I" unfolding R[OF del(1)] by (rule edits_del[OF ih(2)])
    moreover have "backtrace dp r h i j (s, d, ins) = Inr (s + S, d + Suc D, ins + I)"
      using ih(1) del by (subst backtrace.simps) (cases "0 < j"; simp)
    moreover have "S + Suc D + I = prefix_lev r h i j" using ih(3) del(3) by (simp add: c)
    ultimately show ?thesis by blast
  next
    case ins
    have j: "0 < j"
    proof (rule ccontr)
      assume "\<not> 0 < j"
      with ins have "0 < i" "prefix_lev r h i 0 \<noteq> prefix_lev r h (i - 1) 0 + 1" by (auto simp: c)
      then show False using less.prems by simp
    qed
    have val: "prefix_lev r h i j = prefix_lev r h i (j - 1) + 1"
    proof (cases "0 < i")
      case True
      have ne: "r ! (i - 1) \<noteq> h ! (j - 1)" "prefix_lev r h i j \<noteq> prefix_lev r h (i - 1) (j - 1) + 1"
        "prefix_lev r h i j \<noteq> prefix_lev r h (i - 1) j + 1"
        using ins(2,3) True j c[of i j] c[of "i - 1" j] c[of "i - 1" "j - 1"] by simp_all
      show ?thesis by (rule min3_third[OF _ ne(2,3)]) (use step[OF True j] ne(1) in simp)
    next
      case False then show ?thesis using j less.prems by simp
    qed
    from j obtain S D I where ih: "backtrace dp r h i (j - 1) (s, d, ins + 1) = Inr (s + S, d + D, ins + 1 + I)"
      "edits ?R (rev (take (j - 1) h)) S D I" "S + D + I = prefix_lev r h i (j - 1)"
      using less.hyps[of i "j - 1" s d "ins + 1"] less.prems by force
    have "edits ?R ?H S D (Suc I)" unfolding H[OF j] by (rule edits_ins[OF ih(2)])
    moreover have "backtrace dp r h i j (s, d, ins) = Inr (s + S, d + D, ins + Suc I)"
      using ih(1) ins j by (subst backtrace.simps) auto
    moreover have "S + D + Suc I = prefix_lev r h i j" using ih(3) val by simp
    ultimately show ?thesis by blast
  qed
qed

lemma levenshtein_ops_correct:
  "\<exists>S D I. levenshtein_ops r h = Inr (S, D, I) \<and> edits r h S D I \<and> S + D + I = lev (rev r) (rev h)"
proof (cases "r = [] \<or> h = []")
  case True
  then show ?thesis
    using edits_only_dels[of r] edits_only_ins[of h]
    by (cases "r = []") (auto simp: levenshtein_ops_def Let_def)
next
  case False
  obtain S D I where "backtrace (fill_dp r h) r h (length r) (length h) (0, 0, 0) = Inr (S, D, I)"
    "edits (rev r) (rev h) S D I" "S + D + I = lev (rev r) (rev h)"
    using backtrace_correct[OF fill_dp_cell, of r h "length r" "length h" 0 0 0]
    by (auto simp: prefix_lev_def)
  moreover from this(2) have "edits r h S D I" using edits_rev by fastforce
  ultimately show ?thesis using False by (auto simp: levenshtein_ops_def)
qed

section \<open>Properties\<close>

text \<open>C22: The character error statistics are those of a shortest edit script: the computation
  never panics, the reported substitutions, deletions and insertions turn the reference into the
  hypothesis, and every other script needs at least as many edits.\<close>

theorem cer_counts_a_shortest_script:
  "\<exists>st. compute_cer r h = Inr st \<and> reference_chars st = length r \<and>
    edits r h (substitutions st) (deletions st) (insertions st) \<and>
    (\<forall>s d i. edits r h s d i \<longrightarrow> cer_edits st \<le> s + d + i)"
proof -
  obtain S D I where ops: "levenshtein_ops r h = Inr (S, D, I)" "edits r h S D I"
    "S + D + I = lev (rev r) (rev h)"
    using levenshtein_ops_correct by blast
  have "S + D + I \<le> s + d + i" if "edits r h s d i" for s d i
    unfolding ops(3) by (rule lev_least[OF edits_rev[OF that]])
  then show ?thesis using ops(1,2) by (auto simp: compute_cer_def cer_edits_def)
qed

theorem cer_counts_a_shortest_script_witness:
  "compute_cer [1, 2, 3] [1, 4] = Inr \<lparr>substitutions = 1, deletions = 1, insertions = 0, reference_chars = 3\<rparr> \<and>
   edits [1, 2, 3 :: nat] [1, 4] 1 1 0 \<and> (2::nat) \<le> 0 + 3 + 2"
proof -
  have c: "compute_cer [1, 2, 3] [1, 4] =
      Inr \<lparr>substitutions = 1, deletions = 1, insertions = 0, reference_chars = 3\<rparr>"
    by code_simp
  have script: "edits [1, 2, 3 :: nat] [1, 4] 0 3 2"
    by (simp add: numeral_eq_Suc) (intro edits_intros)
  obtain st where st: "compute_cer [1, 2, 3] [1, 4] = Inr st"
      "edits [1, 2, 3 :: nat] [1, 4] (substitutions st) (deletions st) (insertions st)"
      "cer_edits st \<le> 0 + 3 + 2"
    using cer_counts_a_shortest_script[of "[1, 2, 3]" "[1, 4]"] script by blast
  have "st = \<lparr>substitutions = 1, deletions = 1, insertions = 0, reference_chars = 3\<rparr>" using st(1) c by simp
  then show ?thesis using st c by (simp add: cer_edits_def)
qed

end
