(* ===== verification/TaskQueue.thy ===== *)
theory TaskQueue
  imports Prelude "HOL-Library.Product_Lexorder"
begin

text \<open>
  The inference task scheduler (\<^verbatim>\<open>vasr-runtime/src/scheduler.rs\<close>): client threads submit tasks into
  a \<^verbatim>\<open>BinaryHeap\<close> guarded by a mutex, one worker thread pops the greatest task and runs it.

  A task is ordered by its priority and its ticket number.  The heap of the standard library is used
  only through \<^verbatim>\<open>new\<close>, \<^verbatim>\<open>push\<close> and \<^verbatim>\<open>pop\<close>; the locale \<^verbatim>\<open>priority_queue\<close> states what the
  worker relies on, and the heap, a list of its elements, is an interpretation.  Its key is the pair
  of priority and ticket, for which the type of priorities is made an instance of the linear orders.

  The scheduler is a step relation over the client calls and the worker, in which every critical
  section and every atomic operation is one step.  A call takes a ticket, pushes its task, notifies
  the worker, and waits for the reply; the worker pops, or parks on the condition variable and may
  wake up spuriously.  A task that panics kills the worker.  The ticket counter is a natural number:
  it wraps after \<^verbatim>\<open>2 ^ 64\<close> submissions.
\<close>

section \<open>Priorities and the order of tasks\<close>

datatype inference_priority = Realtime | Transcribe

fun priority_value :: "inference_priority \<Rightarrow> nat" where
  "priority_value Realtime = 0"
| "priority_value Transcribe = 10"

instantiation inference_priority :: linorder
begin

definition less_eq_inference_priority :: "inference_priority \<Rightarrow> inference_priority \<Rightarrow> bool" where
  "p \<le> q \<longleftrightarrow> priority_value p \<le> priority_value q"

definition less_inference_priority :: "inference_priority \<Rightarrow> inference_priority \<Rightarrow> bool" where
  "p < q \<longleftrightarrow> priority_value p < priority_value q"

instance
proof
  fix p q r :: inference_priority
  show "p < q \<longleftrightarrow> p \<le> q \<and> \<not> q \<le> p"
    by (auto simp: less_eq_inference_priority_def less_inference_priority_def)
  show "p \<le> p" by (simp add: less_eq_inference_priority_def)
  show "p \<le> q \<Longrightarrow> q \<le> r \<Longrightarrow> p \<le> r" by (simp add: less_eq_inference_priority_def)
  show "p \<le> q \<Longrightarrow> q \<le> p \<Longrightarrow> p = q"
    by (cases p; cases q) (simp_all add: less_eq_inference_priority_def)
  show "p \<le> q \<or> q \<le> p" by (auto simp: less_eq_inference_priority_def)
qed

end

lemmas priority_order = less_eq_inference_priority_def less_inference_priority_def

datatype ordering = Less | Equal | Greater

definition nat_cmp :: "nat \<Rightarrow> nat \<Rightarrow> ordering" where
  "nat_cmp a b = (if a < b then Less else if a = b then Equal else Greater)"

fun then_with :: "ordering \<Rightarrow> ordering \<Rightarrow> ordering" where
  "then_with Equal o2 = o2"
| "then_with o1 o2 = o1"

record queued_task =
  qt_priority :: inference_priority
  qt_sequence :: nat
  qt_label :: string
  qt_run :: nat

definition task_cmp :: "queued_task \<Rightarrow> queued_task \<Rightarrow> ordering" where
  "task_cmp self other =
    then_with (nat_cmp (priority_value (qt_priority other)) (priority_value (qt_priority self)))
      (nat_cmp (qt_sequence other) (qt_sequence self))"

definition task_partial_cmp :: "queued_task \<Rightarrow> queued_task \<Rightarrow> ordering option" where
  "task_partial_cmp self other = Some (task_cmp self other)"

definition task_eq :: "queued_task \<Rightarrow> queued_task \<Rightarrow> bool" where
  "task_eq self other \<longleftrightarrow> qt_priority self = qt_priority other \<and> qt_sequence self = qt_sequence other"

definition task_key :: "queued_task \<Rightarrow> inference_priority \<times> nat" where
  "task_key t = (qt_priority t, qt_sequence t)"

lemma task_cmp_key:
  "task_cmp a b = Greater \<longleftrightarrow> task_key a < task_key b"
  "task_cmp a b = Equal \<longleftrightarrow> task_key a = task_key b"
  "task_cmp a b = Less \<longleftrightarrow> task_key b < task_key a"
  by (cases "qt_priority a"; cases "qt_priority b";
      auto simp: task_cmp_def task_key_def nat_cmp_def priority_order)+

lemma task_eq_key: "task_eq a b \<longleftrightarrow> task_cmp a b = Equal"
  by (simp add: task_eq_def task_cmp_key task_key_def)

section \<open>The heap and its contract\<close>

text \<open>\<^verbatim>\<open>BinaryHeap::pop\<close> returns a greatest element.\<close>

definition heap_push :: "'a list \<Rightarrow> 'a \<Rightarrow> 'a list" where
  "heap_push q t = t # q"

fun heap_max :: "('a \<Rightarrow> 'a \<Rightarrow> ordering) \<Rightarrow> 'a \<Rightarrow> 'a list \<Rightarrow> 'a" where
  "heap_max cmp m [] = m"
| "heap_max cmp m (t # q) = heap_max cmp (if cmp t m = Greater then t else m) q"

definition heap_pop :: "('a \<Rightarrow> 'a \<Rightarrow> ordering) \<Rightarrow> 'a list \<Rightarrow> ('a \<times> 'a list) option" where
  "heap_pop cmp q =
    (case q of [] \<Rightarrow> None | t # ts \<Rightarrow> (let m = heap_max cmp t ts in Some (m, remove1 m q)))"

locale priority_queue =
  fixes empty :: 'q
    and push :: "'q \<Rightarrow> 'a \<Rightarrow> 'q"
    and pop :: "'q \<Rightarrow> ('a \<times> 'q) option"
    and content :: "'q \<Rightarrow> 'a multiset"
    and key :: "'a \<Rightarrow> 'k::linorder"
  assumes content_empty: "content empty = {#}"
    and content_push: "content (push q x) = add_mset x (content q)"
    and pop_None: "pop q = None \<longleftrightarrow> content q = {#}"
    and pop_Some: "pop q = Some (x, q') \<Longrightarrow> content q = add_mset x (content q')"
    and pop_least: "pop q = Some (x, q') \<Longrightarrow> y \<in># content q \<Longrightarrow> key x \<le> key y"
begin

lemma pop_mem: "pop q = Some (x, q') \<Longrightarrow> x \<in># content q"
  by (simp add: pop_Some)

lemma pop_rest_subset: "pop q = Some (x, q') \<Longrightarrow> y \<in># content q' \<Longrightarrow> y \<in># content q"
  by (simp add: pop_Some)

lemma pop_in_order:
  "pop q = Some (x, q') \<Longrightarrow> pop q' = Some (y, q'') \<Longrightarrow> key x \<le> key y"
  using pop_mem pop_rest_subset pop_least by meson

lemma pop_urgent:
  assumes "pop q = Some (x, q')" "y \<in># content q" "\<And>z. z \<in># content q \<Longrightarrow> z \<noteq> y \<Longrightarrow> key y < key z"
  shows "x = y"
  using assms pop_mem pop_least leD by metis

lemma pop_size: "pop q = Some (x, q') \<Longrightarrow> size (content q) = Suc (size (content q'))"
  by (simp add: pop_Some)

end

lemma heap_max_in: "heap_max cmp m q \<in> set (m # q)"
proof (induction q arbitrary: m)
  case (Cons t q)
  show ?case using Cons[of t] Cons[of m] by auto
qed simp

lemma heap_max_le: "y \<in> set (m # q) \<Longrightarrow> task_key (heap_max task_cmp m q) \<le> task_key y"
proof (induction q arbitrary: m y)
  case (Cons t q)
  define k where "k = (if task_cmp t m = Greater then t else m)"
  have top: "task_key k \<le> task_key t" "task_key k \<le> task_key m"
    using task_cmp_key(1)[of t m] unfolding k_def by (auto simp: not_less less_imp_le)
  have ih: "z \<in> set (k # q) \<Longrightarrow> task_key (heap_max task_cmp k q) \<le> task_key z" for z
    by (rule Cons.IH)
  have "task_key (heap_max task_cmp k q) \<le> task_key k" by (rule ih) simp
  moreover have "y = t \<or> y = m \<or> y \<in> set q" using Cons.prems by auto
  ultimately have "task_key (heap_max task_cmp k q) \<le> task_key y"
    using top ih[of y] order_trans by auto
  then show ?case by (simp add: k_def)
qed simp

lemma heap_pop_Some_iff:
  "heap_pop task_cmp q = Some (x, q') \<longleftrightarrow>
   q \<noteq> [] \<and> x = heap_max task_cmp (hd q) (tl q) \<and> q' = remove1 x q"
  by (cases q) (auto simp: heap_pop_def Let_def)

interpretation heap: priority_queue "[]" heap_push "heap_pop task_cmp" mset task_key
proof
  fix q q' :: "queued_task list" and x y :: queued_task
  show "mset ([] :: queued_task list) = {#}" by simp
  show "mset (heap_push q x) = add_mset x (mset q)" by (simp add: heap_push_def)
  show "heap_pop task_cmp q = None \<longleftrightarrow> mset q = {#}"
    by (auto simp: heap_pop_def Let_def split: list.splits)
  show "heap_pop task_cmp q = Some (x, q') \<Longrightarrow> mset q = add_mset x (mset q')"
    using heap_max_in[of task_cmp "hd q" "tl q"] by (auto simp: heap_pop_Some_iff)
  show "heap_pop task_cmp q = Some (x, q') \<Longrightarrow> y \<in># mset q \<Longrightarrow> task_key x \<le> task_key y"
    using heap_max_le[of y "hd q" "tl q"] by (auto simp: heap_pop_Some_iff)
qed

section \<open>State and operations\<close>

text \<open>A call is a number; its job has a priority, a label and an outcome, and its closure is the
  number of the call.  The two ends of the reply channel are \<^verbatim>\<open>mailbox\<close>: what the closure
  sent, or that the sender was dropped without sending.\<close>

datatype 'r outcome = Value "'r result" | Panics

record 'r job =
  job_priority :: inference_priority
  job_label :: string
  job_outcome :: "'r outcome"

datatype 'r reply = Sent "'r result" | Dropped

datatype 'r call_phase =
  Idle | Ticketed nat | Pushed | Awaiting | Returned "'r result" | Cancelled

datatype worker_phase = Checking | Parked | Running queued_task | Dead

record 'r sched =
  queue :: "queued_task list"
  sequence :: nat
  phase :: "nat \<Rightarrow> 'r call_phase"
  worker :: worker_phase
  mailbox :: "nat \<Rightarrow> 'r reply option"

definition sched_start :: "'r sched" where
  "sched_start = \<lparr>queue = [], sequence = 0, phase = (\<lambda>_. Idle), worker = Checking, mailbox = (\<lambda>_. None)\<rparr>"

definition submit_ticket :: "nat \<Rightarrow> 'r sched \<Rightarrow> 'r sched" where
  "submit_ticket c s = s\<lparr>sequence := sequence s + 1, phase := (phase s)(c := Ticketed (sequence s))\<rparr>"

definition submit_push :: "(nat \<Rightarrow> 'r job) \<Rightarrow> nat \<Rightarrow> nat \<Rightarrow> 'r sched \<Rightarrow> 'r sched" where
  "submit_push jobs c n s =
    (let queued = \<lparr>qt_priority = job_priority (jobs c), qt_sequence = n,
                   qt_label = job_label (jobs c), qt_run = c\<rparr>
     in s\<lparr>queue := heap_push (queue s) queued, phase := (phase s)(c := Pushed)\<rparr>)"

definition submit_notify :: "nat \<Rightarrow> 'r sched \<Rightarrow> 'r sched" where
  "submit_notify c s =
    s\<lparr>phase := (phase s)(c := Awaiting), worker := (if worker s = Parked then Checking else worker s)\<rparr>"

fun reply_result :: "'r reply \<Rightarrow> 'r result" where
  "reply_result (Sent r) = r"
| "reply_result Dropped = Inl (Err ''inference scheduler worker stopped'')"

definition submit_receive :: "nat \<Rightarrow> 'r reply \<Rightarrow> 'r sched \<Rightarrow> 'r sched" where
  "submit_receive c r s = s\<lparr>phase := (phase s)(c := Returned (reply_result r))\<rparr>"

definition submit_cancel :: "nat \<Rightarrow> 'r sched \<Rightarrow> 'r sched" where
  "submit_cancel c s = s\<lparr>phase := (phase s)(c := Cancelled)\<rparr>"

definition worker_lock :: "'r sched \<Rightarrow> 'r sched" where
  "worker_lock s =
    (case heap_pop task_cmp (queue s) of
       Some (task, q) \<Rightarrow> s\<lparr>queue := q, worker := Running task\<rparr>
     | None \<Rightarrow> s\<lparr>worker := Parked\<rparr>)"

definition worker_run :: "(nat \<Rightarrow> 'r job) \<Rightarrow> queued_task \<Rightarrow> 'r sched \<Rightarrow> 'r sched" where
  "worker_run jobs task s =
    (case job_outcome (jobs (qt_run task)) of
       Value r \<Rightarrow> s\<lparr>worker := Checking, mailbox := (mailbox s)(qt_run task \<mapsto> Sent r)\<rparr>
     | Panics \<Rightarrow> s\<lparr>worker := Dead, mailbox := (mailbox s)(qt_run task \<mapsto> Dropped)\<rparr>)"

inductive sched_step :: "(nat \<Rightarrow> 'r job) \<Rightarrow> 'r sched \<Rightarrow> 'r sched \<Rightarrow> bool" for jobs where
  step_ticket: "phase s c = Idle \<Longrightarrow> sched_step jobs s (submit_ticket c s)"
| step_push: "phase s c = Ticketed n \<Longrightarrow> sched_step jobs s (submit_push jobs c n s)"
| step_notify: "phase s c = Pushed \<Longrightarrow> sched_step jobs s (submit_notify c s)"
| step_receive: "phase s c = Awaiting \<Longrightarrow> mailbox s c = Some r \<Longrightarrow> sched_step jobs s (submit_receive c r s)"
| step_cancel: "phase s c = Awaiting \<Longrightarrow> sched_step jobs s (submit_cancel c s)"
| step_lock: "worker s = Checking \<Longrightarrow> sched_step jobs s (worker_lock s)"
| step_wake: "worker s = Parked \<Longrightarrow> sched_step jobs s (s\<lparr>worker := Checking\<rparr>)"
| step_run: "worker s = Running task \<Longrightarrow> sched_step jobs s (worker_run jobs task s)"

inductive_cases sched_stepE: "sched_step jobs s s'"

inductive sched_reach :: "(nat \<Rightarrow> 'r job) \<Rightarrow> 'r sched \<Rightarrow> 'r sched \<Rightarrow> bool" for jobs where
  reach_refl: "sched_reach jobs s s"
| reach_step: "sched_reach jobs s t \<Longrightarrow> sched_step jobs t u \<Longrightarrow> sched_reach jobs s u"

lemmas sched_op_defs = submit_ticket_def submit_push_def submit_notify_def submit_receive_def
  submit_cancel_def worker_lock_def worker_run_def Let_def

lemma sched_reach_trans: "sched_reach jobs t u \<Longrightarrow> sched_reach jobs s t \<Longrightarrow> sched_reach jobs s u"
  by (induction rule: sched_reach.induct) (auto intro: sched_reach.intros)

section \<open>The invariant\<close>

definition running_tasks :: "worker_phase \<Rightarrow> queued_task list" where
  "running_tasks w = (case w of Running t \<Rightarrow> [t] | _ \<Rightarrow> [])"

lemma running_tasks_simps [simp]:
  "running_tasks Checking = []" "running_tasks Parked = []" "running_tasks Dead = []"
  "running_tasks (Running t) = [t]"
  by (simp_all add: running_tasks_def)

definition in_flight :: "'r sched \<Rightarrow> queued_task list" where
  "in_flight s = running_tasks (worker s) @ queue s"

definition reply_of :: "'r job \<Rightarrow> 'r reply" where
  "reply_of j = (case job_outcome j of Value r \<Rightarrow> Sent r | Panics \<Rightarrow> Dropped)"

definition task_ok :: "(nat \<Rightarrow> 'r job) \<Rightarrow> 'r sched \<Rightarrow> queued_task \<Rightarrow> bool" where
  "task_ok jobs s t \<longleftrightarrow> qt_sequence t < sequence s \<and> qt_priority t = job_priority (jobs (qt_run t)) \<and>
    phase s (qt_run t) \<in> {Pushed, Awaiting, Cancelled} \<and> mailbox s (qt_run t) = None"

fun call_ok :: "'r job \<Rightarrow> 'r reply option \<Rightarrow> bool \<Rightarrow> 'r call_phase \<Rightarrow> bool" where
  "call_ok j m flying Idle \<longleftrightarrow> m = None"
| "call_ok j m flying (Ticketed n) \<longleftrightarrow> m = None"
| "call_ok j m flying Pushed \<longleftrightarrow> flying \<or> m = Some (reply_of j)"
| "call_ok j m flying Awaiting \<longleftrightarrow> flying \<or> m = Some (reply_of j)"
| "call_ok j m flying (Returned r) \<longleftrightarrow> m = Some (reply_of j) \<and> r = reply_result (reply_of j)"
| "call_ok j m flying Cancelled \<longleftrightarrow> flying \<or> m = Some (reply_of j)"

definition tickets_ok :: "'r sched \<Rightarrow> bool" where
  "tickets_ok s \<longleftrightarrow> distinct (map qt_sequence (in_flight s)) \<and>
    (\<forall>c n. phase s c = Ticketed n \<longrightarrow> n < sequence s \<and> n \<notin> qt_sequence ` set (in_flight s) \<and>
       (\<forall>c'. phase s c' = Ticketed n \<longrightarrow> c' = c))"

lemma tickets_okD:
  assumes "tickets_ok s"
  shows "distinct (map qt_sequence (in_flight s))" "phase s c = Ticketed n \<Longrightarrow> n < sequence s"
    "phase s c = Ticketed n \<Longrightarrow> n \<notin> qt_sequence ` set (in_flight s)"
    "phase s c = Ticketed n \<Longrightarrow> phase s c' = Ticketed n \<Longrightarrow> c' = c"
  using assms by (simp_all add: tickets_ok_def)

lemma tickets_okI:
  assumes "distinct (map qt_sequence (in_flight s))" "\<And>c n. phase s c = Ticketed n \<Longrightarrow> n < sequence s"
    "\<And>c n. phase s c = Ticketed n \<Longrightarrow> n \<notin> qt_sequence ` set (in_flight s)"
    "\<And>c c' n. phase s c = Ticketed n \<Longrightarrow> phase s c' = Ticketed n \<Longrightarrow> c' = c"
  shows "tickets_ok s"
  using assms unfolding tickets_ok_def by blast

definition sched_inv :: "(nat \<Rightarrow> 'r job) \<Rightarrow> 'r sched \<Rightarrow> bool" where
  "sched_inv jobs s \<longleftrightarrow>
    (\<forall>t\<in>set (in_flight s). task_ok jobs s t) \<and>
    distinct (map qt_run (in_flight s)) \<and> tickets_ok s \<and>
    (\<forall>c. call_ok (jobs c) (mailbox s c) (c \<in> qt_run ` set (in_flight s)) (phase s c)) \<and>
    (worker s = Parked \<and> queue s \<noteq> [] \<longrightarrow> (\<exists>c. phase s c = Pushed))"

lemma sched_invI:
  assumes "\<And>t. t \<in> set (in_flight s) \<Longrightarrow> task_ok jobs s t" "distinct (map qt_run (in_flight s))" "tickets_ok s"
    "\<And>c. call_ok (jobs c) (mailbox s c) (c \<in> qt_run ` set (in_flight s)) (phase s c)"
    "worker s = Parked \<Longrightarrow> queue s \<noteq> [] \<Longrightarrow> \<exists>c. phase s c = Pushed"
  shows "sched_inv jobs s"
  using assms unfolding sched_inv_def by blast

lemma sched_invD:
  assumes "sched_inv jobs s"
  shows "t \<in> set (in_flight s) \<Longrightarrow> task_ok jobs s t" "distinct (map qt_run (in_flight s))" "tickets_ok s"
    "call_ok (jobs c) (mailbox s c) (c \<in> qt_run ` set (in_flight s)) (phase s c)"
    "worker s = Parked \<Longrightarrow> queue s \<noteq> [] \<Longrightarrow> \<exists>c. phase s c = Pushed"
  using assms unfolding sched_inv_def by blast+

lemma sched_start_inv: "sched_inv jobs sched_start"
  by (simp add: sched_inv_def sched_start_def in_flight_def tickets_ok_def)

lemma not_flying: "sched_inv jobs s \<Longrightarrow> phase s c \<notin> {Pushed, Awaiting, Cancelled} \<Longrightarrow> c \<notin> qt_run ` set (in_flight s)"
  using sched_invD(1) by (fastforce simp: task_ok_def)

lemma flying_mailbox: "sched_inv jobs s \<Longrightarrow> c \<in> qt_run ` set (in_flight s) \<Longrightarrow> mailbox s c = None"
  using sched_invD(1) by (fastforce simp: task_ok_def)

text \<open>A step that only moves one call to a phase outside the tickets.\<close>

lemma phase_step_inv:
  assumes inv: "sched_inv jobs s"
    and s': "in_flight s' = in_flight s" "queue s' = queue s" "mailbox s' = mailbox s" "sequence s' = sequence s"
      "phase s' = (phase s)(c := p)"
    and p: "\<And>n. p \<noteq> Ticketed n" "c \<in> qt_run ` set (in_flight s) \<Longrightarrow> p \<in> {Pushed, Awaiting, Cancelled}"
      "call_ok (jobs c) (mailbox s c) (c \<in> qt_run ` set (in_flight s)) p"
    and w: "worker s' = Parked \<Longrightarrow> queue s \<noteq> [] \<Longrightarrow> worker s = Parked \<and> phase s c \<noteq> Pushed"
  shows "sched_inv jobs s'"
proof (rule sched_invI, unfold s'(1-3))
  show "task_ok jobs s' t" if "t \<in> set (in_flight s)" for t
    using sched_invD(1)[OF inv that] p(2) that by (auto simp: task_ok_def s'(3-5))
  show "distinct (map qt_run (in_flight s))" by (rule sched_invD(2)[OF inv])
  show "tickets_ok s'"
    using sched_invD(3)[OF inv] p(1) by (simp add: tickets_ok_def s')
  show "call_ok (jobs d) (mailbox s d) (d \<in> qt_run ` set (in_flight s)) (phase s' d)" for d
    using sched_invD(4)[OF inv, of d] p(3) by (simp add: s'(5))
  show "\<exists>d. phase s' d = Pushed" if "worker s' = Parked" "queue s \<noteq> []"
    using w[OF that] sched_invD(5)[OF inv _ that(2)] by (auto simp: s'(5))
qed

lemma submit_ticket_inv:
  assumes inv: "sched_inv jobs s" and idle: "phase s c = Idle"
  shows "sched_inv jobs (submit_ticket c s)"
proof (rule sched_invI)
  have fl: "in_flight (submit_ticket c s) = in_flight s"
    by (simp add: submit_ticket_def in_flight_def)
  have c: "c \<notin> qt_run ` set (in_flight s)" by (rule not_flying[OF inv]) (simp add: idle)
  have m: "mailbox s c = None" using sched_invD(4)[OF inv, of c] by (simp add: idle)
  have seq: "qt_sequence t < sequence s" if "t \<in> set (in_flight s)" for t
    using sched_invD(1)[OF inv that] by (simp add: task_ok_def)
  show "task_ok jobs (submit_ticket c s) t" if "t \<in> set (in_flight (submit_ticket c s))" for t
    using sched_invD(1)[OF inv, of t] that c unfolding fl by (auto simp: task_ok_def submit_ticket_def)
  show "distinct (map qt_run (in_flight (submit_ticket c s)))"
    unfolding fl by (rule sched_invD(2)[OF inv])
  show "tickets_ok (submit_ticket c s)"
  proof (rule tickets_okI, unfold fl)
    note old = tickets_okD[OF sched_invD(3)[OF inv]]
    have new: "d = c \<and> k = sequence s \<or> d \<noteq> c \<and> phase s d = Ticketed k"
      if "phase (submit_ticket c s) d = Ticketed k" for d k
      using that by (auto simp: submit_ticket_def split: if_splits)
    show "distinct (map qt_sequence (in_flight s))" by (rule old(1))
    fix d d' k assume d: "phase (submit_ticket c s) d = Ticketed k"
    show "k < sequence (submit_ticket c s)"
      using new[OF d] old(2)[of d k] by (auto simp: submit_ticket_def)
    show "k \<notin> qt_sequence ` set (in_flight s)" 
    proof (cases "phase s d = Ticketed k")
      case False
      then have "k = sequence s" using new[OF d] by simp
      then show ?thesis using seq by force
    qed (rule old(3))
    show "d' = d" if d': "phase (submit_ticket c s) d' = Ticketed k"
      using new[OF d] new[OF d'] old(4)[of d k d'] old(2)[of d k] old(2)[of d' k] by auto
  qed
  show "call_ok (jobs d) (mailbox (submit_ticket c s) d)
      (d \<in> qt_run ` set (in_flight (submit_ticket c s))) (phase (submit_ticket c s) d)" for d
    using sched_invD(4)[OF inv, of d] m unfolding fl by (simp add: submit_ticket_def)
  show "\<exists>d. phase (submit_ticket c s) d = Pushed"
    if "worker (submit_ticket c s) = Parked" "queue (submit_ticket c s) \<noteq> []"
  proof -
    have "worker s = Parked" "queue s \<noteq> []" using that by (simp_all add: submit_ticket_def)
    then obtain d where d: "phase s d = Pushed" using sched_invD(5)[OF inv] by blast
    then have "d \<noteq> c" using idle by auto
    with d have "phase (submit_ticket c s) d = Pushed" by (simp add: submit_ticket_def)
    then show ?thesis ..
  qed
qed

lemma submit_push_inv:
  assumes inv: "sched_inv jobs s" and ph: "phase s c = Ticketed n"
  shows "sched_inv jobs (submit_push jobs c n s)"
proof -
  define t where "t = \<lparr>qt_priority = job_priority (jobs c), qt_sequence = n, qt_label = job_label (jobs c), qt_run = c\<rparr>"
  define s' where "s' = submit_push jobs c n s"
  have t: "qt_run t = c" "qt_sequence t = n" "qt_priority t = job_priority (jobs c)" by (simp_all add: t_def)
  have s': "queue s' = t # queue s" "phase s' = (phase s)(c := Pushed)" "worker s' = worker s"
    "mailbox s' = mailbox s" "sequence s' = sequence s"
    by (simp_all add: s'_def submit_push_def t_def heap_push_def)
  have fl: "set (in_flight s') = insert t (set (in_flight s))"
      "distinct (map f (in_flight s')) \<longleftrightarrow> f t \<notin> f ` set (in_flight s) \<and> distinct (map f (in_flight s))" for f :: "queued_task \<Rightarrow> nat"
    by (auto simp: in_flight_def s' running_tasks_def split: worker_phase.splits)
  have c: "c \<notin> qt_run ` set (in_flight s)" by (rule not_flying[OF inv]) (simp add: ph)
  have m: "mailbox s c = None" using sched_invD(4)[OF inv, of c] by (simp add: ph)
  note tk = tickets_okD[OF sched_invD(3)[OF inv]]
  have "sched_inv jobs s'"
  proof (rule sched_invI)
    show "task_ok jobs s' u" if "u \<in> set (in_flight s')" for u
    proof (cases "u = t")
      case True
      then show ?thesis using tk(2)[OF ph] m by (simp add: task_ok_def s' t)
    next
      case False
      then have u: "u \<in> set (in_flight s)" using that unfolding fl(1) by simp
      then have "qt_run u \<noteq> c" using c by (metis imageI)
      then show ?thesis using sched_invD(1)[OF inv u] by (simp add: task_ok_def s')
    qed
    show "distinct (map qt_run (in_flight s'))" unfolding fl(2) t using c sched_invD(2)[OF inv] by blast
    show "tickets_ok s'"
    proof (rule tickets_okI, unfold fl(2) t)
      show "n \<notin> qt_sequence ` set (in_flight s) \<and> distinct (map qt_sequence (in_flight s))"
        using tk(1) tk(3)[OF ph] by blast
      fix d d' k assume "phase s' d = Ticketed k"
      then have d: "d \<noteq> c" "phase s d = Ticketed k" by (auto simp: s' split: if_splits)
      show "k < sequence s'" using tk(2)[OF d(2)] by (simp add: s')
      have "k \<noteq> n" using tk(4)[OF ph] d by blast
      then show "k \<notin> qt_sequence ` set (in_flight s')" using tk(3)[OF d(2)] unfolding fl(1) by (simp add: t)
      show "d' = d" if "phase s' d' = Ticketed k"
        using that tk(4)[OF d(2), of d'] by (auto simp: s' split: if_splits)
    qed
    show "call_ok (jobs d) (mailbox s' d) (d \<in> qt_run ` set (in_flight s')) (phase s' d)" for d
      using sched_invD(4)[OF inv, of d] unfolding fl(1) by (cases "d = c") (auto simp: s' t)
    show "\<exists>d. phase s' d = Pushed" by (auto simp: s')
  qed
  then show ?thesis by (simp add: s'_def)
qed

lemma submit_notify_inv:
  assumes inv: "sched_inv jobs s" and ph: "phase s c = Pushed"
  shows "sched_inv jobs (submit_notify c s)"
proof (rule phase_step_inv[OF inv, where c = c and p = Awaiting])
  show "call_ok (jobs c) (mailbox s c) (c \<in> qt_run ` set (in_flight s)) Awaiting"
    using sched_invD(4)[OF inv, of c] by (simp add: ph)
qed (auto simp: submit_notify_def in_flight_def split: if_splits)

lemma submit_receive_inv:
  assumes inv: "sched_inv jobs s" and ph: "phase s c = Awaiting" and r: "mailbox s c = Some r"
  shows "sched_inv jobs (submit_receive c r s)"
proof (rule phase_step_inv[OF inv, where c = c and p = "Returned (reply_result r)"])
  have nf: "c \<notin> qt_run ` set (in_flight s)" using flying_mailbox[OF inv, of c] r by auto
  show "call_ok (jobs c) (mailbox s c) (c \<in> qt_run ` set (in_flight s)) (Returned (reply_result r))"
    using sched_invD(4)[OF inv, of c] nf by (auto simp: ph r)
  show "Returned (reply_result r) \<in> {Pushed, Awaiting, Cancelled}" if "c \<in> qt_run ` set (in_flight s)"
    using nf that by simp
qed (auto simp: submit_receive_def in_flight_def ph)

lemma submit_cancel_inv:
  assumes inv: "sched_inv jobs s" and ph: "phase s c = Awaiting"
  shows "sched_inv jobs (submit_cancel c s)"
proof (rule phase_step_inv[OF inv, where c = c and p = Cancelled])
  show "call_ok (jobs c) (mailbox s c) (c \<in> qt_run ` set (in_flight s)) Cancelled"
    using sched_invD(4)[OF inv, of c] by (simp add: ph)
qed (auto simp: submit_cancel_def in_flight_def ph)

lemma same_flight_inv:
  assumes inv: "sched_inv jobs s" and "mset (in_flight s') = mset (in_flight s)"
    and eq: "phase s' = phase s" "mailbox s' = mailbox s" "sequence s' = sequence s"
    and w: "worker s' = Parked \<Longrightarrow> queue s' \<noteq> [] \<Longrightarrow> \<exists>c. phase s c = Pushed"
  shows "sched_inv jobs s'"
proof -
  have st: "set (in_flight s') = set (in_flight s)"
    "distinct (map f (in_flight s')) = distinct (map f (in_flight s))" for f :: "queued_task \<Rightarrow> nat"
    using assms(2) mset_eq_setD mset_map mset_eq_imp_distinct_iff by metis+
  show ?thesis
    using inv w unfolding sched_inv_def tickets_ok_def task_ok_def st eq by blast
qed

lemma worker_lock_cases:
  obtains (pop) t q where "heap_pop task_cmp (queue s) = Some (t, q)"
      "worker_lock s = s\<lparr>queue := q, worker := Running t\<rparr>" "mset (queue s) = add_mset t (mset q)"
  | (park) "queue s = []" "worker_lock s = s\<lparr>worker := Parked\<rparr>"
proof (cases "heap_pop task_cmp (queue s)")
  case None
  then show ?thesis using park heap.pop_None[of "queue s"] by (simp add: worker_lock_def)
next
  case (Some tq)
  obtain t q where "tq = (t, q)" by (cases tq)
  with Some show ?thesis using pop[of t q] heap.pop_Some[of "queue s" t q] by (simp add: worker_lock_def)
qed

lemma worker_lock_inv:
  assumes inv: "sched_inv jobs s" and w: "worker s = Checking"
  shows "sched_inv jobs (worker_lock s)"
proof (cases s rule: worker_lock_cases)
  case (pop t q)
  show ?thesis unfolding pop(2)
    by (rule same_flight_inv[OF inv]) (simp_all add: in_flight_def w pop(3))
next
  case park
  show ?thesis unfolding park(2)
    by (rule same_flight_inv[OF inv]) (simp_all add: in_flight_def w park(1))
qed

lemma worker_run_shape:
  "worker_run jobs t s = s\<lparr>worker := (if job_outcome (jobs (qt_run t)) = Panics then Dead else Checking),
     mailbox := (mailbox s)(qt_run t \<mapsto> reply_of (jobs (qt_run t)))\<rparr>"
  by (simp add: worker_run_def reply_of_def split: outcome.splits)

lemma worker_run_inv:
  assumes inv: "sched_inv jobs s" and w: "worker s = Running t"
  shows "sched_inv jobs (worker_run jobs t s)"
proof -
  define s' where "s' = worker_run jobs t s"
  have s': "queue s' = queue s" "phase s' = phase s" "sequence s' = sequence s"
    "mailbox s' = (mailbox s)(qt_run t \<mapsto> reply_of (jobs (qt_run t)))" "worker s' = Dead \<or> worker s' = Checking"
    by (simp_all add: s'_def worker_run_shape)
  have fl: "in_flight s = t # in_flight s'" using s'(1,5) by (auto simp: in_flight_def w)
  have t: "task_ok jobs s t" "qt_run t \<notin> qt_run ` set (in_flight s')" "distinct (map qt_run (in_flight s'))"
    using sched_invD(1,2)[OF inv] by (simp_all add: fl)
  have "sched_inv jobs s'"
  proof (rule sched_invI)
    show "task_ok jobs s' u" if "u \<in> set (in_flight s')" for u
    proof -
      have "qt_run u \<noteq> qt_run t" using t(2) that by (metis imageI)
      then show ?thesis using sched_invD(1)[OF inv, of u] that by (simp add: fl task_ok_def s')
    qed
    show "tickets_ok s'" using sched_invD(3)[OF inv] unfolding tickets_ok_def fl s'(2,3) by auto
    show "call_ok (jobs d) (mailbox s' d) (d \<in> qt_run ` set (in_flight s')) (phase s' d)" for d
    proof (cases "d = qt_run t")
      case True
      then have "phase s d \<in> {Pushed, Awaiting, Cancelled}" using t(1) by (simp add: task_ok_def)
      then show ?thesis using True by (auto simp: s')
    next
      case False
      then show ?thesis using sched_invD(4)[OF inv, of d] by (simp add: fl s')
    qed
    show "\<exists>d. phase s' d = Pushed" if "worker s' = Parked" using s'(5) that by simp
  qed (rule t(3))
  then show ?thesis by (simp add: s'_def)
qed

lemma sched_step_inv: "sched_step jobs s s' \<Longrightarrow> sched_inv jobs s \<Longrightarrow> sched_inv jobs s'"
proof (induction rule: sched_step.induct)
  case (step_wake s)
  show ?case by (rule same_flight_inv[OF step_wake.prems]) (simp_all add: in_flight_def step_wake.hyps)
qed (simp_all add: submit_ticket_inv submit_push_inv submit_notify_inv submit_receive_inv
    submit_cancel_inv worker_lock_inv worker_run_inv)

lemma sched_reach_inv: "sched_reach jobs s s' \<Longrightarrow> sched_inv jobs s \<Longrightarrow> sched_inv jobs s'"
  by (induction rule: sched_reach.induct) (auto intro: sched_step_inv)

lemmas sched_start_reach_inv = sched_reach_inv[OF _ sched_start_inv]

section \<open>What one call of the worker's lock does\<close>

lemma worker_lock_choice:
  assumes inv: "sched_inv jobs s" and w: "worker s = Checking" and run: "worker (worker_lock s) = Running t"
  shows "mset (queue s) = add_mset t (mset (queue (worker_lock s))) \<and>
    (\<forall>u\<in>set (queue (worker_lock s)).
      qt_priority t < qt_priority u \<or> qt_priority t = qt_priority u \<and> qt_sequence t < qt_sequence u)"
proof (cases s rule: worker_lock_cases)
  case (pop t' q)
  have t': "t' = t" using run unfolding pop(2) by simp
  have "distinct (map qt_sequence (in_flight (worker_lock s)))"
    using sched_invD(3)[OF worker_lock_inv[OF inv w]] by (rule tickets_okD(1))
  then have nq: "qt_sequence t \<notin> qt_sequence ` set q" unfolding in_flight_def pop(2) t' by simp
  have "qt_priority t < qt_priority u \<or> qt_priority t = qt_priority u \<and> qt_sequence t < qt_sequence u"
    if u: "u \<in># mset q" for u
  proof -
    have "qt_sequence u \<noteq> qt_sequence t" using nq u by (metis imageI set_mset_mset)
    moreover have "task_key t \<le> task_key u"
      using heap.pop_least[OF pop(1), of u] heap.pop_rest_subset[OF pop(1) u] t' by simp
    ultimately show ?thesis by (auto simp: task_key_def)
  qed
  then show ?thesis using pop(3) unfolding pop(2) t' by simp
next
  case park
  then show ?thesis using run by simp
qed

section \<open>The worker on its own\<close>

definition worker_turn :: "(nat \<Rightarrow> 'r job) \<Rightarrow> 'r sched \<Rightarrow> 'r sched" where
  "worker_turn jobs s =
    (case worker s of
       Checking \<Rightarrow> worker_lock s | Running task \<Rightarrow> worker_run jobs task s | Parked \<Rightarrow> s | Dead \<Rightarrow> s)"

lemma worker_turn_reach: "sched_reach jobs s (worker_turn jobs s)"
proof (cases "worker s")
  case Checking
  then show ?thesis using reach_step[OF reach_refl step_lock] by (simp add: worker_turn_def)
next
  case (Running t)
  then show ?thesis using reach_step[OF reach_refl step_run] by (simp add: worker_turn_def)
qed (simp_all add: worker_turn_def reach_refl)

lemma worker_turns_reach: "sched_reach jobs s ((worker_turn jobs ^^ n) s)"
proof (induction n)
  case (Suc n)
  show ?case using sched_reach_trans[OF worker_turn_reach Suc.IH] by simp
qed (simp add: reach_refl)

text \<open>Turns left: two per queued task, one for a running one, and the last look at the empty queue.\<close>

definition turns_left :: "'r sched \<Rightarrow> nat" where
  "turns_left s = (case worker s of
     Checking \<Rightarrow> 2 * length (queue s) + 1 | Running t \<Rightarrow> 2 * length (queue s) + 2 | Parked \<Rightarrow> 0 | Dead \<Rightarrow> 0)"

lemma worker_turn_progress:
  assumes "\<And>c. job_outcome (jobs c) \<noteq> Panics" "worker s \<noteq> Dead" "worker s = Parked \<Longrightarrow> queue s = []"
  shows "turns_left (worker_turn jobs s) = turns_left s - 1 \<and> worker (worker_turn jobs s) \<noteq> Dead \<and>
    (worker (worker_turn jobs s) = Parked \<longrightarrow> queue (worker_turn jobs s) = []) \<and>
    phase (worker_turn jobs s) = phase s"
proof (cases "worker s")
  case Checking
  show ?thesis
  proof (cases s rule: worker_lock_cases)
    case (pop t q)
    have "length (queue s) = Suc (length q)" using arg_cong[OF pop(3), of size] by simp
    then show ?thesis by (simp add: worker_turn_def Checking pop(2) turns_left_def)
  qed (simp add: worker_turn_def Checking turns_left_def)
next
  case (Running t)
  then show ?thesis using assms(1)[of "qt_run t"] by (simp add: worker_turn_def worker_run_shape turns_left_def)
qed (use assms in \<open>simp_all add: worker_turn_def turns_left_def\<close>)

lemma worker_turns_progress:
  assumes "\<And>c. job_outcome (jobs c) \<noteq> Panics" "worker s \<noteq> Dead" "worker s = Parked \<Longrightarrow> queue s = []"
  defines "t n \<equiv> (worker_turn jobs ^^ n) s"
  shows "turns_left (t n) = turns_left s - n \<and> worker (t n) \<noteq> Dead \<and>
    (worker (t n) = Parked \<longrightarrow> queue (t n) = []) \<and> phase (t n) = phase s"
proof (induction n)
  case 0
  then show ?case using assms by simp
next
  case (Suc n)
  have "t (Suc n) = worker_turn jobs (t n)" by (simp add: t_def)
  then show ?case using worker_turn_progress[of jobs "t n"] Suc assms(1) by auto
qed

lemma no_turns_left: "turns_left s = 0 \<Longrightarrow> worker s \<noteq> Dead \<Longrightarrow> worker s = Parked"
  by (cases "worker s") (simp_all add: turns_left_def)

section \<open>After the worker has died\<close>

definition stranded :: "nat \<Rightarrow> 'r sched \<Rightarrow> bool" where
  "stranded c s \<longleftrightarrow> worker s = Dead \<and> mailbox s c = None \<and> (\<forall>r. phase s c \<noteq> Returned r)"

lemma stranded_step: "sched_step jobs s s' \<Longrightarrow> stranded c s \<Longrightarrow> stranded c s'"
  by (induction rule: sched_step.induct) (auto simp: stranded_def sched_op_defs)

lemma stranded_reach: "sched_reach jobs s s' \<Longrightarrow> stranded c s \<Longrightarrow> stranded c s'"
  by (induction rule: sched_reach.induct) (auto intro: stranded_step)

section \<open>Properties\<close>

text \<open>C23: In every interleaving of the submitting threads with the worker, every task is held at most once, in the
  queue or by the worker, and has not replied yet; a call that has pushed its task and has not been
  cancelled still has it there or has the reply of its own job; a call returns only its own job's
  result; and no wake-up is lost: the worker is parked over a non-empty queue only while some call
  is about to notify it.\<close>

theorem tasks_run_once_and_wake_the_worker:
  assumes "sched_reach jobs sched_start s"
  shows "distinct (map qt_run (in_flight s)) \<and>
    (\<forall>t\<in>set (in_flight s). mailbox s (qt_run t) = None) \<and>
    (\<forall>c. phase s c \<in> {Pushed, Awaiting} \<longrightarrow>
      c \<in> qt_run ` set (in_flight s) \<or> mailbox s c = Some (reply_of (jobs c))) \<and>
    (\<forall>c r. phase s c = Returned r \<longrightarrow> r = reply_result (reply_of (jobs c))) \<and>
    (worker s = Parked \<and> queue s \<noteq> [] \<longrightarrow> (\<exists>c. phase s c = Pushed))"
proof (intro conjI allI ballI impI)
  note inv = sched_start_reach_inv[OF assms]
  show "distinct (map qt_run (in_flight s))" by (rule sched_invD(2)[OF inv])
  show "mailbox s (qt_run t) = None" if "t \<in> set (in_flight s)" for t
    using sched_invD(1)[OF inv that] by (simp add: task_ok_def)
  show "c \<in> qt_run ` set (in_flight s) \<or> mailbox s c = Some (reply_of (jobs c))"
    if "phase s c \<in> {Pushed, Awaiting}" for c
    using sched_invD(4)[OF inv, of c] that by auto
  show "r = reply_result (reply_of (jobs c))" if "phase s c = Returned r" for c r
    using sched_invD(4)[OF inv, of c] that by simp
  show "\<exists>c. phase s c = Pushed" if "worker s = Parked \<and> queue s \<noteq> []"
    using sched_invD(5)[OF inv] that by blast
qed

text \<open>C24: The worker runs the most urgent task: whenever it takes a task from the queue, every
  task left behind has a less urgent priority, or the same priority and a later ticket, and
  nothing else leaves the queue.\<close>

theorem worker_runs_the_most_urgent_task:
  assumes "sched_reach jobs sched_start s" "worker s = Checking" "worker (worker_lock s) = Running t"
  shows "mset (queue s) = add_mset t (mset (queue (worker_lock s))) \<and>
    (\<forall>u\<in>set (queue (worker_lock s)).
      qt_priority t < qt_priority u \<or> qt_priority t = qt_priority u \<and> qt_sequence t < qt_sequence u)"
  using worker_lock_choice[OF sched_start_reach_inv[OF assms(1)] assms(2,3)] by blast

text \<open>C25: When no job panics, the worker is alive and every pushed call has notified, the worker
  alone empties the queue in at most \<^verbatim>\<open>2 n + 2\<close> turns, for \<^verbatim>\<open>n\<close> queued tasks, parks, and then every waiting call has
  the result of its job in its mailbox.\<close>

theorem worker_answers_every_call:
  assumes "sched_reach jobs sched_start s" "\<And>c. job_outcome (jobs c) \<noteq> Panics" "worker s \<noteq> Dead"
    "\<And>c. phase s c \<noteq> Pushed" "s' = (worker_turn jobs ^^ (2 * length (queue s) + 2)) s"
  shows "sched_reach jobs s s' \<and> queue s' = [] \<and> worker s' = Parked \<and> phase s' = phase s \<and>
    (\<forall>c. phase s c = Awaiting \<longrightarrow> (\<exists>r. job_outcome (jobs c) = Value r \<and> mailbox s' c = Some (Sent r)))"
proof (intro conjI allI impI)
  note s'_def = assms(5)
  have parked: "worker s = Parked \<Longrightarrow> queue s = []"
    using sched_invD(5)[OF sched_start_reach_inv[OF assms(1)]] assms(4) by blast
  show reach: "sched_reach jobs s s'" unfolding s'_def by (rule worker_turns_reach)
  have tl: "turns_left s \<le> 2 * length (queue s) + 2" by (simp add: turns_left_def split: worker_phase.splits)
  have pr: "turns_left s' = turns_left s - (2 * length (queue s) + 2) \<and> worker s' \<noteq> Dead \<and>
      (worker s' = Parked \<longrightarrow> queue s' = []) \<and> phase s' = phase s"
    unfolding s'_def by (rule worker_turns_progress[OF assms(2,3) parked])
  have "worker s' = Parked" by (rule no_turns_left) (use pr tl in auto)
  then show s': "worker s' = Parked" "queue s' = []" "phase s' = phase s" using pr by auto
  fix c assume c: "phase s c = Awaiting"
  have "sched_inv jobs s'"
    by (rule sched_reach_inv[OF reach sched_start_reach_inv[OF assms(1)]])
  from sched_invD(4)[OF this, of c] have "mailbox s' c = Some (reply_of (jobs c))"
    using s' c by (simp add: in_flight_def)
  then show "\<exists>r. job_outcome (jobs c) = Value r \<and> mailbox s' c = Some (Sent r)"
    using assms(2)[of c] by (cases "job_outcome (jobs c)") (auto simp: reply_of_def)
qed

text \<open>C26: A task that panics kills the worker, and from then on no call without a reply ever
  returns: neither the calls still in the queue nor any call submitted later.\<close>

theorem panic_strands_every_later_call:
  assumes "worker s = Running t" "job_outcome (jobs (qt_run t)) = Panics"
    "c \<noteq> qt_run t" "mailbox s c = None" "\<And>r. phase s c \<noteq> Returned r"
    "sched_reach jobs (worker_run jobs t s) s'"
  shows "worker s' = Dead \<and> (\<forall>r. phase s' c \<noteq> Returned r)"
proof -
  have "stranded c (worker_run jobs t s)"
    using assms(2-5) by (auto simp: stranded_def worker_run_shape)
  from stranded_reach[OF assms(6) this] show ?thesis by (simp add: stranded_def)
qed

section \<open>Witnesses\<close>

definition example_jobs :: "nat \<Rightarrow> nat job" where
  "example_jobs c = \<lparr>job_priority = (if c = 1 then Realtime else Transcribe), job_label = ''task'',
     job_outcome = (if c = 7 then Panics else Value (Inr (10 * c)))\<rparr>"

text \<open>Calls 0 and 1 have submitted, in this order.\<close>

definition example_sched :: "nat sched" where
  "example_sched = submit_notify 1 (submit_push example_jobs 1 1 (submit_notify 0
     (submit_push example_jobs 0 0 (submit_ticket 1 (submit_ticket 0 sched_start)))))"

lemma example_sched_reach: "sched_reach example_jobs sched_start example_sched"
  unfolding example_sched_def
  by (intro reach_step[OF _ step_notify] reach_step[OF _ step_push] reach_step[OF _ step_ticket] reach_refl)
    (simp_all add: sched_op_defs sched_start_def)

lemma example_sched_run: "worker (worker_lock example_sched) =
    Running \<lparr>qt_priority = Realtime, qt_sequence = 1, qt_label = ''task'', qt_run = 1\<rparr>"
  "worker example_sched = Checking" "phase example_sched 0 = Awaiting"
  "queue (worker_lock example_sched) = [\<lparr>qt_priority = Transcribe, qt_sequence = 0, qt_label = ''task'', qt_run = 0\<rparr>]"
  by (simp_all add: example_sched_def sched_op_defs sched_start_def heap_push_def heap_pop_def
      example_jobs_def task_cmp_def nat_cmp_def)

theorem tasks_run_once_and_wake_the_worker_witness:
  "sched_reach example_jobs sched_start example_sched \<and>
   (0 \<in> qt_run ` set (in_flight example_sched) \<or> mailbox example_sched 0 = Some (Sent (Inr 0)))"
proof
  have "phase example_sched 0 \<in> {Pushed, Awaiting} \<longrightarrow>
      0 \<in> qt_run ` set (in_flight example_sched) \<or> mailbox example_sched 0 = Some (reply_of (example_jobs 0))"
    using tasks_run_once_and_wake_the_worker[OF example_sched_reach] by blast
  then show "0 \<in> qt_run ` set (in_flight example_sched) \<or> mailbox example_sched 0 = Some (Sent (Inr 0))"
    unfolding example_sched_run(3) by (simp add: reply_of_def example_jobs_def)
qed (rule example_sched_reach)

theorem worker_runs_the_most_urgent_task_witness:
  "mset (queue example_sched) =
     add_mset \<lparr>qt_priority = Realtime, qt_sequence = 1, qt_label = ''task'', qt_run = 1\<rparr>
       (mset (queue (worker_lock example_sched))) \<and>
   Realtime < qt_priority (hd (queue (worker_lock example_sched)))"
  using worker_runs_the_most_urgent_task[OF example_sched_reach example_sched_run(2,1)]
  by (simp add: example_sched_run(4) priority_order)

definition calm_jobs :: "nat \<Rightarrow> nat job" where
  "calm_jobs c = (example_jobs c)\<lparr>job_outcome := Value (Inr c)\<rparr>"

definition example_work :: "nat sched" where
  "example_work = submit_notify 0 (submit_push calm_jobs 0 0 (submit_ticket 0 sched_start))"

theorem worker_answers_every_call_witness:
  "mailbox ((worker_turn calm_jobs ^^ 4) example_work) 0 = Some (Sent (Inr 0))"
proof -
  have r: "sched_reach calm_jobs sched_start example_work"
    unfolding example_work_def
    by (intro reach_step[OF _ step_notify] reach_step[OF _ step_push] reach_step[OF _ step_ticket] reach_refl)
      (simp_all add: sched_op_defs sched_start_def)
  have ph: "phase example_work c = (if c = 0 then Awaiting else Idle)" for c
    by (simp add: example_work_def sched_op_defs sched_start_def)
  have q: "length (queue example_work) = 1" "worker example_work \<noteq> Dead"
    by (simp_all add: example_work_def sched_op_defs sched_start_def heap_push_def)
  show ?thesis
    using worker_answers_every_call[OF r _ q(2) _ refl] ph by (simp add: q(1) calm_jobs_def numeral_eq_Suc)
qed

theorem panic_strands_every_later_call_witness:
  "worker (worker_run example_jobs \<lparr>qt_priority = Transcribe, qt_sequence = 0, qt_label = ''task'', qt_run = 7\<rparr>
     (sched_start\<lparr>worker := Running \<lparr>qt_priority = Transcribe, qt_sequence = 0, qt_label = ''task'', qt_run = 7\<rparr>\<rparr>)) = Dead"
proof -
  define t where "t = \<lparr>qt_priority = Transcribe, qt_sequence = 0, qt_label = ''task'', qt_run = 7\<rparr>"
  have "worker (worker_run example_jobs t (sched_start\<lparr>worker := Running t\<rparr>)) = Dead \<and>
      (\<forall>r. phase (worker_run example_jobs t (sched_start\<lparr>worker := Running t\<rparr>)) 0 \<noteq> Returned r)"
    by (rule panic_strands_every_later_call[where jobs = example_jobs and c = 0 and t = t
        and s = "sched_start\<lparr>worker := Running t\<rparr>"])
      (simp_all add: t_def example_jobs_def sched_start_def reach_refl)
  then show ?thesis by (simp add: t_def)
qed

end
