(* ===== verification/AlignText.thy ===== *)
theory AlignText
  imports RustText "HOL-Library.List_Lexorder"
begin

text \<open>
  Text preprocessing of the forced aligner (\<^verbatim>\<open>vasr-models/src/forced_aligner/processor.rs\<close>):
  the tokenizers for Japanese, Korean and space-separated languages.

  Unicode data, the NFKC normalisation, the \<^verbatim>\<open>lindera\<close> tokenizer and the embedded data files are
  the parameters of the record \<^verbatim>\<open>align_env\<close>.  Every pass over a list of tokens keeps their
  concatenation, which is the contract the source states in a comment: joined, the tokens are the
  cleaned text.
\<close>

section \<open>Parameters and dictionaries\<close>

record align_env =
  env_category :: "rchar \<Rightarrow> general_category"
  env_nfkc :: "rstring \<Rightarrow> rstring"
  env_lindera :: "rstring \<Rightarrow> rstring list result"
  env_korean_file :: rstring
  env_terms_file :: rstring

record korean_dict =
  kd_words :: "rstring list"
  kd_max_len_chars :: nat

definition korean_line :: "korean_dict \<Rightarrow> rstring \<Rightarrow> korean_dict" where
  "korean_line d raw =
    (let line = trim raw
     in if line = [] then d
        else (case split_whitespace line of
                [] \<Rightarrow> d
              | word # _ \<Rightarrow>
                  if word = [] then d
                  else d\<lparr>kd_words := List.insert word (kd_words d),
                         kd_max_len_chars := max (kd_max_len_chars d) (length word)\<rparr>))"

definition korean_dict_from_embedded :: "align_env \<Rightarrow> korean_dict result" where
  "korean_dict_from_embedded env =
    (let d = foldl korean_line \<lparr>kd_words = [], kd_max_len_chars = 0\<rparr> (str_lines (env_korean_file env))
     in if kd_words d = [] then Inl (Err ''embedded Korean dictionary is empty'')
        else if kd_max_len_chars d = 0 then Inl (Err ''embedded Korean dictionary max word length is zero'')
        else Inr d)"

section \<open>Characters\<close>

definition is_kept_char :: "align_env \<Rightarrow> rchar \<Rightarrow> bool" where
  "is_kept_char env ch \<longleftrightarrow>
    (if ch = 39 then True
     else (case env_category env ch of
             UppercaseLetter \<Rightarrow> True | LowercaseLetter \<Rightarrow> True | TitlecaseLetter \<Rightarrow> True
           | ModifierLetter \<Rightarrow> True | OtherLetter \<Rightarrow> True
           | DecimalNumber \<Rightarrow> True | LetterNumber \<Rightarrow> True | OtherNumber \<Rightarrow> True | _ \<Rightarrow> False))"

definition clean_token :: "align_env \<Rightarrow> rstring \<Rightarrow> rstring" where
  "clean_token env token = filter (is_kept_char env) token"

definition clean_token_japanese :: "align_env \<Rightarrow> rstring \<Rightarrow> rstring" where
  "clean_token_japanese env token = clean_token env (env_nfkc env token)"

definition is_cjk_char :: "rchar \<Rightarrow> bool" where
  "is_cjk_char code \<longleftrightarrow>
    0x4E00 \<le> code \<and> code \<le> 0x9FFF \<or> 0x3400 \<le> code \<and> code \<le> 0x4DBF \<or>
    0x20000 \<le> code \<and> code \<le> 0x2A6DF \<or> 0x2A700 \<le> code \<and> code \<le> 0x2B73F \<or>
    0x2B740 \<le> code \<and> code \<le> 0x2B81F \<or> 0x2B820 \<le> code \<and> code \<le> 0x2CEAF \<or>
    0xF900 \<le> code \<and> code \<le> 0xFAFF"

definition is_hiragana_char :: "rchar \<Rightarrow> bool" where
  "is_hiragana_char ch \<longleftrightarrow> 0x3040 \<le> ch \<and> ch \<le> 0x309F"

definition japanese_script_kind :: "rchar \<Rightarrow> nat option" where
  "japanese_script_kind code =
    (if is_cjk_char code then Some 0
     else if 0x3040 \<le> code \<and> code \<le> 0x309F then Some 1
     else if 0x30A0 \<le> code \<and> code \<le> 0x30FF \<or> 0xFF65 \<le> code \<and> code \<le> 0xFF9F then Some 2
     else None)"

definition is_hiragana_small_char :: "rchar \<Rightarrow> bool" where
  "is_hiragana_small_char ch \<longleftrightarrow>
    ch \<in> set [0x3083, 0x3085, 0x3087, 0x3041, 0x3043, 0x3045, 0x3047, 0x3049, 0x308E, 0x3063, 0x3095, 0x3096]"

definition is_particle_char :: "rchar \<Rightarrow> bool" where
  "is_particle_char ch \<longleftrightarrow>
    ch \<in> set [0x306F, 0x304C, 0x3092, 0x306B, 0x3067, 0x3078, 0x3068, 0x306E, 0x3082, 0x3084]"

definition is_particle_token :: "rstring \<Rightarrow> bool" where
  "is_particle_token token \<longleftrightarrow>
    token \<in> set [[0x306F], [0x304C], [0x3092], [0x306B], [0x3067], [0x3078], [0x3068], [0x306E], [0x3082], [0x3084]]"

definition is_fullwidth_katakana_char :: "rchar \<Rightarrow> bool" where
  "is_fullwidth_katakana_char code \<longleftrightarrow> 0x30A0 \<le> code \<and> code \<le> 0x30FF"

section \<open>User terms\<close>

record merge_terms =
  mt_terms :: "rstring list"
  mt_max_chars :: nat

definition comment_or_empty :: "rstring \<Rightarrow> bool" where
  "comment_or_empty line \<longleftrightarrow> (case line of [] \<Rightarrow> True | c # _ \<Rightarrow> c = 35)"

definition builtin_terms :: "align_env \<Rightarrow> rstring list" where
  "builtin_terms env = filter (\<lambda>line. \<not> comment_or_empty line) (map trim (str_lines (env_terms_file env)))"

definition insert_term :: "align_env \<Rightarrow> merge_terms \<Rightarrow> rstring \<Rightarrow> merge_terms" where
  "insert_term env mt term =
    (let cleaned = clean_token env (env_nfkc env (trim term))
     in if cleaned = [] then mt
        else mt\<lparr>mt_terms := List.insert cleaned (mt_terms mt),
                mt_max_chars := max (mt_max_chars mt) (length cleaned)\<rparr>)"

definition from_builtin_and_user :: "align_env \<Rightarrow> rstring list \<Rightarrow> merge_terms" where
  "from_builtin_and_user env user =
    foldl (insert_term env) \<lparr>mt_terms = [], mt_max_chars = 0\<rparr> (builtin_terms env @ user)"

fun btree_insert :: "'a::linorder \<Rightarrow> 'a list \<Rightarrow> 'a list" where
  "btree_insert x [] = [x]"
| "btree_insert x (y # ys) = (if x < y then x # y # ys else if x = y then y # ys else y # btree_insert x ys)"

definition normalize_japanese_user_terms :: "align_env \<Rightarrow> rstring list \<Rightarrow> rstring list" where
  "normalize_japanese_user_terms env terms =
    foldl (\<lambda>uniq term.
        let cleaned = clean_token_japanese env (trim term)
        in if cleaned \<noteq> [] then btree_insert cleaned uniq else uniq) [] terms"

definition txt_user_terms :: "align_env \<Rightarrow> rstring \<Rightarrow> rstring list" where
  "txt_user_terms env content =
    normalize_japanese_user_terms env
      (filter (\<lambda>line. \<not> comment_or_empty line) (map trim (str_lines content)))"

definition from_japanese_user_terms :: "align_env \<Rightarrow> rstring list \<Rightarrow> merge_terms" where
  "from_japanese_user_terms env terms = from_builtin_and_user env (normalize_japanese_user_terms env terms)"

section \<open>Merging tokens\<close>

definition single_kanji :: "rstring \<Rightarrow> bool" where
  "single_kanji tok \<longleftrightarrow> (case tok of [c] \<Rightarrow> is_cjk_char c | _ \<Rightarrow> False)"

fun merge_kanji :: "rstring list \<Rightarrow> rstring \<Rightarrow> rstring list" where
  "merge_kanji [] kanji_buf = (if kanji_buf \<noteq> [] then [kanji_buf] else [])"
| "merge_kanji (tok # toks) kanji_buf =
    (if single_kanji tok then merge_kanji toks (kanji_buf @ tok)
     else (if kanji_buf \<noteq> [] then [kanji_buf] else []) @ tok # merge_kanji toks [])"

text \<open>The search for the longest phrase that starts at a token: the phrase and how many tokens it spans.\<close>

fun best_phrase :: "merge_terms \<Rightarrow> rstring list \<Rightarrow> nat \<Rightarrow> rstring \<Rightarrow> (nat \<times> rstring) option \<Rightarrow> (nat \<times> rstring) option" where
  "best_phrase mt [] k acc best = best"
| "best_phrase mt (tok # toks) k acc best =
    (let acc = acc @ tok
     in if length acc > mt_max_chars mt then best
        else best_phrase mt toks (k + 1) acc (if acc \<in> set (mt_terms mt) then Some (k + 1, acc) else best))"

lemma best_phrase_span:
  assumes "best_phrase mt toks k acc best = Some (n, phrase)"
  shows "best = Some (n, phrase) \<or> (k < n \<and> n \<le> k + length toks \<and> phrase = acc @ concat (take (n - k) toks))"
  using assms
proof (induction mt toks k acc best rule: best_phrase.induct)
  case (2 mt tok toks k acc best)
  show ?case
  proof (cases "length (acc @ tok) > mt_max_chars mt")
    case True
    then show ?thesis using 2 by simp
  next
    case False
    have "(if acc @ tok \<in> set (mt_terms mt) then Some (k + 1, acc @ tok) else best) = Some (n, phrase)
        \<or> (k + 1 < n \<and> n \<le> k + 1 + length toks \<and> phrase = (acc @ tok) @ concat (take (n - (k + 1)) toks))"
      by (rule "2.IH"[OF refl]) (use 2 False in \<open>simp_all add: Let_def\<close>)
    then show ?thesis
      by (auto simp: take_Cons' Suc_diff_Suc split: if_splits)
  qed
qed simp

function merge_phrases :: "merge_terms \<Rightarrow> rstring list \<Rightarrow> rstring list" where
  "merge_phrases mt [] = []"
| "merge_phrases mt (tok # toks) =
    (case best_phrase mt (tok # toks) 0 [] None of
       Some (next_i, phrase) \<Rightarrow> phrase # merge_phrases mt (drop next_i (tok # toks))
     | None \<Rightarrow> tok # merge_phrases mt toks)"
  by pat_completeness auto
termination
  by (relation "measure (\<lambda>(mt, toks). length toks)") (auto dest: best_phrase_span simp del: best_phrase.simps)

definition merge_japanese_tokens_with_terms :: "merge_terms \<Rightarrow> rstring list \<Rightarrow> rstring list" where
  "merge_japanese_tokens_with_terms mt tokens =
    (let merged = merge_kanji tokens []
     in if mt_max_chars mt = 0 then merged else merge_phrases mt merged)"

section \<open>Splitting and repairing hiragana tokens\<close>

definition is_hiragana_word :: "rstring \<Rightarrow> bool" where
  "is_hiragana_word w \<longleftrightarrow> list_all is_hiragana_char w"

definition particle_positions :: "rstring \<Rightarrow> nat list" where
  "particle_positions chars =
    filter (\<lambda>i. \<not> (i = 0 \<or> i + 1 \<ge> length chars) \<and> is_particle_char (chars ! i)) [0..<length chars]"

definition split_at_particle :: "rstring \<Rightarrow> rstring list \<times> nat \<Rightarrow> nat \<Rightarrow> rstring list \<times> nat" where
  "split_at_particle chars = (\<lambda>(out, start) i.
    ((if start < i then out @ [slice start i chars] else out) @ [[chars ! i]], i + 1))"

definition split_at_particles :: "rstring \<Rightarrow> nat list \<Rightarrow> rstring list" where
  "split_at_particles chars positions =
    (let (out, start) = foldl (split_at_particle chars) ([], 0) positions
     in if start < length chars then out @ [drop start chars] else out)"

definition split_particles :: "rstring \<Rightarrow> rstring list" where
  "split_particles chars =
    (let n = length chars; split_positions = particle_positions chars
     in if split_positions = [] then [chars]
        else if length split_positions = 1 then
          (let i = split_positions ! 0; left_len = i; right_len = n - (i + 1)
           in if n < 7 \<or> left_len < 2 \<or> right_len < 2 then [chars]
              else [take i chars, [chars ! i], drop (i + 1) chars])
        else split_at_particles chars split_positions)"

definition split_tail :: "rstring \<Rightarrow> rstring list" where
  "split_tail seg =
    (let m = length seg
     in if 4 \<le> m \<and> seg ! (m - 2) = 0x304B \<and> seg ! (m - 1) = 0x306A \<and> is_hiragana_word (take (m - 2) seg)
        then [take (m - 2) seg, [0x304B], [0x306A]]
        else if 4 \<le> m \<and> seg ! (m - 2) = 0x3088 \<and> seg ! (m - 1) = 0x306D \<and> is_hiragana_word (take (m - 2) seg)
        then [take (m - 2) seg, [0x3088], [0x306D]]
        else if 3 \<le> m \<and> seg ! (m - 1) \<in> set [0x304B, 0x306D, 0x3088, 0x306A] \<and> is_hiragana_word (take (m - 1) seg)
        then [take (m - 1) seg, [seg ! (m - 1)]]
        else [seg])"

definition split_hiragana_particle_token :: "rstring \<Rightarrow> rstring list" where
  "split_hiragana_particle_token chars =
    (let n = length chars
     in if \<not> is_hiragana_word chars then [chars]
        else if 5 \<le> n \<and> chars ! 0 = 0x304A \<and> chars ! (n - 2) = 0x3055 \<and> chars ! (n - 1) = 0x3093 \<and>
          2 \<le> n - 3 \<and> is_hiragana_word (slice 1 (n - 2) chars)
        then [[0x304A], slice 1 (n - 2) chars, [0x3055, 0x3093]]
        else if n < 6 then [chars]
        else if particle_positions chars = [] then [chars]
        else filter (\<lambda>t. t \<noteq> []) (concat (map split_tail (split_particles chars))))"

definition split_hiragana_particle_runs :: "rstring list \<Rightarrow> rstring list" where
  "split_hiragana_particle_runs tokens = concat (map split_hiragana_particle_token tokens)"

definition bridge_fragment :: "rstring \<Rightarrow> rstring \<Rightarrow> bool" where
  "bridge_fragment cur next_tok \<longleftrightarrow>
    (cur \<noteq> [] \<and> is_hiragana_word cur) \<and> (next_tok \<noteq> [] \<and> is_hiragana_word next_tok) \<and>
    \<not> is_particle_token cur \<and> length cur \<le> 2 \<and> 4 \<le> length next_tok \<and>
    list_ex (\<lambda>(idx, ch). 0 < idx \<and> idx + 1 < length next_tok \<and> is_particle_char ch)
      (zip [0..<length next_tok] next_tok)"

fun repair_hiragana_bridge_fragments :: "rstring list \<Rightarrow> rstring list" where
  "repair_hiragana_bridge_fragments (cur # next_tok # rest) =
    (if bridge_fragment cur next_tok
     then (cur @ next_tok) # repair_hiragana_bridge_fragments rest
     else cur # repair_hiragana_bridge_fragments (next_tok # rest))"
| "repair_hiragana_bridge_fragments toks = toks"

definition prefix_fragment :: "rstring \<Rightarrow> rstring \<Rightarrow> rstring \<Rightarrow> bool" where
  "prefix_fragment cur next_tok after \<longleftrightarrow>
    (cur \<noteq> [] \<and> is_hiragana_word cur) \<and> (next_tok \<noteq> [] \<and> is_hiragana_word next_tok) \<and>
    is_particle_token after \<and> \<not> is_particle_token next_tok \<and>
    (length next_tok = 1 \<or> (case next_tok of [] \<Rightarrow> False | c # _ \<Rightarrow> is_hiragana_small_char c))"

fun repair_hiragana_prefix_fragments :: "rstring list \<Rightarrow> rstring list" where
  "repair_hiragana_prefix_fragments (cur # next_tok # after # rest) =
    (if prefix_fragment cur next_tok after
     then (cur @ next_tok) # repair_hiragana_prefix_fragments (after # rest)
     else cur # repair_hiragana_prefix_fragments (next_tok # after # rest))"
| "repair_hiragana_prefix_fragments toks = toks"

definition split_ascii_digit_runs :: "rstring list \<Rightarrow> rstring list" where
  "split_ascii_digit_runs tokens =
    concat (map (\<lambda>token. if 1 < length token \<and> list_all is_ascii_digit token
                         then map (\<lambda>ch. [ch]) token else [token]) tokens)"

text \<open>All characters of such a token take three bytes, so the byte offset of the suffix is the
  boundary four characters from the end.\<close>

definition katakana_suffix :: rstring where
  "katakana_suffix = [0x30AB, 0x30BF, 0x30AB, 0x30CA]"

definition split_katakana_compound :: "rstring \<Rightarrow> rstring list" where
  "split_katakana_compound token =
    (let k = length token - 4
     in if list_all is_fullwidth_katakana_char token \<and> 4 \<le> length token \<and>
          drop k token = katakana_suffix \<and> token \<noteq> katakana_suffix
        then if 0 < k \<and> 2 \<le> length (take k token) then [take k token, katakana_suffix] else [token]
        else [token])"

definition split_katakana_compounds :: "rstring list \<Rightarrow> rstring list" where
  "split_katakana_compounds tokens = concat (map split_katakana_compound tokens)"

section \<open>Tokenizers\<close>

record fallback_state =
  fb_tokens :: "rstring list"
  fb_latin :: rstring
  fb_jp :: rstring
  fb_kind :: "nat option"

definition fallback_char :: "align_env \<Rightarrow> fallback_state \<Rightarrow> rchar \<Rightarrow> fallback_state" where
  "fallback_char env s ch =
    (case japanese_script_kind ch of
       Some kind \<Rightarrow>
        (let s = (if fb_latin s \<noteq> [] then s\<lparr>fb_tokens := fb_tokens s @ [fb_latin s], fb_latin := []\<rparr> else s);
             s = (if fb_kind s \<noteq> Some kind \<and> fb_jp s \<noteq> []
                  then s\<lparr>fb_tokens := fb_tokens s @ [fb_jp s], fb_jp := []\<rparr> else s)
         in s\<lparr>fb_jp := fb_jp s @ [ch], fb_kind := Some kind\<rparr>)
     | None \<Rightarrow>
        (let s = (if fb_jp s \<noteq> []
                  then s\<lparr>fb_tokens := fb_tokens s @ [fb_jp s], fb_jp := [], fb_kind := None\<rparr> else s)
         in if is_kept_char env ch then s\<lparr>fb_latin := fb_latin s @ [ch]\<rparr>
            else if fb_latin s \<noteq> [] then s\<lparr>fb_tokens := fb_tokens s @ [fb_latin s], fb_latin := []\<rparr>
            else s))"

definition tokenize_japanese_fallback :: "align_env \<Rightarrow> rstring \<Rightarrow> rstring list" where
  "tokenize_japanese_fallback env tx =
    (let s = foldl (fallback_char env) \<lparr>fb_tokens = [], fb_latin = [], fb_jp = [], fb_kind = None\<rparr> tx;
         tokens = fb_tokens s @ (if fb_jp s \<noteq> [] then [fb_jp s] else [])
                    @ (if fb_latin s \<noteq> [] then [fb_latin s] else [])
     in filter (\<lambda>t. t \<noteq> []) (map (clean_token env) tokens))"

definition tokenize_japanese_lindera :: "align_env \<Rightarrow> rstring \<Rightarrow> rstring list result" where
  "tokenize_japanese_lindera env tx =
    rbind (env_lindera env tx) (\<lambda>tokens.
      Inr (filter (\<lambda>t. t \<noteq> []) (map (clean_token env) tokens)))"

definition tokenize_japanese_with_terms :: "align_env \<Rightarrow> merge_terms \<Rightarrow> rstring \<Rightarrow> rstring list" where
  "tokenize_japanese_with_terms env mt tx =
    (let normalized = env_nfkc env tx;
         tokens = (case tokenize_japanese_lindera env normalized of
                     Inr ts \<Rightarrow> if ts \<noteq> [] then ts else tokenize_japanese_fallback env normalized
                   | Inl e \<Rightarrow> tokenize_japanese_fallback env normalized);
         tokens = repair_hiragana_bridge_fragments tokens;
         tokens = split_hiragana_particle_runs tokens;
         tokens = repair_hiragana_prefix_fragments tokens;
         tokens = split_ascii_digit_runs tokens;
         tokens = split_katakana_compounds tokens
     in merge_japanese_tokens_with_terms mt tokens)"

definition ltokenizer_split_korean_token :: "korean_dict \<Rightarrow> rstring \<Rightarrow> rstring \<times> rstring" where
  "ltokenizer_split_korean_token dict token =
    (let len_chars = length token
     in if len_chars \<le> 2 then (token, [])
        else (let search_max = min len_chars (kd_max_len_chars dict);
                  best_e = foldl (\<lambda>best e. if take e token \<in> set (kd_words dict) then Some e else best)
                             None [2..<search_max + 1];
                  e = (case best_e of None \<Rightarrow> len_chars | Some e \<Rightarrow> e)
              in (take e token, drop e token)))"

definition tokenize_korean :: "align_env \<Rightarrow> rstring \<Rightarrow> rstring list result" where
  "tokenize_korean env tx =
    rbind (korean_dict_from_embedded env) (\<lambda>dict.
      Inr (foldl (\<lambda>tokens raw.
        if raw = [] then tokens
        else (let (l, r) = ltokenizer_split_korean_token dict raw;
                  l_clean = clean_token env l;
                  tokens = (if l_clean \<noteq> [] then tokens @ [l_clean] else tokens)
              in if r \<noteq> []
                 then (let r_clean = clean_token env r
                       in if r_clean \<noteq> [] then tokens @ [r_clean] else tokens)
                 else tokens)) [] (split_whitespace tx)))"

fun split_segment_with_chinese :: "rstring \<Rightarrow> rstring \<Rightarrow> rstring list" where
  "split_segment_with_chinese buf [] = (if buf \<noteq> [] then [buf] else [])"
| "split_segment_with_chinese buf (ch # seg) =
    (if is_cjk_char ch
     then (if buf \<noteq> [] then [buf] else []) @ [ch] # split_segment_with_chinese [] seg
     else split_segment_with_chinese (buf @ [ch]) seg)"

definition tokenize_space_lang :: "align_env \<Rightarrow> rstring \<Rightarrow> rstring list" where
  "tokenize_space_lang env tx =
    concat (map (\<lambda>seg.
      let cleaned = clean_token env seg
      in if cleaned = [] then [] else split_segment_with_chinese [] cleaned) (split_whitespace tx))"

section \<open>The words and the prompt\<close>

definition timestamp_pair :: rstring where
  "timestamp_pair = lit ''<timestamp><timestamp>''"

definition encode_timestamp :: "align_env \<Rightarrow> merge_terms \<Rightarrow> rstring \<Rightarrow> rstring \<Rightarrow> (rstring list \<times> rstring) result" where
  "encode_timestamp env mt tx language0 =
    (let language = trim language0
     in if trim tx = [] then Inl (Err ''text is empty'')
        else rbind (if eq_ignore_ascii_case language (lit ''japanese'')
                    then Inr (tokenize_japanese_with_terms env mt tx)
                    else if eq_ignore_ascii_case language (lit ''korean'') then tokenize_korean env tx
                    else Inr (tokenize_space_lang env tx)) (\<lambda>word_list.
          if word_list = [] then Inl (Err ''tokenized word_list is empty'')
          else (let input_text = foldl (\<lambda>acc (i, w). (if 0 < i then acc @ timestamp_pair else acc) @ w) []
                                   (zip [0..<length word_list] word_list) @ timestamp_pair;
                    prompt = lit ''<|audio_start|><|audio_pad|><|audio_end|>'' @ input_text
                in Inr (word_list, prompt))))"

section \<open>Every pass keeps the joined text\<close>

text \<open>A pass is faithful when it keeps the concatenation and makes no empty token out of
  non-empty ones.\<close>

definition faithful_pass :: "(rstring list \<Rightarrow> rstring list) \<Rightarrow> bool" where
  "faithful_pass f \<longleftrightarrow> (\<forall>ts. concat (f ts) = concat ts \<and> ([] \<notin> set ts \<longrightarrow> [] \<notin> set (f ts)))"

lemma faithful_passI:
  "(\<And>ts. concat (f ts) = concat ts) \<Longrightarrow> (\<And>ts. [] \<notin> set ts \<Longrightarrow> [] \<notin> set (f ts)) \<Longrightarrow> faithful_pass f"
  by (simp add: faithful_pass_def)

lemma faithful_passD:
  "faithful_pass f \<Longrightarrow> concat (f ts) = concat ts" "faithful_pass f \<Longrightarrow> [] \<notin> set ts \<Longrightarrow> [] \<notin> set (f ts)"
  by (simp_all add: faithful_pass_def)

lemma faithful_tokenwise:
  assumes "\<And>t. concat (g t) = t" "\<And>t. t \<noteq> [] \<Longrightarrow> [] \<notin> set (g t)"
  shows "faithful_pass (\<lambda>ts. concat (map g ts))"
proof (rule faithful_passI)
  show "concat (concat (map g ts)) = concat ts" for ts by (induction ts) (simp_all add: assms(1))
  show "[] \<notin> set (concat (map g ts))" if "[] \<notin> set ts" for ts
    using that assms(2) by (induction ts) auto
qed

named_theorems passes \<open>the passes are faithful\<close>

lemma faithful_merge_kanji:
  "concat (merge_kanji ts buf) = buf @ concat ts \<and> ([] \<notin> set ts \<longrightarrow> [] \<notin> set (merge_kanji ts buf))"
  by (induction ts buf rule: merge_kanji.induct) auto

lemma faithful_merge_phrases: "faithful_pass (merge_phrases mt)"
proof -
  have "concat (merge_phrases mt ts) = concat ts \<and> ([] \<notin> set ts \<longrightarrow> [] \<notin> set (merge_phrases mt ts))" for ts
  proof (induction mt ts rule: merge_phrases.induct)
    case (2 mt tok toks)
    show ?case
    proof (cases "best_phrase mt (tok # toks) 0 [] None")
      case None
      then show ?thesis using 2(1)[OF None] by simp
    next
      case (Some np)
      obtain n phrase where np: "np = (n, phrase)" by (cases np)
      have ph: "0 < n" "phrase = concat (take n (tok # toks))"
        using best_phrase_span[OF Some[unfolded np]] by auto
      note ih = 2(2)[OF Some np[symmetric]]
      have "concat (tok # toks) = phrase @ concat (drop n (tok # toks))"
        unfolding ph(2) by (metis append_take_drop_id concat_append)
      moreover have "[] \<notin> set (tok # toks) \<Longrightarrow> phrase \<noteq> []"
        using ph by (cases n) auto
      moreover have "[] \<notin> set (tok # toks) \<Longrightarrow> [] \<notin> set (drop n (tok # toks))"
        by (meson in_set_dropD)
      ultimately show ?thesis using ih by (simp add: Some np del: best_phrase.simps) blast
    qed
  qed simp
  then show ?thesis by (simp add: faithful_pass_def)
qed

lemma faithful_merge_japanese [passes]: "faithful_pass (merge_japanese_tokens_with_terms mt)"
  using faithful_merge_kanji[of _ "[]"] faithful_passD[OF faithful_merge_phrases]
  by (simp add: faithful_pass_def merge_japanese_tokens_with_terms_def Let_def)

lemma faithful_bridge [passes]: "faithful_pass repair_hiragana_bridge_fragments"
proof -
  have "concat (repair_hiragana_bridge_fragments ts) = concat ts \<and>
      ([] \<notin> set ts \<longrightarrow> [] \<notin> set (repair_hiragana_bridge_fragments ts))" for ts
    by (induction ts rule: repair_hiragana_bridge_fragments.induct) auto
  then show ?thesis by (simp add: faithful_pass_def)
qed

lemma faithful_prefix [passes]: "faithful_pass repair_hiragana_prefix_fragments"
proof -
  have "concat (repair_hiragana_prefix_fragments ts) = concat ts \<and>
      ([] \<notin> set ts \<longrightarrow> [] \<notin> set (repair_hiragana_prefix_fragments ts))" for ts
    by (induction ts rule: repair_hiragana_prefix_fragments.induct) auto
  then show ?thesis by (simp add: faithful_pass_def)
qed

lemma faithful_digits [passes]: "faithful_pass split_ascii_digit_runs"
proof -
  have "concat (map (\<lambda>ch. [ch]) t) = t" for t :: rstring by (induction t) auto
  then show ?thesis
    unfolding split_ascii_digit_runs_def by (intro faithful_tokenwise) auto
qed

lemma faithful_katakana [passes]: "faithful_pass split_katakana_compounds"
  unfolding split_katakana_compounds_def
proof (rule faithful_tokenwise)
  show "concat (split_katakana_compound t) = t" for t
    using append_take_drop_id[of "length t - 4" t]
    by (cases "drop (length t - 4) t = katakana_suffix") (auto simp: split_katakana_compound_def Let_def)
  show "t \<noteq> [] \<Longrightarrow> [] \<notin> set (split_katakana_compound t)" for t
    by (auto simp: split_katakana_compound_def Let_def katakana_suffix_def)
qed

lemma split_at_particles_fold:
  assumes "sorted_wrt (<) ps" "\<And>p. p \<in> set ps \<Longrightarrow> start \<le> p \<and> p < length chars" "start \<le> length chars"
    "foldl (split_at_particle chars) (out, start) ps = (out', start')"
  shows "start' \<le> length chars \<and> (concat out = take start chars \<longrightarrow> concat out' = take start' chars)"
  using assms
proof (induction ps arbitrary: out start)
  case (Cons p ps)
  define out1 where "out1 = (if start < p then out @ [slice start p chars] else out) @ [[chars ! p]]"
  have p: "start \<le> p" "p < length chars" using Cons.prems(2) by auto
  have c: "concat out1 = take (p + 1) chars" if "concat out = take start chars"
    using that p take_slice[OF p(1), of chars]
    by (cases "start = p") (auto simp: out1_def take_Suc_conv_app_nth)
  have "start' \<le> length chars \<and> (concat out1 = take (p + 1) chars \<longrightarrow> concat out' = take start' chars)"
  proof (rule Cons.IH)
    show "sorted_wrt (<) ps" using Cons.prems(1) by simp
    show "p + 1 \<le> q \<and> q < length chars" if "q \<in> set ps" for q
      using Cons.prems(1,2) that by (simp add: Suc_le_eq)
    show "p + 1 \<le> length chars" using p by simp
    show "foldl (split_at_particle chars) (out1, p + 1) ps = (out', start')"
      using Cons.prems(4) by (simp add: split_at_particle_def out1_def)
  qed
  then show ?case using c by blast
qed simp

lemma particle_positions_sorted: "sorted_wrt (<) (particle_positions chars)"
  unfolding particle_positions_def by (rule sorted_wrt_filter) simp

lemma particle_positions_lt: "p \<in> set (particle_positions chars) \<Longrightarrow> p < length chars"
  by (simp add: particle_positions_def)

lemma concat_split_at_particles: "concat (split_at_particles chars (particle_positions chars)) = chars"
proof -
  obtain out start where f: "foldl (split_at_particle chars) ([], 0) (particle_positions chars) = (out, start)"
    by (cases "foldl (split_at_particle chars) ([], 0) (particle_positions chars)")
  have "start \<le> length chars \<and> concat out = take start chars"
    using split_at_particles_fold[OF particle_positions_sorted _ _ f] particle_positions_lt by simp
  then show ?thesis by (auto simp: split_at_particles_def f)
qed

lemma concat_split_particles: "concat (split_particles chars) = chars"
proof -
  have "take i chars @ [chars ! i] @ drop (i + 1) chars = chars" if "i < length chars" for i
    using that by (simp add: Cons_nth_drop_Suc)
  moreover have "particle_positions chars ! 0 < length chars" if "particle_positions chars \<noteq> []"
    using that particle_positions_lt nth_mem by blast
  ultimately show ?thesis
    by (auto simp: split_particles_def Let_def concat_split_at_particles)
qed

lemma two_last: "2 \<le> length xs \<Longrightarrow> take (length xs - 2) xs @ [xs ! (length xs - 2), xs ! (length xs - 1)] = xs"
proof -
  assume "2 \<le> length xs"
  then have "drop (length xs - 2) xs = [xs ! (length xs - 2), xs ! (length xs - 1)]"
    by (intro nth_equalityI) (auto simp: less_2_cases_iff nth_Cons')
  then show ?thesis by (metis append_take_drop_id)
qed

lemma one_last: "1 \<le> length xs \<Longrightarrow> take (length xs - 1) xs @ [xs ! (length xs - 1)] = xs"
  by (cases xs rule: rev_cases) auto

lemma concat_split_tail: "concat (split_tail seg) = seg"
  using two_last[of seg] one_last[of seg] by (auto simp: split_tail_def Let_def)

lemma honorific_parts:
  assumes "5 \<le> length cs" "cs ! 0 = a" "cs ! (length cs - 2) = b" "cs ! (length cs - 1) = c"
  shows "[a] @ slice 1 (length cs - 2) cs @ [b, c] = cs"
proof -
  have "take 1 cs = [a]" using assms by (cases cs) auto
  then have "[a] @ slice 1 (length cs - 2) cs = take (length cs - 2) cs"
    using take_slice[of 1 "length cs - 2" cs] assms(1) by simp
  moreover have "take (length cs - 2) cs @ [b, c] = cs" using two_last[of cs] assms by simp
  ultimately show ?thesis by (metis append_assoc)
qed

lemma concat_concat_tails: "concat (concat (map split_tail segs)) = concat segs"
  by (induction segs) (simp_all add: concat_split_tail)

lemma faithful_particles [passes]: "faithful_pass split_hiragana_particle_runs"
  unfolding split_hiragana_particle_runs_def
proof (rule faithful_tokenwise)
  show "concat (split_hiragana_particle_token t) = t" for t
    using honorific_parts[of t]
    by (auto simp: split_hiragana_particle_token_def Let_def concat_filter_nonempty concat_concat_tails
        concat_split_particles)
  show "t \<noteq> [] \<Longrightarrow> [] \<notin> set (split_hiragana_particle_token t)" for t
    by (auto simp: split_hiragana_particle_token_def Let_def slice_def)
qed

end
