(* ===== verification/AlignWords.thy ===== *)
theory AlignWords
  imports AlignText
begin

text \<open>
  Correctness of the aligner's tokenizers (\<^verbatim>\<open>AlignText\<close>): in every language the words, joined,
  are the cleaned text, none is empty, and the prompt interleaves them with timestamp markers.

  What the code relies on of the Unicode data is \<^verbatim>\<open>unicode_env\<close>: white space is neither a letter
  nor a number, nor is the character \<^verbatim>\<open><\<close>.  The Japanese tokenizer must cover its input with its
  tokens, in order.
\<close>

definition unicode_env :: "align_env \<Rightarrow> bool" where
  "unicode_env env \<longleftrightarrow> (\<forall>c. is_whitespace c \<or> c = 60 \<longrightarrow>
     env_category env c \<notin> {UppercaseLetter, LowercaseLetter, TitlecaseLetter, ModifierLetter, OtherLetter,
       DecimalNumber, LetterNumber, OtherNumber})"

definition covering_tokenizer :: "align_env \<Rightarrow> bool" where
  "covering_tokenizer env \<longleftrightarrow> (\<forall>tx ts. env_lindera env tx = Inr ts \<longrightarrow> concat ts = tx)"

lemma not_kept:
  assumes "unicode_env env" "is_whitespace c \<or> c = 60"
  shows "\<not> is_kept_char env c"
proof -
  have "c \<noteq> 39" using assms(2) unfolding is_whitespace_def by (elim disjE conjE) linarith+
  moreover have "env_category env c \<notin> {UppercaseLetter, LowercaseLetter, TitlecaseLetter, ModifierLetter,
      OtherLetter, DecimalNumber, LetterNumber, OtherNumber}"
    using assms unfolding unicode_env_def by blast
  ultimately show ?thesis unfolding is_kept_char_def by (cases "env_category env c") simp_all
qed

lemma clean_whitespace_words:
  "unicode_env env \<Longrightarrow> concat (map (clean_token env) (split_whitespace tx)) = clean_token env tx"
  using filter_split_whitespace[of "is_kept_char env" tx] not_kept[of env]
  by (simp add: clean_token_def[abs_def])

lemma clean_concat: "clean_token env (concat ts) = concat (map (clean_token env) ts)"
  by (induction ts) (simp_all add: clean_token_def)

lemma clean_idem [simp]: "clean_token env (clean_token env w) = clean_token env w"
  by (simp add: clean_token_def)

lemma clean_append: "clean_token env (u @ v) = clean_token env u @ clean_token env v"
  by (simp add: clean_token_def)

lemma clean_Nil: "clean_token env [] = []"
  by (simp add: clean_token_def)

section \<open>Space-separated languages\<close>

lemma concat_chinese: "concat (split_segment_with_chinese buf seg) = buf @ seg"
  by (induction buf seg rule: split_segment_with_chinese.induct) auto

lemma chinese_nonempty: "[] \<notin> set (split_segment_with_chinese buf seg)"
  by (induction buf seg rule: split_segment_with_chinese.induct) auto

lemma space_lang_words:
  assumes "unicode_env env"
  shows "concat (tokenize_space_lang env tx) = clean_token env tx" "[] \<notin> set (tokenize_space_lang env tx)"
proof -
  have "concat (concat (map (\<lambda>seg. let cleaned = clean_token env seg
      in if cleaned = [] then [] else split_segment_with_chinese [] cleaned) segs)) =
    concat (map (clean_token env) segs)" for segs
    by (induction segs) (simp_all add: Let_def concat_chinese)
  then show "concat (tokenize_space_lang env tx) = clean_token env tx"
    by (simp add: tokenize_space_lang_def clean_whitespace_words[OF assms])
  show "[] \<notin> set (tokenize_space_lang env tx)"
    by (auto simp: tokenize_space_lang_def Let_def chinese_nonempty split: if_splits)
qed

section \<open>Korean\<close>

definition korean_raw :: "align_env \<Rightarrow> korean_dict \<Rightarrow> rstring list \<Rightarrow> rstring \<Rightarrow> rstring list" where
  "korean_raw env dict tokens raw =
    (if raw = [] then tokens
     else (let (l, r) = ltokenizer_split_korean_token dict raw;
               l_clean = clean_token env l;
               tokens = (if l_clean \<noteq> [] then tokens @ [l_clean] else tokens)
           in if r \<noteq> []
              then (let r_clean = clean_token env r
                    in if r_clean \<noteq> [] then tokens @ [r_clean] else tokens)
              else tokens))"

lemma ltokenizer_parts: "fst (ltokenizer_split_korean_token d t) @ snd (ltokenizer_split_korean_token d t) = t"
  by (simp add: ltokenizer_split_korean_token_def Let_def)

lemma korean_raw_step:
  "concat (korean_raw env d ts raw) = concat ts @ clean_token env raw"
  "[] \<notin> set ts \<Longrightarrow> [] \<notin> set (korean_raw env d ts raw)"
proof -
  obtain l r where lr: "ltokenizer_split_korean_token d raw = (l, r)"
    by (cases "ltokenizer_split_korean_token d raw")
  have raw: "raw = l @ r" using ltokenizer_parts[of d raw] lr by simp
  show "concat (korean_raw env d ts raw) = concat ts @ clean_token env raw"
    unfolding korean_raw_def lr prod.case Let_def using raw
    by (cases "r = []"; cases "clean_token env l = []"; cases "clean_token env r = []")
      (simp_all add: clean_append clean_Nil)
  show "[] \<notin> set ts \<Longrightarrow> [] \<notin> set (korean_raw env d ts raw)"
    by (auto simp: korean_raw_def Let_def lr)
qed

lemma korean_fold:
  "concat (foldl (korean_raw env d) ts raws) = concat ts @ concat (map (clean_token env) raws)"
  "[] \<notin> set ts \<Longrightarrow> [] \<notin> set (foldl (korean_raw env d) ts raws)"
  by (induction raws arbitrary: ts) (simp_all add: korean_raw_step)

lemma tokenize_korean_fold:
  "tokenize_korean env tx = rbind (korean_dict_from_embedded env) (\<lambda>d.
     Inr (foldl (korean_raw env d) [] (split_whitespace tx)))"
  unfolding tokenize_korean_def korean_raw_def[abs_def] ..

lemma korean_words:
  assumes "unicode_env env" "tokenize_korean env tx = Inr ws"
  shows "concat ws = clean_token env tx" "[] \<notin> set ws"
  using assms korean_fold[where env = env and ts = "[]" and raws = "split_whitespace tx"] clean_whitespace_words[of env tx]
  by (auto simp: tokenize_korean_fold)

section \<open>Japanese\<close>

definition fb_joined :: "fallback_state \<Rightarrow> rstring" where
  "fb_joined s = concat (fb_tokens s) @ fb_jp s @ fb_latin s"

lemma fallback_char_step:
  assumes "fb_jp s = [] \<or> fb_latin s = []"
  shows "fb_jp (fallback_char env s ch) = [] \<or> fb_latin (fallback_char env s ch) = []"
    and "clean_token env (fb_joined (fallback_char env s ch)) = clean_token env (fb_joined s) @ clean_token env [ch]"
proof -
  have jp: "fb_joined (fallback_char env s ch) = fb_joined s @ [ch] \<and> fb_latin (fallback_char env s ch) = []"
    if "japanese_script_kind ch = Some k" for k
    using assms that unfolding fallback_char_def fb_joined_def Let_def
    by (cases "fb_latin s = []"; cases "fb_jp s = []"; cases "fb_kind s = Some k") simp_all
  have other: "fb_joined (fallback_char env s ch) = fb_joined s @ clean_token env [ch] \<and> fb_jp (fallback_char env s ch) = []"
    if "japanese_script_kind ch = None"
    using assms that unfolding fallback_char_def fb_joined_def Let_def clean_token_def
    by (cases "fb_latin s = []"; cases "fb_jp s = []"; cases "is_kept_char env ch") simp_all
  show "fb_jp (fallback_char env s ch) = [] \<or> fb_latin (fallback_char env s ch) = []"
    using jp other by (cases "japanese_script_kind ch") auto
  show "clean_token env (fb_joined (fallback_char env s ch)) = clean_token env (fb_joined s) @ clean_token env [ch]"
    using jp other by (cases "japanese_script_kind ch") (auto simp: clean_append)
qed

lemma fallback_fold:
  assumes "fb_jp s = [] \<or> fb_latin s = []"
  shows "clean_token env (fb_joined (foldl (fallback_char env) s tx)) = clean_token env (fb_joined s) @ clean_token env tx"
  using assms
proof (induction tx arbitrary: s)
  case (Cons ch tx)
  note st = fallback_char_step[OF Cons.prems, of env ch]
  have "clean_token env (ch # tx) = clean_token env [ch] @ clean_token env tx"
    using clean_append[of env "[ch]" tx] by simp
  then show ?case using Cons.IH[OF st(1)] st(2) by simp
qed (simp add: clean_token_def)

lemma fallback_words:
  "concat (tokenize_japanese_fallback env tx) = clean_token env tx" "[] \<notin> set (tokenize_japanese_fallback env tx)"
proof -
  define s where "s = foldl (fallback_char env) \<lparr>fb_tokens = [], fb_latin = [], fb_jp = [], fb_kind = None\<rparr> tx"
  define ts where "ts = fb_tokens s @ (if fb_jp s \<noteq> [] then [fb_jp s] else []) @ (if fb_latin s \<noteq> [] then [fb_latin s] else [])"
  have t: "tokenize_japanese_fallback env tx = filter (\<lambda>t. t \<noteq> []) (map (clean_token env) ts)"
    by (simp add: tokenize_japanese_fallback_def Let_def ts_def s_def)
  have "concat ts = fb_joined s" by (simp add: ts_def fb_joined_def)
  moreover have "clean_token env (fb_joined s) = clean_token env tx"
    using fallback_fold[of "\<lparr>fb_tokens = [], fb_latin = [], fb_jp = [], fb_kind = None\<rparr>" env tx]
    by (simp add: s_def fb_joined_def clean_token_def)
  ultimately show "concat (tokenize_japanese_fallback env tx) = clean_token env tx"
    unfolding t concat_filter_nonempty clean_concat[symmetric] by simp
  show "[] \<notin> set (tokenize_japanese_fallback env tx)" unfolding t by simp
qed

lemma lindera_words:
  assumes "covering_tokenizer env" "tokenize_japanese_lindera env tx = Inr ws"
  shows "concat ws = clean_token env tx" "[] \<notin> set ws"
proof -
  obtain ts where ts: "env_lindera env tx = Inr ts" "ws = filter (\<lambda>t. t \<noteq> []) (map (clean_token env) ts)"
    using assms(2) by (auto simp: tokenize_japanese_lindera_def)
  have "concat ts = tx" using assms(1) ts(1) by (simp add: covering_tokenizer_def)
  then show "concat ws = clean_token env tx" unfolding ts(2) concat_filter_nonempty clean_concat[symmetric] by simp
  show "[] \<notin> set ws" by (simp add: ts(2))
qed

lemma japanese_words:
  assumes "covering_tokenizer env"
  shows "concat (tokenize_japanese_with_terms env mt tx) = clean_token env (env_nfkc env tx)"
    "[] \<notin> set (tokenize_japanese_with_terms env mt tx)"
proof -
  define n where "n = env_nfkc env tx"
  define ts where "ts = (case tokenize_japanese_lindera env n of
    Inr ts \<Rightarrow> if ts \<noteq> [] then ts else tokenize_japanese_fallback env n | Inl e \<Rightarrow> tokenize_japanese_fallback env n)"
  have ts: "concat ts = clean_token env n" "[] \<notin> set ts"
    using lindera_words[OF assms, of n] fallback_words[of env n]
    by (auto simp: ts_def split: sum.splits)
  have "tokenize_japanese_with_terms env mt tx = merge_japanese_tokens_with_terms mt (split_katakana_compounds
      (split_ascii_digit_runs (repair_hiragana_prefix_fragments (split_hiragana_particle_runs
        (repair_hiragana_bridge_fragments ts)))))"
    unfolding tokenize_japanese_with_terms_def Let_def ts_def n_def ..
  then show "concat (tokenize_japanese_with_terms env mt tx) = clean_token env (env_nfkc env tx)"
    "[] \<notin> set (tokenize_japanese_with_terms env mt tx)"
    using ts by (simp_all add: faithful_passD[OF passes(1)] faithful_passD[OF passes(2)] faithful_passD[OF passes(3)]
        faithful_passD[OF passes(4)] faithful_passD[OF passes(5)] faithful_passD[OF passes(6)] n_def)
qed

section \<open>The prompt\<close>

lemma interleave_fold:
  "foldl (\<lambda>acc (i, w). (if 0 < i then acc @ timestamp_pair else acc) @ w) acc (zip [Suc k..<Suc k + length ws] ws) =
   acc @ concat (map (\<lambda>w. timestamp_pair @ w) ws)"
proof (induction ws arbitrary: acc k)
  case (Cons w ws)
  have "[Suc k..<Suc k + length (w # ws)] = Suc k # [Suc (Suc k)..<Suc (Suc k) + length ws]"
    by (simp add: upt_rec)
  then show ?case using Cons.IH[of "acc @ timestamp_pair @ w" "Suc k"] by simp
qed simp

lemma interleave_words:
  assumes "ws \<noteq> []"
  shows "foldl (\<lambda>acc (i, w). (if 0 < i then acc @ timestamp_pair else acc) @ w) [] (zip [0..<length ws] ws)
    @ timestamp_pair = concat (map (\<lambda>w. w @ timestamp_pair) ws)"
proof (cases ws)
  case (Cons w vs)
  have rot: "concat (map (\<lambda>w. timestamp_pair @ w) vs) @ timestamp_pair = timestamp_pair @ concat (map (\<lambda>w. w @ timestamp_pair) vs)"
    by (induction vs) simp_all
  have "zip [0..<length ws] ws = (0, w) # zip [Suc 0..<Suc 0 + length vs] vs"
    by (simp add: Cons upt_rec)
  then show ?thesis using interleave_fold[of w 0 vs] rot by (simp add: Cons)
qed (use assms in simp)

section \<open>Properties\<close>

text \<open>The words of a text, and whether the language takes the Japanese path.\<close>

definition is_japanese :: "rstring \<Rightarrow> bool" where
  "is_japanese language \<longleftrightarrow> eq_ignore_ascii_case (trim language) (lit ''japanese'')"

definition cleaned_text :: "align_env \<Rightarrow> rstring \<Rightarrow> rstring \<Rightarrow> rstring" where
  "cleaned_text env tx language = clean_token env (if is_japanese language then env_nfkc env tx else tx)"

lemma encode_timestamp_shape:
  assumes "unicode_env env" "covering_tokenizer env" "korean_dict_from_embedded env = Inr dict"
  shows "case encode_timestamp env mt tx language of
      Inr (ws, prompt) \<Rightarrow> concat ws = cleaned_text env tx language \<and> ws \<noteq> [] \<and> [] \<notin> set ws \<and>
        prompt = lit ''<|audio_start|><|audio_pad|><|audio_end|>'' @ concat (map (\<lambda>w. w @ timestamp_pair) ws)
    | Inl e \<Rightarrow> trim tx = [] \<or> cleaned_text env tx language = []"
proof -
  define r where "r = (if is_japanese language then Inr (tokenize_japanese_with_terms env mt tx)
    else if eq_ignore_ascii_case (trim language) (lit ''korean'') then tokenize_korean env tx
    else Inr (tokenize_space_lang env tx))"
  have "is_ok (tokenize_korean env tx)" using assms(3) by (simp add: tokenize_korean_def)
  then have "is_ok r" by (simp add: r_def)
  then obtain ws where ws: "r = Inr ws" by (auto simp: is_ok_iff)
  have w: "concat ws = cleaned_text env tx language" "[] \<notin> set ws"
    using ws japanese_words[OF assms(2), of mt tx] korean_words[OF assms(1), of tx ws]
      space_lang_words[OF assms(1), of tx]
    by (auto simp: r_def cleaned_text_def split: if_splits)
  have e: "encode_timestamp env mt tx language = (if trim tx = [] then Inl (Err ''text is empty'')
      else if ws = [] then Inl (Err ''tokenized word_list is empty'')
      else Inr (ws, lit ''<|audio_start|><|audio_pad|><|audio_end|>'' @
        foldl (\<lambda>acc (i, w). (if 0 < i then acc @ timestamp_pair else acc) @ w) [] (zip [0..<length ws] ws) @ timestamp_pair))"
    unfolding encode_timestamp_def Let_def is_japanese_def[symmetric] r_def[symmetric] ws by simp
  show ?thesis
    using w interleave_words[of ws] unfolding e by (cases "trim tx = []"; cases "ws = []") simp_all
qed

lemma timestamp_pair_marker: "\<exists>rest. timestamp_pair = 60 # rest"
  by (simp add: timestamp_pair_def lit_def)

lemma interleave_inj:
  assumes "concat (map (\<lambda>w. w @ timestamp_pair) vs) = concat (map (\<lambda>w. w @ timestamp_pair) ws)"
    "\<And>w. w \<in> set vs \<Longrightarrow> 60 \<notin> set w" "\<And>w. w \<in> set ws \<Longrightarrow> 60 \<notin> set w"
  shows "vs = ws"
  using assms
proof (induction vs arbitrary: ws)
  case Nil
  then show ?case using timestamp_pair_marker by (cases ws) auto
next
  case (Cons v vs)
  obtain rest where tp: "timestamp_pair = 60 # rest" using timestamp_pair_marker by blast
  obtain w ws' where ws: "ws = w # ws'" using Cons.prems(1) tp by (cases ws) auto
  have first: "takeWhile (\<lambda>c. c \<noteq> 60) (u @ timestamp_pair @ xs) = u" if "60 \<notin> set u" for u xs
    using that by (auto simp: tp takeWhile_append)
  have eq: "v @ timestamp_pair @ concat (map (\<lambda>w. w @ timestamp_pair) vs)
      = w @ timestamp_pair @ concat (map (\<lambda>w. w @ timestamp_pair) ws')"
    using Cons.prems(1) by (simp add: ws)
  have v: "v = w" using arg_cong[OF eq, of "takeWhile (\<lambda>c. c \<noteq> 60)"] first Cons.prems(2,3) by (simp add: ws)
  then have "concat (map (\<lambda>w. w @ timestamp_pair) vs) = concat (map (\<lambda>w. w @ timestamp_pair) ws')"
    using eq by simp
  then have "vs = ws'" by (rule Cons.IH) (use Cons.prems(2,3) ws in auto)
  then show ?case by (simp add: v ws)
qed

lemma no_marker_in_clean:
  assumes "unicode_env env" "concat ws = cleaned_text env tx language" "w \<in> set ws"
  shows "60 \<notin> set w"
proof -
  have "60 \<notin> set (concat ws)"
    using not_kept[OF assms(1), of 60] by (simp add: assms(2) cleaned_text_def clean_token_def)
  then show ?thesis using assms(3) by auto
qed


definition example_env :: align_env where
  "example_env = \<lparr>
     env_category = (\<lambda>c. if 97 \<le> c \<and> c \<le> 122 then LowercaseLetter else OtherCategory),
     env_nfkc = (\<lambda>s. s), env_lindera = (\<lambda>s. Inr [s]), env_korean_file = [97, 32, 49, 10], env_terms_file = []\<rparr>"


end
