(* ===== verification/AlignTime.thy ===== *)
theory AlignTime
  imports RustText Float32
begin

text \<open>
  Timestamps of the forced aligner (\<^verbatim>\<open>vasr-models/src/forced_aligner/processor.rs\<close>):
  \<^verbatim>\<open>fix_timestamp\<close> keeps a longest non-decreasing subsequence of the predicted times and
  repairs the entries between; \<^verbatim>\<open>parse_timestamp\<close> pairs the times with the words.

  The walk along the parent links may not end on arbitrary links, so it is a partial function; on
  the links the table holds it ends.
\<close>

section \<open>The longest non-decreasing subsequence\<close>

definition lis_cell :: "'f f32_ops \<Rightarrow> 'f list \<Rightarrow> nat \<Rightarrow> nat list \<times> nat option list \<Rightarrow> nat \<Rightarrow> nat list \<times> nat option list" where
  "lis_cell F xs i = (\<lambda>(dp, parent) j.
    if f_le F (xs ! j) (xs ! i) \<and> dp ! j + 1 > dp ! i
    then (dp[i := dp ! j + 1], parent[i := Some j]) else (dp, parent))"

definition lis_table :: "'f f32_ops \<Rightarrow> 'f list \<Rightarrow> nat list \<times> nat option list" where
  "lis_table F xs =
    (let n = length xs
     in foldl (\<lambda>s i. foldl (lis_cell F xs i) s [0..<i]) (replicate n 1, replicate n None) [1..<n])"

partial_function (option) lis_walk :: "nat option list \<Rightarrow> nat list \<Rightarrow> nat option \<Rightarrow> nat list option" where
  "lis_walk parent lis_indices idx =
    (case idx of
       None \<Rightarrow> Some lis_indices
     | Some u \<Rightarrow> lis_walk parent (lis_indices @ [u]) (if u < length parent then parent ! u else None))"

fun position :: "('a \<Rightarrow> bool) \<Rightarrow> 'a list \<Rightarrow> nat option" where
  "position p [] = None"
| "position p (x # xs) = (if p x then Some 0 else map_option Suc (position p xs))"

definition unwrap_or :: "'a option \<Rightarrow> 'a \<Rightarrow> 'a" where
  "unwrap_or x d = (case x of None \<Rightarrow> d | Some v \<Rightarrow> v)"

definition lis_indices :: "'f f32_ops \<Rightarrow> 'f list \<Rightarrow> nat list option" where
  "lis_indices F xs =
    (let (dp, parent) = lis_table F xs;
         max_len = fold max dp 0;
         max_idx = unwrap_or (position (\<lambda>v. v = max_len) dp) 0
     in map_option rev (lis_walk parent [] (Some max_idx)))"

definition normal_flags :: "nat \<Rightarrow> nat list \<Rightarrow> bool list" where
  "normal_flags n indices =
    foldl (\<lambda>flags i. if i < length flags then flags[i := True] else flags) (replicate n False) indices"

section \<open>Repairing the entries between\<close>

function scan_anomaly :: "bool list \<Rightarrow> nat \<Rightarrow> nat" where
  "scan_anomaly is_normal j =
    (if j < length is_normal \<and> \<not> is_normal ! j then scan_anomaly is_normal (j + 1) else j)"
  by pat_completeness auto
termination
  by (relation "measure (\<lambda>(flags, j). length flags - j)") auto

declare scan_anomaly.simps [simp del]

definition nearest :: "bool list \<Rightarrow> 'f list \<Rightarrow> nat list \<Rightarrow> 'f option" where
  "nearest is_normal result ks = (case List.find (\<lambda>k. is_normal ! k) ks of
     None \<Rightarrow> None | Some k \<Rightarrow> (if k < length result then Some (result ! k) else None))"

definition nearest_value :: "'f f32_ops \<Rightarrow> 'f option \<Rightarrow> 'f option \<Rightarrow> nat \<Rightarrow> nat \<Rightarrow> nat \<Rightarrow> 'f" where
  "nearest_value F left_val right_val i j k =
    (case (left_val, right_val) of
       (None, Some r) \<Rightarrow> r
     | (Some l, None) \<Rightarrow> l
     | (Some l, Some r) \<Rightarrow>
        (let left_dist = k - (i - 1); right_dist = j - k in if left_dist \<le> right_dist then l else r)
     | (None, None) \<Rightarrow> f_lit F 0 1)"

definition interpolated_value :: "'f f32_ops \<Rightarrow> 'f option \<Rightarrow> 'f option \<Rightarrow> nat \<Rightarrow> nat \<Rightarrow> nat \<Rightarrow> 'f" where
  "interpolated_value F left_val right_val i j k =
    (case (left_val, right_val) of
       (Some l, Some r) \<Rightarrow>
        (let step = f_div F (f_sub F r l) (f_int F (int (j - i + 1)))
         in f_add F l (f_mul F step (f_int F (int (k - i + 1)))))
     | (Some l, None) \<Rightarrow> l
     | (None, Some r) \<Rightarrow> r
     | (None, None) \<Rightarrow> f_lit F 0 1)"

definition repair_gap :: "'f f32_ops \<Rightarrow> bool list \<Rightarrow> nat \<Rightarrow> nat \<Rightarrow> 'f list \<Rightarrow> 'f list" where
  "repair_gap F is_normal i j result =
    (let left_val = nearest is_normal result (rev [0..<i]);
         right_val = nearest is_normal result [j..<length is_normal]
     in foldl (\<lambda>res k.
          let new_val = (if j - i \<le> 2 then nearest_value F left_val right_val i j k
                         else interpolated_value F left_val right_val i j k)
          in if k < length res then res[k := new_val] else res) result [i..<j])"

lemma scan_anomaly_ge: "j \<le> scan_anomaly flags j"
  by (induction flags j rule: scan_anomaly.induct) (subst scan_anomaly.simps, auto)

lemma scan_anomaly_gt: "i < length flags \<Longrightarrow> \<not> flags ! i \<Longrightarrow> i < scan_anomaly flags i"
  using scan_anomaly_ge[of "i + 1" flags] by (subst scan_anomaly.simps) simp

function repair :: "'f f32_ops \<Rightarrow> bool list \<Rightarrow> nat \<Rightarrow> 'f list \<Rightarrow> 'f list" where
  "repair F is_normal i result =
    (if i < length is_normal then
       if \<not> is_normal ! i then
         (let j = scan_anomaly is_normal i in repair F is_normal j (repair_gap F is_normal i j result))
       else repair F is_normal (i + 1) result
     else result)"
  by pat_completeness auto
termination
  by (relation "measure (\<lambda>(F, flags, i, res). length flags - i)")
    (auto simp: diff_less_mono2 scan_anomaly_gt)

declare repair.simps [simp del]

text \<open>The cast of \<^verbatim>\<open>x.trunc()\<close> to \<^verbatim>\<open>i64\<close> is the truncating cast \<^verbatim>\<open>f_to_int\<close>.\<close>

definition fix_timestamp :: "'f f32_ops \<Rightarrow> 'f list \<Rightarrow> int list option" where
  "fix_timestamp F xs =
    (if xs = [] then Some []
     else map_option (\<lambda>indices. map (f_to_int F) (repair F (normal_flags (length xs) indices) 0 xs))
            (lis_indices F xs))"

record item_ms =
  item_text :: rstring
  start_time_ms :: int
  end_time_ms :: int

definition parse_timestamp :: "'f f32_ops \<Rightarrow> rstring list \<Rightarrow> 'f list \<Rightarrow> item_ms list result option" where
  "parse_timestamp F words timestamp_ms =
    (if words = [] then Some (Inl (Err ''words is empty''))
     else case checked_mul (length words) 2 of
       None \<Rightarrow> Some (Inl (Err ''timestamp length overflow''))
     | Some expected \<Rightarrow>
        if length timestamp_ms \<noteq> expected then Some (Inl (Err ''timestamp_ms length mismatch''))
        else map_option (\<lambda>fixed.
          traverse (\<lambda>(i, w).
            rbind (ok_or (checked_mul i 2) (Err ''timestamp index overflow'')) (\<lambda>start_idx.
            rbind (ok_or (checked_add start_idx 1) (Err ''timestamp index overflow'')) (\<lambda>end_idx.
            rbind (ok_or (get fixed start_idx) (Err ''missing start timestamp'')) (\<lambda>start_time.
            rbind (ok_or (get fixed end_idx) (Err ''missing end timestamp'')) (\<lambda>end_time.
              Inr \<lparr>item_text = w, start_time_ms = start_time, end_time_ms = end_time\<rparr>)))))
            (zip [0..<length words] words)) (fix_timestamp F timestamp_ms))"

section \<open>The table\<close>

text \<open>A chain is a list of increasing positions whose values do not decrease.\<close>

definition chain :: "'f f32_ops \<Rightarrow> 'f list \<Rightarrow> nat list \<Rightarrow> bool" where
  "chain F xs is \<longleftrightarrow> sorted_wrt (\<lambda>j i. j < i \<and> f_le F (xs ! j) (xs ! i)) is \<and> (\<forall>i\<in>set is. i < length xs)"

lemma foldl_upt_inv:
  assumes "a \<le> b" "P a s" and "\<And>i s. a \<le> i \<Longrightarrow> i < b \<Longrightarrow> P i s \<Longrightarrow> P (Suc i) (f s i)"
  shows "P b (foldl f s [a..<b])"
  using assms
proof (induction b)
  case (Suc b)
  then show ?case by (cases "a = Suc b") simp_all
qed simp

text \<open>Row \<^verbatim>\<open>i\<close> of the table against the positions before \<^verbatim>\<open>k\<close>.\<close>

definition row_ok :: "'f f32_ops \<Rightarrow> 'f list \<Rightarrow> nat \<Rightarrow> nat \<Rightarrow> nat list \<times> nat option list \<Rightarrow> bool" where
  "row_ok F xs i k = (\<lambda>(dp, parent).
    1 \<le> dp ! i \<and> (\<forall>j<k. f_le F (xs ! j) (xs ! i) \<longrightarrow> dp ! j + 1 \<le> dp ! i) \<and>
    (case parent ! i of None \<Rightarrow> dp ! i = 1
     | Some j \<Rightarrow> j < i \<and> f_le F (xs ! j) (xs ! i) \<and> dp ! i = dp ! j + 1))"

definition table_ok :: "'f f32_ops \<Rightarrow> 'f list \<Rightarrow> nat \<Rightarrow> nat list \<times> nat option list \<Rightarrow> bool" where
  "table_ok F xs m s \<longleftrightarrow> length (fst s) = length xs \<and> length (snd s) = length xs \<and>
    (\<forall>i<length xs. row_ok F xs i (if i < m then i else 0) s) \<and> (\<forall>i<length xs. m \<le> i \<longrightarrow> snd s ! i = None \<and> fst s ! i = 1)"

lemma lis_cell_row:
  assumes "length dp = length xs" "length parent = length xs" "i < length xs" "j < i"
    "row_ok F xs i j (dp, parent)"
  shows "row_ok F xs i (Suc j) (lis_cell F xs i (dp, parent) j)"
proof (cases "f_le F (xs ! j) (xs ! i) \<and> dp ! j + 1 > dp ! i")
  case True
  then have "lis_cell F xs i (dp, parent) j = (dp[i := dp ! j + 1], parent[i := Some j])"
    by (simp add: lis_cell_def)
  moreover have "dp ! l + 1 \<le> dp ! j + 1" if "l < j" "f_le F (xs ! l) (xs ! i)" for l
    using assms(5) that True by (fastforce simp: row_ok_def)
  ultimately show ?thesis using assms(1-4) True by (auto simp: row_ok_def less_Suc_eq)
next
  case False
  then have "lis_cell F xs i (dp, parent) j = (dp, parent)" by (auto simp: lis_cell_def)
  then show ?thesis using assms(5) False by (auto simp: row_ok_def less_Suc_eq)
qed

lemma lis_cell_frame:
  "lis_cell F xs i (dp, parent) j = (dp', parent') \<Longrightarrow>
    length dp' = length dp \<and> length parent' = length parent \<and>
    (\<forall>l. l \<noteq> i \<longrightarrow> dp' ! l = dp ! l \<and> parent' ! l = parent ! l)"
  by (auto simp: lis_cell_def split: if_splits)

lemma row_ok_frame:
  assumes "row_ok F xs l k (dp, parent)" "\<And>m. m \<le> l \<Longrightarrow> dp' ! m = dp ! m" "parent' ! l = parent ! l" "k \<le> l"
  shows "row_ok F xs l k (dp', parent')"
  using assms by (auto simp: row_ok_def split: option.splits)

lemma table_row:
  assumes t: "table_ok F xs i s" and i: "1 \<le> i" "i < length xs"
  shows "table_ok F xs (Suc i) (foldl (lis_cell F xs i) s [0..<i])"
proof -
  obtain dp parent where s: "s = (dp, parent)" by (cases s)
  let ?P = "\<lambda>j (dp', parent'). length dp' = length xs \<and> length parent' = length xs \<and>
    row_ok F xs i j (dp', parent') \<and> (\<forall>l. l \<noteq> i \<longrightarrow> dp' ! l = dp ! l \<and> parent' ! l = parent ! l)"
  have "?P i (foldl (lis_cell F xs i) (dp, parent) [0..<i])"
  proof (rule foldl_upt_inv[where P = ?P])
    show "?P 0 (dp, parent)" using t i by (auto simp: table_ok_def s row_ok_def)
    show "?P (Suc j) (lis_cell F xs i s' j)" if "j < i" "?P j s'" for j s'
    proof -
      obtain dp' parent' where s': "s' = (dp', parent')" by (cases s')
      obtain dp2 parent2 where s2: "lis_cell F xs i (dp', parent') j = (dp2, parent2)"
        by (cases "lis_cell F xs i (dp', parent') j")
      have "row_ok F xs i (Suc j) (dp2, parent2)"
        using lis_cell_row[of dp' xs parent' i j F] that i by (simp add: s' s2)
      then show ?thesis using lis_cell_frame[OF s2] that by (simp add: s' s2)
    qed
  qed simp
  then obtain dp' parent' where f: "foldl (lis_cell F xs i) s [0..<i] = (dp', parent')"
    and len: "length dp' = length xs" "length parent' = length xs" and row: "row_ok F xs i i (dp', parent')"
    and fr: "\<And>l. l \<noteq> i \<Longrightarrow> dp' ! l = dp ! l \<and> parent' ! l = parent ! l"
    by (cases "foldl (lis_cell F xs i) (dp, parent) [0..<i]") (auto simp: s)
  have old: "row_ok F xs l l (dp', parent')" if "l < i" for l
  proof (rule row_ok_frame)
    have "l < length xs" using that i by simp
    then have "row_ok F xs l (if l < i then l else 0) (dp, parent)" using t unfolding table_ok_def s by blast
    then show "row_ok F xs l l (dp, parent)" using that by simp
  qed (use fr that in auto)
  have later: "parent' ! l = None" "dp' ! l = 1" if "i < l" "l < length xs" for l
    using t fr[of l] that by (simp_all add: table_ok_def s)
  have "row_ok F xs l (if l < Suc i then l else 0) (dp', parent')" if "l < length xs" for l
    using that row old later[of l] by (cases l i rule: linorder_cases) (auto simp: row_ok_def)
  then show ?thesis unfolding f table_ok_def using len later by simp
qed

lemma lis_table_ok: "xs \<noteq> [] \<Longrightarrow> table_ok F xs (length xs) (lis_table F xs)"
  unfolding lis_table_def Let_def
proof (rule foldl_upt_inv[where P = "table_ok F xs"])
  assume "xs \<noteq> []"
  show "table_ok F xs 1 (replicate (length xs) 1, replicate (length xs) None)"
    by (auto simp: table_ok_def row_ok_def)
qed (auto simp: Suc_le_eq table_row)

lemma table_rowD:
  assumes "table_ok F xs (length xs) (dp, parent)" "i < length xs"
  shows "1 \<le> dp ! i" "j < i \<Longrightarrow> f_le F (xs ! j) (xs ! i) \<Longrightarrow> dp ! j + 1 \<le> dp ! i"
    "parent ! i = None \<Longrightarrow> dp ! i = 1"
    "parent ! i = Some j \<Longrightarrow> j < i \<and> f_le F (xs ! j) (xs ! i) \<and> dp ! i = dp ! j + 1"
  using assms by (auto simp: table_ok_def row_ok_def split: option.splits)

text \<open>Values of the recording: the comparison is a total order on them.\<close>

definition le_order :: "'f f32_ops \<Rightarrow> ('f \<Rightarrow> bool) \<Rightarrow> bool" where
  "le_order F num \<longleftrightarrow>
    (\<forall>a b c. num a \<longrightarrow> num b \<longrightarrow> num c \<longrightarrow> f_le F a b \<longrightarrow> f_le F b c \<longrightarrow> f_le F a c) \<and> (\<forall>a. num a \<longrightarrow> f_le F a a)"

lemma le_trans: "le_order F num \<Longrightarrow> num a \<Longrightarrow> num b \<Longrightarrow> num c \<Longrightarrow> f_le F a b \<Longrightarrow> f_le F b c \<Longrightarrow> f_le F a c"
  unfolding le_order_def by blast

lemma le_refl: "le_order F num \<Longrightarrow> num a \<Longrightarrow> f_le F a a"
  unfolding le_order_def by blast

lemma chain_snoc:
  assumes "le_order F num" "\<And>k. k < length xs \<Longrightarrow> num (xs ! k)"
    "chain F xs (is @ [j])" "j < i" "i < length xs" "f_le F (xs ! j) (xs ! i)"
  shows "chain F xs (is @ [j, i])"
proof -
  have "l < i \<and> f_le F (xs ! l) (xs ! i)" if "l \<in> set is" for l
  proof -
    have l: "l < j" "f_le F (xs ! l) (xs ! j)" "l < length xs"
      using assms(3) that by (auto simp: chain_def sorted_wrt_append)
    then show ?thesis using le_trans[OF assms(1)] assms(2,4-6) by (meson less_trans)
  qed
  then show ?thesis using assms(3-6) by (auto simp: chain_def sorted_wrt_append)
qed

lemma lis_walk_chain:
  assumes ord: "le_order F num" "\<And>k. k < length xs \<Longrightarrow> num (xs ! k)"
    and t: "table_ok F xs (length xs) (dp, parent)" and "i < length xs"
  shows "\<exists>js. lis_walk parent acc (Some i) = Some (acc @ i # js) \<and> chain F xs (rev (i # js)) \<and> Suc (length js) = dp ! i"
  using assms(4)
proof (induction i arbitrary: acc rule: less_induct)
  case (less i)
  have len: "length parent = length xs" using t by (simp add: table_ok_def)
  show ?case
  proof (cases "parent ! i")
    case None
    then have "lis_walk parent acc (Some i) = Some (acc @ [i])"
      using less.prems len by (subst lis_walk.simps) (simp add: lis_walk.simps)
    then show ?thesis using table_rowD(3)[OF t less.prems None] less.prems by (auto simp: chain_def)
  next
    case (Some j)
    note j = table_rowD(4)[OF t less.prems Some]
    obtain js where js: "lis_walk parent (acc @ [i]) (Some j) = Some (acc @ [i] @ j # js)"
        "chain F xs (rev (j # js))" "Suc (length js) = dp ! j"
      using less.IH[of j "acc @ [i]"] j less.prems by auto
    have "lis_walk parent acc (Some i) = Some (acc @ i # j # js)"
      using js(1) Some less.prems len by (subst lis_walk.simps) simp
    moreover have "chain F xs (rev (i # j # js))"
      using chain_snoc[OF ord, of "rev js" j i] js(2) j less.prems by simp
    moreover have "Suc (length (j # js)) = dp ! i" using js(3) j by simp
    ultimately show ?thesis by blast
  qed
qed

lemma chain_bound:
  assumes t: "table_ok F xs (length xs) (dp, parent)" and "chain F xs (is @ [i])"
  shows "length (is @ [i]) \<le> dp ! i"
  using assms(2)
proof (induction "is" arbitrary: i rule: rev_induct)
  case Nil
  then show ?case using table_rowD(1)[OF t] by (simp add: chain_def)
next
  case (snoc j "is")
  have j: "j < i" "f_le F (xs ! j) (xs ! i)" "i < length xs" and c: "chain F xs (is @ [j])"
    using snoc.prems by (auto simp: chain_def sorted_wrt_append)
  show ?case using snoc.IH[OF c] table_rowD(2)[OF t j(3,1,2)] by simp
qed

lemma position_Some: "x \<in> set xs \<Longrightarrow> p x \<Longrightarrow> \<exists>i<length xs. position p xs = Some i \<and> p (xs ! i)"
proof (induction xs)
  case (Cons y ys)
  then show ?case by (cases "p y") auto
qed simp

lemma fold_max: "x \<in> set dp \<Longrightarrow> x \<le> fold max dp (0::nat)" "dp \<noteq> [] \<Longrightarrow> 0 < hd dp \<Longrightarrow> fold max dp 0 \<in> set dp"
proof -
  have ge: "a \<le> fold max dp a \<and> (\<forall>x\<in>set dp. x \<le> fold max dp a) \<and> (fold max dp a = a \<or> fold max dp a \<in> set dp)" for a :: nat
  proof (induction dp arbitrary: a)
    case (Cons y dp)
    have "max y a \<le> fold max dp (max y a)" using Cons[of "max y a"] by blast
    then show ?case using Cons[of "max y a"] by (auto simp: max_def split: if_splits)
  qed simp
  show "x \<in> set dp \<Longrightarrow> x \<le> fold max dp 0" using ge by blast
  assume "dp \<noteq> []" "0 < hd dp"
  then have "fold max dp 0 \<noteq> 0" using ge[of 0] hd_in_set[of dp] by (metis leD)
  then show "fold max dp 0 \<in> set dp" using ge[of 0] by auto
qed

lemma lis_indices_longest:
  assumes ord: "le_order F num" "\<And>k. k < length xs \<Longrightarrow> num (xs ! k)" and "xs \<noteq> []"
  shows "\<exists>is. lis_indices F xs = Some is \<and> is \<noteq> [] \<and> chain F xs is \<and> (\<forall>js. chain F xs js \<longrightarrow> length js \<le> length is)"
proof -
  obtain dp parent where tb: "lis_table F xs = (dp, parent)" by (cases "lis_table F xs")
  have t: "table_ok F xs (length xs) (dp, parent)" using lis_table_ok[OF assms(3), of F] tb by simp
  have len: "length dp = length xs" using t by (simp add: table_ok_def)
  define m where "m = fold max dp 0"
  have "dp \<noteq> []" "0 < hd dp"
    using len assms(3) table_rowD(1)[OF t, of 0] by (cases dp; force)+
  then have "m \<in> set dp" unfolding m_def by (rule fold_max(2))
  then obtain i where i: "i < length xs" "position (\<lambda>v. v = m) dp = Some i" "dp ! i = m"
    using position_Some[of m dp "\<lambda>v. v = m"] len by auto
  obtain js where js: "lis_walk parent [] (Some i) = Some (i # js)" "chain F xs (rev (i # js))" "Suc (length js) = dp ! i"
    using lis_walk_chain[OF ord t i(1), of "[]"] by auto
  have "lis_indices F xs = Some (rev (i # js))"
    by (simp add: lis_indices_def tb m_def[symmetric] i(2) unwrap_or_def js(1))
  moreover have "length ks \<le> length (rev (i # js))" if "chain F xs ks" for ks
  proof (cases ks rule: rev_cases)
    case (snoc ls k)
    have "k < length dp" using that len by (simp add: snoc chain_def)
    then have "dp ! k \<le> m" unfolding m_def by (intro fold_max(1)) simp
    then show ?thesis using chain_bound[OF t that[unfolded snoc]] js(3) i(3) snoc by simp
  qed simp
  ultimately show ?thesis using js(2) by blast
qed

lemma normal_flags_nth:
  "length (normal_flags n is) = n \<and> (\<forall>k<n. normal_flags n is ! k \<longleftrightarrow> k \<in> set is)"
proof -
  have "length (foldl (\<lambda>flags i. if i < length flags then flags[i := True] else flags) fs is) = length fs \<and>
    (\<forall>k<length fs. foldl (\<lambda>flags i. if i < length flags then flags[i := True] else flags) fs is ! k \<longleftrightarrow>
       fs ! k \<or> k \<in> set is)" for fs
    by (induction "is" arbitrary: fs) (auto simp: nth_list_update)
  from this[of "replicate n False"] show ?thesis by (simp add: normal_flags_def)
qed

section \<open>The repaired times\<close>

text \<open>What the repair relies on of the arithmetic: values strictly between two kept ones are
  interpolated in order, and the cast to an integer is monotone.\<close>

definition interpolates :: "'f f32_ops \<Rightarrow> ('f \<Rightarrow> bool) \<Rightarrow> nat \<Rightarrow> bool" where
  "interpolates F num N \<longleftrightarrow> (\<forall>l r n. num l \<longrightarrow> num r \<longrightarrow> f_le F l r \<longrightarrow> n \<le> N \<longrightarrow>
    (let v = (\<lambda>t. f_add F l (f_mul F (f_div F (f_sub F r l) (f_int F (int (n + 1)))) (f_int F (int t))))
     in (\<forall>t. 1 \<le> t \<longrightarrow> t \<le> n \<longrightarrow> num (v t) \<and> f_le F l (v t) \<and> f_le F (v t) r) \<and>
        (\<forall>t u. 1 \<le> t \<longrightarrow> t \<le> u \<longrightarrow> u \<le> n \<longrightarrow> f_le F (v t) (v u))))"

lemma interpolatesD:
  assumes "interpolates F num N" "num l" "num r" "f_le F l r" "n \<le> N"
  defines "v t \<equiv> f_add F l (f_mul F (f_div F (f_sub F r l) (f_int F (int (n + 1)))) (f_int F (int t)))"
  shows "1 \<le> t \<Longrightarrow> t \<le> n \<Longrightarrow> num (v t) \<and> f_le F l (v t) \<and> f_le F (v t) r"
    "1 \<le> t \<Longrightarrow> t \<le> u \<Longrightarrow> u \<le> n \<Longrightarrow> f_le F (v t) (v u)"
  using assms(1-5) unfolding interpolates_def Let_def v_def by blast+

text \<open>The positions before \<^verbatim>\<open>i\<close> and the normal ones are settled: in order, and normal ones untouched.\<close>

definition settled :: "'f f32_ops \<Rightarrow> ('f \<Rightarrow> bool) \<Rightarrow> bool list \<Rightarrow> 'f list \<Rightarrow> nat \<Rightarrow> 'f list \<Rightarrow> bool" where
  "settled F num flags xs i R \<longleftrightarrow> length R = length xs \<and> (\<forall>k<length xs. num (R ! k)) \<and>
    (\<forall>k<length xs. flags ! k \<longrightarrow> R ! k = xs ! k) \<and>
    (\<forall>a b. a \<le> b \<longrightarrow> b < length xs \<longrightarrow> a < i \<or> flags ! a \<longrightarrow> b < i \<or> flags ! b \<longrightarrow> f_le F (R ! a) (R ! b))"

lemma settledD:
  assumes "settled F num flags xs i R"
  shows "length R = length xs" "k < length xs \<Longrightarrow> num (R ! k)" "k < length xs \<Longrightarrow> flags ! k \<Longrightarrow> R ! k = xs ! k"
    "a \<le> b \<Longrightarrow> b < length xs \<Longrightarrow> a < i \<or> flags ! a \<Longrightarrow> b < i \<or> flags ! b \<Longrightarrow> f_le F (R ! a) (R ! b)"
  using assms unfolding settled_def by blast+

lemma scan_anomaly_flags:
  "i \<le> k \<Longrightarrow> k < scan_anomaly flags i \<Longrightarrow> \<not> flags ! k"
  "scan_anomaly flags i < length flags \<Longrightarrow> flags ! scan_anomaly flags i"
  "i \<le> length flags \<Longrightarrow> scan_anomaly flags i \<le> length flags"
proof (induction flags i rule: scan_anomaly.induct)
  case (1 flags i)
  { case 1 then show ?case using "1.IH"(1) by (cases "k = i") (auto simp: scan_anomaly.simps[of flags i] split: if_splits)
  next case 2 then show ?case using "1.IH"(2) by (auto simp: scan_anomaly.simps[of flags i] split: if_splits)
  next case 3 then show ?case using "1.IH"(3) by (auto simp: scan_anomaly.simps[of flags i]) }
qed

lemma foldl_fill:
  fixes v :: "nat \<Rightarrow> 'f"
  assumes "j \<le> length R" "i \<le> j"
  defines "R' \<equiv> foldl (\<lambda>res k. if k < length res then res[k := v k] else res) R [i..<j]"
  shows "length R' = length R \<and> (\<forall>k<length R. R' ! k = (if i \<le> k \<and> k < j then v k else R ! k))"
  unfolding R'_def
  by (rule foldl_upt_inv[where P = "\<lambda>m res. length res = length R \<and>
      (\<forall>k<length R. res ! k = (if i \<le> k \<and> k < m then v k else R ! k))"])
    (use assms in \<open>auto simp: nth_list_update\<close>)

lemma settled_fill:
  assumes s: "settled F num flags xs i R" and ord: "le_order F num" and len: "length flags = length xs"
    and ij: "i < j" "j \<le> length xs" "\<And>k. i \<le> k \<Longrightarrow> k < j \<Longrightarrow> \<not> flags ! k"
    and R': "length R' = length R" "\<And>k. k < length xs \<Longrightarrow> R' ! k = (if i \<le> k \<and> k < j then v k else R ! k)"
    and v: "\<And>k. i \<le> k \<Longrightarrow> k < j \<Longrightarrow> num (v k)" "\<And>k l. i \<le> k \<Longrightarrow> k \<le> l \<Longrightarrow> l < j \<Longrightarrow> f_le F (v k) (v l)"
      "\<And>k. 0 < i \<Longrightarrow> i \<le> k \<Longrightarrow> k < j \<Longrightarrow> f_le F (R ! (i - 1)) (v k)"
      "\<And>k. j < length xs \<Longrightarrow> i \<le> k \<Longrightarrow> k < j \<Longrightarrow> f_le F (v k) (R ! j)"
    and jn: "j < length xs \<Longrightarrow> flags ! j"
  shows "settled F num flags xs j R'"
proof -
  have num: "num (R ! k)" if "k < length xs" for k using s that by (simp add: settled_def)
  have old: "f_le F (R ! a) (R ! b)"
    if "a \<le> b" "b < length xs" "a < i \<or> flags ! a" "b < i \<or> flags ! b" for a b
    by (rule settledD(4)[OF s that])
  have "f_le F (R' ! a) (R' ! b)"
    if ab: "a \<le> b" "b < length xs" "a < j \<or> flags ! a" "b < j \<or> flags ! b" for a b
  proof -
    consider (both) "i \<le> a" "b < j" | (left) "a < i" "i \<le> b" "b < j" | (right) "i \<le> a" "a < j" "j \<le> b"
      | (none) "a < i \<or> j \<le> a" "b < i \<or> j \<le> b" using ab(1) by linarith
    then show ?thesis
    proof cases
      case both then show ?thesis using v(2) ab R'(2) by simp
    next
      case left
      have "f_le F (R ! a) (R ! (i - 1))" by (rule old) (use left ab in auto)
      then have "f_le F (R ! a) (v b)"
        using le_trans[OF ord num[of a] num[of "i - 1"] v(1)[of b]] v(3)[of b] left ab by auto
      then show ?thesis using left ab R'(2) by simp
    next
      case right
      then have fb: "flags ! b" "j < length xs" using ab by auto
      have "f_le F (R ! j) (R ! b)" by (rule old) (use right ab jn fb in auto)
      then have "f_le F (v a) (R ! b)"
        using le_trans[OF ord v(1)[of a] num[of j] num[of b]] v(4)[of a] right ab fb by auto
      then show ?thesis using right ab R'(2) by simp
    next
      case none
      have "f_le F (R ! a) (R ! b)" by (rule old) (use none ab in auto)
      then show ?thesis using none ab R'(2) by auto
    qed
  qed
  moreover have "R' ! k = xs ! k" if "k < length xs" "flags ! k" for k
    using that ij(3)[of k] R'(2)[of k] s by (auto simp: settled_def)
  moreover have "num (R' ! k)" if "k < length xs" for k using that R'(2) v(1) num by simp
  ultimately show ?thesis using s R'(1) unfolding settled_def by auto
qed

lemma find_rev_upt: "0 < i \<Longrightarrow> p (i - 1) \<Longrightarrow> List.find p (rev [0..<i]) = Some (i - 1)"
  by (cases i) auto

lemma find_upt: "j < n \<Longrightarrow> p j \<Longrightarrow> List.find p [j..<n] = Some j"
  by (simp add: upt_rec)

lemma repair_gap_settled:
  assumes s: "settled F num flags xs i R" and ord: "le_order F num" and ip: "interpolates F num (length xs)"
    and len: "length flags = length xs" and i: "i < length xs" "\<not> flags ! i" "0 < i \<Longrightarrow> flags ! (i - 1)"
    and some: "k0 < length xs" "flags ! k0"
  defines "j \<equiv> scan_anomaly flags i"
  shows "settled F num flags xs j (repair_gap F flags i j R)"
proof -
  have ij: "i < j" "j \<le> length xs" "\<And>k. i \<le> k \<Longrightarrow> k < j \<Longrightarrow> \<not> flags ! k" "j < length xs \<Longrightarrow> flags ! j"
    using scan_anomaly_gt[of i flags] scan_anomaly_flags[where flags = flags and i = i] i len by (auto simp: j_def)
  have lenR: "length R = length xs" using s by (simp add: settled_def)
  define lv where "lv = nearest flags R (rev [0..<i])"
  define rv where "rv = nearest flags R [j..<length flags]"
  have lv: "lv = (if 0 < i then Some (R ! (i - 1)) else None)"
    using find_rev_upt[of i "\<lambda>k. flags ! k"] i lenR by (auto simp: lv_def nearest_def)
  have rv: "rv = (if j < length xs then Some (R ! j) else None)"
    using find_upt[of j "length xs" "\<lambda>k. flags ! k"] ij(4) lenR len by (auto simp: rv_def nearest_def)
  have one: "0 < i \<or> j < length xs"
    using ij(2,3) some by (metis gr_zeroI le_eq_less_or_eq not_less zero_le)
  define v where "v k = (if j - i \<le> 2 then nearest_value F lv rv i j k else interpolated_value F lv rv i j k)" for k
  have lr: "f_le F (R ! (i - 1)) (R ! j)" if "0 < i" "j < length xs"
    by (rule settledD(4)[OF s]) (use that ij i(3) in auto)
  have num: "num (R ! k)" if "k < length xs" for k using s that by (simp add: settled_def)
  note rf = le_refl[OF ord num]
  have shape: "repair_gap F flags i j R =
      foldl (\<lambda>res k. if k < length res then res[k := v k] else res) R [i..<j]"
    unfolding repair_gap_def Let_def v_def lv_def rv_def ..
  have ji: "j - i \<le> length xs" using ij by simp
  have vnum: "num (v k) \<and> (0 < i \<longrightarrow> f_le F (R ! (i - 1)) (v k)) \<and> (j < length xs \<longrightarrow> f_le F (v k) (R ! j))"
    if k: "i \<le> k" "k < j" for k
  proof (cases "0 < i \<and> j < length xs")
    case True
    then have "f_le F (R ! (i - 1)) (R ! j)" "num (R ! (i - 1))" "num (R ! j)" using lr num ij by auto
    moreover have "1 \<le> k - i + 1" "k - i + 1 \<le> j - i" using k ij by auto
    ultimately show ?thesis
      using True interpolatesD(1)[OF ip _ _ _ ji, of "R ! (i - 1)" "R ! j" "k - i + 1"] le_refl[OF ord]
      by (simp add: v_def lv rv nearest_value_def interpolated_value_def Let_def)
  next
    case False
    then show ?thesis
      using one num rf ij k by (auto simp: v_def lv rv nearest_value_def interpolated_value_def)
  qed
  have vmono: "f_le F (v k) (v l)" if kl: "i \<le> k" "k \<le> l" "l < j" for k l
  proof (cases "0 < i \<and> j < length xs")
    case True
    then have h: "f_le F (R ! (i - 1)) (R ! j)" "num (R ! (i - 1))" "num (R ! j)" using lr num ij by auto
    have "1 \<le> k - i + 1" "k - i + 1 \<le> l - i + 1" "l - i + 1 \<le> j - i" using kl ij by auto
    moreover have "k - (i - 1) \<le> l - (i - 1)" "j - l \<le> j - k" using kl by auto
    ultimately show ?thesis
      using True h interpolatesD(2)[OF ip h(2,3,1) ji, of "k - i + 1" "l - i + 1"] le_refl[OF ord]
      by (auto simp: v_def lv rv nearest_value_def interpolated_value_def Let_def)
  next
    case False
    then show ?thesis
      using one num rf ij kl by (auto simp: v_def lv rv nearest_value_def interpolated_value_def)
  qed
  show ?thesis
  proof (rule settled_fill[OF s ord len ij(1-3), where v = v])
    show "length (repair_gap F flags i j R) = length R"
      "\<And>k. k < length xs \<Longrightarrow> repair_gap F flags i j R ! k = (if i \<le> k \<and> k < j then v k else R ! k)"
      unfolding shape using foldl_fill[of j R i v] ij lenR by auto
  qed (use vnum vmono ij(4) in auto)
qed

lemma repair_settled:
  assumes ord: "le_order F num" and ip: "interpolates F num (length xs)" and len: "length flags = length xs"
    and some: "k0 < length xs" "flags ! k0"
    and s: "settled F num flags xs i R" and prev: "0 < i \<Longrightarrow> i < length xs \<Longrightarrow> \<not> flags ! i \<Longrightarrow> flags ! (i - 1)"
    and i: "i \<le> length xs"
  shows "settled F num flags xs (length xs) (repair F flags i R)"
  using s prev i
proof (induction "length xs - i" arbitrary: i R rule: less_induct)
  case less
  show ?case
  proof (cases "i < length xs")
    case False
    then show ?thesis using less.prems len by (subst repair.simps) simp
  next
    case in_range: True
    show ?thesis
    proof (cases "flags ! i")
      case True
      have nxt: "settled F num flags xs (i + 1) R"
        using less.prems(1) True unfolding settled_def by (metis Suc_eq_plus1 less_Suc_eq)
      have "settled F num flags xs (length xs) (repair F flags (i + 1) R)"
        by (rule less.hyps) (use in_range nxt True in auto)
      then show ?thesis using in_range True len by (subst repair.simps) simp
    next
      case False
      define j where "j = scan_anomaly flags i"
      have gap: "settled F num flags xs j (repair_gap F flags i j R)"
        unfolding j_def
        by (rule repair_gap_settled[OF less.prems(1) ord ip len in_range False _ some]) (use less.prems(2) in_range False in blast)
      have j: "i < j" "j \<le> length xs" "j < length xs \<Longrightarrow> flags ! j"
        using scan_anomaly_gt[of i flags] scan_anomaly_flags[where flags = flags and i = i] in_range False len
        by (auto simp: j_def)
      have "settled F num flags xs (length xs) (repair F flags j (repair_gap F flags i j R))"
        by (rule less.hyps) (use j gap in_range in auto)
      then show ?thesis using in_range False len by (subst repair.simps) (simp add: j_def Let_def)
    qed
  qed
qed

lemma chain_le:
  assumes ord: "le_order F num" "\<And>k. k < length xs \<Longrightarrow> num (xs ! k)"
    and "chain F xs is" "a \<in> set is" "b \<in> set is" "a \<le> b"
  shows "f_le F (xs ! a) (xs ! b)"
proof -
  obtain p q where pq: "p < length is" "is ! p = a" "q < length is" "is ! q = b"
    using assms(4,5) by (auto simp: in_set_conv_nth)
  have sw: "sorted_wrt (\<lambda>j i. j < i \<and> f_le F (xs ! j) (xs ! i)) is" and "a < length xs"
    using assms(3,4) by (auto simp: chain_def)
  consider "p < q" | "p = q" | "q < p" by linarith
  then show ?thesis
  proof cases
    case 1 then show ?thesis using sorted_wrt_nth_less[OF sw 1] pq by simp
  next
    case 2 then show ?thesis using pq le_refl[OF ord(1) ord(2)] \<open>a < length xs\<close> by simp
  next
    case 3 then show ?thesis using sorted_wrt_nth_less[OF sw 3] pq assms(6) by simp
  qed
qed

lemma chain_distinct: "chain F xs is \<Longrightarrow> distinct is"
  unfolding chain_def by (induction "is") fastforce+

text \<open>The laws of the arithmetic together.\<close>

definition time_arith :: "'f f32_ops \<Rightarrow> ('f \<Rightarrow> bool) \<Rightarrow> nat \<Rightarrow> bool" where
  "time_arith F num N \<longleftrightarrow> le_order F num \<and> interpolates F num N \<and>
    (\<forall>a b. num a \<longrightarrow> num b \<longrightarrow> f_le F a b \<longrightarrow> f_to_int F a \<le> f_to_int F b)"

lemma fix_timestamp_correct:
  assumes "time_arith F num (length xs)" and num: "\<And>k. k < length xs \<Longrightarrow> num (xs ! k)"
  shows "\<exists>ys. fix_timestamp F xs = Some ys \<and> length ys = length xs \<and> sorted ys \<and>
    (\<forall>js. chain F xs js \<longrightarrow> length js \<le> card {k. k < length xs \<and> ys ! k = f_to_int F (xs ! k)})"
proof (cases "xs = []")
  case True
  then show ?thesis by (auto simp: fix_timestamp_def chain_def)
next
  case False
  have ord: "le_order F num" and ip: "interpolates F num (length xs)"
    and mono: "\<And>a b. num a \<Longrightarrow> num b \<Longrightarrow> f_le F a b \<Longrightarrow> f_to_int F a \<le> f_to_int F b"
    using assms(1) by (auto simp: time_arith_def)
  obtain "is" where li: "lis_indices F xs = Some is" and ne: "is \<noteq> []" and ch: "chain F xs is"
    and long: "\<And>js. chain F xs js \<Longrightarrow> length js \<le> length is"
    using lis_indices_longest[OF ord num False] by blast
  define flags where "flags = normal_flags (length xs) is"
  have flags: "length flags = length xs" "\<And>k. k < length xs \<Longrightarrow> flags ! k \<longleftrightarrow> k \<in> set is"
    using normal_flags_nth[of "length xs" "is"] by (auto simp: flags_def)
  have "settled F num flags xs 0 xs"
    using num chain_le[OF ord num ch] flags by (auto simp: settled_def)
  moreover have "hd is < length xs" using ch hd_in_set[OF ne] by (simp add: chain_def)
  moreover from this have "flags ! hd is" using flags(2) hd_in_set[OF ne] by simp
  ultimately have s: "settled F num flags xs (length xs) (repair F flags 0 xs)"
    using repair_settled[OF ord ip flags(1), where i = 0] by blast
  define R where "R = repair F flags 0 xs"
  note sD = settledD[OF s[folded R_def]]
  define ys where "ys = map (f_to_int F) R"
  have fx: "fix_timestamp F xs = Some ys"
    using False by (simp add: fix_timestamp_def li flags_def[symmetric] ys_def R_def)
  have leny: "length ys = length xs" by (simp add: ys_def sD(1))
  have "sorted ys"
    unfolding sorted_iff_nth_mono using sD(1,2,4) mono leny by (auto simp: ys_def)
  moreover have "length js \<le> card {k. k < length xs \<and> ys ! k = f_to_int F (xs ! k)}" if "chain F xs js" for js
  proof -
    have "set is \<subseteq> {k. k < length xs \<and> ys ! k = f_to_int F (xs ! k)}"
      using ch flags(2) sD(1,3) by (auto simp: chain_def ys_def)
    then have "card (set is) \<le> card {k. k < length xs \<and> ys ! k = f_to_int F (xs ! k)}"
      by (intro card_mono) auto
    then show ?thesis using long[OF that] distinct_card[OF chain_distinct[OF ch]] by simp
  qed
  ultimately show ?thesis using fx leny by blast
qed

section \<open>Pairing\<close>

definition item_times :: "item_ms list \<Rightarrow> int list" where
  "item_times items = concat (map (\<lambda>it. [start_time_ms it, end_time_ms it]) items)"

lemma parse_timestamp_pairs:
  assumes "fix_timestamp F xs = Some ys" "length ys = length xs" "words \<noteq> []"
    "length xs = 2 * length words" "2 * length words \<le> usize_max"
  shows "\<exists>items. parse_timestamp F words xs = Some (Inr items) \<and> map item_text items = words \<and> item_times items = ys"
proof -
  define items where "items = map (\<lambda>(i, w). \<lparr>item_text = w, start_time_ms = ys ! (i * 2), end_time_ms = ys ! (i * 2 + 1)\<rparr>)
    (zip [0..<length words] words)"
  have "parse_timestamp F words xs = Some (Inr items)"
  proof -
    have "traverse (\<lambda>(i, w).
            rbind (ok_or (checked_mul i 2) (Err ''timestamp index overflow'')) (\<lambda>start_idx.
            rbind (ok_or (checked_add start_idx 1) (Err ''timestamp index overflow'')) (\<lambda>end_idx.
            rbind (ok_or (get ys start_idx) (Err ''missing start timestamp'')) (\<lambda>start_time.
            rbind (ok_or (get ys end_idx) (Err ''missing end timestamp'')) (\<lambda>end_time.
              Inr \<lparr>item_text = w, start_time_ms = start_time, end_time_ms = end_time\<rparr>)))))
            (zip [0..<length words] words) = Inr items"
      unfolding items_def
    proof (rule traverse_all_ok)
      fix iw assume "iw \<in> set (zip [0..<length words] words)"
      then obtain i w where iw: "iw = (i, w)" "i < length words" by (auto simp: set_zip)
      have "get ys (i * 2) = Some (ys ! (i * 2))" "get ys (i * 2 + 1) = Some (ys ! (i * 2 + 1))"
        "checked_mul i 2 = Some (i * 2)" "checked_add (i * 2) 1 = Some (i * 2 + 1)"
        using iw(2) assms(2,4,5) by (simp_all add: get_def checked_mul_def checked_add_def)
      then show "(case iw of (i, w) \<Rightarrow>
            rbind (ok_or (checked_mul i 2) (Err ''timestamp index overflow'')) (\<lambda>start_idx.
            rbind (ok_or (checked_add start_idx 1) (Err ''timestamp index overflow'')) (\<lambda>end_idx.
            rbind (ok_or (get ys start_idx) (Err ''missing start timestamp'')) (\<lambda>start_time.
            rbind (ok_or (get ys end_idx) (Err ''missing end timestamp'')) (\<lambda>end_time.
              Inr \<lparr>item_text = w, start_time_ms = start_time, end_time_ms = end_time\<rparr>))))) =
        Inr (case iw of (i, w) \<Rightarrow> \<lparr>item_text = w, start_time_ms = ys ! (i * 2), end_time_ms = ys ! (i * 2 + 1)\<rparr>)"
        using iw(2) assms(2,4) by (simp add: iw(1) get_def)
    qed
    then show ?thesis
      using assms by (simp add: parse_timestamp_def checked_mul_def mult.commute)
  qed
  moreover have "map item_text items = words"
    by (rule nth_equalityI) (simp_all add: items_def)
  moreover have "item_times items = ys"
  proof -
    have "item_times (take n items) = take (2 * n) ys" if "n \<le> length words" for n
      using that
    proof (induction n)
      case (Suc n)
      have "take (2 * Suc n) ys = take (2 * n) ys @ [ys ! (2 * n), ys ! (2 * n + 1)]"
        using Suc.prems assms(2,4) by (simp add: take_Suc_conv_app_nth)
      then show ?case using Suc by (simp add: items_def take_Suc_conv_app_nth item_times_def mult.commute)
    qed (simp add: item_times_def)
    from this[of "length words"] show ?thesis using assms(2,4) by (simp add: items_def)
  qed
  ultimately show ?thesis by blast
qed

section \<open>Properties\<close>


text \<open>Whole numbers with a truncated step.\<close>

definition whole_ops :: "int f32_ops" where
  "whole_ops = \<lparr>f_lit = (\<lambda>a b. a div b), f_int = (\<lambda>x. x), f_add = (+), f_sub = (-), f_mul = (*),
     f_div = (div), f_max = max, f_min = min, f_abs = abs, f_is_finite = (\<lambda>x. True), f_lt = (<), f_le = (\<le>), f_ln = (\<lambda>x. x), f_exp = (\<lambda>x. x),
     f_log10 = (\<lambda>x. x), f_round = (\<lambda>x. x), f_to_int = (\<lambda>x. x)\<rparr>"

lemma whole_time_arith: "time_arith whole_ops (\<lambda>x. True) N"
proof -
  have "l \<le> l + (r - l) div (1 + int n) * int t \<and> l + (r - l) div (1 + int n) * int t \<le> r"
    if "l \<le> r" "t \<le> n" for l r :: int and n t
  proof -
    have q: "0 \<le> (r - l) div (1 + int n)" using that(1) by (simp add: pos_imp_zdiv_nonneg_iff)
    have "(r - l) div (1 + int n) * int t \<le> (r - l) div (1 + int n) * (1 + int n)"
      by (rule mult_left_mono[OF _ q]) (use that(2) in simp)
    also have "\<dots> \<le> r - l"
      using minus_mod_eq_div_mult[of "r - l" "1 + int n"] pos_mod_sign[of "1 + int n" "r - l"] by linarith
    finally show ?thesis using q by simp
  qed
  moreover have "(r - l) div (1 + int n) * int t \<le> (r - l) div (1 + int n) * int u"
    if "l \<le> r" "t \<le> u" for l r :: int and n t u
    using that by (intro mult_left_mono) (simp_all add: pos_imp_zdiv_nonneg_iff)
  ultimately show ?thesis
    by (simp add: time_arith_def le_order_def interpolates_def whole_ops_def Let_def)
qed


end
