(* ===== verification/Timeline.thy ===== *)
theory Timeline
  imports AudioData RustText
begin

text \<open>
  Annotated timelines (\<^verbatim>\<open>vasr-data/src/timeline.rs\<close>, \<^verbatim>\<open>segment.rs\<close>, \<^verbatim>\<open>token.rs\<close>): annotations
  with a time range, a status, a source and a payload, and the transcript of a timeline.
  Identifiers are random UUIDs and are left out.
\<close>

section \<open>Annotations\<close>

record 'f token =
  tok_text :: rstring
  tok_range :: "time_range option"
  tok_confidence :: "'f option"

record 'f text_segment =
  seg_text :: rstring
  seg_tokens :: "'f token list"
  seg_language :: "rstring option"

record 'f transcript =
  ts_text :: rstring
  ts_language :: "rstring option"
  ts_segments :: "'f text_segment list"

datatype annotation_status = Partial | Final | Revised | Deleted

datatype annotation_source = User | Model rstring | Stage rstring | System

record hotword_match =
  hw_text :: rstring
  hw_normalized :: "rstring option"

record acoustic_event =
  ae_label :: rstring

record diagnostic =
  dg_code :: rstring
  dg_message :: rstring
  dg_component :: "rstring option"

datatype 'f annotation_payload =
    Speech | Silence | TokenP "'f token" | Segment "'f text_segment" | Sentence "'f text_segment"
  | Speaker rstring | Language rstring | Hotword hotword_match | AcousticEvent acoustic_event
  | DiagnosticP diagnostic

record 'f annotation =
  an_range :: time_range
  an_status :: annotation_status
  an_source :: annotation_source
  an_confidence :: "'f option"
  an_payload :: "'f annotation_payload"

definition annotation_new ::
  "time_range \<Rightarrow> 'f annotation_payload \<Rightarrow> annotation_source \<Rightarrow> annotation_status \<Rightarrow> 'f annotation" where
  "annotation_new rng payload source status =
    \<lparr>an_range = rng, an_status = status, an_source = source, an_confidence = None, an_payload = payload\<rparr>"

definition with_confidence :: "'f annotation \<Rightarrow> 'f \<Rightarrow> 'f annotation" where
  "with_confidence a c = a\<lparr>an_confidence := Some c\<rparr>"

definition token_new :: "rstring \<Rightarrow> 'f token" where
  "token_new t = \<lparr>tok_text = t, tok_range = None, tok_confidence = None\<rparr>"

definition text_segment_new :: "rstring \<Rightarrow> 'f text_segment" where
  "text_segment_new t = \<lparr>seg_text = t, seg_tokens = [], seg_language = None\<rparr>"

section \<open>Timelines\<close>

record 'f timeline =
  tl_media_id :: rstring
  tl_duration :: "nat option"
  tl_annotations :: "'f annotation list"

definition timeline_new :: "rstring \<Rightarrow> 'f timeline" where
  "timeline_new media = \<lparr>tl_media_id = media, tl_duration = None, tl_annotations = []\<rparr>"

definition timeline_push :: "'f timeline \<Rightarrow> 'f annotation \<Rightarrow> 'f timeline" where
  "timeline_push t a = t\<lparr>tl_annotations := tl_annotations t @ [a]\<rparr>"

definition by_status :: "'f timeline \<Rightarrow> annotation_status \<Rightarrow> 'f annotation list" where
  "by_status t status = filter (\<lambda>a. an_status a = status) (tl_annotations t)"

fun segment_of :: "'f annotation \<Rightarrow> (nat \<times> 'f text_segment) option" where
  "segment_of a =
    (case an_payload a of
       Segment s \<Rightarrow> Some (tr_start (an_range a), s)
     | Sentence s \<Rightarrow> Some (tr_start (an_range a), s)
     | _ \<Rightarrow> None)"

fun find_map :: "('a \<Rightarrow> 'b option) \<Rightarrow> 'a list \<Rightarrow> 'b option" where
  "find_map f [] = None"
| "find_map f (x # xs) = (case f x of None \<Rightarrow> find_map f xs | Some y \<Rightarrow> Some y)"

definition transcript_of :: "'f timeline \<Rightarrow> 'f transcript" where
  "transcript_of t =
    (let segments = List.map_filter segment_of (filter (\<lambda>a. an_status a = Final) (tl_annotations t));
         segments = map snd (sort_key fst segments);
         txt = intersperse_concat (lit '' '') (filter (\<lambda>x. x \<noteq> []) (map (\<lambda>s. trim (seg_text s)) segments));
         language = find_map seg_language segments
     in \<lparr>ts_text = txt, ts_language = language, ts_segments = segments\<rparr>)"

section \<open>The order of insertion\<close>

lemma mset_map_filter: "mset xs = mset ys \<Longrightarrow> mset (List.map_filter f xs) = mset (List.map_filter f ys)"
  by (simp add: map_filter_def mset_filter)

lemma sort_key_unique:
  assumes "mset xs = mset ys" "inj_on f (set xs)"
  shows "sort_key f xs = sort_key f ys"
  by (rule sort_key_inj_key_eq) (use assms in simp_all)

definition final_segments :: "'f annotation list \<Rightarrow> (nat \<times> 'f text_segment) list" where
  "final_segments as = List.map_filter segment_of (filter (\<lambda>a. an_status a = Final) as)"

lemma final_segments_mset: "mset as = mset bs \<Longrightarrow> mset (final_segments as) = mset (final_segments bs)"
  unfolding final_segments_def by (intro mset_map_filter) simp

end
