(* ===== verification/OfflinePipeline.thy ===== *)
theory OfflinePipeline
  imports Timeline FsmnVad "HOL-Library.Product_Lexorder"
begin

text \<open>
  The offline pipeline (\<^verbatim>\<open>vasr-runtime/src/pipeline/mod.rs\<close>): voice activity detection cuts a
  recording into slices for the recogniser, whose annotations are moved back to the time line of
  the recording.

  The detector and the recogniser are behind traits (\<^verbatim>\<open>vasr-runtime/src/model/mod.rs\<close>); here they
  are records of functions.  \<^verbatim>\<open>duration_ms().ceil()\<close> is the exact rounded-up duration in
  milliseconds: the \<^verbatim>\<open>f64\<close> quotient of a recording shorter than \<^verbatim>\<open>2 ^ 33\<close> milliseconds at a rate
  below \<^verbatim>\<open>2 ^ 20\<close> Hz does not round across an integer.
\<close>

section \<open>Models\<close>

record 'f asr_options =
  ao_language :: "rstring option"
  ao_context :: rstring
  ao_max_new_tokens :: nat
  ao_max_batch_size :: nat
  ao_max_batch_audio_sec :: 'f
  ao_chunk_max_sec :: "'f option"

definition default_asr_options :: "'f f32_ops \<Rightarrow> 'f asr_options" where
  "default_asr_options F = \<lparr>ao_language = None, ao_context = [], ao_max_new_tokens = 128,
     ao_max_batch_size = 0, ao_max_batch_audio_sec = f_lit F 60 1, ao_chunk_max_sec = None\<rparr>"

record 'f asr_model =
  am_transcribe :: "'f waveform \<Rightarrow> 'f asr_options \<Rightarrow> 'f timeline result"
  am_transcribe_batch :: "'f waveform list \<Rightarrow> 'f asr_options \<Rightarrow> 'f timeline list result"

definition default_transcribe_batch ::
  "('f waveform \<Rightarrow> 'f asr_options \<Rightarrow> 'f timeline result) \<Rightarrow> 'f waveform list \<Rightarrow> 'f asr_options \<Rightarrow> 'f timeline list result" where
  "default_transcribe_batch transcribe waveforms options = traverse (\<lambda>w. transcribe w options) waveforms"

record 'f offline_pipeline =
  op_vad :: "('f waveform \<Rightarrow> 'f vad_options \<Rightarrow> 'f vad_segment list result) option"
  op_asr :: "'f asr_model"

section \<open>From speech segments to slices\<close>

definition ASR_VAD_CONTEXT_PAD_MS :: nat where "ASR_VAD_CONTEXT_PAD_MS = 500"
definition FULL_WAVEFORM_COVERAGE_GAP_MS :: nat where "FULL_WAVEFORM_COVERAGE_GAP_MS = 20"

lemmas pipeline_constants = ASR_VAD_CONTEXT_PAD_MS_def FULL_WAVEFORM_COVERAGE_GAP_MS_def

definition audio_end_ms :: "'f waveform \<Rightarrow> nat" where
  "audio_end_ms w = (if wf_sample_rate w = 0 \<or> wf_channels w = 0 then 0
     else div_ceil (frame_count w * 1000) (wf_sample_rate w))"

definition merge_step :: "'f f32_ops \<Rightarrow> nat \<Rightarrow> nat \<Rightarrow> 'f vad_segment list \<Rightarrow> 'f vad_segment \<Rightarrow> 'f vad_segment list" where
  "merge_step F max_gap_ms max_segment_ms merged segment =
    (if merged = [] then [segment]
     else let l = last merged;
              gap = saturating_sub (tr_start (vs_range segment)) (tr_end (vs_range l));
              merged_duration = saturating_sub (tr_end (vs_range segment)) (tr_start (vs_range l))
          in if gap \<le> max_gap_ms \<and> merged_duration \<le> max_segment_ms
             then butlast merged @
               [l\<lparr>vs_range := (vs_range l)\<lparr>tr_end := max (tr_end (vs_range l)) (tr_end (vs_range segment))\<rparr>,
                  vs_probability := f_max F (vs_probability l) (vs_probability segment)\<rparr>]
             else merged @ [segment])"

definition merge_vad_segments_for_asr :: "'f f32_ops \<Rightarrow> 'f vad_segment list \<Rightarrow> nat \<Rightarrow> nat \<Rightarrow> 'f vad_segment list" where
  "merge_vad_segments_for_asr F segments max_gap_ms max_segment_ms =
    (if segments = [] \<or> max_gap_ms = 0 \<or> max_segment_ms = 0 then segments
     else foldl (merge_step F max_gap_ms max_segment_ms) []
            (sort_key (\<lambda>s. (tr_start (vs_range s), tr_end (vs_range s))) segments))"

definition padded_asr_range :: "'f waveform \<Rightarrow> 'f vad_segment \<Rightarrow> time_range" where
  "padded_asr_range w segment =
    (let audio_end = audio_end_ms w;
         s = saturating_sub (tr_start (vs_range segment)) ASR_VAD_CONTEXT_PAD_MS;
         e = min (saturating_add (tr_end (vs_range segment)) ASR_VAD_CONTEXT_PAD_MS) audio_end
     in time_range_new s e)"

definition covers_full_waveform :: "'f waveform \<Rightarrow> 'f vad_segment list \<Rightarrow> bool" where
  "covers_full_waveform w segments =
    (if length segments \<noteq> 1 then False
     else let audio_end = audio_end_ms w; r = vs_range (segments ! 0)
          in tr_start r \<le> FULL_WAVEFORM_COVERAGE_GAP_MS \<and>
             audio_end \<le> saturating_add (tr_end r) FULL_WAVEFORM_COVERAGE_GAP_MS)"

record 'f vad_prepared =
  vp_speech_annotations :: "'f annotation list"
  vp_segments :: "'f vad_segment list"
  vp_slices :: "'f waveform list"

datatype 'f vad_preparation =
    Disabled | NoSpeech | FullSpeech "'f annotation list" | SpeechPrep "'f vad_prepared"

definition speech_annotation :: "'f vad_segment \<Rightarrow> 'f annotation" where
  "speech_annotation segment = annotation_new (vs_range segment) annotation_payload.Speech (Model (lit ''vad'')) Final"

definition prepare_vad_stage ::
  "'f f32_ops \<Rightarrow> 'f offline_pipeline \<Rightarrow> 'f waveform \<Rightarrow> 'f vad_options \<Rightarrow> 'f vad_preparation result" where
  "prepare_vad_stage F p w vo =
    (case op_vad p of
       None \<Rightarrow> Inr Disabled
     | Some detect \<Rightarrow>
        rbind (detect w vo) (\<lambda>segments.
          if segments = [] then Inr NoSpeech
          else let speech_annotations = map speech_annotation segments;
                   merged = merge_vad_segments_for_asr F segments (vo_merge_max_gap_ms vo) (vo_merge_max_segment_ms vo);
                   asr_segments = map (\<lambda>s. s\<lparr>vs_range := padded_asr_range w s\<rparr>) merged
               in if covers_full_waveform w asr_segments then Inr (FullSpeech speech_annotations)
                  else rbind (traverse (\<lambda>s. slice_ms w (tr_start (vs_range s)) (tr_end (vs_range s))) asr_segments)
                    (\<lambda>slices. Inr (SpeechPrep \<lparr>vp_speech_annotations = speech_annotations,
                       vp_segments = asr_segments, vp_slices = slices\<rparr>))))"

definition prepare_vad ::
  "'f f32_ops \<Rightarrow> 'f offline_pipeline \<Rightarrow> 'f waveform \<Rightarrow> 'f vad_options \<Rightarrow> 'f vad_prepared option result" where
  "prepare_vad F p w vo =
    rbind (prepare_vad_stage F p w vo) (\<lambda>prep. case prep of SpeechPrep q \<Rightarrow> Inr (Some q) | _ \<Rightarrow> Inr None)"

section \<open>Recognition\<close>

definition offset_annotation :: "nat \<Rightarrow> 'f annotation \<Rightarrow> 'f annotation" where
  "offset_annotation off a = a\<lparr>an_range := \<lparr>tr_start = saturating_add (tr_start (an_range a)) off,
     tr_end = saturating_add (tr_end (an_range a)) off\<rparr>\<rparr>"

definition offset_annotations :: "'f annotation list \<Rightarrow> nat \<Rightarrow> 'f annotation list" where
  "offset_annotations as off = map (offset_annotation off) as"

definition transcribe_prepared ::
  "'f offline_pipeline \<Rightarrow> 'f vad_prepared \<Rightarrow> 'f asr_options \<Rightarrow> 'f annotation list result" where
  "transcribe_prepared p prepared asr_opts =
    rbind (am_transcribe_batch (op_asr p) (vp_slices prepared) asr_opts) (\<lambda>asr_timelines.
      Inr (foldl (\<lambda>annotations (segment, t).
             annotations @ offset_annotations (tl_annotations t) (tr_start (vs_range segment)))
           (vp_speech_annotations prepared) (zip (vp_segments prepared) asr_timelines)))"

definition transcribe_with_vad_options ::
  "'f f32_ops \<Rightarrow> 'f offline_pipeline \<Rightarrow> 'f waveform \<Rightarrow> 'f asr_options \<Rightarrow> 'f vad_options \<Rightarrow> 'f timeline result" where
  "transcribe_with_vad_options F p w asr_opts vo =
    (let t = timeline_new (lit ''offline_audio'')
     in rbind (prepare_vad_stage F p w vo) (\<lambda>prep. case prep of
          SpeechPrep prepared \<Rightarrow>
            rbind (transcribe_prepared p prepared asr_opts) (\<lambda>as. Inr (t\<lparr>tl_annotations := tl_annotations t @ as\<rparr>))
        | FullSpeech speech_annotations \<Rightarrow>
            rbind (am_transcribe (op_asr p) w asr_opts) (\<lambda>asr_timeline.
              Inr (t\<lparr>tl_annotations := tl_annotations t @ speech_annotations @ tl_annotations asr_timeline\<rparr>))
        | NoSpeech \<Rightarrow> Inr t
        | Disabled \<Rightarrow>
            rbind (am_transcribe (op_asr p) w asr_opts) (\<lambda>asr_timeline.
              Inr (t\<lparr>tl_annotations := tl_annotations t @ tl_annotations asr_timeline\<rparr>))))"

definition offline_transcribe ::
  "'f f32_ops \<Rightarrow> 'f offline_pipeline \<Rightarrow> 'f waveform \<Rightarrow> 'f asr_options \<Rightarrow> 'f timeline result" where
  "offline_transcribe F p w asr_opts = transcribe_with_vad_options F p w asr_opts (default_vad_options F)"

section \<open>Streaming\<close>

text \<open>A streaming model is its state with the two operations.\<close>

record ('s, 'f) streaming_model =
  sm_push_chunk :: "'f audio_chunk \<Rightarrow> ('s, 'f annotation list) prog"
  sm_finish :: "('s, 'f annotation list) prog"

definition on_fst :: "('s, 'a) prog \<Rightarrow> ('s \<times> 't, 'a) prog" where
  "on_fst m = (\<lambda>(s, t). let (r, s') = m s in (r, (s', t)))"

definition on_snd :: "('t, 'a) prog \<Rightarrow> ('s \<times> 't, 'a) prog" where
  "on_snd m = (\<lambda>(s, t). let (r, t') = m t in (r, (s, t')))"

definition realtime_push_chunk ::
  "('s, 'f) streaming_model \<Rightarrow> ('t, 'f) streaming_model \<Rightarrow> 'f audio_chunk \<Rightarrow> ('s \<times> 't, 'f annotation list) prog" where
  "realtime_push_chunk vad asr chunk =
    bindP (on_fst (sm_push_chunk vad chunk)) (\<lambda>annotations.
    bindP (on_snd (sm_push_chunk asr chunk)) (\<lambda>more. ret (annotations @ more)))"

definition realtime_finish ::
  "('s, 'f) streaming_model \<Rightarrow> ('t, 'f) streaming_model \<Rightarrow> ('s \<times> 't, 'f annotation list) prog" where
  "realtime_finish vad asr =
    bindP (on_fst (sm_finish vad)) (\<lambda>annotations.
    bindP (on_snd (sm_finish asr)) (\<lambda>more. ret (annotations @ more)))"

section \<open>Merging\<close>

abbreviation vs_start :: "'f vad_segment \<Rightarrow> nat" where "vs_start s \<equiv> tr_start (vs_range s)"
abbreviation vs_end :: "'f vad_segment \<Rightarrow> nat" where "vs_end s \<equiv> tr_end (vs_range s)"

text \<open>A merged segment begins where a detected one begins and ends where one ends; it is a detected
  range or not longer than the limit.  Every detected range lies in a merged one.\<close>

definition merged_of :: "nat \<Rightarrow> 'f vad_segment set \<Rightarrow> 'f vad_segment list \<Rightarrow> bool" where
  "merged_of max_ms P ms \<longleftrightarrow>
    (\<forall>m\<in>set ms. (\<exists>p\<in>P. vs_start m = vs_start p \<and> vs_end p \<le> vs_end m) \<and> (\<exists>p\<in>P. vs_end m = vs_end p) \<and>
       (vs_end m - vs_start m \<le> max_ms \<or> (\<exists>p\<in>P. vs_range m = vs_range p))) \<and>
    (\<forall>p\<in>P. \<exists>m\<in>set ms. vs_start m \<le> vs_start p \<and> vs_end p \<le> vs_end m)"

lemma merged_of_id: "merged_of max_ms (set ss) ss"
  unfolding merged_of_def by blast

lemma merged_of_snoc:
  assumes "merged_of max_ms P ms"
  shows "merged_of max_ms (insert s P) (ms @ [s])"
  using assms unfolding merged_of_def by (simp add: ball_Un) blast

lemma merged_of_widen:
  assumes "merged_of max_ms P (ms @ [l])" "vs_start l \<le> vs_start s"
    "vs_start l' = vs_start l" "vs_end l' = max (vs_end l) (vs_end s)" "vs_end s - vs_start l \<le> max_ms"
  shows "merged_of max_ms (insert s P) (ms @ [l'])"
proof -
  have l: "\<exists>p\<in>P. vs_start l = vs_start p \<and> vs_end p \<le> vs_end l" "\<exists>p\<in>P. vs_end l = vs_end p"
    "vs_end l - vs_start l \<le> max_ms \<or> (\<exists>p\<in>P. vs_range l = vs_range p)"
    and old: "\<And>m. m \<in> set ms \<Longrightarrow> (\<exists>p\<in>P. vs_start m = vs_start p \<and> vs_end p \<le> vs_end m) \<and> (\<exists>p\<in>P. vs_end m = vs_end p) \<and>
       (vs_end m - vs_start m \<le> max_ms \<or> (\<exists>p\<in>P. vs_range m = vs_range p))"
    and cov: "\<And>p. p \<in> P \<Longrightarrow> (\<exists>m\<in>set ms. vs_start m \<le> vs_start p \<and> vs_end p \<le> vs_end m) \<or>
       (vs_start l \<le> vs_start p \<and> vs_end p \<le> vs_end l)"
    using assms(1) unfolding merged_of_def by auto
  have eqr: "vs_end s \<le> vs_end l \<Longrightarrow> vs_range l' = vs_range l"
    using assms(3,4) by (cases "vs_range l"; cases "vs_range l'") simp
  have new: "(\<exists>p\<in>insert s P. vs_start l' = vs_start p \<and> vs_end p \<le> vs_end l') \<and> (\<exists>p\<in>insert s P. vs_end l' = vs_end p) \<and>
     (vs_end l' - vs_start l' \<le> max_ms \<or> (\<exists>p\<in>insert s P. vs_range l' = vs_range p))"
  proof (cases "vs_end s \<le> vs_end l")
    case True
    then show ?thesis using l eqr by auto
  next
    case False
    then have "vs_end l' = vs_end s" using assms(4) by simp
    then show ?thesis using l(1) assms(3,5) False by force
  qed
  have "\<exists>m\<in>set (ms @ [l']). vs_start m \<le> vs_start p \<and> vs_end p \<le> vs_end m" if "p \<in> insert s P" for p
    using that cov[of p] assms(2-4) by auto
  then show ?thesis using new old unfolding merged_of_def by (simp add: ball_Un) blast
qed

lemma merge_fold_merged:
  assumes "merged_of max_ms P acc" "sorted (map (\<lambda>s. (vs_start s, vs_end s)) xs)"
    "\<And>p x. p \<in> P \<Longrightarrow> x \<in> set xs \<Longrightarrow> vs_start p \<le> vs_start x"
  shows "merged_of max_ms (P \<union> set xs) (foldl (merge_step F max_gap max_ms) acc xs)"
  using assms
proof (induction xs arbitrary: P acc)
  case (Cons x xs)
  have sorted: "sorted (map (\<lambda>s. (vs_start s, vs_end s)) xs)" using Cons.prems(2) by simp
  have fst: "vs_start x \<le> vs_start y" if "y \<in> set xs" for y
  proof -
    have "(vs_start x, vs_end x) \<le> (vs_start y, vs_end y)" using Cons.prems(2) that by simp
    then show ?thesis by (auto simp: less_eq_prod_def)
  qed
  have step: "merged_of max_ms (insert x P) (merge_step F max_gap max_ms acc x)"
  proof (cases "acc = []")
    case True
    then show ?thesis using merged_of_snoc[OF Cons.prems(1), of x] by (simp add: merge_step_def)
  next
    case False
    define l where "l = last acc"
    have acc: "acc = butlast acc @ [l]" using False by (simp add: l_def)
    have lx: "vs_start l \<le> vs_start x"
      using Cons.prems(1,3) acc unfolding merged_of_def by (metis in_set_conv_decomp list.set_intros(1))
    show ?thesis
    proof (cases "saturating_sub (vs_start x) (vs_end l) \<le> max_gap \<and> saturating_sub (vs_end x) (vs_start l) \<le> max_ms")
      case True
      then show ?thesis using False lx acc Cons.prems(1)
        by (simp add: merge_step_def Let_def l_def[symmetric] saturating_sub_def)
          (rule merged_of_widen[where l = l], simp_all)
    next
      case no: False
      then show ?thesis using False merged_of_snoc[OF Cons.prems(1), of x]
        by (auto simp: merge_step_def Let_def l_def[symmetric])
    qed
  qed
  have "merged_of max_ms (insert x P \<union> set xs) (foldl (merge_step F max_gap max_ms) (merge_step F max_gap max_ms acc x) xs)"
    by (rule Cons.IH[OF step sorted]) (use Cons.prems(3) fst in auto)
  then show ?case by simp
qed simp

lemma merge_vad_segments_merged:
  "merged_of max_ms (set segs) (merge_vad_segments_for_asr F segs max_gap max_ms)"
proof (cases "segs = [] \<or> max_gap = 0 \<or> max_ms = 0")
  case True
  then show ?thesis by (simp add: merge_vad_segments_for_asr_def merged_of_id)
next
  case False
  have "merged_of max_ms ({} \<union> set (sort_key (\<lambda>s. (vs_start s, vs_end s)) segs))
      (foldl (merge_step F max_gap max_ms) [] (sort_key (\<lambda>s. (vs_start s, vs_end s)) segs))"
    by (rule merge_fold_merged) (simp_all add: merged_of_def)
  then show ?thesis using False by (simp add: merge_vad_segments_for_asr_def)
qed

section \<open>Properties\<close>

lemma padded_range:
  assumes "vs_start m < vs_end m" "vs_end m \<le> audio_end_ms w" "audio_end_ms w \<le> usize_max"
  shows "tr_start (padded_asr_range w m) \<le> vs_start m" "vs_end m \<le> tr_end (padded_asr_range w m)"
    "tr_end (padded_asr_range w m) \<le> audio_end_ms w"
    "tr_end (padded_asr_range w m) - tr_start (padded_asr_range w m) \<le> vs_end m - vs_start m + 1000"
    "vs_start m \<le> tr_start (padded_asr_range w m) + 500" "tr_end (padded_asr_range w m) \<le> vs_end m + 500"
  using assms
  by (auto simp: padded_asr_range_def Let_def time_range_new_def pipeline_constants saturating_sub_def
      saturating_add_def)

definition pad_all :: "'f waveform \<Rightarrow> 'f vad_segment list \<Rightarrow> 'f vad_segment list" where
  "pad_all w ms = map (\<lambda>s. s\<lparr>vs_range := padded_asr_range w s\<rparr>) ms"

lemma pad_all_mem: "q \<in> set (pad_all w ms) \<longleftrightarrow> (\<exists>m\<in>set ms. q = m\<lparr>vs_range := padded_asr_range w m\<rparr>)"
  by (auto simp: pad_all_def)

lemma merged_inside:
  assumes "merged_of max_ms (set segs) ms" "m \<in> set ms"
    "\<And>s. s \<in> set segs \<Longrightarrow> vs_start s < vs_end s \<and> vs_end s \<le> N"
  shows "vs_start m < vs_end m \<and> vs_end m \<le> N"
proof -
  obtain a b where "a \<in> set segs" "vs_start m = vs_start a" "vs_end a \<le> vs_end m" "b \<in> set segs" "vs_end m = vs_end b"
    using assms(1,2) unfolding merged_of_def by blast
  then show ?thesis using assms(3)[of a] assms(3)[of b] by simp
qed

lemma pad_all_ranges:
  assumes mo: "merged_of max_ms (set segs) ms" and fits: "audio_end_ms w \<le> usize_max"
    and segs: "\<forall>s\<in>set segs. vs_start s < vs_end s \<and> vs_end s \<le> audio_end_ms w"
  shows "q \<in> set (pad_all w ms) \<Longrightarrow> vs_start q < vs_end q \<and> vs_end q \<le> audio_end_ms w"
    and "s \<in> set segs \<Longrightarrow> \<exists>q\<in>set (pad_all w ms). vs_start q \<le> vs_start s \<and> vs_end s \<le> vs_end q"
    and "q \<in> set (pad_all w ms) \<Longrightarrow> \<exists>limit\<in>insert max_ms ((\<lambda>s. vs_end s - vs_start s) ` set segs).
      vs_end q - vs_start q \<le> limit + 1000"
    and "q \<in> set (pad_all w ms) \<Longrightarrow> (\<exists>s\<in>set segs. vs_start s \<le> vs_start q + 500) \<and> (\<exists>s\<in>set segs. vs_end q \<le> vs_end s + 500)"
proof -
  have r: "tr_start (padded_asr_range w m) \<le> vs_start m" "vs_end m \<le> tr_end (padded_asr_range w m)"
    "tr_end (padded_asr_range w m) \<le> audio_end_ms w" "vs_start m < vs_end m"
    "tr_end (padded_asr_range w m) - tr_start (padded_asr_range w m) \<le> vs_end m - vs_start m + 1000"
    "vs_start m \<le> tr_start (padded_asr_range w m) + 500" "tr_end (padded_asr_range w m) \<le> vs_end m + 500"
    if "m \<in> set ms" for m
    using padded_range[of m w] merged_inside[OF mo that, of "audio_end_ms w"] segs fits by blast+
  { assume "s \<in> set segs"
    then obtain m where m: "m \<in> set ms" "vs_start m \<le> vs_start s" "vs_end s \<le> vs_end m"
      using mo unfolding merged_of_def by blast
    show "\<exists>q\<in>set (pad_all w ms). vs_start q \<le> vs_start s \<and> vs_end s \<le> vs_end q"
      by (rule bexI[of _ "m\<lparr>vs_range := padded_asr_range w m\<rparr>"])
        (use m r(1,2)[OF m(1)] in \<open>auto simp: pad_all_mem\<close>) }
  assume "q \<in> set (pad_all w ms)"
  then obtain m where m: "m \<in> set ms" and q: "vs_range q = padded_asr_range w m" by (auto simp: pad_all_mem)
  show "vs_start q < vs_end q \<and> vs_end q \<le> audio_end_ms w"
    unfolding q using r(1-4)[OF m] by linarith
  obtain a b where ab: "a \<in> set segs" "vs_start m = vs_start a" "b \<in> set segs" "vs_end m = vs_end b"
    using mo m unfolding merged_of_def by blast
  show "(\<exists>s\<in>set segs. vs_start s \<le> vs_start q + 500) \<and> (\<exists>s\<in>set segs. vs_end q \<le> vs_end s + 500)"
    unfolding q using r(6,7)[OF m] ab by (metis)
  have "vs_end m - vs_start m \<le> max_ms \<or> (\<exists>s\<in>set segs. vs_range m = vs_range s)"
    using mo m unfolding merged_of_def by blast
  then show "\<exists>limit\<in>insert max_ms ((\<lambda>s. vs_end s - vs_start s) ` set segs). vs_end q - vs_start q \<le> limit + 1000"
    unfolding q using r(5)[OF m] by fastforce
qed

lemma pad_all_slices:
  assumes "waveform_wf w" "0 < wf_sample_rate w" "audio_end_ms w * wf_sample_rate w \<le> usize_max"
    "length (wf_samples w) \<le> usize_max" "\<And>q. q \<in> set qs \<Longrightarrow> vs_start q < vs_end q \<and> vs_end q \<le> audio_end_ms w"
  shows "\<exists>slices. traverse (\<lambda>s. slice_ms w (vs_start s) (vs_end s)) qs = Inr slices"
proof -
  have "is_ok (slice_ms w (vs_start q) (vs_end q))" if "q \<in> set qs" for q
  proof -
    have q: "vs_start q < vs_end q" "vs_end q \<le> audio_end_ms w" using assms(5)[OF that] by auto
    have "vs_end q * wf_sample_rate w \<le> usize_max"
      using mult_le_mono1[OF q(2), of "wf_sample_rate w"] assms(3) by linarith
    from slice_ms_frames[OF assms(1,2) q(1) this assms(4)] show ?thesis by simp
  qed
  then have "is_ok (traverse (\<lambda>s. slice_ms w (vs_start s) (vs_end s)) qs)" unfolding is_ok_traverse by blast
  then show ?thesis by (simp add: is_ok_iff)
qed

text \<open>C29: The slices for the recogniser cover the detected speech: for a well-formed recording and
  detected ranges inside it, preparation does not fail; the detected ranges are annotated in order;
  unless the whole recording is passed on, each detected range lies in the range of a slice, each
  slice is a range inside the recording no longer than the merge limit or than some detected range, up to a
  second of padding, and its samples are those of its range; the whole recording is passed on only if the detected
  speech begins and ends within 520 ms of its ends.\<close>

theorem slices_cover_detected_speech:
  assumes "op_vad p = Some detect" "detect w vo = Inr segs" "segs \<noteq> []"
    "waveform_wf w" "0 < wf_sample_rate w" "\<And>s. s \<in> set segs \<Longrightarrow> vs_start s < vs_end s \<and> vs_end s \<le> audio_end_ms w"
    "audio_end_ms w * wf_sample_rate w \<le> usize_max" "length (wf_samples w) \<le> usize_max"
  shows "(\<exists>prep. prepare_vad_stage F p w vo = Inr (SpeechPrep prep) \<and>
      vp_speech_annotations prep = map speech_annotation segs \<and>
      (\<forall>s\<in>set segs. \<exists>q\<in>set (vp_segments prep). vs_start q \<le> vs_start s \<and> vs_end s \<le> vs_end q) \<and>
      (\<forall>q\<in>set (vp_segments prep). vs_start q < vs_end q \<and> vs_end q \<le> audio_end_ms w \<and>
         (\<exists>limit\<in>insert (vo_merge_max_segment_ms vo) ((\<lambda>s. vs_end s - vs_start s) ` set segs).
            vs_end q - vs_start q \<le> limit + 1000)) \<and>
      list_all2 (\<lambda>q x. slice_ms w (vs_start q) (vs_end q) = Inr x) (vp_segments prep) (vp_slices prep)) \<or>
    (prepare_vad_stage F p w vo = Inr (FullSpeech (map speech_annotation segs)) \<and>
      (\<exists>s\<in>set segs. vs_start s \<le> 520) \<and> (\<exists>s\<in>set segs. audio_end_ms w \<le> vs_end s + 520))"
proof -
  define ms where "ms = merge_vad_segments_for_asr F segs (vo_merge_max_gap_ms vo) (vo_merge_max_segment_ms vo)"
  have mo: "merged_of (vo_merge_max_segment_ms vo) (set segs) ms"
    unfolding ms_def by (rule merge_vad_segments_merged)
  have fits: "audio_end_ms w \<le> usize_max"
    using assms(5,7) by (metis One_nat_def Suc_leI mult_le_mono2 nat_mult_1_right order_trans)
  have "\<forall>s\<in>set segs. vs_start s < vs_end s \<and> vs_end s \<le> audio_end_ms w" using assms(6) by blast
  note pr = pad_all_ranges[OF mo fits this]
  show ?thesis
  proof (cases "covers_full_waveform w (pad_all w ms)")
    case True
    define q where "q = pad_all w ms ! 0"
    have q: "q \<in> set (pad_all w ms)" "vs_start q \<le> 20" "audio_end_ms w \<le> vs_end q + 20"
      using True nth_mem[of 0 "pad_all w ms"] unfolding q_def
      by (auto simp: covers_full_waveform_def Let_def pipeline_constants saturating_add_def split: if_splits)
    have "prepare_vad_stage F p w vo = Inr (FullSpeech (map speech_annotation segs))"
      using assms(1-3) True by (simp add: prepare_vad_stage_def Let_def ms_def[symmetric] pad_all_def[symmetric])
    moreover obtain a b where "a \<in> set segs" "vs_start a \<le> vs_start q + 500" "b \<in> set segs" "vs_end q \<le> vs_end b + 500"
      using pr(4)[OF q(1)] by blast
    moreover from this have "vs_start a \<le> 520" "audio_end_ms w \<le> vs_end b + 520" using q(2,3) by simp_all
    ultimately show ?thesis by blast
  next
    case False
    obtain slices where sl: "traverse (\<lambda>s. slice_ms w (vs_start s) (vs_end s)) (pad_all w ms) = Inr slices"
      using pad_all_slices[OF assms(4,5,7,8) pr(1)] by blast
    define prep where
      "prep = \<lparr>vp_speech_annotations = map speech_annotation segs, vp_segments = pad_all w ms, vp_slices = slices\<rparr>"
    have "prepare_vad_stage F p w vo = Inr (SpeechPrep prep)"
      using assms(1-3) False sl
      by (simp add: prepare_vad_stage_def Let_def ms_def[symmetric] pad_all_def[symmetric] prep_def)
    then show ?thesis
      using pr(1-3) sl unfolding traverse_Inr_iff
      by (intro disjI1 exI[of _ prep]) (simp add: prep_def)
  qed
qed

text \<open>Five samples at 1 Hz with two detected ranges.\<close>

definition example_wave :: "int waveform" where
  "example_wave = new_with_channels [1, 2, 3, 4, 5] 1 1"

definition example_segs :: "int vad_segment list" where
  "example_segs = [\<lparr>vs_range = time_range_new 1000 1200, vs_probability = 0\<rparr>,
     \<lparr>vs_range = time_range_new 4000 4500, vs_probability = 1\<rparr>]"

definition example_pipeline :: "int offline_pipeline" where
  "example_pipeline = \<lparr>op_vad = Some (\<lambda>w vo. Inr example_segs),
     op_asr = \<lparr>am_transcribe = (\<lambda>w ao. Inr (timeline_new [])),
       am_transcribe_batch = (\<lambda>ws ao. Inr (map (\<lambda>w. timeline_new []) ws))\<rparr>\<rparr>"

theorem slices_cover_detected_speech_witness:
  "\<exists>prep. prepare_vad_stage example_f32 example_pipeline example_wave (default_vad_options example_f32) =
      Inr (SpeechPrep prep) \<and> vp_speech_annotations prep = map speech_annotation example_segs"
proof -
  have wave: "audio_end_ms example_wave = 5000" "waveform_wf example_wave" "0 < wf_sample_rate example_wave"
    "length (wf_samples example_wave) = 5" "wf_sample_rate example_wave = 1"
    by (simp_all add: audio_end_ms_def example_wave_def new_with_channels_def frame_count_def div_ceil_def waveform_wf_def)
  have segs: "vs_start s < vs_end s \<and> vs_end s \<le> audio_end_ms example_wave" "\<not> vs_start s \<le> 520"
    if "s \<in> set example_segs" for s
    using that by (auto simp: example_segs_def time_range_new_def wave(1))
  have "op_vad example_pipeline = Some (\<lambda>w vo. Inr example_segs)" "example_segs \<noteq> []"
    by (simp_all add: example_pipeline_def example_segs_def)
  note th = slices_cover_detected_speech[OF this(1) refl this(2) wave(2,3) segs(1),
      where F = example_f32 and vo = "default_vad_options example_f32"]
  have "\<not> (\<exists>s\<in>set example_segs. vs_start s \<le> 520)" using segs(2) by blast
  moreover have "audio_end_ms example_wave * wf_sample_rate example_wave \<le> usize_max"
    "length (wf_samples example_wave) \<le> usize_max" by (simp_all add: wave max_values)
  ultimately show ?thesis using th by blast
qed

end
