(* ===== verification/TranscribePipeline.thy ===== *)
theory TranscribePipeline
  imports OfflinePipeline
begin

text \<open>
  The parallel transcription pipeline (\<^verbatim>\<open>vasr-transcribe/src/pipeline.rs\<close>): inputs are
  deduplicated, loaded and cut by voice activity detection in concurrent tasks, and one worker
  collects the resulting messages into batches for the recogniser.

  The worker's channel is a list of events: a message, a pause shorter than the collection timeout,
  or a silence longer than it; the end of the list is the closed channel.  Every interleaving of the upstream
  tasks and every timing is such a list.  Loading, metrics and logging are left out, and so are
  durations.  Paths and URLs are their bytes; the file system, the hash of the standard
  library and the lossy decoding of UTF-8 are the parameters of \<^verbatim>\<open>source_env\<close>.
\<close>

section \<open>Deduplication\<close>

type_synonym bytes = "8 word list"

datatype 'f audio_source =
  PathSource bytes | UrlSource bytes | Base64Source bytes | BytesSource bytes | WaveformSource "'f waveform"

record 'f transcribe_input =
  ti_index :: nat
  ti_source :: "'f audio_source"

record 'f outcome =
  oc_index :: nat
  oc_result :: "'f timeline result"
  oc_bad_component :: "string option"

datatype dedup_key =
  KPath bytes | KUrl bytes | KBase64 bytes | KBytes bytes | KLocalFileContent nat nat

record source_env =
  env_read :: "bytes \<Rightarrow> bytes option"
  env_hash :: "bytes \<Rightarrow> nat"
  env_utf8_lossy :: "bytes \<Rightarrow> bytes"

definition bytes_content_key :: "source_env \<Rightarrow> bytes \<Rightarrow> dedup_key" where
  "bytes_content_key env bs = KLocalFileContent (length bs) (env_hash env bs)"

definition local_file_content_key :: "source_env \<Rightarrow> bytes \<Rightarrow> dedup_key option" where
  "local_file_content_key env path = map_option (bytes_content_key env) (env_read env path)"

definition hex_value :: "8 word \<Rightarrow> 8 word option" where
  "hex_value b =
    (if 48 \<le> b \<and> b \<le> 57 then Some (b - 48)
     else if 97 \<le> b \<and> b \<le> 102 then Some (b - 97 + 10)
     else if 65 \<le> b \<and> b \<le> 70 then Some (b - 65 + 10)
     else None)"

function percent_decode_bytes :: "bytes \<Rightarrow> bytes" where
  "percent_decode_bytes [] = []"
| "percent_decode_bytes (b # bs) =
    (if b = 37 \<and> 2 \<le> length bs
     then (case (hex_value (bs ! 0), hex_value (bs ! 1)) of
             (Some hi, Some lo) \<Rightarrow> or (push_bit 4 hi) lo # percent_decode_bytes (drop 2 bs)
           | _ \<Rightarrow> b # percent_decode_bytes bs)
     else b # percent_decode_bytes bs)"
  by pat_completeness auto
termination
  by (relation "measure length") auto

definition percent_decode_path :: "source_env \<Rightarrow> bytes \<Rightarrow> bytes" where
  "percent_decode_path env s = env_utf8_lossy env (percent_decode_bytes s)"

definition file_scheme :: bytes where
  "file_scheme = [102, 105, 108, 101, 58, 47, 47]"

definition local_path_from_url :: "source_env \<Rightarrow> bytes \<Rightarrow> bytes option" where
  "local_path_from_url env url =
    (if take 7 url = file_scheme then Some (percent_decode_path env (drop 7 url)) else None)"

definition audio_source_dedup_key :: "source_env \<Rightarrow> 'f audio_source \<Rightarrow> dedup_key option" where
  "audio_source_dedup_key env source =
    (case source of
       PathSource path \<Rightarrow> Some (case local_file_content_key env path of Some k \<Rightarrow> k | None \<Rightarrow> KPath path)
     | UrlSource url \<Rightarrow>
        (case local_path_from_url env url of
           Some path \<Rightarrow> Some (case local_file_content_key env path of Some k \<Rightarrow> k | None \<Rightarrow> KUrl url)
         | None \<Rightarrow> Some (KUrl url))
     | Base64Source encoded \<Rightarrow> Some (KBase64 encoded)
     | BytesSource bs \<Rightarrow> Some (KBytes bs)
     | WaveformSource w \<Rightarrow> None)"

record 'f dedup =
  dd_seen :: "dedup_key \<rightharpoonup> nat"
  dd_unique :: "'f transcribe_input list"
  dd_duplicates :: "(nat \<times> nat) list"

definition dedup_step :: "source_env \<Rightarrow> 'f dedup \<Rightarrow> 'f transcribe_input \<Rightarrow> 'f dedup" where
  "dedup_step env d input =
    (case audio_source_dedup_key env (ti_source input) of
       Some key \<Rightarrow>
        (case dd_seen d key of
           Some canonical_index \<Rightarrow> d\<lparr>dd_duplicates := dd_duplicates d @ [(ti_index input, canonical_index)]\<rparr>
         | None \<Rightarrow> d\<lparr>dd_seen := (dd_seen d)(key \<mapsto> ti_index input), dd_unique := dd_unique d @ [input]\<rparr>)
     | None \<Rightarrow> d\<lparr>dd_unique := dd_unique d @ [input]\<rparr>)"

definition deduplicate_transcribe_inputs :: "source_env \<Rightarrow> 'f transcribe_input list \<Rightarrow> 'f dedup" where
  "deduplicate_transcribe_inputs env inputs =
    foldl (dedup_step env) \<lparr>dd_seen = Map.empty, dd_unique = [], dd_duplicates = []\<rparr> inputs"

definition duplicate_outcome_from :: "'f outcome \<Rightarrow> nat \<Rightarrow> 'f outcome" where
  "duplicate_outcome_from oc duplicate_index = oc\<lparr>oc_index := duplicate_index\<rparr>"

definition expand_duplicate_outcomes :: "'f outcome list \<Rightarrow> (nat \<times> nat) list \<Rightarrow> 'f outcome list" where
  "expand_duplicate_outcomes outcomes duplicate_indices =
    (if duplicate_indices = [] then sort_key oc_index outcomes
     else let duplicate_outcomes = List.map_filter (\<lambda>(duplicate_index, canonical_index).
                map_option (\<lambda>oc. duplicate_outcome_from oc duplicate_index)
                  (List.find (\<lambda>oc. oc_index oc = canonical_index) outcomes)) duplicate_indices
          in sort_key oc_index (outcomes @ duplicate_outcomes))"

section \<open>Messages\<close>

record 'f asr_job =
  aj_index :: nat
  aj_prepared :: "'f vad_preparation"
  aj_waveform :: "'f waveform"

record 'f asr_segment_job =
  sj_job_index :: nat
  sj_speech_annotations :: "'f annotation list"
  sj_segment_index :: nat
  sj_segment_count :: nat
  sj_offset :: nat
  sj_waveform :: "'f waveform"

datatype 'f asr_message = JobMessage "'f asr_job" | SegmentMessage "'f asr_segment_job"

type_synonym 'f stage_message = "'f outcome + 'f asr_message"

definition speech_job_to_segments :: "'f asr_job \<Rightarrow> 'f asr_segment_job list result" where
  "speech_job_to_segments job =
    (case aj_prepared job of
       SpeechPrep prepared \<Rightarrow>
        (if length (vp_segments prepared) \<noteq> length (vp_slices prepared)
         then Inl (Err ''VAD prepared mismatch'')
         else Inr (map (\<lambda>(segment_index, segment, waveform).
            \<lparr>sj_job_index = aj_index job,
             sj_speech_annotations = (if segment_index = 0 then vp_speech_annotations prepared else []),
             sj_segment_index = segment_index, sj_segment_count = length (vp_segments prepared),
             sj_offset = tr_start (vs_range segment), sj_waveform = waveform\<rparr>)
            (zip [0..<length (vp_segments prepared)] (zip (vp_segments prepared) (vp_slices prepared)))))
     | _ \<Rightarrow> Inl (Err ''speech_job_to_segments requires Speech preparation''))"

text \<open>What the detection task of one loaded recording sends.\<close>

definition vad_task_messages ::
  "'f f32_ops \<Rightarrow> 'f offline_pipeline \<Rightarrow> 'f vad_options \<Rightarrow> nat \<Rightarrow> 'f waveform \<Rightarrow> 'f stage_message list" where
  "vad_task_messages F p vo job_index w =
    (case prepare_vad_stage F p w vo of
       Inl error \<Rightarrow> [Inl \<lparr>oc_index = job_index, oc_result = Inl error, oc_bad_component = Some ''vad''\<rparr>]
     | Inr prepared \<Rightarrow>
        (let asr_job = \<lparr>aj_index = job_index, aj_prepared = prepared, aj_waveform = w\<rparr>
         in case prepared of
              SpeechPrep _ \<Rightarrow>
               (case speech_job_to_segments asr_job of
                  Inl error \<Rightarrow> [Inl \<lparr>oc_index = job_index, oc_result = Inl error, oc_bad_component = Some ''vad''\<rparr>]
                | Inr segments \<Rightarrow> map (\<lambda>s. Inr (SegmentMessage s)) segments)
            | _ \<Rightarrow> [Inr (JobMessage asr_job)]))"

section \<open>Collecting batches\<close>

datatype 'f event = Msg "'f stage_message" | Pause | Silence

fun recv :: "'f event list \<Rightarrow> ('f stage_message \<times> 'f event list) option" where
  "recv [] = None"
| "recv (Msg m # rx) = Some (m, rx)"
| "recv (Pause # rx) = recv rx"
| "recv (Silence # rx) = recv rx"

fun recv_asr_message ::
  "'f stage_message list \<Rightarrow> 'f event list \<Rightarrow> ('f stage_message \<times> 'f stage_message list \<times> 'f event list) option" where
  "recv_asr_message (m # pending) rx = Some (m, pending, rx)"
| "recv_asr_message [] rx = map_option (\<lambda>(m, rx). (m, [], rx)) (recv rx)"

type_synonym ('f, 'm) collected = "'m list \<times> 'f stage_message list \<times> 'f event list"

fun job_wait :: "nat \<Rightarrow> 'f stage_message list \<Rightarrow> 'f stage_message list \<Rightarrow> 'f event list \<Rightarrow> ('f, 'f stage_message) collected" where
  "job_wait n messages pending [] = (messages, pending, [])"
| "job_wait n messages pending (ev # rx) =
    (if length messages < n then
       (case ev of
          Msg m \<Rightarrow>
           (case m of
              Inr (SegmentMessage s) \<Rightarrow> job_wait n messages (pending @ [m]) rx
            | _ \<Rightarrow> job_wait n (messages @ [m]) pending rx)
        | _ \<Rightarrow> job_wait n messages pending rx)
     else (messages, pending, ev # rx))"

text \<open>The flag says that the channel was found closed.\<close>

fun job_drain :: "nat \<Rightarrow> 'f stage_message list \<Rightarrow> 'f stage_message list \<Rightarrow> 'f event list \<Rightarrow> bool \<times> ('f, 'f stage_message) collected" where
  "job_drain n messages pending [] =
    (length messages < n, messages, pending, [])"
| "job_drain n messages pending (ev # rx) =
    (if length messages < n then
       (case ev of
          Msg m \<Rightarrow>
           (case m of
              Inr (SegmentMessage s) \<Rightarrow> job_drain n messages (pending @ [m]) rx
            | _ \<Rightarrow> job_drain n (messages @ [m]) pending rx)
        | _ \<Rightarrow> (False, messages, pending, ev # rx))
     else (False, messages, pending, ev # rx))"

definition collect_job_microbatch ::
  "'f asr_job \<Rightarrow> nat \<Rightarrow> 'f stage_message list \<Rightarrow> 'f event list \<Rightarrow> ('f, 'f stage_message) collected" where
  "collect_job_microbatch first n pending rx =
    (let messages = [Inr (JobMessage first)]
     in if n \<le> 1 then (messages, pending, rx)
        else (let (closed, messages, pending, rx) = job_drain n messages pending rx
              in if closed \<or> n \<le> length messages then (messages, pending, rx)
                 else job_wait n messages pending rx))"

fun segment_wait :: "nat \<Rightarrow> 'f asr_segment_job list \<Rightarrow> 'f stage_message list \<Rightarrow> 'f event list \<Rightarrow> ('f, 'f asr_segment_job) collected" where
  "segment_wait n segments pending [] = (segments, pending, [])"
| "segment_wait n segments pending (ev # rx) =
    (if length segments < n then
       (case ev of
          Msg m \<Rightarrow>
           (case m of
              Inr (SegmentMessage s) \<Rightarrow> segment_wait n (segments @ [s]) pending rx
            | _ \<Rightarrow> segment_wait n segments (pending @ [m]) rx)
        | Pause \<Rightarrow> segment_wait n segments pending rx
        | Silence \<Rightarrow> (segments, pending, rx))
     else (segments, pending, ev # rx))"

fun segment_drain :: "nat \<Rightarrow> 'f asr_segment_job list \<Rightarrow> 'f stage_message list \<Rightarrow> 'f event list \<Rightarrow> bool \<times> ('f, 'f asr_segment_job) collected" where
  "segment_drain n segments pending [] = (length segments < n, segments, pending, [])"
| "segment_drain n segments pending (ev # rx) =
    (if length segments < n then
       (case ev of
          Msg m \<Rightarrow>
           (case m of
              Inr (SegmentMessage s) \<Rightarrow> segment_drain n (segments @ [s]) pending rx
            | _ \<Rightarrow> segment_drain n segments (pending @ [m]) rx)
        | _ \<Rightarrow> (False, segments, pending, ev # rx))
     else (False, segments, pending, ev # rx))"

definition collect_segment_microbatch ::
  "'f asr_segment_job \<Rightarrow> nat \<Rightarrow> 'f stage_message list \<Rightarrow> 'f event list \<Rightarrow> ('f, 'f asr_segment_job) collected" where
  "collect_segment_microbatch first n pending rx =
    (if n \<le> 1 then ([first], pending, rx)
     else (let (closed, segments, pending, rx) = segment_drain n [first] pending rx
           in if closed \<or> n \<le> length segments then (segments, pending, rx)
              else segment_wait n segments pending rx))"

section \<open>Recognising segments\<close>

record 'f segment_job_state =
  js_index :: nat
  js_speech_annotations :: "'f annotation list"
  js_timeline :: "'f timeline"
  js_segment_count :: nat
  js_segments_done :: nat

type_synonym 'f segment_asr_state = "nat \<rightharpoonup> 'f segment_job_state"

definition outcome_from_result :: "nat \<Rightarrow> 'f timeline result \<Rightarrow> 'f outcome" where
  "outcome_from_result index result = \<lparr>oc_index = index, oc_result = result,
     oc_bad_component = (if is_ok result then None else Some ''recognizer'')\<rparr>"

definition extend_timeline :: "'f annotation list \<Rightarrow> 'f timeline \<Rightarrow> 'f timeline" where
  "extend_timeline as t = t\<lparr>tl_annotations := tl_annotations t @ as\<rparr>"

definition segment_job_entry :: "'f asr_segment_job \<Rightarrow> 'f segment_job_state option \<Rightarrow> 'f segment_job_state" where
  "segment_job_entry segment found =
    (let entry = (case found of
           Some entry \<Rightarrow> entry
         | None \<Rightarrow> \<lparr>js_index = sj_job_index segment, js_speech_annotations = sj_speech_annotations segment,
             js_timeline = timeline_new (lit ''offline_audio''), js_segment_count = sj_segment_count segment,
             js_segments_done = 0\<rparr>);
         entry = (if sj_speech_annotations segment \<noteq> []
           then entry\<lparr>js_speech_annotations := sj_speech_annotations segment\<rparr> else entry);
         entry = (if tl_annotations (js_timeline entry) = [] \<and> js_speech_annotations entry \<noteq> []
           then entry\<lparr>js_timeline := extend_timeline (js_speech_annotations entry) (js_timeline entry)\<rparr> else entry)
     in entry\<lparr>js_segment_count := sj_segment_count segment\<rparr>)"

definition prepare_segment :: "'f segment_asr_state \<Rightarrow> 'f asr_segment_job \<Rightarrow> 'f segment_asr_state" where
  "prepare_segment state segment =
    state(sj_job_index segment \<mapsto> segment_job_entry segment (state (sj_job_index segment)))"

definition prepare_segment_job_state :: "'f segment_asr_state \<Rightarrow> 'f asr_segment_job list \<Rightarrow> 'f segment_asr_state" where
  "prepare_segment_job_state state segments = foldl prepare_segment state segments"

definition run_segment_asr_inference ::
  "'f offline_pipeline \<Rightarrow> 'f asr_segment_job list \<Rightarrow> 'f asr_options \<Rightarrow> ((nat \<times> nat) list \<times> 'f timeline list) result" where
  "run_segment_asr_inference p segments ao =
    (let slices = map sj_waveform segments;
         targets = map (\<lambda>s. (sj_job_index s, sj_offset s)) segments
     in rbind (am_transcribe_batch (op_asr p) slices ao) (\<lambda>timelines. Inr (targets, timelines)))"

definition finish_segment ::
  "'f segment_asr_state \<times> 'f outcome list \<Rightarrow> (nat \<times> nat) \<times> 'f timeline \<Rightarrow> 'f segment_asr_state \<times> 'f outcome list" where
  "finish_segment = (\<lambda>(state, completed) ((job_index, offset), asr_timeline).
    (case state job_index of
       None \<Rightarrow> (state, completed)
     | Some job \<Rightarrow>
        (let job = job\<lparr>js_timeline := extend_timeline (offset_annotations (tl_annotations asr_timeline) offset) (js_timeline job),
               js_segments_done := saturating_add (js_segments_done job) 1\<rparr>
         in if js_segment_count job \<le> js_segments_done job
            then (state(job_index := None),
                  completed @ [\<lparr>oc_index = js_index job, oc_result = Inr (js_timeline job), oc_bad_component = None\<rparr>])
            else (state(job_index \<mapsto> job), completed))))"

text \<open>The jobs of a failed batch; the code takes them from a hash set, in some order.\<close>

definition fail_job ::
  "error \<Rightarrow> 'f segment_asr_state \<times> 'f outcome list \<Rightarrow> nat \<Rightarrow> 'f segment_asr_state \<times> 'f outcome list" where
  "fail_job err = (\<lambda>(state, completed) job_index.
    (case state job_index of
       None \<Rightarrow> (state, completed)
     | Some job \<Rightarrow> (state(job_index := None), completed @ [outcome_from_result (js_index job) (Inl err)])))"

definition fail_affected ::
  "error \<Rightarrow> 'f asr_segment_job list \<Rightarrow> 'f segment_asr_state \<Rightarrow> 'f segment_asr_state \<times> 'f outcome list" where
  "fail_affected err segments state = foldl (fail_job err) (state, []) (remdups (map sj_job_index segments))"

definition finish_segment_asr_batch ::
  "'f segment_asr_state \<Rightarrow> 'f asr_segment_job list \<Rightarrow> ((nat \<times> nat) list \<times> 'f timeline list) result \<Rightarrow>
   'f segment_asr_state \<times> 'f outcome list" where
  "finish_segment_asr_batch state segments batch =
    (if segments = [] then (state, [])
     else (case batch of
       Inr (targets, timelines) \<Rightarrow>
        (if length timelines = length targets
         then foldl finish_segment (state, []) (zip targets timelines)
         else fail_affected (Err ''ASR segment batch returned the wrong number of timelines'') segments state)
     | Inl error \<Rightarrow> fail_affected error segments state))"

definition run_segment_microbatch ::
  "'f offline_pipeline \<Rightarrow> 'f asr_segment_job list \<Rightarrow> 'f asr_options \<Rightarrow> 'f segment_asr_state \<Rightarrow>
   'f segment_asr_state \<times> 'f outcome list" where
  "run_segment_microbatch p segments ao state =
    (if segments = [] then (state, [])
     else finish_segment_asr_batch (prepare_segment_job_state state segments) segments
            (run_segment_asr_inference p segments ao))"

section \<open>Recognising whole recordings\<close>

text \<open>The preparation of a job is taken out of it and replaced by \<^verbatim>\<open>Disabled\<close>.\<close>

definition take_prepared :: "'f asr_job \<Rightarrow> 'f asr_job" where
  "take_prepared job = job\<lparr>aj_prepared := Disabled\<rparr>"

type_synonym 'f sorted_jobs = "'f outcome list \<times> ('f asr_job \<times> 'f annotation list) list \<times> 'f asr_job list"

definition sort_job :: "'f sorted_jobs \<Rightarrow> 'f asr_job \<Rightarrow> 'f sorted_jobs" where
  "sort_job = (\<lambda>(outcomes, raw_jobs, prepared_jobs) job.
    (case aj_prepared job of
       SpeechPrep _ \<Rightarrow> (outcomes, raw_jobs, prepared_jobs @ [take_prepared job])
     | NoSpeech \<Rightarrow> (outcomes @ [\<lparr>oc_index = aj_index job, oc_result = Inr (timeline_new (lit ''offline_audio'')),
                       oc_bad_component = None\<rparr>], raw_jobs, prepared_jobs)
     | FullSpeech speech_annotations \<Rightarrow> (outcomes, raw_jobs @ [(take_prepared job, speech_annotations)], prepared_jobs)
     | Disabled \<Rightarrow> (outcomes, raw_jobs @ [(take_prepared job, [])], prepared_jobs)))"

definition raw_outcome :: "(nat \<times> 'f annotation list) \<times> 'f timeline \<Rightarrow> 'f outcome" where
  "raw_outcome = (\<lambda>((index, annotations), t).
    \<lparr>oc_index = index,
     oc_result = Inr (if annotations \<noteq> [] then t\<lparr>tl_annotations := annotations @ tl_annotations t\<rparr> else t),
     oc_bad_component = None\<rparr>)"

text \<open>A panic of the recogniser is one of the whole batch.\<close>

definition run_raw_jobs ::
  "'f offline_pipeline \<Rightarrow> ('f asr_job \<times> 'f annotation list) list \<Rightarrow> 'f asr_options \<Rightarrow> 'f outcome list result" where
  "run_raw_jobs p raw_jobs ao =
    (if raw_jobs = [] then Inr []
     else (let indices = map (\<lambda>(job, _). aj_index job) raw_jobs; speech_annotations = map snd raw_jobs
           in case am_transcribe_batch (op_asr p) (map (\<lambda>(job, _). aj_waveform job) raw_jobs) ao of
                Inl (Panic m) \<Rightarrow> Inl (Panic m)
              | Inl error \<Rightarrow> Inr (map (\<lambda>index. outcome_from_result index (Inl error)) indices)
              | Inr timelines \<Rightarrow>
                 (if length timelines = length indices
                  then Inr (map raw_outcome (zip (zip indices speech_annotations) timelines))
                  else Inr (map (\<lambda>index. outcome_from_result index
                         (Inl (Err ''ASR batch returned the wrong number of timelines''))) indices))))"

definition split_prepared ::
  "'f asr_segment_job list \<times> 'f outcome list \<Rightarrow> 'f asr_job \<Rightarrow> 'f asr_segment_job list \<times> 'f outcome list" where
  "split_prepared = (\<lambda>(segment_jobs, outcomes) job.
    (case speech_job_to_segments job of
       Inr segments \<Rightarrow> (segment_jobs @ segments, outcomes)
     | Inl error \<Rightarrow> (segment_jobs, outcomes @ [\<lparr>oc_index = 0, oc_result = Inl error, oc_bad_component = Some ''vad''\<rparr>])))"

definition run_asr_jobs_batch ::
  "'f offline_pipeline \<Rightarrow> 'f asr_job list \<Rightarrow> 'f asr_options \<Rightarrow> 'f outcome list result" where
  "run_asr_jobs_batch p jobs ao =
    (let (outcomes, raw_jobs, prepared_jobs) = foldl sort_job ([], [], []) jobs
     in rbind (run_raw_jobs p raw_jobs ao) (\<lambda>raw.
        let outcomes = outcomes @ raw;
            outcomes = (if prepared_jobs = [] then outcomes
              else (let (segment_jobs, errors) = foldl split_prepared ([], []) prepared_jobs
                    in outcomes @ errors @ snd (run_segment_microbatch p segment_jobs ao Map.empty)))
        in Inr (sort_key oc_index outcomes)))"

section \<open>The worker\<close>

fun asr_jobs_of :: "'f stage_message list \<Rightarrow> 'f outcome list \<times> 'f asr_job list" where
  "asr_jobs_of [] = ([], [])"
| "asr_jobs_of (m # messages) =
    (let (outcomes, jobs) = asr_jobs_of messages
     in case m of
          Inl outcome \<Rightarrow> (outcome # outcomes, jobs)
        | Inr (JobMessage job) \<Rightarrow> (outcomes, job # jobs)
        | Inr (SegmentMessage _) \<Rightarrow> (outcomes, jobs))"

type_synonym 'f worker_state = "'f segment_asr_state \<times> 'f stage_message list \<times> 'f event list"

text \<open>One turn of the loop with what it sends, or \<^verbatim>\<open>None\<close> when the channel is closed.  A panic of a
  batch of jobs is reported for the index 0.\<close>

definition asr_turn ::
  "'f offline_pipeline \<Rightarrow> 'f asr_options \<Rightarrow> nat \<Rightarrow> 'f worker_state \<Rightarrow> ('f outcome list \<times> 'f worker_state) option" where
  "asr_turn p ao n = (\<lambda>(state, pending, rx).
    (case recv_asr_message pending rx of
       None \<Rightarrow> None
     | Some (Inl outcome, pending, rx) \<Rightarrow> Some ([outcome], state, pending, rx)
     | Some (Inr (JobMessage job), pending, rx) \<Rightarrow>
        (let (messages, pending, rx) = collect_job_microbatch job (max n 1) pending rx;
             (outcomes, jobs) = asr_jobs_of messages
         in if jobs = [] then Some (outcomes, state, pending, rx)
            else (case run_asr_jobs_batch p jobs ao of
                    Inr results \<Rightarrow> Some (outcomes @ results, state, pending, rx)
                  | Inl e \<Rightarrow> Some (outcomes @ [\<lparr>oc_index = 0, oc_result = Inl (Err ''ASR join error''),
                                 oc_bad_component = Some ''recognizer''\<rparr>], state, pending, rx)))
     | Some (Inr (SegmentMessage segment), pending, rx) \<Rightarrow>
        (let (segments, pending, rx) = collect_segment_microbatch segment (max n 1) pending rx;
             (state, outcomes) = finish_segment_asr_batch (prepare_segment_job_state state segments) segments
               (run_segment_asr_inference p segments ao)
         in Some (outcomes, state, pending, rx))))"

lemma recv_length: "recv rx = Some (m, rx') \<Longrightarrow> length rx' < length rx"
  by (induction rx rule: recv.induct) auto

lemma recv_asr_message_length:
  "recv_asr_message pending rx = Some (m, pending', rx') \<Longrightarrow> length pending' + length rx' < length pending + length rx"
  by (cases pending) (auto simp: recv_length)

lemma job_wait_length:
  "job_wait n ms pending rx = (ms', pending', rx') \<Longrightarrow> length pending' + length rx' \<le> length pending + length rx"
  by (induction n ms pending rx rule: job_wait.induct)
    (fastforce split: if_splits event.splits sum.splits asr_message.splits)+

lemma job_drain_length:
  "job_drain n ms pending rx = (c, ms', pending', rx') \<Longrightarrow> length pending' + length rx' \<le> length pending + length rx"
  by (induction n ms pending rx rule: job_drain.induct)
    (fastforce split: if_splits event.splits sum.splits asr_message.splits)+

lemma segment_wait_length:
  "segment_wait n ms pending rx = (ms', pending', rx') \<Longrightarrow> length pending' + length rx' \<le> length pending + length rx"
  by (induction n ms pending rx rule: segment_wait.induct)
    (fastforce split: if_splits event.splits sum.splits asr_message.splits)+

lemma segment_drain_length:
  "segment_drain n ms pending rx = (c, ms', pending', rx') \<Longrightarrow> length pending' + length rx' \<le> length pending + length rx"
  by (induction n ms pending rx rule: segment_drain.induct)
    (fastforce split: if_splits event.splits sum.splits asr_message.splits)+

lemma collect_job_microbatch_length:
  "collect_job_microbatch first n pending rx = (ms, pending', rx') \<Longrightarrow> length pending' + length rx' \<le> length pending + length rx"
  by (auto simp: collect_job_microbatch_def Let_def dest!: job_drain_length job_wait_length split: if_splits prod.splits)

lemma collect_segment_microbatch_length:
  "collect_segment_microbatch first n pending rx = (ms, pending', rx') \<Longrightarrow> length pending' + length rx' \<le> length pending + length rx"
  by (auto simp: collect_segment_microbatch_def Let_def dest!: segment_drain_length segment_wait_length split: if_splits prod.splits)

lemma asr_turn_length:
  "asr_turn p ao n (state, pending, rx) = Some (out, state', pending', rx') \<Longrightarrow>
   length pending' + length rx' < length pending + length rx"
  by (auto simp: asr_turn_def Let_def dest!: recv_asr_message_length collect_job_microbatch_length
        collect_segment_microbatch_length split: option.splits prod.splits sum.splits asr_message.splits if_splits)

function asr_worker ::
  "'f offline_pipeline \<Rightarrow> 'f asr_options \<Rightarrow> nat \<Rightarrow> 'f worker_state \<Rightarrow> 'f outcome list" where
  "asr_worker p ao n s =
    (case asr_turn p ao n s of None \<Rightarrow> [] | Some (outcomes, s') \<Rightarrow> outcomes @ asr_worker p ao n s')"
  by pat_completeness auto
termination
  by (relation "measure (\<lambda>(p, ao, n, state, pending, rx). length pending + length rx)")
    (auto dest: asr_turn_length)

declare asr_worker.simps [simp del]

section \<open>The pipeline\<close>

definition input_messages ::
  "'f f32_ops \<Rightarrow> 'f offline_pipeline \<Rightarrow> 'f vad_options \<Rightarrow> ('f audio_source \<Rightarrow> 'f waveform result) \<Rightarrow>
   'f transcribe_input \<Rightarrow> 'f stage_message list" where
  "input_messages F p vo load input =
    (case load (ti_source input) of
       Inl error \<Rightarrow> [Inl \<lparr>oc_index = ti_index input, oc_result = Inl error, oc_bad_component = Some ''loader''\<rparr>]
     | Inr w \<Rightarrow> vad_task_messages F p vo (ti_index input) w)"

definition transcribe_single ::
  "'f f32_ops \<Rightarrow> 'f offline_pipeline \<Rightarrow> 'f asr_options \<Rightarrow> 'f vad_options \<Rightarrow> ('f audio_source \<Rightarrow> 'f waveform result) \<Rightarrow>
   'f transcribe_input \<Rightarrow> 'f outcome" where
  "transcribe_single F p ao vo load input =
    (case load (ti_source input) of
       Inl error \<Rightarrow> \<lparr>oc_index = ti_index input, oc_result = Inl error, oc_bad_component = Some ''loader''\<rparr>
     | Inr w \<Rightarrow> outcome_from_result (ti_index input) (transcribe_with_vad_options F p w ao vo))"

text \<open>The argument \<open>schedule\<close> is what the worker's channel delivers for the inputs.\<close>

definition transcribe_many ::
  "'f f32_ops \<Rightarrow> source_env \<Rightarrow> 'f offline_pipeline \<Rightarrow> 'f asr_options \<Rightarrow> 'f vad_options \<Rightarrow>
   ('f audio_source \<Rightarrow> 'f waveform result) \<Rightarrow> nat \<Rightarrow> ('f transcribe_input list \<Rightarrow> 'f event list) \<Rightarrow>
   'f transcribe_input list \<Rightarrow> 'f outcome list" where
  "transcribe_many F env p ao vo load buffer schedule inputs =
    (if inputs = [] then []
     else let d = deduplicate_transcribe_inputs env inputs
          in case dd_unique d of
               [input] \<Rightarrow> expand_duplicate_outcomes [transcribe_single F p ao vo load input] (dd_duplicates d)
             | unique \<Rightarrow> expand_duplicate_outcomes
                 (asr_worker p ao buffer (Map.empty, [], schedule unique)) (dd_duplicates d))"

definition transcribe_source ::
  "'f f32_ops \<Rightarrow> source_env \<Rightarrow> 'f offline_pipeline \<Rightarrow> 'f asr_options \<Rightarrow> 'f vad_options \<Rightarrow>
   ('f audio_source \<Rightarrow> 'f waveform result) \<Rightarrow> nat \<Rightarrow> ('f transcribe_input list \<Rightarrow> 'f event list) \<Rightarrow>
   nat \<Rightarrow> 'f audio_source \<Rightarrow> 'f outcome" where
  "transcribe_source F env p ao vo load buffer schedule index source =
    (case transcribe_many F env p ao vo load buffer schedule [\<lparr>ti_index = index, ti_source = source\<rparr>] of
       oc # _ \<Rightarrow> oc
     | [] \<Rightarrow> \<lparr>oc_index = index, oc_result = Inl (Err ''transcribe returned no outcome''),
              oc_bad_component = Some ''recognizer''\<rparr>)"

end
