(* ===== verification/TranscribeWorker.thy ===== *)
theory TranscribeWorker
  imports TranscribePipeline
begin

text \<open>
  What the worker of \<^verbatim>\<open>TranscribePipeline\<close> delivers: with a recogniser that treats the recordings of
  a batch independently, every order in which the messages reach the worker gives one outcome per
  input, whose annotations are those of the sequential transcription up to their order and the
  annotations of detected speech, which can be lost.
\<close>

section \<open>Messages\<close>

fun event_msgs :: "'f event list \<Rightarrow> 'f stage_message list" where
  "event_msgs [] = []"
| "event_msgs (Msg m # rx) = m # event_msgs rx"
| "event_msgs (_ # rx) = event_msgs rx"

fun is_segment :: "'f stage_message \<Rightarrow> bool" where
  "is_segment (Inr (SegmentMessage s)) = True"
| "is_segment _ = False"

abbreviation seg_msg :: "'f asr_segment_job \<Rightarrow> 'f stage_message" where "seg_msg s \<equiv> Inr (SegmentMessage s)"

lemma is_segment_iff: "is_segment m \<longleftrightarrow> (\<exists>s. m = seg_msg s)"
  by (cases m rule: is_segment.cases) auto

lemma stage_message_cases [case_names segment outcome job]:
  assumes "\<And>s. m = seg_msg s \<Longrightarrow> P" "\<And>oc. m = Inl oc \<Longrightarrow> P" "\<And>job. m = Inr (JobMessage job) \<Longrightarrow> P"
  shows P
  using assms by (cases m rule: is_segment.cases) blast+

lemma recv_Some: "recv rx = Some (m, rx') \<Longrightarrow> event_msgs rx = m # event_msgs rx'"
  by (induction rx rule: recv.induct) auto

lemma recv_None: "recv rx = None \<Longrightarrow> event_msgs rx = []"
  by (induction rx rule: recv.induct) auto

definition left :: "'f stage_message list \<Rightarrow> 'f event list \<Rightarrow> 'f stage_message multiset" where
  "left pending rx = mset pending + mset (event_msgs rx)"

lemma left_simps [simp]:
  "left (m # pending) rx = add_mset m (left pending rx)" "left pending (Msg m # rx) = add_mset m (left pending rx)"
  "left (pending @ [m]) rx = add_mset m (left pending rx)"
  "left pending (Pause # rx) = left pending rx" "left pending (Silence # rx) = left pending rx"
  by (simp_all add: left_def)

lemma recv_asr_message_left:
  "recv_asr_message pending rx = Some (m, pending', rx') \<Longrightarrow> left pending rx = add_mset m (left pending' rx')"
  by (cases pending) (auto simp: left_def recv_Some)

lemma recv_asr_message_None: "recv_asr_message pending rx = None \<Longrightarrow> left pending rx = {#}"
  by (cases pending) (auto simp: left_def recv_None)

lemma job_wait_left:
  "job_wait n ms pending rx = (ms', pending', rx') \<Longrightarrow>
   mset ms' + left pending' rx' = mset ms + left pending rx \<and>
   (\<forall>m\<in>set ms'. m \<in> set ms \<or> \<not> is_segment m) \<and> length ms \<le> length ms'"
proof (induction n ms pending rx rule: job_wait.induct)
  case (2 n ms pending ev rx)
  show ?case
  proof (cases "length ms < n")
    case True
    show ?thesis
    proof (cases ev)
      case (Msg m)
      show ?thesis
        using 2 True Msg by (cases m rule: is_segment.cases) (auto, (metis is_segment.simps(3) Suc_leD)+)
    qed (use 2 True in auto)
  qed (use 2 in auto)
qed auto

lemma job_drain_left:
  "job_drain n ms pending rx = (c, ms', pending', rx') \<Longrightarrow>
   mset ms' + left pending' rx' = mset ms + left pending rx \<and>
   (\<forall>m\<in>set ms'. m \<in> set ms \<or> \<not> is_segment m) \<and> length ms \<le> length ms'"
proof (induction n ms pending rx rule: job_drain.induct)
  case (2 n ms pending ev rx)
  show ?case
  proof (cases "length ms < n")
    case True
    show ?thesis
    proof (cases ev)
      case (Msg m)
      show ?thesis
        using 2 True Msg by (cases m rule: is_segment.cases) (auto, (metis is_segment.simps(3) Suc_leD)+)
    qed (use 2 True in auto)
  qed (use 2 in auto)
qed auto

lemma segment_wait_left:
  "segment_wait n segs pending rx = (segs', pending', rx') \<Longrightarrow>
   mset (map seg_msg segs') + left pending' rx' = mset (map seg_msg segs) + left pending rx \<and>
   length segs \<le> length segs'"
  by (induction n segs pending rx rule: segment_wait.induct)
    (fastforce split: if_splits event.splits sum.splits asr_message.splits)+

lemma segment_drain_left:
  "segment_drain n segs pending rx = (c, segs', pending', rx') \<Longrightarrow>
   mset (map seg_msg segs') + left pending' rx' = mset (map seg_msg segs) + left pending rx \<and>
   length segs \<le> length segs'"
  by (induction n segs pending rx rule: segment_drain.induct)
    (fastforce split: if_splits event.splits sum.splits asr_message.splits)+

lemma collect_job_microbatch_left:
  assumes "collect_job_microbatch first n pending rx = (ms, pending', rx')"
  shows "mset ms + left pending' rx' = add_mset (Inr (JobMessage first)) (left pending rx) \<and>
    (\<forall>m\<in>set ms. \<not> is_segment m) \<and> ms \<noteq> []"
proof (cases "n \<le> 1")
  case False
  obtain c m1 p1 r1 where d: "job_drain n [Inr (JobMessage first)] pending rx = (c, m1, p1, r1)" by (metis prod_cases4)
  show ?thesis
  proof (cases "c \<or> n \<le> length m1")
    case True
    then show ?thesis using assms False job_drain_left[OF d] by (auto simp: collect_job_microbatch_def d)
  next
    case no: False
    then have "job_wait n m1 p1 r1 = (ms, pending', rx')" using assms False by (simp add: collect_job_microbatch_def d)
    from job_wait_left[OF this] job_drain_left[OF d] show ?thesis by (auto, metis is_segment.simps(3))
  qed
qed (use assms in \<open>auto simp: collect_job_microbatch_def\<close>)

lemma collect_segment_microbatch_left:
  assumes "collect_segment_microbatch first n pending rx = (segs, pending', rx')"
  shows "mset (map seg_msg segs) + left pending' rx' = add_mset (seg_msg first) (left pending rx) \<and> segs \<noteq> []"
  using assms
  by (fastforce simp: collect_segment_microbatch_def Let_def dest!: segment_drain_left segment_wait_left split: if_splits prod.splits)

section \<open>A turn of the worker\<close>

definition pointwise :: "'f offline_pipeline \<Rightarrow> 'f asr_options \<Rightarrow> ('f waveform \<Rightarrow> 'f timeline) \<Rightarrow> bool" where
  "pointwise p ao g \<longleftrightarrow> (\<forall>w. am_transcribe (op_asr p) w ao = Inr (g w)) \<and>
     (\<forall>ws. am_transcribe_batch (op_asr p) ws ao = Inr (map g ws))"

definition plain_job :: "'f asr_job \<Rightarrow> bool" where
  "plain_job job \<longleftrightarrow> (case aj_prepared job of SpeechPrep _ \<Rightarrow> False | _ \<Rightarrow> True)"

definition job_outcome :: "('f waveform \<Rightarrow> 'f timeline) \<Rightarrow> 'f asr_job \<Rightarrow> 'f outcome" where
  "job_outcome g job =
    (case aj_prepared job of
       NoSpeech \<Rightarrow> \<lparr>oc_index = aj_index job, oc_result = Inr (timeline_new (lit ''offline_audio'')), oc_bad_component = None\<rparr>
     | FullSpeech sp \<Rightarrow> raw_outcome ((aj_index job, sp), g (aj_waveform job))
     | _ \<Rightarrow> raw_outcome ((aj_index job, []), g (aj_waveform job)))"

fun message_outcomes :: "('f waveform \<Rightarrow> 'f timeline) \<Rightarrow> 'f stage_message \<Rightarrow> 'f outcome list" where
  "message_outcomes g (Inl oc) = [oc]"
| "message_outcomes g (Inr (JobMessage job)) = [job_outcome g job]"
| "message_outcomes g (Inr (SegmentMessage _)) = []"

definition raw_job_outcome :: "('f waveform \<Rightarrow> 'f timeline) \<Rightarrow> 'f asr_job \<times> 'f annotation list \<Rightarrow> 'f outcome" where
  "raw_job_outcome g = (\<lambda>(job, sp). raw_outcome ((aj_index job, sp), g (aj_waveform job)))"

lemma sort_job_plain:
  assumes "plain_job job"
  obtains outs' raws' where "sort_job (outs, raws, preps) job = (outs', raws', preps)"
    "mset outs' + mset (map (raw_job_outcome g) raws') =
     add_mset (job_outcome g job) (mset outs + mset (map (raw_job_outcome g) raws))"
  using assms that
  by (cases "aj_prepared job")
    (simp_all add: sort_job_def plain_job_def job_outcome_def take_prepared_def raw_job_outcome_def)

lemma foldl_sort_job:
  assumes "\<forall>job\<in>set jobs. plain_job job" "foldl sort_job (outs, raws, preps) jobs = (outs', raws', preps')"
  shows "preps' = preps \<and> mset outs' + mset (map (raw_job_outcome g) raws') =
    mset outs + mset (map (raw_job_outcome g) raws) + mset (map (job_outcome g) jobs)"
  using assms
proof (induction jobs arbitrary: outs raws)
  case (Cons job jobs)
  obtain o2 r2 where step: "sort_job (outs, raws, preps) job = (o2, r2, preps)"
    "mset o2 + mset (map (raw_job_outcome g) r2) =
     add_mset (job_outcome g job) (mset outs + mset (map (raw_job_outcome g) raws))"
    using sort_job_plain[of job outs raws preps g] Cons.prems(1) by (metis list.set_intros(1))
  have "foldl sort_job (o2, r2, preps) jobs = (outs', raws', preps')" using Cons.prems(2) step(1) by simp
  from Cons.IH[OF _ this] step(2) Cons.prems(1) show ?case by simp
qed simp

lemma run_raw_jobs_pointwise:
  assumes "pointwise p ao g"
  shows "run_raw_jobs p raws ao = Inr (map (raw_job_outcome g) raws)"
proof -
  have "map raw_outcome (zip (zip (map (\<lambda>(job, _). aj_index job) raws) (map snd raws)) (map g (map (\<lambda>(job, _). aj_waveform job) raws))) =
    map (raw_job_outcome g) raws"
    by (induction raws) (auto simp: raw_job_outcome_def)
  then show ?thesis using assms by (simp add: run_raw_jobs_def pointwise_def Let_def)
qed

lemma run_asr_jobs_batch_pointwise:
  assumes "pointwise p ao g" "\<forall>job\<in>set jobs. plain_job job"
  obtains outs where "run_asr_jobs_batch p jobs ao = Inr outs" "mset outs = mset (map (job_outcome g) jobs)"
proof -
  obtain o1 raws preps where f: "foldl sort_job ([], [], []) jobs = (o1, raws, preps)" by (cases "foldl sort_job ([], [], []) jobs") auto
  from foldl_sort_job[OF assms(2) f, of g] have "preps = []"
    "mset o1 + mset (map (raw_job_outcome g) raws) = mset (map (job_outcome g) jobs)"
    by simp_all
  then show ?thesis using that by (simp add: run_asr_jobs_batch_def f run_raw_jobs_pointwise[OF assms(1)] Let_def)
qed

lemma asr_jobs_of_outcomes:
  assumes "asr_jobs_of ms = (outs, jobs)" "\<forall>m\<in>set ms. \<not> is_segment m"
  shows "mset outs + mset (map (job_outcome g) jobs) = mset (concat (map (message_outcomes g) ms)) \<and>
    (\<forall>job\<in>set jobs. Inr (JobMessage job) \<in> set ms)"
  using assms
proof (induction ms arbitrary: outs jobs)
  case (Cons m ms)
  obtain o1 j1 where r: "asr_jobs_of ms = (o1, j1)" by fastforce
  show ?case using Cons.prems Cons.IH[OF r]
    by (cases m rule: is_segment.cases) (auto simp: r split: prod.splits)
qed simp

definition segment_batch ::
  "('f waveform \<Rightarrow> 'f timeline) \<Rightarrow> 'f segment_asr_state \<Rightarrow> 'f asr_segment_job list \<Rightarrow> 'f segment_asr_state \<times> 'f outcome list" where
  "segment_batch g state segs = foldl finish_segment (prepare_segment_job_state state segs, [])
     (map (\<lambda>s. ((sj_job_index s, sj_offset s), g (sj_waveform s))) segs)"

lemma segment_turn:
  assumes "pointwise p ao g" "segs \<noteq> []"
  shows "finish_segment_asr_batch (prepare_segment_job_state state segs) segs (run_segment_asr_inference p segs ao) =
    segment_batch g state segs"
proof -
  have "zip (map (\<lambda>s. (sj_job_index s, sj_offset s)) segs) (map g (map sj_waveform segs)) =
      map (\<lambda>s. ((sj_job_index s, sj_offset s), g (sj_waveform s))) segs"
    by (induction segs) auto
  then show ?thesis using assms
    by (simp add: finish_segment_asr_batch_def run_segment_asr_inference_def pointwise_def Let_def segment_batch_def)
qed

definition plain_message :: "'f stage_message \<Rightarrow> bool" where
  "plain_message m \<longleftrightarrow> (\<forall>job. m = Inr (JobMessage job) \<longrightarrow> plain_job job)"

lemma asr_turn_spec:
  assumes "pointwise p ao g" "\<forall>m\<in>#left pending rx. plain_message m"
    "asr_turn p ao n (state, pending, rx) = Some (out, state', pending', rx')"
  shows "(\<exists>B. B \<noteq> [] \<and> mset B + left pending' rx' = left pending rx \<and> (\<forall>m\<in>set B. \<not> is_segment m) \<and> state' = state \<and>
      mset out = mset (concat (map (message_outcomes g) B))) \<or>
    (\<exists>segs. segs \<noteq> [] \<and> mset (map seg_msg segs) + left pending' rx' = left pending rx \<and>
      (state', out) = segment_batch g state segs)"
proof -
  obtain m p1 r1 where r: "recv_asr_message pending rx = Some (m, p1, r1)"
    using assms(3) by (auto simp: asr_turn_def split: option.splits)
  note lr = recv_asr_message_left[OF r]
  show ?thesis
  proof (cases m rule: stage_message_cases)
    case (segment s)
    obtain segs p2 r2 where c: "collect_segment_microbatch s (max n 1) p1 r1 = (segs, p2, r2)" by (metis prod_cases3)
    note cl = collect_segment_microbatch_left[OF c]
    obtain st2 o2 where sb: "segment_batch g state segs = (st2, o2)" by fastforce
    have "out = o2 \<and> state' = st2 \<and> pending' = p2 \<and> rx' = r2"
      using assms(3) cl by (simp add: asr_turn_def r segment c segment_turn[OF assms(1)] sb del: One_nat_def)
    moreover have "mset (map seg_msg segs) + left p2 r2 = left pending rx" using lr cl unfolding segment by simp
    ultimately show ?thesis using sb cl by (intro disjI2 exI[of _ segs]) simp
  next
    case (outcome oc)
    then show ?thesis using assms(3) lr by (intro disjI1 exI[of _ "[m]"]) (auto simp: asr_turn_def r outcome)
  next
    case (job job)
    obtain ms p2 r2 where c: "collect_job_microbatch job (max n 1) p1 r1 = (ms, p2, r2)" by (metis prod_cases3)
    note cl = collect_job_microbatch_left[OF c]
    obtain outs jobs where j: "asr_jobs_of ms = (outs, jobs)" by fastforce
    note jo = asr_jobs_of_outcomes[OF j, of g]
    have sub: "set ms \<subseteq> set_mset (left pending rx)"
      using cl lr unfolding job by (metis set_mset_mset set_mset_union Un_upper1)
    have "\<forall>job\<in>set jobs. plain_job job"
      using jo cl sub assms(2) unfolding plain_message_def by blast
    then obtain res where res: "run_asr_jobs_batch p jobs ao = Inr res" "mset res = mset (map (job_outcome g) jobs)"
      using run_asr_jobs_batch_pointwise[OF assms(1)] by metis
    have "(out, state', pending', rx') = (if jobs = [] then outs else outs @ res, state, p2, r2)"
      using assms(3) res by (auto simp: asr_turn_def r job c j simp del: One_nat_def split: if_splits)
    moreover have "mset ms + left p2 r2 = left pending rx" using lr cl unfolding job by simp
    ultimately show ?thesis using jo cl res(2)
      by (intro disjI1 exI[of _ ms]) (auto split: if_splits)
  qed
qed

section \<open>The segments of one recording\<close>

definition fin_job ::
  "('f waveform \<Rightarrow> 'f timeline) \<Rightarrow> 'f asr_segment_job \<Rightarrow> 'f segment_job_state option \<Rightarrow> 'f segment_job_state option \<times> 'f outcome list" where
  "fin_job g s found =
    (case found of
       None \<Rightarrow> (None, [])
     | Some job \<Rightarrow>
        (let job = job\<lparr>js_timeline := extend_timeline (offset_annotations (tl_annotations (g (sj_waveform s))) (sj_offset s)) (js_timeline job),
               js_segments_done := saturating_add (js_segments_done job) 1\<rparr>
         in if js_segment_count job \<le> js_segments_done job
            then (None, [\<lparr>oc_index = js_index job, oc_result = Inr (js_timeline job), oc_bad_component = None\<rparr>])
            else (Some job, [])))"

fun fin_jobs ::
  "('f waveform \<Rightarrow> 'f timeline) \<Rightarrow> 'f asr_segment_job list \<Rightarrow> 'f segment_job_state option \<Rightarrow> 'f segment_job_state option \<times> 'f outcome list" where
  "fin_jobs g [] found = (found, [])"
| "fin_jobs g (s # segs) found =
    (let (found, new) = fin_job g s found; (found, rest) = fin_jobs g segs found in (found, new @ rest))"

definition prep_jobs :: "'f asr_segment_job list \<Rightarrow> 'f segment_job_state option \<Rightarrow> 'f segment_job_state option" where
  "prep_jobs segs found = foldl (\<lambda>found s. Some (segment_job_entry s found)) found segs"

definition states_wf :: "'f segment_asr_state \<Rightarrow> bool" where
  "states_wf state \<longleftrightarrow> (\<forall>j job. state j = Some job \<longrightarrow> js_index job = j)"

lemma finish_segment_eq:
  "finish_segment (state, completed) ((sj_job_index s, sj_offset s), g (sj_waveform s)) =
   (state(sj_job_index s := fst (fin_job g s (state (sj_job_index s)))),
    completed @ snd (fin_job g s (state (sj_job_index s))))"
  by (cases "state (sj_job_index s)")
    (auto simp: finish_segment_def fin_job_def Let_def fun_upd_triv fun_upd_idem_iff)

lemma entry_index: "js_index (segment_job_entry s found) = (case found of None \<Rightarrow> sj_job_index s | Some job \<Rightarrow> js_index job)"
  by (simp add: segment_job_entry_def Let_def split: option.split)

lemma fin_job_wf:
  assumes "fin_job g s found = (found', new)" "\<forall>job. found = Some job \<longrightarrow> js_index job = i"
  shows "(\<forall>job. found' = Some job \<longrightarrow> js_index job = i) \<and> (\<forall>oc\<in>set new. oc_index oc = i)"
  using assms by (auto simp: fin_job_def Let_def split: option.splits if_splits)

lemma prepare_project:
  "states_wf state \<Longrightarrow>
   prepare_segment_job_state state segs j = prep_jobs (filter (\<lambda>s. sj_job_index s = j) segs) (state j) \<and>
   states_wf (prepare_segment_job_state state segs)"
proof (induction segs arbitrary: state)
  case (Cons s segs)
  have wf: "states_wf (prepare_segment state s)"
    using Cons.prems by (auto simp: states_wf_def prepare_segment_def entry_index split: option.splits)
  have "prepare_segment_job_state state (s # segs) = prepare_segment_job_state (prepare_segment state s) segs"
    "prep_jobs (s # ss) found = prep_jobs ss (Some (segment_job_entry s found))" for ss found
    by (simp_all add: prepare_segment_job_state_def prep_jobs_def)
  moreover have "prepare_segment state s j = (if sj_job_index s = j then Some (segment_job_entry s (state j)) else state j)"
    by (auto simp: prepare_segment_def)
  ultimately show ?case using Cons.IH[OF wf] by simp
qed (simp add: prepare_segment_job_state_def prep_jobs_def)

lemma finish_project:
  assumes "states_wf state"
    "foldl finish_segment (state, completed) (map (\<lambda>s. ((sj_job_index s, sj_offset s), g (sj_waveform s))) segs) = (state', completed')"
  shows "states_wf state' \<and> state' j = fst (fin_jobs g (filter (\<lambda>s. sj_job_index s = j) segs) (state j)) \<and>
    filter (\<lambda>oc. oc_index oc = j) completed' =
    filter (\<lambda>oc. oc_index oc = j) completed @ snd (fin_jobs g (filter (\<lambda>s. sj_job_index s = j) segs) (state j))"
  using assms
proof (induction segs arbitrary: state completed)
  case (Cons s segs)
  define i where "i = sj_job_index s"
  obtain found new where f: "fin_job g s (state i) = (found, new)" by fastforce
  have w: "\<forall>job. state i = Some job \<longrightarrow> js_index job = i" using Cons.prems(1) by (simp add: states_wf_def)
  note fw = fin_job_wf[OF f w]
  have wf: "states_wf (state(i := found))" using Cons.prems(1) fw by (simp add: states_wf_def)
  have "foldl finish_segment (state(i := found), completed @ new)
      (map (\<lambda>s. ((sj_job_index s, sj_offset s), g (sj_waveform s))) segs) = (state', completed')"
    using Cons.prems(2) f by (simp add: finish_segment_eq i_def)
  note IH = Cons.IH[OF wf this]
  have "filter (\<lambda>oc. oc_index oc = j) new = (if i = j then new else [])"
    using fw by (auto simp: filter_id_conv filter_empty_conv)
  then show ?case using IH f by (auto simp: i_def[symmetric] split: prod.splits)
qed simp

lemma segment_batch_project:
  fixes j :: nat and segs :: "'f asr_segment_job list"
  assumes "states_wf state" "segment_batch g state segs = (state', out)"
  defines "mine \<equiv> filter (\<lambda>s. sj_job_index s = j) segs"
  shows "states_wf state' \<and> (state' j, filter (\<lambda>oc. oc_index oc = j) out) = fin_jobs g mine (prep_jobs mine (state j))"
proof -
  note pr = prepare_project[OF assms(1), of segs j]
  show ?thesis
    using finish_project[OF conjunct2[OF pr] assms(2)[unfolded segment_batch_def], of j] conjunct1[OF pr]
    unfolding mine_def by (simp add: prod_eq_iff)
qed

text \<open>What the recogniser says about a segment, on the time line of the recording.\<close>

definition seg_annotations :: "('f waveform \<Rightarrow> 'f timeline) \<Rightarrow> 'f asr_segment_job \<Rightarrow> 'f annotation list" where
  "seg_annotations g s = offset_annotations (tl_annotations (g (sj_waveform s))) (sj_offset s)"

definition content :: "('f waveform \<Rightarrow> 'f timeline) \<Rightarrow> 'f asr_segment_job multiset \<Rightarrow> 'f annotation multiset" where
  "content g D = \<Sum>\<^sub># (image_mset (\<lambda>s. mset (seg_annotations g s)) D)"

lemma content_simps [simp]:
  "content g {#} = {#}" "content g (add_mset s D) = mset (seg_annotations g s) + content g D"
  by (simp_all add: content_def)

text \<open>The annotations so far: those of the segments done, and all or none of the detected speech.\<close>

definition gathered ::
  "('f waveform \<Rightarrow> 'f timeline) \<Rightarrow> 'f annotation list \<Rightarrow> 'f asr_segment_job multiset \<Rightarrow> 'f annotation list \<Rightarrow> bool" where
  "gathered g sp D as \<longleftrightarrow> mset as = content g D \<or> mset as = mset sp + content g D"

definition job_progress ::
  "('f waveform \<Rightarrow> 'f timeline) \<Rightarrow> nat \<Rightarrow> 'f annotation list \<Rightarrow> nat \<Rightarrow> 'f asr_segment_job multiset \<Rightarrow> 'f segment_job_state \<Rightarrow> bool" where
  "job_progress g j sp k D job \<longleftrightarrow> js_index job = j \<and> js_segment_count job = k \<and> js_segments_done job = size D \<and>
     (js_speech_annotations job = [] \<or> js_speech_annotations job = sp) \<and>
     gathered g sp D (tl_annotations (js_timeline job))"

definition segment_of_job :: "nat \<Rightarrow> 'f annotation list \<Rightarrow> nat \<Rightarrow> 'f asr_segment_job \<Rightarrow> bool" where
  "segment_of_job j sp k s \<longleftrightarrow> sj_job_index s = j \<and> sj_segment_count s = k \<and>
     (sj_speech_annotations s = [] \<or> sj_speech_annotations s = sp)"

lemma entry_progress:
  assumes "segment_of_job j sp k s" "\<forall>job. found = Some job \<longrightarrow> job_progress g j sp k D job"
    "found = None \<longrightarrow> D = {#}"
  shows "job_progress g j sp k D (segment_job_entry s found)"
  using assms
  by (cases found)
    (auto simp: segment_of_job_def job_progress_def segment_job_entry_def Let_def gathered_def extend_timeline_def timeline_new_def)

lemma prep_jobs_progress:
  assumes "\<forall>s\<in>set segs. segment_of_job j sp k s" "\<forall>job. found = Some job \<longrightarrow> job_progress g j sp k D job"
    "found = None \<longrightarrow> D = {#}" "segs \<noteq> []"
  shows "\<exists>job. prep_jobs segs found = Some job \<and> job_progress g j sp k D job"
  using assms
proof (induction segs arbitrary: found)
  case (Cons s segs)
  have p: "job_progress g j sp k D (segment_job_entry s found)"
    using entry_progress[of j sp k s found g D] Cons.prems by simp
  show ?case
  proof (cases "segs = []")
    case True
    then show ?thesis using p by (simp add: prep_jobs_def)
  next
    case False
    then show ?thesis using Cons.IH[of "Some (segment_job_entry s found)"] Cons.prems(1) p
      by (simp add: prep_jobs_def)
  qed
qed simp

definition job_done ::
  "('f waveform \<Rightarrow> 'f timeline) \<Rightarrow> nat \<Rightarrow> 'f annotation list \<Rightarrow> 'f asr_segment_job multiset \<Rightarrow> 'f outcome \<Rightarrow> bool" where
  "job_done g j sp D oc \<longleftrightarrow> oc_index oc = j \<and> oc_bad_component oc = None \<and>
     (\<exists>t. oc_result oc = Inr t \<and> gathered g sp D (tl_annotations t))"

lemma gathered_extend:
  "gathered g sp D (tl_annotations t) \<Longrightarrow>
   gathered g sp (add_mset s D) (tl_annotations (extend_timeline (seg_annotations g s) t))"
  unfolding gathered_def by (elim disjE) (simp_all add: extend_timeline_def)

definition after_segment :: "('f waveform \<Rightarrow> 'f timeline) \<Rightarrow> 'f asr_segment_job \<Rightarrow> 'f segment_job_state \<Rightarrow> 'f segment_job_state" where
  "after_segment g s job = job\<lparr>js_timeline := extend_timeline (seg_annotations g s) (js_timeline job),
     js_segments_done := saturating_add (js_segments_done job) 1\<rparr>"

lemma fin_job_Some:
  "fin_job g s (Some job) =
    (if js_segment_count job \<le> js_segments_done (after_segment g s job)
     then (None, [\<lparr>oc_index = js_index job, oc_result = Inr (js_timeline (after_segment g s job)), oc_bad_component = None\<rparr>])
     else (Some (after_segment g s job), []))"
  by (simp add: fin_job_def after_segment_def seg_annotations_def Let_def)

lemma fin_job_progress:
  assumes "job_progress g j sp k D job" "size D < k" "k \<le> usize_max"
  shows "size D + 1 = k \<Longrightarrow> \<exists>oc. fin_job g s (Some job) = (None, [oc]) \<and> job_done g j sp (add_mset s D) oc"
    and "size D + 1 < k \<Longrightarrow> \<exists>job'. fin_job g s (Some job) = (Some job', []) \<and> job_progress g j sp k (add_mset s D) job'"
proof -
  have a: "js_segments_done (after_segment g s job) = size D + 1" "js_segment_count job = k" "js_index job = j"
    using assms by (simp_all add: job_progress_def after_segment_def saturating_add_def)
  have g: "gathered g sp (add_mset s D) (tl_annotations (js_timeline (after_segment g s job)))"
    using assms(1) by (auto simp: job_progress_def after_segment_def intro!: gathered_extend)
  have r: "js_index (after_segment g s job) = j" "js_segment_count (after_segment g s job) = k"
    "js_speech_annotations (after_segment g s job) = [] \<or> js_speech_annotations (after_segment g s job) = sp"
    using assms(1) by (simp_all add: job_progress_def after_segment_def)
  show "\<exists>oc. fin_job g s (Some job) = (None, [oc]) \<and> job_done g j sp (add_mset s D) oc" if "size D + 1 = k"
    using that g by (simp add: fin_job_Some a job_done_def)
  show "\<exists>job'. fin_job g s (Some job) = (Some job', []) \<and> job_progress g j sp k (add_mset s D) job'" if "size D + 1 < k"
    using that g a r by (simp add: fin_job_Some job_progress_def)
qed

lemma fin_jobs_progress:
  assumes "job_progress g j sp k D job" "size D + length segs \<le> k" "size D < k" "k \<le> usize_max" "segs \<noteq> []"
  shows "if size D + length segs = k
    then \<exists>oc. fin_jobs g segs (Some job) = (None, [oc]) \<and> job_done g j sp (mset segs + D) oc
    else \<exists>job'. fin_jobs g segs (Some job) = (Some job', []) \<and> job_progress g j sp k (mset segs + D) job'"
  using assms
proof (induction segs arbitrary: D job)
  case (Cons s segs)
  note st = fin_job_progress[OF Cons.prems(1,3,4), of s]
  show ?case
  proof (cases "segs = []")
    case True
    then show ?thesis using st Cons.prems(3) by (cases "size D + 1 = k") auto
  next
    case False
    then have lt: "size D + 1 < k" using Cons.prems(2) by (cases segs) auto
    then obtain job' where j: "fin_job g s (Some job) = (Some job', [])" "job_progress g j sp k (add_mset s D) job'"
      using st(2) by blast
    have "size (add_mset s D) + length segs \<le> k" "size (add_mset s D) < k" using Cons.prems(2) lt by simp_all
    note IH = Cons.IH[OF j(2) this Cons.prems(4) False]
    then show ?thesis using j(1) by (auto split: if_splits)
  qed
qed simp

end
