(* ===== verification/TranscribeResults.thy ===== *)
theory TranscribeResults
  imports TranscribeWorker
begin

text \<open>
  The parallel pipeline of \<^verbatim>\<open>vasr-transcribe/src/pipeline.rs\<close> against the sequential one of
  \<^verbatim>\<open>vasr-runtime/src/pipeline/mod.rs\<close>: what the worker sends for one recording, the deduplication
  of inputs, and the two together.
\<close>

section \<open>One recording\<close>

fun msg_index :: "'f stage_message \<Rightarrow> nat" where
  "msg_index (Inl oc) = oc_index oc"
| "msg_index (Inr (JobMessage job)) = aj_index job"
| "msg_index (Inr (SegmentMessage s)) = sj_job_index s"

definition mine :: "nat \<Rightarrow> 'f stage_message multiset \<Rightarrow> 'f stage_message multiset" where
  "mine j M = filter_mset (\<lambda>m. msg_index m = j) M"

definition sent :: "nat \<Rightarrow> 'f outcome list \<Rightarrow> 'f outcome list" where
  "sent j outs = filter (\<lambda>oc. oc_index oc = j) outs"

lemma mine_simps [simp]: "mine j {#} = {#}" "mine j (M + N) = mine j M + mine j N"
  by (simp_all add: mine_def)

lemma sent_append [simp]: "sent j (xs @ ys) = sent j xs @ sent j ys" "sent j [] = []"
  by (simp_all add: sent_def)

lemma job_outcome_index: "oc_index (job_outcome g job) = aj_index job"
  by (simp add: job_outcome_def raw_outcome_def split: vad_preparation.split)

lemma message_outcomes_index: "oc \<in> set (message_outcomes g m) \<Longrightarrow> oc_index oc = msg_index m"
  by (cases m rule: msg_index.cases) (auto simp: job_outcome_index)

lemma sent_message_outcomes:
  "sent j (concat (map (message_outcomes g) B)) = concat (map (message_outcomes g) (filter (\<lambda>m. msg_index m = j) B))"
proof (induction B)
  case (Cons m B)
  have "sent j (message_outcomes g m) = (if msg_index m = j then message_outcomes g m else [])"
    using message_outcomes_index[of _ g m] unfolding sent_def
    by (auto simp: filter_id_conv filter_empty_conv)
  then show ?case using Cons by simp
qed simp

lemma mset_sent: "mset xs = mset ys \<Longrightarrow> mset (sent j xs) = mset (sent j ys)"
  unfolding sent_def by simp

text \<open>What may wait for a worker: no job with a speech preparation, and one message of a recording that is
  not cut into segments.\<close>

definition waiting_ok :: "'f stage_message multiset \<Rightarrow> bool" where
  "waiting_ok M \<longleftrightarrow> (\<forall>m\<in>#M. plain_message m) \<and>
     (\<forall>i. size (filter_mset (\<lambda>m. \<not> is_segment m \<and> msg_index m = i) M) \<le> 1)"

lemma waiting_ok_subset: "waiting_ok M \<Longrightarrow> N \<subseteq># M \<Longrightarrow> waiting_ok N"
  unfolding waiting_ok_def by (meson le_trans mset_subset_eqD multiset_filter_mono size_mset_mono)

definition worker_ok :: "'f segment_asr_state \<Rightarrow> 'f stage_message multiset \<Rightarrow> bool" where
  "worker_ok state M \<longleftrightarrow> states_wf state \<and> waiting_ok M"

lemma mine_segments: "mine j (mset (map seg_msg segs)) = mset (map seg_msg (filter (\<lambda>s. sj_job_index s = j) segs))"
  by (induction segs) (simp_all add: mine_def)

lemma seg_msg_subset:
  assumes "image_mset seg_msg A \<subseteq># image_mset seg_msg B"
  shows "A \<subseteq># B"
proof -
  define un :: "'a stage_message \<Rightarrow> 'a asr_segment_job" where
    "un m = (case m of Inr (SegmentMessage s) \<Rightarrow> s | _ \<Rightarrow> undefined)" for m
  have "image_mset un (image_mset seg_msg M) = M" for M by (induction M) (simp_all add: un_def)
  then show ?thesis using image_mset_subseteq_mono[OF assms, of un] by simp
qed

text \<open>A recording that reaches the worker in one message: the message is waiting or its outcome has been sent.\<close>

definition one_message ::
  "('f waveform \<Rightarrow> 'f timeline) \<Rightarrow> nat \<Rightarrow> 'f stage_message \<Rightarrow> 'f segment_asr_state \<Rightarrow> 'f stage_message multiset \<Rightarrow> 'f outcome list \<Rightarrow> bool" where
  "one_message g j m0 state M outs \<longleftrightarrow> worker_ok state M \<and> state j = None \<and>
     (mine j M = {#m0#} \<and> sent j outs = [] \<or> mine j M = {#} \<and> sent j outs = message_outcomes g m0)"

text \<open>A recording that is cut into segments: some are done and the rest waits.\<close>

definition segmented ::
  "('f waveform \<Rightarrow> 'f timeline) \<Rightarrow> nat \<Rightarrow> 'f annotation list \<Rightarrow> 'f asr_segment_job list \<Rightarrow>
    'f segment_asr_state \<Rightarrow> 'f stage_message multiset \<Rightarrow> 'f outcome list \<Rightarrow> bool" where
  "segmented g j sp S state M outs \<longleftrightarrow> worker_ok state M \<and>
     (\<exists>D R. D + R = mset S \<and> mine j M = image_mset seg_msg R \<and>
        (D = {#} \<and> state j = None \<and> sent j outs = [] \<or>
         R \<noteq> {#} \<and> (\<exists>job. state j = Some job \<and> job_progress g j sp (length S) D job) \<and> sent j outs = [] \<or>
         R = {#} \<and> state j = None \<and> (\<exists>oc. sent j outs = [oc] \<and> job_done g j sp D oc)))"

lemma segmented_batch:
  assumes "\<forall>s\<in>set S. segment_of_job j sp (length S) s" "length S \<le> usize_max"
    "D + R = mset S" "mset segs + R' = R" "segs \<noteq> []"
    "found = None \<and> D = {#} \<or> (\<exists>job. found = Some job \<and> job_progress g j sp (length S) D job)"
    "(found', new) = fin_jobs g segs (prep_jobs segs found)"
  shows "if R' = {#} then found' = None \<and> (\<exists>oc. new = [oc] \<and> job_done g j sp (mset segs + D) oc)
    else \<exists>job. found' = Some job \<and> new = [] \<and> job_progress g j sp (length S) (mset segs + D) job"
proof -
  have sz: "size D + length segs + size R' = length S"
    using arg_cong[OF assms(3), of size] unfolding assms(4)[symmetric] by simp
  have "set segs \<subseteq> set S"
    using assms(3) unfolding assms(4)[symmetric] by (metis set_mset_mset set_mset_union Un_upper1 Un_upper2 subset_trans)
  then have "\<forall>s\<in>set segs. segment_of_job j sp (length S) s" using assms(1) by blast
  then obtain job where job: "prep_jobs segs found = Some job" "job_progress g j sp (length S) D job"
    using prep_jobs_progress[of segs j sp "length S" found g D] assms(5,6) by auto
  have lt: "size D < length S" using sz assms(5) by (cases segs) auto
  show ?thesis
    using fin_jobs_progress[OF job(2) _ lt assms(2,5)] sz assms(7) unfolding job(1)
    by (cases "R' = {#}") (auto simp: nonempty_has_size)
qed

text \<open>
  The contract of a worker, which both pipelines keep: a turn takes a batch of messages, either of segments, which
  it recognises and adds to the state of their recordings, or of anything else, whose outcomes it sends.
\<close>

locale segment_worker =
  fixes p :: "'f offline_pipeline" and ao :: "'f asr_options" and g :: "'f waveform \<Rightarrow> 'f timeline"
    and turn :: "'s \<Rightarrow> ('f outcome list \<times> 's) option"
    and work :: "'s \<Rightarrow> 'f outcome list"
    and states :: "'s \<Rightarrow> 'f segment_asr_state"
    and rest :: "'s \<Rightarrow> 'f stage_message multiset"
  assumes work_eq: "work s = (case turn s of None \<Rightarrow> [] | Some (out, s') \<Rightarrow> out @ work s')"
    and turn_end: "turn s = None \<Longrightarrow> rest s = {#}"
    and turn_batch: "pointwise p ao g \<Longrightarrow> waiting_ok (rest s) \<Longrightarrow> turn s = Some (out, s') \<Longrightarrow>
      (\<exists>B. B \<noteq> [] \<and> mset B + rest s' = rest s \<and> (\<forall>m\<in>set B. \<not> is_segment m) \<and> states s' = states s \<and>
        mset out = mset (concat (map (message_outcomes g) B))) \<or>
      (\<exists>segs. segs \<noteq> [] \<and> mset (map seg_msg segs) + rest s' = rest s \<and> (states s', out) = segment_batch g (states s) segs)"
begin

lemma turn_less:
  assumes "pointwise p ao g" "waiting_ok (rest s)" "turn s = Some (out, s')"
  shows "size (rest s') < size (rest s)"
  using turn_batch[OF assms]
proof (elim disjE exE conjE)
  fix B assume B: "B \<noteq> []" "mset B + rest s' = rest s"
  show ?thesis using arg_cong[OF B(2), of size] B(1) by (cases B) auto
next
  fix segs assume S: "segs \<noteq> []" "mset (map seg_msg segs) + rest s' = rest s"
  show ?thesis using arg_cong[OF S(2), of size] S(1) by (cases segs) auto
qed

lemma turn_project:
  assumes pw: "pointwise p ao g" and hyps: "worker_ok (states s) (rest s)" "turn s = Some (out, s')"
  shows "worker_ok (states s') (rest s') \<and>
    ((\<exists>B. mine j (rest s) = mset B + mine j (rest s') \<and> (\<forall>m\<in>set B. \<not> is_segment m) \<and>
        states s' j = states s j \<and> mset (sent j out) = mset (concat (map (message_outcomes g) B))) \<or>
     (\<exists>segs. mine j (rest s) = mset (map seg_msg segs) + mine j (rest s') \<and>
        (states s' j, sent j out) = fin_jobs g segs (prep_jobs segs (states s j))))"
proof -
  have wf: "states_wf (states s)" "waiting_ok (rest s)" using hyps(1) by (simp_all add: worker_ok_def)
  have keep: "worker_ok st (rest s')" if "states_wf st" "rest s = M + rest s'" for st M
    using that waiting_ok_subset[OF wf(2), of "rest s'"] by (simp add: worker_ok_def)
  from turn_batch[OF pw wf(2) hyps(2)] show ?thesis
  proof (elim disjE exE conjE)
    fix B assume B: "mset B + rest s' = rest s" "\<forall>m\<in>set B. \<not> is_segment m" "states s' = states s"
      "mset out = mset (concat (map (message_outcomes g) B))"
    have "mine j (rest s) = mset (filter (\<lambda>m. msg_index m = j) B) + mine j (rest s')"
      by (simp add: B(1)[symmetric]) (simp add: mine_def)
    then show ?thesis
      using B(2,3) keep[OF wf(1) B(1)[symmetric]] mset_sent[OF B(4), of j]
      by (intro conjI disjI1 exI[of _ "filter (\<lambda>m. msg_index m = j) B"]) (simp_all add: sent_message_outcomes)
  next
    fix segs assume S: "mset (map seg_msg segs) + rest s' = rest s" "(states s', out) = segment_batch g (states s) segs"
    note bp = segment_batch_project[OF wf(1) S(2)[symmetric], of j, folded sent_def]
    have "mine j (rest s) = mset (map seg_msg (filter (\<lambda>s. sj_job_index s = j) segs)) + mine j (rest s')"
      by (simp only: S(1)[symmetric] mine_simps mine_segments)
    then show ?thesis
      using bp keep[OF _ S(1)[symmetric], of "states s'"]
      by (intro conjI disjI2 exI[of _ "filter (\<lambda>s. sj_job_index s = j) segs"]) simp_all
  qed
qed

text \<open>What every turn keeps holds of all that is sent once nothing is waiting.\<close>

lemma work_invariant:
  assumes pw: "pointwise p ao g"
    and hyps: "I (states s) (rest s) outs" "\<And>st M outs. I st M outs \<Longrightarrow> worker_ok st M"
    "\<And>s out s' outs. I (states s) (rest s) outs \<Longrightarrow> turn s = Some (out, s') \<Longrightarrow> I (states s') (rest s') (outs @ out)"
  shows "\<exists>st. I st {#} (outs @ work s)"
  using hyps(1)
proof (induction "size (rest s)" arbitrary: s outs rule: less_induct)
  case less
  show ?case
  proof (cases "turn s")
    case None
    then show ?thesis using less.prems turn_end[OF None] by (subst work_eq) auto
  next
    case (Some r)
    obtain out s2 where r: "r = (out, s2)" by (cases r)
    have "waiting_ok (rest s)" using hyps(2)[OF less.prems] by (simp add: worker_ok_def)
    then have "size (rest s2) < size (rest s)" using turn_less[OF pw] Some r by blast
    from less.hyps[OF this hyps(3)[OF less.prems]] show ?thesis
      using Some r by (subst work_eq) simp
  qed
qed

lemma one_message_turn:
  assumes pw: "pointwise p ao g" and hyps: "\<not> is_segment m0" "one_message g j m0 (states s) (rest s) outs" "turn s = Some (out, s')"
  shows "one_message g j m0 (states s') (rest s') (outs @ out)"
proof -
  have I: "worker_ok (states s) (rest s)" "states s j = None"
    "mine j (rest s) = {#m0#} \<and> sent j outs = [] \<or> mine j (rest s) = {#} \<and> sent j outs = message_outcomes g m0"
    using hyps(2) by (simp_all add: one_message_def)
  note tp = turn_project[OF pw I(1) hyps(3), of j]
  from conjunct2[OF tp] show ?thesis
  proof (elim disjE exE conjE)
    fix B assume B: "mine j (rest s) = mset B + mine j (rest s')" "states s' j = states s j"
      "mset (sent j out) = mset (concat (map (message_outcomes g) B))"
    have "B = [] \<or> B = [m0] \<and> mine j (rest s') = {#} \<and> mine j (rest s) = {#m0#}"
      using I(3) B(1) by (cases B) auto
    moreover have "length (message_outcomes g m0) \<le> 1" by (cases m0 rule: msg_index.cases) auto
    then have "mset xs = mset (message_outcomes g m0) \<Longrightarrow> xs = message_outcomes g m0" for xs
      by (cases "message_outcomes g m0") auto
    ultimately show ?thesis
      using B I conjunct1[OF tp] unfolding one_message_def by (cases "B = []") auto
  next
    fix segs assume S: "mine j (rest s) = mset (map seg_msg segs) + mine j (rest s')"
      "(states s' j, sent j out) = fin_jobs g segs (prep_jobs segs (states s j))"
    have "segs = []"
      using I(3) S(1) hyps(1) by (cases segs) (auto simp: single_is_union)
    then show ?thesis
      using S I conjunct1[OF tp] unfolding one_message_def by (simp add: prep_jobs_def)
  qed
qed

lemma one_message_sent:
  assumes pw: "pointwise p ao g" and hyps: "\<not> is_segment m0" "worker_ok (states s) (rest s)" "states s j = None" "mine j (rest s) = {#m0#}"
  shows "sent j (work s) = message_outcomes g m0"
proof -
  have "one_message g j m0 (states s) (rest s) []" using hyps(2-4) by (simp add: one_message_def)
  then have "\<exists>st. one_message g j m0 st {#} ([] @ work s)"
    by (rule work_invariant[OF pw]) (simp add: one_message_def, erule (1) one_message_turn[OF pw hyps(1)])
  then show ?thesis by (auto simp: one_message_def)
qed

lemma segmented_turn:
  assumes pw: "pointwise p ao g" and hyps: "\<forall>s\<in>set S. segment_of_job j sp (length S) s" "length S \<le> usize_max"
    "segmented g j sp S (states s) (rest s) outs" "turn s = Some (out, s')"
  shows "segmented g j sp S (states s') (rest s') (outs @ out)"
proof -
  have ok: "worker_ok (states s) (rest s)" using hyps(3) by (simp add: segmented_def)
  obtain D R where I: "D + R = mset S" "mine j (rest s) = image_mset seg_msg R"
    "D = {#} \<and> states s j = None \<and> sent j outs = [] \<or>
     R \<noteq> {#} \<and> (\<exists>job. states s j = Some job \<and> job_progress g j sp (length S) D job) \<and> sent j outs = [] \<or>
     R = {#} \<and> states s j = None \<and> (\<exists>oc. sent j outs = [oc] \<and> job_done g j sp D oc)"
    using hyps(3) unfolding segmented_def by blast
  note tp = turn_project[OF pw ok hyps(4), of j]
  have none: "segmented g j sp S (states s') (rest s') (outs @ out)"
    if "mine j (rest s') = image_mset seg_msg R" "states s' j = states s j" "sent j out = []"
    using that I conjunct1[OF tp] unfolding segmented_def sent_append by (intro conjI exI[of _ D] exI[of _ R]) auto
  from conjunct2[OF tp] show ?thesis
  proof (elim disjE exE conjE)
    fix B assume B: "mine j (rest s) = mset B + mine j (rest s')" "\<forall>m\<in>set B. \<not> is_segment m"
      "states s' j = states s j" "mset (sent j out) = mset (concat (map (message_outcomes g) B))"
    have "set B \<subseteq> set_mset (image_mset seg_msg R)"
      using B(1) I(2) by (metis set_mset_mset set_mset_union Un_upper1)
    then have "B = []" using B(2) by (cases B) auto
    then show ?thesis using none B I(2) by simp
  next
    fix segs assume S: "mine j (rest s) = mset (map seg_msg segs) + mine j (rest s')"
      "(states s' j, sent j out) = fin_jobs g segs (prep_jobs segs (states s j))"
    show ?thesis
    proof (cases "segs = []")
      case True
      then show ?thesis using none S I(2) by (simp add: prep_jobs_def)
    next
      case False
      obtain R' where R': "mset segs + R' = R" "mine j (rest s') = image_mset seg_msg R'"
      proof -
        have "image_mset seg_msg (mset segs) \<subseteq># image_mset seg_msg R" using S(1) I(2) by simp
        then have sub: "mset segs \<subseteq># R" by (rule seg_msg_subset)
        show thesis
          by (rule that[of "R - mset segs"]) (use sub S(1) I(2) in \<open>auto simp: image_mset_Diff\<close>)
      qed
      have "R \<noteq> {#}" using R'(1) False by auto
      then have I': "states s j = None \<and> D = {#} \<or> (\<exists>job. states s j = Some job \<and> job_progress g j sp (length S) D job)"
        "sent j outs = []" using I(3) by auto
      note sb = segmented_batch[OF hyps(1,2) I(1) R'(1) False I'(1) S(2)]
      show ?thesis
        unfolding segmented_def
        using sb conjunct1[OF tp] R'(2) I(1) I'(2)
        by (intro conjI exI[of _ "mset segs + D"] exI[of _ R']) (auto simp: R'(1)[symmetric] ac_simps split: if_splits)
    qed
  qed
qed

lemma segmented_sent:
  assumes pw: "pointwise p ao g" and hyps: "\<forall>s\<in>set S. segment_of_job j sp (length S) s" "length S \<le> usize_max" "S \<noteq> []"
    "worker_ok (states s) (rest s)" "states s j = None" "mine j (rest s) = mset (map seg_msg S)"
  shows "\<exists>oc. sent j (work s) = [oc] \<and> job_done g j sp (mset S) oc"
proof -
  have "segmented g j sp S (states s) (rest s) []"
    unfolding segmented_def using hyps(4-6) by (intro conjI exI[of _ "{#}"] exI[of _ "mset S"]) auto
  then have "\<exists>st. segmented g j sp S st {#} ([] @ work s)"
    by (rule work_invariant[OF pw]) (simp add: segmented_def, erule (1) segmented_turn[OF pw hyps(1,2)])
  then show ?thesis using hyps(3) by (auto simp: segmented_def mine_def)
qed

lemma nothing_sent:
  assumes pw: "pointwise p ao g" and hyps: "worker_ok (states s) (rest s)" "states s j = None" "mine j (rest s) = {#}"
  shows "sent j (work s) = []"
proof -
  define I :: "'f segment_asr_state \<Rightarrow> 'f stage_message multiset \<Rightarrow> 'f outcome list \<Rightarrow> bool" where
    "I = (\<lambda>st M outs. worker_ok st M \<and> st j = None \<and> mine j M = {#} \<and> sent j outs = [])"
  have step: "I (states s') (rest s') (outs @ out)" if I: "I (states s) (rest s) outs" and t: "turn s = Some (out, s')"
    for s outs out s'
  proof -
    have ok: "worker_ok (states s) (rest s)" using I by (simp add: I_def)
    from turn_project[OF pw ok t, of j] I show ?thesis by (auto simp: I_def prep_jobs_def)
  qed
  have "I (states s) (rest s) []" using hyps by (simp add: I_def)
  then have "\<exists>st. I st {#} ([] @ work s)"
    by (rule work_invariant[OF pw]) (simp add: I_def, erule (1) step)
  then show ?thesis by (auto simp: I_def)
qed

end

lemma turn_None: "asr_turn p ao n (state, pending, rx) = None \<Longrightarrow> left pending rx = {#}"
  by (auto simp: asr_turn_def recv_asr_message_None Let_def split: option.splits sum.splits asr_message.splits prod.splits if_splits)

text \<open>The worker of the parallel pipeline keeps the contract.\<close>

definition waiting :: "'f worker_state \<Rightarrow> 'f stage_message multiset" where
  "waiting = (\<lambda>(state, pending, rx). left pending rx)"

interpretation parallel: segment_worker p ao g "asr_turn p ao n" "asr_worker p ao n" fst waiting
proof
  show "asr_worker p ao n s = (case asr_turn p ao n s of None \<Rightarrow> [] | Some (out, s') \<Rightarrow> out @ asr_worker p ao n s')" for s
    by (rule asr_worker.simps)
  show "waiting s = {#}" if "asr_turn p ao n s = None" for s :: "'a worker_state"
    using that turn_None by (cases s) (auto simp: waiting_def)
  fix s s' :: "'a worker_state" and out
  assume "pointwise p ao g" "waiting_ok (waiting s)" "asr_turn p ao n s = Some (out, s')"
  then show "(\<exists>B. B \<noteq> [] \<and> mset B + waiting s' = waiting s \<and> (\<forall>m\<in>set B. \<not> is_segment m) \<and> fst s' = fst s \<and>
        mset out = mset (concat (map (message_outcomes g) B))) \<or>
      (\<exists>segs. segs \<noteq> [] \<and> mset (map seg_msg segs) + waiting s' = waiting s \<and> (fst s', out) = segment_batch g (fst s) segs)"
    using asr_turn_spec[of p ao g "fst (snd s)" "snd (snd s)" n "fst s" out "fst s'" "fst (snd s')" "snd (snd s')"]
    by (simp add: waiting_def waiting_ok_def split_beta)
qed

section \<open>The sequential transcription\<close>

definition same_up_to_speech :: "'f annotation list \<Rightarrow> 'f annotation list \<Rightarrow> bool" where
  "same_up_to_speech as bs \<longleftrightarrow> mset as = mset bs \<or>
     (\<exists>sp. (\<forall>a\<in>set sp. an_payload a = annotation_payload.Speech) \<and> mset as + mset sp = mset bs)"

lemma same_up_to_speech_refl [simp]: "same_up_to_speech as as"
  by (simp add: same_up_to_speech_def)

text \<open>The transcript depends on the final segments only, in the order of their starts.\<close>

definition same_timeline :: "'f timeline \<Rightarrow> 'f timeline \<Rightarrow> bool" where
  "same_timeline t t' \<longleftrightarrow> same_up_to_speech (tl_annotations t) (tl_annotations t') \<and>
     (inj_on fst (set (final_segments (tl_annotations t'))) \<longrightarrow> transcript_of t = transcript_of t')"

lemma final_segments_speech: "\<forall>a\<in>set sp. an_payload a = annotation_payload.Speech \<Longrightarrow> final_segments sp = []"
  by (induction sp) (auto simp: final_segments_def)

lemma final_segments_append: "final_segments (as @ bs) = final_segments as @ final_segments bs"
  by (simp add: final_segments_def map_filter_def)

lemma transcript_of_sorted:
  "sort_key fst (final_segments (tl_annotations t)) = sort_key fst (final_segments (tl_annotations t')) \<Longrightarrow>
   transcript_of t = transcript_of t'"
  by (simp add: transcript_of_def final_segments_def Let_def)

lemma same_timelineI:
  assumes "same_up_to_speech (tl_annotations t) (tl_annotations t')"
  shows "same_timeline t t'"
proof -
  obtain sp where sp: "\<forall>a\<in>set sp. an_payload a = annotation_payload.Speech"
    "mset (tl_annotations t @ sp) = mset (tl_annotations t')"
    using assms unfolding same_up_to_speech_def by (auto intro: that[of "[]"])
  have "mset (final_segments (tl_annotations t)) = mset (final_segments (tl_annotations t'))"
    using final_segments_mset[OF sp(2)] by (simp add: final_segments_append final_segments_speech[OF sp(1)])
  then show ?thesis
    using assms sort_key_unique[of "final_segments (tl_annotations t)" "final_segments (tl_annotations t')" fst]
    unfolding same_timeline_def by (metis mset_eq_setD transcript_of_sorted)
qed

lemma same_timeline_annotations [simp]: "tl_annotations t = tl_annotations t' \<Longrightarrow> same_timeline t t'"
  by (rule same_timelineI) simp

definition agrees :: "'f outcome \<Rightarrow> 'f outcome \<Rightarrow> bool" where
  "agrees oc oc' \<longleftrightarrow> oc_index oc = oc_index oc' \<and>
     (case (oc_result oc, oc_result oc') of
        (Inl e, Inl e') \<Rightarrow> e = e'
      | (Inr t, Inr t') \<Rightarrow> same_timeline t t'
      | _ \<Rightarrow> False)"

lemma agrees_Inr:
  "oc_index oc = i \<Longrightarrow> oc_result oc = Inr t \<Longrightarrow> same_up_to_speech (tl_annotations t) (tl_annotations t') \<Longrightarrow>
   agrees oc (outcome_from_result i (Inr t'))"
  by (simp add: agrees_def outcome_from_result_def same_timelineI)

lemma prepare_vad_stage_speech:
  assumes "prepare_vad_stage F p w vo = Inr (SpeechPrep q)"
  shows "length (vp_slices q) = length (vp_segments q) \<and> vp_segments q \<noteq> [] \<and>
    (\<forall>a\<in>set (vp_speech_annotations q). an_payload a = annotation_payload.Speech)"
proof -
  obtain detect where vad: "op_vad p = Some detect" using assms by (cases "op_vad p") (auto simp: prepare_vad_stage_def)
  obtain segs where segs: "detect w vo = Inr segs" "segs \<noteq> []"
    using assms vad by (auto simp: prepare_vad_stage_def split: if_splits)
  define ms where "ms = merge_vad_segments_for_asr F segs (vo_merge_max_gap_ms vo) (vo_merge_max_segment_ms vo)"
  have "ms \<noteq> []"
    using merge_vad_segments_merged[of "vo_merge_max_segment_ms vo" segs F "vo_merge_max_gap_ms vo"] segs(2)
    unfolding ms_def[symmetric] merged_of_def by (cases segs) auto
  then show ?thesis
    using assms vad segs
    by (auto simp: prepare_vad_stage_def Let_def ms_def[symmetric] speech_annotation_def annotation_new_def traverse_length
        split: if_splits)
qed

lemma foldl_append_annotations:
  "foldl (\<lambda>as (segment, t). as @ f segment t) as xs = as @ concat (map (\<lambda>(segment, t). f segment t) xs)"
  by (induction xs arbitrary: as) auto

lemma speech_segments:
  fixes q :: "'f vad_prepared"
  assumes "length (vp_slices q) = length (vp_segments q)"
  obtains S where "speech_job_to_segments \<lparr>aj_index = j, aj_prepared = SpeechPrep q, aj_waveform = w\<rparr> = Inr S"
    "length S = length (vp_segments q)" "\<forall>s\<in>set S. segment_of_job j (vp_speech_annotations q) (length S) s"
    "\<And>g. content g (mset S) = mset (concat (map (\<lambda>(segment, t). offset_annotations (tl_annotations t) (tr_start (vs_range segment)))
       (zip (vp_segments q) (map g (vp_slices q)))))"
proof -
  define k where "k = length (vp_segments q)"
  define mk :: "nat \<times> 'f vad_segment \<times> 'f waveform \<Rightarrow> 'f asr_segment_job" where
    "mk = (\<lambda>(segment_index, segment, waveform).
      \<lparr>sj_job_index = j, sj_speech_annotations = (if segment_index = 0 then vp_speech_annotations q else []),
       sj_segment_index = segment_index, sj_segment_count = k, sj_offset = tr_start (vs_range segment), sj_waveform = waveform\<rparr>)"
  define S where "S = map mk (zip [0..<k] (zip (vp_segments q) (vp_slices q)))"
  have "content g (mset (map mk (zip [n..<n + length xs] (zip xs ws)))) =
     mset (concat (map (\<lambda>(segment, t). offset_annotations (tl_annotations t) (tr_start (vs_range segment))) (zip xs (map g ws))))"
    if "length xs = length ws" for g n xs ws
    using that
  proof (induction xs ws arbitrary: n rule: list_induct2)
    case (Cons x xs w ws)
    have "[n..<n + length (x # xs)] = n # [Suc n..<Suc n + length xs]" by (subst upt_rec) simp
    then show ?case using Cons.IH[of "Suc n"] by (simp add: mk_def seg_annotations_def)
  qed simp
  from this[of "vp_segments q" "vp_slices q" _ 0] assms
  show thesis
    by (intro that[of S])
      (auto simp: speech_job_to_segments_def S_def mk_def k_def segment_of_job_def dest!: set_zip_leftD)
qed

lemma gathered_same:
  assumes "gathered g sp D as" "\<forall>a\<in>set sp. an_payload a = annotation_payload.Speech" "mset bs = mset sp + content g D"
  shows "same_up_to_speech as bs"
  using assms unfolding gathered_def same_up_to_speech_def by (metis add.commute)

definition stage_input ::
  "'f f32_ops \<Rightarrow> 'f offline_pipeline \<Rightarrow> 'f asr_options \<Rightarrow> 'f vad_options \<Rightarrow> ('f audio_source \<Rightarrow> 'f waveform result) \<Rightarrow>
   ('f waveform \<Rightarrow> 'f timeline) \<Rightarrow> 'f transcribe_input \<Rightarrow> bool" where
  "stage_input F p ao vo load g input \<longleftrightarrow>
    (\<exists>m. input_messages F p vo load input = [m] \<and> \<not> is_segment m \<and> plain_message m \<and> msg_index m = ti_index input \<and>
       (\<exists>oc. message_outcomes g m = [oc] \<and> agrees oc (transcribe_single F p ao vo load input))) \<or>
    (\<exists>S sp. input_messages F p vo load input = map seg_msg S \<and> S \<noteq> [] \<and>
       (\<forall>s\<in>set S. segment_of_job (ti_index input) sp (length S) s) \<and>
       (\<forall>oc. job_done g (ti_index input) sp (mset S) oc \<longrightarrow> agrees oc (transcribe_single F p ao vo load input)))"

lemma single_outcome_result:
  "load (ti_source input) = Inr w \<Longrightarrow>
   transcribe_single F p ao vo load input = outcome_from_result (ti_index input) (transcribe_with_vad_options F p w ao vo)"
  by (simp add: transcribe_single_def)

lemma speech_input:
  assumes pw: "pointwise p ao g" and w: "load (ti_source input) = Inr w"
    and prep: "prepare_vad_stage F p w vo = Inr (SpeechPrep q)"
  shows "stage_input F p ao vo load g input"
proof -
  note q = prepare_vad_stage_speech[OF prep]
  have "length (vp_slices q) = length (vp_segments q)" using q by simp
  from speech_segments[OF this, of "ti_index input" w] obtain S where S:
    "speech_job_to_segments \<lparr>aj_index = ti_index input, aj_prepared = SpeechPrep q, aj_waveform = w\<rparr> = Inr S"
    "length S = length (vp_segments q)" "\<forall>s\<in>set S. segment_of_job (ti_index input) (vp_speech_annotations q) (length S) s"
    "\<And>g. content g (mset S) = mset (concat (map (\<lambda>(segment, t). offset_annotations (tl_annotations t) (tr_start (vs_range segment)))
       (zip (vp_segments q) (map g (vp_slices q)))))" by metis
  define t where "t = (timeline_new (lit ''offline_audio''))\<lparr>tl_annotations := vp_speech_annotations q @
    concat (map (\<lambda>(segment, t). offset_annotations (tl_annotations t) (tr_start (vs_range segment))) (zip (vp_segments q) (map g (vp_slices q))))\<rparr>"
  have seq: "transcribe_with_vad_options F p w ao vo = Inr t"
    using pw by (simp add: transcribe_with_vad_options_def prep transcribe_prepared_def pointwise_def Let_def
        foldl_append_annotations t_def timeline_new_def)
  have "input_messages F p vo load input = map seg_msg S"
    by (simp add: input_messages_def w vad_task_messages_def prep S(1))
  moreover have "S \<noteq> []" using S(2) q by auto
  moreover have "agrees oc (transcribe_single F p ao vo load input)"
    if "job_done g (ti_index input) (vp_speech_annotations q) (mset S) oc" for oc
  proof -
    from that obtain t' where t': "oc_index oc = ti_index input" "oc_result oc = Inr t'"
      "gathered g (vp_speech_annotations q) (mset S) (tl_annotations t')"
      unfolding job_done_def by blast
    have "same_up_to_speech (tl_annotations t') (tl_annotations t)"
      by (rule gathered_same[OF t'(3)]) (use q S(4)[of g] in \<open>simp_all add: t_def\<close>)
    then show ?thesis unfolding single_outcome_result[where load = load, OF w] seq by (rule agrees_Inr[OF t'(1,2)])
  qed
  ultimately show ?thesis using S(3) unfolding stage_input_def by blast
qed

lemma input_staged:
  assumes pw: "pointwise p ao g"
  shows "stage_input F p ao vo load g input"
proof (cases "load (ti_source input)")
  case (Inl e)
  then show ?thesis
    by (simp add: stage_input_def input_messages_def plain_message_def transcribe_single_def agrees_def)
next
  case w: (Inr w)
  note single = single_outcome_result[where load = load, OF w, of F p ao vo]
  have asr: "am_transcribe (op_asr p) w ao = Inr (g w)" using pw by (simp add: pointwise_def)
  show ?thesis
  proof (cases "prepare_vad_stage F p w vo")
    case (Inl e)
    then show ?thesis
      by (simp add: stage_input_def input_messages_def w vad_task_messages_def plain_message_def single
          transcribe_with_vad_options_def agrees_def outcome_from_result_def Let_def)
  next
    case (Inr prep)
    show ?thesis
    proof (cases prep)
      case (SpeechPrep q)
      then show ?thesis using speech_input[where load = load, OF pw w] Inr by simp
    qed (simp_all add: stage_input_def input_messages_def w vad_task_messages_def plain_message_def single
          transcribe_with_vad_options_def Inr agrees_def outcome_from_result_def Let_def plain_job_def job_outcome_def
          raw_outcome_def asr timeline_new_def)
  qed
qed

section \<open>All recordings of the worker\<close>

lemma input_messages_index:
  assumes "pointwise p ao g" "m \<in> set (input_messages F p vo load input)"
  shows "msg_index m = ti_index input" "plain_message m"
  using input_staged[OF assms(1), of F vo load input] assms(2)
  unfolding stage_input_def by (auto simp: segment_of_job_def plain_message_def)

lemma filter_messages:
  assumes "pointwise p ao g" "distinct (map ti_index U)"
  shows "input \<in> set U \<Longrightarrow> filter (\<lambda>m. msg_index m = ti_index input) (concat (map (input_messages F p vo load) U)) =
      input_messages F p vo load input"
    and "j \<notin> ti_index ` set U \<Longrightarrow> filter (\<lambda>m. msg_index m = j) (concat (map (input_messages F p vo load) U)) = []"
proof -
  have one: "filter (\<lambda>m. msg_index m = j) (input_messages F p vo load u) =
      (if ti_index u = j then input_messages F p vo load u else [])" for j u
    using input_messages_index(1)[OF assms(1), of _ F vo load u] by (auto simp: filter_id_conv filter_empty_conv)
  show nil: "filter (\<lambda>m. msg_index m = j) (concat (map (input_messages F p vo load) U)) = []" if "j \<notin> ti_index ` set U" for j U
    using that by (induction U) (auto simp: one)
  show "filter (\<lambda>m. msg_index m = ti_index input) (concat (map (input_messages F p vo load) U)) =
      input_messages F p vo load input" if "input \<in> set U"
    using that assms(2)
  proof (induction U)
    case (Cons u U)
    show ?case
    proof (cases "u = input")
      case True
      have "ti_index input \<notin> ti_index ` set U" using Cons.prems(2) True by auto
      then show ?thesis using True by (simp add: one nil)
    next
      case False
      then show ?thesis using Cons by (auto simp: one)
    qed
  qed simp
qed

lemma single_messages:
  assumes "pointwise p ao g" "distinct (map ti_index U)"
  shows "length (filter (\<lambda>m. \<not> is_segment m \<and> msg_index m = j) (concat (map (input_messages F p vo load) U))) \<le> 1"
proof -
  have f: "filter (\<lambda>m. \<not> is_segment m \<and> msg_index m = j) ms = filter (\<lambda>m. \<not> is_segment m) (filter (\<lambda>m. msg_index m = j) ms)" for ms
    by (simp add: conj_commute)
  show ?thesis
  proof (cases "j \<in> ti_index ` set U")
    case True
    then obtain input where i: "input \<in> set U" "j = ti_index input" by blast
    have eq: "filter (\<lambda>m. \<not> is_segment m \<and> msg_index m = j) (concat (map (input_messages F p vo load) U)) =
        filter (\<lambda>m. \<not> is_segment m) (input_messages F p vo load input)"
      unfolding f unfolding i(2) filter_messages(1)[OF assms i(1)] ..
    show ?thesis
      using input_staged[OF assms(1), of F vo load input] unfolding eq stage_input_def
      by (auto simp: filter_empty_conv[THEN iffD2])
  next
    case False
    then show ?thesis unfolding f filter_messages(2)[OF assms False] by simp
  qed
qed

context segment_worker
begin

lemma worker_outcomes:
  assumes pw: "pointwise p ao g" and d: "distinct (map ti_index U)"
    and left: "rest s = mset (concat (map (input_messages F p vo load) U))" and len: "size (rest s) \<le> usize_max"
    and empty: "states s = Map.empty"
  defines "outs \<equiv> work s"
  shows "input \<in> set U \<Longrightarrow> \<exists>oc. sent (ti_index input) outs = [oc] \<and> agrees oc (transcribe_single F p ao vo load input)"
    and "mset (map oc_index outs) = mset (map ti_index U)"
proof -
  have plain: "\<forall>m\<in>#rest s. plain_message m"
    using input_messages_index(2)[OF pw] unfolding left by auto
  have "size (filter_mset (\<lambda>m. \<not> is_segment m \<and> msg_index m = j) (rest s)) \<le> 1" for j
    using single_messages[OF pw d, of j F vo load] unfolding left mset_filter[symmetric] size_mset .
  then have ok: "worker_ok (states s) (rest s)" using plain by (simp add: worker_ok_def waiting_ok_def states_wf_def empty)
  have mn: "mine j (rest s) = mset (filter (\<lambda>m. msg_index m = j) (concat (map (input_messages F p vo load) U)))" for j
    unfolding left mine_def by simp
  show one: "\<exists>oc. sent (ti_index input) outs = [oc] \<and> agrees oc (transcribe_single F p ao vo load input)" if "input \<in> set U" for input
  proof -
    note mi = mn[of "ti_index input", unfolded filter_messages(1)[OF pw d that]]
    from input_staged[OF pw, of F vo load input] show ?thesis
      unfolding stage_input_def
    proof (elim disjE exE conjE)
      fix m oc assume "input_messages F p vo load input = [m]" "\<not> is_segment m" "message_outcomes g m = [oc]"
        "agrees oc (transcribe_single F p ao vo load input)"
      then show ?thesis
        using one_message_sent[OF pw _ ok, of m "ti_index input"] mi unfolding outs_def by (simp add: empty)
    next
      fix S sp assume S: "input_messages F p vo load input = map seg_msg S" "S \<noteq> []"
        "\<forall>s\<in>set S. segment_of_job (ti_index input) sp (length S) s"
        "\<forall>oc. job_done g (ti_index input) sp (mset S) oc \<longrightarrow> agrees oc (transcribe_single F p ao vo load input)"
      have "mset (map seg_msg S) \<subseteq># rest s" using mi S(1) unfolding mine_def by (metis multiset_filter_subset)
      from size_mset_mono[OF this] have short: "length S \<le> usize_max" using len by simp
      have "mine (ti_index input) (rest s) = mset (map seg_msg S)" using mi unfolding S(1) .
      from segmented_sent[OF pw S(3) short S(2) ok _ this] S(4) show ?thesis
        unfolding outs_def by (auto simp: empty)
    qed
  qed
  have "count (mset (map oc_index outs)) j = count (mset (map ti_index U)) j" for j
  proof -
    have c: "count (mset (map oc_index outs)) j = length (sent j outs)"
      unfolding sent_def by (induction outs) auto
    show ?thesis
    proof (cases "j \<in> ti_index ` set U")
      case True
      then obtain input where "input \<in> set U" "j = ti_index input" by blast
      then have "length (sent j outs) = 1" using one by fastforce
      moreover have "count (mset (map ti_index U)) j = 1"
        using d True by (simp add: distinct_count_atmost_1[THEN iffD1, OF d] del: mset_map)
      ultimately show ?thesis using c by simp
    next
      case False
      have "sent j outs = []"
        unfolding outs_def by (rule nothing_sent[OF pw ok]) (simp_all add: empty mn filter_messages(2)[OF pw d False] del: filter_concat)
      then have "count (mset (map oc_index outs)) j = 0" using c by simp
      moreover have "count (mset (map ti_index U)) j = 0" using False unfolding count_eq_zero_iff by simp
      ultimately show ?thesis by simp
    qed
  qed
  then show "mset (map oc_index outs) = mset (map ti_index U)" by (rule multiset_eqI)
qed

end

section \<open>Deduplication\<close>

abbreviation source_key :: "source_env \<Rightarrow> 'f transcribe_input \<Rightarrow> dedup_key option" where
  "source_key env input \<equiv> audio_source_dedup_key env (ti_source input)"

definition dup_ok :: "source_env \<Rightarrow> 'f transcribe_input set \<Rightarrow> 'f transcribe_input set \<Rightarrow> nat \<Rightarrow> nat \<Rightarrow> bool" where
  "dup_ok env A U i c \<longleftrightarrow> (\<exists>a\<in>A. \<exists>u\<in>U. ti_index a = i \<and> ti_index u = c \<and>
     source_key env a = source_key env u \<and> source_key env a \<noteq> None)"

lemma dup_ok_mono: "dup_ok env A U i c \<Longrightarrow> A \<subseteq> A' \<Longrightarrow> U \<subseteq> U' \<Longrightarrow> dup_ok env A' U' i c"
  unfolding dup_ok_def by blast

definition seen_ok :: "source_env \<Rightarrow> 'f transcribe_input set \<Rightarrow> (dedup_key \<rightharpoonup> nat) \<Rightarrow> bool" where
  "seen_ok env U seen \<longleftrightarrow> (\<forall>k c. seen k = Some c \<longrightarrow> (\<exists>u\<in>U. ti_index u = c \<and> source_key env u = Some k))"

definition dedup_inv :: "source_env \<Rightarrow> 'f transcribe_input list \<Rightarrow> 'f dedup \<Rightarrow> bool" where
  "dedup_inv env inputs d \<longleftrightarrow>
     mset (map ti_index (dd_unique d)) + mset (map fst (dd_duplicates d)) = mset (map ti_index inputs) \<and>
     set (dd_unique d) \<subseteq> set inputs \<and>
     (\<forall>i c. (i, c) \<in> set (dd_duplicates d) \<longrightarrow> dup_ok env (set inputs) (set (dd_unique d)) i c) \<and>
     seen_ok env (set (dd_unique d)) (dd_seen d)"

lemma dedup_step_inv:
  assumes "dedup_inv env seen d"
  shows "dedup_inv env (seen @ [a]) (dedup_step env d a)"
proof -
  have mono: "dup_ok env (set (seen @ [a])) U i c" if "(i, c) \<in> set (dd_duplicates d)" "set (dd_unique d) \<subseteq> U" for i c U
    using assms that dup_ok_mono[of env "set seen" "set (dd_unique d)" i c "set (seen @ [a])" U]
    unfolding dedup_inv_def by auto
  show ?thesis
  proof (cases "source_key env a")
    case None
    have "seen_ok env (insert a (set (dd_unique d))) (dd_seen d)"
      using assms unfolding dedup_inv_def seen_ok_def by blast
    then show ?thesis using assms None mono[of _ _ "insert a (set (dd_unique d))"]
      by (simp add: dedup_step_def dedup_inv_def subset_iff)
  next
    case key: (Some k)
    show ?thesis
    proof (cases "dd_seen d k")
      case None
      have "seen_ok env (insert a (set (dd_unique d))) ((dd_seen d)(k \<mapsto> ti_index a))"
        using conjunct2[OF conjunct2[OF conjunct2[OF assms[unfolded dedup_inv_def]]]] key
        unfolding seen_ok_def by (auto split: if_splits)
      then show ?thesis using assms None key mono[of _ _ "insert a (set (dd_unique d))"]
        by (simp add: dedup_step_def dedup_inv_def subset_iff)
    next
      case (Some c)
      then obtain u where "u \<in> set (dd_unique d)" "ti_index u = c" "source_key env u = Some k"
        using assms unfolding dedup_inv_def seen_ok_def by blast
      then have "dup_ok env (set (seen @ [a])) (set (dd_unique d)) (ti_index a) c"
        using key unfolding dup_ok_def by auto
      then show ?thesis using assms key Some mono[of _ _ "set (dd_unique d)"]
        by (auto simp: dedup_step_def dedup_inv_def)
    qed
  qed
qed

lemma deduplicate_inv: "dedup_inv env inputs (deduplicate_transcribe_inputs env inputs)"
proof -
  have "dedup_inv env (seen @ inputs) (foldl (dedup_step env) d inputs)" if "dedup_inv env seen d" for seen d
    using that
  proof (induction inputs arbitrary: seen d)
    case (Cons a inputs)
    then show ?case using Cons.IH[OF dedup_step_inv[OF Cons.prems, of a]] by simp
  qed simp
  from this[of "[]"] show ?thesis by (simp add: deduplicate_transcribe_inputs_def dedup_inv_def seen_ok_def)
qed

lemma map_sort_key: "map f (sort_key f xs) = sort (map f xs)"
  by (rule properties_for_sort[symmetric]) simp_all

lemma find_index:
  assumes "c \<in> oc_index ` set outs"
  obtains oc where "List.find (\<lambda>oc. oc_index oc = c) outs = Some oc" "oc \<in> set outs" "oc_index oc = c"
  using assms that
  by (cases "List.find (\<lambda>oc. oc_index oc = c) outs") (auto simp: find_None_iff find_Some_iff)

definition copies :: "'f outcome list \<Rightarrow> (nat \<times> nat) list \<Rightarrow> 'f outcome list" where
  "copies outs dups = List.map_filter (\<lambda>(i, c). map_option (\<lambda>oc. duplicate_outcome_from oc i)
     (List.find (\<lambda>oc. oc_index oc = c) outs)) dups"

lemma copies_index:
  assumes "snd ` set dups \<subseteq> oc_index ` set outs"
  shows "map oc_index (copies outs dups) = map fst dups"
  using assms
proof (induction dups)
  case (Cons d dups)
  obtain i c where d: "d = (i, c)" by fastforce
  have "c \<in> oc_index ` set outs" using Cons.prems d by auto
  then obtain oc where "List.find (\<lambda>oc. oc_index oc = c) outs = Some oc" by (rule find_index)
  then show ?case using Cons by (simp add: copies_def d duplicate_outcome_from_def)
qed (simp add: copies_def)

lemma copies_mem:
  assumes "(i, c) \<in> set dups" "c \<in> oc_index ` set outs"
  shows "\<exists>oc\<in>set outs. oc_index oc = c \<and> duplicate_outcome_from oc i \<in> set (copies outs dups)"
proof -
  obtain oc where oc: "List.find (\<lambda>oc. oc_index oc = c) outs = Some oc" "oc \<in> set outs" "oc_index oc = c"
    using find_index[OF assms(2)] by blast
  have "duplicate_outcome_from oc i \<in> set (copies outs dups)"
    using assms(1) by (induction dups) (auto simp: copies_def oc(1) split: option.split)
  then show ?thesis using oc(2,3) by blast
qed

lemma expand_eq: "expand_duplicate_outcomes outs dups = sort_key oc_index (outs @ copies outs dups)"
  by (auto simp: expand_duplicate_outcomes_def copies_def Let_def)

lemma agrees_duplicate:
  assumes "agrees oc (transcribe_single F p ao vo load u)" "load (ti_source u) = load (ti_source a)"
  shows "agrees (duplicate_outcome_from oc (ti_index a)) (transcribe_single F p ao vo load a)"
  using assms
  by (cases "load (ti_source a)") (simp_all add: agrees_def duplicate_outcome_from_def transcribe_single_def outcome_from_result_def)

lemma expand_matches:
  assumes d: "dedup_inv env inputs d" "distinct (map ti_index inputs)"
    and same: "\<forall>a\<in>set inputs. \<forall>b\<in>set inputs. source_key env a = source_key env b \<longrightarrow> source_key env a \<noteq> None \<longrightarrow>
      load (ti_source a) = load (ti_source b)"
    and idx: "mset (map oc_index outs) = mset (map ti_index (dd_unique d))"
    and one: "\<forall>u\<in>set (dd_unique d). \<forall>oc\<in>set outs. oc_index oc = ti_index u \<longrightarrow> agrees oc (transcribe_single F p ao vo load u)"
  defines "res \<equiv> expand_duplicate_outcomes outs (dd_duplicates d)"
  shows "map oc_index res = sort (map ti_index inputs) \<and>
    (\<forall>a\<in>set inputs. \<exists>oc\<in>set res. agrees oc (transcribe_single F p ao vo load a))"
proof
  have set_idx: "oc_index ` set outs = ti_index ` set (dd_unique d)"
    using arg_cong[OF idx, of set_mset] by simp
  have dup: "\<exists>a\<in>set inputs. \<exists>u\<in>set (dd_unique d). ti_index a = i \<and> ti_index u = c \<and>
      source_key env a = source_key env u \<and> source_key env a \<noteq> None" if "(i, c) \<in> set (dd_duplicates d)" for i c
    using d(1) that unfolding dedup_inv_def dup_ok_def by blast
  have uniq: "set (dd_unique d) \<subseteq> set inputs" using d(1) unfolding dedup_inv_def by blast
  have "snd ` set (dd_duplicates d) \<subseteq> oc_index ` set outs" unfolding set_idx using dup by fastforce
  note ci = copies_index[OF this]
  have "mset (map oc_index (outs @ copies outs (dd_duplicates d))) = mset (map ti_index inputs)"
    using d(1) idx ci unfolding dedup_inv_def by (metis map_append mset_append)
  then show "map oc_index res = sort (map ti_index inputs)"
    unfolding res_def expand_eq map_sort_key by (simp add: properties_for_sort)
  show "\<forall>a\<in>set inputs. \<exists>oc\<in>set res. agrees oc (transcribe_single F p ao vo load a)"
  proof
    fix a assume a: "a \<in> set inputs"
    have "ti_index a \<in># mset (map ti_index (dd_unique d)) + mset (map fst (dd_duplicates d))"
      using d(1) a unfolding dedup_inv_def by simp
    then consider (unique) u where "u \<in> set (dd_unique d)" "ti_index u = ti_index a"
      | (duplicate) c where "(ti_index a, c) \<in> set (dd_duplicates d)" by auto
    then show "\<exists>oc\<in>set res. agrees oc (transcribe_single F p ao vo load a)"
    proof cases
      case unique
      have "u = a" using d(2) uniq unique a by (metis (no_types, lifting) distinct_map inj_onD subsetD)
      obtain oc where "oc \<in> set outs" "oc_index oc = ti_index a" using set_idx unique by (metis imageE imageI)
      then show ?thesis using one unique \<open>u = a\<close> unfolding res_def expand_eq by auto
    next
      case duplicate
      obtain b u where b: "b \<in> set inputs" "u \<in> set (dd_unique d)" "ti_index b = ti_index a" "ti_index u = c"
        "source_key env b = source_key env u" "source_key env b \<noteq> None"
        using dup[OF duplicate] by blast
      have "b = a" using d(2) a b(1,3) by (meson distinct_map inj_onD)
      have "c \<in> oc_index ` set outs" using set_idx b(2,4) by blast
      from copies_mem[OF duplicate this] obtain oc where oc: "oc \<in> set outs" "oc_index oc = c"
        "duplicate_outcome_from oc (ti_index a) \<in> set (copies outs (dd_duplicates d))" by blast
      have "load (ti_source u) = load (ti_source a)"
        using same b(2,5,6) a uniq unfolding \<open>b = a\<close> by (metis subsetD)
      then have "agrees (duplicate_outcome_from oc (ti_index a)) (transcribe_single F p ao vo load a)"
        using agrees_duplicate one b(2,4) oc(1,2) by blast
      then show ?thesis using oc(3) unfolding res_def expand_eq by auto
    qed
  qed
qed

section \<open>Properties\<close>


text \<open>Three inputs: a recording with two detected ranges, one that cannot be loaded, and the first again.\<close>

definition example_load :: "int audio_source \<Rightarrow> int waveform result" where
  "example_load source = (if source = BytesSource [1] then Inr example_wave else Inl (Err ''no audio''))"

definition example_env :: source_env where
  "example_env = \<lparr>env_read = (\<lambda>path. None), env_hash = length, env_utf8_lossy = id\<rparr>"

definition example_inputs :: "int transcribe_input list" where
  "example_inputs = [\<lparr>ti_index = 4, ti_source = BytesSource [1]\<rparr>, \<lparr>ti_index = 2, ti_source = BytesSource [2]\<rparr>,
     \<lparr>ti_index = 7, ti_source = BytesSource [1]\<rparr>]"

definition example_schedule :: "int transcribe_input list \<Rightarrow> int event list" where
  "example_schedule U = concat (map (\<lambda>m. [Pause, Msg m])
     (concat (map (input_messages example_f32 example_pipeline (default_vad_options example_f32) example_load) (rev U))))"

lemma event_msgs_example: "event_msgs (concat (map (\<lambda>m. [Pause, Msg m]) ms)) = ms"
  by (induction ms) simp_all

lemma merge_vad_segments_length: "length (merge_vad_segments_for_asr F segs max_gap max_ms) \<le> length segs"
proof -
  have step: "length (merge_step F max_gap max_ms acc x) \<le> length acc + 1" for acc x
    by (auto simp: merge_step_def Let_def)
  have "length (foldl (merge_step F max_gap max_ms) acc xs) \<le> length acc + length xs" for acc xs
  proof (induction xs arbitrary: acc)
    case (Cons x xs)
    from le_trans[OF Cons[of "merge_step F max_gap max_ms acc x"] add_right_mono[OF step]] show ?case by simp
  qed simp
  from this[of "[]"] show ?thesis
    by (simp add: merge_vad_segments_for_asr_def) (metis length_sort)
qed

lemma input_messages_length:
  assumes "op_vad p = Some detect" "\<And>w segs. detect w vo = Inr segs \<Longrightarrow> length segs \<le> n" "1 \<le> n"
  shows "length (input_messages F p vo load input) \<le> n"
proof (cases "load (ti_source input)")
  case (Inr w)
  show ?thesis
  proof (cases "\<exists>q. prepare_vad_stage F p w vo = Inr (SpeechPrep q)")
    case True
    then obtain q where q: "prepare_vad_stage F p w vo = Inr (SpeechPrep q)" by blast
    obtain segs where "detect w vo = Inr segs" "length (vp_segments q) \<le> length segs"
      using q assms(1) by (auto simp: prepare_vad_stage_def Let_def merge_vad_segments_length split: if_splits)
    then show ?thesis using assms(2)[of w segs] assms(3)
      by (auto simp: input_messages_def Inr vad_task_messages_def q speech_job_to_segments_def)
  qed (use assms(3) in \<open>auto simp: input_messages_def Inr vad_task_messages_def Let_def split: sum.splits vad_preparation.splits\<close>)
qed (use assms(3) in \<open>simp add: input_messages_def\<close>)


end
