(* ===== verification/TranscribeFaults.thy ===== *)
theory TranscribeFaults
  imports TranscribeResults
begin

text \<open>
  Two schedules of the worker of \<^verbatim>\<open>vasr-transcribe/src/pipeline.rs\<close> where its outcomes differ from those
  of the sequential pipeline: a recording whose segments fail in two batches is reported twice, and
  the annotations of detected speech are lost when the first segment is overtaken.
\<close>

lemma worker_step: "asr_turn p ao n s = Some (outs, s') \<Longrightarrow> asr_worker p ao n s = outs @ asr_worker p ao n s'"
  by (subst asr_worker.simps) simp

lemma worker_end: "asr_worker p ao n (state, [], []) = []"
  by (subst asr_worker.simps) (simp add: asr_turn_def)

abbreviation ready :: "'f asr_segment_job list \<Rightarrow> 'f event list" where
  "ready S \<equiv> map (\<lambda>s. Msg (seg_msg s)) S"

lemma segment_drain_ready:
  "length segs \<le> n \<Longrightarrow> segment_drain n segs pending (ready S) =
    (length segs + length S < n, segs @ take (n - length segs) S, pending, ready (drop (n - length segs) S))"
proof (induction S arbitrary: segs)
  case (Cons s S)
  show ?case
  proof (cases "length segs < n")
    case True
    then show ?thesis using Cons.IH[of "segs @ [s]"] by (simp add: take_Cons' drop_Cons')
  qed (use Cons.prems in simp)
qed auto

lemma collect_ready:
  "1 \<le> n \<Longrightarrow> collect_segment_microbatch s n [] (ready S) = (s # take (n - 1) S, [], ready (drop (n - 1) S))"
  using segment_drain_ready[of "[s]" n "[]" S]
  by (cases "n = 1") (auto simp: collect_segment_microbatch_def)

lemma prepare_one_job:
  assumes "\<forall>s\<in>set S. sj_job_index s = j" "S \<noteq> []"
  shows "\<exists>job. prepare_segment_job_state Map.empty S = [j \<mapsto> job] \<and> js_index job = j"
proof -
  have wf: "states_wf Map.empty" by (simp add: states_wf_def)
  note pr = prepare_project[OF wf, of S]
  have "prepare_segment_job_state Map.empty S i = None" if "i \<noteq> j" for i
    using pr[of i] that assms(1) by (simp add: prep_jobs_def filter_empty_conv[THEN iffD2] )
  moreover obtain job where "prepare_segment_job_state Map.empty S j = Some job"
    using pr[of j] assms by (cases S rule: rev_cases) (auto simp: prep_jobs_def)
  moreover from this have "js_index job = j" using pr unfolding states_wf_def by blast
  ultimately show ?thesis by (intro exI[of _ job]) (auto simp: fun_eq_iff)
qed

lemma remdups_replicate: "S \<noteq> [] \<Longrightarrow> \<forall>s\<in>set S. f s = j \<Longrightarrow> remdups (map f S) = [j]"
proof (induction S)
  case (Cons s S)
  then show ?case by (cases S) simp_all
qed simp

lemma failed_batch:
  assumes "\<forall>ws. am_transcribe_batch (op_asr p) ws ao = Inl e" "\<forall>s\<in>set S. sj_job_index s = j" "S \<noteq> []"
  shows "finish_segment_asr_batch (prepare_segment_job_state Map.empty S) S (run_segment_asr_inference p S ao) =
    (Map.empty, [\<lparr>oc_index = j, oc_result = Inl e, oc_bad_component = Some ''recognizer''\<rparr>])"
proof -
  obtain job where "prepare_segment_job_state Map.empty S = [j \<mapsto> job]" "js_index job = j"
    using prepare_one_job[OF assms(2,3)] by blast
  then show ?thesis using assms
    by (simp add: run_segment_asr_inference_def finish_segment_asr_batch_def fail_affected_def remdups_replicate[OF assms(3,2)]
        fail_job_def outcome_from_result_def)
qed

text \<open>C31: When the recogniser fails, a recording whose segments are ready in the channel is reported once
  for every batch of them and not once: a failed batch removes the state of the recording, and the next batch
  creates it again.\<close>

theorem failed_segments_report_repeatedly:
  assumes "\<forall>ws. am_transcribe_batch (op_asr p) ws ao = Inl e" "\<forall>s\<in>set S. sj_job_index s = j" "1 \<le> n"
  shows "asr_worker p ao n (Map.empty, [], ready S) =
    replicate (div_ceil (length S) n) \<lparr>oc_index = j, oc_result = Inl e, oc_bad_component = Some ''recognizer''\<rparr>"
  using assms(2)
proof (induction S rule: length_induct)
  case (1 S)
  show ?case
  proof (cases S)
    case (Cons s T)
    define B where "B = s # take (n - 1) T"
    have B: "B \<noteq> []" "\<forall>s\<in>set B. sj_job_index s = j" "S = B @ drop (n - 1) T"
      using 1(2) by (auto simp: B_def Cons dest: in_set_takeD)
    have "asr_turn p ao n (Map.empty, [], ready S) =
      Some ([\<lparr>oc_index = j, oc_result = Inl e, oc_bad_component = Some ''recognizer''\<rparr>], Map.empty, [], ready (drop (n - 1) T))"
      using assms(3) collect_ready[OF assms(3), of s T] failed_batch[OF assms(1) B(2,1), unfolded B_def]
      by (simp add: asr_turn_def Cons max_def)
    from worker_step[OF this] have w: "asr_worker p ao n (Map.empty, [], ready S) =
      \<lparr>oc_index = j, oc_result = Inl e, oc_bad_component = Some ''recognizer''\<rparr> #
      asr_worker p ao n (Map.empty, [], ready (drop (n - 1) T))" by simp
    have "length (drop (n - 1) T) < length S" "\<forall>s\<in>set (drop (n - 1) T). sj_job_index s = j"
      using 1(2) by (auto simp: Cons dest: in_set_dropD)
    then have IH: "asr_worker p ao n (Map.empty, [], ready (drop (n - 1) T)) = replicate (div_ceil (length (drop (n - 1) T)) n)
        \<lparr>oc_index = j, oc_result = Inl e, oc_bad_component = Some ''recognizer''\<rparr>" using 1(1) by blast
    have "div_ceil (length S) n = Suc (div_ceil (length (drop (n - 1) T)) n)"
    proof (cases "n - 1 \<le> length T")
      case True
      then have "length S = length (drop (n - 1) T) + n" using assms(3) by (simp add: Cons)
      moreover have "div_ceil (m + n) n = Suc (div_ceil m n)" for m
      proof -
        have "(m + n) div n = Suc (m div n)" using assms(3) by (subst div_add_self2) simp_all
        then show ?thesis by (simp add: div_ceil_def)
      qed
      ultimately show ?thesis by simp
    next
      case False
      then have "length S < n" "0 < length S" by (simp_all add: Cons)
      then show ?thesis using False by (simp add: div_ceil_def)
    qed
    then show ?thesis unfolding w IH by simp
  qed (simp add: worker_end div_ceil_def)
qed

text \<open>A recording in three segments and batches of two.\<close>

definition example_segment :: "nat \<Rightarrow> int asr_segment_job" where
  "example_segment i = \<lparr>sj_job_index = 5, sj_speech_annotations = [], sj_segment_index = i, sj_segment_count = 3,
     sj_offset = 1000 * i, sj_waveform = example_wave\<rparr>"

definition failing_pipeline :: "int offline_pipeline" where
  "failing_pipeline = \<lparr>op_vad = None, op_asr = \<lparr>am_transcribe = (\<lambda>w ao. Inl (Err ''out of memory'')),
     am_transcribe_batch = (\<lambda>ws ao. Inl (Err ''out of memory''))\<rparr>\<rparr>"

theorem failed_segments_report_repeatedly_witness:
  "map oc_index (asr_worker failing_pipeline (default_asr_options example_f32) 2
     (Map.empty, [], ready (map example_segment [0, 1, 2]))) = [5, 5]"
proof -
  have "\<forall>ws. am_transcribe_batch (op_asr failing_pipeline) ws (default_asr_options example_f32) = Inl (Err ''out of memory'')"
    by (simp add: failing_pipeline_def)
  note th = failed_segments_report_repeatedly[OF this, of "map example_segment [0, 1, 2]" 5 2]
  have "div_ceil (length (map example_segment [0, 1, 2])) 2 = 2" by (simp add: div_ceil_def)
  moreover have "\<forall>s\<in>set (map example_segment [0, 1, 2]). sj_job_index s = 5" by (simp add: example_segment_def)
  ultimately show ?thesis using th by (simp only: one_le_numeral) (simp add: numeral_2_eq_2)
qed

text \<open>C32: The annotations of detected speech are lost when a batch of whole recordings puts the first segment
  of a recording aside and the batch of another recording takes its second segment from the channel:
  the outcome has the recognised annotations only, in the order of the batches.\<close>

theorem overtaken_segment_loses_speech:
  assumes "pointwise p ao g" "aj_prepared c = NoSpeech" "aj_prepared d = NoSpeech"
    "sj_segment_count b0 = 2" "sj_segment_count b1 = 2" "sj_job_index b0 = j" "sj_job_index b1 = j"
    "sj_job_index a \<noteq> j" "aj_index c \<noteq> j" "aj_index d \<noteq> j"
    "sj_speech_annotations b1 = []" "seg_annotations g b1 \<noteq> []"
  shows "\<exists>oc t. sent j (asr_worker p ao 2 (Map.empty, [],
        [Msg (Inr (JobMessage c)), Msg (seg_msg a), Msg (seg_msg b0), Msg (Inr (JobMessage d)), Msg (seg_msg b1)])) = [oc] \<and>
      oc_result oc = Inr t \<and> tl_annotations t = seg_annotations g b1 @ seg_annotations g b0"
proof -
  let ?rx = "[Msg (Inr (JobMessage c)), Msg (seg_msg a), Msg (seg_msg b0), Msg (Inr (JobMessage d)), Msg (seg_msg b1)]"
  obtain o1 where t1: "asr_turn p ao 2 (Map.empty, [], ?rx) = Some (o1, Map.empty, [seg_msg a, seg_msg b0], [Msg (seg_msg b1)])"
    "sent j o1 = []"
    using assms(2,3,9,10)
    by (simp add: asr_turn_def collect_job_microbatch_def run_asr_jobs_batch_def sort_job_def run_raw_jobs_def sent_def)
  obtain st o2 where b2: "segment_batch g Map.empty [a, b1] = (st, o2)" by fastforce
  have t2: "asr_turn p ao 2 (Map.empty, [seg_msg a, seg_msg b0], [Msg (seg_msg b1)]) = Some (o2, st, [seg_msg b0], [])"
    by (simp add: asr_turn_def collect_segment_microbatch_def segment_turn[OF assms(1)] b2)
  have wf: "states_wf Map.empty" by (simp add: states_wf_def)
  note p2 = segment_batch_project[OF wf b2, of j]
  obtain job where job: "st j = Some job" "sent j o2 = []" "js_segment_count job = 2" "js_segments_done job = 1"
    "tl_annotations (js_timeline job) = seg_annotations g b1"
    using p2 assms(5-8,11)
    by (simp add: prep_jobs_def segment_job_entry_def fin_job_Some after_segment_def Let_def saturating_add_def max_values
        sent_def extend_timeline_def timeline_new_def)
  have e: "tl_annotations (js_timeline (segment_job_entry b0 (Some job))) = seg_annotations g b1"
    "js_segment_count (segment_job_entry b0 (Some job)) = 2" "js_segments_done (segment_job_entry b0 (Some job)) = 1"
    using job assms(4,12) by (simp_all add: segment_job_entry_def Let_def)
  obtain st3 o3 where b3: "segment_batch g st [b0] = (st3, o3)" by fastforce
  have t3: "asr_turn p ao 2 (st, [seg_msg b0], []) = Some (o3, st3, [], [])"
    by (simp add: asr_turn_def collect_segment_microbatch_def segment_turn[OF assms(1)] b3)
  note p3 = segment_batch_project[OF conjunct1[OF p2] b3, of j]
  have "\<exists>oc t. sent j o3 = [oc] \<and> oc_result oc = Inr t \<and> tl_annotations t = seg_annotations g b1 @ seg_annotations g b0"
    using p3 assms(6) e job(1)
    by (simp add: prep_jobs_def fin_job_Some after_segment_def saturating_add_def max_values
        sent_def extend_timeline_def)
  then show ?thesis
    by (simp add: worker_step[OF t1(1)] worker_step[OF t2] worker_step[OF t3] worker_end t1(2) job(2))
qed

text \<open>Two recordings without speech, one in a single segment and one, the fifth input, in two; the recogniser finds a
  word in each slice.\<close>

definition word :: "int annotation" where
  "word = annotation_new (time_range_new 0 100) (Segment (text_segment_new (lit ''word''))) (Model (lit ''asr'')) Final"

definition word_pipeline :: "int offline_pipeline" where
  "word_pipeline = \<lparr>op_vad = None, op_asr =
     \<lparr>am_transcribe = (\<lambda>w ao. Inr (timeline_push (timeline_new []) word)),
      am_transcribe_batch = (\<lambda>ws ao. Inr (map (\<lambda>w. timeline_push (timeline_new []) word) ws))\<rparr>\<rparr>"

definition silent_job :: "nat \<Rightarrow> int asr_job" where
  "silent_job i = \<lparr>aj_index = i, aj_prepared = NoSpeech, aj_waveform = example_wave\<rparr>"

definition speech_segment :: "nat \<Rightarrow> nat \<Rightarrow> nat \<Rightarrow> int asr_segment_job" where
  "speech_segment j i k = \<lparr>sj_job_index = j, sj_speech_annotations = (if i = 0 then map speech_annotation example_segs else []),
     sj_segment_index = i, sj_segment_count = k, sj_offset = 1000 * i, sj_waveform = example_wave\<rparr>"

theorem overtaken_segment_loses_speech_witness:
  "\<exists>oc t. sent 5 (asr_worker word_pipeline (default_asr_options example_f32) 2 (Map.empty, [],
      [Msg (Inr (JobMessage (silent_job 1))), Msg (seg_msg (speech_segment 2 0 1)), Msg (seg_msg (speech_segment 5 0 2)),
       Msg (Inr (JobMessage (silent_job 3))), Msg (seg_msg (speech_segment 5 1 2))])) = [oc] \<and>
    oc_result oc = Inr t \<and> length (tl_annotations t) = 2 \<and>
    filter (\<lambda>a. an_payload a = annotation_payload.Speech) (tl_annotations t) = [] \<and> length (sj_speech_annotations (speech_segment 5 0 2)) = 2"
proof -
  define g :: "int waveform \<Rightarrow> int timeline" where "g = (\<lambda>w. timeline_push (timeline_new []) word)"
  have pw: "pointwise word_pipeline (default_asr_options example_f32) g"
    by (simp add: pointwise_def word_pipeline_def g_def)
  have len: "length (seg_annotations g s) = 1" for s
    by (simp add: seg_annotations_def offset_annotations_def g_def timeline_push_def timeline_new_def)
  then have "seg_annotations g (speech_segment 5 1 2) \<noteq> []" by (metis length_0_conv zero_neq_one)
  from overtaken_segment_loses_speech[OF pw _ _ _ _ _ _ _ _ _ _ this, of "silent_job 1" "silent_job 3" "speech_segment 5 0 2" 5 "speech_segment 2 0 1"]
  obtain oc t where o: "sent 5 (asr_worker word_pipeline (default_asr_options example_f32) 2 (Map.empty, [],
      [Msg (Inr (JobMessage (silent_job 1))), Msg (seg_msg (speech_segment 2 0 1)), Msg (seg_msg (speech_segment 5 0 2)),
       Msg (Inr (JobMessage (silent_job 3))), Msg (seg_msg (speech_segment 5 1 2))])) = [oc]" "oc_result oc = Inr t"
    "tl_annotations t = seg_annotations g (speech_segment 5 1 2) @ seg_annotations g (speech_segment 5 0 2)"
    by (auto simp: silent_job_def speech_segment_def)
  have "filter (\<lambda>a. an_payload a = annotation_payload.Speech) (seg_annotations g s) = []" for s
    by (simp add: seg_annotations_def offset_annotations_def offset_annotation_def g_def timeline_push_def timeline_new_def
        word_def annotation_new_def)
  then have "filter (\<lambda>a. an_payload a = annotation_payload.Speech) (tl_annotations t) = []" "length (tl_annotations t) = 2"
    using o(3) by (simp_all add: len)
  then show ?thesis using o by (intro exI[of _ oc] exI[of _ t]) (simp add: speech_segment_def example_segs_def)
qed

end
