(* ===== verification/AsyncPipeline.thy ===== *)
theory AsyncPipeline
  imports TranscribeResults
begin

text \<open>
  The asynchronous offline pipeline of the runtime (\<^verbatim>\<open>vasr-runtime/src/pipeline/async.rs\<close>): one task
  detects speech in the recordings in turn and sends whole recordings or segments to a worker, which collects
  batches for the recogniser.

  The worker's channel is a list of arrivals and of moments at which it is found empty; the end of the list is
  the closed channel, so every timing is such a list.  A job with its preparation, the segments and the state
  of a recording have the shape of those of \<^verbatim>\<open>TranscribePipeline\<close>.  The capacity of the channels is left out: it
  only restricts the timing.
\<close>

section \<open>Options and messages\<close>

definition DEFAULT_STAGE_BUFFER :: nat where "DEFAULT_STAGE_BUFFER = 4"

record 'f parallel_options =
  pl_asr_options :: "'f asr_options"
  pl_vad_options :: "'f vad_options"
  pl_stage_buffer :: nat

definition default_parallel_options :: "'f f32_ops \<Rightarrow> 'f parallel_options" where
  "default_parallel_options F = \<lparr>pl_asr_options = default_asr_options F, pl_vad_options = default_vad_options F,
     pl_stage_buffer = DEFAULT_STAGE_BUFFER\<rparr>"

definition parallel_options_from :: "'f f32_ops \<Rightarrow> 'f asr_options \<Rightarrow> 'f parallel_options" where
  "parallel_options_from F asr_options = (default_parallel_options F)\<lparr>pl_asr_options := asr_options\<rparr>"

datatype 'f stage_result = Ready nat "'f timeline" | Failed nat error

fun stage_index :: "'f stage_result \<Rightarrow> nat" where
  "stage_index (Ready index t) = index"
| "stage_index (Failed index error) = index"

fun stage_value :: "'f stage_result \<Rightarrow> 'f timeline result" where
  "stage_value (Ready index t) = Inr t"
| "stage_value (Failed index error) = Inl error"

text \<open>\<^verbatim>\<open>spawn_blocking\<close> turns a panic into an error.\<close>

definition spawn_blocking :: "'a result \<Rightarrow> 'a result" where
  "spawn_blocking r = (case r of Inl (Panic m) \<Rightarrow> Inl (Err ''task panicked'') | _ \<Rightarrow> r)"

definition async_job_to_segments :: "'f asr_job \<Rightarrow> 'f asr_segment_job list result" where
  "async_job_to_segments job =
    (case aj_prepared job of
       SpeechPrep prepared \<Rightarrow>
        (let segments = vp_segments prepared; slices = vp_slices prepared; segment_count = length segments
         in if length segments \<noteq> length slices then Inl (Err ''VAD prepared mismatch'')
            else Inr (map (\<lambda>(segment_index, segment, waveform).
              \<lparr>sj_job_index = aj_index job,
               sj_speech_annotations = (if segment_index = 0 then vp_speech_annotations prepared else []),
               sj_segment_index = segment_index, sj_segment_count = segment_count,
               sj_offset = tr_start (vs_range segment), sj_waveform = waveform\<rparr>)
              (zip [0..<segment_count] (zip segments slices))))
     | _ \<Rightarrow> Inl (Err ''speech_job_to_segments requires Speech preparation''))"

text \<open>What the detection task sends, and how it ends.\<close>

fun async_vad_worker ::
  "'f f32_ops \<Rightarrow> 'f offline_pipeline \<Rightarrow> 'f vad_options \<Rightarrow> nat \<Rightarrow> 'f waveform list \<Rightarrow> 'f asr_message list \<times> unit result" where
  "async_vad_worker F p vo index [] = ([], Inr ())"
| "async_vad_worker F p vo index (w # ws) =
    (case spawn_blocking (prepare_vad_stage F p w vo) of
       Inl error \<Rightarrow> ([], Inl error)
     | Inr prepared \<Rightarrow>
        (let asr_job = \<lparr>aj_index = index, aj_prepared = prepared, aj_waveform = w\<rparr>;
             (later, ended) = async_vad_worker F p vo (index + 1) ws
         in case prepared of
              SpeechPrep _ \<Rightarrow>
               (case async_job_to_segments asr_job of
                  Inl error \<Rightarrow> ([], Inl error)
                | Inr segments \<Rightarrow> (map SegmentMessage segments @ later, ended))
            | _ \<Rightarrow> (JobMessage asr_job # later, ended)))"

section \<open>Collecting batches\<close>

datatype 'f async_event = Arrive "'f asr_message" | Idle

fun async_recv :: "'f async_event list \<Rightarrow> ('f asr_message \<times> 'f async_event list) option" where
  "async_recv [] = None"
| "async_recv (Arrive m # rx) = Some (m, rx)"
| "async_recv (Idle # rx) = async_recv rx"

fun async_recv_message ::
  "'f asr_message list \<Rightarrow> 'f async_event list \<Rightarrow> ('f asr_message \<times> 'f asr_message list \<times> 'f async_event list) option" where
  "async_recv_message (m # pending) rx = Some (m, pending, rx)"
| "async_recv_message [] rx = map_option (\<lambda>(m, rx). (m, [], rx)) (async_recv rx)"

type_synonym ('f, 'm) async_collected = "'m list \<times> 'f asr_message list \<times> 'f async_event list"

fun async_job_drain ::
  "nat \<Rightarrow> 'f asr_job list \<Rightarrow> 'f asr_message list \<Rightarrow> 'f async_event list \<Rightarrow> bool \<times> ('f, 'f asr_job) async_collected" where
  "async_job_drain n jobs pending [] = (length jobs < n, jobs, pending, [])"
| "async_job_drain n jobs pending (Arrive (JobMessage job) # rx) =
    (if length jobs < n then async_job_drain n (jobs @ [job]) pending rx else (False, jobs, pending, Arrive (JobMessage job) # rx))"
| "async_job_drain n jobs pending (Arrive message # rx) =
    (if length jobs < n then (False, jobs, message # pending, rx) else (False, jobs, pending, Arrive message # rx))"
| "async_job_drain n jobs pending (Idle # rx) = (False, jobs, pending, Idle # rx)"

fun async_job_wait ::
  "nat \<Rightarrow> 'f asr_job list \<Rightarrow> 'f asr_message list \<Rightarrow> 'f async_event list \<Rightarrow> ('f, 'f asr_job) async_collected" where
  "async_job_wait n jobs pending [] = (jobs, pending, [])"
| "async_job_wait n jobs pending (Arrive (JobMessage job) # rx) =
    (if length jobs < n then async_job_wait n (jobs @ [job]) pending rx else (jobs, pending, Arrive (JobMessage job) # rx))"
| "async_job_wait n jobs pending (Arrive message # rx) =
    (if length jobs < n then (jobs, message # pending, rx) else (jobs, pending, Arrive message # rx))"
| "async_job_wait n jobs pending (Idle # rx) = async_job_wait n jobs pending rx"

definition async_job_microbatch ::
  "'f asr_job \<Rightarrow> nat \<Rightarrow> 'f asr_message list \<Rightarrow> 'f async_event list \<Rightarrow> ('f, 'f asr_job) async_collected" where
  "async_job_microbatch first n pending rx =
    (if n \<le> 1 then ([first], pending, rx)
     else let (closed, jobs, pending, rx) = async_job_drain n [first] pending rx
          in if closed \<or> length jobs \<ge> n then (jobs, pending, rx) else async_job_wait n jobs pending rx)"

fun async_segment_drain ::
  "nat \<Rightarrow> 'f asr_segment_job list \<Rightarrow> 'f asr_message list \<Rightarrow> 'f async_event list \<Rightarrow> bool \<times> ('f, 'f asr_segment_job) async_collected" where
  "async_segment_drain n segments pending [] = (length segments < n, segments, pending, [])"
| "async_segment_drain n segments pending (Arrive (SegmentMessage s) # rx) =
    (if length segments < n then async_segment_drain n (segments @ [s]) pending rx
     else (False, segments, pending, Arrive (SegmentMessage s) # rx))"
| "async_segment_drain n segments pending (Arrive message # rx) =
    (if length segments < n then (False, segments, message # pending, rx) else (False, segments, pending, Arrive message # rx))"
| "async_segment_drain n segments pending (Idle # rx) = (False, segments, pending, Idle # rx)"

fun async_segment_wait ::
  "nat \<Rightarrow> 'f asr_segment_job list \<Rightarrow> 'f asr_message list \<Rightarrow> 'f async_event list \<Rightarrow> ('f, 'f asr_segment_job) async_collected" where
  "async_segment_wait n segments pending [] = (segments, pending, [])"
| "async_segment_wait n segments pending (Arrive (SegmentMessage s) # rx) =
    (if length segments < n then async_segment_wait n (segments @ [s]) pending rx
     else (segments, pending, Arrive (SegmentMessage s) # rx))"
| "async_segment_wait n segments pending (Arrive message # rx) =
    (if length segments < n then (segments, message # pending, rx) else (segments, pending, Arrive message # rx))"
| "async_segment_wait n segments pending (Idle # rx) = async_segment_wait n segments pending rx"

definition async_segment_microbatch ::
  "'f asr_segment_job \<Rightarrow> nat \<Rightarrow> 'f asr_message list \<Rightarrow> 'f async_event list \<Rightarrow> ('f, 'f asr_segment_job) async_collected" where
  "async_segment_microbatch first n pending rx =
    (if n \<le> 1 then ([first], pending, rx)
     else let (closed, segments, pending, rx) = async_segment_drain n [first] pending rx
          in if closed \<or> length segments \<ge> n then (segments, pending, rx) else async_segment_wait n segments pending rx)"

section \<open>Recognising segments\<close>

definition async_segment_entry :: "'f asr_segment_job \<Rightarrow> 'f segment_job_state option \<Rightarrow> 'f segment_job_state" where
  "async_segment_entry segment found =
    (let entry = (case found of
           Some entry \<Rightarrow> entry
         | None \<Rightarrow> \<lparr>js_index = sj_job_index segment, js_speech_annotations = sj_speech_annotations segment,
             js_timeline = timeline_new (lit ''offline_audio''), js_segment_count = sj_segment_count segment,
             js_segments_done = 0\<rparr>);
         entry = (if sj_speech_annotations segment \<noteq> []
           then entry\<lparr>js_speech_annotations := sj_speech_annotations segment\<rparr> else entry);
         entry = (if tl_annotations (js_timeline entry) = [] \<and> js_speech_annotations entry \<noteq> []
           then entry\<lparr>js_timeline := extend_timeline (js_speech_annotations entry) (js_timeline entry)\<rparr> else entry)
     in entry\<lparr>js_segment_count := sj_segment_count segment\<rparr>)"

definition async_prepare_job_state :: "'f segment_asr_state \<Rightarrow> 'f asr_segment_job list \<Rightarrow> 'f segment_asr_state" where
  "async_prepare_job_state state segments =
    foldl (\<lambda>state segment. state(sj_job_index segment \<mapsto> async_segment_entry segment (state (sj_job_index segment)))) state segments"

definition async_segment_inference ::
  "'f offline_pipeline \<Rightarrow> 'f asr_segment_job list \<Rightarrow> 'f asr_options \<Rightarrow> 'f timeline list result" where
  "async_segment_inference p segments ao = am_transcribe_batch (op_asr p) (map sj_waveform segments) ao"

definition async_finish_segment ::
  "'f segment_asr_state \<times> 'f stage_result list \<Rightarrow> 'f asr_segment_job \<times> 'f timeline \<Rightarrow> 'f segment_asr_state \<times> 'f stage_result list" where
  "async_finish_segment = (\<lambda>(state, completed) (segment, asr_timeline).
    (case state (sj_job_index segment) of
       None \<Rightarrow> (state, completed)
     | Some job \<Rightarrow>
        (let job = job\<lparr>js_timeline := extend_timeline (offset_annotations (tl_annotations asr_timeline) (sj_offset segment)) (js_timeline job),
               js_segments_done := saturating_add (js_segments_done job) 1\<rparr>
         in if js_segments_done job \<ge> js_segment_count job
            then (state(sj_job_index segment := None), completed @ [Ready (js_index job) (js_timeline job)])
            else (state(sj_job_index segment \<mapsto> job), completed))))"

text \<open>The recordings of a failed batch; the code takes them from a hash set, in some order.\<close>

definition async_fail_affected ::
  "error \<Rightarrow> 'f asr_segment_job list \<Rightarrow> 'f segment_asr_state \<Rightarrow> 'f segment_asr_state \<times> 'f stage_result list" where
  "async_fail_affected error segments state =
    foldl (\<lambda>(state, completed) job_index. case state job_index of
             None \<Rightarrow> (state, completed)
           | Some job \<Rightarrow> (state(job_index := None), completed @ [Failed (js_index job) error]))
      (state, []) (remdups (map sj_job_index segments))"

definition async_finish_batch ::
  "'f segment_asr_state \<Rightarrow> 'f asr_segment_job list \<Rightarrow> 'f timeline list result \<Rightarrow> 'f segment_asr_state \<times> 'f stage_result list" where
  "async_finish_batch state segments batch =
    (if segments = [] then (state, [])
     else case batch of
       Inr timelines \<Rightarrow>
        (if length timelines = length segments
         then foldl async_finish_segment (state, []) (zip segments timelines)
         else async_fail_affected (Err ''ASR segment batch returned the wrong number of timelines'') segments state)
     | Inl error \<Rightarrow> async_fail_affected error segments state)"

section \<open>Recognising whole recordings\<close>

text \<open>Errors of the recogniser become results; a panic ends the batch.\<close>

definition async_raw_jobs_batch ::
  "'f offline_pipeline \<Rightarrow> 'f asr_job list \<Rightarrow> 'f asr_options \<Rightarrow> 'f stage_result list result" where
  "async_raw_jobs_batch p jobs ao =
    (let indices = map aj_index jobs
     in case am_transcribe_batch (op_asr p) (map aj_waveform jobs) ao of
          Inl (Panic m) \<Rightarrow> Inl (Panic m)
        | Inl error \<Rightarrow> Inr (map (\<lambda>index. Failed index error) indices)
        | Inr timelines \<Rightarrow>
           (if length timelines = length indices
            then Inr (map (\<lambda>(index, t). Ready index t) (zip indices timelines))
            else Inr (map (\<lambda>index. Failed index (Err ''ASR batch returned the wrong number of timelines'')) indices)))"

fun async_add_speech :: "(nat \<times> 'f annotation list) list \<Rightarrow> 'f stage_result \<Rightarrow> 'f stage_result" where
  "async_add_speech full_speech (Ready index t) =
    (case map_of full_speech index of
       Some annotations \<Rightarrow> Ready index (t\<lparr>tl_annotations := annotations @ tl_annotations t\<rparr>)
     | None \<Rightarrow> Ready index t)"
| "async_add_speech full_speech (Failed index error) = Failed index error"

record 'f sorted_async_jobs =
  as_results :: "'f stage_result list"
  as_raw_jobs :: "'f asr_job list"
  as_prepared_jobs :: "'f asr_job list"
  as_full_speech :: "(nat \<times> 'f annotation list) list"

definition async_sort_job :: "'f sorted_async_jobs \<Rightarrow> 'f asr_job \<Rightarrow> 'f sorted_async_jobs" where
  "async_sort_job st job =
    (case aj_prepared job of
       SpeechPrep _ \<Rightarrow> st\<lparr>as_prepared_jobs := as_prepared_jobs st @ [job]\<rparr>
     | NoSpeech \<Rightarrow> st\<lparr>as_results := as_results st @ [Ready (aj_index job) (timeline_new (lit ''offline_audio''))]\<rparr>
     | FullSpeech annotations \<Rightarrow> st\<lparr>as_full_speech := as_full_speech st @ [(aj_index job, annotations)],
         as_raw_jobs := as_raw_jobs st @ [job]\<rparr>
     | Disabled \<Rightarrow> st\<lparr>as_raw_jobs := as_raw_jobs st @ [job]\<rparr>)"

definition async_split_prepared ::
  "'f asr_segment_job list \<times> 'f stage_result list \<Rightarrow> 'f asr_job \<Rightarrow> 'f asr_segment_job list \<times> 'f stage_result list" where
  "async_split_prepared = (\<lambda>(segment_jobs, results) job.
    (case async_job_to_segments job of
       Inr segments \<Rightarrow> (segment_jobs @ segments, results)
     | Inl error \<Rightarrow> (segment_jobs, results @ [Failed 0 error])))"

definition async_jobs_batch ::
  "'f offline_pipeline \<Rightarrow> 'f asr_job list \<Rightarrow> 'f asr_options \<Rightarrow> 'f stage_result list result" where
  "async_jobs_batch p jobs ao =
    (let st = foldl async_sort_job \<lparr>as_results = [], as_raw_jobs = [], as_prepared_jobs = [], as_full_speech = []\<rparr> jobs
     in rbind (if as_raw_jobs st = [] then Inr (as_results st)
               else rbind (async_raw_jobs_batch p (as_raw_jobs st) ao) (\<lambda>raw_results.
                    Inr (as_results st @ map (async_add_speech (as_full_speech st)) raw_results))) (\<lambda>results.
        rbind (if as_prepared_jobs st = [] then Inr results
               else let (segment_jobs, results) = foldl async_split_prepared ([], results) (as_prepared_jobs st)
                    in case async_segment_inference p segment_jobs ao of
                         Inl (Panic m) \<Rightarrow> Inl (Panic m)
                       | batch \<Rightarrow> Inr (results @ snd (async_finish_batch (async_prepare_job_state Map.empty segment_jobs) segment_jobs batch)))
          (\<lambda>results. Inr (sort_key stage_index results))))"

section \<open>The worker\<close>

type_synonym 'f async_state = "'f segment_asr_state \<times> 'f asr_message list \<times> 'f async_event list"

definition async_turn ::
  "'f offline_pipeline \<Rightarrow> 'f asr_options \<Rightarrow> nat \<Rightarrow> 'f async_state \<Rightarrow> ('f stage_result list \<times> 'f async_state) option" where
  "async_turn p ao max_batch_size = (\<lambda>(state, pending, rx).
    (case async_recv_message pending rx of
       None \<Rightarrow> None
     | Some (JobMessage job, pending, rx) \<Rightarrow>
        (let (jobs, pending, rx) = async_job_microbatch job (max max_batch_size 1) pending rx
         in if jobs = [] then Some ([], state, pending, rx)
            else Some (case async_jobs_batch p jobs ao of
                   Inr results \<Rightarrow> results
                 | Inl error \<Rightarrow> [Failed 0 (Err ''ASR worker join error'')], state, pending, rx))
     | Some (SegmentMessage segment, pending, rx) \<Rightarrow>
        (let (segments, pending, rx) = async_segment_microbatch segment (max max_batch_size 1) pending rx;
             state = async_prepare_job_state state segments;
             batch = spawn_blocking (async_segment_inference p segments ao);
             (state, results) = async_finish_batch state segments batch
         in Some (results, state, pending, rx))))"

lemma async_recv_length: "async_recv rx = Some (m, rx') \<Longrightarrow> length rx' < length rx"
  by (induction rx rule: async_recv.induct) auto

lemma async_recv_message_length:
  "async_recv_message pending rx = Some (m, pending', rx') \<Longrightarrow> length pending' + length rx' < length pending + length rx"
  by (cases pending) (auto simp: async_recv_length)

lemma async_job_drain_length:
  "async_job_drain n jobs pending rx = (c, jobs', pending', rx') \<Longrightarrow> length pending' + length rx' \<le> length pending + length rx"
  by (induction n jobs pending rx rule: async_job_drain.induct) (fastforce split: if_splits)+

lemma async_job_wait_length:
  "async_job_wait n jobs pending rx = (jobs', pending', rx') \<Longrightarrow> length pending' + length rx' \<le> length pending + length rx"
  by (induction n jobs pending rx rule: async_job_wait.induct) (fastforce split: if_splits)+

lemma async_segment_drain_length:
  "async_segment_drain n segs pending rx = (c, segs', pending', rx') \<Longrightarrow> length pending' + length rx' \<le> length pending + length rx"
  by (induction n segs pending rx rule: async_segment_drain.induct) (fastforce split: if_splits)+

lemma async_segment_wait_length:
  "async_segment_wait n segs pending rx = (segs', pending', rx') \<Longrightarrow> length pending' + length rx' \<le> length pending + length rx"
  by (induction n segs pending rx rule: async_segment_wait.induct) (fastforce split: if_splits)+

lemma async_job_microbatch_length:
  "async_job_microbatch first n pending rx = (jobs, pending', rx') \<Longrightarrow> length pending' + length rx' \<le> length pending + length rx"
  by (auto simp: async_job_microbatch_def Let_def dest!: async_job_drain_length async_job_wait_length split: if_splits prod.splits)

lemma async_segment_microbatch_length:
  "async_segment_microbatch first n pending rx = (segs, pending', rx') \<Longrightarrow> length pending' + length rx' \<le> length pending + length rx"
  by (auto simp: async_segment_microbatch_def Let_def dest!: async_segment_drain_length async_segment_wait_length
      split: if_splits prod.splits)

lemma async_turn_length:
  "async_turn p ao n (state, pending, rx) = Some (out, state', pending', rx') \<Longrightarrow>
   length pending' + length rx' < length pending + length rx"
  by (auto simp: async_turn_def Let_def dest!: async_recv_message_length async_job_microbatch_length
        async_segment_microbatch_length split: option.splits prod.splits asr_message.splits if_splits)

function async_worker :: "'f offline_pipeline \<Rightarrow> 'f asr_options \<Rightarrow> nat \<Rightarrow> 'f async_state \<Rightarrow> 'f stage_result list" where
  "async_worker p ao max_batch_size s =
    (case async_turn p ao max_batch_size s of
       None \<Rightarrow> []
     | Some (results, s') \<Rightarrow> results @ async_worker p ao max_batch_size s')"
  by pat_completeness auto
termination
  by (relation "measure (\<lambda>(p, ao, n, state, pending, rx). length pending + length rx)") (auto dest: async_turn_length)

declare async_worker.simps [simp del]

section \<open>Entry points\<close>

text \<open>The argument \<open>schedule\<close> is the timing with which the worker's channel delivers what is sent.\<close>

definition async_transcribe_many ::
  "'f f32_ops \<Rightarrow> 'f offline_pipeline \<Rightarrow> ('f asr_message list \<Rightarrow> 'f async_event list) \<Rightarrow> 'f parallel_options \<Rightarrow>
    'f waveform list \<Rightarrow> 'f timeline list result" where
  "async_transcribe_many F p schedule options waveforms =
    (if waveforms = [] then Inr []
     else if length waveforms = 1
     then rbind (spawn_blocking (transcribe_with_vad_options F p (hd waveforms) (pl_asr_options options) (pl_vad_options options)))
            (\<lambda>t. Inr [t])
     else let (messages, vad) = async_vad_worker F p (pl_vad_options options) 0 waveforms;
              results = async_worker p (pl_asr_options options) (ao_max_batch_size (pl_asr_options options))
                (Map.empty, [], schedule messages)
          in rbind vad (\<lambda>_. traverse stage_value (sort_key stage_index results)))"

definition async_transcribe ::
  "'f f32_ops \<Rightarrow> 'f offline_pipeline \<Rightarrow> ('f asr_message list \<Rightarrow> 'f async_event list) \<Rightarrow> 'f parallel_options \<Rightarrow>
    'f waveform \<Rightarrow> 'f timeline result" where
  "async_transcribe F p schedule options waveform =
    rbind (async_transcribe_many F p schedule options [waveform]) (\<lambda>timelines.
    if timelines = [] then Inl (Err ''async transcribe returned no timeline'') else Inr (last timelines))"

end
