(* ===== verification/AsyncResults.thy ===== *)
theory AsyncResults
  imports AsyncPipeline TranscribeFaults
begin

text \<open>
  The worker of \<^verbatim>\<open>AsyncPipeline\<close> keeps the contract \<^verbatim>\<open>segment_worker\<close>, so that the asynchronous pipeline gives
  what the sequential one gives, up to the order of annotations and the annotations of detected speech; and a
  timing in which those annotations are lost.
\<close>

section \<open>The same segments\<close>

lemma async_segment_entry_eq: "async_segment_entry = segment_job_entry"
  by (intro ext) (simp add: async_segment_entry_def segment_job_entry_def)

lemma async_prepare_job_state_eq: "async_prepare_job_state = prepare_segment_job_state"
  by (intro ext) (simp add: async_prepare_job_state_def prepare_segment_job_state_def prepare_segment_def[abs_def] async_segment_entry_eq)

lemma async_job_to_segments_eq: "async_job_to_segments = speech_job_to_segments"
  by (intro ext) (simp add: async_job_to_segments_def speech_job_to_segments_def Let_def split: vad_preparation.split)

fun stage_outcome :: "'f stage_result \<Rightarrow> 'f outcome" where
  "stage_outcome (Ready index t) = \<lparr>oc_index = index, oc_result = Inr t, oc_bad_component = None\<rparr>"
| "stage_outcome (Failed index error) = outcome_from_result index (Inl error)"

lemma stage_outcome_simps [simp]: "oc_index (stage_outcome r) = stage_index r" "oc_result (stage_outcome r) = stage_value r"
  by (cases r; simp add: outcome_from_result_def)+

lemma async_finish_segment_eq:
  "apsnd (map stage_outcome) (async_finish_segment (state, completed) (s, t)) =
   finish_segment (state, map stage_outcome completed) ((sj_job_index s, sj_offset s), t)"
  by (simp add: async_finish_segment_def finish_segment_def Let_def split: option.split)

lemma async_finish_segments_eq:
  "apsnd (map stage_outcome) (foldl async_finish_segment (state, completed) (map (\<lambda>s. (s, g (sj_waveform s))) segs)) =
   foldl finish_segment (state, map stage_outcome completed) (map (\<lambda>s. ((sj_job_index s, sj_offset s), g (sj_waveform s))) segs)"
proof (induction segs arbitrary: state completed)
  case (Cons s segs)
  obtain st c where r: "async_finish_segment (state, completed) (s, g (sj_waveform s)) = (st, c)" by fastforce
  have "finish_segment (state, map stage_outcome completed) ((sj_job_index s, sj_offset s), g (sj_waveform s)) = (st, map stage_outcome c)"
    using async_finish_segment_eq[of state completed s "g (sj_waveform s)"] unfolding r by simp
  then show ?case using Cons.IH[of st c] by (simp add: r)
qed simp

lemma zip_map_self: "zip xs (map f xs) = map (\<lambda>x. (x, f x)) xs"
  by (induction xs) simp_all

lemma async_segment_batch:
  assumes "pointwise p ao g" "segs \<noteq> []"
  shows "apsnd (map stage_outcome) (async_finish_batch (async_prepare_job_state state segs) segs
      (spawn_blocking (async_segment_inference p segs ao))) = segment_batch g state segs"
proof -
  have "spawn_blocking (async_segment_inference p segs ao) = Inr (map (\<lambda>s. g (sj_waveform s)) segs)"
    using assms(1) by (simp add: spawn_blocking_def async_segment_inference_def pointwise_def)
  then show ?thesis
    using assms(2) async_finish_segments_eq[of "prepare_segment_job_state state segs" "[]" g segs]
    by (simp add: async_finish_batch_def zip_map_self async_prepare_job_state_eq segment_batch_def)
qed

section \<open>Batches of jobs\<close>

lemma async_raw_jobs_pointwise:
  "pointwise p ao g \<Longrightarrow> async_raw_jobs_batch p jobs ao = Inr (map (\<lambda>job. Ready (aj_index job) (g (aj_waveform job))) jobs)"
proof -
  have "map (\<lambda>(index, t). Ready index t) (zip (map aj_index jobs) (map g (map aj_waveform jobs))) =
      map (\<lambda>job. Ready (aj_index job) (g (aj_waveform job))) jobs"
    by (induction jobs) simp_all
  then show "pointwise p ao g \<Longrightarrow> ?thesis" by (simp add: async_raw_jobs_batch_def pointwise_def Let_def)
qed

definition full_speech_of :: "'f asr_job \<Rightarrow> 'f annotation list option" where
  "full_speech_of job = (case aj_prepared job of FullSpeech annotations \<Rightarrow> Some annotations | _ \<Rightarrow> None)"

text \<open>What sorting the jobs of a batch leaves: the results of jobs without speech, and the others.\<close>

definition sorted_jobs :: "'f asr_job list \<Rightarrow> 'f sorted_async_jobs" where
  "sorted_jobs jobs =
    \<lparr>as_results = map (\<lambda>job. Ready (aj_index job) (timeline_new (lit ''offline_audio''))) (filter (\<lambda>job. aj_prepared job = NoSpeech) jobs),
     as_raw_jobs = filter (\<lambda>job. aj_prepared job \<noteq> NoSpeech) jobs, as_prepared_jobs = [],
     as_full_speech = List.map_filter (\<lambda>job. map_option (Pair (aj_index job)) (full_speech_of job)) jobs\<rparr>"

lemma async_sort_jobs:
  "\<forall>job\<in>set jobs. plain_job job \<Longrightarrow>
   foldl async_sort_job \<lparr>as_results = [], as_raw_jobs = [], as_prepared_jobs = [], as_full_speech = []\<rparr> jobs = sorted_jobs jobs"
proof (induction jobs rule: rev_induct)
  case (snoc job jobs)
  then show ?case
    by (cases "aj_prepared job")
      (auto simp: sorted_jobs_def async_sort_job_def plain_job_def full_speech_of_def map_filter_def)
qed (simp add: sorted_jobs_def map_filter_def)

lemma full_speech_lookup:
  assumes "distinct (map aj_index jobs)" "job \<in> set jobs"
  shows "map_of (List.map_filter (\<lambda>job. map_option (Pair (aj_index job)) (full_speech_of job)) jobs) (aj_index job) = full_speech_of job"
  using assms
proof (induction jobs)
  case (Cons a jobs)
  have none: "map_of (List.map_filter (\<lambda>job. map_option (Pair (aj_index job)) (full_speech_of job)) xs) i = None"
    if "i \<notin> aj_index ` set xs" for xs i
    using that by (induction xs) (auto simp: map_filter_def split: option.split)
  show ?case
  proof (cases "job = a")
    case True
    then show ?thesis using Cons.prems(1) none[of "aj_index a" jobs]
      by (cases "full_speech_of a") (auto simp: map_filter_def)
  next
    case False
    then have "job \<in> set jobs" using Cons.prems(2) by simp
    then have "aj_index job \<noteq> aj_index a" using Cons.prems(1) by (metis distinct.simps(2) image_eqI list.map(2) set_map)
    then show ?thesis using Cons False by (cases "full_speech_of a") (auto simp: map_filter_def)
  qed
qed simp

lemma job_outcome_async:
  "plain_job job \<Longrightarrow> aj_prepared job \<noteq> NoSpeech \<Longrightarrow> map_of full (aj_index job) = full_speech_of job \<Longrightarrow>
   stage_outcome (async_add_speech full (Ready (aj_index job) (g (aj_waveform job)))) = job_outcome g job"
  by (cases "aj_prepared job")
    (auto simp: plain_job_def full_speech_of_def job_outcome_def raw_outcome_def)

lemma mset_filter_split: "mset (map f (filter P xs)) + mset (map f (filter (\<lambda>x. \<not> P x) xs)) = mset (map f xs)"
  by (induction xs) simp_all

lemma async_jobs_batch_pointwise:
  assumes "pointwise p ao g" "\<forall>job\<in>set jobs. plain_job job" "distinct (map aj_index jobs)"
  obtains rs where "async_jobs_batch p jobs ao = Inr rs" "mset (map stage_outcome rs) = mset (map (job_outcome g) jobs)"
proof -
  define raw where "raw = filter (\<lambda>job. aj_prepared job \<noteq> NoSpeech) jobs"
  define rs where "rs = as_results (sorted_jobs jobs) @
    map (async_add_speech (as_full_speech (sorted_jobs jobs))) (map (\<lambda>job. Ready (aj_index job) (g (aj_waveform job))) raw)"
  have "async_jobs_batch p jobs ao = Inr (sort_key stage_index rs)"
    by (cases "raw = []")
      (simp_all add: async_jobs_batch_def async_sort_jobs[OF assms(2)] async_raw_jobs_pointwise[OF assms(1)] rs_def sorted_jobs_def raw_def)
  moreover have "map stage_outcome (as_results (sorted_jobs jobs)) = map (job_outcome g) (filter (\<lambda>job. aj_prepared job = NoSpeech) jobs)"
    by (auto simp: sorted_jobs_def job_outcome_def)
  moreover have "map (\<lambda>job. stage_outcome (async_add_speech (as_full_speech (sorted_jobs jobs)) (Ready (aj_index job) (g (aj_waveform job))))) raw =
      map (job_outcome g) raw"
    using assms(2) full_speech_lookup[OF assms(3)]
    by (intro map_cong refl job_outcome_async) (auto simp: raw_def sorted_jobs_def)
  ultimately have run: "async_jobs_batch p jobs ao = Inr (sort_key stage_index rs)"
    and "map stage_outcome rs = map (job_outcome g) (filter (\<lambda>job. aj_prepared job = NoSpeech) jobs) @ map (job_outcome g) raw"
    unfolding rs_def map_append map_map comp_def by (simp_all only:)
  then have "mset (map stage_outcome rs) = mset (map (job_outcome g) jobs)"
    using mset_filter_split[of "job_outcome g" "\<lambda>job. aj_prepared job = NoSpeech" jobs] unfolding raw_def by (simp only: mset_append)
  then show thesis using that[OF run] by simp
qed


section \<open>The worker\<close>

fun arrivals :: "'f async_event list \<Rightarrow> 'f asr_message list" where
  "arrivals [] = []"
| "arrivals (Arrive m # rx) = m # arrivals rx"
| "arrivals (Idle # rx) = arrivals rx"

definition async_left :: "'f asr_message list \<Rightarrow> 'f async_event list \<Rightarrow> 'f asr_message multiset" where
  "async_left pending rx = mset pending + mset (arrivals rx)"

lemma async_left_simps [simp]:
  "async_left (m # pending) rx = add_mset m (async_left pending rx)"
  "async_left pending (Arrive m # rx) = add_mset m (async_left pending rx)"
  "async_left pending (Idle # rx) = async_left pending rx"
  by (simp_all add: async_left_def)

lemma async_recv_Some: "async_recv rx = Some (m, rx') \<Longrightarrow> arrivals rx = m # arrivals rx'"
  by (induction rx rule: async_recv.induct) auto

lemma async_recv_None: "async_recv rx = None \<Longrightarrow> arrivals rx = []"
  by (induction rx rule: async_recv.induct) auto

lemma async_recv_message_left:
  "async_recv_message pending rx = Some (m, pending', rx') \<Longrightarrow> async_left pending rx = add_mset m (async_left pending' rx')"
  by (cases pending) (auto simp: async_left_def async_recv_Some)

lemma async_recv_message_None: "async_recv_message pending rx = None \<Longrightarrow> async_left pending rx = {#}"
  by (cases pending) (auto simp: async_left_def async_recv_None)

lemma async_job_wait_left:
  "async_job_wait n jobs pending rx = (jobs', pending', rx') \<Longrightarrow>
   mset (map JobMessage jobs') + async_left pending' rx' = mset (map JobMessage jobs) + async_left pending rx \<and> length jobs \<le> length jobs'"
  by (induction n jobs pending rx rule: async_job_wait.induct) (fastforce split: if_splits)+

lemma async_job_drain_left:
  "async_job_drain n jobs pending rx = (c, jobs', pending', rx') \<Longrightarrow>
   mset (map JobMessage jobs') + async_left pending' rx' = mset (map JobMessage jobs) + async_left pending rx \<and> length jobs \<le> length jobs'"
  by (induction n jobs pending rx rule: async_job_drain.induct) (fastforce split: if_splits)+

lemma async_segment_wait_left:
  "async_segment_wait n segs pending rx = (segs', pending', rx') \<Longrightarrow>
   mset (map SegmentMessage segs') + async_left pending' rx' = mset (map SegmentMessage segs) + async_left pending rx \<and>
   length segs \<le> length segs'"
  by (induction n segs pending rx rule: async_segment_wait.induct) (fastforce split: if_splits)+

lemma async_segment_drain_left:
  "async_segment_drain n segs pending rx = (c, segs', pending', rx') \<Longrightarrow>
   mset (map SegmentMessage segs') + async_left pending' rx' = mset (map SegmentMessage segs) + async_left pending rx \<and>
   length segs \<le> length segs'"
  by (induction n segs pending rx rule: async_segment_drain.induct) (fastforce split: if_splits)+

lemma async_job_microbatch_left:
  assumes "async_job_microbatch first n pending rx = (jobs, pending', rx')"
  shows "mset (map JobMessage jobs) + async_left pending' rx' = add_mset (JobMessage first) (async_left pending rx) \<and> jobs \<noteq> []"
  using assms
  by (fastforce simp: async_job_microbatch_def Let_def dest!: async_job_drain_left async_job_wait_left split: if_splits prod.splits)

lemma async_segment_microbatch_left:
  assumes "async_segment_microbatch first n pending rx = (segs, pending', rx')"
  shows "mset (map SegmentMessage segs) + async_left pending' rx' = add_mset (SegmentMessage first) (async_left pending rx) \<and> segs \<noteq> []"
  using assms
  by (fastforce simp: async_segment_microbatch_def Let_def dest!: async_segment_drain_left async_segment_wait_left split: if_splits prod.splits)

definition async_waiting :: "'f async_state \<Rightarrow> 'f stage_message multiset" where
  "async_waiting = (\<lambda>(state, pending, rx). image_mset Inr (async_left pending rx))"

definition async_turn_outcomes ::
  "'f offline_pipeline \<Rightarrow> 'f asr_options \<Rightarrow> nat \<Rightarrow> 'f async_state \<Rightarrow> ('f outcome list \<times> 'f async_state) option" where
  "async_turn_outcomes p ao n s = map_option (apfst (map stage_outcome)) (async_turn p ao n s)"

lemma distinct_if_filters:
  assumes "\<And>i. length (filter (\<lambda>x. f x = i) xs) \<le> 1"
  shows "distinct (map f xs)"
  using assms
proof (induction xs)
  case (Cons a xs)
  have "length (filter (\<lambda>x. f x = i) xs) \<le> 1" for i using Cons.prems[of i] by (simp split: if_splits)
  moreover have "filter (\<lambda>x. f x = f a) xs = []" using Cons.prems[of "f a"] by simp
  ultimately show ?case using Cons.IH by (auto simp: filter_empty_conv)
qed simp

lemma waiting_ok_jobs:
  assumes "waiting_ok M" "mset (map (\<lambda>job. Inr (JobMessage job)) jobs) \<subseteq># M"
  shows "(\<forall>job\<in>set jobs. plain_job job) \<and> distinct (map aj_index jobs)"
proof
  have ok: "waiting_ok (mset (map (\<lambda>job. Inr (JobMessage job)) jobs))" by (rule waiting_ok_subset[OF assms])
  then show "\<forall>job\<in>set jobs. plain_job job" by (auto simp: waiting_ok_def plain_message_def)
  have "length (filter (\<lambda>job. aj_index job = i) jobs) \<le> 1" for i
    using ok by (simp add: waiting_ok_def mset_filter[symmetric] filter_map comp_def del: mset_map mset_filter)
  then show "distinct (map aj_index jobs)" by (rule distinct_if_filters)
qed

lemma async_turn_spec:
  assumes "pointwise p ao g" "waiting_ok (async_waiting (state, pending, rx))"
    "async_turn p ao n (state, pending, rx) = Some (out, state', pending', rx')"
  shows "(\<exists>jobs. jobs \<noteq> [] \<and> mset (map JobMessage jobs) + async_left pending' rx' = async_left pending rx \<and> state' = state \<and>
      mset (map stage_outcome out) = mset (map (job_outcome g) jobs)) \<or>
    (\<exists>segs. segs \<noteq> [] \<and> mset (map SegmentMessage segs) + async_left pending' rx' = async_left pending rx \<and>
      (state', map stage_outcome out) = segment_batch g state segs)"
proof -
  obtain m p1 r1 where r: "async_recv_message pending rx = Some (m, p1, r1)"
    using assms(3) by (auto simp: async_turn_def split: option.splits)
  note lr = async_recv_message_left[OF r]
  show ?thesis
  proof (cases m)
    case (SegmentMessage s)
    obtain segs p2 r2 where c: "async_segment_microbatch s (max n 1) p1 r1 = (segs, p2, r2)" by (metis prod_cases3)
    note cl = async_segment_microbatch_left[OF c]
    obtain st2 o2 where f: "async_finish_batch (async_prepare_job_state state segs) segs
        (spawn_blocking (async_segment_inference p segs ao)) = (st2, o2)" by fastforce
    have "out = o2 \<and> state' = st2 \<and> pending' = p2 \<and> rx' = r2"
      using assms(3) by (simp add: async_turn_def r SegmentMessage c f Let_def del: One_nat_def)
    moreover have "(st2, map stage_outcome o2) = segment_batch g state segs"
      using async_segment_batch[OF assms(1) conjunct2[OF cl], of state] unfolding f by simp
    ultimately show ?thesis using cl lr SegmentMessage by (intro disjI2 exI[of _ segs]) simp
  next
    case (JobMessage job)
    obtain jobs p2 r2 where c: "async_job_microbatch job (max n 1) p1 r1 = (jobs, p2, r2)" by (metis prod_cases3)
    note cl = async_job_microbatch_left[OF c]
    have left: "mset (map JobMessage jobs) + async_left p2 r2 = async_left pending rx" using cl lr JobMessage by simp
    have "mset (map (\<lambda>job. Inr (JobMessage job)) jobs) \<subseteq># async_waiting (state, pending, rx)"
    proof -
      have "image_mset Inr (mset (map JobMessage jobs)) \<subseteq># image_mset Inr (async_left pending rx)"
        unfolding left[symmetric] by simp
      then show ?thesis by (simp add: async_waiting_def multiset.map_comp comp_def)
    qed
    from waiting_ok_jobs[OF assms(2) this] obtain res where res: "async_jobs_batch p jobs ao = Inr res"
      "mset (map stage_outcome res) = mset (map (job_outcome g) jobs)"
      using async_jobs_batch_pointwise[OF assms(1)] by metis
    have "out = res \<and> state' = state \<and> pending' = p2 \<and> rx' = r2"
      using assms(3) cl res by (auto simp: async_turn_def r JobMessage c simp del: One_nat_def)
    then show ?thesis using left cl res by (intro disjI1 exI[of _ jobs]) simp
  qed
qed

lemma async_turn_None: "async_turn p ao n (state, pending, rx) = None \<Longrightarrow> async_left pending rx = {#}"
  by (auto simp: async_turn_def async_recv_message_None Let_def split: option.splits asr_message.splits prod.splits if_splits)

interpretation async: segment_worker p ao g "async_turn_outcomes p ao n" "\<lambda>s. map stage_outcome (async_worker p ao n s)" fst async_waiting
proof
  show "map stage_outcome (async_worker p ao n s) = (case async_turn_outcomes p ao n s of None \<Rightarrow> []
      | Some (out, s') \<Rightarrow> out @ map stage_outcome (async_worker p ao n s'))" for s
    by (subst async_worker.simps) (simp add: async_turn_outcomes_def split: option.split)
  show "async_waiting s = {#}" if "async_turn_outcomes p ao n s = None" for s :: "'a async_state"
    using that async_turn_None by (cases s) (auto simp: async_waiting_def async_turn_outcomes_def)
  fix s s' :: "'a async_state" and out
  assume "pointwise p ao g" "waiting_ok (async_waiting s)" "async_turn_outcomes p ao n s = Some (out, s')"
  moreover obtain state pending rx state' pending' rx' where s: "s = (state, pending, rx)" "s' = (state', pending', rx')"
    by (metis prod_cases3)
  ultimately obtain rs where t: "async_turn p ao n (state, pending, rx) = Some (rs, state', pending', rx')" "out = map stage_outcome rs"
    by (auto simp: async_turn_outcomes_def)
  have "waiting_ok (async_waiting (state, pending, rx))" using \<open>waiting_ok (async_waiting s)\<close> unfolding s .
  from async_turn_spec[OF \<open>pointwise p ao g\<close> this t(1)]
  show "(\<exists>B. B \<noteq> [] \<and> mset B + async_waiting s' = async_waiting s \<and> (\<forall>m\<in>set B. \<not> is_segment m) \<and> fst s' = fst s \<and>
        mset out = mset (concat (map (message_outcomes g) B))) \<or>
      (\<exists>segs. segs \<noteq> [] \<and> mset (map seg_msg segs) + async_waiting s' = async_waiting s \<and> (fst s', out) = segment_batch g (fst s) segs)"
  proof (elim disjE exE conjE)
    fix jobs assume J: "jobs \<noteq> []" "mset (map JobMessage jobs) + async_left pending' rx' = async_left pending rx" "state' = state"
      "mset (map stage_outcome rs) = mset (map (job_outcome g) jobs)"
    have "image_mset Inr (mset (map JobMessage jobs)) + image_mset Inr (async_left pending' rx') = image_mset Inr (async_left pending rx)"
      unfolding J(2)[symmetric] by simp
    moreover have "concat (map (message_outcomes g) (map (\<lambda>job. Inr (JobMessage job)) jobs)) = map (job_outcome g) jobs"
      by (induction jobs) simp_all
    ultimately show ?thesis using J(1,3,4) unfolding s t(2)
      by (intro disjI1 exI[of _ "map (\<lambda>job. Inr (JobMessage job)) jobs"])
        (auto simp: async_waiting_def multiset.map_comp comp_def)
  next
    fix segs assume S: "segs \<noteq> []" "mset (map SegmentMessage segs) + async_left pending' rx' = async_left pending rx"
      "(state', map stage_outcome rs) = segment_batch g state segs"
    have "image_mset Inr (mset (map SegmentMessage segs)) + image_mset Inr (async_left pending' rx') = image_mset Inr (async_left pending rx)"
      unfolding S(2)[symmetric] by simp
    then show ?thesis using S(1,3) unfolding s t(2)
      by (intro disjI2 exI[of _ segs]) (simp add: async_waiting_def multiset.map_comp comp_def)
  qed
qed


section \<open>All recordings\<close>

fun wave_load :: "'f audio_source \<Rightarrow> 'f waveform result" where
  "wave_load (WaveformSource w) = Inr w"
| "wave_load source = Inl (Err ''not a waveform'')"

definition wave_inputs :: "nat \<Rightarrow> 'f waveform list \<Rightarrow> 'f transcribe_input list" where
  "wave_inputs index ws = map (\<lambda>(i, w). \<lparr>ti_index = i, ti_source = WaveformSource w\<rparr>) (zip [index..<index + length ws] ws)"

lemma wave_inputs_Cons: "wave_inputs index (w # ws) = \<lparr>ti_index = index, ti_source = WaveformSource w\<rparr> # wave_inputs (index + 1) ws"
proof -
  have "[index..<index + length (w # ws)] = index # [index + 1..<index + 1 + length ws]" by (subst upt_rec) simp
  then show ?thesis by (simp add: wave_inputs_def)
qed

lemma wave_inputs_index: "map ti_index (wave_inputs index ws) = [index..<index + length ws]"
  by (simp add: wave_inputs_def comp_def split_beta)

lemma spawn_blocking_Inr [simp]: "spawn_blocking r = Inr x \<longleftrightarrow> r = Inr x" "spawn_blocking (Inr x) = Inr x"
  by (simp_all add: spawn_blocking_def split: sum.split error.split)

text \<open>Detection succeeds exactly when the sequential transcription does.\<close>

lemma sequential_iff:
  assumes "pointwise p ao g"
  shows "is_ok (transcribe_with_vad_options F p w ao vo) \<longleftrightarrow> is_ok (prepare_vad_stage F p w vo)"
  using assms
  by (cases "prepare_vad_stage F p w vo")
    (auto simp: transcribe_with_vad_options_def Let_def pointwise_def transcribe_prepared_def split: vad_preparation.split)

lemma async_vad_worker_ok:
  assumes "async_vad_worker F p vo index ws = (messages, Inr u)"
  shows "map Inr messages = concat (map (input_messages F p vo wave_load) (wave_inputs index ws)) \<and>
    (\<forall>w\<in>set ws. is_ok (prepare_vad_stage F p w vo))"
  using assms
proof (induction ws arbitrary: index messages)
  case (Cons w ws)
  obtain prep where prep: "prepare_vad_stage F p w vo = Inr prep"
    using Cons.prems by (cases "prepare_vad_stage F p w vo") (auto simp: spawn_blocking_def split: error.splits)
  obtain later ended where l: "async_vad_worker F p vo (index + 1) ws = (later, ended)" by fastforce
  show ?case
    using Cons.prems Cons.IH[of "index + 1" later] l prep
    by (cases prep)
      (auto simp: wave_inputs_Cons input_messages_def vad_task_messages_def async_job_to_segments_eq split: sum.splits)
qed (simp add: wave_inputs_def)

lemma async_vad_worker_fails:
  assumes "async_vad_worker F p vo index ws = (messages, Inl e)"
  shows "\<exists>w\<in>set ws. \<not> is_ok (prepare_vad_stage F p w vo)"
  using assms
proof (induction ws arbitrary: index messages)
  case (Cons w ws)
  show ?case
  proof (cases "prepare_vad_stage F p w vo")
    case (Inr prep)
    obtain later ended where l: "async_vad_worker F p vo (index + 1) ws = (later, ended)" by fastforce
    have "is_ok (speech_job_to_segments \<lparr>aj_index = index, aj_prepared = SpeechPrep q, aj_waveform = w\<rparr>)" if "prep = SpeechPrep q" for q
      using prepare_vad_stage_speech[of F p w vo q] Inr that by (simp add: speech_job_to_segments_def)
    then show ?thesis
      using Cons.prems Cons.IH[of "index + 1" later] l Inr
      by (cases prep) (auto simp: async_job_to_segments_eq is_ok_iff split: sum.splits)
  qed simp
qed simp

lemma async_results:
  fixes schedule :: "'f asr_message list \<Rightarrow> 'f async_event list" and p :: "'f offline_pipeline" and n :: nat
  assumes pw: "pointwise p ao g" and v: "async_vad_worker F p vo 0 ws = (messages, Inr u)"
    and sched: "arrivals (schedule messages) = messages" and len: "length messages \<le> usize_max"
  defines "rs \<equiv> sort_key stage_index (async_worker p ao n (Map.empty, [], schedule messages))"
  shows "\<exists>ts ts'. traverse stage_value rs = Inr ts \<and> traverse (\<lambda>w. transcribe_with_vad_options F p w ao vo) ws = Inr ts' \<and>
    list_all2 same_timeline ts ts'"
proof -
  let ?U = "wave_inputs 0 ws"
  define s where "s = (Map.empty :: 'f segment_asr_state, [] :: 'f asr_message list, schedule messages)"
  note vw = async_vad_worker_ok[OF v]
  have w: "async_waiting s = mset (concat (map (input_messages F p vo wave_load) ?U))"
    unfolding conjunct1[OF vw, symmetric] by (simp add: s_def async_waiting_def async_left_def sched)
  have short: "size (async_waiting s) \<le> usize_max" using len by (simp add: s_def async_waiting_def async_left_def sched)
  have d: "distinct (map ti_index ?U)" by (simp add: wave_inputs_index)
  have empty: "fst s = Map.empty" by (simp add: s_def)
  note wo = async.worker_outcomes[OF pw d w short empty, where n = n]
  have mi: "mset (map stage_index rs) = mset [0..<length ws]"
    using wo(2) by (simp add: rs_def s_def[symmetric] wave_inputs_index comp_def)
  have idx: "map stage_index rs = [0..<length ws]"
  proof -
    have "sorted (map stage_index rs)" by (simp add: rs_def)
    from properties_for_sort[OF mi this] show ?thesis by (simp add: sorted_sort_id)
  qed
  have len_rs: "length rs = length ws" using arg_cong[OF idx, of length] by simp
  have ok: "is_ok (transcribe_with_vad_options F p w ao vo)" if "w \<in> set ws" for w
    using conjunct2[OF vw] that by (simp add: sequential_iff[OF pw])
  have one: "\<exists>t t'. stage_value (rs ! i) = Inr t \<and> transcribe_with_vad_options F p (ws ! i) ao vo = Inr t' \<and> same_timeline t t'"
    if i: "i < length ws" for i
  proof -
    define u where "u = \<lparr>ti_index = i, ti_source = WaveformSource (ws ! i)\<rparr>"
    have "u = ?U ! i" using i by (simp add: u_def wave_inputs_def)
    moreover have "length ?U = length ws" by (simp add: wave_inputs_def)
    ultimately have "u \<in> set ?U" using i nth_mem by metis
    from wo(1)[OF this] obtain oc where oc: "sent i (map stage_outcome (async_worker p ao n s)) = [oc]"
      "agrees oc (transcribe_single F p ao vo wave_load u)" by (auto simp: u_def)
    have "rs ! i \<in> set rs" "stage_index (rs ! i) = i" using i len_rs arg_cong[OF idx, of "\<lambda>xs. xs ! i"] by simp_all
    then have "stage_outcome (rs ! i) \<in> set (sent i (map stage_outcome (async_worker p ao n s)))"
      by (simp add: sent_def rs_def s_def)
    then have "stage_outcome (rs ! i) = oc" using oc(1) by simp
    moreover obtain t' where t': "transcribe_with_vad_options F p (ws ! i) ao vo = Inr t'"
      using ok[of "ws ! i"] i by (auto simp: is_ok_iff)
    moreover have "transcribe_single F p ao vo wave_load u = outcome_from_result i (Inr t')"
      by (simp add: transcribe_single_def u_def t')
    ultimately show ?thesis
      using oc(2) by (auto simp: agrees_def outcome_from_result_def split: sum.splits)
  qed
  have "is_ok (traverse (\<lambda>w. transcribe_with_vad_options F p w ao vo) ws)" unfolding is_ok_traverse using ok by blast
  then obtain ts' where ts': "traverse (\<lambda>w. transcribe_with_vad_options F p w ao vo) ws = Inr ts'" by (auto simp: is_ok_iff)
  have "is_ok (traverse stage_value rs)"
    unfolding is_ok_traverse using one len_rs by (metis in_set_conv_nth is_ok_iff)
  then obtain ts where ts: "traverse stage_value rs = Inr ts" by (auto simp: is_ok_iff)
  have "same_timeline (ts ! i) (ts' ! i)" if "i < length ws" for i
    using one[OF that] traverse_nth[OF ts, of i] traverse_nth[OF ts', of i] that len_rs by auto
  then have "list_all2 same_timeline ts ts'"
    using traverse_length[OF ts] traverse_length[OF ts'] len_rs by (simp add: list_all2_conv_all_nth)
  then show ?thesis using ts ts' by blast
qed


section \<open>Properties\<close>


text \<open>Two recordings with two detected ranges each; the second message is late.\<close>

definition late_second :: "'f asr_message list \<Rightarrow> 'f async_event list" where
  "late_second messages = map Arrive (take 1 messages) @ Idle # map Arrive (drop 1 messages)"

lemma arrivals_map: "arrivals (map Arrive messages @ rx) = messages @ arrivals rx" "arrivals (map Arrive messages) = messages"
  by (induction messages) simp_all


text \<open>C40: The annotations of detected speech are lost, and the segments reversed, when a recording without speech is
  followed by one in two segments that have all arrived: the batch of jobs puts the first segment aside and then,
  waiting for another job, takes the second one and puts it in front of the first.\<close>

theorem async_reversed_segments:
  assumes "pointwise p (pl_asr_options options) g" "ao_max_batch_size (pl_asr_options options) \<ge> 2"
    "prepare_vad_stage F p silent (pl_vad_options options) = Inr NoSpeech"
    "prepare_vad_stage F p spoken (pl_vad_options options) = Inr (SpeechPrep q)"
    "vp_segments q = [s0, s1]" "vp_slices q = [w0, w1]" "tl_annotations (g w1) \<noteq> []"
  shows "\<exists>t. async_transcribe_many F p (map Arrive) options [silent, spoken] = Inr [timeline_new (lit ''offline_audio''), t] \<and>
    tl_annotations t = offset_annotations (tl_annotations (g w1)) (tr_start (vs_range s1)) @
      offset_annotations (tl_annotations (g w0)) (tr_start (vs_range s0))"
proof -
  define ao where "ao = pl_asr_options options"
  define n where "n = ao_max_batch_size ao"
  define c where "c = \<lparr>aj_index = 0, aj_prepared = NoSpeech, aj_waveform = silent\<rparr>"
  define b0 where "b0 = \<lparr>sj_job_index = 1, sj_speech_annotations = vp_speech_annotations q, sj_segment_index = 0,
     sj_segment_count = 2, sj_offset = tr_start (vs_range s0), sj_waveform = w0\<rparr>"
  define b1 where "b1 = \<lparr>sj_job_index = 1, sj_speech_annotations = [], sj_segment_index = 1,
     sj_segment_count = 2, sj_offset = tr_start (vs_range s1), sj_waveform = w1\<rparr>"
  let ?a0 = "offset_annotations (tl_annotations (g w0)) (tr_start (vs_range s0))"
  let ?a1 = "offset_annotations (tl_annotations (g w1)) (tr_start (vs_range s1))"
  have n: "n \<ge> 2" using assms(2) by (simp add: n_def ao_def)
  have inference: "async_segment_inference p segs ao = Inr (map (\<lambda>s. g (sj_waveform s)) segs)" for segs
    using assms(1) by (simp add: async_segment_inference_def pointwise_def ao_def)
  have v: "async_vad_worker F p (pl_vad_options options) 0 [silent, spoken] =
      ([JobMessage c, SegmentMessage b0, SegmentMessage b1], Inr ())"
    by (simp add: assms(3-6) async_job_to_segments_def c_def b0_def b1_def numeral_2_eq_2)
  have t1: "async_turn p ao n (Map.empty, [], map Arrive [JobMessage c, SegmentMessage b0, SegmentMessage b1]) =
      Some ([Ready 0 (timeline_new (lit ''offline_audio''))], Map.empty, [SegmentMessage b1, SegmentMessage b0], [])"
    using n by (simp add: async_turn_def async_job_microbatch_def async_jobs_batch_def async_sort_job_def c_def)
  define t where "t = extend_timeline ?a1 (timeline_new (lit ''offline_audio''))"
  define job where "job = \<lparr>js_index = 1, js_speech_annotations = [], js_timeline = t, js_segment_count = 2, js_segments_done = 1\<rparr>"
  have t2: "async_turn p ao n (Map.empty, [SegmentMessage b1, SegmentMessage b0], []) =
      Some ([], [1 \<mapsto> job], [SegmentMessage b0], [])"
    using n
    by (simp add: async_turn_def async_segment_microbatch_def inference async_finish_batch_def async_finish_segment_def
        async_prepare_job_state_def async_segment_entry_def b1_def job_def t_def timeline_new_def saturating_add_def max_values)
  have a1: "tl_annotations t \<noteq> []" using assms(7) by (simp add: t_def extend_timeline_def timeline_new_def offset_annotations_def)
  have t3: "async_turn p ao n ([1 \<mapsto> job], [SegmentMessage b0], []) =
      Some ([Ready 1 (extend_timeline ?a0 t)], Map.empty, [], [])"
    using n a1
    by (simp add: async_turn_def async_segment_microbatch_def inference async_finish_batch_def async_finish_segment_def
        async_prepare_job_state_def async_segment_entry_def b0_def job_def saturating_add_def max_values Let_def)
  have step: "async_worker p ao n s = rs @ async_worker p ao n s'" if "async_turn p ao n s = Some (rs, s')" for s rs s'
    using that by (subst async_worker.simps) simp
  have stop: "async_worker p ao n (st, [], []) = []" for st
    by (subst async_worker.simps) (simp add: async_turn_def)
  have w: "async_worker p ao n (Map.empty, [], map Arrive [JobMessage c, SegmentMessage b0, SegmentMessage b1]) =
      [Ready 0 (timeline_new (lit ''offline_audio'')), Ready 1 (extend_timeline ?a0 t)]"
    unfolding step[OF t1] step[OF t2] step[OF t3] stop by simp
  have "async_transcribe_many F p (map Arrive) options [silent, spoken] =
      Inr [timeline_new (lit ''offline_audio''), extend_timeline ?a0 t]"
    unfolding async_transcribe_many_def v ao_def[symmetric] n_def[symmetric] Let_def prod.case w by simp
  then show ?thesis by (simp add: t_def extend_timeline_def timeline_new_def)
qed

text \<open>An empty recording and the example with its two ranges unmerged, in batches of two; the recogniser finds a word in
  each slice.\<close>

definition quiet_wave :: "int waveform" where
  "quiet_wave = new_with_channels [] 1 1"

definition two_word_pipeline :: "int offline_pipeline" where
  "two_word_pipeline = word_pipeline\<lparr>op_vad := Some (\<lambda>w vo. Inr (if wf_samples w = [] then [] else example_segs))\<rparr>"

definition two_word_options :: "int parallel_options" where
  "two_word_options = \<lparr>pl_asr_options = (default_asr_options example_f32)\<lparr>ao_max_batch_size := 2\<rparr>,
     pl_vad_options = (default_vad_options example_f32)\<lparr>vo_merge_max_gap_ms := 0\<rparr>, pl_stage_buffer = 4\<rparr>"

theorem async_reversed_segments_witness:
  "\<exists>t. async_transcribe_many example_f32 two_word_pipeline (map Arrive) two_word_options [quiet_wave, example_wave] =
      Inr [timeline_new (lit ''offline_audio''), t] \<and>
    map (\<lambda>a. tr_start (an_range a)) (tl_annotations t) = [3500, 500]"
proof -
  define g :: "int waveform \<Rightarrow> int timeline" where "g = (\<lambda>w. timeline_push (timeline_new []) word)"
  have pw: "pointwise two_word_pipeline (pl_asr_options two_word_options) g"
    by (simp add: pointwise_def two_word_pipeline_def word_pipeline_def g_def)
  have wave: "audio_end_ms example_wave = 5000"
    by (simp add: audio_end_ms_def example_wave_def new_with_channels_def frame_count_def div_ceil_def)
  have silent: "prepare_vad_stage example_f32 two_word_pipeline quiet_wave (pl_vad_options two_word_options) = Inr NoSpeech"
    by (simp add: prepare_vad_stage_def two_word_pipeline_def quiet_wave_def new_with_channels_def)
  define s0 where "s0 = (example_segs ! 0)\<lparr>vs_range := time_range_new 500 1700\<rparr>"
  define s1 where "s1 = (example_segs ! 1)\<lparr>vs_range := time_range_new 3500 5000\<rparr>"
  have padded: "map (\<lambda>s. s\<lparr>vs_range := padded_asr_range example_wave s\<rparr>) example_segs = [s0, s1]"
    by (simp add: example_segs_def s0_def s1_def padded_asr_range_def wave pipeline_constants time_range_new_def
        saturating_sub_def saturating_add_def max_values)
  have fields: "wf_samples example_wave = [1, 2, 3, 4, 5]" "wf_sample_rate example_wave = 1" "wf_channels example_wave = 1"
    "frame_count example_wave = 5"
    by (simp_all add: example_wave_def new_with_channels_def frame_count_def)
  have "is_ok (slice_ms example_wave 500 1700)" "is_ok (slice_ms example_wave 3500 5000)"
    by (simp_all add: slice_ms_def fields saturating_mul_def max_values div_ceil_def Let_def)
  then obtain w0 w1 where slices: "slice_ms example_wave 500 1700 = Inr w0" "slice_ms example_wave 3500 5000 = Inr w1"
    by (auto simp: is_ok_iff)
  define q where "q = \<lparr>vp_speech_annotations = map speech_annotation example_segs, vp_segments = [s0, s1], vp_slices = [w0, w1]\<rparr>"
  have range: "vs_range s0 = time_range_new 500 1700" "vs_range s1 = time_range_new 3500 5000" by (simp_all add: s0_def s1_def)
  have options: "op_vad two_word_pipeline = Some (\<lambda>w vo. Inr (if wf_samples w = [] then [] else example_segs))"
    "vo_merge_max_gap_ms (pl_vad_options two_word_options) = 0" "example_segs \<noteq> []"
    "length example_segs = 2"
    by (simp_all add: two_word_pipeline_def two_word_options_def example_segs_def)
  have spoken: "prepare_vad_stage example_f32 two_word_pipeline example_wave (pl_vad_options two_word_options) = Inr (SpeechPrep q)"
    "vp_segments q = [s0, s1]" "vp_slices q = [w0, w1]"
    by (simp_all add: prepare_vad_stage_def options fields(1) merge_vad_segments_for_asr_def padded covers_full_waveform_def range
        time_range_new_def slices q_def Let_def)
  have batch: "2 \<le> ao_max_batch_size (pl_asr_options two_word_options)" by (simp add: two_word_options_def)
  have found: "tl_annotations (g w1) \<noteq> []" by (simp add: g_def timeline_push_def timeline_new_def)
  have at: "map (\<lambda>a. tr_start (an_range a)) (offset_annotations (tl_annotations (g w)) off) = [off]" if "off \<le> usize_max" for w off
    using that by (simp add: g_def timeline_push_def timeline_new_def word_def annotation_new_def offset_annotations_def
        offset_annotation_def time_range_new_def saturating_add_def)
  obtain t where t: "async_transcribe_many example_f32 two_word_pipeline (map Arrive) two_word_options [quiet_wave, example_wave] =
      Inr [timeline_new (lit ''offline_audio''), t]"
    "tl_annotations t = offset_annotations (tl_annotations (g w1)) (tr_start (vs_range s1)) @
      offset_annotations (tl_annotations (g w0)) (tr_start (vs_range s0))"
    using async_reversed_segments[OF pw batch silent spoken(1-3) found] by blast
  show ?thesis using t by (intro exI[of _ t]) (simp add: range time_range_new_def at max_values)
qed

end
