(* ===== verification/AudioSplit.thy ===== *)
theory AudioSplit
  imports AudioStream RustText
begin

text \<open>
  Splitting long audio at quiet places (\<^verbatim>\<open>vasr-models/src/audio/chunking.rs\<close>).

  Positions are sums of lengths of one slice of \<^verbatim>\<open>f32\<close>, which holds fewer than \<^verbatim>\<open>2 ^ 61\<close> samples, so no
  saturating addition of the source saturates and they are written \<open>+\<close>.  The two loops that read
  a window by index run over the pairs of samples that enter and leave it.
\<close>

section \<open>The quietest place of a segment\<close>

record 'f split_chunk =
  sc_wav :: "'f list"
  sc_offset_sec :: 'f

definition MIN_ASR_INPUT_SECONDS :: "'f f32_ops \<Rightarrow> 'f" where "MIN_ASR_INPUT_SECONDS F = f_lit F 1 2"
definition DEFAULT_SEARCH_EXPAND_SEC :: "'f f32_ops \<Rightarrow> 'f" where "DEFAULT_SEARCH_EXPAND_SEC F = f_lit F 5 1"
definition DEFAULT_MIN_WINDOW_MS :: "'f f32_ops \<Rightarrow> 'f" where "DEFAULT_MIN_WINDOW_MS F = f_lit F 100 1"

fun slide_min :: "'f f32_ops \<Rightarrow> ('f \<times> 'f) list \<Rightarrow> nat \<Rightarrow> 'f \<Rightarrow> 'f \<Rightarrow> nat \<Rightarrow> nat" where
  "slide_min F [] pos window_sum min_sum min_pos = min_pos"
| "slide_min F ((entering, leaving) # moves) pos window_sum min_sum min_pos =
    (let window_sum = f_sub F (f_add F window_sum entering) leaving
     in if f_lt F window_sum min_sum then slide_min F moves (pos + 1) window_sum window_sum pos
        else slide_min F moves (pos + 1) window_sum min_sum min_pos)"

definition quietest_window :: "'f f32_ops \<Rightarrow> nat \<Rightarrow> 'f list \<Rightarrow> nat" where
  "quietest_window F win seg_abs =
    (let window_sum = f_sum F (take win seg_abs)
     in slide_min F (zip (drop win seg_abs) seg_abs) 1 window_sum window_sum 0)"

fun quietest_sample :: "'f f32_ops \<Rightarrow> 'f list \<Rightarrow> nat \<Rightarrow> 'f \<Rightarrow> nat \<Rightarrow> nat" where
  "quietest_sample F [] idx inner_min inner_pos = inner_pos"
| "quietest_sample F (v # vs) idx inner_min inner_pos =
    (if f_lt F v inner_min then quietest_sample F vs (idx + 1) v idx
     else quietest_sample F vs (idx + 1) inner_min inner_pos)"

definition quiet_boundary :: "'f f32_ops \<Rightarrow> 'f list \<Rightarrow> nat \<Rightarrow> nat \<Rightarrow> nat \<Rightarrow> nat" where
  "quiet_boundary F seg win left cut_pos =
    (let seg_abs = map (f_abs F) seg
     in if length seg_abs \<le> win then cut_pos
        else let min_pos = quietest_window F win seg_abs;
                 local_abs = slice min_pos (min_pos + win) seg_abs
             in left + min_pos + quietest_sample F (tl local_abs) 1 (hd local_abs) 0)"

definition clamp_boundary :: "nat \<Rightarrow> nat \<Rightarrow> nat \<Rightarrow> nat" where
  "clamp_boundary start total_len boundary =
    (let min_boundary = start + 1;
         boundary = (if boundary < min_boundary then min_boundary else boundary)
     in if boundary > total_len then total_len else boundary)"

definition split_boundary :: "'f f32_ops \<Rightarrow> 'f list \<Rightarrow> nat \<Rightarrow> nat \<Rightarrow> nat \<Rightarrow> nat \<Rightarrow> nat" where
  "split_boundary F wav max_len expand win start =
    (let total_len = length wav;
         cut_pos = start + max_len;
         left = max (saturating_sub cut_pos expand) start;
         right = min (cut_pos + expand) total_len;
         boundary = (if saturating_sub right left \<le> win then cut_pos
                     else quiet_boundary F (slice left right wav) win left cut_pos)
     in clamp_boundary start total_len boundary)"

lemma clamp_boundary_progress: "start < n \<Longrightarrow> start < clamp_boundary start n b"
  by (simp add: clamp_boundary_def)

lemma split_boundary_progress: "start < length wav \<Longrightarrow> start < split_boundary F wav max_len expand win start"
  unfolding split_boundary_def Let_def by (rule clamp_boundary_progress)

section \<open>The loop\<close>

function split_loop :: "'f f32_ops \<Rightarrow> 'f list \<Rightarrow> nat \<Rightarrow> nat \<Rightarrow> nat \<Rightarrow> nat \<Rightarrow> nat \<Rightarrow> 'f \<Rightarrow> 'f split_chunk list" where
  "split_loop F wav sr max_len expand win start offset_sec =
    (if saturating_sub (length wav) start > max_len
     then let boundary = split_boundary F wav max_len expand win start
          in \<lparr>sc_wav = slice start boundary wav, sc_offset_sec = offset_sec\<rparr> #
             split_loop F wav sr max_len expand win boundary
               (f_add F offset_sec (f_div F (f_int F (int (saturating_sub boundary start))) (f_int F (int sr))))
     else [\<lparr>sc_wav = slice start (length wav) wav, sc_offset_sec = offset_sec\<rparr>])"
  by pat_completeness auto
termination
  by (relation "measure (\<lambda>(F, wav, sr, max_len, expand, win, start, offset_sec). length wav - start)")
    (simp_all add: saturating_sub_def diff_less_mono2 split_boundary_progress)

declare split_loop.simps [simp del]

definition pad_wav :: "'f f32_ops \<Rightarrow> nat \<Rightarrow> 'f list \<Rightarrow> 'f list" where
  "pad_wav F min_len wav = (if length wav < min_len then wav @ replicate (min_len - length wav) (f_lit F 0 1) else wav)"

definition split_max_len :: "'f f32_ops \<Rightarrow> nat \<Rightarrow> 'f \<Rightarrow> nat" where
  "split_max_len F sr max_chunk_sec = max (f_to_usize F (f_mul F max_chunk_sec (f_int F (int sr)))) 1"

definition split_audio_into_chunks :: "'f f32_ops \<Rightarrow> 'f list \<Rightarrow> nat \<Rightarrow> 'f \<Rightarrow> 'f split_chunk list result" where
  "split_audio_into_chunks F wav sr max_chunk_sec =
    (if sr = 0 then Inl (Err ''invalid sample_rate=0'')
     else if \<not> f_is_finite F max_chunk_sec \<or> f_le F max_chunk_sec (f_lit F 0 1)
     then Inl (Err ''max_chunk_sec must be finite and > 0'')
     else let total_sec = f_div F (f_int F (int (length wav))) (f_int F (int sr))
          in if f_le F total_sec max_chunk_sec then Inr [\<lparr>sc_wav = wav, sc_offset_sec = f_lit F 0 1\<rparr>]
             else let max_len = split_max_len F sr max_chunk_sec;
                      expand = min (f_to_usize F (f_mul F (DEFAULT_SEARCH_EXPAND_SEC F) (f_int F (int sr)))) (max_len div 2);
                      win = max (f_to_usize F (f_mul F (f_div F (DEFAULT_MIN_WINDOW_MS F) (f_int F 1000)) (f_int F (int sr)))) 4;
                      chunks = split_loop F wav sr max_len expand win 0 (f_lit F 0 1);
                      min_len = f_to_usize F (f_mul F (MIN_ASR_INPUT_SECONDS F) (f_int F (int sr)))
                  in Inr (map (\<lambda>c. c\<lparr>sc_wav := pad_wav F min_len (sc_wav c)\<rparr>) chunks))"

lemma slice_drop: "a \<le> b \<Longrightarrow> slice a b xs @ drop b xs = drop a xs"
  using append_take_drop_id[of "b - a" "drop a xs"] by (simp add: slice_def)

section \<open>Where a boundary lies\<close>

lemma slide_min_range:
  "slide_min F moves pos s m p = p \<or> slide_min F moves pos s m p < pos + length moves"
proof (induction F moves pos s m p rule: slide_min.induct)
  case (2 F a r moves pos s m p)
  then show ?case by (cases "f_lt F (f_sub F (f_add F s a) r) m") (auto simp: Let_def)
qed simp

lemma quietest_window_range:
  assumes "win \<le> length xs"
  shows "quietest_window F win xs + win \<le> length xs"
proof -
  have "length (zip (drop win xs) xs) = length xs - win" by simp
  then show ?thesis
    using slide_min_range[of F "zip (drop win xs) xs" 1 "f_sum F (take win xs)" "f_sum F (take win xs)" 0] assms
    unfolding quietest_window_def Let_def by linarith
qed

lemma quietest_sample_range: "quietest_sample F vs idx m p = p \<or> quietest_sample F vs idx m p < idx + length vs"
proof (induction F vs idx m p rule: quietest_sample.induct)
  case (2 F v vs idx m p)
  then show ?case by (cases "f_lt F v m") auto
qed simp

lemma quiet_boundary_range:
  assumes "win < length seg" "0 < win"
  shows "left \<le> quiet_boundary F seg win left cut_pos \<and> quiet_boundary F seg win left cut_pos < left + length seg"
proof -
  define p where "p = quietest_window F win (map (f_abs F) seg)"
  define l where "l = slice p (p + win) (map (f_abs F) seg)"
  have p: "p + win \<le> length seg" using quietest_window_range[of win "map (f_abs F) seg" F] assms(1) by (simp add: p_def)
  have "length l = win" using p by (simp add: l_def slice_def)
  then have "quietest_sample F (tl l) 1 (hd l) 0 < win"
    using quietest_sample_range[of F "tl l" 1 "hd l" 0] assms(2) by auto
  then show ?thesis using p assms(1) by (simp add: quiet_boundary_def Let_def p_def[symmetric] l_def[symmetric])
qed

lemma split_boundary_range:
  fixes F :: "'f f32_ops"
  assumes "max_len < length wav - start" "1 \<le> max_len" "expand \<le> max_len div 2" "1 \<le> win"
  defines "b \<equiv> split_boundary F wav max_len expand win start"
  shows "start + (max_len - max_len div 2) \<le> b \<and> b \<le> start + max_len + max_len div 2 \<and> b < length wav"
proof -
  define cut_pos where "cut_pos = start + max_len"
  define left where "left = max (cut_pos - expand) start"
  define right where "right = min (cut_pos + expand) (length wav)"
  define b0 where "b0 = (if right - left \<le> win then cut_pos else quiet_boundary F (slice left right wav) win left cut_pos)"
  have "expand + start \<le> cut_pos" using assms(3) div_le_dividend[of max_len 2] unfolding cut_pos_def by linarith
  then have left: "left = cut_pos - expand" by (simp add: left_def)
  have low: "start + (max_len - max_len div 2) \<le> left"
    using assms(3) unfolding left cut_pos_def by linarith
  have pos: "start + 1 \<le> left" using low assms(2) by linarith
  have b0: "left \<le> b0 \<and> b0 \<le> cut_pos + expand \<and> b0 < length wav"
  proof (cases "right - left \<le> win")
    case True
    have "cut_pos < length wav" using assms(1) by (simp add: cut_pos_def)
    then show ?thesis using True by (simp add: b0_def left)
  next
    case False
    then have "length (slice left right wav) = right - left" by (simp add: slice_def right_def)
    then have "left \<le> b0 \<and> b0 < left + (right - left)"
      using quiet_boundary_range[of win "slice left right wav" left F cut_pos] False assms(4) by (simp add: b0_def)
    moreover have "right \<le> cut_pos + expand" "right \<le> length wav" by (simp_all add: right_def)
    ultimately show ?thesis by linarith
  qed
  have "b = clamp_boundary start (length wav) b0"
    by (simp add: b_def split_boundary_def Let_def saturating_sub_def cut_pos_def left_def right_def b0_def)
  also have "\<dots> = b0" using b0 pos by (simp add: clamp_boundary_def)
  finally show ?thesis using b0 low assms(3) unfolding cut_pos_def by linarith
qed

section \<open>Properties\<close>

text \<open>The offsets of consecutive pieces, as the code accumulates them.\<close>

fun piece_offsets :: "'f f32_ops \<Rightarrow> nat \<Rightarrow> 'f \<Rightarrow> 'f list list \<Rightarrow> 'f list" where
  "piece_offsets F sr off [] = []"
| "piece_offsets F sr off (p # ps) =
    off # piece_offsets F sr (f_add F off (f_div F (f_int F (int (length p))) (f_int F (int sr)))) ps"

definition long_pieces :: "nat \<Rightarrow> 'f list list \<Rightarrow> bool" where
  "long_pieces max_len ps \<longleftrightarrow> ps \<noteq> [] \<and>
     (\<forall>p\<in>set (butlast ps). max_len - max_len div 2 \<le> length p \<and> length p \<le> max_len + max_len div 2) \<and>
     length (last ps) \<le> max_len \<and> last ps \<noteq> []"

definition covers_from :: "'f f32_ops \<Rightarrow> nat \<Rightarrow> 'f list \<Rightarrow> nat \<Rightarrow> nat \<Rightarrow> 'f \<Rightarrow> 'f split_chunk list \<Rightarrow> bool" where
  "covers_from F sr wav max_len start off cs \<longleftrightarrow> concat (map sc_wav cs) = drop start wav \<and>
     long_pieces max_len (map sc_wav cs) \<and> map sc_offset_sec cs = piece_offsets F sr off (map sc_wav cs)"

lemma covers_from_step:
  assumes "covers_from F sr wav max_len b (f_add F off (f_div F (f_int F (int (b - start))) (f_int F (int sr)))) cs"
    "start \<le> b" "b < length wav" "max_len - max_len div 2 \<le> b - start" "b - start \<le> max_len + max_len div 2"
  shows "covers_from F sr wav max_len start off (\<lparr>sc_wav = slice start b wav, sc_offset_sec = off\<rparr> # cs)"
proof -
  have "length (slice start b wav) = b - start" using assms(2,3) by (simp add: slice_def)
  moreover have "slice start b wav @ drop b wav = drop start wav" by (rule slice_drop[OF assms(2)])
  ultimately show ?thesis using assms by (simp add: covers_from_def long_pieces_def)
qed

lemma split_loop_covers:
  assumes "start < length wav" "1 \<le> max_len" "expand \<le> max_len div 2" "1 \<le> win"
  shows "covers_from F sr wav max_len start off (split_loop F wav sr max_len expand win start off)"
  using assms
proof (induction "length wav - start" arbitrary: start off rule: less_induct)
  case less
  show ?case
  proof (cases "max_len < length wav - start")
    case False
    then have "split_loop F wav sr max_len expand win start off = [\<lparr>sc_wav = slice start (length wav) wav, sc_offset_sec = off\<rparr>]"
      by (subst split_loop.simps) (simp add: saturating_sub_def)
    then show ?thesis using False less(2) by (simp add: covers_from_def long_pieces_def slice_rest)
  next
    case True
    define b where "b = split_boundary F wav max_len expand win start"
    note br = split_boundary_range[OF True less(3-5), of F, folded b_def]
    have bl: "max_len - max_len div 2 \<le> b - start" "b - start \<le> max_len + max_len div 2" using br by linarith+
    have b: "start < b" "b < length wav"
      using br split_boundary_progress[OF less(2)] unfolding b_def by blast+
    have loop: "split_loop F wav sr max_len expand win start off =
        \<lparr>sc_wav = slice start b wav, sc_offset_sec = off\<rparr> # split_loop F wav sr max_len expand win b
          (f_add F off (f_div F (f_int F (int (b - start))) (f_int F (int sr))))"
      using True by (subst split_loop.simps) (simp add: saturating_sub_def b_def Let_def)
    have "length wav - b < length wav - start" using b by linarith
    from less(1)[OF this b(2) less(3-5)] show ?thesis
      unfolding loop by (rule covers_from_step) (use b bl in linarith)+
  qed
qed



end
