(* ===== verification/AsrOutput.thy ===== *)
theory AsrOutput
  imports RustText
begin

text \<open>
  The text that the recogniser generates (\<^verbatim>\<open>vasr-models/src/inference/utils.rs\<close>): language names, the
  compression of pathological repetitions, and the parser of \<open>language L<asr_text>...\<close>.  Case conversion beyond
  ASCII needs the Unicode tables and is a parameter.
\<close>

section \<open>Languages\<close>

record case_env =
  to_uppercase :: "rchar \<Rightarrow> rstring"
  to_lowercase :: "rchar \<Rightarrow> rstring"

definition SUPPORTED_LANGUAGES :: "rstring list" where
  "SUPPORTED_LANGUAGES = map lit [''Chinese'', ''English'', ''Cantonese'', ''Arabic'', ''German'', ''French'',
     ''Spanish'', ''Portuguese'', ''Indonesian'', ''Italian'', ''Korean'', ''Russian'', ''Thai'', ''Vietnamese'',
     ''Japanese'', ''Turkish'', ''Hindi'', ''Malay'', ''Dutch'', ''Swedish'', ''Danish'', ''Finnish'', ''Polish'',
     ''Czech'', ''Filipino'', ''Persian'', ''Greek'', ''Romanian'', ''Hungarian'', ''Macedonian'']"

definition language_aliases :: "(string list \<times> string) list" where
  "language_aliases =
    [([''zh'', ''zh-cn'', ''zh-hans'', ''cmn'', ''mandarin'', ''chinese''], ''Chinese''),
     ([''yue'', ''zh-yue'', ''zh-hk'', ''cantonese''], ''Cantonese''),
     ([''en'', ''english''], ''English''), ([''ar'', ''arabic''], ''Arabic''), ([''de'', ''german''], ''German''),
     ([''fr'', ''french''], ''French''), ([''es'', ''spanish''], ''Spanish''),
     ([''pt'', ''portuguese''], ''Portuguese''), ([''id'', ''indonesian''], ''Indonesian''),
     ([''it'', ''italian''], ''Italian''), ([''ko'', ''korean''], ''Korean''), ([''ru'', ''russian''], ''Russian''),
     ([''th'', ''thai''], ''Thai''), ([''vi'', ''vietnamese''], ''Vietnamese''), ([''ja'', ''japanese''], ''Japanese''),
     ([''tr'', ''turkish''], ''Turkish''), ([''hi'', ''hindi''], ''Hindi''), ([''ms'', ''malay''], ''Malay''),
     ([''nl'', ''dutch''], ''Dutch''), ([''sv'', ''swedish''], ''Swedish''), ([''da'', ''danish''], ''Danish''),
     ([''fi'', ''finnish''], ''Finnish''), ([''pl'', ''polish''], ''Polish''), ([''cs'', ''czech''], ''Czech''),
     ([''fil'', ''tl'', ''filipino'', ''tagalog''], ''Filipino''), ([''fa'', ''pes'', ''persian'', ''farsi''], ''Persian''),
     ([''el'', ''greek''], ''Greek''), ([''ro'', ''romanian''], ''Romanian''), ([''hu'', ''hungarian''], ''Hungarian''),
     ([''mk'', ''macedonian''], ''Macedonian'')]"

definition ascii_lowercase :: "rstring \<Rightarrow> rstring" where
  "ascii_lowercase s = map ascii_lower s"

definition language_alias :: "rstring \<Rightarrow> rstring option" where
  "language_alias language =
    map_option (\<lambda>(_, canonical). lit canonical)
      (List.find (\<lambda>(names, _). ascii_lowercase (trim language) \<in> set (map lit names)) language_aliases)"

definition normalize_language_name :: "case_env \<Rightarrow> rstring \<Rightarrow> rstring result" where
  "normalize_language_name env language =
    (let s = trim language
     in if s = [] then Inl (Err ''language is empty'')
        else (case language_alias s of
           Some canonical \<Rightarrow> Inr canonical
         | None \<Rightarrow> Inr (to_uppercase env (hd s) @ concat (map (to_lowercase env) (tl s)))))"

definition validate_language :: "rstring \<Rightarrow> unit result" where
  "validate_language language =
    (if language \<in> set SUPPORTED_LANGUAGES then Inr () else Inl (Err ''Unsupported language''))"

section \<open>Repetitions\<close>

definition DEFAULT_REPETITION_THRESHOLD :: nat where "DEFAULT_REPETITION_THRESHOLD = 20"
definition MAX_PATTERN_LEN :: nat where "MAX_PATTERN_LEN = 20"

fun fix_char_repeats :: "nat \<Rightarrow> 'c list \<Rightarrow> 'c list" where
  "fix_char_repeats thresh [] = []"
| "fix_char_repeats thresh (c # cs) =
    (let count = 1 + length (takeWhile (\<lambda>x. x = c) cs)
     in (if count > thresh then [c] else replicate count c) @ fix_char_repeats thresh (drop (count - 1) cs))"

text \<open>The copies of a pattern at the start of a text, skipped.\<close>

function skip_repeats :: "'c list \<Rightarrow> 'c list \<Rightarrow> 'c list" where
  "skip_repeats pattern ys =
    (if pattern \<noteq> [] \<and> take (length pattern) ys = pattern then skip_repeats pattern (drop (length pattern) ys) else ys)"
  by pat_completeness auto
termination
proof (relation "measure (\<lambda>(pattern, ys). length ys)")
  fix pattern ys :: "'c list"
  assume p: "pattern \<noteq> [] \<and> take (length pattern) ys = pattern"
  then have "ys \<noteq> []" by auto
  then show "((pattern, drop (length pattern) ys), pattern, ys) \<in> measure (\<lambda>(pattern, ys). length ys)"
    using p by simp
qed simp

declare skip_repeats.simps [simp del]

text \<open>The shortest pattern repeated at the start of a text, with what follows its copies.\<close>

fun find_pattern :: "nat \<Rightarrow> 'c list \<Rightarrow> nat list \<Rightarrow> ('c list \<times> 'c list) option" where
  "find_pattern thresh xs [] = None"
| "find_pattern thresh xs (k # ks) =
    (let needed = k * thresh
     in if length xs < needed then None
        else let pattern = take k xs
             in if list_all (\<lambda>rep. slice (rep * k) (rep * k + k) xs = pattern) [1..<thresh]
                then Some (pattern, skip_repeats pattern (drop needed xs))
                else find_pattern thresh xs ks)"

lemma skip_repeats_length: "length (skip_repeats p ys) \<le> length ys"
proof (induction p ys rule: skip_repeats.induct)
  case (1 p ys)
  show ?case
  proof (cases "p \<noteq> [] \<and> take (length p) ys = p")
    case True
    then show ?thesis using 1 by (subst skip_repeats.simps) simp
  next
    case False
    then show ?thesis by (subst skip_repeats.simps) auto
  qed
qed

lemma find_pattern_length:
  assumes "find_pattern thresh xs ks = Some (p, rest)" "1 \<le> thresh" "\<forall>k\<in>set ks. 1 \<le> k"
  shows "length rest < length xs"
  using assms
proof (induction thresh xs ks rule: find_pattern.induct)
  case (2 thresh xs k ks)
  have "0 < k * thresh" using 2(3,4) by simp
  moreover have "length (skip_repeats (take k xs) (drop (k * thresh) xs)) \<le> length xs - k * thresh"
    using skip_repeats_length[of "take k xs" "drop (k * thresh) xs"] by simp
  ultimately have less: "k * thresh \<le> length xs \<Longrightarrow> length (skip_repeats (take k xs) (drop (k * thresh) xs)) < length xs"
    by linarith
  show ?case
  proof (cases "length xs < k * thresh")
    case False
    then show ?thesis using 2 less by (auto simp: Let_def split: if_splits)
  qed (use 2(2) in simp)
qed simp

function fix_pattern_repeats :: "nat \<Rightarrow> nat \<Rightarrow> 'c list \<Rightarrow> 'c list" where
  "fix_pattern_repeats thresh max_len xs =
    (if thresh = 0 \<or> length xs < thresh * 2 then xs
     else (case find_pattern thresh xs [1..<max_len + 1] of
             Some (pattern, rest) \<Rightarrow> pattern @ fix_pattern_repeats thresh max_len rest
           | None \<Rightarrow> hd xs # fix_pattern_repeats thresh max_len (tl xs)))"
  by pat_completeness auto
termination
proof (relation "measure (\<lambda>(thresh, max_len, xs). length xs)")
  fix thresh max_len :: nat and xs pattern rest :: "'c list" and x :: "'c list \<times> 'c list"
  assume a: "\<not> (thresh = 0 \<or> length xs < thresh * 2)" "find_pattern thresh xs [1..<max_len + 1] = Some x" "(pattern, rest) = x"
  then have "xs \<noteq> []" by auto
  then show "((thresh, max_len, rest), thresh, max_len, xs) \<in> measure (\<lambda>(thresh, max_len, xs). length xs)"
    using a find_pattern_length[of thresh xs "[1..<max_len + 1]" pattern rest] by auto
next
  fix thresh max_len :: nat and xs :: "'c list"
  assume "\<not> (thresh = 0 \<or> length xs < thresh * 2)"
  then show "((thresh, max_len, tl xs), thresh, max_len, xs) \<in> measure (\<lambda>(thresh, max_len, xs). length xs)"
    by (cases xs) auto
qed simp

declare fix_pattern_repeats.simps [simp del]

text \<open>With the threshold 0 the source slices past the end of the text.\<close>

definition detect_and_fix_repetitions :: "rstring \<Rightarrow> nat \<Rightarrow> rstring result" where
  "detect_and_fix_repetitions tx threshold =
    (if threshold = 0 then Inl (Panic ''slice index out of range'')
     else Inr (fix_pattern_repeats threshold MAX_PATTERN_LEN (fix_char_repeats threshold tx)))"

section \<open>The parser\<close>

definition ASR_TEXT_TAG :: rstring where "ASR_TEXT_TAG = lit ''<asr_text>''"
definition LANG_PREFIX :: rstring where "LANG_PREFIX = lit ''language ''"

definition starts_with :: "rstring \<Rightarrow> rstring \<Rightarrow> bool" where
  "starts_with s p \<longleftrightarrow> take (length p) s = p"

fun split_once :: "rstring \<Rightarrow> rstring \<Rightarrow> (rstring \<times> rstring) option" where
  "split_once tag [] = (if tag = [] then Some ([], []) else None)"
| "split_once tag (c # cs) =
    (if starts_with (c # cs) tag then Some ([], drop (length tag) (c # cs))
     else map_option (\<lambda>(a, b). (c # a, b)) (split_once tag cs))"

definition str_contains :: "rstring \<Rightarrow> rstring \<Rightarrow> bool" where
  "str_contains s p \<longleftrightarrow> split_once p s \<noteq> None"

definition looks_like_metadata_only_output :: "case_env \<Rightarrow> rstring \<Rightarrow> bool" where
  "looks_like_metadata_only_output env s =
    (case split_whitespace s of
       [] \<Rightarrow> True
     | first # remaining \<Rightarrow>
        (if \<not> eq_ignore_ascii_case first (lit ''language'') then starts_with (ascii_lowercase first) (lit ''language'')
         else if remaining = [] then True
         else length remaining = 1 \<and>
           (eq_ignore_ascii_case (hd remaining) (lit ''none'') \<or> is_ok (normalize_language_name env (hd remaining)))))"

fun meta_language :: "case_env \<Rightarrow> rstring list \<Rightarrow> rstring" where
  "meta_language env [] = []"
| "meta_language env (line # lines) =
    (let line = trim line
     in if line = [] then meta_language env lines
        else if starts_with (ascii_lowercase line) LANG_PREFIX
        then let val = trim (drop (length LANG_PREFIX) line)
             in if val = [] then []
                else (case normalize_language_name env val of Inr normalized \<Rightarrow> normalized | Inl _ \<Rightarrow> [])
        else meta_language env lines)"

definition parse_asr_output :: "case_env \<Rightarrow> rstring option \<Rightarrow> rstring option \<Rightarrow> rstring \<times> rstring" where
  "parse_asr_output env raw user_language =
    (case raw of
       None \<Rightarrow> ([], [])
     | Some raw \<Rightarrow>
        (let s0 = trim raw
         in if s0 = [] then ([], [])
            else (case detect_and_fix_repetitions s0 DEFAULT_REPETITION_THRESHOLD of
               Inl _ \<Rightarrow> ([], [])
             | Inr s \<Rightarrow>
               (case user_language of
                  Some lang \<Rightarrow> (lang, s)
                | None \<Rightarrow>
                   (case split_once ASR_TEXT_TAG s of
                      None \<Rightarrow> if looks_like_metadata_only_output env s then ([], []) else ([], trim s)
                    | Some (meta_part, text_part) \<Rightarrow>
                       (if str_contains (ascii_lowercase meta_part) (lit ''language none'')
                        then (let t = trim text_part in if t = [] then ([], []) else ([], t))
                        else (meta_language env (str_lines meta_part), trim text_part)))))))"

fun merge_language_list :: "rstring option \<Rightarrow> rstring list \<Rightarrow> rstring list" where
  "merge_language_list prev [] = []"
| "merge_language_list prev (x # xs) =
    (let x = trim x
     in if x = [] then merge_language_list prev xs
        else if prev = Some x then merge_language_list prev xs
        else x # merge_language_list (Some x) xs)"

definition merge_languages :: "rstring list \<Rightarrow> rstring" where
  "merge_languages langs = intersperse_concat (lit '','') (merge_language_list None langs)"

section \<open>Trimming and splitting\<close>

lemma trim_id:
  assumes "s \<noteq> []" "\<not> is_whitespace (hd s)" "\<not> is_whitespace (last s)"
  shows "trim s = s"
proof -
  have "dropWhile is_whitespace s = s" "dropWhile is_whitespace (rev s) = rev s"
    using assms by (simp_all add: dropWhile_eq_self_iff hd_rev)
  then show ?thesis by (simp add: trim_def trim_start_def)
qed

lemma trimmed_ends:
  assumes "trim s = s" "s \<noteq> []"
  shows "\<not> is_whitespace (last s)"
proof -
  define u where "u = dropWhile is_whitespace (rev (trim_start s))"
  have "rev u = s" using assms(1) by (simp add: trim_def u_def)
  then have "u \<noteq> []" "last s = hd u" using assms(2) by (auto simp: last_rev)
  then show ?thesis using hd_dropWhile[of is_whitespace "rev (trim_start s)"] by (simp add: u_def)
qed

lemma split_once_first: "hd tag \<notin> set m \<Longrightarrow> tag \<noteq> [] \<Longrightarrow> split_once tag (m @ tag @ t) = Some (m, t)"
proof (induction m)
  case Nil
  then show ?case by (cases tag) (simp_all add: starts_with_def)
next
  case (Cons c m)
  then have "\<not> starts_with ((c # m) @ tag @ t) tag" by (cases tag) (auto simp: starts_with_def)
  then show ?case using Cons by simp
qed

lemma split_lines_single: "10 \<notin> set s \<Longrightarrow> cur @ s \<noteq> [] \<Longrightarrow> split_lines cur s = [cur @ s]"
  by (induction s arbitrary: cur) auto

section \<open>Properties\<close>

definition plain_language :: "case_env \<Rightarrow> rstring \<Rightarrow> bool" where
  "plain_language env l \<longleftrightarrow> l \<noteq> [] \<and> 60 \<notin> set l \<and> 10 \<notin> set l \<and> \<not> is_whitespace (hd l) \<and> \<not> is_whitespace (last l) \<and>
     \<not> str_contains (ascii_lowercase (LANG_PREFIX @ l)) (lit ''language none'') \<and>
     starts_with (ascii_lowercase (LANG_PREFIX @ l)) LANG_PREFIX \<and> normalize_language_name env l = Inr l"

lemma all_supported:
  assumes "list_all P (map lit [''Chinese'', ''English'', ''Cantonese'', ''Arabic'', ''German'', ''French'',
     ''Spanish'', ''Portuguese'', ''Indonesian'', ''Italian'', ''Korean'', ''Russian'', ''Thai'', ''Vietnamese'',
     ''Japanese'', ''Turkish'', ''Hindi'', ''Malay'', ''Dutch'', ''Swedish'', ''Danish'', ''Finnish'', ''Polish'',
     ''Czech'', ''Filipino'', ''Persian'', ''Greek'', ''Romanian'', ''Hungarian'', ''Macedonian''])"
  shows "l \<in> set SUPPORTED_LANGUAGES \<Longrightarrow> P l"
  using assms unfolding SUPPORTED_LANGUAGES_def list_all_iff by blast

lemma supported_letters: "l \<in> set SUPPORTED_LANGUAGES \<Longrightarrow> l \<noteq> [] \<and> (\<forall>c\<in>set l. 65 \<le> c \<and> c \<le> 122)"
  by (rule all_supported) (simp_all add: lit_def)

lemma no_none: "l \<in> set SUPPORTED_LANGUAGES \<Longrightarrow> \<not> str_contains (ascii_lowercase (LANG_PREFIX @ l)) (lit ''language none'')"
  by (rule all_supported) (simp_all add: lit_def LANG_PREFIX_def str_contains_def starts_with_def ascii_lowercase_def ascii_lower_def)

lemma own_alias: "l \<in> set SUPPORTED_LANGUAGES \<Longrightarrow> language_alias l = Some l"
  by (rule all_supported[of "\<lambda>l. language_alias l = Some l"])
    (simp_all add: lit_def language_alias_def language_aliases_def ascii_lowercase_def ascii_lower_def
      trim_def trim_start_def is_whitespace_def)

lemma supported_ends:
  assumes "l \<in> set SUPPORTED_LANGUAGES"
  shows "l \<noteq> []" "\<not> is_whitespace (hd l)" "\<not> is_whitespace (last l)" "60 \<notin> set l" "10 \<notin> set l" "trim l = l"
proof -
  have l: "l \<noteq> []" "\<forall>c\<in>set l. 65 \<le> c \<and> c \<le> 122" using supported_letters[OF assms] by blast+
  then have "65 \<le> hd l \<and> hd l \<le> 122" "65 \<le> last l \<and> last l \<le> 122" by simp_all
  then show ends: "\<not> is_whitespace (hd l)" "\<not> is_whitespace (last l)" by (auto simp: is_whitespace_def)
  show "l \<noteq> []" "60 \<notin> set l" "10 \<notin> set l" using l by auto
  show "trim l = l" by (rule trim_id[OF l(1) ends])
qed

lemma supported_line:
  assumes "l \<in> set SUPPORTED_LANGUAGES"
  shows "meta_language env (str_lines (LANG_PREFIX @ l)) = l"
proof -
  note e = supported_ends[OF assms]
  have p: "LANG_PREFIX = [108, 97, 110, 103, 117, 97, 103, 101, 32]" by (simp add: LANG_PREFIX_def lit_def)
  have "str_lines (LANG_PREFIX @ l) = [LANG_PREFIX @ l]"
    using split_lines_single[of "LANG_PREFIX @ l" "[]"] e(5) by (simp add: str_lines_def p)
  moreover have "trim (LANG_PREFIX @ l) = LANG_PREFIX @ l"
    using e(1,3) by (intro trim_id) (simp_all add: p is_whitespace_def)
  moreover have "starts_with (ascii_lowercase (LANG_PREFIX @ l)) LANG_PREFIX"
    by (simp add: starts_with_def ascii_lowercase_def p ascii_lower_def)
  moreover have "normalize_language_name env l = Inr l"
    using e(1,6) own_alias[OF assms] by (simp add: normalize_language_name_def)
  ultimately show ?thesis using e(1,6) by (simp add: p)
qed

text \<open>C34: What the recogniser writes is read back: the output \<open>language L<asr_text>t\<close> of a supported language
  and a trimmed text, when it holds no repetition to compress, is parsed to the language and the text, whatever
  tags the text holds.  A language the user forces is returned with the whole output as text.\<close>

theorem asr_output_roundtrip:
  assumes "l \<in> set SUPPORTED_LANGUAGES" "trim t = t"
    "detect_and_fix_repetitions (LANG_PREFIX @ l @ ASR_TEXT_TAG @ t) DEFAULT_REPETITION_THRESHOLD = Inr (LANG_PREFIX @ l @ ASR_TEXT_TAG @ t)"
  shows "parse_asr_output env (Some (LANG_PREFIX @ l @ ASR_TEXT_TAG @ t)) None = (l, t) \<and>
    parse_asr_output env (Some (LANG_PREFIX @ l @ ASR_TEXT_TAG @ t)) (Some lang) = (lang, LANG_PREFIX @ l @ ASR_TEXT_TAG @ t)"
proof -
  note e = supported_ends[OF assms(1)]
  have p: "LANG_PREFIX = [108, 97, 110, 103, 117, 97, 103, 101, 32]" "ASR_TEXT_TAG = [60, 97, 115, 114, 95, 116, 101, 120, 116, 62]"
    by (simp_all add: LANG_PREFIX_def ASR_TEXT_TAG_def lit_def)
  have "\<not> is_whitespace (last (LANG_PREFIX @ l @ ASR_TEXT_TAG @ t))"
    using trimmed_ends[OF assms(2)] by (cases "t = []") (simp_all add: p(2) is_whitespace_def)
  then have trim: "trim (LANG_PREFIX @ l @ ASR_TEXT_TAG @ t) = LANG_PREFIX @ l @ ASR_TEXT_TAG @ t"
    by (intro trim_id) (simp_all add: p is_whitespace_def)
  have "split_once ASR_TEXT_TAG ((LANG_PREFIX @ l) @ ASR_TEXT_TAG @ t) = Some (LANG_PREFIX @ l, t)"
    using e(4) by (intro split_once_first) (simp_all add: p)
  then have split: "split_once ASR_TEXT_TAG (LANG_PREFIX @ l @ ASR_TEXT_TAG @ t) = Some (LANG_PREFIX @ l, t)" by simp
  have ne: "LANG_PREFIX \<noteq> []" by (simp add: p)
  show ?thesis
    unfolding parse_asr_output_def Let_def option.case trim assms(3)
    using ne split no_none[OF assms(1)] supported_line[OF assms(1)] assms(2) by simp
qed

theorem asr_output_roundtrip_witness:
  "parse_asr_output \<lparr>to_uppercase = (\<lambda>c. [c]), to_lowercase = (\<lambda>c. [c])\<rparr>
     (Some (LANG_PREFIX @ lit ''Chinese'' @ ASR_TEXT_TAG @ lit ''a <asr_text>'')) None = (lit ''Chinese'', lit ''a <asr_text>'')"
proof -
  have "lit ''Chinese'' \<in> set SUPPORTED_LANGUAGES" by (simp add: SUPPORTED_LANGUAGES_def)
  moreover have "trim (lit ''a <asr_text>'') = lit ''a <asr_text>''" by (intro trim_id) (simp_all add: lit_def is_whitespace_def)
  moreover have "detect_and_fix_repetitions (LANG_PREFIX @ lit ''Chinese'' @ ASR_TEXT_TAG @ lit ''a <asr_text>'') DEFAULT_REPETITION_THRESHOLD =
      Inr (LANG_PREFIX @ lit ''Chinese'' @ ASR_TEXT_TAG @ lit ''a <asr_text>'')"
    by (simp add: detect_and_fix_repetitions_def DEFAULT_REPETITION_THRESHOLD_def LANG_PREFIX_def ASR_TEXT_TAG_def lit_def
        fix_pattern_repeats.simps)
  ultimately show ?thesis
    using asr_output_roundtrip[where t = "lit ''a <asr_text>''" and l = "lit ''Chinese''"] by blast
qed

end
