(* ===== verification/FeatureExtractor.thy ===== *)
theory FeatureExtractor
  imports Float32
begin

text \<open>
  Log-mel features (\<^verbatim>\<open>vasr-models/src/processor/feature_extractor.rs\<close>): the filter bank, the offline extractor
  and the streaming extractor, which keeps the values of all frames but the last one when samples are appended.

  The arithmetic of \<^verbatim>\<open>f32\<close> and \<^verbatim>\<open>f64\<close> and the Fourier transform, which comes from a library, are the
  parameters of \<^verbatim>\<open>dsp\<close>.  A complex number is a pair.  What is left of the streaming extractor after an error,
  which only a waveform of more than 2^63 - 200 samples gives, is not modelled.
\<close>

section \<open>Arithmetic\<close>

record ('f, 'd) dsp =
  f32 :: "'f f32_ops"
  f64 :: "'d f32_ops"
  f32_eq :: "'f \<Rightarrow> 'f \<Rightarrow> bool"
  f32_neg_infinity :: 'f
  widen :: "'f \<Rightarrow> 'd"
  narrow :: "'d \<Rightarrow> 'f"
  f64_pi :: 'd
  f64_min_positive :: 'd
  f64_cos :: "'d \<Rightarrow> 'd"
  f64_mul_add :: "'d \<Rightarrow> 'd \<Rightarrow> 'd \<Rightarrow> 'd"
  fft :: "('d \<times> 'd) list \<Rightarrow> ('d \<times> 'd) list"

record 'd extractor_config =
  ec_feature_size :: nat
  ec_sampling_rate_hz :: nat
  ec_hop_length :: nat
  ec_n_fft :: nat
  ec_max_frequency_hz :: 'd
  ec_mel_floor :: 'd

definition default_extractor_config :: "('f, 'd) dsp \<Rightarrow> 'd extractor_config" where
  "default_extractor_config D =
    \<lparr>ec_feature_size = 128, ec_sampling_rate_hz = 16000, ec_hop_length = 160, ec_n_fft = 400,
     ec_max_frequency_hz = f_lit (f64 D) 8000 1, ec_mel_floor = f_lit (f64 D) 1 10000000000\<rparr>"

record 'f features =
  ft_rows :: "'f list list"
  ft_mask :: "nat list"

section \<open>The filter bank\<close>

definition hann_window_periodic :: "('f, 'd) dsp \<Rightarrow> nat \<Rightarrow> 'd list" where
  "hann_window_periodic D n =
    (let A = f64 D; n_f64 = f_int A (int n); two_pi = f_mul A (f64_pi D) (f_lit A 2 1)
     in map (\<lambda>i. let x = f_div A (f_mul A two_pi (f_int A (int i))) n_f64
                 in f_sub A (f_lit A 1 2) (f_mul A (f_lit A 1 2) (f64_cos D x))) [0..<n])"

definition reflect_index :: "int \<Rightarrow> nat \<Rightarrow> nat" where
  "reflect_index i len =
    (if len \<le> 1 then 0
     else let period = int (2 * (len - 1)); j = i mod period
          in if j \<ge> int len then nat (period - j) else nat j)"

definition hertz_to_mel_slaney :: "('f, 'd) dsp \<Rightarrow> 'd \<Rightarrow> 'd" where
  "hertz_to_mel_slaney D freq_hz =
    (let A = f64 D; min_log_hertz = f_lit A 1000 1; min_log_mel = f_lit A 15 1;
         logstep = f_div A (f_lit A 27 1) (f_ln A (f_lit A 64 10));
         mels = f_div A (f_mul A (f_lit A 3 1) freq_hz) (f_lit A 200 1)
     in if f_le A min_log_hertz freq_hz
        then f_add A min_log_mel (f_mul A (f_ln A (f_div A freq_hz min_log_hertz)) logstep) else mels)"

definition mel_to_hertz_slaney :: "('f, 'd) dsp \<Rightarrow> 'd \<Rightarrow> 'd" where
  "mel_to_hertz_slaney D mels =
    (let A = f64 D; min_log_hertz = f_lit A 1000 1; min_log_mel = f_lit A 15 1;
         logstep = f_div A (f_ln A (f_lit A 64 10)) (f_lit A 27 1);
         freq = f_div A (f_mul A (f_lit A 200 1) mels) (f_lit A 3 1)
     in if f_le A min_log_mel mels
        then f_mul A min_log_hertz (f_exp A (f_mul A logstep (f_sub A mels min_log_mel))) else freq)"

definition linspace :: "('f, 'd) dsp \<Rightarrow> 'd \<Rightarrow> 'd \<Rightarrow> nat \<Rightarrow> 'd list" where
  "linspace D start stop n =
    (let A = f64 D
     in if n = 0 then [] else if n = 1 then [start]
        else let step = f_div A (f_sub A stop start) (f_sub A (f_int A (int n)) (f_lit A 1 1))
             in map (\<lambda>i. f_add A start (f_mul A step (f_int A (int i)))) [0..<n])"

definition mel_weight :: "('f, 'd) dsp \<Rightarrow> 'd \<Rightarrow> 'd \<Rightarrow> 'd \<Rightarrow> 'd \<Rightarrow> 'd" where
  "mel_weight D left center right f =
    (let A = f64 D;
         denom_left = f_max A (f_sub A center left) (f64_min_positive D);
         denom_right = f_max A (f_sub A right center) (f64_min_positive D);
         enorm = f_div A (f_lit A 2 1) (f_max A (f_sub A right left) (f64_min_positive D));
         down = f_div A (f_sub A f left) denom_left;
         up = f_div A (f_sub A right f) denom_right;
         w = f_max A (f_min A down up) (f_lit A 0 1)
     in f_mul A w enorm)"

definition mel_filter_bank_slaney_t :: "('f, 'd) dsp \<Rightarrow> nat \<Rightarrow> nat \<Rightarrow> 'd \<Rightarrow> 'd \<Rightarrow> nat \<Rightarrow> 'd list list" where
  "mel_filter_bank_slaney_t D num_frequency_bins num_mel_filters min_frequency_hz max_frequency_hz sampling_rate_hz =
    (let A = f64 D;
         mel_min = hertz_to_mel_slaney D min_frequency_hz;
         mel_max = hertz_to_mel_slaney D max_frequency_hz;
         filter_freqs = map (mel_to_hertz_slaney D) (linspace D mel_min mel_max (num_mel_filters + 2));
         fft_freqs = linspace D (f_lit A 0 1) (f_int A (int (sampling_rate_hz div 2))) num_frequency_bins
     in map (\<lambda>mel_idx. map (mel_weight D (filter_freqs ! mel_idx) (filter_freqs ! (mel_idx + 1)) (filter_freqs ! (mel_idx + 2)))
          fft_freqs) [0..<num_mel_filters])"

definition config_filters :: "('f, 'd) dsp \<Rightarrow> 'd extractor_config \<Rightarrow> 'd list list" where
  "config_filters D cfg = mel_filter_bank_slaney_t D (1 + ec_n_fft cfg div 2) (ec_feature_size cfg) (f_lit (f64 D) 0 1)
     (ec_max_frequency_hz cfg) (ec_sampling_rate_hz cfg)"

section \<open>One frame\<close>

definition frame_samples :: "'d extractor_config \<Rightarrow> nat \<Rightarrow> (nat \<Rightarrow> 'd result) \<Rightarrow> nat \<Rightarrow> 'd list result" where
  "frame_samples cfg source_len sample_at start =
    traverse (\<lambda>i. sample_at (reflect_index (int start + int i - int (ec_n_fft cfg div 2)) source_len)) [0..<ec_n_fft cfg]"

definition log_mel_value :: "('f, 'd) dsp \<Rightarrow> 'd extractor_config \<Rightarrow> 'd list \<Rightarrow> 'd list \<Rightarrow> 'f" where
  "log_mel_value D cfg mags filter_row =
    (let A = f64 D;
         sum = fold (\<lambda>(w, mag) sum. f64_mul_add D w mag sum) (zip filter_row mags) (f_lit A 0 1);
         sum = (if f_lt A sum (ec_mel_floor cfg) then ec_mel_floor cfg else sum)
     in narrow D (f_log10 A sum))"

definition mel_column :: "('f, 'd) dsp \<Rightarrow> 'd extractor_config \<Rightarrow> 'd list \<Rightarrow> 'f list" where
  "mel_column D cfg samples =
    (let A = f64 D;
         buf = fft D (map (\<lambda>(x, w). (f_mul A x w, f_lit A 0 1)) (zip samples (hann_window_periodic D (ec_n_fft cfg))));
         mags = map (\<lambda>(re, im). f64_mul_add D re re (f_mul A im im)) (take (1 + ec_n_fft cfg div 2) buf)
     in map (log_mel_value D cfg mags) (config_filters D cfg))"

definition push_column :: "'f list list \<Rightarrow> 'f list \<Rightarrow> 'f list list" where
  "push_column rows column = map (\<lambda>(row, v). row @ [v]) (zip rows column)"

definition larger :: "'f f32_ops \<Rightarrow> 'f \<Rightarrow> 'f \<Rightarrow> 'f" where
  "larger F v m = (if f_lt F m v then v else m)"

definition compress_log_mel :: "'f f32_ops \<Rightarrow> 'f \<Rightarrow> 'f \<Rightarrow> 'f" where
  "compress_log_mel F v lowest =
    (let v = (if f_lt F v lowest then lowest else v) in f_div F (f_add F v (f_lit F 4 1)) (f_lit F 4 1))"

section \<open>The offline extractor\<close>

fun log_mel_loop ::
  "('f, 'd) dsp \<Rightarrow> 'd extractor_config \<Rightarrow> nat \<Rightarrow> (nat \<Rightarrow> 'd result) \<Rightarrow> nat list \<Rightarrow> 'f list list \<Rightarrow> 'f \<Rightarrow> ('f list list \<times> 'f) result" where
  "log_mel_loop D cfg source_len sample_at [] rows max_log = Inr (rows, max_log)"
| "log_mel_loop D cfg source_len sample_at (frame_idx # frames) rows max_log =
    rbind (frame_samples cfg source_len sample_at (frame_idx * ec_hop_length cfg)) (\<lambda>samples.
    let column = mel_column D cfg samples
    in log_mel_loop D cfg source_len sample_at frames (push_column rows column) (fold (larger (f32 D)) column max_log))"

definition extract_log_mel_frames ::
  "('f, 'd) dsp \<Rightarrow> 'd extractor_config \<Rightarrow> nat \<Rightarrow> nat \<Rightarrow> (nat \<Rightarrow> 'd result) \<Rightarrow> 'f list list result" where
  "extract_log_mel_frames D cfg source_len frames sample_at =
    (if source_len = 0 then Inr (replicate (ec_feature_size cfg) [])
     else rbind (log_mel_loop D cfg source_len sample_at [0..<frames] (replicate (ec_feature_size cfg) []) (f32_neg_infinity D))
       (\<lambda>(log_spec, max_log).
        let lowest = f_sub (f32 D) max_log (f_lit (f32 D) 8 1)
        in Inr (map (map (\<lambda>v. compress_log_mel (f32 D) v lowest)) log_spec)))"

definition empty_features :: "'d extractor_config \<Rightarrow> 'f features" where
  "empty_features cfg = \<lparr>ft_rows = replicate (ec_feature_size cfg) [], ft_mask = []\<rparr>"

definition extract_features :: "('f, 'd) dsp \<Rightarrow> 'f list \<Rightarrow> 'f features result" where
  "extract_features D wav =
    (let cfg = default_extractor_config D; frames = length wav div ec_hop_length cfg
     in if frames = 0 then Inr (empty_features cfg)
        else let wav_f64 = map (widen D) wav
             in rbind (extract_log_mel_frames D cfg (length wav_f64) frames (index_r wav_f64)) (\<lambda>rows.
                Inr \<lparr>ft_rows = rows, ft_mask = replicate frames 1\<rparr>))"

definition extract_features_with_padded_waveform_len :: "('f, 'd) dsp \<Rightarrow> 'f list \<Rightarrow> nat \<Rightarrow> 'f features result" where
  "extract_features_with_padded_waveform_len D wav padded_len =
    (let cfg = default_extractor_config D
     in if padded_len < length wav then Inl (Err ''padded waveform length is shorter than waveform length'')
        else let frames_total = padded_len div ec_hop_length cfg;
                 frames = (if wav = [] then 0 else min (div_ceil (length wav) (ec_hop_length cfg)) frames_total)
             in if frames = 0 then Inr (empty_features cfg)
                else rbind (extract_log_mel_frames D cfg padded_len frames (\<lambda>src. Inr (case get wav src of
                         Some x \<Rightarrow> widen D x | None \<Rightarrow> f_lit (f64 D) 0 1))) (\<lambda>rows.
                     Inr \<lparr>ft_rows = rows, ft_mask = replicate frames 1\<rparr>))"

section \<open>The streaming extractor\<close>

record ('f, 'd) stream_extractor =
  se_cfg :: "'d extractor_config"
  se_wav :: "'f list"
  se_raw_log_spec :: "'f list list"
  se_input_features :: "'f list list"
  se_mask :: "nat list"
  se_max_log :: 'f

definition new_extractor :: "('f, 'd) dsp \<Rightarrow> ('f, 'd) stream_extractor" where
  "new_extractor D =
    (let cfg = default_extractor_config D
     in \<lparr>se_cfg = cfg, se_wav = [], se_raw_log_spec = replicate (ec_feature_size cfg) [],
         se_input_features = replicate (ec_feature_size cfg) [], se_mask = [], se_max_log = f32_neg_infinity D\<rparr>)"

definition isize_max :: nat where "isize_max = 2 ^ 63 - 1"

definition push_frame_raw :: "('f, 'd) dsp \<Rightarrow> ('f, 'd) stream_extractor \<Rightarrow> nat \<Rightarrow> nat \<Rightarrow> 'f list list \<Rightarrow> 'f list list result" where
  "push_frame_raw D s n_fft_half frame_idx rows =
    (let cfg = se_cfg s; wav_len = length (se_wav s)
     in if wav_len = 0 then Inl (Err ''internal error: cannot extract features on empty audio'')
        else if wav_len > saturating_sub isize_max (saturating_sub n_fft_half 1)
        then Inl (Err ''audio too long for reflection padding'')
        else rbind (ok_or (checked_mul frame_idx (ec_hop_length cfg)) (Err ''frame start overflow'')) (\<lambda>start.
          if start > wav_len then Inl (Err ''internal error: frame start exceeds wav_len'')
          else rbind (frame_samples cfg wav_len (\<lambda>src. map_sum id (widen D) (index_r (se_wav s) src)) start) (\<lambda>samples.
               Inr (push_column rows (mel_column D cfg samples)))))"

definition compute_max_log :: "('f, 'd) dsp \<Rightarrow> 'f list list \<Rightarrow> 'f" where
  "compute_max_log D rows = fold (fold (larger (f32 D))) rows (f32_neg_infinity D)"

definition stream_update :: "('f, 'd) dsp \<Rightarrow> ('f, 'd) stream_extractor \<Rightarrow> ('f, 'd) stream_extractor result" where
  "stream_update D s =
    (let cfg = se_cfg s;
         frames_total = length (se_wav s) div ec_hop_length cfg;
         old_frames = length (se_mask s);
         recompute_from = (if old_frames = 0 then 0 else saturating_sub old_frames 1);
         kept_raw = map (take recompute_from) (se_raw_log_spec s);
         kept_features = map (take recompute_from) (se_input_features s);
         kept_mask = take recompute_from (se_mask s)
     in if frames_total = 0
        then Inr (s\<lparr>se_raw_log_spec := kept_raw, se_input_features := kept_features, se_mask := kept_mask,
                   se_max_log := f32_neg_infinity D\<rparr>)
        else rbind (foldM (\<lambda>rows frame_idx. push_frame_raw D s (ec_n_fft cfg div 2) frame_idx rows) kept_raw
                     [recompute_from..<frames_total]) (\<lambda>raw.
          let max_log = compute_max_log D raw;
              lowest = f_sub (f32 D) max_log (f_lit (f32 D) 8 1);
              mask_vec = take frames_total kept_mask @ replicate (frames_total - length kept_mask) 1;
              max_changed = (\<not> f32_eq D max_log (se_max_log s));
              features = (if max_changed
                then map (\<lambda>(_, raw_row). map (\<lambda>v. compress_log_mel (f32 D) v lowest) raw_row) (zip kept_features raw)
                else map (\<lambda>(out_row, raw_row). out_row @ map (\<lambda>v. compress_log_mel (f32 D) v lowest) (drop recompute_from raw_row))
                       (zip kept_features raw))
          in Inr (s\<lparr>se_raw_log_spec := raw, se_input_features := features, se_mask := mask_vec, se_max_log := max_log\<rparr>)))"

definition append_samples :: "('f, 'd) dsp \<Rightarrow> ('f, 'd) stream_extractor \<Rightarrow> 'f list \<Rightarrow> ('f, 'd) stream_extractor result" where
  "append_samples D s samples =
    (if samples = [] then Inr s else stream_update D (s\<lparr>se_wav := se_wav s @ samples\<rparr>))"

definition extractor_features :: "('f, 'd) stream_extractor \<Rightarrow> 'f features" where
  "extractor_features s = \<lparr>ft_rows = se_input_features s, ft_mask = se_mask s\<rparr>"

section \<open>Frames do not change once another one has started\<close>

lemma reflect_index_less: "0 < len \<Longrightarrow> reflect_index i len < len"
proof (cases "len \<le> 1")
  case False
  define period where "period = int (2 * (len - 1))"
  have p: "0 < period" "period = 2 * int len - 2" using False by (simp_all add: period_def)
  have "0 \<le> i mod period" "i mod period < period" using p(1) by simp_all
  then show ?thesis using False p by (auto simp: reflect_index_def Let_def period_def[symmetric])
qed (simp add: reflect_index_def)

lemma reflect_index_near:
  assumes "- int len < i" "i < int len"
  shows "reflect_index i len = nat \<bar>i\<bar>"
proof (cases "len \<le> 1")
  case False
  define period where "period = int (2 * (len - 1))"
  have p: "period = 2 * int len - 2" using False by (simp add: period_def)
  show ?thesis
  proof (cases "0 \<le> i")
    case True
    then have "i mod period = i" using assms p False by (intro mod_pos_pos_trivial) simp_all
    then show ?thesis using True assms False by (simp add: reflect_index_def Let_def period_def[symmetric])
  next
    case neg: False
    have "i mod period = (i + period) mod period" by simp
    also have "\<dots> = i + period" using assms p False neg by (intro mod_pos_pos_trivial) simp_all
    finally have "i mod period = i + period" .
    moreover have "int (len - 1) = int len - 1" using False by simp
    ultimately show ?thesis using neg assms False p
      by (auto simp: reflect_index_def Let_def period_def[symmetric])
  qed
qed (use assms in \<open>auto simp: reflect_index_def\<close>)

definition frame_of :: "('f, 'd) dsp \<Rightarrow> 'f list \<Rightarrow> nat \<Rightarrow> 'd list" where
  "frame_of D wav i = map (\<lambda>k. widen D (wav ! reflect_index (int (i * 160) + int k - 200) (length wav))) [0..<400]"

lemma frame_samples_total:
  assumes "0 < n" "\<And>i. i < n \<Longrightarrow> sample_at i = Inr (g i)"
  shows "frame_samples cfg n sample_at start =
    Inr (map (\<lambda>i. g (reflect_index (int start + int i - int (ec_n_fft cfg div 2)) n)) [0..<ec_n_fft cfg])"
  unfolding frame_samples_def by (rule traverse_all_ok) (simp add: assms reflect_index_less)

lemma frame_of_append:
  assumes "i + 1 < length wav div 160"
  shows "frame_of D (wav @ rest) i = frame_of D wav i"
proof -
  have long: "i * 160 + 320 \<le> length wav"
    using assms div_times_less_eq_dividend[of "length wav" 160] by linarith
  have "reflect_index (int (i * 160) + int k - 200) (length wav + m) = nat \<bar>int (i * 160) + int k - 200\<bar> \<and>
    nat \<bar>int (i * 160) + int k - 200\<bar> < length wav" if "k < 400" for k m
    using that long by (subst reflect_index_near) (linarith+)
  from this[where m = 0] this[where m = "length rest"] show ?thesis
    by (auto simp: frame_of_def nth_append intro!: map_cong)
qed

section \<open>Rows and columns\<close>

definition rows_of :: "nat \<Rightarrow> 'f list list \<Rightarrow> 'f list list" where
  "rows_of n columns = map (\<lambda>m. map (\<lambda>c. c ! m) columns) [0..<n]"

lemma rows_of_length [simp]: "length (rows_of n cs) = n"
  by (simp add: rows_of_def)

lemma rows_of_Nil: "rows_of n [] = replicate n []"
  by (simp add: rows_of_def map_replicate_const)

lemma push_column_rows_of: "length c = n \<Longrightarrow> push_column (rows_of n cs) c = rows_of n (cs @ [c])"
  by (auto simp: push_column_def rows_of_def intro!: nth_equalityI)

lemma take_rows_of: "map (take k) (rows_of n cs) = rows_of n (take k cs)"
  by (simp add: rows_of_def take_map)

lemma map_rows_of: "map (map f) (rows_of n cs) = rows_of n (map (map f) cs)" if "\<forall>c\<in>set cs. length c = n"
  using that by (auto simp: rows_of_def)

lemma set_rows_of: "\<forall>c\<in>set cs. length c = n \<Longrightarrow> set (concat (rows_of n cs)) = set (concat cs)"
  by (fastforce simp: rows_of_def in_set_conv_nth)

lemma mel_column_length: "length (mel_column D (default_extractor_config D) xs) = 128"
  by (simp add: mel_column_def Let_def config_filters_def mel_filter_bank_slaney_t_def default_extractor_config_def)

definition column_of :: "('f, 'd) dsp \<Rightarrow> 'f list \<Rightarrow> nat \<Rightarrow> 'f list" where
  "column_of D wav i = mel_column D (default_extractor_config D) (frame_of D wav i)"

lemma column_of_length: "length (column_of D wav i) = 128"
  by (simp add: column_of_def mel_column_length)

definition columns_of :: "('f, 'd) dsp \<Rightarrow> 'f list \<Rightarrow> 'f list list" where
  "columns_of D wav = map (column_of D wav) [0..<length wav div 160]"

lemma columns_of_lengths: "\<forall>c\<in>set (columns_of D wav). length c = 128"
  by (simp add: columns_of_def column_of_length)

lemma columns_of_append:
  "take (length wav div 160 - 1) (columns_of D (wav @ rest)) = take (length wav div 160 - 1) (columns_of D wav)"
proof -
  let ?k = "length wav div 160 - 1"
  have k: "?k \<le> length wav div 160" "?k \<le> length (wav @ rest) div 160"
    using div_le_mono[of "length wav" "length (wav @ rest)" 160] by simp_all
  have "column_of D (wav @ rest) i = column_of D wav i" if "i < ?k" for i
    using frame_of_append[of i wav D rest] that by (simp add: column_of_def)
  then show ?thesis using k by (simp add: columns_of_def take_map take_upt)
qed

section \<open>The maximum\<close>

lemma fold_fold_concat: "fold (fold f) xss a = fold f (concat xss) a"
  by (induction xss arbitrary: a) simp_all

definition comparable :: "'f f32_ops \<Rightarrow> 'f set \<Rightarrow> bool" where
  "comparable F V \<longleftrightarrow> (\<forall>x\<in>V. \<forall>y\<in>V. \<not> (f_lt F x y \<and> f_lt F y x)) \<and>
     (\<forall>x\<in>V. \<forall>y\<in>V. \<forall>z\<in>V. f_lt F x z \<longrightarrow> f_lt F x y \<or> f_lt F y z) \<and>
     (\<forall>x\<in>V. \<forall>y\<in>V. \<not> f_lt F x y \<longrightarrow> \<not> f_lt F y x \<longrightarrow> f_sub F x (f_lit F 8 1) = f_sub F y (f_lit F 8 1))"

lemma comparable_asym: "comparable F V \<Longrightarrow> x \<in> V \<Longrightarrow> y \<in> V \<Longrightarrow> f_lt F x y \<Longrightarrow> \<not> f_lt F y x"
  unfolding comparable_def by blast

lemma comparable_between:
  "comparable F V \<Longrightarrow> x \<in> V \<Longrightarrow> y \<in> V \<Longrightarrow> z \<in> V \<Longrightarrow> f_lt F x z \<Longrightarrow> f_lt F x y \<or> f_lt F y z"
  unfolding comparable_def by blast

lemma comparable_same:
  "comparable F V \<Longrightarrow> x \<in> V \<Longrightarrow> y \<in> V \<Longrightarrow> \<not> f_lt F x y \<Longrightarrow> \<not> f_lt F y x \<Longrightarrow> f_sub F x (f_lit F 8 1) = f_sub F y (f_lit F 8 1)"
  unfolding comparable_def by blast

lemma fold_larger:
  assumes "comparable F V" "set vs \<subseteq> V" "m \<in> V"
  shows "fold (larger F) vs m \<in> insert m (set vs) \<and> (\<forall>v\<in>insert m (set vs). \<not> f_lt F (fold (larger F) vs m) v)"
  using assms(2,3)
proof (induction vs arbitrary: m)
  case Nil
  then show ?case using comparable_asym[OF assms(1), of m m] by auto
next
  case (Cons v vs)
  define m' where "m' = larger F v m"
  define r where "r = fold (larger F) vs m'"
  have m': "m' = v \<or> m' = m" "f_lt F m v \<Longrightarrow> m' = v" "\<not> f_lt F m v \<Longrightarrow> m' = m"
    by (simp_all add: m'_def larger_def)
  then have V: "m' \<in> V" "v \<in> V" "m \<in> V" "set vs \<subseteq> V" using Cons.prems by auto
  have IH: "r \<in> insert m' (set vs)" "\<forall>x\<in>insert m' (set vs). \<not> f_lt F r x"
    using Cons.IH[OF V(4,1)] unfolding r_def by blast+
  have r: "r \<in> V" using IH(1) V by auto
  have "\<not> f_lt F r m \<and> \<not> f_lt F r v"
  proof (cases "f_lt F m v")
    case True
    then have "\<not> f_lt F r v" using m'(2) IH(2) by simp
    then show ?thesis using comparable_between[OF assms(1) r V(2,3)] comparable_asym[OF assms(1) V(3,2) True] by blast
  next
    case False
    then have "\<not> f_lt F r m" using m'(3) IH(2) by simp
    then show ?thesis using comparable_between[OF assms(1) r V(3,2)] False by blast
  qed
  then show ?case using IH m'(1) by (auto simp: m'_def[symmetric] r_def[symmetric])
qed

lemma fold_larger_same_set:
  assumes "comparable F V" "set vs = set ws" "set vs \<subseteq> V" "m \<in> V"
  shows "f_sub F (fold (larger F) vs m) (f_lit F 8 1) = f_sub F (fold (larger F) ws m) (f_lit F 8 1)"
proof -
  note v = fold_larger[OF assms(1,3,4)]
  note w = fold_larger[OF assms(1) _ assms(4), of ws]
  have "set ws \<subseteq> V" using assms(2,3) by simp
  note w = w[OF this]
  show ?thesis
    using v w assms(2-4) by (intro comparable_same[OF assms(1)]) auto
qed

section \<open>The offline features\<close>

lemma config_simps [simp]:
  "ec_feature_size (default_extractor_config D) = 128" "ec_hop_length (default_extractor_config D) = 160"
  "ec_n_fft (default_extractor_config D) = 400"
  by (simp_all add: default_extractor_config_def)

lemma frame_samples_wav:
  assumes "wav \<noteq> []" "\<And>i. i < length wav \<Longrightarrow> sample_at i = Inr (widen D (wav ! i))"
  shows "frame_samples (default_extractor_config D) (length wav) sample_at (i * 160) = Inr (frame_of D wav i)"
  using frame_samples_total[of "length wav" sample_at "\<lambda>i. widen D (wav ! i)" "default_extractor_config D" "i * 160"] assms
  by (simp add: frame_of_def)

lemma log_mel_loop_columns:
  assumes "wav \<noteq> []"
  shows "log_mel_loop D (default_extractor_config D) (length wav) (index_r (map (widen D) wav)) frames (rows_of 128 cs) m =
    Inr (rows_of 128 (cs @ map (column_of D wav) frames), fold (larger (f32 D)) (concat (map (column_of D wav) frames)) m)"
proof (induction frames arbitrary: cs m)
  case (Cons i frames)
  have "frame_samples (default_extractor_config D) (length wav) (index_r (map (widen D) wav)) (i * 160) = Inr (frame_of D wav i)"
    by (rule frame_samples_wav[OF assms]) (simp add: index_r_ok)
  then show ?case using Cons.IH[of "cs @ [column_of D wav i]"]
    by (simp add: Let_def column_of_def[symmetric] push_column_rows_of column_of_length)
qed simp

definition frame_log_floor :: "('f, 'd) dsp \<Rightarrow> 'f list \<Rightarrow> 'f" where
  "frame_log_floor D wav = f_sub (f32 D) (fold (larger (f32 D)) (concat (columns_of D wav)) (f32_neg_infinity D)) (f_lit (f32 D) 8 1)"

definition compressed :: "('f, 'd) dsp \<Rightarrow> 'f list \<Rightarrow> 'f list list" where
  "compressed D wav = map (map (\<lambda>v. compress_log_mel (f32 D) v (frame_log_floor D wav))) (rows_of 128 (columns_of D wav))"

lemma extract_features_columns:
  "extract_features D wav = Inr \<lparr>ft_rows = compressed D wav, ft_mask = replicate (length wav div 160) 1\<rparr>"
proof (cases "length wav div 160 = 0")
  case True
  then have "columns_of D wav = []" by (simp add: columns_of_def)
  then show ?thesis using True
    by (simp add: extract_features_def Let_def empty_features_def compressed_def rows_of_Nil map_replicate_const)
next
  case False
  then have ne: "wav \<noteq> []" by auto
  show ?thesis using False log_mel_loop_columns[OF ne, of D "[0..<length wav div 160]" "[]" "f32_neg_infinity D"] ne
    by (simp add: extract_features_def Let_def extract_log_mel_frames_def rows_of_Nil[symmetric] columns_of_def[symmetric]
        compressed_def frame_log_floor_def)
qed

lemma features_shape:
  assumes "extract_features D wav = Inr f"
  shows "length (ft_rows f) = 128" "\<forall>row\<in>set (ft_rows f). length row = length wav div 160"
    "ft_mask f = replicate (length wav div 160) 1"
  using assms by (auto simp: extract_features_columns compressed_def rows_of_def columns_of_def)

section \<open>The streamed features\<close>

definition log_values :: "('f, 'd) dsp \<Rightarrow> 'f list \<Rightarrow> 'f set" where
  "log_values D wav = insert (f32_neg_infinity D)
     {v. \<exists>xs. set xs \<subseteq> widen D ` set wav \<and> v \<in> set (mel_column D (default_extractor_config D) xs)}"

lemma columns_in_log_values: "set (concat (columns_of D wav)) \<subseteq> log_values D wav"
proof -
  have "set (frame_of D wav i) \<subseteq> widen D ` set wav" if "0 < length wav" for i
    using that by (auto simp: frame_of_def reflect_index_less)
  moreover have "0 < length wav" if "i < length wav div 160" for i using that by (cases wav) simp_all
  ultimately show ?thesis by (fastforce simp: columns_of_def column_of_def log_values_def)
qed

lemma max_log_floor:
  assumes "comparable (f32 D) (log_values D wav)"
  shows "f_sub (f32 D) (compute_max_log D (rows_of 128 (columns_of D wav))) (f_lit (f32 D) 8 1) = frame_log_floor D wav"
  unfolding compute_max_log_def frame_log_floor_def fold_fold_concat
  using columns_in_log_values[of D wav] set_rows_of[OF columns_of_lengths, of D wav]
  by (intro fold_larger_same_set[OF assms]) (auto simp: log_values_def)

lemma comparable_subset: "comparable F V \<Longrightarrow> W \<subseteq> V \<Longrightarrow> comparable F W"
  unfolding comparable_def by blast

lemma log_values_prefix: "log_values D wav \<subseteq> log_values D (wav @ rest)"
  by (auto simp: log_values_def)

definition extractor_inv :: "('f, 'd) dsp \<Rightarrow> ('f, 'd) stream_extractor \<Rightarrow> bool" where
  "extractor_inv D s \<longleftrightarrow> se_cfg s = default_extractor_config D \<and>
     se_raw_log_spec s = rows_of 128 (columns_of D (se_wav s)) \<and> se_input_features s = compressed D (se_wav s) \<and>
     se_mask s = replicate (length (se_wav s) div 160) 1 \<and> se_max_log s = compute_max_log D (se_raw_log_spec s)"

lemma push_frame_column:
  assumes "se_cfg s = default_extractor_config D" "length (se_wav s) \<le> isize_max - 199" "i < length (se_wav s) div 160"
    "\<forall>c\<in>set cs. length c = 128"
  shows "push_frame_raw D s 200 i (rows_of 128 cs) = Inr (rows_of 128 (cs @ [column_of D (se_wav s) i]))"
proof -
  have ne: "se_wav s \<noteq> []" using assms(3) by auto
  have start: "i * 160 \<le> length (se_wav s)" using assms(3) div_times_less_eq_dividend[of "length (se_wav s)" 160] by linarith
  then have "checked_mul i 160 = Some (i * 160)"
    using assms(2) by (simp add: checked_mul_def isize_max_def usize_max_def)
  moreover have "frame_samples (default_extractor_config D) (length (se_wav s))
      (\<lambda>src. map_sum id (widen D) (index_r (se_wav s) src)) (i * 160) = Inr (frame_of D (se_wav s) i)"
    by (rule frame_samples_wav[OF ne]) (simp add: index_r_ok)
  moreover have "saturating_sub isize_max (saturating_sub 200 1) = isize_max - 199" by (simp add: saturating_sub_def)
  ultimately show ?thesis using ne start assms(1,2)
    by (simp add: push_frame_raw_def Let_def column_of_def[symmetric] push_column_rows_of column_of_length)
qed

lemma push_frames_columns:
  assumes "se_cfg s = default_extractor_config D" "length (se_wav s) \<le> isize_max - 199"
    "r \<le> n" "n \<le> length (se_wav s) div 160"
  shows "foldM (\<lambda>rows i. push_frame_raw D s 200 i rows) (rows_of 128 (take r (columns_of D (se_wav s)))) [r..<n] =
    Inr (rows_of 128 (take n (columns_of D (se_wav s))))"
  using assms(3,4)
proof (induction rule: dec_induct)
  case (step n)
  let ?cs = "take n (columns_of D (se_wav s))"
  have "\<forall>c\<in>set ?cs. length c = 128" using columns_of_lengths[of D "se_wav s"] by (meson in_set_takeD)
  then have "push_frame_raw D s 200 n (rows_of 128 ?cs) = Inr (rows_of 128 (?cs @ [column_of D (se_wav s) n]))"
    using step.prems by (intro push_frame_column[OF assms(1,2)]) simp_all
  moreover have "take (Suc n) (columns_of D (se_wav s)) = ?cs @ [column_of D (se_wav s) n]"
    using step.prems by (simp add: columns_of_def take_Suc_conv_app_nth)
  ultimately show ?case using step by (simp add: foldM_append)
qed simp

lemma zip_map_rows: "map (\<lambda>(out_row, raw_row). map g (take r raw_row) @ map g (drop r raw_row)) (zip xs rows) = map (map g) rows"
  if "length xs = length rows"
  using that by (intro nth_equalityI) (simp_all add: map_append[symmetric] del: map_append)

lemma kept_and_new_rows:
  "map (\<lambda>(out_row, raw_row). out_row @ map g (drop r raw_row)) (zip (map (take r) (map (map g) rows)) rows') = map (map g) rows'"
  if "map (take r) rows = map (take r) rows'"
proof (rule nth_equalityI)
  have len: "length rows = length rows'" using arg_cong[OF that, of length] by simp
  then show "length (map (\<lambda>(out_row, raw_row). out_row @ map g (drop r raw_row)) (zip (map (take r) (map (map g) rows)) rows')) =
    length (map (map g) rows')" by simp
  fix i assume "i < length (map (\<lambda>(out_row, raw_row). out_row @ map g (drop r raw_row)) (zip (map (take r) (map (map g) rows)) rows'))"
  then have i: "i < length rows'" "i < length rows" using len by simp_all
  have "take r (rows ! i) = take r (rows' ! i)" using arg_cong[OF that, of "\<lambda>l. l ! i"] i by simp
  then have "take r (map g (rows ! i)) @ map g (drop r (rows' ! i)) = map g (rows' ! i)"
    by (metis append_take_drop_id map_append take_map)
  then show "map (\<lambda>(out_row, raw_row). out_row @ map g (drop r raw_row)) (zip (map (take r) (map (map g) rows)) rows') ! i =
    map (map g) rows' ! i" using i by simp
qed

definition eq_respects_floor :: "('f, 'd) dsp \<Rightarrow> bool" where
  "eq_respects_floor D \<longleftrightarrow>
    (\<forall>x y. f32_eq D x y \<longrightarrow> f_sub (f32 D) x (f_lit (f32 D) 8 1) = f_sub (f32 D) y (f_lit (f32 D) 8 1))"

lemma append_samples_inv:
  assumes inv: "extractor_inv D s" and eq: "eq_respects_floor D"
    and cmp: "comparable (f32 D) (log_values D (se_wav s @ xs))" and len: "length (se_wav s @ xs) \<le> isize_max - 199"
  shows "\<exists>s'. append_samples D s xs = Inr s' \<and> extractor_inv D s' \<and> se_wav s' = se_wav s @ xs"
proof (cases "xs = []")
  case False
  define t where "t = s\<lparr>se_wav := se_wav s @ xs\<rparr>"
  define wav where "wav = se_wav s @ xs"
  define r where "r = length (se_wav s) div 160 - 1"
  define n where "n = length wav div 160"
  define cs where "cs = columns_of D wav"
  define g where "g = (\<lambda>v. compress_log_mel (f32 D) v (frame_log_floor D wav))"
  have rn: "length (se_wav s) div 160 \<le> n" "r \<le> n" "r \<le> length (se_wav s) div 160"
    using div_le_mono[of "length (se_wav s)" "length wav" 160] by (simp_all add: n_def wav_def r_def)
  have old: "se_cfg s = default_extractor_config D" "se_raw_log_spec s = rows_of 128 (columns_of D (se_wav s))"
    "se_input_features s = compressed D (se_wav s)" "se_mask s = replicate (length (se_wav s) div 160) 1"
    "se_max_log s = compute_max_log D (se_raw_log_spec s)"
    using inv unfolding extractor_inv_def by blast+
  have t: "se_cfg t = default_extractor_config D" "se_wav t = wav" by (simp_all add: t_def wav_def old(1))
  have "take r cs = take r (columns_of D (se_wav s))"
    unfolding cs_def r_def wav_def by (rule columns_of_append)
  then have raw: "map (take r) (se_raw_log_spec s) = rows_of 128 (take r cs)" by (simp add: old(2) take_rows_of)
  have r: "(if length (se_wav s) div 160 = 0 then 0 else saturating_sub (length (se_wav s) div 160) 1) = r"
    by (simp add: r_def saturating_sub_def)
  have mask: "take n (take r (se_mask s)) @ replicate (n - length (take r (se_mask s))) 1 = replicate n 1"
    using rn by (auto simp: old(4) min_def replicate_add[symmetric])
  have cs: "take n cs = cs" "\<forall>c\<in>set cs. length c = 128"
    by (simp_all add: cs_def columns_of_def n_def column_of_length)
  have lowest: "f_sub (f32 D) (compute_max_log D (rows_of 128 cs)) (f_lit (f32 D) 8 1) = frame_log_floor D wav"
    unfolding cs_def using cmp by (intro max_log_floor) (simp add: wav_def)
  show ?thesis
  proof (cases "n = 0")
    case True
    then have "cs = []" "columns_of D (se_wav s) = []" "r = 0" using rn by (simp_all add: cs_def columns_of_def n_def)
    then show ?thesis using False True old r rn
      by (auto simp: append_samples_def stream_update_def Let_def extractor_inv_def n_def[unfolded wav_def] compressed_def rows_of_def
          columns_of_def compute_max_log_def fold_fold_concat map_replicate_const comp_def wav_def cs_def)
  next
    case n: False
    have push: "foldM (\<lambda>rows i. push_frame_raw D t 200 i rows) (rows_of 128 (take r cs)) [r..<n] = Inr (rows_of 128 cs)"
      using push_frames_columns[of t D r n] t len rn(2) cs(1) by (simp add: cs_def n_def wav_def)
    have compr: "compressed D wav = map (map g) (rows_of 128 cs)" by (simp add: compressed_def g_def cs_def)
    define features where "features = (if \<not> f32_eq D (compute_max_log D (rows_of 128 cs)) (se_max_log s)
      then map (\<lambda>(_, raw_row). map g raw_row) (zip (map (take r) (se_input_features s)) (rows_of 128 cs))
      else map (\<lambda>(out_row, raw_row). out_row @ map g (drop r raw_row))
        (zip (map (take r) (se_input_features s)) (rows_of 128 cs)))"
    have "features = map (map g) (rows_of 128 cs)"
    proof (cases "f32_eq D (compute_max_log D (rows_of 128 cs)) (se_max_log s)")
      case False
      then show ?thesis unfolding features_def
        by (intro nth_equalityI) (simp_all add: old(3) compressed_def)
    next
      case True
      have "comparable (f32 D) (log_values D (se_wav s))"
        using comparable_subset[OF cmp log_values_prefix] .
      then have "frame_log_floor D wav = frame_log_floor D (se_wav s)"
        using True eq lowest max_log_floor[of D "se_wav s"] unfolding eq_respects_floor_def old(5) old(2) by metis
      then have "se_input_features s = map (map g) (rows_of 128 (columns_of D (se_wav s)))"
        by (simp add: old(3) compressed_def g_def)
      moreover have "map (take r) (rows_of 128 (columns_of D (se_wav s))) = map (take r) (rows_of 128 cs)"
        using raw by (simp add: old(2) take_rows_of)
      ultimately show ?thesis using True kept_and_new_rows[of r _ "rows_of 128 cs" g]
        unfolding features_def by simp
    qed
    then have features: "features = compressed D wav" by (simp add: compr)
    have tf: "se_mask t = se_mask s" "se_raw_log_spec t = se_raw_log_spec s" "se_input_features t = se_input_features s"
      "se_max_log t = se_max_log s" by (simp_all add: t_def)
    have rec: "(if length (se_mask s) = 0 then 0 else saturating_sub (length (se_mask s)) 1) = r"
      by (simp add: old(4) r_def saturating_sub_def)
    have "stream_update D t = Inr (t\<lparr>se_raw_log_spec := rows_of 128 cs, se_input_features := features,
        se_mask := replicate n 1, se_max_log := compute_max_log D (rows_of 128 cs)\<rparr>)"
      unfolding stream_update_def Let_def t tf rec raw config_simps n_def[symmetric] mask
      using n push by (simp add: features_def lowest g_def)
    then show ?thesis using False features t old(1)
      by (auto simp: append_samples_def extractor_inv_def t_def[symmetric] cs_def n_def wav_def)
  qed
qed (use inv in \<open>simp add: append_samples_def\<close>)

lemma new_extractor_inv: "extractor_inv D (new_extractor D)"
  by (simp add: extractor_inv_def new_extractor_def Let_def columns_of_def compressed_def rows_of_Nil compute_max_log_def
      fold_fold_concat)

lemma extractor_inv_features:
  "extractor_inv D s \<Longrightarrow> extract_features D (se_wav s) = Inr (extractor_features s)"
  by (simp add: extract_features_columns extractor_inv_def extractor_features_def)

lemma append_pieces_inv:
  assumes "extractor_inv D s" "eq_respects_floor D" "comparable (f32 D) (log_values D (se_wav s @ concat pieces))"
    "length (se_wav s @ concat pieces) \<le> isize_max - 199"
  shows "\<exists>s'. foldM (append_samples D) s pieces = Inr s' \<and> extractor_inv D s' \<and> se_wav s' = se_wav s @ concat pieces"
  using assms(1,3,4)
proof (induction pieces arbitrary: s)
  case (Cons p pieces)
  have "comparable (f32 D) (log_values D (se_wav s @ p))"
    using Cons.prems(2) log_values_prefix[of D "se_wav s @ p" "concat pieces"] comparable_subset by auto
  then obtain s1 where s1: "append_samples D s p = Inr s1" "extractor_inv D s1" "se_wav s1 = se_wav s @ p"
    using append_samples_inv[OF Cons.prems(1) assms(2), of p] Cons.prems(3) by auto
  then show ?case using Cons.IH[of s1] Cons.prems by auto
qed simp

text \<open>C35: Streaming changes nothing: samples appended in any pieces leave the streaming extractor with the features that the
  offline extractor computes from the whole recording, and neither fails.  The hypotheses are that equality of
  \<^verbatim>\<open>f32\<close> respects a subtraction, that the log-mel values of the recording and negative infinity are
  comparable (none is NaN), and that the recording is not longer than the code accepts.\<close>

theorem streamed_features_are_offline:
  assumes "eq_respects_floor D" "comparable (f32 D) (log_values D (concat pieces))" "length (concat pieces) \<le> isize_max - 199"
  shows "\<exists>s. foldM (append_samples D) (new_extractor D) pieces = Inr s \<and> se_wav s = concat pieces \<and>
    extract_features D (concat pieces) = Inr (extractor_features s)"
proof -
  have w: "se_wav (new_extractor D) = []" by (simp add: new_extractor_def Let_def)
  show ?thesis using append_pieces_inv[OF new_extractor_inv assms(1)] assms(2,3) extractor_inv_features
    unfolding w by (metis append_Nil)
qed

text \<open>Two pieces of one second each, with arithmetic on integers and an identity transform.\<close>

definition example_ops :: "int f32_ops" where
  "example_ops = \<lparr>f_lit = (\<lambda>n d. n div d), f_int = (\<lambda>x. x), f_add = (+), f_sub = (-), f_mul = (*), f_div = (div), f_max = max,
     f_min = min, f_abs = abs, f_is_finite = (\<lambda>x. True), f_lt = (<), f_le = (\<le>), f_ln = (\<lambda>x. x), f_exp = (\<lambda>x. x),
     f_log10 = (\<lambda>x. x), f_round = (\<lambda>x. x), f_to_int = (\<lambda>x. x)\<rparr>"

definition example_dsp :: "(int, int) dsp" where
  "example_dsp = \<lparr>f32 = example_ops, f64 = example_ops, f32_eq = (=), f32_neg_infinity = - (10 ^ 30), widen = (\<lambda>x. x),
     narrow = (\<lambda>x. x), f64_pi = 3, f64_min_positive = 1, f64_cos = (\<lambda>x. 0), f64_mul_add = (\<lambda>a b c. a * b + c), fft = (\<lambda>xs. xs)\<rparr>"

theorem streamed_features_are_offline_witness:
  "\<exists>s. foldM (append_samples example_dsp) (new_extractor example_dsp) [replicate 16000 1, replicate 16000 2] = Inr s \<and>
    se_wav s = concat [replicate 16000 1, replicate 16000 2] \<and>
    extract_features example_dsp (concat [replicate 16000 1, replicate 16000 2]) = Inr (extractor_features s)"
proof (rule streamed_features_are_offline)
  show "eq_respects_floor example_dsp" by (simp add: eq_respects_floor_def example_dsp_def)
  show "comparable (f32 example_dsp) (log_values example_dsp (concat [replicate 16000 1, replicate 16000 2]))"
    by (auto simp: comparable_def example_dsp_def example_ops_def)
  show "length (concat [replicate 16000 (1 :: int), replicate 16000 2]) \<le> isize_max - 199" by (simp add: isize_max_def)
qed

end
