(* ===== verification/AsrPrepare.thy ===== *)
theory AsrPrepare
  imports AudioSplit AsrOutput PromptBatch FeatureExtractor
begin

text \<open>
  From audio and prompt text to the inputs of the network: normalisation of samples
  (\<^verbatim>\<open>vasr-models/src/audio/normalize.rs\<close>), the prompt (\<^verbatim>\<open>processor/chat_template.rs\<close>), the number of audio positions
  (\<^verbatim>\<open>processor/feat_lengths.rs\<close>), and the preparation of a batch (\<^verbatim>\<open>processor/asr_processor.rs\<close>).

  The tokenizer, the decoders and the resampler are the parameters of \<^verbatim>\<open>asr_env\<close>.  Tokens are their ids.
\<close>

section \<open>The environment\<close>

datatype 'f audio_input =
  PathInput rstring | UrlInput rstring | Base64Input rstring | WaveformInput "'f list" nat

record 'f prepared_inputs =
  pi_input_ids :: "nat list"
  pi_attention_mask :: "nat list"
  pi_features :: "'f list list"
  pi_feature_mask :: "nat list"

record ('f, 'd) asr_env =
  ae_dsp :: "('f, 'd) dsp"
  ae_decode_path :: "rstring \<Rightarrow> ('f list \<times> nat) result"
  ae_decode_url :: "rstring \<Rightarrow> ('f list \<times> nat) result"
  ae_decode_base64 :: "rstring \<Rightarrow> ('f list \<times> nat) result"
  ae_resample :: "'f list \<Rightarrow> nat \<Rightarrow> nat \<Rightarrow> 'f list result"
  ae_padding_mode :: "rstring option"
  ae_token_to_id :: "rstring \<Rightarrow> nat result"
  ae_encode :: "rstring \<Rightarrow> nat list result"
  ae_decode :: "nat list \<Rightarrow> rstring result"
  ae_case :: case_env

abbreviation env_f32 :: "('f, 'd) asr_env \<Rightarrow> 'f f32_ops" where
  "env_f32 env \<equiv> f32 (ae_dsp env)"

section \<open>Samples\<close>

definition SAMPLE_RATE_HZ :: nat where "SAMPLE_RATE_HZ = 16000"

definition normalize_samples :: "'f f32_ops \<Rightarrow> 'f list \<Rightarrow> 'f list" where
  "normalize_samples F wav =
    (let peak = fold (\<lambda>x m. if f_lt F m (f_abs F x) then f_abs F x else m) wav (f_lit F 0 1);
         wav = (if f_is_finite F peak \<and> f_lt F (f_lit F 1 1) peak then map (\<lambda>x. f_div F x peak) wav else wav)
     in map (\<lambda>x. clamp_f F x (f_lit F (-1) 1) (f_lit F 1 1)) wav)"

definition normalize_audio_input :: "('f, 'd) asr_env \<Rightarrow> 'f audio_input \<Rightarrow> 'f list result" where
  "normalize_audio_input env input =
    rbind (case input of
        WaveformInput samples sample_rate \<Rightarrow> Inr (samples, sample_rate)
      | PathInput path \<Rightarrow> ae_decode_path env path
      | UrlInput url \<Rightarrow> ae_decode_url env url
      | Base64Input b64 \<Rightarrow> ae_decode_base64 env b64) (\<lambda>(wav, sr).
    if wav = [] then Inr wav
    else let wav = normalize_samples (env_f32 env) wav
         in if sr = SAMPLE_RATE_HZ then Inr wav
            else if sr = 0 then Inl (Err ''invalid sample_rate=0'')
            else ae_resample env wav sr SAMPLE_RATE_HZ)"

section \<open>The prompt\<close>

definition IM_START :: rstring where "IM_START = lit ''<|im_start|>''"
definition IM_END :: rstring where "IM_END = lit ''<|im_end|>''"
definition AUDIO_BOS :: rstring where "AUDIO_BOS = lit ''<|audio_start|>''"
definition AUDIO_PAD :: rstring where "AUDIO_PAD = lit ''<|audio_pad|>''"
definition AUDIO_EOS :: rstring where "AUDIO_EOS = lit ''<|audio_end|>''"

definition build_prompt :: "rstring \<Rightarrow> rstring option \<Rightarrow> rstring" where
  "build_prompt context force_language =
    IM_START @ lit ''system'' @ [10] @ context @ IM_END @ [10] @
    IM_START @ lit ''user'' @ [10] @ AUDIO_BOS @ AUDIO_PAD @ AUDIO_EOS @ IM_END @ [10] @
    IM_START @ lit ''assistant'' @ [10] @
    (case force_language of None \<Rightarrow> [] | Some lang \<Rightarrow> lit ''language '' @ lang @ lit ''<asr_text>'')"

text \<open>\<^verbatim>\<open>str::find\<close> with what follows the match.\<close>

definition parse_forced_language_suffix :: "rstring \<Rightarrow> rstring option" where
  "parse_forced_language_suffix prompt =
    (case split_once (lit ''language '') prompt of
       None \<Rightarrow> None
     | Some (_, rest) \<Rightarrow>
        (case split_once (lit ''<asr_text>'') rest of None \<Rightarrow> None | Some (lang, _) \<Rightarrow> Some lang))"

definition div_floor :: "int \<Rightarrow> int \<Rightarrow> int" where
  "div_floor a b =
    (let q = idiv a b; r = a - q * b
     in if r \<noteq> 0 \<and> ((r > 0) \<noteq> (b > 0)) then q - 1 else q)"

definition feat_extract_output_length :: "nat \<Rightarrow> nat" where
  "feat_extract_output_length input_len =
    (let input_len = min (int input_len) (int i64_max);
         leave = input_len mod 100;
         feat_len = div_floor (leave - 1) 2 + 1;
         base = div_floor (div_floor (feat_len - 1) 2) 2 + 1;
         extra = div_floor input_len 100 * 13;
         out = base + extra
     in if 0 \<le> out then nat out else 0)"

fun expand_first :: "nat \<Rightarrow> nat \<Rightarrow> bool \<Rightarrow> nat list \<Rightarrow> nat list" where
  "expand_first audio_pad_id n expanded [] = []"
| "expand_first audio_pad_id n expanded (i # ids) =
    (if \<not> expanded \<and> i = audio_pad_id then replicate n audio_pad_id @ expand_first audio_pad_id n True ids
     else i # expand_first audio_pad_id n expanded ids)"

definition expand_audio_pad_ids_first :: "nat list \<Rightarrow> nat \<Rightarrow> nat \<Rightarrow> nat list" where
  "expand_audio_pad_ids_first ids audio_pad_id n = (if n = 1 then ids else expand_first audio_pad_id n False ids)"

section \<open>A batch\<close>

datatype feature_padding_mode = FeaturePadding | WaveformPadding | WaveformFullPadding

definition parse_feature_padding_mode :: "rstring option \<Rightarrow> feature_padding_mode result" where
  "parse_feature_padding_mode value =
    (let value = (case map_option trim value of
           Some v \<Rightarrow> if v = [] then lit ''waveform'' else v | None \<Rightarrow> lit ''waveform'');
         value = ascii_lowercase value
     in if value \<in> set (map lit [''waveform'', ''waveforms'']) then Inr WaveformPadding
        else if value \<in> set (map lit [''waveform-full'', ''waveforms-full'', ''waveform_full'', ''waveforms_full''])
        then Inr WaveformFullPadding
        else if value \<in> set (map lit [''feature'', ''features'']) then Inr FeaturePadding
        else Inl (Err ''VASR_FEATURE_PADDING_MODE must be `feature`, `waveform`, or `waveform-full`''))"

definition first_row_len :: "'f list list \<Rightarrow> nat" where
  "first_row_len rows = (case rows of [] \<Rightarrow> 0 | row # _ \<Rightarrow> length row)"

definition pad_features :: "'f f32_ops \<Rightarrow> nat \<Rightarrow> 'f features \<Rightarrow> 'f features result" where
  "pad_features F max_frames f =
    (if ft_rows f = [] then Inl (Err ''features has no mel rows'')
     else let frames = first_row_len (ft_rows f)
          in if length (ft_mask f) \<noteq> frames then Inl (Err ''features mask len mismatch'')
             else if frames > max_frames then Inl (Err ''features frames exceeds max_frames'')
             else let pad = max_frames - frames
                  in if pad = 0 then Inr f
                     else rbind (traverse (\<lambda>row. if length row \<noteq> frames then Inl (Err ''input_features len mismatch'')
                              else Inr (row @ replicate pad (f_lit F 0 1))) (ft_rows f))
                            (\<lambda>rows. Inr \<lparr>ft_rows = rows, ft_mask = ft_mask f @ replicate pad 0\<rparr>))"

definition pad_feature_batch_to_max_frames :: "'f f32_ops \<Rightarrow> 'f features list \<Rightarrow> 'f features list result" where
  "pad_feature_batch_to_max_frames F features =
    (let max_frames = max_or_0 (map (\<lambda>f. first_row_len (ft_rows f)) (filter (\<lambda>f. ft_rows f \<noteq> []) features))
     in traverse (pad_features F max_frames) features)"

definition extract_features_with_feature_padding :: "('f, 'd) asr_env \<Rightarrow> 'f list list \<Rightarrow> 'f features list result" where
  "extract_features_with_feature_padding env wavs =
    rbind (traverse (extract_features (ae_dsp env)) wavs) (pad_feature_batch_to_max_frames (env_f32 env))"

definition extract_features_with_waveform_padding :: "('f, 'd) asr_env \<Rightarrow> 'f list list \<Rightarrow> 'f features list result" where
  "extract_features_with_waveform_padding env wavs =
    (let max_samples = max_or_0 (map length wavs)
     in rbind (traverse (\<lambda>wav. extract_features_with_padded_waveform_len (ae_dsp env) wav max_samples) wavs) (pad_feature_batch_to_max_frames (env_f32 env)))"

definition HOP_LENGTH :: nat where "HOP_LENGTH = 160"

definition extract_features_with_full_waveform_padding ::
  "('f, 'd) asr_env \<Rightarrow> 'f list list \<Rightarrow> 'f features list result" where
  "extract_features_with_full_waveform_padding env wavs =
    (let max_samples = max_or_0 (map length wavs)
     in traverse (\<lambda>wav.
          let real_len = length wav;
              padded = (if real_len < max_samples then wav @ replicate (max_samples - real_len) (f_lit (env_f32 env) 0 1) else wav)
          in rbind (extract_features (ae_dsp env) padded) (\<lambda>f.
             let frames_total = length padded div HOP_LENGTH
             in if length (ft_mask f) \<noteq> frames_total then Inl (Err ''internal error: feature_attention_mask len'')
                else Inr (f\<lparr>ft_mask := map (\<lambda>i. if saturating_mul i HOP_LENGTH < real_len then 1 else 0) [0..<frames_total]\<rparr>))) wavs)"

text \<open>Token ids of the prompts, each prompt encoded once.\<close>

fun prompt_ids ::
  "('f, 'd) asr_env \<Rightarrow> nat \<Rightarrow> (rstring \<rightharpoonup> nat list) \<Rightarrow> (rstring \<times> 'f features) list \<Rightarrow> nat list list result" where
  "prompt_ids env audio_pad_id cache [] = Inr []"
| "prompt_ids env audio_pad_id cache ((prompt, f) # items) =
    (let audio_out_len = feat_extract_output_length (valid_count (ft_mask f))
     in rbind (case cache prompt of Some ids \<Rightarrow> Inr ids | None \<Rightarrow> ae_encode env prompt) (\<lambda>base_ids.
        rbind (prompt_ids env audio_pad_id (cache(prompt \<mapsto> base_ids)) items) (\<lambda>rest.
        Inr (expand_audio_pad_ids_first base_ids audio_pad_id audio_out_len # rest))))"

definition prepare_batch_inner ::
  "('f, 'd) asr_env \<Rightarrow> (rstring \<times> 'f audio_input) list \<Rightarrow> bool \<Rightarrow> 'f prepared_inputs list result" where
  "prepare_batch_inner env items pad_to_batch_max =
    (if items = [] then Inr []
     else rbind (traverse (\<lambda>(_, audio). normalize_audio_input env audio) items) (\<lambda>wavs.
          rbind (ae_token_to_id env (lit ''<|endoftext|>'')) (\<lambda>pad_id.
          rbind (ae_token_to_id env AUDIO_PAD) (\<lambda>audio_pad_id.
          rbind (if pad_to_batch_max
                 then rbind (parse_feature_padding_mode (ae_padding_mode env)) (\<lambda>mode. case mode of
                        FeaturePadding \<Rightarrow> extract_features_with_feature_padding env wavs
                      | WaveformPadding \<Rightarrow> extract_features_with_waveform_padding env wavs
                      | WaveformFullPadding \<Rightarrow> extract_features_with_full_waveform_padding env wavs)
                 else extract_features_with_feature_padding env wavs) (\<lambda>feats.
          rbind (prompt_ids env audio_pad_id Map.empty (zip (map fst items) feats)) (\<lambda>input_ids.
          let max_tokens = max_or_0 (map length input_ids)
          in Inr (map (\<lambda>(ids, f).
               let pad = (if pad_to_batch_max then max_tokens - length ids else 0)
               in \<lparr>pi_input_ids = ids @ replicate pad pad_id, pi_attention_mask = replicate (length ids) 1 @ replicate pad 0,
                   pi_features = ft_rows f, pi_feature_mask = ft_mask f\<rparr>) (zip input_ids feats))))))))"

definition prepare_one :: "('f, 'd) asr_env \<Rightarrow> rstring \<Rightarrow> 'f audio_input \<Rightarrow> 'f prepared_inputs result" where
  "prepare_one env prompt audio =
    rbind (normalize_audio_input env audio) (\<lambda>wav.
    rbind (extract_features (ae_dsp env) wav) (\<lambda>feats.
    let placeholder_len = feat_extract_output_length (valid_count (ft_mask feats))
    in rbind (ae_token_to_id env AUDIO_PAD) (\<lambda>audio_pad_id.
       rbind (ae_encode env prompt) (\<lambda>base_ids.
       let input_ids = expand_audio_pad_ids_first base_ids audio_pad_id placeholder_len
       in Inr \<lparr>pi_input_ids = input_ids, pi_attention_mask = replicate (length input_ids) 1,
               pi_features = ft_rows feats, pi_feature_mask = ft_mask feats\<rparr>))))"

section \<open>A batch holds what each item alone holds\<close>

definition ok_value :: "'a result \<Rightarrow> 'a" where
  "ok_value r = (case r of Inr x \<Rightarrow> x | Inl _ \<Rightarrow> undefined)"

lemma ok_value_Inr [simp]: "ok_value (Inr x) = x"
  by (simp add: ok_value_def)

lemma is_ok_value: "is_ok r \<Longrightarrow> r = Inr (ok_value r)"
  by (cases r) simp_all

lemma traverse_ok_iff: "traverse f xs = Inr ys \<longleftrightarrow> (\<forall>x\<in>set xs. is_ok (f x)) \<and> ys = map (\<lambda>x. ok_value (f x)) xs"
proof
  assume a: "traverse f xs = Inr ys"
  then have ok: "\<forall>x\<in>set xs. is_ok (f x)" using is_ok_traverse[of f xs] by simp
  then show "(\<forall>x\<in>set xs. is_ok (f x)) \<and> ys = map (\<lambda>x. ok_value (f x)) xs"
    using traverse_all_ok[of xs f "\<lambda>x. ok_value (f x)"] a is_ok_value by auto
next
  assume "(\<forall>x\<in>set xs. is_ok (f x)) \<and> ys = map (\<lambda>x. ok_value (f x)) xs"
  then show "traverse f xs = Inr ys" using traverse_all_ok[of xs f "\<lambda>x. ok_value (f x)"] is_ok_value by auto
qed

lemma traverse_map: "traverse f (map g xs) = traverse (\<lambda>x. f (g x)) xs"
  by (induction xs) simp_all

lemma traverse_bind_iff:
  "traverse (\<lambda>x. rbind (g x) (\<lambda>b. Inr (h x b))) xs = Inr r \<longleftrightarrow>
    (\<forall>x\<in>set xs. is_ok (g x)) \<and> r = map (\<lambda>x. h x (ok_value (g x))) xs"
proof (induction xs arbitrary: r)
  case (Cons x xs)
  then show ?case by (cases "g x") auto
qed auto

definition offline_features :: "('f, 'd) dsp \<Rightarrow> 'f list \<Rightarrow> 'f features" where
  "offline_features D wav = \<lparr>ft_rows = compressed D wav, ft_mask = replicate (length wav div 160) 1\<rparr>"

lemma extract_features_total: "extract_features D wav = Inr (offline_features D wav)"
  by (simp add: extract_features_columns offline_features_def)

lemma offline_rows:
  "length (ft_rows (offline_features D wav)) = 128" "\<forall>row\<in>set (ft_rows (offline_features D wav)). length row = length wav div 160"
  "ft_mask (offline_features D wav) = replicate (length wav div 160) 1"
  using features_shape[OF extract_features_total[of D wav]] by blast+

definition zero_pad :: "'f f32_ops \<Rightarrow> nat \<Rightarrow> 'f list list \<Rightarrow> 'f list list" where
  "zero_pad F m rows = map (\<lambda>row. row @ replicate (m - length row) (f_lit F 0 1)) rows"

lemma offline_rows_nonempty: "ft_rows (offline_features D wav) \<noteq> []"
  using offline_rows(1)[of D wav] by (metis length_0_conv zero_neq_numeral)

lemma first_row_offline: "first_row_len (ft_rows (offline_features D wav)) = length wav div 160"
  using offline_rows(2)[of D wav] offline_rows_nonempty[of D wav]
  by (cases "ft_rows (offline_features D wav)") (auto simp: first_row_len_def)

definition pad_offline :: "('f, 'd) dsp \<Rightarrow> nat \<Rightarrow> 'f list \<Rightarrow> 'f features" where
  "pad_offline D m wav = \<lparr>ft_rows = zero_pad (f32 D) m (ft_rows (offline_features D wav)),
     ft_mask = ft_mask (offline_features D wav) @ replicate (m - length wav div 160) 0\<rparr>"

lemma pad_features_offline:
  assumes "length wav div 160 \<le> m"
  shows "pad_features (f32 D) m (offline_features D wav) = Inr (pad_offline D m wav)"
proof -
  let ?f = "offline_features D wav"
  let ?n = "length wav div 160"
  have rows: "zero_pad (f32 D) m (ft_rows ?f) = map (\<lambda>row. row @ replicate (m - ?n) (f_lit (f32 D) 0 1)) (ft_rows ?f)"
    using offline_rows(2)[of D wav] by (simp add: zero_pad_def)
  have "traverse (\<lambda>row. if length row \<noteq> ?n then Inl (Err ''input_features len mismatch'')
      else Inr (row @ replicate (m - ?n) (f_lit (f32 D) 0 1))) (ft_rows ?f) = Inr (zero_pad (f32 D) m (ft_rows ?f))"
    unfolding rows using offline_rows(2)[of D wav] by (intro traverse_all_ok) simp
  then show ?thesis using assms offline_rows(3)[of D wav] offline_rows_nonempty[of D wav]
    by (cases "?n = m") (simp_all add: pad_features_def Let_def first_row_offline pad_offline_def rows
        not_less[symmetric])
qed

lemma feature_padding_total:
  "extract_features_with_feature_padding env wavs =
    Inr (map (pad_offline (ae_dsp env) (max_or_0 (map (\<lambda>wav. length wav div 160) wavs))) wavs)"
proof -
  let ?D = "ae_dsp env" and ?m = "max_or_0 (map (\<lambda>wav. length wav div 160) wavs)"
  have "traverse (extract_features ?D) wavs = Inr (map (offline_features ?D) wavs)"
    by (rule traverse_all_ok) (rule extract_features_total)
  moreover have "map (\<lambda>f. first_row_len (ft_rows f)) (filter (\<lambda>f. ft_rows f \<noteq> []) (map (offline_features ?D) wavs)) =
      map (\<lambda>wav. length wav div 160) wavs"
    by (induction wavs) (simp_all add: first_row_offline offline_rows_nonempty)
  moreover have "traverse (pad_features (f32 ?D) ?m) (map (offline_features ?D) wavs) = Inr (map (pad_offline ?D ?m) wavs)"
  proof -
    have "traverse (pad_features (f32 ?D) ?m) (map (offline_features ?D) wavs) =
        Inr (map (\<lambda>f. ok_value (pad_features (f32 ?D) ?m f)) (map (offline_features ?D) wavs))"
      by (rule traverse_all_ok) (auto simp: pad_features_offline max_or_0_ge)
    also have "map (\<lambda>f. ok_value (pad_features (f32 ?D) ?m f)) (map (offline_features ?D) wavs) = map (pad_offline ?D ?m) wavs"
      by (simp add: pad_features_offline max_or_0_ge)
    finally show ?thesis .
  qed
  ultimately show ?thesis
    by (simp add: extract_features_with_feature_padding_def pad_feature_batch_to_max_frames_def Let_def)
qed

lemma prompt_ids_traverse:
  assumes "\<And>p ids. cache p = Some ids \<Longrightarrow> ae_encode env p = Inr ids"
  shows "prompt_ids env pad cache items = traverse (\<lambda>(p, f). rbind (ae_encode env p) (\<lambda>base.
    Inr (expand_audio_pad_ids_first base pad (feat_extract_output_length (valid_count (ft_mask f)))))) items"
  using assms
proof (induction env pad cache items rule: prompt_ids.induct)
  case (2 env pad cache p f items)
  have hit: "(case cache p of Some ids \<Rightarrow> Inr ids | None \<Rightarrow> ae_encode env p) = ae_encode env p"
    using 2(2) by (auto split: option.splits)
  show ?case
  proof (cases "ae_encode env p")
    case (Inr base)
    then have "prompt_ids env pad (cache(p \<mapsto> base)) items = traverse (\<lambda>(p, f). rbind (ae_encode env p) (\<lambda>base.
        Inr (expand_audio_pad_ids_first base pad (feat_extract_output_length (valid_count (ft_mask f)))))) items"
      using 2 by (intro 2(1)[OF refl]) (auto simp: hit split: if_splits)
    then show ?thesis using Inr hit by (simp add: Let_def)
  qed (simp add: hit Let_def)
qed simp

lemma prepare_one_value:
  "prepare_one env prompt audio = Inr q \<longleftrightarrow>
    (\<exists>wav pad base. normalize_audio_input env audio = Inr wav \<and> ae_token_to_id env AUDIO_PAD = Inr pad \<and> ae_encode env prompt = Inr base \<and>
      (let ids = expand_audio_pad_ids_first base pad (feat_extract_output_length (length wav div 160));
           f = offline_features (ae_dsp env) wav
       in q = \<lparr>pi_input_ids = ids, pi_attention_mask = replicate (length ids) 1, pi_features = ft_rows f, pi_feature_mask = ft_mask f\<rparr>))"
proof -
  have "valid_count (replicate n (Suc 0)) = n" for n by (simp add: valid_count_def)
  then show ?thesis
    by (auto simp: prepare_one_def extract_features_total offline_rows(3) Let_def)
qed

definition pad_prepared :: "'f f32_ops \<Rightarrow> nat \<Rightarrow> 'f prepared_inputs \<Rightarrow> 'f prepared_inputs" where
  "pad_prepared F m q = q\<lparr>pi_features := zero_pad F m (pi_features q),
     pi_feature_mask := pi_feature_mask q @ replicate (m - length (pi_feature_mask q)) 0\<rparr>"

definition widest :: "'f prepared_inputs list \<Rightarrow> nat" where
  "widest qs = max_or_0 (map (\<lambda>q. length (pi_feature_mask q)) qs)"

lemma prepare_varlen_iff:
  assumes "items \<noteq> []"
  shows "prepare_batch_inner env items False = Inr ps \<longleftrightarrow> is_ok (ae_token_to_id env (lit ''<|endoftext|>'')) \<and>
    (\<exists>qs. traverse (\<lambda>(prompt, audio). prepare_one env prompt audio) items = Inr qs \<and>
      ps = map (pad_prepared (env_f32 env) (widest qs)) qs)" (is "?L \<longleftrightarrow> ?R")
proof (cases "is_ok (ae_token_to_id env (lit ''<|endoftext|>''))")
  case True
  then obtain eot where eot: "ae_token_to_id env (lit ''<|endoftext|>'') = Inr eot" by (auto simp: is_ok_iff)
  show ?thesis
  proof (cases "ae_token_to_id env AUDIO_PAD")
    case (Inl e)
    then have "\<not> is_ok (prepare_one env prompt audio)" for prompt audio by (auto simp: is_ok_iff prepare_one_value)
    then have "\<not> is_ok (traverse (\<lambda>(prompt, audio). prepare_one env prompt audio) items)"
      unfolding is_ok_traverse using assms by (cases items) (auto split: prod.splits)
    then show ?thesis using Inl assms by (auto simp: prepare_batch_inner_def is_ok_iff)
  next
    case (Inr pad)
    define wav where "wav = (\<lambda>item :: rstring \<times> 'a audio_input. ok_value (normalize_audio_input env (snd item)))"
    define ids where "ids = (\<lambda>item. expand_audio_pad_ids_first (ok_value (ae_encode env (fst item))) pad
      (feat_extract_output_length (length (wav item) div 160)))"
    define one where "one = (\<lambda>item. \<lparr>pi_input_ids = ids item, pi_attention_mask = replicate (length (ids item)) 1,
      pi_features = ft_rows (offline_features (ae_dsp env) (wav item)),
      pi_feature_mask = ft_mask (offline_features (ae_dsp env) (wav item))\<rparr>)"
    let ?ok = "\<lambda>item. is_ok (normalize_audio_input env (snd item)) \<and> is_ok (ae_encode env (fst item))"
    have one: "prepare_one env (fst item) (snd item) = Inr (one item)" if "?ok item" for item
      using is_ok_value[of "normalize_audio_input env (snd item)"] is_ok_value[of "ae_encode env (fst item)"] that Inr
      unfolding prepare_one_value one_def wav_def ids_def Let_def by blast
    have one_ok: "is_ok (prepare_one env (fst item) (snd item)) \<longleftrightarrow> ?ok item" for item
      unfolding is_ok_iff prepare_one_value using Inr by (auto simp: Let_def)
    have qs: "traverse (\<lambda>(prompt, audio). prepare_one env prompt audio) items = Inr qs \<longleftrightarrow>
        (\<forall>item\<in>set items. ?ok item) \<and> qs = map one items" for qs
      unfolding traverse_ok_iff case_prod_beta one_ok using one by (auto intro!: map_cong simp: ok_value_Inr)
    have wavs: "traverse (\<lambda>(_, audio). normalize_audio_input env audio) items = Inr ws \<longleftrightarrow>
        (\<forall>item\<in>set items. is_ok (normalize_audio_input env (snd item))) \<and> ws = map wav items" for ws
      unfolding traverse_ok_iff case_prod_beta wav_def by simp
    let ?m = "max_or_0 (map (\<lambda>wav. length wav div 160) (map wav items))"
    have m: "widest (map one items) = ?m" by (simp add: widest_def one_def offline_rows(3) comp_def)
    have mask: "valid_count (ft_mask (pad_offline (ae_dsp env) k w)) = length w div 160" for k w
      by (simp add: pad_offline_def offline_rows(3) valid_count_def)
    have enc: "prompt_ids env pad Map.empty (zip (map fst items) (map (pad_offline (ae_dsp env) k) (map wav items))) = Inr r \<longleftrightarrow>
        (\<forall>item\<in>set items. is_ok (ae_encode env (fst item))) \<and> r = map ids items" for k r
    proof -
      have "zip (map fst items) (map (pad_offline (ae_dsp env) k) (map wav items)) =
          map (\<lambda>item. (fst item, pad_offline (ae_dsp env) k (wav item))) items"
        by (induction items) simp_all
      then have "prompt_ids env pad Map.empty (zip (map fst items) (map (pad_offline (ae_dsp env) k) (map wav items))) =
          traverse (\<lambda>item. rbind (ae_encode env (fst item)) (\<lambda>base.
            Inr (expand_audio_pad_ids_first base pad (feat_extract_output_length (length (wav item) div 160))))) items"
        by (subst prompt_ids_traverse) (simp_all add: mask traverse_map)
      then show ?thesis by (simp only: ids_def traverse_bind_iff)
    qed
    define pads where "pads = (\<lambda>ws. map (pad_offline (ae_dsp env) (max_or_0 (map (\<lambda>wav. length wav div 160) ws))) ws)"
    define G where "G = (\<lambda>r ws. map (\<lambda>(i, f). \<lparr>pi_input_ids = i, pi_attention_mask = replicate (length i) 1,
      pi_features = ft_rows f, pi_feature_mask = ft_mask f\<rparr>) (zip r (pads ws)))"
    have out: "G (map ids items) (map wav items) = map (pad_prepared (env_f32 env) ?m) (map one items)"
      by (rule nth_equalityI) (simp_all add: G_def pads_def pad_prepared_def one_def pad_offline_def offline_rows(3))
    have "?L \<longleftrightarrow> (\<exists>ws. traverse (\<lambda>(_, audio). normalize_audio_input env audio) items = Inr ws \<and>
        (\<exists>r. prompt_ids env pad Map.empty (zip (map fst items) (pads ws)) = Inr r \<and> ps = G r ws))"
      by (auto simp: prepare_batch_inner_def eot Inr feature_padding_total Let_def assms pads_def G_def)
    also have "\<dots> \<longleftrightarrow> (\<forall>item\<in>set items. is_ok (normalize_audio_input env (snd item))) \<and>
        (\<exists>r. prompt_ids env pad Map.empty (zip (map fst items) (pads (map wav items))) = Inr r \<and> ps = G r (map wav items))"
      unfolding wavs by blast
    also have "\<dots> \<longleftrightarrow> (\<forall>item\<in>set items. ?ok item) \<and> ps = G (map ids items) (map wav items)"
      unfolding pads_def enc by blast
    finally have "?L \<longleftrightarrow> (\<forall>item\<in>set items. ?ok item) \<and> ps = map (pad_prepared (env_f32 env) ?m) (map one items)"
      unfolding out .
    then show ?thesis using True m by (auto simp: qs)
  qed
next
  case False
  then show ?thesis using assms by (cases "ae_token_to_id env (lit ''<|endoftext|>'')") (auto simp: prepare_batch_inner_def)
qed

end
