(* ===== verification/AsrTranscribe.thy ===== *)
theory AsrTranscribe
  imports AsrPrepare "HOL-Library.Product_Lexorder"
begin

text \<open>
  Offline transcription (\<^verbatim>\<open>vasr-models/src/inference/transcribe.rs\<close> and \<^verbatim>\<open>types.rs\<close>): audio is split
  into chunks, chunks are grouped into batches by duration and count, prepared prompts are regrouped by length, the
  recogniser is run on each group, and what it writes is put back in order.

  \<^verbatim>\<open>recognizer\<close> holds what the network and its batch scheduler return for a stacked batch, the order that
  \<^verbatim>\<open>sort_unstable_by_key\<close> gives to equal lengths, and the forced aligner.  A tensor is a nested list.  The
  copies of these functions that measure time are not modelled.
\<close>

section \<open>Types\<close>

datatype 'a batch = One 'a | Many "'a list"

definition broadcast :: "'a batch \<Rightarrow> nat \<Rightarrow> 'a list result" where
  "broadcast b n =
    (if n = 0 then Inr []
     else case b of
       One v \<Rightarrow> Inr (replicate n v)
     | Many vs \<Rightarrow>
        (if vs = [] then Inl (Err ''is empty'')
         else if length vs = 1 \<and> n > 1 then Inr (replicate n (hd vs))
         else if length vs \<noteq> n then Inl (Err ''batch size mismatch'')
         else Inr vs))"

record 'f transcribe_options =
  to_context :: "rstring batch"
  to_language :: "rstring option batch"
  to_return_timestamps :: bool
  to_max_new_tokens :: nat
  to_max_batch_size :: nat
  to_max_batch_audio_sec :: 'f
  to_chunk_max_sec :: "'f option"
  to_bucket_by_length :: bool

definition default_transcribe_options :: "'f f32_ops \<Rightarrow> 'f transcribe_options" where
  "default_transcribe_options F =
    \<lparr>to_context = One [], to_language = One None, to_return_timestamps = False, to_max_new_tokens = 0, to_max_batch_size = 0,
     to_max_batch_audio_sec = f_lit F 180 1, to_chunk_max_sec = None, to_bucket_by_length = True\<rparr>"

type_synonym 'd timed_text = "rstring \<times> 'd \<times> 'd"

record 'd asr_transcription =
  at_language :: rstring
  at_text :: rstring
  at_timestamps :: "'d timed_text list option"

record ('f, 'd) recognizer =
  rg_generate :: "bool \<Rightarrow> (nat list \<times> nat list) list \<Rightarrow> 'f list list list \<times> nat list \<Rightarrow> nat \<Rightarrow> nat list \<Rightarrow> nat \<Rightarrow> nat list list result"
  rg_sort :: "(nat \<times> nat) list \<Rightarrow> (nat \<times> nat) list"
  rg_continuous :: bool
  rg_align :: "('f prepared_inputs \<times> rstring \<times> rstring) list \<Rightarrow> 'd timed_text list list result"

section \<open>Stacking and regrouping\<close>

definition stack_row :: "'f f32_ops \<Rightarrow> bool \<Rightarrow> nat \<Rightarrow> 'f list \<Rightarrow> 'f list result" where
  "stack_row F allow_variable_frames frames row =
    (if allow_variable_frames
     then if length row > frames then Inl (Err ''row len exceeds max frames'')
          else Inr (row @ replicate (frames - length row) (f_lit F 0 1))
     else if length row \<noteq> frames then Inl (Err ''row len mismatch'') else Inr row)"

definition stack_item :: "'f f32_ops \<Rightarrow> bool \<Rightarrow> nat \<Rightarrow> nat \<Rightarrow> 'f prepared_inputs \<Rightarrow> ('f list list \<times> nat) result" where
  "stack_item F allow_variable_frames mel frames p =
    (if length (pi_features p) \<noteq> mel then Inl (Err ''input_features mel mismatch'')
     else if \<not> allow_variable_frames \<and> length (pi_feature_mask p) \<noteq> frames then Inl (Err ''feature_attention_mask len mismatch'')
     else rbind (traverse (stack_row F allow_variable_frames frames) (pi_features p)) (\<lambda>rows.
          Inr (rows, valid_count (pi_feature_mask p))))"

definition stack_features_inner ::
  "'f f32_ops \<Rightarrow> 'f prepared_inputs list \<Rightarrow> bool \<Rightarrow> ('f list list list \<times> nat list) result" where
  "stack_features_inner F prepared allow_variable_frames =
    (if prepared = [] then Inl (Err ''prepared is empty'')
     else let mel = (if allow_variable_frames then max_or_0 (map (\<lambda>p. length (pi_features p)) prepared)
                     else length (pi_features (hd prepared)))
          in if mel = 0 then Inl (Err ''prepared input_features has zero mel bins'')
             else let frames = (if allow_variable_frames then max_or_0 (concat (map (\<lambda>p. map length (pi_features p)) prepared))
                                else length (hd (pi_features (hd prepared))))
                  in rbind (traverse (stack_item F allow_variable_frames mel frames) prepared) (\<lambda>rows.
                     Inr (map fst rows, map snd rows)))"

definition build_eos_token_ids :: "('f, 'd) asr_env \<Rightarrow> nat list result" where
  "build_eos_token_ids env =
    rbind (ae_token_to_id env IM_END) (\<lambda>a.
    rbind (ae_token_to_id env (lit ''<|endoftext|>'')) (\<lambda>b.
    Inr (remdups_adj (sort [a, b]))))"

definition use_varlen_paged_prepare :: "('f, 'd) recognizer \<Rightarrow> bool \<Rightarrow> bool" where
  "use_varlen_paged_prepare rg paged \<longleftrightarrow> paged \<and> rg_continuous rg"

definition input_prompt_len :: "'f prepared_inputs \<Rightarrow> nat" where
  "input_prompt_len p = valid_count (pi_attention_mask p)"

fun group_by_len :: "nat \<Rightarrow> (nat \<times> nat) list \<Rightarrow> (nat \<times> nat) list \<Rightarrow> nat \<Rightarrow> nat \<Rightarrow> (nat \<times> nat) list list" where
  "group_by_len count_cap [] current current_min current_max = (if current = [] then [] else [current])"
| "group_by_len count_cap ((idx, len) # order) current current_min current_max =
    (let should_split = (if current = [] then False
           else let next_max = max current_max len
                in length current \<ge> count_cap \<or> next_max > div_ceil (saturating_mul current_min 4) 3 \<or>
                   saturating_sub next_max current_min > 256);
         done = (if should_split then [current] else []);
         current = (if should_split then [] else current);
         current_min = (if current = [] then len else current_min);
         current_max = (if current = [] then len else max current_max len)
     in done @ group_by_len count_cap order (current @ [(idx, len)]) current_min current_max)"

definition repad :: "nat \<Rightarrow> nat \<Rightarrow> nat \<Rightarrow> 'f prepared_inputs \<Rightarrow> 'f prepared_inputs result" where
  "repad pad_id group_max len src =
    (if len > length (pi_input_ids src) then Inl (Panic ''range end index out of range'')
     else Inr \<lparr>pi_input_ids = take len (pi_input_ids src) @ replicate (group_max - len) pad_id,
               pi_attention_mask = replicate len 1 @ replicate (group_max - len) 0,
               pi_features = pi_features src, pi_feature_mask = pi_feature_mask src\<rparr>)"

definition rebatch_prepared_inputs ::
  "('f, 'd) recognizer \<Rightarrow> 'f prepared_inputs list \<Rightarrow> nat \<Rightarrow> nat \<Rightarrow> (nat \<times> 'f prepared_inputs) list list result" where
  "rebatch_prepared_inputs rg prepared pad_id max_batch_size =
    (if prepared = [] then Inr []
     else let count_cap = (if max_batch_size = 0 then max (length prepared) 1 else max_batch_size);
              order = rg_sort rg (zip [0..<length prepared] (map input_prompt_len prepared));
              grouped = group_by_len count_cap order [] 0 0
          in traverse (\<lambda>group.
               let group_max = max_or_0 (map snd group)
               in traverse (\<lambda>(idx, len). rbind (index_r prepared idx) (\<lambda>src.
                    rbind (repad pad_id group_max len src) (\<lambda>item. Inr (idx, item)))) group) grouped)"

section \<open>Generation\<close>

definition put_slot :: "'a option list \<Rightarrow> nat \<times> 'a \<Rightarrow> 'a option list result" where
  "put_slot slots iv =
    (case iv of (i, v) \<Rightarrow> if i < length slots then Inr (slots[i := Some v]) else Inl (Panic ''index out of bounds''))"

definition generate_micro_batch ::
  "('f, 'd) asr_env \<Rightarrow> ('f, 'd) recognizer \<Rightarrow> bool \<Rightarrow> nat \<Rightarrow> nat list \<Rightarrow> nat \<Rightarrow> rstring option list \<Rightarrow>
    (nat \<times> 'f prepared_inputs) list \<Rightarrow> rstring option list result" where
  "generate_micro_batch env rg paged max_new_tokens eos pad_id out batch =
    (let batch_prepared = map snd batch
     in rbind (stack_features_inner (env_f32 env) batch_prepared (use_varlen_paged_prepare rg paged)) (\<lambda>stacked.
        rbind (rg_generate rg paged (map (\<lambda>p. (pi_input_ids p, pi_attention_mask p)) batch_prepared) stacked max_new_tokens eos pad_id)
          (\<lambda>gen_ids.
        if length gen_ids \<noteq> length batch_prepared then Inl (Err ''internal error: generated micro-batch size mismatch'')
        else foldM (\<lambda>out (orig_idx, ids). rbind (ae_decode env ids) (\<lambda>raw. put_slot out (orig_idx, raw))) out
               (zip (map fst batch) gen_ids))))"

definition generate_raw_prepared_batch ::
  "('f, 'd) asr_env \<Rightarrow> ('f, 'd) recognizer \<Rightarrow> bool \<Rightarrow> 'f prepared_inputs list \<Rightarrow> nat \<Rightarrow> nat \<Rightarrow> nat list \<Rightarrow> rstring list result" where
  "generate_raw_prepared_batch env rg paged prepared max_new_tokens max_batch_size eos =
    (if prepared = [] then Inr []
     else let max_new_tokens = (if max_new_tokens = 0 then 256 else max_new_tokens);
              effective_max_batch = (if max_batch_size = 0 then max (length prepared) 1 else max_batch_size)
          in rbind (ae_token_to_id env (lit ''<|endoftext|>'')) (\<lambda>pad_id.
             rbind (rebatch_prepared_inputs rg prepared pad_id effective_max_batch) (\<lambda>micro_batches.
             rbind (foldM (generate_micro_batch env rg paged max_new_tokens eos pad_id) (replicate (length prepared) None) micro_batches)
               (\<lambda>out.
             traverse (\<lambda>x. ok_or x (Err ''missing generated text'')) out))))"

section \<open>Batches of chunks\<close>

definition normalize_forced_language :: "('f, 'd) asr_env \<Rightarrow> rstring option \<Rightarrow> rstring option result" where
  "normalize_forced_language env lang =
    (case lang of
       None \<Rightarrow> Inr None
     | Some lang \<Rightarrow>
        (let s = trim lang
         in if s = [] then Inr None
            else rbind (normalize_language_name (ae_case env) s) (\<lambda>normalized.
                 rbind (validate_language normalized) (\<lambda>_. Inr (Some normalized)))))"

record 'f chunk_item =
  ci_orig_index :: nat
  ci_wav :: "'f list"
  ci_offset_sec :: 'f

definition chunk_audio_seconds :: "'f f32_ops \<Rightarrow> nat \<Rightarrow> 'f" where
  "chunk_audio_seconds F samples = f_div F (f_int F (int samples)) (f_int F (int SAMPLE_RATE_HZ))"

definition effective_max_batch_count :: "nat \<Rightarrow> nat \<Rightarrow> nat" where
  "effective_max_batch_count max_batch_size chunk_len = (if max_batch_size = 0 then max chunk_len 1 else max_batch_size)"

text \<open>\<^verbatim>\<open>slice::chunks\<close>.\<close>

fun count_groups :: "nat \<Rightarrow> 'a list \<Rightarrow> 'a list list" where
  "count_groups cap [] = []"
| "count_groups cap (x # xs) = take cap (x # xs) # count_groups cap (drop (cap - 1) xs)"

fun group_loop ::
  "'f f32_ops \<Rightarrow> 'f chunk_item list \<Rightarrow> nat \<Rightarrow> 'f \<Rightarrow> nat list \<Rightarrow> nat list \<Rightarrow> 'f \<Rightarrow> nat list list result" where
  "group_loop F chunks count_cap max_sec [] current current_sec = Inr (if current = [] then [] else [current])"
| "group_loop F chunks count_cap max_sec (idx # ordered) current current_sec =
    rbind (ok_or (get chunks idx) (Err ''missing chunk'')) (\<lambda>chunk.
    let sec = chunk_audio_seconds F (length (ci_wav chunk))
    in if f_lt F max_sec sec
       then rbind (group_loop F chunks count_cap max_sec ordered [] (if current = [] then current_sec else f_lit F 0 1)) (\<lambda>groups.
            Inr ((if current = [] then [] else [current]) @ [[idx]] @ groups))
       else let exceeds_duration = (current \<noteq> [] \<and>
                  f_lt F (f_add F max_sec (f_lit F 1 (2 ^ 23))) (f_add F current_sec sec));
                exceeds_count = (current \<noteq> [] \<and> length current \<ge> count_cap);
                flush = (exceeds_duration \<or> exceeds_count);
                done = (if flush then [current] else []);
                current' = (if flush then [] else current) @ [idx];
                current_sec' = f_add F (if flush then f_lit F 0 1 else current_sec) sec
            in if length current' \<ge> count_cap
               then rbind (group_loop F chunks count_cap max_sec ordered [] (f_lit F 0 1)) (\<lambda>groups. Inr (done @ [current'] @ groups))
               else rbind (group_loop F chunks count_cap max_sec ordered current' current_sec') (\<lambda>groups. Inr (done @ groups)))"

definition group_chunk_indices ::
  "'f f32_ops \<Rightarrow> nat list \<Rightarrow> 'f chunk_item list \<Rightarrow> nat \<Rightarrow> 'f \<Rightarrow> nat list list result" where
  "group_chunk_indices F ordered_indices chunks max_batch_size max_batch_audio_sec =
    (if ordered_indices = [] then Inr []
     else let count_cap = effective_max_batch_count max_batch_size (length ordered_indices)
          in if f_le F max_batch_audio_sec (f_lit F 0 1) then Inr (count_groups count_cap ordered_indices)
             else group_loop F chunks count_cap max_batch_audio_sec ordered_indices [] (f_lit F 0 1))"

record ('f, 'd) chunk_batch =
  cb_chunks :: "'f chunk_item list"
  cb_prompts :: "rstring list"
  cb_forced :: "rstring option list"
  cb_options :: "'f transcribe_options"
  cb_eos :: "nat list"
  cb_paged :: bool

definition get_chunk :: "'f chunk_item list \<Rightarrow> nat \<Rightarrow> 'f chunk_item result" where
  "get_chunk chunks i = ok_or (get chunks i) (Err ''missing chunk'')"

definition chunk_request ::
  "rstring list \<Rightarrow> 'f chunk_item \<Rightarrow> (rstring \<times> 'f audio_input) result" where
  "chunk_request prompts c =
    rbind (ok_or (get prompts (ci_orig_index c)) (Err ''missing prompt'')) (\<lambda>prompt.
    Inr (prompt, WaveformInput (ci_wav c) SAMPLE_RATE_HZ))"

definition forced_language :: "rstring option list \<Rightarrow> 'f chunk_item \<Rightarrow> rstring option" where
  "forced_language forced c = (case get forced (ci_orig_index c) of Some x \<Rightarrow> x | None \<Rightarrow> None)"

text \<open>Preparation and generation of one group of chunks, with what the parser reads.\<close>

definition recognize_group ::
  "('f, 'd) asr_env \<Rightarrow> ('f, 'd) recognizer \<Rightarrow> ('f, 'd) chunk_batch \<Rightarrow> nat list \<Rightarrow>
    ('f prepared_inputs list \<times> (rstring \<times> rstring) list) result" where
  "recognize_group env rg cb idxs =
    rbind (traverse (get_chunk (cb_chunks cb)) idxs) (\<lambda>chunk_batch.
    rbind (traverse (chunk_request (cb_prompts cb)) chunk_batch) (\<lambda>items.
    rbind (prepare_batch_inner env items (\<not> use_varlen_paged_prepare rg (cb_paged cb))) (\<lambda>prepared.
    if length prepared \<noteq> length idxs then Inl (Err ''internal error: prepare_batch size mismatch'')
    else rbind (generate_raw_prepared_batch env rg (cb_paged cb) prepared (to_max_new_tokens (cb_options cb))
             (to_max_batch_size (cb_options cb)) (cb_eos cb)) (\<lambda>raws.
         if length raws \<noteq> length idxs then Inl (Err ''internal error: raw output batch size mismatch'')
         else Inr (prepared, map (\<lambda>(c, raw). parse_asr_output (ae_case env) (Some raw) (forced_language (cb_forced cb) c))
                (zip chunk_batch raws))))))"

definition put_slot_once :: "'a option list \<Rightarrow> nat \<times> 'a \<Rightarrow> 'a option list result" where
  "put_slot_once slots iv =
    (case iv of (i, v) \<Rightarrow>
       rbind (ok_or (get slots i) (Err ''missing output slot'')) (\<lambda>old.
       if old \<noteq> None then Inl (Err ''internal error: duplicate output for chunk'') else Inr (slots[i := Some v])))"

definition bucket_order :: "'f chunk_item list \<Rightarrow> nat list" where
  "bucket_order chunks = sort_key (\<lambda>i. (- int (length (ci_wav (chunks ! i))), i)) [0..<length chunks]"

definition run_asr_on_chunks_batched ::
  "('f, 'd) asr_env \<Rightarrow> ('f, 'd) recognizer \<Rightarrow> ('f, 'd) chunk_batch \<Rightarrow> (rstring list \<times> rstring list) result" where
  "run_asr_on_chunks_batched env rg cb =
    (let chunks = cb_chunks cb; opts = cb_options cb
     in if chunks = [] then Inr ([], [])
        else if length (cb_prompts cb) \<noteq> length (cb_forced cb)
        then Inl (Err ''internal error: prompts/forced_langs_norm length mismatch'')
        else if \<not> to_bucket_by_length opts
        then rbind (group_chunk_indices (env_f32 env) [0..<length chunks] chunks (to_max_batch_size opts) (to_max_batch_audio_sec opts))
               (\<lambda>groups.
             rbind (traverse (recognize_group env rg cb) groups) (\<lambda>results.
             let out = concat (map snd results) in Inr (map fst out, map snd out)))
        else rbind (group_chunk_indices (env_f32 env) (bucket_order chunks) chunks (to_max_batch_size opts) (to_max_batch_audio_sec opts))
               (\<lambda>groups.
             rbind (foldM (\<lambda>slots g. rbind (recognize_group env rg cb g) (\<lambda>(_, out). foldM put_slot_once slots (zip g out)))
                      (replicate (length chunks) None) groups) (\<lambda>slots.
             rbind (traverse (\<lambda>x. ok_or x (Err ''missing chunk language'')) slots) (\<lambda>out.
             Inr (map fst out, map snd out)))))"

section \<open>Transcription\<close>

definition MAX_ASR_INPUT_SECONDS :: "'f f32_ops \<Rightarrow> 'f" where "MAX_ASR_INPUT_SECONDS F = f_lit F 1200 1"

definition chunk_audio ::
  "('f, 'd) asr_env \<Rightarrow> 'f \<Rightarrow> nat \<times> 'f audio_input \<Rightarrow> 'f chunk_item list result" where
  "chunk_audio env chunk_max_sec = (\<lambda>(orig_index, item).
     rbind (normalize_audio_input env item) (\<lambda>wav.
     rbind (split_audio_into_chunks (env_f32 env) wav SAMPLE_RATE_HZ chunk_max_sec) (\<lambda>parts.
     Inr (map (\<lambda>part. \<lparr>ci_orig_index = orig_index, ci_wav = sc_wav part, ci_offset_sec = sc_offset_sec part\<rparr>) parts))))"

definition push_at :: "nat \<Rightarrow> 'a list \<Rightarrow> 'a list list \<Rightarrow> 'a list list result" where
  "push_at i xs buckets = (if i < length buckets then Inr (buckets[i := buckets ! i @ xs]) else Inl (Err ''missing output bucket''))"

definition collect_chunks ::
  "nat \<Rightarrow> 'f chunk_item list \<Rightarrow> 'a list \<Rightarrow> 'a list list result" where
  "collect_chunks n chunks outs = foldM (\<lambda>buckets (c, x). push_at (ci_orig_index c) [x] buckets) (replicate n []) (zip chunks outs)"

definition transcribe ::
  "('f, 'd) asr_env \<Rightarrow> ('f, 'd) recognizer \<Rightarrow> bool \<Rightarrow> 'f audio_input list \<Rightarrow> 'f transcribe_options \<Rightarrow> 'd asr_transcription list result" where
  "transcribe env rg paged audio opts =
    (if to_return_timestamps opts then Inl (Err ''return_timestamps requires forced aligner support'')
     else
      rbind (broadcast (to_context opts) (length audio)) (\<lambda>contexts.
      rbind (broadcast (to_language opts) (length audio)) (\<lambda>forced_langs.
      rbind (traverse (normalize_forced_language env) forced_langs) (\<lambda>forced.
      let F = env_f32 env;
          chunk_max_sec = f_min F (case to_chunk_max_sec opts of Some s \<Rightarrow> s | None \<Rightarrow> MAX_ASR_INPUT_SECONDS F) (MAX_ASR_INPUT_SECONDS F)
      in rbind (build_eos_token_ids env) (\<lambda>eos.
         if audio = [] then Inr []
         else let prompts = map (\<lambda>(ctx, lang). build_prompt ctx lang) (zip contexts forced)
              in rbind (traverse (chunk_audio env chunk_max_sec) (zip [0..<length audio] audio)) (\<lambda>parts.
                 let chunks = concat parts
                 in rbind (run_asr_on_chunks_batched env rg \<lparr>cb_chunks = chunks, cb_prompts = prompts, cb_forced = forced,
                        cb_options = opts, cb_eos = eos, cb_paged = paged\<rparr>) (\<lambda>(langs, texts).
                    if length langs \<noteq> length chunks \<or> length texts \<noteq> length chunks
                    then Inl (Err ''internal error: per_chunk outputs length mismatch'')
                    else rbind (collect_chunks (length audio) chunks langs) (\<lambda>out_langs.
                         rbind (collect_chunks (length audio) chunks texts) (\<lambda>out_texts.
                         Inr (map (\<lambda>(ls, ts). \<lparr>at_language = merge_languages ls, at_text = concat ts, at_timestamps = None\<rparr>)
                                (zip out_langs out_texts)))))))))))"

end
