(* ===== verification/AsrBatching.thy ===== *)
theory AsrBatching
  imports AsrTranscribe "HOL-Library.Multiset"
begin

text \<open>
  Batching is invisible: with a network whose rows do not influence each other, transcription with
  variable-length batches returns for every audio what its chunks give when each is recognised alone.
\<close>

section \<open>Folds and slots\<close>

lemma foldM_concat: "foldM f s (concat xss) = foldM (foldM f) s xss"
proof (induction xss arbitrary: s)
  case (Cons xs xss)
  then show ?case by (cases "foldM f s xs") (simp_all add: foldM_append)
qed simp

lemma foldM_Inr_cong:
  assumes "\<And>s x s'. x \<in> set xs \<Longrightarrow> f s x = Inr s' \<longleftrightarrow> g s x = Inr s'"
  shows "foldM f s xs = Inr r \<longleftrightarrow> foldM g s xs = Inr r"
  using assms by (induction xs arbitrary: s) auto

lemma traverse_Inr_cong:
  assumes "\<And>x y. x \<in> set xs \<Longrightarrow> f x = Inr y \<longleftrightarrow> g x = Inr y"
  shows "traverse f xs = Inr ys \<longleftrightarrow> traverse g xs = Inr ys"
  using assms by (induction xs arbitrary: ys) auto

lemma traverse_append_iff:
  "traverse f (xs @ ys) = Inr zs \<longleftrightarrow> (\<exists>as bs. traverse f xs = Inr as \<and> traverse f ys = Inr bs \<and> zs = as @ bs)"
proof (induction xs arbitrary: zs)
  case (Cons x xs)
  then show ?case by (cases "f x") fastforce+
qed simp

lemma traverse_concat_iff:
  "traverse f (concat xss) = Inr zs \<longleftrightarrow> (\<exists>rs. traverse (traverse f) xss = Inr rs \<and> zs = concat rs)"
proof (induction xss arbitrary: zs)
  case (Cons xs xss)
  show ?case unfolding concat.simps traverse_append_iff Cons by (auto simp: traverse_append_iff)
qed auto

definition fill :: "('i \<Rightarrow> nat \<times> 'a) \<Rightarrow> 'i list \<Rightarrow> 'a option list \<Rightarrow> 'a option list" where
  "fill f is slots = fold (\<lambda>i s. s[fst (f i) := Some (snd (f i))]) is slots"

lemma fill_length [simp]: "length (fill f is s) = length s"
  by (induction "is" arbitrary: s) (simp_all add: fill_def)

lemma fill_out: "k < length s \<Longrightarrow> k \<notin> set is \<Longrightarrow> fill (\<lambda>i. (i, v i)) is s ! k = s ! k"
  by (induction "is" arbitrary: s) (simp_all add: fill_def)

lemma fill_in: "k < length s \<Longrightarrow> k \<in> set is \<Longrightarrow> fill (\<lambda>i. (i, v i)) is s ! k = Some (v k)"
proof (induction "is" arbitrary: s)
  case (Cons i "is")
  have step: "fill (\<lambda>i. (i, v i)) (i # is) s = fill (\<lambda>i. (i, v i)) is (s[i := Some (v i)])" by (simp add: fill_def)
  show ?case
  proof (cases "k \<in> set is")
    case True
    then show ?thesis using Cons.IH[of "s[i := Some (v i)]"] Cons.prems by (simp add: step)
  next
    case False
    then have "k = i" using Cons.prems by simp
    then show ?thesis using Cons.prems False fill_out[of k "s[i := Some (v i)]" "is" v] by (simp add: step)
  qed
qed simp

lemmas fill_nth = fill_out fill_in

lemma scatter:
  assumes "\<And>s i v s'. i \<in> set is \<Longrightarrow> P s i \<Longrightarrow> put s (i, v) = Inr (s[i := Some v])"
    and "\<And>s i is'. J s (i # is') \<Longrightarrow> P s i" "\<And>s i is' v. J s (i # is') \<Longrightarrow> J (s[i := Some v]) is'"
    and "J s is"
  shows "foldM (\<lambda>s i. rbind (R i) (\<lambda>v. put s (i, v))) s is = Inr out \<longleftrightarrow>
    (\<forall>i\<in>set is. is_ok (R i)) \<and> out = fill (\<lambda>i. (i, ok_value (R i))) is s"
  using assms(1,4)
proof (induction "is" arbitrary: s)
  case (Cons i "is")
  have "put s (i, v) = Inr (s[i := Some v])" for v using Cons.prems assms(2) by simp
  moreover have "J (s[i := Some v]) is" for v using Cons.prems(2) assms(3) by blast
  ultimately show ?case using Cons.IH Cons.prems(1) by (cases "R i") (simp_all add: fill_def)
qed (auto simp: fill_def)

lemma collect_filled:
  assumes "set is = {..<n}"
  shows "traverse (\<lambda>x. ok_or x e) (fill (\<lambda>i. (i, v i)) is (replicate n None)) = Inr (map v [0..<n])"
proof -
  have "fill (\<lambda>i. (i, v i)) is (replicate n None) = map (\<lambda>i. Some (v i)) [0..<n]"
    using assms by (intro nth_equalityI) (simp_all add: fill_nth)
  then show ?thesis by (simp add: traverse_map traverse_all_ok)
qed

lemma scatter_collect:
  assumes "set is = {..<n}"
    and "foldM (\<lambda>s i. rbind (R i) (\<lambda>v. put s (i, v))) (replicate n None) is = Inr out \<longleftrightarrow>
      (\<forall>i\<in>set is. is_ok (R i)) \<and> out = fill (\<lambda>i. (i, ok_value (R i))) is (replicate n None)"
  shows "foldM (\<lambda>s i. rbind (R i) (\<lambda>v. put s (i, v))) (replicate n None) is = Inr out \<and>
      traverse (\<lambda>x. ok_or x e) out = Inr ys \<longleftrightarrow>
    traverse R [0..<n] = Inr ys \<and> out = map Some ys"
proof -
  have f: "fill (\<lambda>i. (i, v i)) is (replicate n None) = map (\<lambda>i. Some (v i)) [0..<n]" for v :: "nat \<Rightarrow> 'a"
    using assms(1) by (intro nth_equalityI) (simp_all add: fill_nth)
  show ?thesis unfolding assms(2) traverse_ok_iff[of R] f
    using assms(1) collect_filled[OF assms(1), of e "\<lambda>i. ok_value (R i)"] unfolding f
    by (auto simp: comp_def)
qed

section \<open>Groups\<close>

lemma group_by_len_concat: "concat (group_by_len cap order current mn mx) = current @ order"
proof (induction cap order current mn mx rule: group_by_len.induct)
  case (2 cap idx len order current mn mx)
  then show ?case by (auto simp: Let_def)
qed simp

lemma group_by_len_nonempty: "g \<in> set (group_by_len cap order current mn mx) \<Longrightarrow> g \<noteq> []"
proof (induction order arbitrary: current mn mx)
  case (Cons p order)
  then show ?case by (cases p) (fastforce simp: Let_def split: if_splits)
qed (simp split: if_splits)

lemma count_groups_concat: "1 \<le> cap \<Longrightarrow> concat (count_groups cap xs) = xs \<and> [] \<notin> set (count_groups cap xs)"
proof (induction cap xs rule: count_groups.induct)
  case (2 cap x xs)
  then show ?case by (cases cap) auto
qed simp

lemma group_loop_concat:
  assumes "\<forall>i\<in>set ordered. i < length chunks"
  shows "\<exists>groups. group_loop F chunks cap max_sec ordered current sec = Inr groups \<and> concat groups = current @ ordered \<and> [] \<notin> set groups"
  using assms
proof (induction F chunks cap max_sec ordered current sec rule: group_loop.induct)
  case (2 F chunks cap max_sec idx ordered current sec)
  have "get chunks idx = Some (chunks ! idx)" using 2(4) by simp
  then have g: "ok_or (get chunks idx) (Err ''missing chunk'') = Inr (chunks ! idx)" by simp
  let ?s = "chunk_audio_seconds F (length (ci_wav (chunks ! idx)))"
  let ?flush = "current \<noteq> [] \<and> f_lt F (f_add F max_sec (f_lit F 1 (2 ^ 23))) (f_add F sec ?s) \<or>
    current \<noteq> [] \<and> cap \<le> length current"
  show ?case
  proof (cases "f_lt F max_sec ?s")
    case True
    then show ?thesis using 2(1)[OF g refl] 2(4) g by (fastforce simp: Let_def)
  next
    case False
    show ?thesis
    proof (cases "cap \<le> length ((if ?flush then [] else current) @ [idx])")
      case True
      then show ?thesis using 2(2)[OF g refl False refl refl refl refl refl refl] 2(4) g False by (fastforce simp: Let_def)
    next
      case no: False
      then show ?thesis using 2(3)[OF g refl False refl refl refl refl refl refl] 2(4) g False by (fastforce simp: Let_def)
    qed
  qed
qed simp

lemma group_chunk_indices_concat:
  assumes "\<forall>i\<in>set ordered. i < length chunks"
  shows "\<exists>groups. group_chunk_indices F ordered chunks mb ms = Inr groups \<and> concat groups = ordered \<and> [] \<notin> set groups"
proof (cases "ordered = []")
  case False
  have "1 \<le> effective_max_batch_count mb (length ordered)" by (auto simp: effective_max_batch_count_def)
  note cg = count_groups_concat[OF this, of ordered]
  show ?thesis
  proof (cases "f_le F ms (f_lit F 0 1)")
    case True
    then show ?thesis using False cg by (simp add: group_chunk_indices_def)
  next
    case le: False
    then show ?thesis using False group_loop_concat[OF assms, of F "effective_max_batch_count mb (length ordered)" ms "[]" "f_lit F 0 1"]
      by (simp add: group_chunk_indices_def)
  qed
qed (simp add: group_chunk_indices_def)

section \<open>One group of prompts\<close>

definition rows_independent ::
  "('f, 'd) recognizer \<Rightarrow> (nat list \<Rightarrow> 'f list list \<Rightarrow> nat \<Rightarrow> nat list \<Rightarrow> nat list result) \<Rightarrow> bool" where
  "rows_independent rg gen \<longleftrightarrow> (\<forall>rows tensor lens max_new eos pad out.
     length tensor = length rows \<longrightarrow> length lens = length rows \<longrightarrow>
     (\<forall>(ids, mk)\<in>set rows. length ids = length mk \<and> attention_mask_is_right_padded mk) \<longrightarrow>
     rg_generate rg True rows (tensor, lens) max_new eos pad = Inr out \<longleftrightarrow>
     traverse (\<lambda>((ids, mk), feat, n). gen (take (valid_count mk) ids) (map (take n) feat) max_new eos) (zip rows (zip tensor lens)) = Inr out)"

definition stackable :: "'f prepared_inputs \<Rightarrow> bool" where
  "stackable p \<longleftrightarrow> pi_attention_mask p = replicate (length (pi_input_ids p)) 1 \<and> length (pi_features p) = 128 \<and>
     (\<forall>row\<in>set (pi_features p). valid_count (pi_feature_mask p) \<le> length row)"

definition repadded :: "nat \<Rightarrow> nat \<Rightarrow> 'f prepared_inputs \<Rightarrow> 'f prepared_inputs" where
  "repadded pad_id k p = p\<lparr>pi_input_ids := pi_input_ids p @ replicate k pad_id,
     pi_attention_mask := replicate (length (pi_input_ids p)) 1 @ replicate k 0\<rparr>"

definition alone ::
  "(nat list \<Rightarrow> 'f list list \<Rightarrow> nat \<Rightarrow> nat list \<Rightarrow> nat list result) \<Rightarrow> nat \<Rightarrow> nat list \<Rightarrow> 'f prepared_inputs \<Rightarrow> nat list result" where
  "alone gen max_new eos p = gen (pi_input_ids p) (map (take (valid_count (pi_feature_mask p))) (pi_features p)) max_new eos"

lemma stack_rows:
  assumes "\<forall>row\<in>set rows. length row \<le> M"
  shows "traverse (stack_row F True M) rows = Inr (zero_pad F M rows)"
  unfolding zero_pad_def using assms by (intro traverse_all_ok) (auto simp: stack_row_def not_less)

lemma stack_varlen:
  assumes "ps \<noteq> []" "\<forall>p\<in>set ps. length (pi_features p) = 128"
  defines "M \<equiv> max_or_0 (concat (map (\<lambda>p. map length (pi_features p)) ps))"
  shows "stack_features_inner F ps True =
    Inr (map (\<lambda>p. zero_pad F M (pi_features p)) ps, map (\<lambda>p. valid_count (pi_feature_mask p)) ps)"
proof -
  have "max_or_0 (map (\<lambda>p. length (pi_features p)) ps) = 128"
    using max_or_0_in[of "map (\<lambda>p. length (pi_features p)) ps"] assms(1,2) by auto
  moreover have "traverse (stack_item F True 128 M) ps =
      Inr (map (\<lambda>p. (zero_pad F M (pi_features p), valid_count (pi_feature_mask p))) ps)"
  proof (rule traverse_all_ok)
    fix p assume p: "p \<in> set ps"
    have "length row \<le> M" if "row \<in> set (pi_features p)" for row
      unfolding M_def using that p by (intro max_or_0_ge) auto
    then show "stack_item F True 128 M p = Inr (zero_pad F M (pi_features p), valid_count (pi_feature_mask p))"
      using assms(2) p by (simp add: stack_item_def stack_rows)
  qed
  ultimately show ?thesis using assms(1) by (simp add: stack_features_inner_def M_def[symmetric] comp_def)
qed

lemma take_zero_pad: "\<forall>row\<in>set rows. n \<le> length row \<Longrightarrow> map (take n) (zero_pad F M rows) = map (take n) rows"
  by (simp add: zero_pad_def)

lemma generate_stacked:
  fixes rg :: "('f, 'd) recognizer" and pad_id :: nat and ps :: "(nat \<times> 'f prepared_inputs) list"
  assumes ind: "rows_independent rg gen" and ne: "ps \<noteq> []" and st: "\<forall>(k, p)\<in>set ps. stackable p"
  defines "batch \<equiv> map (\<lambda>(k, p). repadded pad_id k p) ps"
  assumes stacked: "stack_features_inner F batch True = Inr stacked"
  shows "rg_generate rg True (map (\<lambda>p. (pi_input_ids p, pi_attention_mask p)) batch) stacked max_new eos pad = Inr out \<longleftrightarrow>
    traverse (alone gen max_new eos) (map snd ps) = Inr out"
proof -
  define M where "M = max_or_0 (concat (map (\<lambda>p. map length (pi_features p)) batch))"
  have "\<forall>p\<in>set batch. length (pi_features p) = 128" "batch \<noteq> []"
    using st ne by (auto simp: batch_def stackable_def repadded_def split: prod.splits)
  then have eq: "stacked = (map (\<lambda>p. zero_pad F M (pi_features p)) batch, map (\<lambda>p. valid_count (pi_feature_mask p)) batch)"
    using stack_varlen[of batch F] stacked unfolding M_def by simp
  have rows: "\<forall>(ids, mk)\<in>set (map (\<lambda>p. (pi_input_ids p, pi_attention_mask p)) batch). length ids = length mk \<and> attention_mask_is_right_padded mk"
    by (auto simp: batch_def repadded_def right_padded_iff nth_append split: if_splits)
  have "rg_generate rg True (map (\<lambda>p. (pi_input_ids p, pi_attention_mask p)) batch) stacked max_new eos pad = Inr out \<longleftrightarrow>
      traverse (\<lambda>((ids, mk), feat, n). gen (take (valid_count mk) ids) (map (take n) feat) max_new eos)
        (zip (map (\<lambda>p. (pi_input_ids p, pi_attention_mask p)) batch)
          (zip (map (\<lambda>p. zero_pad F M (pi_features p)) batch) (map (\<lambda>p. valid_count (pi_feature_mask p)) batch))) = Inr out"
    unfolding eq using rows by (intro ind[unfolded rows_independent_def, rule_format]) auto
  also have "zip (map (\<lambda>p. (pi_input_ids p, pi_attention_mask p)) batch)
          (zip (map (\<lambda>p. zero_pad F M (pi_features p)) batch) (map (\<lambda>p. valid_count (pi_feature_mask p)) batch)) =
      map (\<lambda>p. ((pi_input_ids p, pi_attention_mask p), zero_pad F M (pi_features p), valid_count (pi_feature_mask p))) batch"
    by (induction batch) simp_all
  also have "traverse (\<lambda>((ids, mk), feat, n). gen (take (valid_count mk) ids) (map (take n) feat) max_new eos)
      (map (\<lambda>p. ((pi_input_ids p, pi_attention_mask p), zero_pad F M (pi_features p), valid_count (pi_feature_mask p))) batch) =
    traverse (\<lambda>kp. alone gen max_new eos (snd kp)) ps"
    unfolding batch_def traverse_map
  proof (rule traverse_cong[OF refl])
    fix kp assume kp: "kp \<in> set ps"
    obtain k p where [simp]: "kp = (k, p)" by (cases kp)
    have p: "stackable p" using st kp by auto
    have "valid_count (pi_attention_mask (repadded pad_id k p)) = length (pi_input_ids p)"
      by (simp add: repadded_def)
    then show "(case ((pi_input_ids (case kp of (k, p) \<Rightarrow> repadded pad_id k p), pi_attention_mask (case kp of (k, p) \<Rightarrow> repadded pad_id k p)),
         zero_pad F M (pi_features (case kp of (k, p) \<Rightarrow> repadded pad_id k p)), valid_count (pi_feature_mask (case kp of (k, p) \<Rightarrow> repadded pad_id k p))) of
        (x, xa) \<Rightarrow> (case x of (ids, mk) \<Rightarrow> \<lambda>(feat, n). gen (take (valid_count mk) ids) (map (take n) feat) max_new eos) xa) =
      alone gen max_new eos (snd kp)"
      using p by (simp add: stackable_def repadded_def alone_def take_zero_pad)
  qed
  finally show ?thesis by (simp add: traverse_map)
qed

lemma generate_then_put:
  "length is = length ps \<Longrightarrow>
   (\<exists>ids. traverse A ps = Inr ids \<and> foldM (\<lambda>s (i, x). rbind (D x) (\<lambda>w. put s (i, w))) s (zip is ids) = Inr out) \<longleftrightarrow>
   foldM (\<lambda>s (i, p). rbind (rbind (A p) D) (\<lambda>w. put s (i, w))) s (zip is ps) = Inr out"
proof (induction "is" ps arbitrary: s rule: list_induct2)
  case (Cons i "is" p ps)
  show ?case
  proof (cases "A p")
    case (Inr x)
    then show ?thesis using Cons.IH by (cases "D x") fastforce+
  qed simp
qed simp

lemma micro_batch:
  fixes rg :: "('f, 'd) recognizer" and pad_id :: nat
  assumes "rows_independent rg gen" "rg_continuous rg" "xs \<noteq> []"
    and "\<forall>(i, k)\<in>set xs. stackable (prepared ! i)"
  shows "generate_micro_batch env rg True max_new eos pad_id out (map (\<lambda>(i, k). (i, repadded pad_id k (prepared ! i))) xs) = Inr out' \<longleftrightarrow>
    foldM (\<lambda>s i. rbind (rbind (alone gen max_new eos (prepared ! i)) (ae_decode env)) (\<lambda>raw. put_slot s (i, raw))) out (map fst xs) = Inr out'"
    (is "?L \<longleftrightarrow> ?R")
proof -
  let ?ps = "map (\<lambda>(i, k). (k, prepared ! i)) xs"
  let ?batch = "map (\<lambda>(k, p). repadded pad_id k p) ?ps"
  let ?put = "\<lambda>s (i, ids). rbind (ae_decode env ids) (\<lambda>raw. put_slot s (i, raw))"
  have b: "map snd (map (\<lambda>(i, k). (i, repadded pad_id k (prepared ! i))) xs) = ?batch"
    "map fst (map (\<lambda>(i, k). (i, repadded pad_id k (prepared ! i))) xs) = map fst xs" by (auto split: prod.splits)
  have st: "\<forall>(k, p)\<in>set ?ps. stackable p" using assms(4) by auto
  have "\<forall>p\<in>set ?batch. length (pi_features p) = 128" using st by (auto simp: stackable_def repadded_def)
  then obtain stacked where stacked: "stack_features_inner (env_f32 env) ?batch True = Inr stacked"
    using stack_varlen[of ?batch "env_f32 env"] assms(3) by auto
  have gen: "rg_generate rg True (map (\<lambda>p. (pi_input_ids p, pi_attention_mask p)) ?batch) stacked max_new eos pad_id = Inr ids \<longleftrightarrow>
      traverse (\<lambda>i. alone gen max_new eos (prepared ! i)) (map fst xs) = Inr ids" for ids
    using generate_stacked[OF assms(1) _ st stacked, of max_new eos pad_id ids] assms(3)
    by (simp add: traverse_map case_prod_beta comp_def)
  have len: "length ids = length ?batch" if "traverse (\<lambda>i. alone gen max_new eos (prepared ! i)) (map fst xs) = Inr ids" for ids
    using traverse_length[OF that] by simp
  have varlen: "use_varlen_paged_prepare rg True" using assms(2) by (simp add: use_varlen_paged_prepare_def)
  have "?L \<longleftrightarrow> (\<exists>ids. traverse (\<lambda>i. alone gen max_new eos (prepared ! i)) (map fst xs) = Inr ids \<and>
      (if length ids \<noteq> length ?batch then Inl (Err ''internal error: generated micro-batch size mismatch'')
       else foldM ?put out (zip (map fst xs) ids)) = Inr out')"
    unfolding generate_micro_batch_def Let_def b by (simp only: varlen stacked rbind.simps rbind_eq_Inr_iff gen)
  also have "\<dots> \<longleftrightarrow> (\<exists>ids. traverse (\<lambda>i. alone gen max_new eos (prepared ! i)) (map fst xs) = Inr ids \<and>
      foldM ?put out (zip (map fst xs) ids) = Inr out')"
    using len by auto
  also have "\<dots> \<longleftrightarrow> foldM (\<lambda>s (i, j). rbind (rbind (alone gen max_new eos (prepared ! j)) (ae_decode env))
      (\<lambda>raw. put_slot s (i, raw))) out (zip (map fst xs) (map fst xs)) = Inr out'"
    by (rule generate_then_put) simp
  also have "foldM (\<lambda>s (i, j). rbind (rbind (alone gen max_new eos (prepared ! j)) (ae_decode env))
      (\<lambda>raw. put_slot s (i, raw))) out (zip js js) =
    foldM (\<lambda>s i. rbind (rbind (alone gen max_new eos (prepared ! i)) (ae_decode env)) (\<lambda>raw. put_slot s (i, raw))) out js" for js
    by (induction js arbitrary: out) simp_all
  finally show ?thesis .
qed

section \<open>Prompts regrouped by length\<close>

definition reorders :: "((nat \<times> nat) list \<Rightarrow> (nat \<times> nat) list) \<Rightarrow> bool" where
  "reorders f \<longleftrightarrow> (\<forall>xs. mset (f xs) = mset xs)"

lemma rebatch_groups:
  assumes "ps \<noteq> []" "\<forall>p\<in>set ps. stackable p" "reorders (rg_sort rg)"
  shows "\<exists>groups. rebatch_prepared_inputs rg ps pad_id cap =
      Inr (map (map (\<lambda>(i, k). (i, repadded pad_id k (ps ! i)))) groups) \<and> [] \<notin> set groups \<and>
    set (map fst (concat groups)) = {..<length ps}"
proof -
  define order where "order = rg_sort rg (zip [0..<length ps] (map input_prompt_len ps))"
  define cap' where "cap' = (if cap = 0 then max (length ps) 1 else cap)"
  define raw where "raw = group_by_len cap' order [] 0 0"
  define groups where "groups = map (\<lambda>g. map (\<lambda>(i, len). (i, max_or_0 (map snd g) - len)) g) raw"
  have len: "input_prompt_len p = length (pi_input_ids p)" if "p \<in> set ps" for p
    using assms(2) that by (simp add: stackable_def input_prompt_len_def valid_count_def)
  have "set order = set (zip [0..<length ps] (map input_prompt_len ps))"
    using assms(3) unfolding reorders_def order_def by (metis set_mset_mset)
  then have order: "set order = (\<lambda>i. (i, length (pi_input_ids (ps ! i)))) ` {..<length ps}"
  proof -
    have "zip [0..<length ps] (map input_prompt_len ps) = map (\<lambda>i. (i, length (pi_input_ids (ps ! i)))) [0..<length ps]"
      by (rule nth_equalityI) (simp_all add: len)
    then show ?thesis using \<open>set order = _\<close> by (simp add: lessThan_atLeast0)
  qed
  have raw: "concat raw = order" "[] \<notin> set raw"
    unfolding raw_def by (auto simp: group_by_len_concat dest: group_by_len_nonempty)
  have "traverse (\<lambda>group. traverse (\<lambda>(idx, len). rbind (index_r ps idx) (\<lambda>src.
      rbind (repad pad_id (max_or_0 (map snd group)) len src) (\<lambda>item. Inr (idx, item)))) group) raw =
    Inr (map (\<lambda>g. map (\<lambda>(i, len). (i, repadded pad_id (max_or_0 (map snd g) - len) (ps ! i))) g) raw)"
  proof (intro traverse_all_ok)
    fix g x assume g: "g \<in> set raw" and x: "x \<in> set g"
    obtain i l where [simp]: "x = (i, l)" by (cases x)
    have "(i, l) \<in> set order" using g x raw(1) by (metis UN_I \<open>x = (i, l)\<close> set_concat)
    then have i: "i < length ps" "l = length (pi_input_ids (ps ! i))" using order by auto
    then have "index_r ps i = Inr (ps ! i)" by (simp add: index_r_ok)
    then show "(case x of (idx, len) \<Rightarrow> rbind (index_r ps idx) (\<lambda>src.
        rbind (repad pad_id (max_or_0 (map snd g)) len src) (\<lambda>item. Inr (idx, item)))) =
      Inr (case x of (i, len) \<Rightarrow> (i, repadded pad_id (max_or_0 (map snd g) - len) (ps ! i)))"
      using i by (simp add: repad_def repadded_def)
  qed
  moreover have "map (\<lambda>g. map (\<lambda>(i, len). (i, repadded pad_id (max_or_0 (map snd g) - len) (ps ! i))) g) raw =
      map (map (\<lambda>(i, k). (i, repadded pad_id k (ps ! i)))) groups"
    by (simp add: groups_def comp_def case_prod_beta)
  ultimately have "rebatch_prepared_inputs rg ps pad_id cap = Inr (map (map (\<lambda>(i, k). (i, repadded pad_id k (ps ! i)))) groups)"
    using assms(1) by (simp add: rebatch_prepared_inputs_def Let_def order_def[symmetric] raw_def[symmetric] cap'_def[symmetric])
  moreover have "[] \<notin> set groups" using raw(2) by (auto simp: groups_def)
  moreover have "set (map fst (concat groups)) = fst ` set (concat raw)" by (force simp: groups_def)
  then have "set (map fst (concat groups)) = {..<length ps}" unfolding raw(1) order by force
  ultimately show ?thesis by blast
qed

lemma put_slot_scatter:
  assumes "\<forall>i\<in>set is. i < n" "length s = n"
  shows "foldM (\<lambda>s i. rbind (R i) (\<lambda>v. put_slot s (i, v))) s is = Inr out \<longleftrightarrow>
    (\<forall>i\<in>set is. is_ok (R i)) \<and> out = fill (\<lambda>i. (i, ok_value (R i))) is s"
  using assms
  by (intro scatter[where P = "\<lambda>s i. i < length s" and J = "\<lambda>s is. \<forall>i\<in>set is. i < length s"]) (auto simp: put_slot_def)

lemma generate_raw_alone:
  fixes rg :: "('f, 'd) recognizer"
  assumes "rows_independent rg gen" "rg_continuous rg" "reorders (rg_sort rg)" "\<forall>p\<in>set ps. stackable p" "ps \<noteq> []"
  shows "generate_raw_prepared_batch env rg True ps max_new max_batch eos = Inr raws \<longleftrightarrow>
    is_ok (ae_token_to_id env (lit ''<|endoftext|>'')) \<and>
    traverse (\<lambda>p. rbind (alone gen (if max_new = 0 then 256 else max_new) eos p) (ae_decode env)) ps = Inr raws"
proof (cases "ae_token_to_id env (lit ''<|endoftext|>'')")
  case (Inr pad_id)
  define mn where "mn = (if max_new = 0 then 256 else max_new)"
  define R where "R = (\<lambda>i. rbind (alone gen mn eos (ps ! i)) (ae_decode env))"
  obtain groups where g: "rebatch_prepared_inputs rg ps pad_id (if max_batch = 0 then max (length ps) 1 else max_batch) =
      Inr (map (map (\<lambda>(i, k). (i, repadded pad_id k (ps ! i)))) groups)" "[] \<notin> set groups"
      "set (map fst (concat groups)) = {..<length ps}"
    using rebatch_groups[OF assms(5,4,3)] by blast
  have micro: "generate_micro_batch env rg True mn eos pad_id s (map (\<lambda>(i, k). (i, repadded pad_id k (ps ! i))) xs) = Inr s' \<longleftrightarrow>
      foldM (\<lambda>s i. rbind (R i) (\<lambda>raw. put_slot s (i, raw))) s (map fst xs) = Inr s'" if "xs \<in> set groups" for xs s s'
    unfolding R_def
  proof (rule micro_batch[OF assms(1,2)])
    show "xs \<noteq> []" using that g(2) by blast
    have "fst ` set xs \<subseteq> {..<length ps}" using that unfolding g(3)[symmetric] by auto
    then show "\<forall>(i, k)\<in>set xs. stackable (ps ! i)" using assms(4) by force
  qed
  have "generate_raw_prepared_batch env rg True ps max_new max_batch eos = Inr raws \<longleftrightarrow>
      (\<exists>out. foldM (generate_micro_batch env rg True mn eos pad_id) (replicate (length ps) None)
        (map (map (\<lambda>(i, k). (i, repadded pad_id k (ps ! i)))) groups) = Inr out \<and>
        traverse (\<lambda>x. ok_or x (Err ''missing generated text'')) out = Inr raws)"
    using assms(5) by (simp only: generate_raw_prepared_batch_def Let_def Inr g(1) rbind.simps rbind_eq_Inr_iff if_False mn_def[symmetric])
  also have "\<dots> \<longleftrightarrow> (\<exists>out. foldM (\<lambda>s i. rbind (R i) (\<lambda>raw. put_slot s (i, raw))) (replicate (length ps) None) (map fst (concat groups)) = Inr out \<and>
        traverse (\<lambda>x. ok_or x (Err ''missing generated text'')) out = Inr raws)"
  proof -
    have "foldM h s (map f xs) = foldM (\<lambda>s x. h s (f x)) s xs" for h :: "'s \<Rightarrow> 'x \<Rightarrow> 's result" and f :: "'y \<Rightarrow> 'x" and s xs
      by (induction xs arbitrary: s) simp_all
    note fm = this
    have "foldM (generate_micro_batch env rg True mn eos pad_id) s (map (map (\<lambda>(i, k). (i, repadded pad_id k (ps ! i)))) groups) = Inr out \<longleftrightarrow>
        foldM (\<lambda>s i. rbind (R i) (\<lambda>raw. put_slot s (i, raw))) s (map fst (concat groups)) = Inr out" for s out
      unfolding map_concat foldM_concat fm by (rule foldM_Inr_cong) (rule micro[unfolded fm])
    then show ?thesis by simp
  qed
  also have "\<dots> \<longleftrightarrow> traverse R [0..<length ps] = Inr raws"
  proof -
    have "\<forall>i\<in>set (map fst (concat groups)). i < length ps" unfolding g(3) by simp
    note sc = scatter_collect[OF g(3) put_slot_scatter[OF this length_replicate]]
    show ?thesis unfolding sc by blast
  qed
  also have "traverse R [0..<length ps] = traverse (\<lambda>p. rbind (alone gen mn eos p) (ae_decode env)) ps"
    unfolding R_def using traverse_map[of "\<lambda>p. rbind (alone gen mn eos p) (ae_decode env)" "(!) ps" "[0..<length ps]"]
    by (simp add: map_nth)
  finally show ?thesis using Inr by (simp add: mn_def)
next
  case (Inl e)
  then show ?thesis using assms(5) by (simp add: generate_raw_prepared_batch_def)
qed

section \<open>One group of chunks\<close>

text \<open>What one chunk gives when it is recognised alone.\<close>

definition recognize_chunk ::
  "('f, 'd) asr_env \<Rightarrow> (nat list \<Rightarrow> 'f list list \<Rightarrow> nat \<Rightarrow> nat list \<Rightarrow> nat list result) \<Rightarrow> nat \<Rightarrow> nat list \<Rightarrow>
    rstring \<Rightarrow> rstring option \<Rightarrow> 'f list \<Rightarrow> (rstring \<times> rstring) result" where
  "recognize_chunk env gen max_new eos prompt forced wav =
    rbind (ae_token_to_id env (lit ''<|endoftext|>'')) (\<lambda>_.
    rbind (prepare_one env prompt (WaveformInput wav SAMPLE_RATE_HZ)) (\<lambda>q.
    rbind (rbind (gen (pi_input_ids q) (pi_features q) (if max_new = 0 then 256 else max_new) eos) (ae_decode env)) (\<lambda>raw.
    Inr (parse_asr_output (ae_case env) (Some raw) forced))))"

lemma prepare_one_stackable:
  assumes "prepare_one env prompt audio = Inr q"
  shows "stackable q" "stackable (pad_prepared F m q)"
    "alone gen mn eos (pad_prepared F m q) = gen (pi_input_ids q) (pi_features q) mn eos"
proof -
  obtain wav where q: "pi_attention_mask q = replicate (length (pi_input_ids q)) 1"
      "pi_features q = ft_rows (offline_features (ae_dsp env) wav)" "pi_feature_mask q = replicate (length wav div 160) 1"
    using assms unfolding prepare_one_value by (auto simp: Let_def offline_rows(3))
  note r = offline_rows[of "ae_dsp env" wav]
  have n: "valid_count (replicate k (Suc 0)) = k" for k by (simp add: valid_count_def)
  show "stackable q" using r by (simp add: stackable_def q n)
  show "stackable (pad_prepared F m q)" using r by (auto simp: stackable_def pad_prepared_def zero_pad_def q)
  have "map (take (length wav div 160)) (zero_pad F m (pi_features q)) = pi_features q"
    using r by (auto simp: q zero_pad_def intro: map_idI)
  then show "alone gen mn eos (pad_prepared F m q) = gen (pi_input_ids q) (pi_features q) mn eos"
    by (simp add: alone_def pad_prepared_def q)
qed

lemma traverse_stages:
  "traverse (\<lambda>x. rbind (A x) (\<lambda>q. rbind (B q) (\<lambda>r. Inr (H x r)))) xs = Inr ys \<longleftrightarrow>
   (\<exists>qs. traverse A xs = Inr qs \<and> (\<exists>rs. traverse B qs = Inr rs \<and> ys = map (\<lambda>(x, r). H x r) (zip xs rs)))"
proof (induction xs arbitrary: ys)
  case (Cons x xs)
  show ?case
  proof (cases "A x")
    case (Inr q)
    then show ?thesis using Cons by (cases "B q") fastforce+
  qed simp
qed auto

definition chunk_result ::
  "('f, 'd) asr_env \<Rightarrow> (nat list \<Rightarrow> 'f list list \<Rightarrow> nat \<Rightarrow> nat list \<Rightarrow> nat list result) \<Rightarrow> ('f, 'd) chunk_batch \<Rightarrow> 'f chunk_item \<Rightarrow>
    (rstring \<times> rstring) result" where
  "chunk_result env gen cb c = recognize_chunk env gen (to_max_new_tokens (cb_options cb)) (cb_eos cb)
     (cb_prompts cb ! ci_orig_index c) (cb_forced cb ! ci_orig_index c) (ci_wav c)"

definition valid_chunks :: "('f, 'd) chunk_batch \<Rightarrow> bool" where
  "valid_chunks cb \<longleftrightarrow> length (cb_forced cb) = length (cb_prompts cb) \<and>
     (\<forall>c\<in>set (cb_chunks cb). ci_orig_index c < length (cb_prompts cb))"

lemma recognize_group_alone:
  fixes rg :: "('f, 'd) recognizer"
  assumes net: "rows_independent rg gen" "rg_continuous rg" "reorders (rg_sort rg)"
    and cb: "cb_paged cb" "valid_chunks cb" and idxs: "idxs \<noteq> []" "\<forall>i\<in>set idxs. i < length (cb_chunks cb)"
  shows "(\<exists>ps. recognize_group env rg cb idxs = Inr (ps, outs)) \<longleftrightarrow>
    traverse (\<lambda>i. chunk_result env gen cb (cb_chunks cb ! i)) idxs = Inr outs"
proof -
  define cs where "cs = map ((!) (cb_chunks cb)) idxs"
  define items where "items = map (\<lambda>c. (cb_prompts cb ! ci_orig_index c, WaveformInput (ci_wav c) SAMPLE_RATE_HZ)) cs"
  define mn where "mn = (if to_max_new_tokens (cb_options cb) = 0 then 256 else to_max_new_tokens (cb_options cb))"
  let ?F = "env_f32 env" and ?tok = "is_ok (ae_token_to_id env (lit ''<|endoftext|>''))"
  let ?parse = "\<lambda>c raw. parse_asr_output (ae_case env) (Some raw) (cb_forced cb ! ci_orig_index c)"
  let ?B = "\<lambda>q. rbind (gen (pi_input_ids q) (pi_features q) mn (cb_eos cb)) (ae_decode env)"
  have orig: "ci_orig_index c < length (cb_prompts cb)" "ci_orig_index c < length (cb_forced cb)" if "c \<in> set cs" for c
    using that cb(2) idxs(2) by (auto simp: cs_def valid_chunks_def)
  have chunks: "traverse (get_chunk (cb_chunks cb)) idxs = Inr cs"
    unfolding cs_def using idxs(2) by (intro traverse_all_ok) (simp add: get_chunk_def)
  have req: "traverse (chunk_request (cb_prompts cb)) cs = Inr items"
    unfolding items_def using orig(1) by (intro traverse_all_ok) (simp add: chunk_request_def)
  have ne: "items \<noteq> []" using idxs(1) by (simp add: items_def cs_def)
  have forced: "map (\<lambda>(c, raw). parse_asr_output (ae_case env) (Some raw) (forced_language (cb_forced cb) c)) (zip cs raws) =
      map (\<lambda>(c, raw). ?parse c raw) (zip cs raws)" for raws
  proof -
    have "forced_language (cb_forced cb) c = cb_forced cb ! ci_orig_index c" if "(c, raw) \<in> set (zip cs raws)" for c raw
      using orig(2)[OF set_zip_leftD[OF that]] by (simp add: forced_language_def get_def)
    then show ?thesis by (auto intro!: map_cong)
  qed
  have gen: "generate_raw_prepared_batch env rg True (map (pad_prepared ?F (widest qs)) qs) (to_max_new_tokens (cb_options cb)) mb (cb_eos cb) = Inr raws \<longleftrightarrow>
      ?tok \<and> traverse ?B qs = Inr raws"
    if q: "traverse (\<lambda>(prompt, audio). prepare_one env prompt audio) items = Inr qs" for qs raws mb
  proof -
    have each: "\<exists>prompt audio. prepare_one env prompt audio = Inr q" if "q \<in> set qs" for q
      using q that unfolding traverse_ok_iff by (fastforce simp: is_ok_iff ok_value_def)
    have same: "alone gen mn eos (pad_prepared ?F m x) = gen (pi_input_ids x) (pi_features x) mn eos" if x: "x \<in> set qs" for x m eos
    proof -
      obtain prompt audio where "prepare_one env prompt audio = Inr x" using each[OF x] by blast
      then show ?thesis by (rule prepare_one_stackable(3))
    qed
    have "qs \<noteq> []" using traverse_length[OF q] ne by auto
    moreover have "traverse (\<lambda>p. rbind (alone gen mn (cb_eos cb) p) (ae_decode env)) (map (pad_prepared ?F (widest qs)) qs) = traverse ?B qs"
      unfolding traverse_map by (intro traverse_cong[OF refl]) (simp add: same)
    moreover have "\<forall>p\<in>set (map (pad_prepared ?F (widest qs)) qs). stackable p"
      using each prepare_one_stackable(2) by fastforce
    ultimately show ?thesis using generate_raw_alone[OF net, of "map (pad_prepared ?F (widest qs)) qs"] unfolding mn_def by auto
  qed
  have "(\<exists>ps. recognize_group env rg cb idxs = Inr (ps, outs)) \<longleftrightarrow>
      ?tok \<and> (\<exists>qs. traverse (\<lambda>(prompt, audio). prepare_one env prompt audio) items = Inr qs \<and>
        (\<exists>raws. traverse ?B qs = Inr raws \<and> outs = map (\<lambda>(c, raw). ?parse c raw) (zip cs raws)))" (is "?L \<longleftrightarrow> ?R")
  proof
    assume ?L
    then obtain ps raws where "prepare_batch_inner env items False = Inr ps"
      and r: "generate_raw_prepared_batch env rg True ps (to_max_new_tokens (cb_options cb)) (to_max_batch_size (cb_options cb)) (cb_eos cb) = Inr raws"
        "outs = map (\<lambda>(c, raw). ?parse c raw) (zip cs raws)"
      using cb(1) net(2) unfolding recognize_group_def chunks rbind.simps req
      by (auto simp: use_varlen_paged_prepare_def forced split: if_splits)
    then show ?R unfolding prepare_varlen_iff[OF ne] using gen by blast
  next
    assume ?R
    then obtain qs raws where q: "traverse (\<lambda>(prompt, audio). prepare_one env prompt audio) items = Inr qs" "?tok"
      "traverse ?B qs = Inr raws" "outs = map (\<lambda>(c, raw). ?parse c raw) (zip cs raws)" by blast
    then have "prepare_batch_inner env items False = Inr (map (pad_prepared ?F (widest qs)) qs)"
      unfolding prepare_varlen_iff[OF ne] by blast
    moreover have "length qs = length idxs" "length raws = length idxs"
      using traverse_length[OF q(1)] traverse_length[OF q(3)] by (simp_all add: items_def cs_def)
    ultimately show ?L using cb(1) net(2) q(2-4) gen[OF q(1)] unfolding recognize_group_def chunks rbind.simps req
      by (simp add: use_varlen_paged_prepare_def forced)
  qed
  also have "\<dots> \<longleftrightarrow> ?tok \<and> traverse (\<lambda>c. rbind (prepare_one env (cb_prompts cb ! ci_orig_index c) (WaveformInput (ci_wav c) SAMPLE_RATE_HZ))
      (\<lambda>q. rbind (?B q) (\<lambda>raw. Inr (?parse c raw)))) cs = Inr outs"
    unfolding traverse_stages items_def traverse_map by simp
  also have "\<dots> \<longleftrightarrow> traverse (chunk_result env gen cb) cs = Inr outs"
  proof (cases "ae_token_to_id env (lit ''<|endoftext|>'')")
    case (Inl e)
    then show ?thesis using idxs(1) by (cases cs) (auto simp: cs_def chunk_result_def recognize_chunk_def)
  next
    case (Inr t)
    then have "chunk_result env gen cb = (\<lambda>c. rbind (prepare_one env (cb_prompts cb ! ci_orig_index c) (WaveformInput (ci_wav c) SAMPLE_RATE_HZ))
      (\<lambda>q. rbind (?B q) (\<lambda>raw. Inr (?parse c raw))))"
      by (intro ext) (simp add: chunk_result_def recognize_chunk_def mn_def)
    then show ?thesis using Inr by simp
  qed
  finally show ?thesis by (simp add: cs_def traverse_map)
qed

section \<open>All chunks\<close>

lemma put_slot_once_scatter:
  assumes "\<forall>i\<in>set is. i < length s \<and> s ! i = None" "distinct is"
  shows "foldM (\<lambda>s i. rbind (R i) (\<lambda>v. put_slot_once s (i, v))) s is = Inr out \<longleftrightarrow>
    (\<forall>i\<in>set is. is_ok (R i)) \<and> out = fill (\<lambda>i. (i, ok_value (R i))) is s"
  using assms
  by (intro scatter[where P = "\<lambda>s i. i < length s \<and> s ! i = None"
        and J = "\<lambda>s is. distinct is \<and> (\<forall>i\<in>set is. i < length s \<and> s ! i = None)"]) (auto simp: put_slot_once_def nth_list_update)

lemma group_then_put:
  "(\<exists>vs. traverse R is = Inr vs \<and> foldM put s (zip is vs) = Inr out) \<longleftrightarrow>
   foldM (\<lambda>s i. rbind (R i) (\<lambda>v. put s (i, v))) s is = Inr out"
proof (induction "is" arbitrary: s)
  case (Cons i "is")
  show ?case
  proof (cases "R i")
    case (Inr v)
    then show ?thesis using Cons.IH by (cases "put s (i, v)") fastforce+
  qed simp
qed simp

lemma traverse_snd:
  assumes "\<And>x y. x \<in> set xs \<Longrightarrow> (\<exists>p. G x = Inr (p, y)) \<longleftrightarrow> f x = Inr y"
  shows "(\<exists>rs. traverse G xs = Inr rs \<and> map snd rs = ys) \<longleftrightarrow> traverse f xs = Inr ys"
  using assms
proof (induction xs arbitrary: ys)
  case (Cons x xs)
  have x: "(\<exists>p. G x = Inr (p, y)) \<longleftrightarrow> f x = Inr y" for y using Cons.prems by simp
  have IH: "(\<exists>rs. traverse G xs = Inr rs \<and> map snd rs = ys) \<longleftrightarrow> traverse f xs = Inr ys" for ys using Cons by simp
  show ?case
  proof (cases "G x")
    case (Inl e)
    then show ?thesis using x by (cases "f x") auto
  next
    case (Inr py)
    then have "f x = Inr (snd py)" using x by (metis prod.collapse)
    then show ?thesis using Inr IH[symmetric] by (cases py) auto
  qed
qed auto

lemma bucket_order_perm: "set (bucket_order chunks) = {..<length chunks}" "distinct (bucket_order chunks)"
  by (auto simp: bucket_order_def)

lemma run_asr_alone:
  fixes rg :: "('f, 'd) recognizer"
  assumes net: "rows_independent rg gen" "rg_continuous rg" "reorders (rg_sort rg)"
    and cb: "cb_paged cb" "valid_chunks cb"
  shows "run_asr_on_chunks_batched env rg cb = Inr (langs, texts) \<longleftrightarrow>
    (\<exists>outs. traverse (chunk_result env gen cb) (cb_chunks cb) = Inr outs \<and> langs = map fst outs \<and> texts = map snd outs)"
proof (cases "cb_chunks cb = []")
  case False
  let ?n = "length (cb_chunks cb)"
  let ?R = "\<lambda>i. chunk_result env gen cb (cb_chunks cb ! i)"
  have whole: "traverse (chunk_result env gen cb) (cb_chunks cb) = traverse ?R [0..<?n]"
    using traverse_map[of "chunk_result env gen cb" "(!) (cb_chunks cb)" "[0..<?n]"] by (simp add: map_nth)
  have group: "(\<exists>ps. recognize_group env rg cb g = Inr (ps, outs)) \<longleftrightarrow> traverse ?R g = Inr outs"
    if "g \<in> set groups" "[] \<notin> set groups" "set (concat groups) \<subseteq> {..<?n}" for g groups outs
    using that by (intro recognize_group_alone[OF net cb]) auto
  show ?thesis
  proof (cases "to_bucket_by_length (cb_options cb)")
    case False
    obtain groups where g: "group_chunk_indices (env_f32 env) [0..<?n] (cb_chunks cb) (to_max_batch_size (cb_options cb))
        (to_max_batch_audio_sec (cb_options cb)) = Inr groups" "concat groups = [0..<?n]" "[] \<notin> set groups"
      using group_chunk_indices_concat[of "[0..<?n]" "cb_chunks cb" "env_f32 env"] by fastforce
    have gs: "(\<exists>rs. traverse (recognize_group env rg cb) groups = Inr rs \<and> map snd rs = os) \<longleftrightarrow> traverse (traverse ?R) groups = Inr os" for os
    proof -
      have "set (concat groups) \<subseteq> {..<?n}" using g(2) by auto
      note grp = group[OF _ g(3) this]
      show ?thesis by (rule traverse_snd) (rule grp)
    qed
    have "run_asr_on_chunks_batched env rg cb = Inr (langs, texts) \<longleftrightarrow>
        (\<exists>os. (\<exists>rs. traverse (recognize_group env rg cb) groups = Inr rs \<and> map snd rs = os) \<and>
          langs = map fst (concat os) \<and> texts = map snd (concat os))"
      using \<open>cb_chunks cb \<noteq> []\<close> False cb(2) g(1) by (auto simp: run_asr_on_chunks_batched_def Let_def valid_chunks_def)
    also have "\<dots> \<longleftrightarrow> (\<exists>outs. traverse ?R (concat groups) = Inr outs \<and> langs = map fst outs \<and> texts = map snd outs)"
      unfolding gs traverse_concat_iff by blast
    finally show ?thesis unfolding g(2) whole .
  next
    case True
    let ?order = "bucket_order (cb_chunks cb)"
    obtain groups where g: "group_chunk_indices (env_f32 env) ?order (cb_chunks cb) (to_max_batch_size (cb_options cb))
        (to_max_batch_audio_sec (cb_options cb)) = Inr groups" "concat groups = ?order" "[] \<notin> set groups"
      using group_chunk_indices_concat[of ?order "cb_chunks cb" "env_f32 env"] bucket_order_perm(1)[of "cb_chunks cb"] by fastforce
    have "set (concat groups) \<subseteq> {..<?n}" using g(2) bucket_order_perm(1)[of "cb_chunks cb"] by simp
    note grp = group[OF _ g(3) this]
    let ?step = "\<lambda>slots g. rbind (recognize_group env rg cb g) (\<lambda>(_, out). foldM put_slot_once slots (zip g out))"
    have "?step slots x = Inr s' \<longleftrightarrow> foldM (\<lambda>s i. rbind (?R i) (\<lambda>v. put_slot_once s (i, v))) slots x = Inr s'"
      if "x \<in> set groups" for slots x s'
    proof -
      have "?step slots x = Inr s' \<longleftrightarrow> (\<exists>vs. (\<exists>p. recognize_group env rg cb x = Inr (p, vs)) \<and> foldM put_slot_once slots (zip x vs) = Inr s')"
        by (cases "recognize_group env rg cb x") auto
      also have "\<dots> \<longleftrightarrow> (\<exists>vs. traverse ?R x = Inr vs \<and> foldM put_slot_once slots (zip x vs) = Inr s')"
        by (simp only: grp[OF that])
      finally show ?thesis unfolding group_then_put .
    qed
    then have "foldM ?step s groups = Inr out \<longleftrightarrow> foldM (foldM (\<lambda>s i. rbind (?R i) (\<lambda>v. put_slot_once s (i, v)))) s groups = Inr out" for s out
      by (rule foldM_Inr_cong)
    then have fold: "foldM ?step s groups = Inr out \<longleftrightarrow> foldM (\<lambda>s i. rbind (?R i) (\<lambda>v. put_slot_once s (i, v))) s ?order = Inr out" for s out
      unfolding foldM_concat[symmetric] g(2) .
    have none: "\<forall>i\<in>set ?order. i < length (replicate ?n None) \<and> replicate ?n None ! i = None"
      using bucket_order_perm(1)[of "cb_chunks cb"] by simp
    note sc = scatter_collect[OF bucket_order_perm(1) put_slot_once_scatter[OF none bucket_order_perm(2)]]
    have "run_asr_on_chunks_batched env rg cb = Inr (langs, texts) \<longleftrightarrow>
        (\<exists>slots outs. (foldM (\<lambda>s i. rbind (?R i) (\<lambda>v. put_slot_once s (i, v))) (replicate ?n None) ?order = Inr slots \<and>
          traverse (\<lambda>x. ok_or x (Err ''missing chunk language'')) slots = Inr outs) \<and> langs = map fst outs \<and> texts = map snd outs)"
      using \<open>cb_chunks cb \<noteq> []\<close> True cb(2) g(1) unfolding fold[symmetric]
      by (auto simp: run_asr_on_chunks_batched_def Let_def valid_chunks_def)
    then show ?thesis unfolding sc whole by blast
  qed
qed (auto simp: run_asr_on_chunks_batched_def)

section \<open>Transcription\<close>

lemma push_part:
  "length cs = length ys \<Longrightarrow> \<forall>c\<in>set cs. ci_orig_index c = j \<Longrightarrow> j < length b \<Longrightarrow>
    foldM (\<lambda>b (c, x). push_at (ci_orig_index c) [x] b) b (zip cs ys) = Inr (b[j := b ! j @ ys])"
proof (induction cs ys arbitrary: b rule: list_induct2)
  case (Cons c cs y ys)
  then show ?case by (simp add: push_at_def)
qed simp

lemma push_parts:
  assumes "list_all2 (\<lambda>cs ys. length cs = length ys) parts yss" "\<forall>j<length parts. \<forall>c\<in>set (parts ! j). ci_orig_index c = length pre + j"
  shows "foldM (\<lambda>b (c, x). push_at (ci_orig_index c) [x] b) (pre @ replicate (length parts) []) (zip (concat parts) (concat yss)) =
    Inr (pre @ yss)"
  using assms
proof (induction parts yss arbitrary: pre rule: list_all2_induct)
  case (Cons cs parts ys yss)
  have c: "\<forall>c\<in>set cs. ci_orig_index c = length pre" using Cons(4) by force
  have rest: "\<forall>j<length parts. \<forall>c\<in>set (parts ! j). ci_orig_index c = length (pre @ [ys]) + j"
    using Cons(4) by force
  have "foldM (\<lambda>b (c, x). push_at (ci_orig_index c) [x] b) (pre @ replicate (length (cs # parts)) []) (zip cs ys) =
      Inr ((pre @ [ys]) @ replicate (length parts) [])"
    using push_part[OF Cons(1) c, of "pre @ replicate (length (cs # parts)) []"] by simp
  then show ?case using Cons(3)[OF rest] Cons(1) by (simp add: foldM_append)
qed simp

lemma collect_parts:
  assumes "list_all2 (\<lambda>cs ys. length cs = length ys) parts yss" "\<forall>j<length parts. \<forall>c\<in>set (parts ! j). ci_orig_index c = j"
  shows "collect_chunks (length parts) (concat parts) (concat yss) = Inr yss"
  using push_parts[OF assms(1), of "[]"] assms(2) by (simp add: collect_chunks_def)

text \<open>The specification: every audio on its own, every chunk on its own.\<close>

definition merge_chunks :: "(rstring \<times> rstring) list \<Rightarrow> 'd asr_transcription" where
  "merge_chunks outs = \<lparr>at_language = merge_languages (map fst outs), at_text = concat (map snd outs), at_timestamps = None\<rparr>"

definition transcribe_alone ::
  "('f, 'd) asr_env \<Rightarrow> (nat list \<Rightarrow> 'f list list \<Rightarrow> nat \<Rightarrow> nat list \<Rightarrow> nat list result) \<Rightarrow> 'f audio_input list \<Rightarrow>
    'f transcribe_options \<Rightarrow> 'd asr_transcription list result" where
  "transcribe_alone env gen audio opts =
    (if to_return_timestamps opts then Inl (Err ''return_timestamps requires forced aligner support'')
     else
      rbind (broadcast (to_context opts) (length audio)) (\<lambda>contexts.
      rbind (broadcast (to_language opts) (length audio)) (\<lambda>forced_langs.
      rbind (traverse (normalize_forced_language env) forced_langs) (\<lambda>forced.
      let F = env_f32 env;
          chunk_max_sec = f_min F (case to_chunk_max_sec opts of Some s \<Rightarrow> s | None \<Rightarrow> MAX_ASR_INPUT_SECONDS F) (MAX_ASR_INPUT_SECONDS F)
      in rbind (build_eos_token_ids env) (\<lambda>eos.
         traverse (\<lambda>(i, item). rbind (chunk_audio env chunk_max_sec (i, item)) (\<lambda>chunks.
           rbind (traverse (\<lambda>c. recognize_chunk env gen (to_max_new_tokens opts) eos (build_prompt (contexts ! i) (forced ! i))
                    (forced ! i) (ci_wav c)) chunks) (\<lambda>outs. Inr (merge_chunks outs))))
           (zip [0..<length audio] audio))))))"

lemma broadcast_length: "broadcast b n = Inr xs \<Longrightarrow> length xs = n"
  by (auto simp: broadcast_def split: if_splits batch.splits)

lemma chunk_audio_orig: "chunk_audio env cm (i, item) = Inr cs \<Longrightarrow> \<forall>c\<in>set cs. ci_orig_index c = i"
  by (auto simp: chunk_audio_def)

lemma rbind_Inr_cong:
  assumes "\<And>x. m = Inr x \<Longrightarrow> f x = Inr r \<longleftrightarrow> g x = Inr r"
  shows "rbind m f = Inr r \<longleftrightarrow> rbind m g = Inr r"
  using assms by (cases m) simp_all

lemma transcribe_chunks:
  fixes rg :: "('f, 'd) recognizer"
  assumes net: "rows_independent rg gen" "rg_continuous rg" "reorders (rg_sort rg)"
    and len: "length contexts = length audio" "length forced = length audio" and ne: "audio \<noteq> []"
  defines "prompts \<equiv> map (\<lambda>(ctx, lang). build_prompt ctx lang) (zip contexts forced)"
  shows "rbind (traverse (chunk_audio env cm) (zip [0..<length audio] audio)) (\<lambda>parts.
      rbind (run_asr_on_chunks_batched env rg \<lparr>cb_chunks = concat parts, cb_prompts = prompts, cb_forced = forced,
             cb_options = opts, cb_eos = eos, cb_paged = True\<rparr>) (\<lambda>(langs, texts).
         if length langs \<noteq> length (concat parts) \<or> length texts \<noteq> length (concat parts)
         then Inl (Err ''internal error: per_chunk outputs length mismatch'')
         else rbind (collect_chunks (length audio) (concat parts) langs) (\<lambda>out_langs.
              rbind (collect_chunks (length audio) (concat parts) texts) (\<lambda>out_texts.
              Inr (map (\<lambda>(ls, ts). \<lparr>at_language = merge_languages ls, at_text = concat ts, at_timestamps = None\<rparr>)
                     (zip out_langs out_texts)))))) = Inr (r :: 'd asr_transcription list) \<longleftrightarrow>
    traverse (\<lambda>(i, item). rbind (chunk_audio env cm (i, item)) (\<lambda>chunks.
      rbind (traverse (\<lambda>c. recognize_chunk env gen (to_max_new_tokens opts) eos (build_prompt (contexts ! i) (forced ! i))
               (forced ! i) (ci_wav c)) chunks) (\<lambda>outs. Inr (merge_chunks outs))))
      (zip [0..<length audio] audio) = Inr r" (is "rbind ?parts ?run = Inr r \<longleftrightarrow> ?alone = Inr r")
proof -
  define cb where "cb = (\<lambda>chunks. \<lparr>cb_chunks = chunks, cb_prompts = prompts, cb_forced = forced, cb_options = opts, cb_eos = eos,
     cb_paged = True\<rparr> :: ('f, 'd) chunk_batch)"
  have res: "chunk_result env gen (cb chunks) c = chunk_result env gen (cb []) c" for chunks c
    by (simp add: cb_def chunk_result_def)
  have plen: "length prompts = length audio" using len by (simp add: prompts_def)
  have run: "?run parts = Inr r \<longleftrightarrow> (\<exists>oss. traverse (traverse (chunk_result env gen (cb []))) parts = Inr oss \<and> r = map merge_chunks oss)"
    if p: "?parts = Inr parts" for parts
  proof -
    have len': "length parts = length audio" using traverse_length[OF p] by simp
    have orig: "\<forall>j<length parts. \<forall>c\<in>set (parts ! j). ci_orig_index c = j"
    proof (intro allI impI)
      fix j assume j: "j < length parts"
      then have "chunk_audio env cm (j, audio ! j) = Inr (parts ! j)" using traverse_nth[OF p, of j] len' by simp
      then show "\<forall>c\<in>set (parts ! j). ci_orig_index c = j" by (rule chunk_audio_orig)
    qed
    then have valid: "valid_chunks (cb (concat parts))"
      using len plen len' by (auto simp: valid_chunks_def cb_def in_set_conv_nth[of _ parts])
    have asr: "run_asr_on_chunks_batched env rg (cb (concat parts)) = Inr (langs, texts) \<longleftrightarrow>
        (\<exists>oss. traverse (traverse (chunk_result env gen (cb []))) parts = Inr oss \<and> langs = map fst (concat oss) \<and> texts = map snd (concat oss))"
      for langs texts
    proof -
      have same: "chunk_result env gen (cb (concat parts)) = chunk_result env gen (cb [])" by (rule ext) (rule res)
      have "cb_paged (cb (concat parts))" "cb_chunks (cb (concat parts)) = concat parts" by (simp_all add: cb_def)
      then have "run_asr_on_chunks_batched env rg (cb (concat parts)) = Inr (langs, texts) \<longleftrightarrow>
        (\<exists>outs. traverse (chunk_result env gen (cb [])) (concat parts) = Inr outs \<and> langs = map fst outs \<and> texts = map snd outs)"
        using run_asr_alone[OF net _ valid, of env langs texts] unfolding same by simp
      then show ?thesis unfolding traverse_concat_iff by blast
    qed
    have collect: "collect_chunks (length audio) (concat parts) (map f (concat oss)) = Inr (map (map f) oss)"
      "length (concat oss) = length (concat parts)"
      if t: "traverse (traverse (chunk_result env gen (cb []))) parts = Inr oss" for oss and f :: "rstring \<times> rstring \<Rightarrow> rstring"
    proof -
      have "list_all2 (\<lambda>cs os. traverse (chunk_result env gen (cb [])) cs = Inr os) parts oss" using t unfolding traverse_Inr_iff[of _ parts] .
      then have a: "list_all2 (\<lambda>cs os. length cs = length os) parts oss"
        by (rule list_all2_mono) (auto dest: traverse_length)
      then have "list_all2 (\<lambda>cs os. length cs = length os) parts (map (map f) oss)" by (simp add: list_all2_conv_all_nth)
      then show "collect_chunks (length audio) (concat parts) (map f (concat oss)) = Inr (map (map f) oss)"
        using collect_parts[OF _ orig] len' by (simp add: map_concat)
      show "length (concat oss) = length (concat parts)"
        using a by (induction rule: list_all2_induct) simp_all
    qed
    have merge: "map (\<lambda>(ls, ts). \<lparr>at_language = merge_languages ls, at_text = concat ts, at_timestamps = None\<rparr>)
        (zip (map (map fst) oss) (map (map snd) oss)) = map merge_chunks oss" for oss
      by (induction oss) (simp_all add: merge_chunks_def)
    have cbp: "\<lparr>cb_chunks = concat parts, cb_prompts = prompts, cb_forced = forced, cb_options = opts, cb_eos = eos, cb_paged = True\<rparr> =
        cb (concat parts)" by (simp add: cb_def)
    have "?run parts = Inr r \<longleftrightarrow> (\<exists>langs texts. run_asr_on_chunks_batched env rg (cb (concat parts)) = Inr (langs, texts) \<and>
        length langs = length (concat parts) \<and> length texts = length (concat parts) \<and>
        (\<exists>ls ts. collect_chunks (length audio) (concat parts) langs = Inr ls \<and> collect_chunks (length audio) (concat parts) texts = Inr ts \<and>
          r = map (\<lambda>(ls, ts). \<lparr>at_language = merge_languages ls, at_text = concat ts, at_timestamps = None\<rparr>) (zip ls ts)))"
      unfolding cbp rbind_eq_Inr_iff by (auto split: if_splits)
    also have "\<dots> \<longleftrightarrow> (\<exists>oss. traverse (traverse (chunk_result env gen (cb []))) parts = Inr oss \<and> r = map merge_chunks oss)"
      unfolding asr
    proof (intro iffI; elim exE conjE)
      fix langs texts oss ls ts
      assume oss: "traverse (traverse (chunk_result env gen (cb []))) parts = Inr oss" "langs = map fst (concat oss)" "texts = map snd (concat oss)"
        and c: "collect_chunks (length audio) (concat parts) langs = Inr ls" "collect_chunks (length audio) (concat parts) texts = Inr ts"
        and r: "r = map (\<lambda>(ls, ts). \<lparr>at_language = merge_languages ls, at_text = concat ts, at_timestamps = None\<rparr>) (zip ls ts)"
      have "ls = map (map fst) oss" "ts = map (map snd) oss" using c collect(1)[OF oss(1)] unfolding oss(2,3) by simp_all
      then show "\<exists>oss. traverse (traverse (chunk_result env gen (cb []))) parts = Inr oss \<and> r = map merge_chunks oss"
        using oss(1) unfolding r by (auto simp: merge)
    next
      fix oss assume oss: "traverse (traverse (chunk_result env gen (cb []))) parts = Inr oss" "r = map merge_chunks oss"
      have "\<exists>ls ts. collect_chunks (length audio) (concat parts) (map fst (concat oss)) = Inr ls \<and>
          collect_chunks (length audio) (concat parts) (map snd (concat oss)) = Inr ts \<and>
          r = map (\<lambda>(ls, ts). \<lparr>at_language = merge_languages ls, at_text = concat ts, at_timestamps = None\<rparr>) (zip ls ts)"
        by (simp add: oss(2) collect(1)[OF oss(1)] merge)
      moreover have "length (map f (concat oss)) = length (concat parts)" for f :: "rstring \<times> rstring \<Rightarrow> rstring"
        using collect(2)[OF oss(1)] by simp
      ultimately show "\<exists>langs texts. (\<exists>oss. traverse (traverse (chunk_result env gen (cb []))) parts = Inr oss \<and> langs = map fst (concat oss) \<and>
          texts = map snd (concat oss)) \<and> length langs = length (concat parts) \<and> length texts = length (concat parts) \<and>
        (\<exists>ls ts. collect_chunks (length audio) (concat parts) langs = Inr ls \<and> collect_chunks (length audio) (concat parts) texts = Inr ts \<and>
          r = map (\<lambda>(ls, ts). \<lparr>at_language = merge_languages ls, at_text = concat ts, at_timestamps = None\<rparr>) (zip ls ts))"
        using oss(1) by blast
    qed
    finally show ?thesis .
  qed
  have alone: "?alone = traverse (\<lambda>x. rbind (chunk_audio env cm x) (\<lambda>q. rbind (traverse (chunk_result env gen (cb [])) q)
      (\<lambda>outs. Inr (merge_chunks outs)))) (zip [0..<length audio] audio)"
  proof (rule traverse_cong[OF refl])
    fix x assume x: "x \<in> set (zip [0..<length audio] audio)"
    obtain i item where [simp]: "x = (i, item)" by (cases x)
    have i: "i < length audio" using x by (auto dest: set_zip_leftD)
    have "traverse (\<lambda>c. recognize_chunk env gen (to_max_new_tokens opts) eos (build_prompt (contexts ! i) (forced ! i)) (forced ! i) (ci_wav c)) cs =
        traverse (chunk_result env gen (cb [])) cs" if "chunk_audio env cm (i, item) = Inr cs" for cs
      using chunk_audio_orig[OF that] i len
      by (intro traverse_cong[OF refl]) (simp add: chunk_result_def cb_def prompts_def)
    then show "(case x of (i, item) \<Rightarrow> rbind (chunk_audio env cm (i, item)) (\<lambda>chunks.
        rbind (traverse (\<lambda>c. recognize_chunk env gen (to_max_new_tokens opts) eos (build_prompt (contexts ! i) (forced ! i)) (forced ! i) (ci_wav c)) chunks)
          (\<lambda>outs. Inr (merge_chunks outs)))) =
      rbind (chunk_audio env cm x) (\<lambda>q. rbind (traverse (chunk_result env gen (cb [])) q) (\<lambda>outs. Inr (merge_chunks outs)))"
      by (cases "chunk_audio env cm (i, item)") simp_all
  qed
  have "?alone = Inr r \<longleftrightarrow> (\<exists>parts. ?parts = Inr parts \<and> (\<exists>oss. traverse (traverse (chunk_result env gen (cb []))) parts = Inr oss \<and>
      r = map (\<lambda>(x, os). merge_chunks os) (zip (zip [0..<length audio] audio) oss)))"
    unfolding alone by (rule traverse_stages[where H = "\<lambda>x os. merge_chunks os"])
  also have "\<dots> \<longleftrightarrow> (\<exists>parts. ?parts = Inr parts \<and> ?run parts = Inr r)"
  proof -
    have eq: "map (\<lambda>(x, os). merge_chunks os) (zip (zip [0..<length audio] audio) oss) = map merge_chunks oss"
      if "?parts = Inr parts" "traverse (traverse (chunk_result env gen (cb []))) parts = Inr oss" for parts oss
      using traverse_length[OF that(1)] traverse_length[OF that(2)] by (intro nth_equalityI) simp_all
    have "(\<exists>oss. traverse (traverse (chunk_result env gen (cb []))) parts = Inr oss \<and>
        r = map (\<lambda>(x, os). merge_chunks os) (zip (zip [0..<length audio] audio) oss)) \<longleftrightarrow> ?run parts = Inr r" if p: "?parts = Inr parts" for parts
      unfolding run[OF p] using eq[OF p] by auto
    then show ?thesis by blast
  qed
  finally show ?thesis by (simp only: rbind_eq_Inr_iff)
qed


text \<open>A recording of two samples and an empty one, in English.\<close>

definition example_gen :: "nat list \<Rightarrow> int list list \<Rightarrow> nat \<Rightarrow> nat list \<Rightarrow> nat list result" where
  "example_gen ids feats max_new eos = Inr ids"

definition example_recognizer :: "(int, int) recognizer" where
  "example_recognizer = \<lparr>rg_generate = (\<lambda>paged rows (tensor, lens) max_new eos pad.
       traverse (\<lambda>((ids, mk), feat, n). example_gen (take (valid_count mk) ids) (map (take n) feat) max_new eos) (zip rows (zip tensor lens))),
     rg_sort = (\<lambda>xs. xs), rg_continuous = True, rg_align = (\<lambda>_. Inr [])\<rparr>"

definition example_env :: "(int, int) asr_env" where
  "example_env = \<lparr>ae_dsp = example_dsp, ae_decode_path = (\<lambda>_. Inr ([], 0)), ae_decode_url = (\<lambda>_. Inr ([], 0)),
     ae_decode_base64 = (\<lambda>_. Inr ([], 0)), ae_resample = (\<lambda>wav _ _. Inr wav), ae_padding_mode = None,
     ae_token_to_id = (\<lambda>_. Inr 7), ae_encode = (\<lambda>_. Inr [7]), ae_decode = (\<lambda>_. Inr (lit ''hi'')),
     ae_case = \<lparr>to_uppercase = (\<lambda>c. [c]), to_lowercase = (\<lambda>c. [c])\<rparr>\<rparr>"

definition example_options :: "int transcribe_options" where
  "example_options = (default_transcribe_options example_ops)\<lparr>to_language := One (Some (lit ''English''))\<rparr>"

lemma example_forced: "normalize_forced_language example_env (Some (lit ''English'')) = Inr (Some (lit ''English''))"
proof -
  have l: "lit ''English'' \<in> set SUPPORTED_LANGUAGES" by (simp add: SUPPORTED_LANGUAGES_def)
  have t: "trim (lit ''English'') = lit ''English''" by (intro trim_id) (simp_all add: lit_def is_whitespace_def)
  then show ?thesis using l own_alias[OF l] supported_letters[OF l]
    by (simp add: normalize_forced_language_def normalize_language_name_def validate_language_def t Let_def)
qed

lemma example_parse: "parse_asr_output e (Some (lit ''hi'')) (Some lang) = (lang, lit ''hi'')"
proof -
  have "trim (lit ''hi'') = lit ''hi''" by (intro trim_id) (simp_all add: lit_def is_whitespace_def)
  then show ?thesis
    by (simp add: parse_asr_output_def Let_def detect_and_fix_repetitions_def DEFAULT_REPETITION_THRESHOLD_def lit_def
        fix_pattern_repeats.simps)
qed

lemma example_chunk:
  "recognize_chunk example_env example_gen 0 eos prompt (Some lang) wav = Inr (lang, lit ''hi'')"
  by (simp add: recognize_chunk_def prepare_one_def normalize_audio_input_def extract_features_total Let_def
      example_env_def example_gen_def example_parse)


end
