(* ===== verification/AsrAlign.thy ===== *)
theory AsrAlign
  imports AsrBatching AlignTime
begin

text \<open>
  Transcription with word times (\<^verbatim>\<open>transcribe_with_forced_aligner\<close> in \<^verbatim>\<open>transcribe.rs\<close>): the aligned words of
  the chunks are moved by the offsets of their chunks, merged, and repaired where chunks overlap.  The
  repair runs \<^verbatim>\<open>fix_timestamp\<close>, so not returning is the value None.
\<close>

section \<open>Times\<close>

definition round3 :: "('f, 'd) dsp \<Rightarrow> 'd \<Rightarrow> 'd" where
  "round3 D x = (let A = f64 D in f_div A (f_round A (f_mul A x (f_lit A 1000 1))) (f_lit A 1000 1))"

definition offset_align_items :: "('f, 'd) dsp \<Rightarrow> 'd timed_text list \<Rightarrow> 'f \<Rightarrow> 'd timed_text list" where
  "offset_align_items D items offset_sec =
    (let offset = widen D offset_sec
     in map (\<lambda>(word, start, stop). (word, round3 D (f_add (f64 D) start offset), round3 D (f_add (f64 D) stop offset))) items)"

definition to_ms :: "('f, 'd) dsp \<Rightarrow> 'd \<Rightarrow> int" where
  "to_ms D t =
    (let A = f64 D; ms = f_mul A t (f_lit A 1000 1)
     in if f_le A (f_int A (int i64_max)) ms then int i64_max
        else if f_le A ms (f_int A (- int i64_max - 1)) then - int i64_max - 1
        else f_to_int A (f_round A ms))"

fun times_of :: "'d timed_text list \<Rightarrow> 'd list" where
  "times_of [] = []"
| "times_of ((word, start, stop) # items) = start # stop # times_of items"

fun clamp_times :: "('f, 'd) dsp \<Rightarrow> int \<Rightarrow> int list \<Rightarrow> 'd timed_text list \<Rightarrow> 'd timed_text list" where
  "clamp_times D prev_ms (start_raw # stop_raw # fixed) ((word, _, _) # items) =
    (let start_ms = max start_raw prev_ms; stop_ms = max stop_raw start_ms; A = f64 D
     in (word, round3 D (f_div A (f_int A start_ms) (f_lit A 1000 1)), round3 D (f_div A (f_int A stop_ms) (f_lit A 1000 1))) #
        clamp_times D stop_ms fixed items)"
| "clamp_times D prev_ms _ _ = []"

definition repair_merged_align_items :: "('f, 'd) dsp \<Rightarrow> 'd timed_text list \<Rightarrow> 'd timed_text list result option" where
  "repair_merged_align_items D items =
    (if items = [] then Some (Inr [])
     else if \<not> list_all (f_is_finite (f64 D)) (times_of items) then Some (Inl (Err ''invalid timestamp item (non-finite time)''))
     else let ms = map (to_ms D) (times_of items)
          in if sorted ms then Some (Inr items)
             else map_option (\<lambda>fixed.
                    if length fixed \<noteq> length ms then Inl (Err ''internal error: fix_timestamp length mismatch'')
                    else Inr (clamp_times D 0 fixed items))
                  (fix_timestamp (f32 D) (map (f_int (f32 D)) ms)))"

section \<open>Transcription\<close>

definition MAX_FORCE_ALIGN_INPUT_SECONDS :: "'f f32_ops \<Rightarrow> 'f" where "MAX_FORCE_ALIGN_INPUT_SECONDS F = f_lit F 180 1"

type_synonym 'd chunk_slots = "(rstring \<times> rstring) option list \<times> 'd timed_text list option list"

definition align_group ::
  "('f, 'd) asr_env \<Rightarrow> ('f, 'd) recognizer \<Rightarrow> ('f, 'd) chunk_batch \<Rightarrow> 'd chunk_slots \<Rightarrow> nat list \<Rightarrow> 'd chunk_slots result" where
  "align_group env rg cb = (\<lambda>(slots, aligns) idxs.
    rbind (recognize_group env rg cb idxs) (\<lambda>(prepared, outs).
    let spoken = filter (\<lambda>(i, p, lang, tx). trim tx \<noteq> []) (zip idxs (zip prepared outs))
    in rbind (if spoken = [] then Inr aligns
              else rbind (rg_align rg (map (\<lambda>(i, p, lang, tx). (p, tx, lang)) spoken)) (\<lambda>aligned.
                   if length aligned \<noteq> length spoken then Inl (Err ''forced aligner batch size mismatch'')
                   else foldM (\<lambda>aligns ((i, _), items).
                          rbind (get_chunk (cb_chunks cb) i) (\<lambda>c.
                          if i < length aligns then Inr (aligns[i := Some (offset_align_items (ae_dsp env) items (ci_offset_sec c))])
                          else Inl (Err ''missing chunk align slot''))) aligns (zip spoken aligned))) (\<lambda>aligns.
       rbind (foldM put_slot_once slots (zip idxs outs)) (\<lambda>slots. Inr (slots, aligns)))))"

fun repair_all ::
  "('f, 'd) dsp \<Rightarrow> (rstring list \<times> rstring list \<times> 'd timed_text list) list \<Rightarrow> 'd asr_transcription list result option" where
  "repair_all D [] = Some (Inr [])"
| "repair_all D ((langs, texts, items) # rest) =
    (case repair_merged_align_items D items of
       None \<Rightarrow> None
     | Some (Inl e) \<Rightarrow> Some (Inl e)
     | Some (Inr items) \<Rightarrow>
        map_option (\<lambda>r. rbind r (\<lambda>out. Inr (\<lparr>at_language = merge_languages langs, at_text = concat texts,
             at_timestamps = (if items = [] then None else Some items)\<rparr> # out))) (repair_all D rest))"

definition align_order :: "'f transcribe_options \<Rightarrow> 'f chunk_item list \<Rightarrow> nat list" where
  "align_order opts chunks = (if to_bucket_by_length opts then bucket_order chunks else [0..<length chunks])"

definition merge_aligned ::
  "nat \<Rightarrow> 'f chunk_item list \<Rightarrow> (rstring \<times> rstring) list \<Rightarrow> 'd timed_text list option list \<Rightarrow>
    (rstring list \<times> rstring list \<times> 'd timed_text list) list result" where
  "merge_aligned n chunks outs aligns =
    rbind (collect_chunks n chunks (map fst outs)) (\<lambda>out_langs.
    rbind (collect_chunks n chunks (map snd outs)) (\<lambda>out_texts.
    rbind (collect_chunks n chunks aligns) (\<lambda>out_aligns.
    Inr (zip out_langs (zip out_texts (map (\<lambda>slots. concat (map (\<lambda>a. case a of None \<Rightarrow> [] | Some items \<Rightarrow> items) slots)) out_aligns))))))"

definition aligned_chunks ::
  "('f, 'd) asr_env \<Rightarrow> ('f, 'd) recognizer \<Rightarrow> 'f audio_input list \<Rightarrow> 'f transcribe_options \<Rightarrow>
    (rstring list \<times> rstring list \<times> 'd timed_text list) list result" where
  "aligned_chunks env rg audio opts =
    rbind (broadcast (to_context opts) (length audio)) (\<lambda>contexts.
    rbind (broadcast (to_language opts) (length audio)) (\<lambda>forced_langs.
    rbind (traverse (normalize_forced_language env) forced_langs) (\<lambda>forced.
    let F = env_f32 env;
        longest = MAX_FORCE_ALIGN_INPUT_SECONDS F;
        chunk_max_sec = f_min F (case to_chunk_max_sec opts of Some s \<Rightarrow> s | None \<Rightarrow> longest) longest
    in rbind (traverse (chunk_audio env chunk_max_sec) (zip [0..<length audio] audio)) (\<lambda>parts.
       rbind (build_eos_token_ids env) (\<lambda>eos.
       let chunks = concat parts;
           cb = \<lparr>cb_chunks = chunks, cb_prompts = map (\<lambda>(ctx, lang). build_prompt ctx lang) (zip contexts forced),
                 cb_forced = forced, cb_options = opts, cb_eos = eos, cb_paged = False\<rparr>
       in rbind (group_chunk_indices F (align_order opts chunks) chunks (to_max_batch_size opts) (to_max_batch_audio_sec opts))
            (\<lambda>groups.
          rbind (foldM (align_group env rg cb) (replicate (length chunks) None, replicate (length chunks) None) groups)
            (\<lambda>(slots, aligns).
          rbind (traverse (\<lambda>x. ok_or x (Err ''missing chunk language'')) slots) (\<lambda>outs.
          merge_aligned (length audio) chunks outs aligns))))))))"

definition transcribe_with_forced_aligner ::
  "('f, 'd) asr_env \<Rightarrow> ('f, 'd) recognizer \<Rightarrow> 'f audio_input list \<Rightarrow> 'f transcribe_options \<Rightarrow> 'd asr_transcription list result option" where
  "transcribe_with_forced_aligner env rg audio opts =
    (if \<not> to_return_timestamps opts then Some (transcribe env rg False audio opts)
     else case aligned_chunks env rg audio opts of
       Inl e \<Rightarrow> Some (Inl e)
     | Inr merged \<Rightarrow> repair_all (ae_dsp env) merged)"

section \<open>The repair always returns\<close>

lemma lis_walk_total:
  assumes t: "table_ok F xs (length xs) (dp, parent)" and "i < length xs"
  shows "\<exists>js. lis_walk parent acc (Some i) = Some js"
  using assms(2)
proof (induction i arbitrary: acc rule: less_induct)
  case (less i)
  have len: "length parent = length xs" using t by (simp add: table_ok_def)
  show ?case
  proof (cases "parent ! i")
    case None
    then show ?thesis using less.prems len by (subst lis_walk.simps) (simp add: lis_walk.simps)
  next
    case (Some j)
    then have "j < i" using table_rowD(4)[OF t less.prems] by blast
    then show ?thesis using less.IH[of j "acc @ [i]"] Some less.prems len by (subst lis_walk.simps) simp
  qed
qed

lemma repair_gap_length: "length (repair_gap F flags i j R) = length R"
proof -
  have "length (foldl (\<lambda>res k. let v = g k in if k < length res then res[k := v] else res) R ks) = length R" for g and ks :: "nat list"
    by (induction ks arbitrary: R) (simp_all add: Let_def)
  then show ?thesis by (simp add: repair_gap_def Let_def)
qed

lemma repair_length: "length (repair F flags i R) = length R"
proof (induction F flags i R rule: repair.induct)
  case (1 F flags i R)
  then show ?case by (subst repair.simps) (simp add: Let_def repair_gap_length)
qed

lemma fix_timestamp_total: "\<exists>ys. fix_timestamp F xs = Some ys \<and> length ys = length xs"
proof (cases "xs = []")
  case False
  obtain dp parent where tb: "lis_table F xs = (dp, parent)" by (cases "lis_table F xs")
  have t: "table_ok F xs (length xs) (dp, parent)" using lis_table_ok[OF False, of F] tb by simp
  have len: "length dp = length xs" using t by (simp add: table_ok_def)
  let ?i = "unwrap_or (position (\<lambda>v. v = fold max dp 0) dp) 0"
  have pos: "position p ys = Some k \<Longrightarrow> k < length ys" for p k and ys :: "nat list"
    by (induction ys arbitrary: k) (auto split: if_splits)
  have "?i < length xs"
    using pos[of "\<lambda>v. v = fold max dp 0" dp] len False by (cases "position (\<lambda>v. v = fold max dp 0) dp") (simp_all add: unwrap_or_def)
  then obtain js where "lis_indices F xs = Some js"
    using lis_walk_total[OF t, of ?i "[]"] by (auto simp: lis_indices_def tb)
  then show ?thesis using False by (auto simp: fix_timestamp_def repair_length)
qed (simp add: fix_timestamp_def)

section \<open>Merged times do not decrease\<close>

fun clamp_ms :: "int \<Rightarrow> int list \<Rightarrow> int list" where
  "clamp_ms prev (a # b # rest) = max a prev # max b (max a prev) # clamp_ms (max b (max a prev)) rest"
| "clamp_ms prev _ = []"

definition ms_time :: "('f, 'd) dsp \<Rightarrow> int \<Rightarrow> 'd" where
  "ms_time D ms = round3 D (f_div (f64 D) (f_int (f64 D) ms) (f_lit (f64 D) 1000 1))"

lemma clamp_ms_sorted: "sorted (clamp_ms prev ms) \<and> (\<forall>m\<in>set (clamp_ms prev ms). prev \<le> m)"
proof (induction prev ms rule: clamp_ms.induct)
  case (1 prev a b rest)
  obtain x y where xy: "x = max a prev" "y = max b x" by blast
  have eq: "clamp_ms prev (a # b # rest) = x # y # clamp_ms y rest" by (simp only: clamp_ms.simps xy)
  have le: "prev \<le> x" "x \<le> y" unfolding xy by (rule max.cobounded2)+
  have IH: "sorted (clamp_ms y rest)" "\<And>m. m \<in> set (clamp_ms y rest) \<Longrightarrow> y \<le> m" using 1 unfolding xy by blast+
  have "x \<le> m" "prev \<le> m" if "m \<in> set (clamp_ms y rest)" for m using IH(2)[OF that] le by linarith+
  then show ?case unfolding eq using IH le by auto
qed simp_all

lemma clamp_times_ms:
  "length fixed = 2 * length items \<Longrightarrow>
    times_of (clamp_times D prev fixed items) = map (ms_time D) (clamp_ms prev fixed) \<and> map fst (clamp_times D prev fixed items) = map fst items"
proof (induction items arbitrary: prev fixed)
  case (Cons it items)
  obtain a b rest where fixed: "fixed = a # b # rest"
    using Cons.prems by (cases fixed; cases "tl fixed") auto
  obtain word t u where "it = (word, t, u)" by (cases it)
  then show ?case using Cons.IH[of rest "max b (max a prev)"] Cons.prems by (simp add: fixed Let_def ms_time_def)
qed simp

lemma times_of_length: "length (times_of items) = 2 * length items"
  by (induction items rule: times_of.induct) simp_all

text \<open>The times are those of non-decreasing milliseconds, or have such milliseconds themselves.\<close>

definition monotone_times :: "('f, 'd) dsp \<Rightarrow> 'd timed_text list \<Rightarrow> bool" where
  "monotone_times D items \<longleftrightarrow>
    (\<exists>ms. sorted ms \<and> (times_of items = map (ms_time D) ms \<or> map (to_ms D) (times_of items) = ms))"

lemma repair_total:
  assumes "list_all (f_is_finite (f64 D)) (times_of items)"
  shows "\<exists>items'. repair_merged_align_items D items = Some (Inr items') \<and> map fst items' = map fst items \<and> monotone_times D items'"
proof (cases "items = [] \<or> sorted (map (to_ms D) (times_of items))")
  case True
  then show ?thesis using assms by (auto simp: repair_merged_align_items_def monotone_times_def Let_def)
next
  case False
  obtain fixed where f: "fix_timestamp (f32 D) (map (f_int (f32 D)) (map (to_ms D) (times_of items))) = Some fixed"
    "length fixed = 2 * length items"
    using fix_timestamp_total[of "f32 D" "map (f_int (f32 D)) (map (to_ms D) (times_of items))"] by (auto simp: times_of_length)
  then have "repair_merged_align_items D items = Some (Inr (clamp_times D 0 fixed items))"
    using False assms by (simp add: repair_merged_align_items_def Let_def times_of_length)
  moreover have "monotone_times D (clamp_times D 0 fixed items)"
    using clamp_times_ms[OF f(2), of D 0] clamp_ms_sorted[of 0 fixed] unfolding monotone_times_def by blast
  ultimately show ?thesis using clamp_times_ms[OF f(2), of D 0] by blast
qed

lemma repair_nonfinite:
  "\<not> list_all (f_is_finite (f64 D)) (times_of items) \<Longrightarrow>
    repair_merged_align_items D items = Some (Inl (Err ''invalid timestamp item (non-finite time)''))"
  by (cases items) (auto simp: repair_merged_align_items_def)

lemma repair_all_total:
  "\<exists>r. repair_all D merged = Some r \<and>
    (\<forall>out t items. r = Inr out \<longrightarrow> t \<in> set out \<longrightarrow> at_timestamps t = Some items \<longrightarrow> monotone_times D items)"
proof (induction D merged rule: repair_all.induct)
  case (2 D langs texts items rest)
  show ?case
  proof (cases "list_all (f_is_finite (f64 D)) (times_of items)")
    case True
    then obtain items' where i: "repair_merged_align_items D items = Some (Inr items')" "monotone_times D items'"
      using repair_total by blast
    obtain r where r: "repair_all D rest = Some r"
      "\<forall>out t items. r = Inr out \<longrightarrow> t \<in> set out \<longrightarrow> at_timestamps t = Some items \<longrightarrow> monotone_times D items"
      using 2[OF i(1) refl] by blast
    then show ?thesis using i by (cases r) auto
  next
    case False
    then show ?thesis using repair_nonfinite[OF False] by simp
  qed
qed simp

text \<open>C38: Transcription with word times always returns, whatever the rounding of the arithmetic; when it returns transcripts, the times of
  the words of each recording do not decrease: they are the times of non-decreasing milliseconds, or rounded to
  milliseconds they do not decrease.\<close>

theorem aligned_transcripts_are_monotone:
  "\<exists>r. transcribe_with_forced_aligner env rg audio (opts\<lparr>to_return_timestamps := True\<rparr>) = Some r \<and>
    (r \<in> range Inl \<or> (\<exists>out. r = Inr out \<and> {items. Some items \<in> at_timestamps ` set out} \<subseteq> Collect (monotone_times (ae_dsp env))))"
proof (cases "aligned_chunks env rg audio (opts\<lparr>to_return_timestamps := True\<rparr>)")
  case (Inl e)
  then show ?thesis by (simp add: transcribe_with_forced_aligner_def)
next
  case (Inr merged)
  obtain r where r: "repair_all (ae_dsp env) merged = Some r"
    "\<forall>out t items. r = Inr out \<longrightarrow> t \<in> set out \<longrightarrow> at_timestamps t = Some items \<longrightarrow> monotone_times (ae_dsp env) items"
    using repair_all_total by blast
  have "{items. Some items \<in> at_timestamps ` set out} \<subseteq> Collect (monotone_times (ae_dsp env))" if "r = Inr out" for out
    using r(2) that by (auto simp: image_iff)
  then show ?thesis using Inr r(1) by (cases r) (auto simp: transcribe_with_forced_aligner_def)
qed

end
