(* ===== verification/AsrStream.thy ===== *)
theory AsrStream
  imports AsrTranscribe
begin

text \<open>
  The streaming recogniser (\<^verbatim>\<open>vasr-models/src/inference/streaming.rs\<close>): audio is consumed in chunks of a fixed size; after
  each chunk the network reads all audio so far, or a window of it, and continues a pre of the text decoded
  before.  The features of the audio encoder are cached.

  \<^verbatim>\<open>stream_model\<close> holds what the network computes: the rows of the audio encoder for features and their
  number, and the tokens generated for a prompt.  The part of the state that decoding reads and writes comes
  first in the record.  What is left of a stream after an error is not modelled.
\<close>

section \<open>State\<close>

record 'f stream_options =
  so_context :: rstring
  so_language :: "rstring option"
  so_chunk_size_sec :: 'f
  so_unfixed_chunk_num :: nat
  so_unfixed_token_num :: nat
  so_max_new_tokens :: nat
  so_audio_window_sec :: "'f option"
  so_text_window_tokens :: "nat option"

definition default_stream_options :: "'f f32_ops \<Rightarrow> 'f stream_options" where
  "default_stream_options F = \<lparr>so_context = [], so_language = None, so_chunk_size_sec = f_lit F 2 1, so_unfixed_chunk_num = 2,
     so_unfixed_token_num = 5, so_max_new_tokens = 256, so_audio_window_sec = None, so_text_window_tokens = None\<rparr>"

record ('f, 'e) stream_model =
  sm_audio_features :: "'f list list \<Rightarrow> nat \<Rightarrow> 'e list result"
  sm_uses_flash_attn :: bool
  sm_n_window :: nat
  sm_n_window_infer :: nat
  sm_audio_token_id :: nat
  sm_generate :: "nat list \<Rightarrow> nat list \<Rightarrow> 'e list \<Rightarrow> nat \<Rightarrow> nat list \<Rightarrow> nat list result"

record ('f, 'e) features_cache =
  fc_frames :: nat
  fc_wav_len_samples :: nat
  fc_max_log :: 'f
  fc_audio_features :: "'e list"

record rolling_text =
  rt_committed :: rstring
  rt_tail_ids :: "nat list"
  rt_keep_tail_tokens :: nat

record ('f, 'd) stream_text =
  st_opts :: "'f stream_options"
  st_prompt_raw :: rstring
  st_eos_token_ids :: "nat list"
  st_chunk_id :: nat
  st_raw_decoded :: rstring
  st_rolling_text :: "rolling_text option"
  st_last :: "'d asr_transcription option"

record ('f, 'd, 'e) asr_stream = "('f, 'd) stream_text" +
  st_chunk_size_samples :: nat
  st_buffer :: "'f list"
  st_buffer_offset :: nat
  st_features :: "('f, 'd) stream_extractor"
  st_audio_cache :: "('f, 'e) features_cache option"

section \<open>Audio features\<close>

definition recompute_from_for_stream_append :: "nat \<Rightarrow> nat \<Rightarrow> nat" where
  "recompute_from_for_stream_append cache_frames segment_frames =
    (if segment_frames = 0 then 0
     else let changed_start_frame = saturating_sub cache_frames 1 in changed_start_frame div segment_frames * segment_frames)"

definition audio_window_frames :: "('f, 'd) dsp \<Rightarrow> 'f stream_options \<Rightarrow> nat option result" where
  "audio_window_frames D stream_opts =
    (case so_audio_window_sec stream_opts of
       None \<Rightarrow> Inr None
     | Some sec \<Rightarrow>
        (if \<not> f_is_finite (f32 D) sec \<or> f_le (f32 D) sec (f_lit (f32 D) 0 1)
         then Inl (Err ''audio_window_sec must be finite and > 0'')
         else let A = f64 D; frames_f = f_mul A (widen D sec) (f_lit A 100 1)
              in if \<not> f_is_finite A frames_f \<or> f_le A frames_f (f_lit A 0 1)
                 then Inl (Err ''audio_window_sec produces invalid frame count'')
                 else if f_lt A (f_int A (int usize_max)) frames_f
                 then Inl (Err ''audio_window_sec produces too many frames'')
                 else Inr (Some (max (f_to_usize A (f_round A frames_f)) 1))))"

definition frames_range_for_step :: "('f, 'd) dsp \<Rightarrow> 'f stream_options \<Rightarrow> nat \<Rightarrow> (nat \<times> nat) result" where
  "frames_range_for_step D stream_opts frames_total =
    rbind (audio_window_frames D stream_opts) (\<lambda>window. case window of
        None \<Rightarrow> Inr (0, frames_total)
      | Some window_frames \<Rightarrow>
         (if frames_total = 0 then Inr (0, 0)
          else let window_frames = max (min window_frames frames_total) 1
               in Inr (saturating_sub frames_total window_frames, frames_total)))"

definition feature_dims :: "'f features \<Rightarrow> (nat \<times> nat) result" where
  "feature_dims f =
    (let mel = length (ft_rows f)
     in if mel = 0 then Inl (Err ''internal error: empty input_features'')
        else let frames = length (hd (ft_rows f))
             in if \<not> list_all (\<lambda>row. length row = frames) (ft_rows f) then Inl (Err ''internal error: input_features row length mismatch'')
                else if length (ft_mask f) \<noteq> frames then Inl (Err ''internal error: feature_attention_mask length mismatch'')
                else Inr (mel, frames))"

definition build_feature_tensors :: "'f features \<Rightarrow> nat \<times> nat \<Rightarrow> ('f list list \<times> nat) result" where
  "build_feature_tensors f frames_range =
    rbind (feature_dims f) (\<lambda>(mel, frames_total).
    let start = fst frames_range; stop = snd frames_range
    in if start > stop then Inl (Err ''invalid feature range: start > end'')
       else if stop > frames_total then Inl (Err ''invalid feature range: end > frames_total'')
       else rbind (ok_or (checked_mul mel (stop - start)) (Err ''input_features size overflow'')) (\<lambda>_.
            Inr (map (slice start stop) (ft_rows f), valid_count (slice start stop (ft_mask f)))))"

definition compute_audio_features :: "('f, 'e) stream_model \<Rightarrow> 'f features \<Rightarrow> nat \<times> nat \<Rightarrow> 'e list result" where
  "compute_audio_features m f frames_range =
    rbind (build_feature_tensors f frames_range) (\<lambda>(input_features, feature_len). sm_audio_features m input_features feature_len)"

definition audio_cache_segment_frames :: "('f, 'e) stream_model \<Rightarrow> nat option result" where
  "audio_cache_segment_frames m =
    (if \<not> sm_uses_flash_attn m then Inr None
     else rbind (ok_or (checked_mul (sm_n_window m) 2) (Err ''audio_config.n_window overflows when doubled'')) (\<lambda>window_frames.
          if window_frames = 0 then Inl (Err ''audio_config.n_window must be > 0'')
          else let ratio = sm_n_window_infer m div window_frames
               in if ratio = 0 then Inr None
                  else rbind (ok_or (checked_mul window_frames ratio) (Err ''audio segment_frames overflow'')) (\<lambda>segment_frames.
                       if segment_frames = 0 then Inr None else Inr (Some segment_frames))))"

text \<open>The cache when it holds the features of the audio as it is.\<close>

definition current_cache ::
  "('f, 'd) dsp \<Rightarrow> nat \<Rightarrow> nat \<Rightarrow> 'f \<Rightarrow> ('f, 'e) features_cache option \<Rightarrow> ('f, 'e) features_cache option" where
  "current_cache D frames_total wav_len_samples max_log found =
    (case found of
       Some cache \<Rightarrow> if fc_frames cache = frames_total \<and> fc_wav_len_samples cache = wav_len_samples \<and>
         f32_eq D (fc_max_log cache) max_log then Some cache else None
     | None \<Rightarrow> None)"

text \<open>The features for all frames from those of an earlier step.\<close>

definition extend_audio_features ::
  "('f, 'd) dsp \<Rightarrow> ('f, 'e) stream_model \<Rightarrow> 'f features \<Rightarrow> 'f \<Rightarrow> nat \<Rightarrow> nat \<Rightarrow> ('f, 'e) features_cache option \<Rightarrow> 'e list result" where
  "extend_audio_features D m f max_log frames_total segment_frames found =
    (case found of
       None \<Rightarrow> compute_audio_features m f (0, frames_total)
     | Some cache \<Rightarrow>
        (if \<not> f32_eq D (fc_max_log cache) max_log \<or> fc_frames cache > frames_total
         then compute_audio_features m f (0, frames_total)
         else let recompute_from = recompute_from_for_stream_append (fc_frames cache) segment_frames
              in if recompute_from = 0 then compute_audio_features m f (0, frames_total)
                 else if recompute_from > frames_total then Inl (Err ''internal error: recompute_from > frames_total'')
                 else let prefix_tokens = feat_extract_output_length recompute_from
                      in if prefix_tokens > length (fc_audio_features cache)
                         then Inl (Err ''internal error: prefix_tokens exceed cached_tokens'')
                         else rbind (compute_audio_features m f (recompute_from, frames_total)) (\<lambda>tail.
                              Inr (take prefix_tokens (fc_audio_features cache) @ tail))))"

definition audio_features_for_step ::
  "('f, 'd) dsp \<Rightarrow> ('f, 'e) stream_model \<Rightarrow> ('f, 'd, 'e) asr_stream \<Rightarrow> ('e list \<times> ('f, 'd, 'e) asr_stream) result" where
  "audio_features_for_step D m s =
    (let f = extractor_features (st_features s)
     in rbind (feature_dims f) (\<lambda>(_, frames_total).
        if frames_total = 0 then Inl (Err ''internal error: empty features (frames_total=0)'')
        else rbind (frames_range_for_step D (st_opts s) frames_total) (\<lambda>(start, stop).
          let frames_window = saturating_sub stop start
          in if frames_window = 0 then Inl (Err ''internal error: frames_window is 0'')
             else
              let max_log = se_max_log (st_features s);
                  wav_len_samples = length (se_wav (st_features s));
                  expected_tokens = feat_extract_output_length frames_window
              in if start \<noteq> 0 \<or> stop \<noteq> frames_total
                 then rbind (compute_audio_features m f (start, stop)) (\<lambda>audio_features.
                      if length audio_features \<noteq> expected_tokens then Inl (Err ''internal error: audio_features length mismatch (windowed)'')
                      else Inr (audio_features, s\<lparr>st_audio_cache := None\<rparr>))
                 else rbind (audio_cache_segment_frames m) (\<lambda>segment. case segment of
                     None \<Rightarrow>
                      rbind (compute_audio_features m f (start, stop)) (\<lambda>audio_features.
                      if length audio_features \<noteq> expected_tokens then Inl (Err ''internal error: audio_features length mismatch'')
                      else Inr (audio_features, s))
                   | Some segment_frames \<Rightarrow>
                      (case current_cache D frames_total wav_len_samples max_log (st_audio_cache s) of
                         Some cache \<Rightarrow> Inr (fc_audio_features cache, s)
                       | None \<Rightarrow>
                          rbind (extend_audio_features D m f max_log frames_total segment_frames (st_audio_cache s)) (\<lambda>audio_features.
                          if length audio_features \<noteq> expected_tokens
                          then Inl (Err ''internal error: audio_features length mismatch after caching'')
                          else Inr (audio_features, s\<lparr>st_audio_cache := Some \<lparr>fc_frames = frames_total,
                                 fc_wav_len_samples = wav_len_samples, fc_max_log = max_log, fc_audio_features = audio_features\<rparr>\<rparr>)))))))"

section \<open>Text\<close>

definition REPLACEMENT_CHARACTER :: nat where "REPLACEMENT_CHARACTER = 65533"

definition decode_ids :: "('f, 'd) asr_env \<Rightarrow> nat list \<Rightarrow> rstring result" where
  "decode_ids env ids = (if ids = [] then Inr [] else ae_decode env ids)"

text \<open>The longest prefix of the tokens, short of the last \<open>k\<close>, whose text holds no replacement character; \<open>k\<close> stays
  below the length of a vector, so the saturating addition is an addition.\<close>

function prefix_loop :: "('f, 'd) asr_env \<Rightarrow> nat list \<Rightarrow> nat \<Rightarrow> (nat list \<times> rstring) result" where
  "prefix_loop env cur_ids k =
    (let end_idx = length cur_ids - k
     in rbind (decode_ids env (take end_idx cur_ids)) (\<lambda>pre.
        if REPLACEMENT_CHARACTER \<notin> set pre then Inr (take end_idx cur_ids, pre)
        else if end_idx = 0 then Inr ([], [])
        else prefix_loop env cur_ids (k + 1)))"
  by pat_completeness auto
termination
  by (relation "measure (\<lambda>(env, cur_ids, k). length cur_ids - k)") auto

declare prefix_loop.simps [simp del]

definition finish_end_idx :: "nat \<Rightarrow> nat list \<Rightarrow> nat" where
  "finish_end_idx unfixed_token_num cur_ids =
    (let end_idx = saturating_sub (length cur_ids) unfixed_token_num
     in if end_idx = 0 \<and> cur_ids \<noteq> [] then 1 else end_idx)"

definition warming_up :: "('f, 'd, 'z) stream_text_scheme \<Rightarrow> bool" where
  "warming_up s \<longleftrightarrow> st_chunk_id s < so_unfixed_chunk_num (st_opts s)"

definition build_prefix :: "('f, 'd) asr_env \<Rightarrow> ('f, 'd, 'z) stream_text_scheme \<Rightarrow> rstring result" where
  "build_prefix env s =
    (if warming_up s then Inr []
     else rbind (ae_encode env (st_raw_decoded s)) (\<lambda>cur_ids.
          rbind (prefix_loop env cur_ids (so_unfixed_token_num (st_opts s))) (\<lambda>(_, pre). Inr pre)))"

definition build_finish_prefix :: "('f, 'd) asr_env \<Rightarrow> ('f, 'd, 'z) stream_text_scheme \<Rightarrow> rstring result" where
  "build_finish_prefix env s =
    (if warming_up s then Inr []
     else rbind (ae_encode env (st_raw_decoded s)) (\<lambda>cur_ids.
          decode_ids env (take (finish_end_idx (so_unfixed_token_num (st_opts s)) cur_ids) cur_ids)))"

definition build_prefix_windowed ::
  "('f, 'd) asr_env \<Rightarrow> ('f, 'd, 'z) stream_text_scheme \<Rightarrow> rolling_text \<Rightarrow> (nat list \<times> rstring) result" where
  "build_prefix_windowed env s rolling =
    (if warming_up s then Inr ([], []) else prefix_loop env (rt_tail_ids rolling) (so_unfixed_token_num (st_opts s)))"

definition build_finish_prefix_windowed ::
  "('f, 'd) asr_env \<Rightarrow> ('f, 'd, 'z) stream_text_scheme \<Rightarrow> rolling_text \<Rightarrow> (nat list \<times> rstring) result" where
  "build_finish_prefix_windowed env s rolling =
    (if warming_up s then Inr ([], [])
     else let ids = take (finish_end_idx (so_unfixed_token_num (st_opts s)) (rt_tail_ids rolling)) (rt_tail_ids rolling)
          in rbind (decode_ids env ids) (\<lambda>pre. Inr (ids, pre)))"

text \<open>The longest head of the tail, of at most \<open>n\<close> tokens, whose text does not end within a character.\<close>

fun commit_loop :: "('f, 'd) asr_env \<Rightarrow> nat list \<Rightarrow> nat \<Rightarrow> (nat \<times> rstring) option result" where
  "commit_loop env tail_ids 0 = Inr None"
| "commit_loop env tail_ids (Suc n) =
    rbind (ae_decode env (take (Suc n) tail_ids)) (\<lambda>s.
    if \<not> (s \<noteq> [] \<and> last s = REPLACEMENT_CHARACTER) then Inr (Some (Suc n, s)) else commit_loop env tail_ids n)"

definition maybe_commit_windowed_text ::
  "('f, 'd) asr_env \<Rightarrow> ('f, 'd, 'z) stream_text_scheme \<Rightarrow> ('f, 'd, 'z) stream_text_scheme result" where
  "maybe_commit_windowed_text env s =
    (case st_rolling_text s of
       None \<Rightarrow> Inr s
     | Some rolling \<Rightarrow>
        (if warming_up s \<or> length (rt_tail_ids rolling) \<le> rt_keep_tail_tokens rolling then Inr s
         else rbind (commit_loop env (rt_tail_ids rolling) (length (rt_tail_ids rolling) - rt_keep_tail_tokens rolling)) (\<lambda>found.
              case found of
                None \<Rightarrow> Inr s
              | Some (commit_n, committed) \<Rightarrow> Inr (s\<lparr>st_rolling_text := Some (rolling\<lparr>rt_committed := rt_committed rolling @ committed,
                    rt_tail_ids := drop commit_n (rt_tail_ids rolling)\<rparr>)\<rparr>))))"

section \<open>Decoding\<close>

text \<open>The tokens generated for the prompt, the prefix and the audio.\<close>

definition generate_step ::
  "('f, 'd) asr_env \<Rightarrow> ('f, 'e) stream_model \<Rightarrow> ('f, 'd, 'z) stream_text_scheme \<Rightarrow> rstring \<Rightarrow> 'e list \<Rightarrow> nat list result" where
  "generate_step env m s pre audio_features =
    rbind (ae_encode env (st_prompt_raw s @ pre)) (\<lambda>base_ids.
    let input_ids = expand_audio_pad_ids_first base_ids (sm_audio_token_id m) (length audio_features)
    in sm_generate m input_ids (replicate (length input_ids) 1) audio_features (so_max_new_tokens (st_opts s)) (st_eos_token_ids s))"

definition transcription_of :: "('f, 'd) asr_env \<Rightarrow> ('f, 'd, 'z) stream_text_scheme \<Rightarrow> rstring \<Rightarrow> 'd asr_transcription" where
  "transcription_of env s raw =
    (let (language, tx) = parse_asr_output (ae_case env) (Some raw) (so_language (st_opts s))
     in \<lparr>at_language = language, at_text = tx, at_timestamps = None\<rparr>)"

definition decode_audio ::
  "('f, 'd) asr_env \<Rightarrow> ('f, 'e) stream_model \<Rightarrow> rstring \<Rightarrow> 'e list \<Rightarrow> ('f, 'd, 'z) stream_text_scheme \<Rightarrow> ('f, 'd, 'z) stream_text_scheme result" where
  "decode_audio env m pre audio_features s =
    rbind (generate_step env m s pre audio_features) (\<lambda>gen_ids.
    rbind (ae_decode env gen_ids) (\<lambda>gen_text.
    let raw_decoded = pre @ gen_text
    in Inr (s\<lparr>st_raw_decoded := raw_decoded, st_last := Some (transcription_of env s raw_decoded),
              st_chunk_id := saturating_add (st_chunk_id s) 1\<rparr>)))"

definition decode_audio_windowed ::
  "('f, 'd) asr_env \<Rightarrow> ('f, 'e) stream_model \<Rightarrow> nat list \<times> rstring \<Rightarrow> 'e list \<Rightarrow> ('f, 'd, 'z) stream_text_scheme \<Rightarrow>
    ('f, 'd, 'z) stream_text_scheme result" where
  "decode_audio_windowed env m = (\<lambda>(prefix_ids, prefix_str) audio_features s.
    rbind (generate_step env m s prefix_str audio_features) (\<lambda>gen_ids.
    case st_rolling_text s of
      None \<Rightarrow> Inl (Err ''internal error: decode_step_windowed_with_prefix without rolling_text'')
    | Some rolling \<Rightarrow>
       rbind (maybe_commit_windowed_text env (s\<lparr>st_rolling_text := Some (rolling\<lparr>rt_tail_ids := prefix_ids @ gen_ids\<rparr>),
                st_chunk_id := saturating_add (st_chunk_id s) 1\<rparr>)) (\<lambda>s.
       case st_rolling_text s of
         None \<Rightarrow> Inl (Err ''internal error: missing rolling_text'')
       | Some rolling \<Rightarrow>
          rbind (ae_decode env (rt_tail_ids rolling)) (\<lambda>tail_text.
          Inr (s\<lparr>st_last := Some (transcription_of env s (rt_committed rolling @ tail_text))\<rparr>)))))"

definition clear_warm_up :: "('f, 'd, 'z) stream_text_scheme \<Rightarrow> ('f, 'd, 'z) stream_text_scheme" where
  "clear_warm_up s =
    (case st_rolling_text s of
       Some rolling \<Rightarrow> if warming_up s then s\<lparr>st_rolling_text := Some (rolling\<lparr>rt_committed := [], rt_tail_ids := []\<rparr>)\<rparr> else s
     | None \<Rightarrow> s)"

definition decode_step ::
  "('f, 'd) asr_env \<Rightarrow> ('f, 'e) stream_model \<Rightarrow> rstring \<Rightarrow> ('f, 'd, 'e) asr_stream \<Rightarrow> ('f, 'd, 'e) asr_stream result" where
  "decode_step env m pre s =
    rbind (audio_features_for_step (ae_dsp env) m s) (\<lambda>(audio_features, s). decode_audio env m pre audio_features s)"

definition decode_step_windowed_with_prefix ::
  "('f, 'd) asr_env \<Rightarrow> ('f, 'e) stream_model \<Rightarrow> nat list \<times> rstring \<Rightarrow> ('f, 'd, 'e) asr_stream \<Rightarrow> ('f, 'd, 'e) asr_stream result" where
  "decode_step_windowed_with_prefix env m pre s =
    rbind (audio_features_for_step (ae_dsp env) m s) (\<lambda>(audio_features, s). decode_audio_windowed env m pre audio_features s)"

definition decode_step_windowed ::
  "('f, 'd) asr_env \<Rightarrow> ('f, 'e) stream_model \<Rightarrow> ('f, 'd, 'e) asr_stream \<Rightarrow> ('f, 'd, 'e) asr_stream result" where
  "decode_step_windowed env m s =
    (if st_rolling_text s = None then Inl (Err ''internal error: decode_step_windowed without rolling_text'')
     else let s = clear_warm_up s
          in case st_rolling_text s of
               None \<Rightarrow> Inl (Err ''internal error: missing rolling_text'')
             | Some rolling \<Rightarrow> rbind (build_prefix_windowed env s rolling) (\<lambda>pre. decode_step_windowed_with_prefix env m pre s))"

section \<open>The stream\<close>

text \<open>One full chunk, whose samples follow the offset.\<close>

definition stream_full_chunk ::
  "('f, 'd) asr_env \<Rightarrow> ('f, 'e) stream_model \<Rightarrow> ('f, 'd, 'e) asr_stream \<Rightarrow> ('f, 'd, 'e) asr_stream result" where
  "stream_full_chunk env m s =
    (let stop = st_buffer_offset s + st_chunk_size_samples s
     in rbind (append_samples (ae_dsp env) (st_features s) (slice (st_buffer_offset s) stop (st_buffer s))) (\<lambda>features.
        let s = s\<lparr>st_features := features, st_buffer_offset := stop\<rparr>
        in if st_rolling_text s \<noteq> None then decode_step_windowed env m s
           else rbind (build_prefix env s) (\<lambda>pre. decode_step env m pre s)))"

text \<open>The loop over full chunks returns the last transcription; with a chunk of no samples it would never end.\<close>

partial_function (option) stream_chunks ::
  "('f, 'd) asr_env \<Rightarrow> ('f, 'e) stream_model \<Rightarrow> 'd asr_transcription option \<Rightarrow> ('f, 'd, 'e) asr_stream \<Rightarrow>
    ('d asr_transcription option \<times> ('f, 'd, 'e) asr_stream) result option" where
  "stream_chunks env m out s =
    (if length (st_buffer s) - st_buffer_offset s \<ge> st_chunk_size_samples s
     then (case stream_full_chunk env m s of
             Inl e \<Rightarrow> Some (Inl e)
           | Inr s \<Rightarrow> stream_chunks env m (st_last s) s)
     else Some (Inr (out, s)))"

definition push_audio_chunk ::
  "('f, 'd) asr_env \<Rightarrow> ('f, 'e) stream_model \<Rightarrow> 'f audio_input \<Rightarrow> ('f, 'd, 'e) asr_stream \<Rightarrow>
    ('d asr_transcription option \<times> ('f, 'd, 'e) asr_stream) result option" where
  "push_audio_chunk env m chunk s =
    (case normalize_audio_input env chunk of
       Inl e \<Rightarrow> Some (Inl e)
     | Inr wav \<Rightarrow>
        (if wav = [] then Some (Inr (None, s))
         else let s = s\<lparr>st_buffer := st_buffer s @ wav\<rparr>
              in if st_buffer_offset s > length (st_buffer s) then Some (Inl (Err ''internal error: buffer_offset > buffer.len''))
                 else map_option (\<lambda>r. rbind r (\<lambda>(out, s). Inr (out,
                        if st_buffer_offset s > 0 then s\<lparr>st_buffer := drop (st_buffer_offset s) (st_buffer s), st_buffer_offset := 0\<rparr> else s)))
                      (stream_chunks env m None s)))"

definition finish_stream ::
  "('f, 'd) asr_env \<Rightarrow> ('f, 'e) stream_model \<Rightarrow> ('f, 'd, 'e) asr_stream \<Rightarrow> 'd asr_transcription result" where
  "finish_stream env m s =
    (if st_buffer_offset s > length (st_buffer s) then Inl (Err ''internal error: buffer_offset > buffer.len'')
     else let tail = drop (st_buffer_offset s) (st_buffer s)
          in rbind (if tail = [] then Inr s
                    else rbind (append_samples (ae_dsp env) (st_features s) tail) (\<lambda>features.
                         let s = clear_warm_up (s\<lparr>st_features := features, st_buffer := [], st_buffer_offset := 0\<rparr>)
                         in case st_rolling_text s of
                              Some rolling \<Rightarrow> rbind (build_finish_prefix_windowed env s rolling) (\<lambda>pre.
                                decode_step_windowed_with_prefix env m pre s)
                            | None \<Rightarrow> rbind (build_finish_prefix env s) (\<lambda>pre. decode_step env m pre s)))
               (\<lambda>s. Inr (case st_last s of Some tx \<Rightarrow> tx | None \<Rightarrow> \<lparr>at_language = [], at_text = [], at_timestamps = None\<rparr>)))"

definition stream_chunk_size :: "'f f32_ops \<Rightarrow> 'f \<Rightarrow> nat" where
  "stream_chunk_size F sec = max (f_to_usize F (f_round F (f_mul F sec (f_int F (int SAMPLE_RATE_HZ))))) 1"

definition start_stream :: "('f, 'd) asr_env \<Rightarrow> 'f stream_options \<Rightarrow> ('f, 'd, 'e) asr_stream result" where
  "start_stream env stream_opts =
    (let F = env_f32 env; bad = (\<lambda>sec. \<not> f_is_finite F sec \<or> f_le F sec (f_lit F 0 1))
     in if bad (so_chunk_size_sec stream_opts) then Inl (Err ''chunk_size_sec must be finite and > 0'')
        else if \<exists>sec\<in>set_option (so_audio_window_sec stream_opts). bad sec then Inl (Err ''audio_window_sec must be finite and > 0'')
        else rbind (case so_text_window_tokens stream_opts of
               None \<Rightarrow> Inr None
             | Some n \<Rightarrow>
                (if n = 0 then Inl (Err ''text_window_tokens must be > 0'')
                 else let min_keep = max (saturating_add (so_unfixed_token_num stream_opts) 1) 1
                      in Inr (Some \<lparr>rt_committed = [], rt_tail_ids = [], rt_keep_tail_tokens = max n min_keep\<rparr>))) (\<lambda>rolling_text.
             rbind (normalize_forced_language env (so_language stream_opts)) (\<lambda>language.
             rbind (build_eos_token_ids env) (\<lambda>eos_token_ids.
             let stream_opts = stream_opts\<lparr>so_language := language\<rparr>
             in Inr \<lparr>st_opts = stream_opts, st_prompt_raw = build_prompt (so_context stream_opts) language, st_eos_token_ids = eos_token_ids,
                  st_chunk_id = 0, st_raw_decoded = [], st_rolling_text = rolling_text, st_last = None,
                  st_chunk_size_samples = stream_chunk_size F (so_chunk_size_sec stream_opts), st_buffer = [], st_buffer_offset = 0,
                  st_features = new_extractor (ae_dsp env), st_audio_cache = None\<rparr>))))"

end
