(* ===== verification/AsrStreamCache.thy ===== *)
theory AsrStreamCache
  imports AsrStream
begin

text \<open>
  The cache of the audio encoder in the streaming recogniser does not show: the features used in a step are those computed
  from all audio heard, because the encoder works on segments of frames, which is the assumption under which
  the code keeps the features of finished segments.
\<close>

section \<open>Columns of compressed features\<close>

definition compressed_columns :: "('f, 'd) dsp \<Rightarrow> 'f list \<Rightarrow> 'f list list" where
  "compressed_columns D wav = map (map (\<lambda>v. compress_log_mel (f32 D) v (frame_log_floor D wav))) (columns_of D wav)"

lemma compressed_columns_length [simp]: "length (compressed_columns D wav) = length wav div 160"
  by (simp add: compressed_columns_def columns_of_def)

lemma compressed_columns_lengths: "\<forall>c\<in>set (compressed_columns D wav). length c = 128"
  using columns_of_lengths[of D wav] by (auto simp: compressed_columns_def)

lemma compressed_rows: "compressed D wav = rows_of 128 (compressed_columns D wav)"
  by (simp add: compressed_def compressed_columns_def map_rows_of[OF columns_of_lengths])

lemma compressed_columns_append:
  assumes "frame_log_floor D wav = frame_log_floor D (wav @ rest)" "k < length wav div 160"
  shows "take k (compressed_columns D (wav @ rest)) = take k (compressed_columns D wav)"
proof -
  have k: "min k (length wav div 160 - 1) = k" using assms(2) by (intro min_absorb1) linarith
  have "take k (columns_of D (wav @ rest)) = take k (take (length wav div 160 - 1) (columns_of D (wav @ rest)))"
    by (simp only: take_take k)
  also have "\<dots> = take k (columns_of D wav)" by (simp only: columns_of_append take_take k)
  finally show ?thesis by (simp add: compressed_columns_def take_map assms(1))
qed

lemma slice_rows_of: "map (slice a b) (rows_of n cs) = rows_of n (slice a b cs)"
  by (simp add: rows_of_def slice_def take_map drop_map)

section \<open>The audio encoder\<close>

text \<open>The encoder gives the documented number of rows for frames, and, where the code caches them, those of a whole number
  of segments do not depend on what follows.\<close>

definition columns_ok :: "'f list list \<Rightarrow> bool" where
  "columns_ok cs \<longleftrightarrow> (\<forall>c\<in>set cs. length c = 128) \<and> length cs \<le> isize_max"

definition encoder_ok :: "('f, 'e) stream_model \<Rightarrow> ('f list list \<Rightarrow> 'e list) \<Rightarrow> bool" where
  "encoder_ok m e \<longleftrightarrow> is_ok (audio_cache_segment_frames m) \<and>
     (\<forall>cs. cs \<noteq> [] \<longrightarrow> columns_ok cs \<longrightarrow>
        sm_audio_features m (rows_of 128 cs) (length cs) = Inr (e cs) \<and> length (e cs) = feat_extract_output_length (length cs)) \<and>
     (\<forall>segment cs k. audio_cache_segment_frames m = Inr (Some segment) \<longrightarrow> segment dvd k \<longrightarrow> 0 < k \<longrightarrow> k < length cs \<longrightarrow>
        columns_ok cs \<longrightarrow> e cs = e (take k cs) @ e (drop k cs))"

lemma encoder_okD:
  assumes "encoder_ok m e" "columns_ok cs"
  shows "cs \<noteq> [] \<Longrightarrow> sm_audio_features m (rows_of 128 cs) (length cs) = Inr (e cs)"
    "cs \<noteq> [] \<Longrightarrow> length (e cs) = feat_extract_output_length (length cs)"
    "audio_cache_segment_frames m = Inr (Some segment) \<Longrightarrow> segment dvd k \<Longrightarrow> 0 < k \<Longrightarrow> k < length cs \<Longrightarrow>
      e cs = e (take k cs) @ e (drop k cs)"
  using assms unfolding encoder_ok_def by blast+

lemma columns_ok_parts [simp]:
  "columns_ok cs \<Longrightarrow> columns_ok (take k cs)" "columns_ok cs \<Longrightarrow> columns_ok (drop k cs)" "columns_ok cs \<Longrightarrow> columns_ok (slice a b cs)"
  by (auto simp: columns_ok_def slice_def dest: in_set_takeD in_set_dropD)

lemma columns_ok_compressed: "length wav \<le> isize_max \<Longrightarrow> columns_ok (compressed_columns D wav)"
  using compressed_columns_lengths[of D wav] div_le_dividend[of "length wav" 160] unfolding columns_ok_def compressed_columns_length
  by (blast intro: le_trans)

text \<open>The features that are computed for a range of the frames of a recording.\<close>

lemma feature_dims_inv:
  "extractor_inv D x \<Longrightarrow> feature_dims (extractor_features x) = Inr (128, length (se_wav x) div 160)"
  by (auto simp: extractor_inv_def extractor_features_def feature_dims_def compressed_rows rows_of_def list_all_iff hd_map)

lemma compute_audio_features_inv:
  assumes "extractor_inv D x" "encoder_ok m e" "start < stop" "stop \<le> length (se_wav x) div 160" "length (se_wav x) \<le> isize_max"
  shows "compute_audio_features m (extractor_features x) (start, stop) = Inr (e (slice start stop (compressed_columns D (se_wav x))))"
proof -
  let ?cs = "slice start stop (compressed_columns D (se_wav x))"
  have len: "length ?cs = stop - start" using assms(4) by (simp add: slice_def)
  then have ne: "?cs \<noteq> []" using assms(3) by auto
  have cols: "columns_ok ?cs" using columns_ok_compressed[OF assms(5), of D] by simp
  have "128 * (stop - start) \<le> usize_max"
    using assms(4,5) by (simp add: isize_max_def usize_max_def)
  then have mul: "checked_mul 128 (stop - start) = Some (128 * (stop - start))" by (simp add: checked_mul_def)
  have rows: "ft_rows (extractor_features x) = rows_of 128 (compressed_columns D (se_wav x))"
    "ft_mask (extractor_features x) = replicate (length (se_wav x) div 160) 1"
    using assms(1) by (simp_all add: extractor_inv_def extractor_features_def compressed_rows)
  have mask: "valid_count (slice start stop (replicate (length (se_wav x) div 160) 1)) = stop - start"
    using assms(4) by (simp add: slice_def valid_count_def min_def)
  show ?thesis
    using assms(3,4) encoder_okD(1)[OF assms(2) cols ne] len
    by (auto simp: compute_audio_features_def build_feature_tensors_def feature_dims_inv[OF assms(1)] rows slice_rows_of mask mask[simplified] mul Let_def)
qed


section \<open>The cache of the encoder\<close>

definition refed_audio :: "('f, 'd) dsp \<Rightarrow> ('f, 'e) stream_model \<Rightarrow> 'f stream_options \<Rightarrow> 'f list \<Rightarrow> 'e list result" where
  "refed_audio D m stream_opts wav =
    rbind (extract_features D wav) (\<lambda>f.
    let frames_total = length wav div 160
    in if frames_total = 0 then Inl (Err ''internal error: empty features (frames_total=0)'')
       else rbind (frames_range_for_step D stream_opts frames_total) (\<lambda>frames_range. compute_audio_features m f frames_range))"

definition max_log_of :: "('f, 'd) dsp \<Rightarrow> 'f list \<Rightarrow> 'f" where
  "max_log_of D wav = compute_max_log D (rows_of 128 (columns_of D wav))"

text \<open>The cache holds the features of some audio heard before.\<close>

definition cache_ok ::
  "('f, 'd) dsp \<Rightarrow> ('f list list \<Rightarrow> 'e list) \<Rightarrow> 'f list \<Rightarrow> ('f, 'e) features_cache option \<Rightarrow> bool" where
  "cache_ok D e wav found \<longleftrightarrow> (\<forall>cache. found = Some cache \<longrightarrow> (\<exists>heard later. wav = heard @ later \<and> 160 \<le> length heard \<and>
     fc_frames cache = length heard div 160 \<and> fc_wav_len_samples cache = length heard \<and> fc_max_log cache = max_log_of D heard \<and>
     fc_audio_features cache = e (compressed_columns D heard)))"

lemma cache_ok_None [simp]: "cache_ok D e wav None"
  by (simp add: cache_ok_def)

lemma cache_ok_later: "cache_ok D e wav found \<Longrightarrow> cache_ok D e (wav @ rest) found"
  unfolding cache_ok_def by (metis append.assoc)

lemma same_floor:
  assumes "eq_respects_floor D" "comparable (f32 D) (log_values D (wav @ rest))" "f32_eq D (max_log_of D wav) (max_log_of D (wav @ rest))"
  shows "frame_log_floor D wav = frame_log_floor D (wav @ rest)"
  using assms max_log_floor[OF comparable_subset[OF assms(2) log_values_prefix]] max_log_floor[OF assms(2)]
  unfolding eq_respects_floor_def max_log_of_def by metis

lemma frames_range_bounds:
  assumes "frames_range_for_step D stream_opts n = Inr (start, stop)" "0 < n"
  shows "start < stop" "stop = n"
  using assms by (auto simp: frames_range_for_step_def saturating_sub_def Let_def split: option.splits)

lemma slice_all: "slice 0 (length xs) xs = xs"
  by (simp add: slice_def)

lemma slice_to_end: "slice k (length xs) xs = drop k xs"
  by (simp add: slice_def)

lemma extend_audio_features_ok:
  assumes inv: "extractor_inv D x" and enc: "encoder_ok m e" and eq: "eq_respects_floor D"
    and cmp: "comparable (f32 D) (log_values D (se_wav x))" and len: "length (se_wav x) \<le> isize_max" "160 \<le> length (se_wav x)"
    and seg: "audio_cache_segment_frames m = Inr (Some segment)" and cache: "cache_ok D e (se_wav x) found"
  shows "extend_audio_features D m (extractor_features x) (max_log_of D (se_wav x)) (length (se_wav x) div 160) segment found =
    Inr (e (compressed_columns D (se_wav x)))"
proof -
  let ?wav = "se_wav x" let ?cs = "compressed_columns D ?wav" let ?n = "length ?wav div 160"
  have n: "0 < ?n" using len(2) by simp
  have all: "compute_audio_features m (extractor_features x) (0, ?n) = Inr (e ?cs)"
    using compute_audio_features_inv[OF inv enc n le_refl len(1)] slice_all[of ?cs] by simp
  show ?thesis
  proof (cases found)
    case None
    then show ?thesis using all by (simp add: extend_audio_features_def)
  next
    case (Some c)
    obtain heard later where h: "?wav = heard @ later" "160 \<le> length heard" "fc_frames c = length heard div 160"
      "fc_max_log c = max_log_of D heard" "fc_audio_features c = e (compressed_columns D heard)"
      using cache Some unfolding cache_ok_def by blast
    define k where "k = recompute_from_for_stream_append (fc_frames c) segment"
    show ?thesis
    proof (cases "f32_eq D (fc_max_log c) (max_log_of D ?wav) \<and> k \<noteq> 0")
      case False
      then show ?thesis using all Some by (simp add: extend_audio_features_def k_def)
    next
      case True
      have k: "segment dvd k" "0 < k" "k < length heard div 160"
      proof -
        have "k \<le> length heard div 160 - 1"
          using True by (auto simp: k_def recompute_from_for_stream_append_def h(3) saturating_sub_def split: if_splits)
        moreover have "0 < length heard div 160" using h(2) by simp
        ultimately show "k < length heard div 160" by linarith
      qed (use True in \<open>auto simp: k_def recompute_from_for_stream_append_def split: if_splits\<close>)
      have frames: "length heard div 160 \<le> ?n" using div_le_mono[of "length heard" "length ?wav" 160] by (simp add: h(1))
      have heard_len: "length heard \<le> isize_max" using len(1) by (simp add: h(1))
      have "frame_log_floor D heard = frame_log_floor D (heard @ later)"
        using same_floor[OF eq cmp[unfolded h(1)]] True h(1,4) by simp
      from compressed_columns_append[OF this k(3)] have same: "take k ?cs = take k (compressed_columns D heard)" by (simp add: h(1))
      have before: "e (compressed_columns D heard) = e (take k ?cs) @ e (drop k (compressed_columns D heard))"
        unfolding same using encoder_okD(3)[OF enc columns_ok_compressed[OF heard_len] seg k(1,2)] k(3) by simp
      have after: "e ?cs = e (take k ?cs) @ e (drop k ?cs)"
        using encoder_okD(3)[OF enc columns_ok_compressed[OF len(1)] seg k(1,2)] less_le_trans[OF k(3) frames] by simp
      have head: "length (e (take k ?cs)) = feat_extract_output_length k"
      proof -
        have cols: "columns_ok (take k ?cs)" using columns_ok_compressed[OF len(1), of D] by simp
        have count: "length (take k ?cs) = k" using less_le_trans[OF k(3) frames] by simp
        then have "take k ?cs \<noteq> []" using k(2) by (metis list.size(3) less_irrefl)
        from encoder_okD(2)[OF enc cols this] show ?thesis unfolding count .
      qed
      have tail: "compute_audio_features m (extractor_features x) (k, ?n) = Inr (e (drop k ?cs))"
        using compute_audio_features_inv[OF inv enc _ le_refl len(1), of k] k(3) frames slice_to_end[of k ?cs] by simp
      have kept: "take (feat_extract_output_length k) (fc_audio_features c) = e (take k ?cs)"
        "\<not> length (fc_audio_features c) < feat_extract_output_length k"
        unfolding h(5) before head[symmetric] by simp_all
      have bounds: "\<not> ?n < fc_frames c" "\<not> ?n < k" using frames k(3) unfolding h(3) by linarith+
      show ?thesis
        unfolding extend_audio_features_def Some option.case k_def[symmetric] Let_def
        using True bounds kept tail by (simp add: after[symmetric])
    qed
  qed
qed


section \<open>One step\<close>

definition stream_inv ::
  "('f, 'd) dsp \<Rightarrow> ('f list list \<Rightarrow> 'e list) \<Rightarrow> 'f list \<Rightarrow> ('f, 'd, 'e) asr_stream \<Rightarrow> bool" where
  "stream_inv D e wav s \<longleftrightarrow> extractor_inv D (st_features s) \<and> se_wav (st_features s) = wav \<and> cache_ok D e wav (st_audio_cache s)"

text \<open>What follows is said of all audio that is pushed.\<close>

definition audio_ok :: "('f, 'd) dsp \<Rightarrow> 'f list \<Rightarrow> bool" where
  "audio_ok D wav \<longleftrightarrow> eq_respects_floor D \<and> comparable (f32 D) (log_values D wav) \<and> length wav \<le> isize_max - 199"

lemma audio_ok_prefix: "audio_ok D (wav @ rest) \<Longrightarrow> audio_ok D wav"
  unfolding audio_ok_def using comparable_subset[OF _ log_values_prefix] by fastforce

lemma audio_features_for_step_refed:
  assumes inv: "stream_inv D e wav s" and enc: "encoder_ok m e" and ok: "audio_ok D wav"
  shows "case refed_audio D m (st_opts s) wav of
      Inl err \<Rightarrow> audio_features_for_step D m s = Inl err
    | Inr af \<Rightarrow> \<exists>found. audio_features_for_step D m s = Inr (af, s\<lparr>st_audio_cache := found\<rparr>) \<and> cache_ok D e wav found"
proof -
  define x where "x = st_features s"
  have x: "extractor_inv D x" "se_wav x = wav" "cache_ok D e wav (st_audio_cache s)" using inv by (simp_all add: stream_inv_def x_def)
  let ?n = "length wav div 160" let ?cs = "compressed_columns D wav"
  have dims: "feature_dims (extractor_features x) = Inr (128, ?n)" using feature_dims_inv[OF x(1)] by (simp add: x(2))
  have offline: "extract_features D wav = Inr (extractor_features x)" using extractor_inv_features[OF x(1)] by (simp add: x(2))
  have len: "length (se_wav x) \<le> isize_max" using ok unfolding audio_ok_def x(2) by linarith
  have max_log: "se_max_log x = max_log_of D wav" using x(1,2) by (simp add: extractor_inv_def max_log_of_def)
  note defs = refed_audio_def offline audio_features_for_step_def x_def[symmetric] dims Let_def
  show ?thesis
  proof (cases "?n = 0")
    case True
    then show ?thesis by (simp add: defs)
  next
    case n: False
    show ?thesis
    proof (cases "frames_range_for_step D (st_opts s) ?n")
      case (Inl err)
      then show ?thesis using n by (simp add: defs)
    next
      case (Inr r)
      obtain start stop where r: "r = (start, stop)" by fastforce
      have b: "start < stop" "stop = ?n" using frames_range_bounds[of D "st_opts s" ?n start stop] Inr r n by simp_all
      define af where "af = e (slice start stop ?cs)"
      have af: "compute_audio_features m (extractor_features x) (start, stop) = Inr af"
        using compute_audio_features_inv[OF x(1) enc b(1) _ len] b(2) by (simp add: x(2) af_def)
      have cols: "columns_ok (slice start stop ?cs)" using columns_ok_compressed[OF len[unfolded x(2)], of D] by simp
      have count: "length (slice start stop ?cs) = stop - start" using b(2) by (simp add: slice_def)
      then have "slice start stop ?cs \<noteq> []" using b(1) by (metis list.size(3) zero_less_diff less_irrefl)
      from encoder_okD(2)[OF enc cols this]
      have rows: "length af = feat_extract_output_length (saturating_sub stop start)"
        unfolding af_def count using b(1) by (simp add: saturating_sub_def)
      have nonempty: "saturating_sub stop start \<noteq> 0" using b(1) by (simp add: saturating_sub_def)
      have refed: "refed_audio D m (st_opts s) wav = Inr af" using n Inr r af by (simp add: defs)
      obtain segment where seg: "audio_cache_segment_frames m = Inr segment"
        using enc by (auto simp: encoder_ok_def is_ok_iff)
      have kept: "\<exists>found. Inr (af, s) = (Inr (af, s\<lparr>st_audio_cache := found\<rparr>) :: _ result) \<and> cache_ok D e wav found"
        by (rule exI[of _ "st_audio_cache s"]) (simp add: x(3))
      consider (window) "start \<noteq> 0" | (plain) "start = 0" "segment = None" | (cached) k where "start = 0" "segment = Some k"
        by (cases segment) auto
      then show ?thesis
      proof cases
        case window
        then have "audio_features_for_step D m s = Inr (af, s\<lparr>st_audio_cache := None\<rparr>)"
          using n Inr r af rows nonempty by (simp add: defs)
        then show ?thesis unfolding refed by auto
      next
        case plain
        then have "audio_features_for_step D m s = Inr (af, s)"
          using n Inr r af rows nonempty seg b(2) by (simp add: defs)
        then show ?thesis using kept unfolding refed by simp
      next
        case (cached k)
        then have all: "af = e ?cs" using slice_all[of ?cs] b(2) by (simp add: af_def)
        have long: "160 \<le> length (se_wav x)" using n by (cases "length wav < 160") (simp_all add: x(2))
        have ext: "extend_audio_features D m (extractor_features x) (se_max_log x) ?n k (st_audio_cache s) = Inr af"
          using extend_audio_features_ok[OF x(1) enc _ _ len long _, of k "st_audio_cache s"] ok x(3) seg cached(2)
          unfolding audio_ok_def x(2) max_log all by blast
        note path = n Inr r rows nonempty seg cached b(2) x(2)
        show ?thesis
        proof (cases "current_cache D ?n (length wav) (se_max_log x) (st_audio_cache s)")
          case None
          define found where "found = \<lparr>fc_frames = ?n, fc_wav_len_samples = length wav, fc_max_log = se_max_log x, fc_audio_features = af\<rparr>"
          have "audio_features_for_step D m s = Inr (af, s\<lparr>st_audio_cache := Some found\<rparr>)"
            using path None ext by (simp add: defs found_def)
          moreover have "cache_ok D e wav (Some found)"
            unfolding cache_ok_def found_def using long by (auto simp: all max_log x(2))
          ultimately show ?thesis unfolding refed by auto
        next
          case (Some c)
          then have c: "st_audio_cache s = Some c" "fc_wav_len_samples c = length wav"
            by (auto simp: current_cache_def split: option.splits if_splits)
          then have "fc_audio_features c = af" using x(3) unfolding cache_ok_def all by fastforce
          then have "audio_features_for_step D m s = Inr (af, s)" using path Some by (simp add: defs)
          then show ?thesis using kept unfolding refed by simp
        qed
      qed
    qed
  qed
qed

text \<open>Less than a frame of audio is an error.\<close>

lemma refed_audio_short: "length wav < 160 \<Longrightarrow>
  refed_audio D m stream_opts wav = Inl (Err ''internal error: empty features (frames_total=0)'')"
  by (simp add: refed_audio_def extract_features_columns)

end
