(* ===== verification/AsrStreamResults.thy ===== *)
theory AsrStreamResults
  imports AsrStreamCache AsrBatching Chunking
begin

text \<open>
  What the streaming recogniser computes: after each chunk of the audio, however it was cut when it was pushed, the
  text is continued from the features of all audio so far.  A step of the stream is a step on the text part of
  its state (\<^verbatim>\<open>stream_step_refed\<close>), the loop over full chunks and the pushes follow the chunks of the whole audio
  (\<^verbatim>\<open>Chunking\<close>), and \<^verbatim>\<open>finish\<close> decodes what is left.
\<close>

section \<open>The specification\<close>

text \<open>A step of the text for the features of the audio.\<close>

definition text_step ::
  "('f, 'd) asr_env \<Rightarrow> ('f, 'e) stream_model \<Rightarrow> bool \<Rightarrow> 'e list result \<Rightarrow> ('f, 'd) stream_text \<Rightarrow> ('f, 'd) stream_text result" where
  "text_step env m finishing audio t =
    (let t = (if finishing \<or> st_rolling_text t \<noteq> None then clear_warm_up t else t)
     in case st_rolling_text t of
          Some rolling \<Rightarrow>
            rbind (if finishing then build_finish_prefix_windowed env t rolling else build_prefix_windowed env t rolling) (\<lambda>pre.
            rbind audio (\<lambda>af. decode_audio_windowed env m pre af t))
        | None \<Rightarrow>
            rbind (if finishing then build_finish_prefix env t else build_prefix env t) (\<lambda>pre.
            rbind audio (\<lambda>af. decode_audio env m pre af t)))"

definition refed_step ::
  "('f, 'd) asr_env \<Rightarrow> ('f, 'e) stream_model \<Rightarrow> bool \<Rightarrow> 'f list \<Rightarrow> ('f, 'd) stream_text \<Rightarrow> ('f, 'd) stream_text result" where
  "refed_step env m finishing wav t = text_step env m finishing (refed_audio (ae_dsp env) m (st_opts t) wav) t"

fun refed_chunks ::
  "('f, 'd) asr_env \<Rightarrow> ('f, 'e) stream_model \<Rightarrow> 'f list \<Rightarrow> 'f list list \<Rightarrow> ('f, 'd) stream_text \<Rightarrow> ('f, 'd) stream_text result" where
  "refed_chunks env m heard [] t = Inr t"
| "refed_chunks env m heard (c # cs) t = rbind (refed_step env m False (heard @ c) t) (refed_chunks env m (heard @ c) cs)"

definition last_transcription :: "('f, 'd, 'z) stream_text_scheme \<Rightarrow> 'd asr_transcription" where
  "last_transcription t =
    (case st_last t of Some tx \<Rightarrow> tx | None \<Rightarrow> \<lparr>at_language = [], at_text = [], at_timestamps = None\<rparr>)"

definition refed_transcription ::
  "('f, 'd) asr_env \<Rightarrow> ('f, 'e) stream_model \<Rightarrow> nat \<Rightarrow> 'f list \<Rightarrow> ('f, 'd) stream_text \<Rightarrow> 'd asr_transcription result" where
  "refed_transcription env m k wav t =
    rbind (refed_chunks env m [] (chunks_of k wav) t) (\<lambda>t.
    rbind (if rest_of k wav = [] then Inr t else refed_step env m True wav t) (\<lambda>t. Inr (last_transcription t)))"

text \<open>A client pushes its pieces and finishes.\<close>

fun push_all_pieces ::
  "('f, 'd) asr_env \<Rightarrow> ('f, 'e) stream_model \<Rightarrow> 'f audio_input list \<Rightarrow> ('f, 'd, 'e) asr_stream \<Rightarrow> ('f, 'd, 'e) asr_stream result option" where
  "push_all_pieces env m [] s = Some (Inr s)"
| "push_all_pieces env m (c # cs) s =
    (case push_audio_chunk env m c s of
       None \<Rightarrow> None
     | Some (Inl e) \<Rightarrow> Some (Inl e)
     | Some (Inr (out, s)) \<Rightarrow> push_all_pieces env m cs s)"

definition stream_pieces ::
  "('f, 'd) asr_env \<Rightarrow> ('f, 'e) stream_model \<Rightarrow> 'f audio_input list \<Rightarrow> ('f, 'd, 'e) asr_stream \<Rightarrow> 'd asr_transcription result option" where
  "stream_pieces env m pieces s = map_option (\<lambda>r. rbind r (finish_stream env m)) (push_all_pieces env m pieces s)"

section \<open>The text is decoded from the text part of the state\<close>

definition with_text :: "('f, 'd) stream_text \<Rightarrow> ('f, 'd, 'z) stream_text_scheme \<Rightarrow> ('f, 'd, 'z) stream_text_scheme" where
  "with_text t s = stream_text.extend t (stream_text.more s)"

lemma rbind_case: "rbind r f = (case r of Inl e \<Rightarrow> Inl e | Inr x \<Rightarrow> f x)"
  by (cases r) simp_all

lemmas text_part = with_text_def stream_text.extend_def stream_text.truncate_def

lemma truncate_simps [simp]:
  "st_opts (stream_text.truncate s) = st_opts s" "st_prompt_raw (stream_text.truncate s) = st_prompt_raw s"
  "st_eos_token_ids (stream_text.truncate s) = st_eos_token_ids s" "st_chunk_id (stream_text.truncate s) = st_chunk_id s"
  "st_raw_decoded (stream_text.truncate s) = st_raw_decoded s" "st_rolling_text (stream_text.truncate s) = st_rolling_text s"
  "st_last (stream_text.truncate s) = st_last s"
  by (simp_all add: stream_text.truncate_def)

lemma truncate_with_text [simp]: "stream_text.truncate (with_text t s) = t"
  by (simp add: text_part)

lemma prefixes_truncate [simp]:
  "warming_up (stream_text.truncate s) = warming_up s"
  "build_prefix env (stream_text.truncate s) = build_prefix env s"
  "build_finish_prefix env (stream_text.truncate s) = build_finish_prefix env s"
  "build_prefix_windowed env (stream_text.truncate s) = build_prefix_windowed env s"
  "build_finish_prefix_windowed env (stream_text.truncate s) = build_finish_prefix_windowed env s"
  by (simp_all add: warming_up_def build_prefix_def build_finish_prefix_def build_prefix_windowed_def build_finish_prefix_windowed_def fun_eq_iff)

lemma clear_warm_up_truncate: "clear_warm_up (stream_text.truncate s) = stream_text.truncate (clear_warm_up s)"
  by (auto simp: clear_warm_up_def warming_up_def stream_text.truncate_def split: option.splits)

lemma generate_step_truncate [simp]:
  "generate_step env m (stream_text.truncate s) = generate_step env m s"
  "transcription_of env (stream_text.truncate s) = transcription_of env s"
  by (simp_all add: generate_step_def transcription_of_def fun_eq_iff)

lemma with_text_simps [simp]:
  "st_opts (with_text t s) = st_opts t" "st_rolling_text (with_text t s) = st_rolling_text t"
  "st_chunk_id (with_text t s) = st_chunk_id t" "st_last (with_text t s) = st_last t"
  by (simp_all add: text_part)

lemma with_text_last: "with_text t s\<lparr>st_last := r\<rparr> = with_text (t\<lparr>st_last := r\<rparr>) s"
  by (simp add: text_part)

lemma with_text_decoded:
  "with_text (stream_text.truncate s\<lparr>st_raw_decoded := raw, st_last := r, st_chunk_id := n\<rparr>) s =
    s\<lparr>st_raw_decoded := raw, st_last := r, st_chunk_id := n\<rparr>"
  by (simp add: text_part)

lemma transcription_of_with_text [simp]: "transcription_of env (with_text t s) = transcription_of env t"
  by (simp add: transcription_of_def fun_eq_iff)

lemma decode_audio_truncate:
  "decode_audio env m pre af s = rbind (decode_audio env m pre af (stream_text.truncate s)) (\<lambda>t. Inr (with_text t s))"
  by (auto simp: decode_audio_def Let_def rbind_case with_text_decoded split: sum.splits)

lemma maybe_commit_truncate:
  "maybe_commit_windowed_text env s = rbind (maybe_commit_windowed_text env (stream_text.truncate s)) (\<lambda>t. Inr (with_text t s))"
  by (cases s) (auto simp: maybe_commit_windowed_text_def rbind_case text_part warming_up_def split: sum.splits option.splits)

lemma decode_audio_windowed_truncate:
  "decode_audio_windowed env m pre af s = rbind (decode_audio_windowed env m pre af (stream_text.truncate s)) (\<lambda>t. Inr (with_text t s))"
proof -
  obtain ids str where pre: "pre = (ids, str)" by fastforce
  show ?thesis
  proof (cases "generate_step env m s str af")
    case (Inr gen_ids)
    show ?thesis
    proof (cases "st_rolling_text s")
      case (Some rolling)
      define u where "u = s\<lparr>st_rolling_text := Some (rolling\<lparr>rt_tail_ids := ids @ gen_ids\<rparr>), st_chunk_id := saturating_add (st_chunk_id s) 1\<rparr>"
      have u: "stream_text.truncate s\<lparr>st_rolling_text := Some (rolling\<lparr>rt_tail_ids := ids @ gen_ids\<rparr>),
          st_chunk_id := saturating_add (st_chunk_id s) 1\<rparr> = stream_text.truncate u"
        by (simp add: u_def stream_text.truncate_def)
      have same: "with_text t u = with_text t s" for t by (simp add: text_part u_def)
      show ?thesis
      proof (cases "maybe_commit_windowed_text env (stream_text.truncate u)")
        case (Inl err)
        then show ?thesis using Inr Some maybe_commit_truncate[of env u]
          by (simp add: pre decode_audio_windowed_def u_def[symmetric] u del: One_nat_def)
      next
        case (Inr t)
        then have "maybe_commit_windowed_text env u = Inr (with_text t s)" using maybe_commit_truncate[of env u] by (simp add: same)
        then show ?thesis using \<open>generate_step env m s str af = Inr gen_ids\<close> Some Inr
          by (auto simp: pre decode_audio_windowed_def u_def[symmetric] u rbind_case with_text_last
              simp del: One_nat_def split: sum.splits option.splits)
      qed
    qed (use Inr in \<open>simp add: pre decode_audio_windowed_def\<close>)
  qed (simp add: pre decode_audio_windowed_def)
qed

section \<open>A step of the stream is a step of the text\<close>

definition simulates ::
  "('f, 'd) dsp \<Rightarrow> ('f list list \<Rightarrow> 'e list) \<Rightarrow> 'f list \<Rightarrow> ('f, 'd, 'e) asr_stream \<Rightarrow> ('f, 'd) stream_text result \<Rightarrow>
    ('f, 'd, 'e) asr_stream result \<Rightarrow> bool" where
  "simulates D e heard s q r \<longleftrightarrow>
    (case q of Inl err \<Rightarrow> r = Inl err
     | Inr t \<Rightarrow> \<exists>found. r = Inr (with_text t (s\<lparr>st_audio_cache := found\<rparr>)) \<and> cache_ok D e heard found)"

lemma simulates_rbind: "(\<And>x. p = Inr x \<Longrightarrow> simulates D e heard s (q x) (r x)) \<Longrightarrow> simulates D e heard s (rbind p q) (rbind p r)"
  by (cases p) (simp_all add: simulates_def)

lemma truncate_cache [simp]: "stream_text.truncate (s\<lparr>st_audio_cache := found\<rparr>) = stream_text.truncate s"
  by (simp add: stream_text.truncate_def)

lemma simulates_audio:
  assumes "stream_inv D e heard s" "encoder_ok m e" "audio_ok D heard"
    and natural: "\<And>af s :: ('f, 'd, 'e) asr_stream. r af s = rbind (q af (stream_text.truncate s)) (\<lambda>t. Inr (with_text t s))"
  shows "simulates D e heard (s :: ('f, 'd, 'e) asr_stream) (rbind (refed_audio D m (st_opts s) heard) (\<lambda>af. q af (stream_text.truncate s)))
    (rbind (audio_features_for_step D m s) (\<lambda>(af, s). r af s))"
  using audio_features_for_step_refed[OF assms(1-3)]
  by (auto simp: simulates_def rbind_case natural split: sum.splits)

definition stream_step ::
  "('f, 'd) asr_env \<Rightarrow> ('f, 'e) stream_model \<Rightarrow> bool \<Rightarrow> ('f, 'd, 'e) asr_stream \<Rightarrow> ('f, 'd, 'e) asr_stream result" where
  "stream_step env m finishing s =
    (if finishing then
       (let s = clear_warm_up s
        in case st_rolling_text s of
             Some rolling \<Rightarrow> rbind (build_finish_prefix_windowed env s rolling) (\<lambda>pre. decode_step_windowed_with_prefix env m pre s)
           | None \<Rightarrow> rbind (build_finish_prefix env s) (\<lambda>pre. decode_step env m pre s))
     else if st_rolling_text s \<noteq> None then decode_step_windowed env m s
     else rbind (build_prefix env s) (\<lambda>pre. decode_step env m pre s))"

lemma clear_warm_up_simps [simp]:
  "st_opts (clear_warm_up s) = st_opts s" "st_rolling_text (clear_warm_up s) = None \<longleftrightarrow> st_rolling_text s = None"
  "stream_text.more (clear_warm_up s) = stream_text.more s"
  by (auto simp: clear_warm_up_def split: option.splits)

lemma clear_warm_up_stream [simp]:
  "st_features (clear_warm_up s) = st_features s" "st_audio_cache (clear_warm_up s) = st_audio_cache s"
  by (auto simp: clear_warm_up_def split: option.splits)

lemma simulates_clear: "simulates D e heard (clear_warm_up s) q r = simulates D e heard s q r"
proof -
  have same: "with_text t (clear_warm_up s\<lparr>st_audio_cache := found\<rparr>) = with_text t (s\<lparr>st_audio_cache := found\<rparr>)" for t found
    by (cases s) (auto simp: clear_warm_up_def text_part split: option.split)
  show ?thesis unfolding simulates_def same ..
qed

lemma stream_step_refed:
  assumes inv: "stream_inv (ae_dsp env) e heard s" and enc: "encoder_ok m e" and ok: "audio_ok (ae_dsp env) heard"
  shows "simulates (ae_dsp env) e heard s (refed_step env m finishing heard (stream_text.truncate s)) (stream_step env m finishing s)"
proof -
  define u where "u = (if finishing \<or> st_rolling_text s \<noteq> None then clear_warm_up s else s)"
  have u: "stream_inv (ae_dsp env) e heard u" "st_opts u = st_opts s"
    "stream_text.truncate u = (if finishing \<or> st_rolling_text s \<noteq> None then clear_warm_up (stream_text.truncate s) else stream_text.truncate s)"
    using inv by (simp_all add: u_def stream_inv_def clear_warm_up_truncate)
  have plain: "simulates (ae_dsp env) e heard u (rbind (refed_audio (ae_dsp env) m (st_opts s) heard)
      (\<lambda>af. decode_audio env m pre af (stream_text.truncate u))) (decode_step env m pre u)" for pre
    unfolding decode_step_def u(2)[symmetric]
    by (rule simulates_audio[OF u(1) enc ok]) (rule decode_audio_truncate)
  have windowed: "simulates (ae_dsp env) e heard u (rbind (refed_audio (ae_dsp env) m (st_opts s) heard)
      (\<lambda>af. decode_audio_windowed env m pre af (stream_text.truncate u))) (decode_step_windowed_with_prefix env m pre u)" for pre
    unfolding decode_step_windowed_with_prefix_def u(2)[symmetric]
    by (rule simulates_audio[OF u(1) enc ok]) (rule decode_audio_windowed_truncate)
  have spec: "refed_step env m finishing heard (stream_text.truncate s) = (case st_rolling_text u of
      Some rolling \<Rightarrow> rbind (if finishing then build_finish_prefix_windowed env u rolling else build_prefix_windowed env u rolling) (\<lambda>pre.
        rbind (refed_audio (ae_dsp env) m (st_opts s) heard) (\<lambda>af. decode_audio_windowed env m pre af (stream_text.truncate u)))
    | None \<Rightarrow> rbind (if finishing then build_finish_prefix env u else build_prefix env u) (\<lambda>pre.
        rbind (refed_audio (ae_dsp env) m (st_opts s) heard) (\<lambda>af. decode_audio env m pre af (stream_text.truncate u))))"
    unfolding refed_step_def text_step_def Let_def truncate_simps u(3)[symmetric] prefixes_truncate ..
  have code: "stream_step env m finishing s = (case st_rolling_text u of
      Some rolling \<Rightarrow> rbind (if finishing then build_finish_prefix_windowed env u rolling else build_prefix_windowed env u rolling)
        (\<lambda>pre. decode_step_windowed_with_prefix env m pre u)
    | None \<Rightarrow> rbind (if finishing then build_finish_prefix env u else build_prefix env u) (\<lambda>pre. decode_step env m pre u))"
    using clear_warm_up_simps(2)[of s]
    by (cases "st_rolling_text s") (auto simp: stream_step_def u_def decode_step_windowed_def Let_def simp del: clear_warm_up_simps split: option.splits)
  have "simulates (ae_dsp env) e heard u (refed_step env m finishing heard (stream_text.truncate s)) (stream_step env m finishing s)"
    unfolding spec code by (cases "st_rolling_text u") (simp_all add: simulates_rbind plain windowed)
  then show ?thesis by (auto simp: u_def simulates_clear split: if_splits)
qed

section \<open>Pushing\<close>

text \<open>The stream has heard some audio, holds the rest in its buffer and has the text of the specification.\<close>

definition follows ::
  "('f, 'd) dsp \<Rightarrow> ('f list list \<Rightarrow> 'e list) \<Rightarrow> nat \<Rightarrow> 'f list \<Rightarrow> 'f list \<Rightarrow> ('f, 'd) stream_text \<Rightarrow> ('f, 'd, 'e) asr_stream \<Rightarrow> bool" where
  "follows D e k heard pend t s \<longleftrightarrow> stream_inv D e heard s \<and> st_chunk_size_samples s = k \<and>
     st_buffer_offset s \<le> length (st_buffer s) \<and> drop (st_buffer_offset s) (st_buffer s) = pend \<and> stream_text.truncate s = t"

lemma with_text_stream [simp]:
  "st_features (with_text t s) = st_features s" "st_audio_cache (with_text t s) = st_audio_cache s"
  "st_buffer (with_text t s) = st_buffer s" "st_buffer_offset (with_text t s) = st_buffer_offset s"
  "st_chunk_size_samples (with_text t s) = st_chunk_size_samples s"
  by (cases s; simp add: text_part)+

lemma heard_more:
  assumes "stream_inv D e heard s" "audio_ok D (heard @ xs)"
  obtains features where "append_samples D (st_features s) xs = Inr features"
    "\<And>t. st_features t = features \<Longrightarrow> st_audio_cache t = st_audio_cache s \<Longrightarrow> stream_inv D e (heard @ xs) t"
proof -
  have inv: "extractor_inv D (st_features s)" "se_wav (st_features s) = heard" "cache_ok D e heard (st_audio_cache s)"
    using assms(1) by (simp_all add: stream_inv_def)
  have ok: "eq_respects_floor D" "comparable (f32 D) (log_values D (se_wav (st_features s) @ xs))"
    "length (se_wav (st_features s) @ xs) \<le> isize_max - 199"
    using assms(2) by (simp_all add: audio_ok_def inv(2))
  obtain features where f: "append_samples D (st_features s) xs = Inr features" "extractor_inv D features" "se_wav features = heard @ xs"
    using append_samples_inv[OF inv(1) ok] by (auto simp: inv(2))
  show ?thesis by (rule that[OF f(1)]) (use f inv(3) in \<open>simp add: stream_inv_def cache_ok_later\<close>)
qed

lemma stream_full_chunk_refed:
  assumes f: "follows (ae_dsp env) e k heard pend t s" and enc: "encoder_ok m e" and k: "k \<le> length pend"
    and ok: "audio_ok (ae_dsp env) (heard @ take k pend)"
  shows "case refed_step env m False (heard @ take k pend) t of
      Inl err \<Rightarrow> stream_full_chunk env m s = Inl err
    | Inr t' \<Rightarrow> \<exists>s'. stream_full_chunk env m s = Inr s' \<and> follows (ae_dsp env) e k (heard @ take k pend) (drop k pend) t' s'"
proof -
  let ?D = "ae_dsp env"
  have s: "stream_inv ?D e heard s" "st_chunk_size_samples s = k" "drop (st_buffer_offset s) (st_buffer s) = pend"
    "stream_text.truncate s = t" and off: "st_buffer_offset s \<le> length (st_buffer s)"
    using f by (simp_all add: follows_def)
  obtain features where features: "append_samples ?D (st_features s) (take k pend) = Inr features"
    "\<And>t. st_features t = features \<Longrightarrow> st_audio_cache t = st_audio_cache s \<Longrightarrow> stream_inv ?D e (heard @ take k pend) t"
    using heard_more[OF s(1) ok] by blast
  define u where "u = s\<lparr>st_features := features, st_buffer_offset := st_buffer_offset s + k\<rparr>"
  have u: "stream_inv ?D e (heard @ take k pend) u" using features(2) by (simp add: u_def)
  have t: "stream_text.truncate u = t" using s(4) by (simp add: u_def stream_text.truncate_def)
  have piece: "slice (st_buffer_offset s) (st_buffer_offset s + k) (st_buffer s) = take k pend"
    using s(3) by (auto simp: slice_def take_drop add.commute)
  have chunk: "stream_full_chunk env m s = stream_step env m False u"
    using features(1) by (simp add: stream_full_chunk_def stream_step_def s(2) piece Let_def u_def)
  have rest: "st_buffer_offset s + k \<le> length (st_buffer s)" "drop (st_buffer_offset s + k) (st_buffer s) = drop k pend"
    using off k s(3) by (auto simp: add.commute)
  have "follows ?D e k (heard @ take k pend) (drop k pend) t' (with_text t' (u\<lparr>st_audio_cache := found\<rparr>))"
    if "cache_ok ?D e (heard @ take k pend) found" for t' found
    using that u s(2) rest by (simp add: follows_def stream_inv_def u_def)
  then show ?thesis
    using stream_step_refed[OF u enc ok, of False] unfolding chunk simulates_def t by (auto split: sum.splits)
qed

lemma stream_chunks_refed:
  assumes enc: "encoder_ok m e" and k: "0 < k"
  shows "follows (ae_dsp env) e k heard pend t s \<Longrightarrow> audio_ok (ae_dsp env) (heard @ pend) \<Longrightarrow>
    case refed_chunks env m heard (chunks_of k pend) t of
      Inl err \<Rightarrow> stream_chunks env m out s = Some (Inl err)
    | Inr t' \<Rightarrow> \<exists>out' s'. stream_chunks env m out s = Some (Inr (out', s')) \<and>
        follows (ae_dsp env) e k (heard @ concat (chunks_of k pend)) (rest_of k pend) t' s'"
proof (induction "length pend" arbitrary: heard pend t s out rule: less_induct)
  case less
  have len: "length (st_buffer s) - st_buffer_offset s = length pend" "st_chunk_size_samples s = k"
    using less.prems(1) by (auto simp: follows_def)
  show ?case
  proof (cases "k \<le> length pend")
    case False
    then show ?thesis using less.prems(1) len by (simp add: stream_chunks.simps[of env m out s] rest_of_def)
  next
    case True
    have "heard @ pend = (heard @ take k pend) @ drop k pend" by simp
    then have ok: "audio_ok (ae_dsp env) (heard @ take k pend)" "audio_ok (ae_dsp env) ((heard @ take k pend) @ drop k pend)"
      using less.prems(2) audio_ok_prefix by metis+
    note chunk = stream_full_chunk_refed[OF less.prems(1) enc True ok(1)]
    have next_step: "stream_chunks env m out s = (case stream_full_chunk env m s of Inl e \<Rightarrow> Some (Inl e) | Inr s \<Rightarrow> stream_chunks env m (st_last s) s)"
      using True len by (subst stream_chunks.simps) simp
    have rest: "rest_of k pend = rest_of k (drop k pend)"
      using rest_of_step[OF k, of "take k pend" "drop k pend"] True by simp
    show ?thesis
    proof (cases "refed_step env m False (heard @ take k pend) t")
      case (Inl err)
      then show ?thesis using chunk True k by (simp add: chunks_of_step next_step)
    next
      case (Inr t1)
      then obtain s1 where s1: "stream_full_chunk env m s = Inr s1"
        "follows (ae_dsp env) e k (heard @ take k pend) (drop k pend) t1 s1"
        using chunk by auto
      have shorter: "length (drop k pend) < length pend" using True k by simp
      from less.hyps[OF shorter s1(2) ok(2), of "st_last s1"] show ?thesis
        using Inr s1(1) True k by (auto simp: chunks_of_step next_step rest split: sum.splits)
    qed
  qed
qed

text \<open>The stream between two pushes.\<close>

definition between :: "('f, 'd) dsp \<Rightarrow> ('f list list \<Rightarrow> 'e list) \<Rightarrow> nat \<Rightarrow> 'f list \<Rightarrow> ('f, 'd) stream_text \<Rightarrow> ('f, 'd, 'e) asr_stream \<Rightarrow> bool" where
  "between D e k wav t s \<longleftrightarrow> st_buffer_offset s = 0 \<and> follows D e k (concat (chunks_of k wav)) (rest_of k wav) t s"

lemma push_refed:
  assumes enc: "encoder_ok m e" and k: "0 < k" and b: "between (ae_dsp env) e k wav t s"
    and w: "normalize_audio_input env c = Inr w" and ok: "audio_ok (ae_dsp env) (wav @ w)"
  shows "case refed_chunks env m (concat (chunks_of k wav)) (chunks_of k (rest_of k wav @ w)) t of
      Inl err \<Rightarrow> push_audio_chunk env m c s = Some (Inl err)
    | Inr t' \<Rightarrow> \<exists>out s'. push_audio_chunk env m c s = Some (Inr (out, s')) \<and> between (ae_dsp env) e k (wav @ w) t' s'"
proof (cases "w = []")
  case True
  then show ?thesis using b w rest_of_less[OF k, of wav] by (simp add: push_audio_chunk_def)
next
  case False
  let ?heard = "concat (chunks_of k wav)" let ?pend = "rest_of k wav @ w"
  define u where "u = s\<lparr>st_buffer := st_buffer s @ w\<rparr>"
  have u: "follows (ae_dsp env) e k ?heard ?pend t u"
    using b by (auto simp: between_def follows_def stream_inv_def u_def stream_text.truncate_def)
  have all: "?heard @ ?pend = wav @ w" using chunks_of_rest[OF k, of wav] by (metis append.assoc)
  have later: "?heard @ concat (chunks_of k ?pend) = concat (chunks_of k (wav @ w))" "rest_of k ?pend = rest_of k (wav @ w)"
    using chunks_of_append[OF k, of wav w] rest_of_append[OF k, of wav w] by simp_all
  have drained: "between (ae_dsp env) e k (wav @ w) t'
      (if st_buffer_offset s' > 0 then s'\<lparr>st_buffer := drop (st_buffer_offset s') (st_buffer s'), st_buffer_offset := 0\<rparr> else s')"
    if "follows (ae_dsp env) e k (concat (chunks_of k (wav @ w))) (rest_of k (wav @ w)) t' s'" for t' s'
    using that by (auto simp: between_def follows_def stream_inv_def stream_text.truncate_def)
  have "audio_ok (ae_dsp env) (?heard @ ?pend)" using ok by (simp only: all)
  note chunks = stream_chunks_refed[OF enc k u this, of None, unfolded later]
  have start: "\<not> length (st_buffer u) < st_buffer_offset u" using b by (simp add: between_def u_def)
  have push: "push_audio_chunk env m c s = map_option (\<lambda>r. rbind r (\<lambda>(out, s). Inr (out,
      if st_buffer_offset s > 0 then s\<lparr>st_buffer := drop (st_buffer_offset s) (st_buffer s), st_buffer_offset := 0\<rparr> else s)))
      (stream_chunks env m None u)"
    using False w start by (simp add: push_audio_chunk_def u_def Let_def)
  show ?thesis
  proof (cases "refed_chunks env m ?heard (chunks_of k ?pend) t")
    case (Inl err)
    then show ?thesis using chunks by (simp add: push)
  next
    case (Inr t')
    then obtain out s' where s': "stream_chunks env m None u = Some (Inr (out, s'))"
      "follows (ae_dsp env) e k (concat (chunks_of k (wav @ w))) (rest_of k (wav @ w)) t' s'"
      using chunks by auto
    show ?thesis using Inr drained[OF s'(2)] by (simp add: push s'(1))
  qed
qed

lemma refed_chunks_append:
  "refed_chunks env m heard (cs @ ds) t = rbind (refed_chunks env m heard cs t) (refed_chunks env m (heard @ concat cs) ds)"
proof (induction cs arbitrary: heard t)
  case (Cons c cs)
  then show ?case by (cases "refed_step env m False (heard @ c) t") simp_all
qed simp

lemma push_all_pieces_refed:
  assumes enc: "encoder_ok m e" and k: "0 < k"
  shows "list_all2 (\<lambda>c w. normalize_audio_input env c = Inr w) pieces ws \<Longrightarrow> between (ae_dsp env) e k wav t s \<Longrightarrow>
    audio_ok (ae_dsp env) (wav @ concat ws) \<Longrightarrow>
    case refed_chunks env m (concat (chunks_of k wav)) (chunks_of k (rest_of k wav @ concat ws)) t of
      Inl err \<Rightarrow> push_all_pieces env m pieces s = Some (Inl err)
    | Inr t' \<Rightarrow> \<exists>s'. push_all_pieces env m pieces s = Some (Inr s') \<and> between (ae_dsp env) e k (wav @ concat ws) t' s'"
proof (induction pieces ws arbitrary: wav t s rule: list_all2_induct)
  case Nil
  then show ?case using rest_of_less[OF k, of wav] by simp
next
  case (Cons c pieces w ws)
  let ?heard = "concat (chunks_of k wav)"
  have ok: "audio_ok (ae_dsp env) ((wav @ w) @ concat ws)" using Cons.prems(2) by simp
  note push = push_refed[OF enc k Cons.prems(1) Cons.hyps(1) audio_ok_prefix[OF ok]]
  have chunks: "chunks_of k (rest_of k wav @ concat (w # ws)) =
      chunks_of k (rest_of k wav @ w) @ chunks_of k (rest_of k (wav @ w) @ concat ws)"
    using chunks_of_append[OF k, of "rest_of k wav @ w" "concat ws"] rest_of_append[OF k, of wav w] by simp
  have heard: "?heard @ concat (chunks_of k (rest_of k wav @ w)) = concat (chunks_of k (wav @ w))"
    using chunks_of_append[OF k, of wav w] by simp
  show ?case
  proof (cases "refed_chunks env m ?heard (chunks_of k (rest_of k wav @ w)) t")
    case (Inl err)
    then show ?thesis using push unfolding chunks refed_chunks_append by simp
  next
    case (Inr t1)
    then obtain out s1 where s1: "push_audio_chunk env m c s = Some (Inr (out, s1))" "between (ae_dsp env) e k (wav @ w) t1 s1"
      using push by auto
    show ?thesis using Cons.IH[OF s1(2) ok] Inr s1(1) unfolding chunks refed_chunks_append heard
      by (auto simp: heard split: sum.splits)
  qed
qed

lemma finish_refed:
  assumes enc: "encoder_ok m e" and k: "0 < k" and b: "between (ae_dsp env) e k wav t s" and ok: "audio_ok (ae_dsp env) wav"
  shows "finish_stream env m s =
    rbind (if rest_of k wav = [] then Inr t else refed_step env m True wav t) (\<lambda>t. Inr (last_transcription t))"
proof (cases "rest_of k wav = []")
  case True
  moreover have "drop (st_buffer_offset s) (st_buffer s) = rest_of k wav" "st_last s = st_last t" "st_buffer_offset s \<le> length (st_buffer s)"
    using b truncate_simps(7)[of s] by (auto simp: between_def follows_def)
  ultimately show ?thesis by (simp add: finish_stream_def last_transcription_def)
next
  case False
  have s: "stream_inv (ae_dsp env) e (concat (chunks_of k wav)) s" "drop (st_buffer_offset s) (st_buffer s) = rest_of k wav"
    "stream_text.truncate s = t" "\<not> length (st_buffer s) < st_buffer_offset s"
    using b unfolding between_def follows_def not_less by blast+
  have ok: "audio_ok (ae_dsp env) (concat (chunks_of k wav) @ rest_of k wav)" using ok chunks_of_rest[OF k, of wav] by simp
  obtain features where features: "append_samples (ae_dsp env) (st_features s) (rest_of k wav) = Inr features"
    "\<And>t. st_features t = features \<Longrightarrow> st_audio_cache t = st_audio_cache s \<Longrightarrow> stream_inv (ae_dsp env) e wav t"
    using heard_more[OF s(1) ok] chunks_of_rest[OF k, of wav] by metis
  define u where "u = s\<lparr>st_features := features, st_buffer := [], st_buffer_offset := 0\<rparr>"
  have u: "stream_inv (ae_dsp env) e wav u" using features(2) by (simp add: u_def)
  have t: "stream_text.truncate u = t" using s(3) by (simp add: u_def stream_text.truncate_def)
  have "finish_stream env m s = rbind (stream_step env m True u) (\<lambda>s. Inr (last_transcription s))"
    using False features(1) s(2,4) by (simp add: finish_stream_def stream_step_def last_transcription_def Let_def u_def)
  then show ?thesis
    using stream_step_refed[OF u enc assms(4), of True] False unfolding simulates_def t
    by (auto simp: last_transcription_def split: sum.splits)
qed

lemma rest_of_Nil [simp]: "rest_of k [] = []"
  by (simp add: rest_of_def)

lemma new_extractor_wav [simp]: "se_wav (new_extractor D) = []"
  by (simp add: new_extractor_def Let_def)

lemma started:
  assumes "start_stream env stream_opts = Inr s"
  shows "0 < st_chunk_size_samples s" "between (ae_dsp env) e (st_chunk_size_samples s) [] (stream_text.truncate s) s"
  using assms
  by (auto simp: start_stream_def Let_def stream_chunk_size_def between_def follows_def stream_inv_def new_extractor_inv rest_of_def
      split: if_splits)

text \<open>C37: Streaming is re-feeding: audio pushed in any pieces to a stream that has just started, and finished, gives the
  transcription of the documented algorithm: after each chunk of the fixed size, and for the rest at the end, the network
  reads all audio so far (or its window) and continues the text with its rollback.  Neither the buffer, nor the
  incremental features, nor the encoder cache changes a result or an error, and the loop over chunks ends.  The hypotheses
  are those of the streamed features, and that the audio encoder gives the documented number of rows and, where its
  output is cached, works on segments.\<close>

theorem stream_is_refeeding:
  assumes "start_stream env stream_opts = Inr s" "encoder_ok m e" "audio_ok (ae_dsp env) (concat ws)"
    "list_all2 (\<lambda>c w. normalize_audio_input env c = Inr w) pieces ws"
  shows "stream_pieces env m pieces s =
    Some (refed_transcription env m (st_chunk_size_samples s) (concat ws) (stream_text.truncate s))"
proof -
  note start = started[OF assms(1)]
  note finish = finish_refed[OF assms(2) start(1) _ assms(3)]
  have ok: "audio_ok (ae_dsp env) ([] @ concat ws)" using assms(3) by simp
  have push: "case refed_chunks env m [] (chunks_of (st_chunk_size_samples s) (concat ws)) (stream_text.truncate s) of
      Inl err \<Rightarrow> push_all_pieces env m pieces s = Some (Inl err)
    | Inr t \<Rightarrow> \<exists>s'. push_all_pieces env m pieces s = Some (Inr s') \<and> between (ae_dsp env) e (st_chunk_size_samples s) (concat ws) t s'"
    using push_all_pieces_refed[OF assms(2) start(1) assms(4) start(2)[where e = e] ok] by (simp cong: sum.case_cong)
  show ?thesis
  proof (cases "refed_chunks env m [] (chunks_of (st_chunk_size_samples s) (concat ws)) (stream_text.truncate s)")
    case (Inl err)
    then show ?thesis using push by (simp add: stream_pieces_def refed_transcription_def)
  next
    case (Inr t)
    then obtain s' where "push_all_pieces env m pieces s = Some (Inr s')" "between (ae_dsp env) e (st_chunk_size_samples s) (concat ws) t s'"
      using push by auto
    then show ?thesis using Inr finish by (simp add: stream_pieces_def refed_transcription_def)
  qed
qed

text \<open>An encoder with flash attention over segments of eight seconds, and two pieces of 1.25 seconds in chunks of two seconds.\<close>

definition example_stream_model :: "(int, nat) stream_model" where
  "example_stream_model = \<lparr>sm_audio_features = (\<lambda>rows n. Inr (replicate (feat_extract_output_length n) 0)), sm_uses_flash_attn = True,
     sm_n_window = 50, sm_n_window_infer = 800, sm_audio_token_id = 9, sm_generate = (\<lambda>ids mask audio max_new eos. Inr [length ids])\<rparr>"

lemma div_floor_2: "div_floor a 2 = a div 2"
  by (simp add: div_floor_def idiv_def Let_def) presburger

lemma feat_extract_output_length_div:
  assumes "n \<le> isize_max"
  shows "int (feat_extract_output_length n) = ((int n mod 100 - 1) div 2 div 2) div 2 + 1 + int n div 100 * 13"
proof -
  define base where "base = ((int n mod 100 - 1) div 2 div 2) div 2 + 1"
  have min: "min (int n) (int i64_max) = int n" using assms by (simp add: isize_max_def i64_max_def)
  have extra: "div_floor (int n) 100 = int n div 100" by (simp add: div_floor_def idiv_def Let_def) presburger
  have "feat_extract_output_length n = (if 0 \<le> base + int n div 100 * 13 then nat (base + int n div 100 * 13) else 0)"
    unfolding feat_extract_output_length_def Let_def min div_floor_2 extra base_def add_diff_cancel_right' ..
  moreover have "0 \<le> int n mod 100" by simp
  then have "0 \<le> base" unfolding base_def by linarith
  ultimately show ?thesis unfolding base_def[symmetric] by simp
qed

lemma example_segments:
  assumes "800 dvd k" "k + n \<le> isize_max"
  shows "feat_extract_output_length (k + n) = feat_extract_output_length k + feat_extract_output_length n"
proof -
  obtain q where q: "k = 800 * q" using assms(1) by (auto elim: dvdE)
  have "int (feat_extract_output_length (k + n)) = int (feat_extract_output_length k) + int (feat_extract_output_length n)"
  proof -
    have "800 * int q + int n = int n + 100 * (8 * int q)" by simp
    then have "(800 * int q + int n) mod 100 = int n mod 100" "(800 * int q + int n) div 100 = 8 * int q + int n div 100"
      by (simp_all only: mod_mult_self2 div_mult_self2 zero_neq_numeral not_False_eq_True add.commute)
    then show ?thesis using assms(2) by (simp add: feat_extract_output_length_div q)
  qed
  then show ?thesis by linarith
qed

lemma example_encoder: "encoder_ok example_stream_model (\<lambda>cs. replicate (feat_extract_output_length (length cs)) 0)"
proof -
  have segment: "audio_cache_segment_frames example_stream_model = Inr (Some 800)"
    by (simp add: audio_cache_segment_frames_def example_stream_model_def checked_mul_def usize_max_def)
  have "replicate (feat_extract_output_length (length cs)) (0 :: nat) =
      replicate (feat_extract_output_length (length (take k cs))) 0 @ replicate (feat_extract_output_length (length (drop k cs))) 0"
    if "800 dvd k" "k < length cs" "columns_ok cs" for k and cs :: "int list list"
    using example_segments[OF that(1), of "length cs - k"] that(2,3) by (simp add: replicate_add[symmetric] columns_ok_def)
  then show ?thesis by (simp add: encoder_ok_def segment) (simp add: example_stream_model_def)
qed

lemma normalize_samples_length [simp]: "length (normalize_samples F wav) = length wav"
  by (simp add: normalize_samples_def Let_def)

theorem stream_is_refeeding_witness:
  "\<exists>s. start_stream example_env (default_stream_options example_ops) = Inr s \<and> st_chunk_size_samples s = 32000 \<and>
    stream_pieces example_env example_stream_model [WaveformInput (replicate 20000 1) 16000, WaveformInput (replicate 20000 0) 16000] s =
      Some (refed_transcription example_env example_stream_model 32000
        (concat [normalize_samples example_ops (replicate 20000 1), normalize_samples example_ops (replicate 20000 0)])
        (stream_text.truncate s))"
proof -
  obtain s :: "(int, int, nat) asr_stream" where s: "start_stream example_env (default_stream_options example_ops) = Inr s" "st_chunk_size_samples s = 32000"
    by (simp add: start_stream_def default_stream_options_def normalize_forced_language_def build_eos_token_ids_def stream_chunk_size_def
        SAMPLE_RATE_HZ_def example_env_def example_dsp_def example_ops_def f_to_usize_def usize_max_def Let_def)
  have "comparable (f32 example_dsp) (log_values example_dsp wav)" for wav
    by (auto simp: comparable_def example_dsp_def example_ops_def)
  moreover have "eq_respects_floor example_dsp" by (simp add: eq_respects_floor_def example_dsp_def)
  ultimately have "audio_ok (ae_dsp example_env)
      (concat [normalize_samples example_ops (replicate 20000 1), normalize_samples example_ops (replicate 20000 0)])"
    by (simp add: audio_ok_def example_env_def isize_max_def)
  then have "stream_pieces example_env example_stream_model
      [WaveformInput (replicate 20000 1) 16000, WaveformInput (replicate 20000 0) 16000] s =
    Some (refed_transcription example_env example_stream_model (st_chunk_size_samples s)
      (concat [normalize_samples example_ops (replicate 20000 1), normalize_samples example_ops (replicate 20000 0)]) (stream_text.truncate s))"
    by (rule stream_is_refeeding[OF s(1) example_encoder])
      (simp add: normalize_audio_input_def SAMPLE_RATE_HZ_def example_env_def example_dsp_def Let_def)
  then show ?thesis using s by auto
qed

end
