(* ===== verification/Spec2Isabelle.thy ===== *)
theory Spec2Isabelle
  imports SchedulerLoop FsmnVadSegments Cer TaskQueue AlignWords AlignTime TranscribeFaults AsyncResults AsrAlign AsrStreamResults
begin

text \<open>
  A model of vASR, a speech recognition framework in Rust, with the theorems that make its own logic
  correct.  Paths are those of the repository.

  The parts of the program and how they interact.  A request is a list of audio sources.
  \<^verbatim>\<open>vasr-transcribe/src/pipeline.rs\<close> removes duplicates, loads each source and cuts it by voice
  activity detection in concurrent tasks, and feeds a worker that collects batches for the recogniser.
  The detector is \<^verbatim>\<open>vasr-runtime/src/models/vad.rs\<close> with the end-point state machine of
  \<^verbatim>\<open>e2e_vad.rs\<close>; \<^verbatim>\<open>vasr-runtime/src/pipeline/mod.rs\<close> turns what it detects into slices.  The
  recogniser prepares prompts and decodes them with a transformer whose keys and values live in a paged cache:
  \<^verbatim>\<open>vasr-paged-attn\<close> allocates its blocks and computes slots,
  \<^verbatim>\<open>vasr-models/src/model/paged_batch_engine.rs\<close> runs prefill and decode steps of a batch, and
  \<^verbatim>\<open>vasr-models/src/inference/batch_scheduler.rs\<close> admits requests into running batches.  The forced
  aligner of \<^verbatim>\<open>vasr-models/src/forced_aligner\<close> puts times on the words.  Results are annotated time lines
  (\<^verbatim>\<open>vasr-data\<close>); \<^verbatim>\<open>vasr-runtime/src/scheduler.rs\<close> orders inference tasks by priority.

  Theories, the code they model, and what their lemmas show.

  Shared vocabulary.  \<^verbatim>\<open>Prelude\<close>: results with errors and panics, checked and saturating arithmetic, the state
  monad with its triple.  \<^verbatim>\<open>Float32\<close>: the operations on \<^verbatim>\<open>f32\<close> as a record, for which the theorems are
  general.  \<^verbatim>\<open>RustText\<close>: strings as lists of code points.

  Paged cache.  \<^verbatim>\<open>BlockManager\<close> (\<^verbatim>\<open>PagedBlockManager\<close>): allocation, trim and free keep the partition of the
  block ids (C1, C2); the locale \<^verbatim>\<open>block_pool\<close> states what the engine relies on and is interpreted
  on the block manager.  \<^verbatim>\<open>PagedKv\<close> (\<^verbatim>\<open>paged_kv_cache.rs\<close>, \<^verbatim>\<open>flash.rs\<close>): metadata and slots never
  alias (C3, C4, \<^verbatim>\<open>contiguous_layout_is_paged\<close>).  \<^verbatim>\<open>CudaGraphBuckets\<close> (\<^verbatim>\<open>cuda_graph.rs\<close>) and \<^verbatim>\<open>CacheRuntime\<close>
  (\<^verbatim>\<open>paged_cache_runtime.rs\<close>): buckets, sizing and the registry of captured graphs (C5 to C7).

  Batched decoding.  \<^verbatim>\<open>PromptBatch\<close> (\<^verbatim>\<open>generation.rs\<close>): right-padding of prompts (C8).  \<^verbatim>\<open>BatchEngine\<close>
  (\<^verbatim>\<open>paged_batch_engine.rs\<close>): a batch run returns, respects its bounds and gives its blocks back (C9, C10).
  \<^verbatim>\<open>BatchScheduler\<close>, \<^verbatim>\<open>SchedulerStep\<close>, \<^verbatim>\<open>SchedulerInvariant\<close>, \<^verbatim>\<open>SchedulerLoop\<close>
  (\<^verbatim>\<open>batch_scheduler.rs\<close>): admission, grouping and the continuous loop (C11 to C15).  The loop is a
  \<^verbatim>\<open>partial_function\<close>: not returning is the value None, so C12 proves that it returns and C13
  when it does not.

  Audio.  \<^verbatim>\<open>AudioData\<close>, \<^verbatim>\<open>AudioStream\<close> (\<^verbatim>\<open>time.rs\<close>, \<^verbatim>\<open>waveform.rs\<close>, \<^verbatim>\<open>stream.rs\<close>):
  slices and the PCM byte stream.  \<^verbatim>\<open>Chunking\<close>: the locale \<^verbatim>\<open>fixed_chunker\<close> of components that
  buffer an input and hand on full chunks, interpreted on the byte stream and on the streaming detector.
  \<^verbatim>\<open>E2eVad\<close>, \<^verbatim>\<open>E2eVadSegments\<close>, \<^verbatim>\<open>E2eVadCalls\<close> (\<^verbatim>\<open>e2e_vad.rs\<close>) and \<^verbatim>\<open>FsmnVad\<close>,
  \<^verbatim>\<open>FsmnVadSegments\<close> (\<^verbatim>\<open>vad.rs\<close>): the state machine never panics and its segments are ordered, disjoint
  and inside the recording.  \<^verbatim>\<open>AudioSplit\<close> (\<^verbatim>\<open>chunking.rs\<close>): the pieces of long audio are the audio and have bounded
  lengths (C33).

  Recognition.  \<^verbatim>\<open>FeatureExtractor\<close> (\<^verbatim>\<open>processor/feature_extractor.rs\<close>): log-mel features of a whole recording and of a
  growing one, which keeps all frames but the last (C35).  \<^verbatim>\<open>AsrPrepare\<close> (\<^verbatim>\<open>audio/input.rs\<close>,
  \<^verbatim>\<open>audio/normalize.rs\<close>, \<^verbatim>\<open>processor/chat_template.rs\<close>, \<^verbatim>\<open>feat_lengths.rs\<close>, \<^verbatim>\<open>asr_processor.rs\<close>): from audio and a
  context to token ids, masks and features.  \<^verbatim>\<open>AsrTranscribe\<close> (\<^verbatim>\<open>inference/transcribe.rs\<close>, \<^verbatim>\<open>types.rs\<close>):
  chunks, buckets, batches and assembly; \<^verbatim>\<open>AsrBatching\<close>: the batching does not show in the result
  (C36).  \<^verbatim>\<open>AsrAlign\<close>: the variant with word times (C38).
  \<^verbatim>\<open>AsrStream\<close> (\<^verbatim>\<open>inference/streaming.rs\<close>): the streaming recogniser; \<^verbatim>\<open>AsrStreamCache\<close> and
  \<^verbatim>\<open>AsrStreamResults\<close>: buffer and caches do not show, a stream is the documented re-feeding of all audio
  (C37, for an audio encoder that works on segments).

  Text.  \<^verbatim>\<open>Cer\<close> (\<^verbatim>\<open>cer.rs\<close>): the edit counts are those of a shortest script.  \<^verbatim>\<open>AlignText\<close>,
  \<^verbatim>\<open>AlignWords\<close>, \<^verbatim>\<open>AlignTime\<close> (\<^verbatim>\<open>forced_aligner/processor.rs\<close>): the words cover the text, the times are
  monotone.  \<^verbatim>\<open>AsrOutput\<close> (\<^verbatim>\<open>inference/utils.rs\<close>): language names, repetitions and the parser of what the
  recogniser writes (C34).

  Runtime.  \<^verbatim>\<open>TaskQueue\<close> (\<^verbatim>\<open>scheduler.rs\<close>): clients and worker as a step relation over all
  interleavings; the locale \<^verbatim>\<open>priority_queue\<close> is interpreted on the heap.  \<^verbatim>\<open>Timeline\<close> (\<^verbatim>\<open>timeline.rs\<close>,
  \<^verbatim>\<open>segment.rs\<close>, \<^verbatim>\<open>token.rs\<close>) and \<^verbatim>\<open>OfflinePipeline\<close> (\<^verbatim>\<open>pipeline/mod.rs\<close>): slices cover the detected
  speech.  \<^verbatim>\<open>TranscribePipeline\<close>, \<^verbatim>\<open>TranscribeWorker\<close>, \<^verbatim>\<open>TranscribeResults\<close>, \<^verbatim>\<open>TranscribeFaults\<close>
  (\<^verbatim>\<open>vasr-transcribe/src/pipeline.rs\<close>): the parallel pipeline gives what the sequential one gives, for every order
  of arrival, up to the two faults shown.  \<^verbatim>\<open>AsyncPipeline\<close>, \<^verbatim>\<open>AsyncResults\<close> (\<^verbatim>\<open>pipeline/async.rs\<close>): so does
  the second form of it (C39), with a fault of its own (C40).  The locale
  \<^verbatim>\<open>segment_worker\<close> of \<^verbatim>\<open>TranscribeResults\<close> is the contract of a worker that collects batches, interpreted on the workers of both.

  Bounds.  \<^verbatim>\<open>usize\<close>, \<^verbatim>\<open>u32\<close> and \<^verbatim>\<open>i64\<close> are numbers with their range written out where an operation is
  checked, saturates or casts; lengths of vectors are assumed below the bound where they enter such an operation.
  The 8-bit values of PCM and of percent-decoding are words.  The \<^verbatim>\<open>i32\<close> counters of the detector are unbounded:
  they count the frames of one recording.  No definition uses fuel: loops are structural, have a measure, or are
  partial functions into option.

  Parameters.  Code that is not in the repository is an argument: the forward pass and the argmax of the
  network, the front end and the scores of the detector, the Fourier transform and the arithmetic of floats, the
  tokenizer, resampling, the order an unstable sort gives to equal keys, graph capture, the amount of device memory, the
  Unicode tables, the Japanese tokenizer, the file system, a hash function, and the audio decoder.  What the
  code relies on is a named hypothesis (\<^verbatim>\<open>unicode_env\<close>, \<^verbatim>\<open>covering_tokenizer\<close>, \<^verbatim>\<open>net_frames\<close>,
  \<^verbatim>\<open>pointwise\<close>, \<^verbatim>\<open>rows_independent\<close>, \<^verbatim>\<open>eq_respects_floor\<close> and others), and a witness instantiates it.

  Findings.  The theorems named in the manifest show: a starved slot that skips a position (C10), a scheduling
  loop that spins for ever (C13), a pool that exceeds its byte budget by the null block (C6), compressed times of a
  streaming session (C19), a push that never returns (C21), callers stranded by a panic (C26), repeated
  outcomes of a failed recording (C31), and lost speech annotations (C32, C40).

  Not modelled.  The transformer and the audio encoder (\<^verbatim>\<open>thinker.rs\<close>, \<^verbatim>\<open>thinker_text.rs\<close>, \<^verbatim>\<open>attention.rs\<close>,
  \<^verbatim>\<open>audio_encoder.rs\<close>, \<^verbatim>\<open>rope\<close>, \<^verbatim>\<open>kv_cache.rs\<close>), quantisation and the Metal and CUDA kernels are tensor
  arithmetic of other libraries; weights, configuration, downloads, audio decoding and the front end of the detector
  are file formats and signal processing; the servers and command lines are input and output around the modelled pipeline.
  Locks that are poisoned, logging and timing are left out throughout.
\<close>

end
